(* ===== verification/Prelude.thy ===== *)
theory Prelude
  imports Main "HOL-Library.Word" "HOL-Library.Monad_Syntax"
begin

text \<open>
  Shared vocabulary of the development.  Memory that the C code reads and writes through pointers
  is a list; a read or write outside it has no result (\<open>None\<close>), as has a failed
  \<^verbatim>\<open>PDNSD_ASSERT\<close> (which ends the thread).  So a theorem that an operation returns \<open>Some\<close>
  is a memory-safety statement.  The theory also holds the C-locale character functions the code
  uses from \<^verbatim>\<open>ctype.h\<close> and the generic lemmas on lists and bytes the components share.
\<close>

unbundle bit_operations_syntax

named_theorems mem_simps \<open>unfolding of checked reads and writes\<close>
named_theorems flag_simps \<open>unfolding of flag constants and tests\<close>

type_synonym byte = "8 word"

definition rd :: "'a list \<Rightarrow> nat \<Rightarrow> 'a option" where
  "rd b i = (if i < length b then Some (b ! i) else None)"

definition wr :: "'a list \<Rightarrow> nat \<Rightarrow> 'a \<Rightarrow> 'a list option" where
  "wr b i v = (if i < length b then Some (b[i := v]) else None)"

lemma rd_None [simp]: "rd b i = None \<longleftrightarrow> length b \<le> i"
  by (auto simp: rd_def)

lemma rd_Some: "rd b i = Some v \<longleftrightarrow> i < length b \<and> b ! i = v"
  by (auto simp: rd_def)

lemma rd_SomeD: "rd b i = Some v \<Longrightarrow> i < length b"
  by (auto simp: rd_def split: if_splits)

lemma rd_lt [mem_simps]: "i < length b \<Longrightarrow> rd b i = Some (b ! i)"
  by (simp add: rd_def)

lemma rd_Cons_0 [simp]: "rd (x # xs) 0 = Some x"
  by (simp add: rd_def)

lemma rd_append_left [mem_simps]: "i < length xs \<Longrightarrow> rd (xs @ ys) i = rd xs i"
  by (simp add: rd_def nth_append)

lemma rd_append_right [mem_simps]: "length xs \<le> i \<Longrightarrow> rd (xs @ ys) i = rd ys (i - length xs)"
  by (auto simp: rd_def nth_append)

lemma rd_drop [mem_simps]: "rd (drop k xs) i = rd xs (k + i)"
  by (auto simp: rd_def)

lemma wr_None [simp]: "wr b i v = None \<longleftrightarrow> length b \<le> i"
  by (auto simp: wr_def)

lemma wr_Some: "wr b i v = Some b' \<longleftrightarrow> i < length b \<and> b' = b[i := v]"
  by (auto simp: wr_def)

lemma wr_lt [mem_simps]: "i < length b \<Longrightarrow> wr b i v = Some (b[i := v])"
  by (simp add: wr_def)

lemma wr_length: "wr b i v = Some b' \<Longrightarrow> length b' = length b"
  by (auto simp: wr_Some)

text \<open>Copying a block: \<^verbatim>\<open>memcpy(dst+i, src, length src)\<close>.\<close>

definition wrs :: "'a list \<Rightarrow> nat \<Rightarrow> 'a list \<Rightarrow> 'a list option" where
  "wrs b i vs = (if i + length vs \<le> length b
                 then Some (take i b @ vs @ drop (i + length vs) b) else None)"

lemma wrs_None [simp]: "wrs b i vs = None \<longleftrightarrow> length b < i + length vs"
  by (auto simp: wrs_def)

lemma wrs_Some: "wrs b i vs = Some b' \<longleftrightarrow>
    i + length vs \<le> length b \<and> b' = take i b @ vs @ drop (i + length vs) b"
  by (auto simp: wrs_def)

lemma wrs_length: "wrs b i vs = Some b' \<Longrightarrow> length b' = length b"
  by (auto simp: wrs_Some)

text \<open>Reading a block of \<open>n\<close> cells at \<open>i\<close>.\<close>

definition rds :: "'a list \<Rightarrow> nat \<Rightarrow> nat \<Rightarrow> 'a list option" where
  "rds b i n = (if i + n \<le> length b then Some (take n (drop i b)) else None)"

lemma rds_None [simp]: "rds b i n = None \<longleftrightarrow> length b < i + n"
  by (auto simp: rds_def)

lemma rds_Some: "rds b i n = Some v \<longleftrightarrow> i + n \<le> length b \<and> v = take n (drop i b)"
  by (auto simp: rds_def)

lemma rds_length: "rds b i n = Some v \<Longrightarrow> length v = n"
  by (auto simp: rds_Some)

lemma take_Suc_list_update: "i < length b \<Longrightarrow> take (Suc i) (b[i := v]) = take i b @ [v]"
  by (simp add: take_Suc_conv_app_nth)

lemma take_list_update_ge: "n \<le> i \<Longrightarrow> take n (b[i := v]) = take n b"
  by simp

subsection \<open>Characters in the C locale\<close>

definition tolower :: "byte \<Rightarrow> byte" where
  "tolower c = (if 65 \<le> c \<and> c \<le> 90 then c + 32 else c)"

definition toupper :: "byte \<Rightarrow> byte" where
  "toupper c = (if 97 \<le> c \<and> c \<le> 122 then c - 32 else c)"

definition isgraph :: "byte \<Rightarrow> bool" where
  "isgraph c \<longleftrightarrow> 33 \<le> c \<and> c \<le> 126"

definition isprint :: "byte \<Rightarrow> bool" where
  "isprint c \<longleftrightarrow> 32 \<le> c \<and> c \<le> 126"

definition isspace :: "byte \<Rightarrow> bool" where
  "isspace c \<longleftrightarrow> c = 32 \<or> (9 \<le> c \<and> c \<le> 13)"

lemma toupper_tolower [simp]: "toupper (tolower c) = toupper c"
  unfolding toupper_def tolower_def by (unat_arith; simp)

lemma tolower_toupper [simp]: "tolower (toupper c) = tolower c"
  unfolding toupper_def tolower_def by (unat_arith; simp)

lemma tolower_idem [simp]: "tolower (tolower c) = tolower c"
  unfolding tolower_def by (unat_arith; simp)

lemma toupper_eq_iff: "toupper a = toupper b \<longleftrightarrow> tolower a = tolower b"
  by (metis tolower_toupper toupper_tolower)

lemma unat_byte_less [simp]: "unat (b::byte) < 256"
  using unsigned_less [of b] by simp

lemma unat_byte_of_nat: "n < 256 \<Longrightarrow> unat (of_nat n :: byte) = n"
  by (simp add: unat_of_nat)

lemma byte_of_nat_eq_0: "n < 256 \<Longrightarrow> (of_nat n :: byte) = 0 \<longleftrightarrow> n = 0"
  by (metis unat_byte_of_nat unat_eq_zero)

lemma unat_gt_0_byte: "(b::byte) \<noteq> 0 \<Longrightarrow> 0 < unat b"
  by (simp add: unat_gt_0)

end
