(* ===== verification/Names.thy ===== *)
theory Names
  imports Prelude "HOL-Library.Sublist"
begin

text \<open>
  Domain names (\<^verbatim>\<open>helpers.c\<close>, \<^verbatim>\<open>helpers.h\<close>).  The code keeps names in
  length-byte string form.  The abstract name is a list of labels; \<open>enc\<close> is its byte form and
  \<open>name_at b p ls\<close> says that the bytes of \<open>b\<close> from position \<open>p\<close> on are the name \<open>ls\<close>.
  The section on names shows that each C routine, on any memory that holds a name, computes the
  corresponding function of the label list, and that it never reads outside that name.
\<close>

definition DNSNAMEBUFSIZE :: nat where
  "DNSNAMEBUFSIZE = 256"

subsection \<open>The routines on names\<close>

function rhnlen_at :: "byte list \<Rightarrow> nat \<Rightarrow> nat option" where
  "rhnlen_at b i = do {
     lb \<leftarrow> rd b i;
     if lb = 0 then Some (i + 1) else rhnlen_at b (i + 1 + unat lb) }"
  by pat_completeness auto
termination
  by (relation "measure (\<lambda>(b, i). length b - i)") (auto dest: rd_SomeD)

definition rhnlen :: "byte list \<Rightarrow> nat option" where
  "rhnlen rhn = rhnlen_at rhn 0"

definition skiprhn :: "byte list \<Rightarrow> nat \<Rightarrow> nat option" where
  "skiprhn b p = rhnlen_at b p"

primrec skipsegs :: "byte list \<Rightarrow> nat \<Rightarrow> nat \<Rightarrow> nat option" where
  "skipsegs b nm 0 = Some nm"
| "skipsegs b nm (Suc k) = do {
     lb \<leftarrow> rd b nm;
     if lb = 0 then Some nm else skipsegs b (nm + unat lb + 1) k }"

function rhnsegcnt_loop :: "byte list \<Rightarrow> nat \<Rightarrow> nat \<Rightarrow> nat option" where
  "rhnsegcnt_loop b rhn res = do {
     lb \<leftarrow> rd b rhn;
     if lb = 0 then Some res else rhnsegcnt_loop b (rhn + unat lb + 1) (res + 1) }"
  by pat_completeness auto
termination
  by (relation "measure (\<lambda>(b, i, res). length b - i)") (auto dest: rd_SomeD)

definition rhnsegcnt :: "byte list \<Rightarrow> nat option" where
  "rhnsegcnt rhn = rhnsegcnt_loop rhn 0 0"

text \<open>The inner loop of \<^verbatim>\<open>rhnicmp\<close>: compare \<open>lb\<close> characters, stop at the first difference.\<close>

primrec rhnicmp_lab :: "byte list \<Rightarrow> byte list \<Rightarrow> nat \<Rightarrow> nat \<Rightarrow> bool option" where
  "rhnicmp_lab a b i 0 = Some True"
| "rhnicmp_lab a b i (Suc lb) = do {
     x \<leftarrow> rd a i; y \<leftarrow> rd b i;
     if tolower x \<noteq> tolower y then Some False else rhnicmp_lab a b (i + 1) lb }"

function rhnicmp_at :: "byte list \<Rightarrow> byte list \<Rightarrow> nat \<Rightarrow> bool option" where
  "rhnicmp_at a b i = do {
     lb \<leftarrow> rd a i; y \<leftarrow> rd b i;
     if lb \<noteq> y then Some False
     else if lb = 0 then Some True
     else do {
       same \<leftarrow> rhnicmp_lab a b (i + 1) (unat lb);
       if same then rhnicmp_at a b (i + 1 + unat lb) else Some False } }"
  by pat_completeness auto
termination
  by (relation "measure (\<lambda>(a, b, i). length a - i)") (auto dest: rd_SomeD)

definition rhnicmp :: "byte list \<Rightarrow> byte list \<Rightarrow> bool option" where
  "rhnicmp a b = rhnicmp_at a b 0"

text \<open>\<^verbatim>\<open>rhncpy\<close>: the new contents of the destination buffer and the number of bytes copied.\<close>

definition rhncpy :: "byte list \<Rightarrow> byte list \<Rightarrow> (byte list \<times> nat) option" where
  "rhncpy dst src = do {
     len \<leftarrow> rhnlen src;
     _ \<leftarrow> (if len \<le> DNSNAMEBUFSIZE then Some () else None);
     bs \<leftarrow> rds src 0 (if len > DNSNAMEBUFSIZE then DNSNAMEBUFSIZE else len);
     dst' \<leftarrow> wrs dst 0 bs;
     Some (dst', len) }"

function isnormalencdomname_loop :: "byte list \<Rightarrow> nat \<Rightarrow> nat \<Rightarrow> bool option" where
  "isnormalencdomname_loop rhn maxlen i =
     (if i \<ge> maxlen then Some False
      else do {
        lb \<leftarrow> rd rhn i;
        if lb = 0 then Some True
        else if lb > 0x3f then Some False
        else isnormalencdomname_loop rhn maxlen (i + 1 + unat lb) })"
  by pat_completeness auto
termination
  by (relation "measure (\<lambda>(b, m, i). length b - i)") (auto dest: rd_SomeD)

definition isnormalencdomname :: "byte list \<Rightarrow> nat \<Rightarrow> bool option" where
  "isnormalencdomname rhn maxlen =
     isnormalencdomname_loop rhn (if maxlen > DNSNAMEBUFSIZE then DNSNAMEBUFSIZE else maxlen) 0"

declare rhnlen_at.simps [simp del] rhnsegcnt_loop.simps [simp del] rhnicmp_at.simps [simp del]
  isnormalencdomname_loop.simps [simp del]

subsection \<open>Abstract names\<close>

definition lab_ok :: "byte list \<Rightarrow> bool" where
  "lab_ok l \<longleftrightarrow> 0 < length l \<and> length l < 256"

definition lab63 :: "byte list \<Rightarrow> bool" where
  "lab63 l \<longleftrightarrow> 0 < length l \<and> length l \<le> 63"

primrec enc :: "byte list list \<Rightarrow> byte list" where
  "enc [] = [0]"
| "enc (l # ls) = of_nat (length l) # l @ enc ls"

text \<open>A name the code accepts: labels of 1 to 63 bytes, at most \<open>DNSNAMEBUFSIZE\<close> bytes in all.\<close>

definition wf_name :: "byte list list \<Rightarrow> bool" where
  "wf_name ls \<longleftrightarrow> list_all lab63 ls \<and> length (enc ls) \<le> DNSNAMEBUFSIZE"

primrec name_at :: "byte list \<Rightarrow> nat \<Rightarrow> byte list list \<Rightarrow> bool" where
  "name_at b p [] \<longleftrightarrow> rd b p = Some 0"
| "name_at b p (l # ls) \<longleftrightarrow> lab_ok l \<and> rd b p = Some (of_nat (length l)) \<and>
     take (length l) (drop (p + 1) b) = l \<and> name_at b (p + 1 + length l) ls"

definition lower_name :: "byte list list \<Rightarrow> byte list list" where
  "lower_name = map (map tolower)"

lemma lab63_ok: "lab63 l \<Longrightarrow> lab_ok l"
  by (simp add: lab63_def lab_ok_def)

lemma lab_ok_len [simp]: "lab_ok l \<Longrightarrow> unat (of_nat (length l) :: byte) = length l"
  by (simp add: lab_ok_def unat_byte_of_nat)

lemma lab_ok_len_0 [simp]: "lab_ok l \<Longrightarrow> (of_nat (length l) :: byte) \<noteq> 0"
  by (simp add: lab_ok_def byte_of_nat_eq_0)

lemma enc_not_Nil [simp]: "enc ls \<noteq> []"
  by (cases ls) auto

lemma length_enc_gt_0 [simp]: "0 < length (enc ls)"
  by simp

lemma lt_add_length_enc: "m \<le> i \<Longrightarrow> m < i + length (enc ls)"
  using length_enc_gt_0 [of ls] by linarith

lemma name_at_SomeD: "name_at b p ls \<Longrightarrow> p < length b"
  by (cases ls) (auto dest: rd_SomeD)

lemma name_at_length: "name_at b p ls \<Longrightarrow> p + length (enc ls) \<le> length b"
proof (induction ls arbitrary: p)
  case Nil
  then show ?case by (auto dest: rd_SomeD)
next
  case (Cons l ls)
  then have "p + 1 + length l + length (enc ls) \<le> length b"
    by (intro Cons.IH) simp
  then show ?case by simp
qed

lemma name_at_prefix:
  "name_at b p ls \<longleftrightarrow> list_all lab_ok ls \<and> prefix (enc ls) (drop p b) \<and> p < length b"
proof (induction ls arbitrary: p)
  case Nil
  show ?case by (cases "drop p b") (auto simp: rd_Some prefix_Cons nth_via_drop dest: sym
      intro: nth_via_drop)
next
  case (Cons l ls)
  show ?case
  proof (cases "p < length b")
    case False
    then show ?thesis by (auto dest: rd_SomeD)
  next
    case True
    then have d: "drop p b = b ! p # drop (Suc p) b" by (simp add: Cons_nth_drop_Suc)
    have pre: "prefix (l @ enc ls) (drop (Suc p) b) \<longleftrightarrow>
        take (length l) (drop (Suc p) b) = l \<and> prefix (enc ls) (drop (p + 1 + length l) b)"
      (is "?L \<longleftrightarrow> ?R")
    proof
      assume ?L
      then obtain r where r: "drop (Suc p) b = l @ enc ls @ r" by (auto simp: prefix_def)
      have "drop (p + 1 + length l) b = drop (length l) (drop (Suc p) b)"
        by (simp add: add.commute)
      with r show ?R by simp
    next
      assume R: ?R
      then obtain r where "drop (p + 1 + length l) b = enc ls @ r" by (auto simp: prefix_def)
      moreover have "drop (Suc p) b = take (length l) (drop (Suc p) b) @ drop (length l) (drop (Suc p) b)"
        by (simp only: append_take_drop_id)
      ultimately have "drop (Suc p) b = l @ enc ls @ r" using R by (simp add: add.commute)
      then show ?L by (simp add: prefix_def)
    qed
    have lt: "prefix (enc ls) (drop (p + 1 + length l) b) \<Longrightarrow> p + 1 + length l < length b"
      by (metis drop_all enc_not_Nil not_le_imp_less prefix_bot.extremum_unique prefix_def append_is_Nil_conv)
    show ?thesis
      using True lt by (auto simp: Cons.IH d pre rd_Some)
  qed
qed

lemma name_at_enc: "list_all lab_ok ls \<Longrightarrow> name_at (enc ls @ r) 0 ls"
  by (simp add: name_at_prefix)

lemma name_at_enc_pre: "list_all lab_ok ls \<Longrightarrow> name_at (pre @ enc ls @ r) (length pre) ls"
  by (simp add: name_at_prefix)

lemma wf_name_lab_ok: "wf_name ls \<Longrightarrow> list_all lab_ok ls"
  by (auto simp: wf_name_def list_all_iff lab63_ok)

subsection \<open>The routines compute the functions of the label list\<close>

lemma rhnlen_at_name: "name_at b p ls \<Longrightarrow> rhnlen_at b p = Some (p + length (enc ls))"
  by (induction ls arbitrary: p) (auto simp: rhnlen_at.simps [of b])

lemma rhnlen_enc: "list_all lab_ok ls \<Longrightarrow> rhnlen (enc ls @ r) = Some (length (enc ls))"
  unfolding rhnlen_def by (subst rhnlen_at_name [OF name_at_enc]) auto

lemma skiprhn_name: "name_at b p ls \<Longrightarrow> skiprhn b p = Some (p + length (enc ls))"
  by (simp add: skiprhn_def rhnlen_at_name)

lemma name_at_append:
  "name_at b p (xs @ ys) \<Longrightarrow> name_at b (p + length (enc xs) - 1) ys"
proof (induction xs arbitrary: p)
  case (Cons x xs)
  from Cons.IH [of "Suc (p + length x)"] Cons.prems show ?case by (simp add: add.assoc)
qed simp

lemma skipsegs_name:
  "name_at b p ls \<Longrightarrow> k \<le> length ls \<Longrightarrow>
   \<exists>q. skipsegs b p k = Some q \<and> name_at b q (drop k ls)"
proof (induction k arbitrary: p ls)
  case (Suc k)
  then obtain l ls' where ls: "ls = l # ls'" by (cases ls) auto
  with Suc.prems have "name_at b (p + unat (of_nat (length l) :: byte) + 1) ls'"
    by (auto simp: add.commute)
  from Suc.IH [OF this] Suc.prems ls show ?case by auto
qed auto

lemma rhnsegcnt_loop_name: "name_at b p ls \<Longrightarrow> rhnsegcnt_loop b p n = Some (n + length ls)"
  by (induction ls arbitrary: p n) (auto simp: rhnsegcnt_loop.simps [of b] add.commute add.left_commute)

lemma rhnsegcnt_name: "name_at b 0 ls \<Longrightarrow> rhnsegcnt b = Some (length ls)"
  by (simp add: rhnsegcnt_def rhnsegcnt_loop_name)

text \<open>Conversely, \<^verbatim>\<open>rhnlen\<close> only returns on memory that holds a name.\<close>

lemma rhnlen_at_SomeD: "rhnlen_at b p = Some n \<Longrightarrow> \<exists>ls. name_at b p ls \<and> n = p + length (enc ls)"
proof (induction b p rule: rhnlen_at.induct)
  case (1 b p)
  from "1.prems" obtain lb where lb: "rd b p = Some lb"
    by (auto simp: rhnlen_at.simps [of b p] bind_eq_Some_conv)
  show ?case
  proof (cases "lb = 0")
    case True
    with "1.prems" lb have "name_at b p [] \<and> n = p + length (enc [])"
      by (simp add: rhnlen_at.simps [of b p])
    then show ?thesis by blast
  next
    case False
    with "1.prems" lb have "rhnlen_at b (p + 1 + unat lb) = Some n"
      by (simp add: rhnlen_at.simps [of b p])
    from "1.IH" [OF lb False this] obtain ls where
      ls: "name_at b (p + 1 + unat lb) ls" "n = p + 1 + unat lb + length (enc ls)" by auto
    let ?l = "take (unat lb) (drop (p + 1) b)"
    from name_at_SomeD [OF ls(1)] have len: "length ?l = unat lb" by simp
    with False have "lab_ok ?l" by (simp add: lab_ok_def unat_gt_0_byte)
    with ls lb len have "name_at b p (?l # ls) \<and> n = p + length (enc (?l # ls))" by simp
    then show ?thesis by blast
  qed
qed

lemma rhnlen_SomeD: "rhnlen b = Some n \<Longrightarrow> \<exists>ls. name_at b 0 ls \<and> n = length (enc ls)"
  using rhnlen_at_SomeD [of b 0] by (auto simp: rhnlen_def)

lemma rhnlen_Some_iff: "(\<exists>n. rhnlen b = Some n) \<longleftrightarrow> (\<exists>ls. name_at b 0 ls)"
  using rhnlen_at_name rhnlen_SomeD unfolding rhnlen_def by blast

lemma rhnicmp_lab_spec:
  "i + n \<le> length a \<Longrightarrow> i + n \<le> length b \<Longrightarrow> rhnicmp_lab a b i n =
     Some (map tolower (take n (drop i a)) = map tolower (take n (drop i b)))"
proof (induction n arbitrary: i)
  case (Suc n)
  then have "drop i a = a ! i # drop (Suc i) a" "drop i b = b ! i # drop (Suc i) b"
    by (simp_all add: Cons_nth_drop_Suc)
  with Suc show ?case by (simp add: rd_lt)
qed auto

lemma rhnicmp_at_name:
  "name_at a i xs \<Longrightarrow> name_at b i ys \<Longrightarrow>
   rhnicmp_at a b i = Some (lower_name xs = lower_name ys)"
proof (induction xs arbitrary: i ys)
  case Nil
  then show ?case
    by (cases ys) (auto simp: rhnicmp_at.simps [of a b i] lower_name_def)
next
  case (Cons x xs)
  show ?case
  proof (cases ys)
    case Nil
    with Cons.prems show ?thesis
      by (auto simp: rhnicmp_at.simps [of a b i] lower_name_def)
  next
    case ys: (Cons y ys')
    from Cons.prems ys have ok: "lab_ok x" "lab_ok y"
      and na: "name_at a (i + 1 + length x) xs" and nb: "name_at b (i + 1 + length y) ys'"
      and ta: "take (length x) (drop (i + 1) a) = x" and tb: "take (length y) (drop (i + 1) b) = y"
      and ra: "rd a i = Some (of_nat (length x))" and rb: "rd b i = Some (of_nat (length y))" by auto
    show ?thesis
    proof (cases "length x = length y")
      case False
      with ok have "(of_nat (length x) :: byte) \<noteq> of_nat (length y)"
        by (metis lab_ok_len)
      with ra rb ys False show ?thesis
        by (auto simp: rhnicmp_at.simps [of a b i] lower_name_def dest!: map_eq_imp_length_eq)
    next
      case True
      from name_at_SomeD [OF na] name_at_SomeD [OF nb] True
      have "rhnicmp_lab a b (i + 1) (length x) = Some (map tolower x = map tolower y)"
        using ta tb by (simp add: rhnicmp_lab_spec)
      with ra rb ok True ys Cons.IH [OF na, of ys'] nb show ?thesis
        by (auto simp: rhnicmp_at.simps [of a b i] lower_name_def)
    qed
  qed
qed

lemma rhnicmp_name:
  "name_at a 0 xs \<Longrightarrow> name_at b 0 ys \<Longrightarrow> rhnicmp a b = Some (lower_name xs = lower_name ys)"
  by (simp add: rhnicmp_def rhnicmp_at_name)

lemma rhnicmp_refl: "name_at a 0 xs \<Longrightarrow> rhnicmp a a = Some True"
  by (simp add: rhnicmp_name)

lemma isnormalencdomname_loop_spec:
  assumes "m \<le> length b"
  shows "isnormalencdomname_loop b m i =
    Some (\<exists>ls. list_all lab63 ls \<and> name_at b i ls \<and> i + length (enc ls) \<le> m)"
  using assms
proof (induction b m i rule: isnormalencdomname_loop.induct)
  case (1 b m i)
  show ?case
  proof (cases "i < m")
    case False
    then have "\<not> (\<exists>ls. list_all lab63 ls \<and> name_at b i ls \<and> i + length (enc ls) \<le> m)"
      by (auto simp: not_le lt_add_length_enc)
    with False show ?thesis by (simp add: isnormalencdomname_loop.simps [of b m i])
  next
    case True
    with "1.prems" obtain lb where lb: "rd b i = Some lb" by (auto simp: rd_def)
    consider "lb = 0" | "lb \<noteq> 0" "lb > 0x3f" | "lb \<noteq> 0" "\<not> lb > 0x3f" by blast
    then show ?thesis
    proof cases
      case 1
      with lb True have "list_all lab63 [] \<and> name_at b i [] \<and> i + length (enc []) \<le> m" by simp
      with lb True 1 show ?thesis
        by (auto simp: isnormalencdomname_loop.simps [of b m i] intro: exI [of _ "[]"])
    next
      case 2
      have "\<not> name_at b i ls" if "list_all lab63 ls" for ls
      proof (cases ls)
        case Nil
        with 2 lb show ?thesis by simp
      next
        case (Cons l ls')
        show ?thesis
        proof
          assume "name_at b i ls"
          with Cons lb that have "lb = of_nat (length l)" "length l \<le> 63" by (auto simp: lab63_def)
          with 2 show False by (simp add: word_less_nat_alt unat_byte_of_nat)
        qed
      qed
      with lb True 2 show ?thesis by (auto simp: isnormalencdomname_loop.simps [of b m i])
    next
      case 3
      let ?P = "\<lambda>i ls. list_all lab63 ls \<and> name_at b i ls \<and> i + length (enc ls) \<le> m"
      from 3 have le: "unat lb \<le> 63" "0 < unat lb" by (auto simp: word_less_nat_alt unat_gt_0_byte)
      have "(\<exists>ls. ?P i ls) \<longleftrightarrow> (\<exists>ls. ?P (i + 1 + unat lb) ls)" (is "?A \<longleftrightarrow> ?B")
      proof
        assume ?A
        then obtain ls where ls: "?P i ls" by blast
        with 3 lb obtain l ls' where "ls = l # ls'" by (cases ls) auto
        with ls lb have "?P (i + 1 + unat lb) ls'" by (auto simp: add.assoc)
        then show ?B by blast
      next
        assume ?B
        then obtain ls where ls: "?P (i + 1 + unat lb) ls" by blast
        let ?l = "take (unat lb) (drop (i + 1) b)"
        from ls name_at_SomeD have len: "length ?l = unat lb" by fastforce
        with le have "lab63 ?l" by (simp add: lab63_def)
        with ls len lb have "?P i (?l # ls)" by (simp add: lab63_ok)
        then show ?A by blast
      qed
      with lb True 3 "1.IH" [OF _ lb 3] "1.prems" show ?thesis
        by (simp add: isnormalencdomname_loop.simps [of b m i])
    qed
  qed
qed

lemma isnormalencdomname_spec:
  "m \<le> length b \<Longrightarrow> isnormalencdomname b m =
    Some (\<exists>ls. wf_name ls \<and> name_at b 0 ls \<and> length (enc ls) \<le> m)"
  by (auto simp: isnormalencdomname_def isnormalencdomname_loop_spec wf_name_def DNSNAMEBUFSIZE_def)

lemma rhncpy_spec:
  assumes "name_at src 0 ls" "length (enc ls) \<le> DNSNAMEBUFSIZE" "length (enc ls) \<le> length dst"
  shows "rhncpy dst src = Some (enc ls @ drop (length (enc ls)) dst, length (enc ls))"
proof -
  from assms(1) have "rhnlen src = Some (length (enc ls))"
    by (simp add: rhnlen_def rhnlen_at_name)
  moreover from assms(1) have "prefix (enc ls) src" by (simp add: name_at_prefix)
  moreover from name_at_length [OF assms(1)] have "length (enc ls) \<le> length src" by simp
  ultimately show ?thesis
    using assms(2,3) by (auto simp: rhncpy_def rds_def wrs_def prefix_def)
qed

subsection \<open>Dotted notation to transport form\<close>

text \<open>
  The inner loop of \<^verbatim>\<open>str2rhn\<close>: copy one name element.  \<open>None\<close> in the first
  component is the \<^verbatim>\<open>return 0\<close> of an element that is too long.
\<close>

function str2rhn_lab :: "byte list \<Rightarrow> nat \<Rightarrow> byte list \<Rightarrow> nat \<Rightarrow> (nat option \<times> byte list) option" where
  "str2rhn_lab str jlim rhn j = do {
     c \<leftarrow> rd str j;
     if c \<noteq> 0 \<and> c \<noteq> 46 then
       if j \<ge> jlim then Some (None, rhn)
       else do { rhn' \<leftarrow> wr rhn (j + 1) c; str2rhn_lab str jlim rhn' (j + 1) }
     else Some (Some j, rhn) }"
  by pat_completeness auto
termination
  by (relation "measure (\<lambda>(str, jlim, rhn, j). jlim - j)") auto

function str2rhn_loop :: "byte list \<Rightarrow> byte list \<Rightarrow> nat \<Rightarrow> (bool \<times> byte list) option" where
  "str2rhn_loop str rhn i = do {
     (r, rhn) \<leftarrow> str2rhn_lab str (min (i + 63) (DNSNAMEBUFSIZE - 2)) rhn i;
     case r of None \<Rightarrow> Some (False, rhn)
     | Some j \<Rightarrow> do {
         c \<leftarrow> rd str j;
         if c = 0 then do {
           rhn \<leftarrow> wr rhn i 0;
           Some (\<not> (j > i \<or> i = 0), rhn) }
         else if j \<le> i then Some (False, rhn)
         else do {
           rhn \<leftarrow> wr rhn i (of_nat (j - i));
           str2rhn_loop str rhn (j + 1) } } }"
  by pat_completeness auto
termination
  by (relation "measure (\<lambda>(str, rhn, i). length str - i)") (auto dest: rd_SomeD)

definition str2rhn :: "byte list \<Rightarrow> byte list \<Rightarrow> (bool \<times> byte list) option" where
  "str2rhn str rhn = do {
     c \<leftarrow> rd str 0;
     c1 \<leftarrow> (if c = 46 then rd str 1 else Some 1);
     if c = 46 \<and> c1 = 0 then do { rhn \<leftarrow> wr rhn 0 0; Some (True, rhn) }
     else str2rhn_loop str rhn 0 }"

text \<open>
  \<^verbatim>\<open>parsestr2rhn\<close> returns \<open>None\<close> (the null pointer) on success, or a message.
\<close>

definition msg_too_long :: string where
  "msg_too_long = ''Domain name element too long''"

definition msg_empty_elem :: string where
  "msg_empty_elem = ''Empty name element in domain name''"

definition msg_empty_name :: string where
  "msg_empty_name = ''Empty domain name not allowed''"

text \<open>\<open>str[j]\<close> under the guard \<open>j < len\<close>: beyond \<open>len\<close> the character is not looked at.\<close>

definition rd_lim :: "byte list \<Rightarrow> nat \<Rightarrow> nat \<Rightarrow> byte option" where
  "rd_lim str len j = (if j < len then rd str j else Some 0)"

function parsestr2rhn_lab ::
    "byte list \<Rightarrow> nat \<Rightarrow> nat \<Rightarrow> byte list \<Rightarrow> nat \<Rightarrow> (nat option \<times> byte list) option" where
  "parsestr2rhn_lab str len jlim rhn j = do {
     c \<leftarrow> rd_lim str len j;
     if c \<noteq> 0 \<and> c \<noteq> 46 then
       if j \<ge> jlim then Some (None, rhn)
       else do { rhn' \<leftarrow> wr rhn (j + 1) c; parsestr2rhn_lab str len jlim rhn' (j + 1) }
     else Some (Some j, rhn) }"
  by pat_completeness auto
termination
  by (relation "measure (\<lambda>(str, len, jlim, rhn, j). jlim - j)") auto

definition parsestr2rhn_end :: "byte list \<Rightarrow> nat \<Rightarrow> (string option \<times> byte list) option" where
  "parsestr2rhn_end rhn i = do {
     rhn \<leftarrow> wr rhn i 0;
     Some (if i = 0 then Some msg_empty_name else None, rhn) }"

function parsestr2rhn_loop ::
    "byte list \<Rightarrow> nat \<Rightarrow> byte list \<Rightarrow> nat \<Rightarrow> (string option \<times> byte list) option" where
  "parsestr2rhn_loop str len rhn i = do {
     (r, rhn) \<leftarrow> parsestr2rhn_lab str len (min (i + 63) (DNSNAMEBUFSIZE - 2)) rhn i;
     case r of None \<Rightarrow> Some (Some msg_too_long, rhn)
     | Some j \<Rightarrow> do {
         c \<leftarrow> rd_lim str len j;
         if j \<le> i then
           if c \<noteq> 0 then Some (Some msg_empty_elem, rhn)
           else parsestr2rhn_end rhn i
         else do {
           rhn \<leftarrow> wr rhn i (of_nat (j - i));
           if c \<noteq> 0 then parsestr2rhn_loop str len rhn (j + 1)
           else parsestr2rhn_end rhn (j + 1) } } }"
  by pat_completeness auto
termination
  by (relation "measure (\<lambda>(str, len, rhn, i). len - i)") (auto simp: rd_lim_def split: if_splits)

definition parsestr2rhn :: "byte list \<Rightarrow> nat \<Rightarrow> byte list \<Rightarrow> (string option \<times> byte list) option" where
  "parsestr2rhn str len rhn = do {
     c \<leftarrow> (if len > 0 then rd str 0 else Some 0);
     c1 \<leftarrow> (if len > 0 \<and> c = 46 \<and> len \<noteq> 1 then rd str 1 else Some 0);
     if len > 0 \<and> c = 46 \<and> (len = 1 \<or> c1 = 0) then do { rhn \<leftarrow> wr rhn 0 0; Some (None, rhn) }
     else parsestr2rhn_loop str len rhn 0 }"

declare str2rhn_lab.simps [simp del] str2rhn_loop.simps [simp del]
  parsestr2rhn_lab.simps [simp del] parsestr2rhn_loop.simps [simp del]

text \<open>
  The specification: \<open>undot\<close> splits a dotted string that ends in a dot into its elements.
\<close>

function undot :: "byte list \<Rightarrow> byte list list option" where
  "undot s = (if s = [] then Some []
     else case dropWhile (\<lambda>c. c \<noteq> 46) s of [] \<Rightarrow> None
     | _ # t \<Rightarrow> map_option ((#) (takeWhile (\<lambda>c. c \<noteq> 46) s)) (undot t))"
  by pat_completeness auto
termination
proof (relation "measure length", simp)
  fix s t :: "byte list" and d
  assume "dropWhile (\<lambda>c. c \<noteq> 46) s = d # t"
  then have "length (d # t) \<le> length s" by (metis length_dropWhile_le)
  then show "(t, s) \<in> measure length" by simp
qed

declare undot.simps [simp del]

definition dotted :: "byte list list \<Rightarrow> byte list" where
  "dotted ls = concat (map (\<lambda>l. l @ [46]) ls)"

lemma undot_Nil [simp]: "undot [] = Some []"
  by (simp add: undot.simps)

lemma undot_no_dot: "w \<noteq> [] \<Longrightarrow> 46 \<notin> set w \<Longrightarrow> undot w = None"
proof -
  assume "w \<noteq> []" "46 \<notin> set w"
  then have d: "dropWhile (\<lambda>c. c \<noteq> 46) w = []" by auto
  from \<open>w \<noteq> []\<close> show ?thesis unfolding undot.simps [of w] d by simp
qed

lemma undot_dot: "46 \<notin> set w \<Longrightarrow> undot (w @ 46 # t) = map_option ((#) w) (undot t)"
proof -
  assume w: "46 \<notin> set w"
  then have "dropWhile (\<lambda>c. c \<noteq> 46) (w @ 46 # t) = 46 # t"
    "takeWhile (\<lambda>c. c \<noteq> 46) (w @ 46 # t) = w"
    by (induction w) auto
  then show ?thesis by (subst undot.simps) simp
qed

lemma undot_iff: "undot s = Some ls \<longleftrightarrow> s = dotted ls \<and> (\<forall>l\<in>set ls. 46 \<notin> set l)"
proof
  show "undot s = Some ls \<Longrightarrow> s = dotted ls \<and> (\<forall>l\<in>set ls. 46 \<notin> set l)"
  proof (induction s arbitrary: ls rule: undot.induct)
    case (1 s)
    show ?case
    proof (cases "s = []")
      case True
      with "1.prems" show ?thesis by (simp add: dotted_def)
    next
      case False
      let ?w = "takeWhile (\<lambda>c. c \<noteq> 46) s"
      from False "1.prems" obtain d t where d: "dropWhile (\<lambda>c. c \<noteq> 46) s = d # t"
        by (subst (asm) undot.simps) (auto split: list.splits)
      then have "d = 46" by (metis (full_types) dropWhile_eq_Cons_conv)
      with d have s: "s = ?w @ 46 # t" by (metis takeWhile_dropWhile_id)
      have w: "46 \<notin> set ?w" by (auto dest: set_takeWhileD)
      have "undot s = map_option ((#) ?w) (undot t)"
        using undot_dot [OF w, of t] s [symmetric] by simp
      with "1.prems" obtain ls' where ls': "undot t = Some ls'" "ls = ?w # ls'" by auto
      from "1.IH" [OF False d ls'(1)] have "t = dotted ls' \<and> (\<forall>l\<in>set ls'. 46 \<notin> set l)" .
      with ls' s [symmetric] w show ?thesis by (simp add: dotted_def)
    qed
  qed
next
  show "s = dotted ls \<and> (\<forall>l\<in>set ls. 46 \<notin> set l) \<Longrightarrow> undot s = Some ls"
    by (induction ls arbitrary: s) (auto simp: dotted_def undot_dot)
qed

text \<open>What a successful conversion of the rest \<open>t\<close> of the string at offset \<open>i\<close> amounts to.\<close>

definition fits :: "nat \<Rightarrow> byte list list \<Rightarrow> bool" where
  "fits i ls \<longleftrightarrow> list_all lab63 ls \<and> i + length (enc ls) \<le> DNSNAMEBUFSIZE \<and> (i = 0 \<longrightarrow> ls \<noteq> [])"

definition put_lab :: "byte list \<Rightarrow> nat \<Rightarrow> byte list \<Rightarrow> byte list" where
  "put_lab rhn i w = take (i + 1) rhn @ w @ drop (i + 1 + length w) rhn"

lemma put_lab_Nil [simp]: "put_lab rhn i [] = rhn"
  by (simp add: put_lab_def)

lemma length_put_lab [simp]: "i + 1 + length w \<le> length rhn \<Longrightarrow> length (put_lab rhn i w) = length rhn"
  by (simp add: put_lab_def)

lemma put_lab_Cons:
  "i + 2 + length w \<le> length rhn \<Longrightarrow> put_lab (rhn[Suc i := c]) (i + 1) w = put_lab rhn i (c # w)"
  by (simp add: put_lab_def take_Suc_list_update drop_update_cancel)

lemma str2rhn_lab_spec:
  assumes "str = pre @ w @ c # r" "length pre = j" "\<forall>x\<in>set w. x \<noteq> 0 \<and> x \<noteq> 46" "c = 0 \<or> c = 46"
    and "jlim \<le> 254" "length rhn = 256"
  shows "if w = [] \<or> j + length w \<le> jlim
    then str2rhn_lab str jlim rhn j = Some (Some (j + length w), put_lab rhn j w)
    else \<exists>rhn'. str2rhn_lab str jlim rhn j = Some (None, rhn') \<and> length rhn' = 256"
  using assms
proof (induction w arbitrary: pre j rhn)
  case Nil
  then have "rd str j = Some c" by (auto simp: rd_def nth_append)
  with Nil.prems(4) show ?case by (auto simp: str2rhn_lab.simps [of str jlim rhn j])
next
  case (Cons a w)
  from Cons.prems have a: "rd str j = Some a" "a \<noteq> 0" "a \<noteq> 46" by (auto simp: rd_def nth_append)
  show ?case
  proof (cases "j < jlim")
    case False
    with a Cons.prems(6) show ?thesis by (auto simp: str2rhn_lab.simps [of str jlim rhn j])
  next
    case True
    with Cons.prems have wr: "wr rhn (j + 1) a = Some (rhn[Suc j := a])" by (simp add: wr_def)
    with a True have eq: "str2rhn_lab str jlim rhn j = str2rhn_lab str jlim (rhn[Suc j := a]) (j + 1)"
      by (simp add: str2rhn_lab.simps [of str jlim rhn j])
    from Cons.IH [of "pre @ [a]" "j + 1" "rhn[Suc j := a]"] Cons.prems
    have IH: "if w = [] \<or> j + 1 + length w \<le> jlim
      then str2rhn_lab str jlim (rhn[Suc j := a]) (j + 1) =
        Some (Some (j + 1 + length w), put_lab (rhn[Suc j := a]) (j + 1) w)
      else \<exists>rhn'. str2rhn_lab str jlim (rhn[Suc j := a]) (j + 1) = Some (None, rhn') \<and> length rhn' = 256"
      by simp
    show ?thesis
    proof (cases "j + 1 + length w \<le> jlim")
      case le: True
      with Cons.prems have "put_lab (rhn[Suc j := a]) (j + 1) w = put_lab rhn j (a # w)"
        by (intro put_lab_Cons) simp
      with le IH eq show ?thesis by simp
    next
      case False
      with True have "w \<noteq> []" by auto
      with False IH eq show ?thesis by auto
    qed
  qed
qed

lemma put_lab_enc:
  assumes "i + 1 + length w \<le> length rhn"
  shows "take (i + 1 + length w) ((put_lab rhn i w)[i := of_nat (length w)]) =
    take i rhn @ of_nat (length w) # w"
  using assms by (simp add: put_lab_def list_update_append min_def take_Suc_list_update
      take_Suc_conv_app_nth)

text \<open>A later pass that leaves the first element alone leaves it encoded in place.\<close>

lemma put_lab_frame:
  assumes "i + 1 + length w \<le> length rhn"
    and "take (i + 1 + length w) rhn' = take (i + 1 + length w) ((put_lab rhn i w)[i := of_nat (length w)])"
  shows "take i rhn' = take i rhn"
    and "drop i rhn' = of_nat (length w) # w @ drop (i + 1 + length w) rhn'"
proof -
  note tk = assms(2) [unfolded put_lab_enc [OF assms(1)]]
  have "take i rhn' = take i (take (i + 1 + length w) rhn')" by (simp add: min_def)
  then show "take i rhn' = take i rhn" unfolding tk using assms(1) by simp
  have "rhn' = take (i + 1 + length w) rhn' @ drop (i + 1 + length w) rhn'" by simp
  also have "\<dots> = take i rhn @ of_nat (length w) # w @ drop (i + 1 + length w) rhn'"
    unfolding tk by simp
  finally have "drop i rhn' = drop i (take i rhn @ of_nat (length w) # w @ drop (i + 1 + length w) rhn')"
    by (rule arg_cong)
  then show "drop i rhn' = of_nat (length w) # w @ drop (i + 1 + length w) rhn'"
    using assms(1) by simp
qed

lemma fits_Cons: "lab63 w \<Longrightarrow> fits i (w # ls) \<longleftrightarrow> fits (i + 1 + length w) ls"
  by (simp add: fits_def add.assoc)

lemma fits_ConsD: "fits i (w # ls) \<Longrightarrow> lab63 w \<and> i + length w \<le> min (i + 63) (DNSNAMEBUFSIZE - 2)"
  using length_enc_gt_0 [of ls]
  by (auto simp: fits_def lab63_def DNSNAMEBUFSIZE_def simp del: length_enc_gt_0 length_greater_0_conv)

lemma lab_in_limits: "w \<noteq> [] \<Longrightarrow> i + length w \<le> min (i + 63) (DNSNAMEBUFSIZE - 2) \<Longrightarrow>
    lab63 w \<and> i + 1 + length w \<le> 255"
  by (auto simp: lab63_def DNSNAMEBUFSIZE_def)

text \<open>One round of the loop of \<^verbatim>\<open>str2rhn\<close>, by what the string holds at \<open>i\<close>.\<close>

lemma str2rhn_lab_drop:
  assumes "0 \<notin> set s" "i \<le> length s" "drop i s = w @ d" "46 \<notin> set w" "d = [] \<or> (\<exists>d'. d = 46 # d')"
    and "length rhn = 256" and "jlim = min (i + 63) (DNSNAMEBUFSIZE - 2)"
  shows "if w = [] \<or> i + length w \<le> jlim
    then str2rhn_lab (s @ 0 # r) jlim rhn i = Some (Some (i + length w), put_lab rhn i w)
    else \<exists>rhn'. str2rhn_lab (s @ 0 # r) jlim rhn i = Some (None, rhn') \<and> length rhn' = 256"
    and "rd (s @ 0 # r) (i + length w) = Some (if d = [] then 0 else 46)"
proof -
  have "set w \<subseteq> set s" using assms(3) by (metis set_append set_drop_subset Un_upper1 subset_trans)
  with assms(1,4) have w0: "\<forall>x\<in>set w. x \<noteq> 0 \<and> x \<noteq> 46" by auto
  obtain c r' where c: "d @ 0 # r = c # r'" "c = 0 \<or> c = 46" "c = (if d = [] then 0 else 46)"
    using assms(5) by auto
  have "s @ 0 # r = (take i s @ drop i s) @ 0 # r" by simp
  then have str: "s @ 0 # r = take i s @ w @ c # r'"
    by (simp only: assms(3) append_assoc c(1))
  have "jlim \<le> 254" "length (take i s) = i" using assms(2,7) by (simp_all add: DNSNAMEBUFSIZE_def)
  with str2rhn_lab_spec [OF str _ w0 c(2) _ assms(6)]
  show "if w = [] \<or> i + length w \<le> jlim
    then str2rhn_lab (s @ 0 # r) jlim rhn i = Some (Some (i + length w), put_lab rhn i w)
    else \<exists>rhn'. str2rhn_lab (s @ 0 # r) jlim rhn i = Some (None, rhn') \<and> length rhn' = 256" by blast
  show "rd (s @ 0 # r) (i + length w) = Some (if d = [] then 0 else 46)"
    using str assms(2) c(3) by (simp add: rd_def nth_append)
qed

lemma str2rhn_loop_end:
  assumes "0 \<notin> set s" "i = length s" "i \<le> 255" "length rhn = 256"
  shows "str2rhn_loop (s @ 0 # r) rhn i = Some (i \<noteq> 0, rhn[i := 0])"
  using str2rhn_lab_drop [of s "length s" "[]" "[]" rhn _ r] assms
  by (simp add: str2rhn_loop.simps [of _ rhn "length s"] wr_def)

lemma str2rhn_loop_nodot:
  assumes "0 \<notin> set s" "i < length s" "46 \<notin> set (drop i s)" "i \<le> 255" "length rhn = 256"
  shows "\<exists>rhn'. str2rhn_loop (s @ 0 # r) rhn i = Some (False, rhn') \<and> length rhn' = 256"
  using str2rhn_lab_drop [of s i "drop i s" "[]" rhn _ r] assms
  by (cases "i + length (drop i s) \<le> min (i + 63) (DNSNAMEBUFSIZE - 2)")
    (auto simp: str2rhn_loop.simps [of _ rhn i] wr_def DNSNAMEBUFSIZE_def)

lemma str2rhn_loop_dot:
  assumes "0 \<notin> set s" "i \<le> length s" "drop i s = w @ 46 # t" "46 \<notin> set w" "i \<le> 255" "length rhn = 256"
  shows "if w \<noteq> [] \<and> i + length w \<le> min (i + 63) (DNSNAMEBUFSIZE - 2)
    then str2rhn_loop (s @ 0 # r) rhn i =
      str2rhn_loop (s @ 0 # r) ((put_lab rhn i w)[i := of_nat (length w)]) (i + 1 + length w)
    else \<exists>rhn'. str2rhn_loop (s @ 0 # r) rhn i = Some (False, rhn') \<and> length rhn' = 256"
  using str2rhn_lab_drop [of s i w "46 # t" rhn _ r] assms
  by (cases "w = [] \<or> i + length w \<le> min (i + 63) (DNSNAMEBUFSIZE - 2)")
    (auto simp: str2rhn_loop.simps [of _ rhn i] wr_def DNSNAMEBUFSIZE_def)

lemma str2rhn_loop_spec:
  assumes "0 \<notin> set s" "i \<le> length s" "i \<le> 255" "length rhn = 256"
  shows "\<exists>ok rhn'. str2rhn_loop (s @ 0 # r) rhn i = Some (ok, rhn') \<and> length rhn' = 256 \<and>
    (ok \<longrightarrow> take i rhn' = take i rhn) \<and>
    (ok \<longleftrightarrow> (\<exists>ls. undot (drop i s) = Some ls \<and> fits i ls)) \<and>
    (\<forall>ls. ok \<and> undot (drop i s) = Some ls \<longrightarrow> take (length (enc ls)) (drop i rhn') = enc ls)"
  using assms
proof (induction "length s - i" arbitrary: i rhn rule: less_induct)
  case less
  consider (stop) "drop i s = []" | (nodot) "drop i s \<noteq> []" "46 \<notin> set (drop i s)"
    | (dot) w t where "drop i s = w @ 46 # t" "46 \<notin> set w"
    by (metis split_list_first)
  then show ?case
  proof cases
    case stop
    moreover from stop less.prems have "i = length s" by simp
    moreover have "take 1 (drop i (rhn[i := 0])) = [0]"
      using less.prems by (simp add: take_Suc_conv_app_nth drop_update_swap)
    ultimately show ?thesis using less.prems str2rhn_loop_end [of s i rhn r]
      by (simp add: fits_def DNSNAMEBUFSIZE_def)
  next
    case nodot
    then show ?thesis using less.prems str2rhn_loop_nodot [of s i rhn r] by (auto simp: undot_no_dot)
  next
    case dot
    then have un: "undot (drop i s) = map_option ((#) w) (undot t)" by (simp add: undot_dot)
    show ?thesis
    proof (cases "w \<noteq> [] \<and> i + length w \<le> min (i + 63) (DNSNAMEBUFSIZE - 2)")
      case False
      then have "\<not> fits i (w # ls)" for ls using fits_ConsD [of i w ls] by (auto simp: lab63_def)
      with False less.prems str2rhn_loop_dot [of s i w t rhn r] dot un show ?thesis by auto
    next
      case True
      let ?i = "i + 1 + length w" and ?rhn2 = "(put_lab rhn i w)[i := of_nat (length w)]"
      from True have w63: "lab63 w" and i255: "?i \<le> 255" using lab_in_limits [of w i] by auto
      have "length (drop i s) = length w + 1 + length t" using dot by simp
      then have "length s - ?i < length s - i" "?i \<le> length s" by auto
      moreover from dot have "drop (length w + 1) (drop i s) = t" by simp
      then have "drop ?i s = t" by (simp add: add.commute add.left_commute)
      ultimately obtain ok rhn' where IH: "str2rhn_loop (s @ 0 # r) ?rhn2 ?i = Some (ok, rhn')"
        "length rhn' = 256" "ok \<Longrightarrow> take ?i rhn' = take ?i ?rhn2"
        "ok \<longleftrightarrow> (\<exists>ls. undot t = Some ls \<and> fits ?i ls)"
        "\<And>ls. ok \<Longrightarrow> undot t = Some ls \<Longrightarrow> take (length (enc ls)) (drop ?i rhn') = enc ls"
        using less.hyps [of ?i ?rhn2] less.prems i255 by auto
      note fr = put_lab_frame [of i w rhn rhn', OF _ IH(3)]
      have "take (length (enc (w # ls))) (drop i rhn') = enc (w # ls)"
        if ok "undot t = Some ls" for ls
        using fr(2) that IH(5) i255 less.prems by simp
      moreover have "ok \<Longrightarrow> take i rhn' = take i rhn" using fr(1) i255 less.prems by simp
      moreover have "str2rhn_loop (s @ 0 # r) rhn i = Some (ok, rhn')"
        using str2rhn_loop_dot [of s i w t rhn r] True dot less.prems IH(1) by simp
      ultimately show ?thesis using IH(2,4) un fits_Cons [OF w63] by (auto 0 4)
    qed
  qed
qed

text \<open>The strings \<^verbatim>\<open>str2rhn\<close> accepts, with the names they stand for.\<close>

definition str_denotes :: "byte list \<Rightarrow> byte list list \<Rightarrow> bool" where
  "str_denotes s ls \<longleftrightarrow> wf_name ls \<and>
     (if ls = [] then s = [46] else s = dotted ls \<and> (\<forall>l\<in>set ls. 46 \<notin> set l))"

lemma name_at_take: "take (length (enc ls)) b = enc ls \<Longrightarrow> list_all lab_ok ls \<Longrightarrow> name_at b 0 ls"
  using take_is_prefix [of "length (enc ls)" b] enc_not_Nil [of ls]
  by (auto simp: name_at_prefix simp del: enc_not_Nil)

lemma str_denotes_fits: "ls \<noteq> [] \<Longrightarrow> str_denotes s ls \<longleftrightarrow> undot s = Some ls \<and> fits 0 ls"
  by (auto simp: str_denotes_def undot_iff fits_def wf_name_def)

lemma undot_single_dot: "undot [46] = Some [[]]"
  using undot_dot [of "[]" "[]"] by simp

lemma str_denotes_not_root: "s \<noteq> [46] \<Longrightarrow> str_denotes s ls \<longleftrightarrow> undot s = Some ls \<and> fits 0 ls"
  by (cases "ls = []") (auto simp: str_denotes_fits fits_def, simp add: str_denotes_def)

lemma str_denotes_root: "str_denotes [46] ls \<longleftrightarrow> ls = []"
  by (cases "ls = []") (auto simp: str_denotes_fits undot_single_dot fits_def lab63_def,
      simp add: str_denotes_def wf_name_def DNSNAMEBUFSIZE_def)

lemma str2rhn_spec:
  assumes "0 \<notin> set s" "length rhn = DNSNAMEBUFSIZE"
  shows "\<exists>ok rhn'. str2rhn (s @ 0 # r) rhn = Some (ok, rhn') \<and> length rhn' = DNSNAMEBUFSIZE \<and>
    (ok \<longleftrightarrow> (\<exists>ls. str_denotes s ls)) \<and> (\<forall>ls. str_denotes s ls \<longrightarrow> name_at rhn' 0 ls)"
proof (cases "s = [46]")
  case True
  have "str2rhn (s @ 0 # r) rhn = Some (True, rhn[0 := 0])"
    using True assms(2) by (simp add: str2rhn_def rd_def wr_def DNSNAMEBUFSIZE_def)
  moreover have "name_at (rhn[0 := 0]) 0 []" using assms(2) by (simp add: rd_def DNSNAMEBUFSIZE_def)
  ultimately show ?thesis using assms(2) True by (auto simp: str_denotes_root)
next
  case False
  have "str2rhn (s @ 0 # r) rhn = str2rhn_loop (s @ 0 # r) rhn 0"
    using False assms(1) by (cases s rule: remdups_adj.cases) (auto simp: str2rhn_def rd_def)
  moreover obtain ok rhn' where "str2rhn_loop (s @ 0 # r) rhn 0 = Some (ok, rhn')" "length rhn' = 256"
    "ok \<longleftrightarrow> (\<exists>ls. undot s = Some ls \<and> fits 0 ls)"
    "\<And>ls. ok \<Longrightarrow> undot s = Some ls \<Longrightarrow> take (length (enc ls)) rhn' = enc ls"
    using str2rhn_loop_spec [of s 0 rhn r] assms by (auto simp: DNSNAMEBUFSIZE_def)
  ultimately show ?thesis
    by (auto simp: str_denotes_not_root [OF False] DNSNAMEBUFSIZE_def fits_def list_all_iff lab63_ok
        intro!: name_at_take)
qed

text \<open>
  C23.  For every C string and every 256-byte buffer, \<^verbatim>\<open>str2rhn\<close> stays inside both
  (it returns \<open>Some\<close>); it succeeds exactly on the dotted, dot-terminated notation of a name with
  elements of 1 to 63 bytes and at most 256 bytes in transport form (and on the root \<^verbatim>\<open>.\<close>);
  and then the buffer holds that name.
\<close>

theorem str2rhn_correct:
  assumes "0 \<notin> set s" "length rhn = DNSNAMEBUFSIZE"
  shows "\<exists>ok rhn'. str2rhn (s @ 0 # r) rhn = Some (ok, rhn') \<and> length rhn' = DNSNAMEBUFSIZE \<and>
    (ok \<longleftrightarrow> (\<exists>ls. str_denotes s ls)) \<and> (\<forall>ls. str_denotes s ls \<longrightarrow> name_at rhn' 0 ls)"
  using str2rhn_spec [OF assms] .

theorem str2rhn_correct_witness:
  "\<exists>rhn'. str2rhn ([97, 46] @ 0 # []) (replicate 256 0) = Some (True, rhn') \<and> name_at rhn' 0 [[97]]"
proof -
  have "str_denotes [97, 46] [[97]]"
    by (simp add: str_denotes_def wf_name_def lab63_def dotted_def DNSNAMEBUFSIZE_def)
  moreover have "0 \<notin> set [97, 46 :: byte]" "length (replicate 256 (0::byte)) = DNSNAMEBUFSIZE"
    by (simp_all add: DNSNAMEBUFSIZE_def)
  ultimately show ?thesis using str2rhn_correct [of "[97, 46]" "replicate 256 0" "[]"] by metis
qed

subsection \<open>Parsing a name of bounded length\<close>

text \<open>
  \<^verbatim>\<open>parsestr2rhn\<close> looks at the characters \<open>s\<close> of its argument up to the first null
  byte or up to \<open>len\<close>; on those it runs the element loop of \<^verbatim>\<open>str2rhn\<close>.
\<close>

definition bounded_str :: "byte list \<Rightarrow> nat \<Rightarrow> byte list \<Rightarrow> bool" where
  "bounded_str str len s \<longleftrightarrow> 0 \<notin> set s \<and> length s \<le> len \<and>
     (\<exists>r. str = s @ r \<and> (length s = len \<or> (\<exists>r'. r = 0 # r')))"

lemma bounded_str_rd:
  "bounded_str str len s \<Longrightarrow> j \<le> length s \<Longrightarrow> rd_lim str len j = rd (s @ [0]) j"
  by (auto simp: bounded_str_def rd_lim_def rd_def nth_append)

lemma parsestr2rhn_lab_eq:
  "bounded_str str len s \<Longrightarrow> j \<le> length s \<Longrightarrow>
   parsestr2rhn_lab str len jlim rhn j = str2rhn_lab (s @ [0]) jlim rhn j"
proof (induction "s @ [0]" jlim rhn j rule: str2rhn_lab.induct)
  case (1 jlim rhn j)
  from "1.prems" have rdj: "rd_lim str len j = rd (s @ [0]) j" by (rule bounded_str_rd)
  show ?case
  proof (cases "\<exists>c. rd (s @ [0]) j = Some c \<and> c \<noteq> 0 \<and> c \<noteq> 46 \<and> j < jlim")
    case False
    then show ?thesis using rdj "1.prems"(2)
      by (cases "rd (s @ [0]) j")
        (auto simp: parsestr2rhn_lab.simps [of str len jlim rhn j] str2rhn_lab.simps [of "s @ [0]" jlim rhn j])
  next
    case True
    then obtain c where c: "rd (s @ [0]) j = Some c" "c \<noteq> 0 \<and> c \<noteq> 46" "\<not> jlim \<le> j" by auto
    then have "j < length s" using "1.prems"(2) by (cases "j = length s") (auto simp: rd_def nth_append)
    then show ?thesis using rdj c "1.hyps" [OF c] "1.prems"(1)
      by (auto simp: parsestr2rhn_lab.simps [of str len jlim rhn j] wr_def
          str2rhn_lab.simps [of "s @ [0]" jlim rhn j])
  qed
qed

definition undot_opt :: "byte list \<Rightarrow> byte list list option" where
  "undot_opt t = undot (if t = [] \<or> last t = 46 then t else t @ [46])"

lemma undot_opt_Nil [simp]: "undot_opt [] = Some []"
  by (simp add: undot_opt_def)

lemma undot_opt_nodot: "w \<noteq> [] \<Longrightarrow> 46 \<notin> set w \<Longrightarrow> undot_opt w = Some [w]"
  using undot_dot [of w "[]"] by (auto simp: undot_opt_def dest: last_in_set)

lemma undot_opt_dot: "46 \<notin> set w \<Longrightarrow> undot_opt (w @ 46 # t) = map_option ((#) w) (undot_opt t)"
  using undot_dot [of w] by (auto simp: undot_opt_def)

lemma parsestr2rhn_loop_unfold:
  assumes "bounded_str str len s" "i \<le> length s" "drop i s = w @ d" "46 \<notin> set w"
    and "d = [] \<or> (\<exists>d'. d = 46 # d')" and "i \<le> 255" "length rhn = 256"
  shows "if w = [] then parsestr2rhn_loop str len rhn i =
      (if d = [] then parsestr2rhn_end rhn i else Some (Some msg_empty_elem, rhn))
    else if i + length w \<le> min (i + 63) (DNSNAMEBUFSIZE - 2) then parsestr2rhn_loop str len rhn i =
      (let rhn2 = (put_lab rhn i w)[i := of_nat (length w)]
       in if d = [] then parsestr2rhn_end rhn2 (i + 1 + length w)
          else parsestr2rhn_loop str len rhn2 (i + 1 + length w))
    else \<exists>rhn'. parsestr2rhn_loop str len rhn i = Some (Some msg_too_long, rhn') \<and> length rhn' = 256"
proof -
  let ?jlim = "min (i + 63) (DNSNAMEBUFSIZE - 2)"
  from assms(1) have "0 \<notin> set s" by (simp add: bounded_str_def)
  note lab = str2rhn_lab_drop [OF this assms(2-5,7) refl, of "[]"]
  have eq: "parsestr2rhn_lab str len ?jlim rhn i = str2rhn_lab (s @ [0]) ?jlim rhn i"
    using assms(1,2) by (rule parsestr2rhn_lab_eq)
  have "length (drop i s) = length w + length d" using assms(3) by simp
  then have "i + length w \<le> length s" using assms(2) by simp
  with lab(2) have rdl: "rd_lim str len (i + length w) = Some (if d = [] then 0 else 46)"
    using bounded_str_rd [OF assms(1)] by simp
  consider "w = []" | "w \<noteq> []" "i + length w \<le> ?jlim" | "w \<noteq> []" "\<not> i + length w \<le> ?jlim" by blast
  then show ?thesis
  proof cases
    case 1
    with lab(1) eq rdl show ?thesis by (simp add: parsestr2rhn_loop.simps [of str len rhn i])
  next
    case 2
    with assms(6,7) have "length (put_lab rhn i w) = 256"
      by (simp add: DNSNAMEBUFSIZE_def)
    with 2 lab(1) eq rdl assms(6) show ?thesis
      by (simp add: parsestr2rhn_loop.simps [of str len rhn i] wr_def Let_def)
  next
    case 3
    with lab(1) eq show ?thesis by (auto simp: parsestr2rhn_loop.simps [of str len rhn i])
  qed
qed

lemma parsestr2rhn_end_spec:
  "i \<le> 255 \<Longrightarrow> length rhn = 256 \<Longrightarrow>
   parsestr2rhn_end rhn i = Some (if i = 0 then Some msg_empty_name else None, rhn[i := 0])"
  by (simp add: parsestr2rhn_end_def wr_def)

definition parse_result :: "byte list \<Rightarrow> byte list \<Rightarrow> nat \<Rightarrow> (string option \<times> byte list) option \<Rightarrow> bool" where
  "parse_result t rhn i res \<longleftrightarrow> (\<exists>m rhn'. res = Some (m, rhn') \<and> length rhn' = 256 \<and>
    (m = None \<longrightarrow> take i rhn' = take i rhn) \<and>
    (m = None \<longleftrightarrow> (\<exists>ls. undot_opt t = Some ls \<and> fits i ls)) \<and>
    (\<forall>ls. m = None \<and> undot_opt t = Some ls \<longrightarrow> take (length (enc ls)) (drop i rhn') = enc ls))"

lemma parse_result_end:
  assumes "i \<le> 255" "length rhn = 256"
  shows "parse_result [] rhn i (parsestr2rhn_end rhn i)"
  using assms by (simp add: parse_result_def parsestr2rhn_end_spec fits_def DNSNAMEBUFSIZE_def
      take_Suc_conv_app_nth drop_update_swap)

lemma parse_result_Cons:
  assumes "parse_result t ((put_lab rhn i w)[i := of_nat (length w)]) (i + 1 + length w) res"
    and "lab63 w" "i + 1 + length w \<le> 255" "length rhn = 256"
    and u: "undot_opt t' = map_option ((#) w) (undot_opt t)"
  shows "parse_result t' rhn i res"
proof -
  let ?i = "i + 1 + length w" and ?rhn2 = "(put_lab rhn i w)[i := of_nat (length w)]"
  from assms(1) obtain m rhn' where IH: "res = Some (m, rhn')"
    "length rhn' = 256" "m = None \<Longrightarrow> take ?i rhn' = take ?i ?rhn2"
    "m = None \<longleftrightarrow> (\<exists>ls. undot_opt t = Some ls \<and> fits ?i ls)"
    "\<And>ls. m = None \<Longrightarrow> undot_opt t = Some ls \<Longrightarrow> take (length (enc ls)) (drop ?i rhn') = enc ls"
    unfolding parse_result_def by blast
  note fr = put_lab_frame [of i w rhn rhn', OF _ IH(3)]
  have "take (length (enc (w # ls))) (drop i rhn') = enc (w # ls)"
    if "m = None" "undot_opt t = Some ls" for ls
    using fr(2) that IH(5) assms(3,4) by simp
  moreover have "m = None \<Longrightarrow> take i rhn' = take i rhn" using fr(1) assms(3,4) by simp
  ultimately show ?thesis
    using IH(1,2,4) u fits_Cons [OF assms(2)] unfolding parse_result_def by (auto 0 4)
qed

lemma parse_result_error:
  assumes "res = Some (Some m, rhn')" "length rhn' = 256" "\<And>ls. undot_opt t = Some ls \<Longrightarrow> \<not> fits i ls"
  shows "parse_result t rhn i res"
  using assms by (auto simp: parse_result_def)

lemma parsestr2rhn_loop_spec:
  assumes "bounded_str str len s" "i \<le> length s" "i \<le> 255" "length rhn = 256"
  shows "parse_result (drop i s) rhn i (parsestr2rhn_loop str len rhn i)"
  using assms
proof (induction "length s - i" arbitrary: i rhn rule: less_induct)
  case less
  consider (stop) "drop i s = []" | (nodot) "drop i s \<noteq> []" "46 \<notin> set (drop i s)"
    | (dot) w t where "drop i s = w @ 46 # t" "46 \<notin> set w"
    by (metis split_list_first)
  then show ?case
  proof cases
    case stop
    then show ?thesis
      using parsestr2rhn_loop_unfold [of str len s i "[]" "[]" rhn] parse_result_end less.prems by simp
  next
    case nodot
    let ?w = "drop i s"
    note unf = parsestr2rhn_loop_unfold [of str len s i ?w "[]" rhn] and un = undot_opt_nodot [OF nodot]
    show ?thesis
    proof (cases "i + length ?w \<le> min (i + 63) (DNSNAMEBUFSIZE - 2)")
      case True
      with nodot have w: "lab63 ?w" "i + 1 + length ?w \<le> 255" using lab_in_limits by blast+
      with less.prems have "parse_result [] ((put_lab rhn i ?w)[i := of_nat (length ?w)]) (i + 1 + length ?w)
          (parsestr2rhn_loop str len rhn i)"
        using unf True nodot by (simp add: Let_def parse_result_end)
      then show ?thesis by (rule parse_result_Cons) (use w less.prems un in auto)
    next
      case False
      with unf nodot less.prems obtain rhn' where
        "parsestr2rhn_loop str len rhn i = Some (Some msg_too_long, rhn')" "length rhn' = 256" by auto
      then show ?thesis by (rule parse_result_error) (use un False fits_ConsD in fastforce)
    qed
  next
    case dot
    note unf = parsestr2rhn_loop_unfold [of str len s i w "46 # t" rhn] and un = undot_opt_dot [OF dot(2), of t]
    show ?thesis
    proof (cases "w \<noteq> [] \<and> i + length w \<le> min (i + 63) (DNSNAMEBUFSIZE - 2)")
      case False
      then have nf: "\<not> fits i (w # ls)" for ls using fits_ConsD [of i w ls] by (auto simp: lab63_def)
      from False unf dot less.prems obtain m rhn' where
        "parsestr2rhn_loop str len rhn i = Some (Some m, rhn')" "length rhn' = 256"
        by (cases "w = []") auto
      then show ?thesis by (rule parse_result_error) (use un dot nf in auto)
    next
      case True
      then have w: "lab63 w" "i + 1 + length w \<le> 255" using lab_in_limits by blast+
      have "length (drop i s) = length w + 1 + length t" using dot by simp
      then have "length s - (i + 1 + length w) < length s - i" "i + 1 + length w \<le> length s" by auto
      moreover from dot have "drop (length w + 1) (drop i s) = t" by simp
      then have "drop (i + 1 + length w) s = t" by (simp add: add.commute add.left_commute)
      ultimately have "parse_result t ((put_lab rhn i w)[i := of_nat (length w)]) (i + 1 + length w)
          (parsestr2rhn_loop str len rhn i)"
        using less.hyps [of "i + 1 + length w" "(put_lab rhn i w)[i := of_nat (length w)]"]
          w less.prems unf dot True by (simp add: Let_def)
      then show ?thesis by (rule parse_result_Cons) (use w less.prems un dot in auto)
    qed
  qed
qed

text \<open>The strings \<^verbatim>\<open>parsestr2rhn\<close> accepts: the dot at the end may be missing.\<close>

definition pstr_denotes :: "byte list \<Rightarrow> byte list list \<Rightarrow> bool" where
  "pstr_denotes s ls \<longleftrightarrow> wf_name ls \<and>
     (if ls = [] then s = [46]
      else (s = dotted ls \<or> s @ [46] = dotted ls) \<and> (\<forall>l\<in>set ls. 46 \<notin> set l))"

lemma dotted_snoc: "dotted (ls @ [l]) = dotted ls @ l @ [46]"
  by (simp add: dotted_def)

lemma dotted_last_46: "ls \<noteq> [] \<Longrightarrow> dotted ls \<noteq> [] \<and> last (dotted ls) = 46"
  by (cases ls rule: rev_cases) (auto simp: dotted_snoc)

lemma dotted_butlast:
  assumes "s @ [46] = dotted ls" "list_all lab63 ls" "\<forall>l\<in>set ls. 46 \<notin> set l"
  shows "s \<noteq> [] \<and> last s \<noteq> 46"
proof (cases ls rule: rev_cases)
  case Nil
  with assms(1) show ?thesis by (simp add: dotted_def)
next
  case (snoc ls' l)
  with assms(2) have "l \<noteq> []" by (auto simp: lab63_def)
  moreover from assms(1) snoc have "s = dotted ls' @ l" by (simp add: dotted_snoc)
  ultimately show ?thesis using assms(3) snoc last_in_set by fastforce
qed

lemma pstr_denotes_not_root:
  assumes "s \<noteq> [46]"
  shows "pstr_denotes s ls \<longleftrightarrow> undot_opt s = Some ls \<and> fits 0 ls"
proof (cases "ls = []")
  case True
  with assms show ?thesis by (auto simp: pstr_denotes_def fits_def)
next
  case False
  then show ?thesis
    using dotted_butlast [of s ls] dotted_last_46 [OF False]
    by (cases "s = [] \<or> last s = 46")
      (auto simp: pstr_denotes_def undot_opt_def undot_iff fits_def wf_name_def)
qed

lemma pstr_denotes_root: "pstr_denotes [46] ls \<longleftrightarrow> ls = []"
proof (cases "ls = []")
  case False
  have "\<not> list_all lab63 ls" if "[46] = dotted ls" "\<forall>l\<in>set ls. 46 \<notin> set l"
  proof -
    from that have "undot [46] = Some ls" using undot_iff by blast
    then show ?thesis by (auto simp: undot_single_dot lab63_def)
  qed
  with False show ?thesis
    using dotted_butlast [of "[46]" ls] by (auto simp: pstr_denotes_def wf_name_def)
qed (simp add: pstr_denotes_def wf_name_def DNSNAMEBUFSIZE_def)

text \<open>
  C36.  \<^verbatim>\<open>parsestr2rhn\<close> never looks past the first null byte or past \<open>len\<close>
  characters and never writes outside the 256-byte buffer; it returns no error message exactly on
  the dotted notation, with or without the final dot, of a name that fits, and then the buffer
  holds that name.
\<close>

theorem parsestr2rhn_correct:
  assumes "bounded_str str len s" "length rhn = DNSNAMEBUFSIZE"
  shows "\<exists>m rhn'. parsestr2rhn str len rhn = Some (m, rhn') \<and> length rhn' = DNSNAMEBUFSIZE \<and>
    (m = None \<longleftrightarrow> (\<exists>ls. pstr_denotes s ls)) \<and> (\<forall>ls. pstr_denotes s ls \<longrightarrow> name_at rhn' 0 ls)"
proof (cases "s = [46]")
  case True
  with assms have "parsestr2rhn str len rhn = Some (None, rhn[0 := 0])"
    by (auto simp: parsestr2rhn_def bounded_str_def rd_def wr_def DNSNAMEBUFSIZE_def)
  moreover have "name_at (rhn[0 := 0]) 0 []" using assms(2) by (simp add: rd_def DNSNAMEBUFSIZE_def)
  ultimately show ?thesis using assms(2) True by (auto simp: pstr_denotes_root)
next
  case False
  from False assms(1) have "parsestr2rhn str len rhn = parsestr2rhn_loop str len rhn 0"
    by (cases s rule: remdups_adj.cases) (auto simp: parsestr2rhn_def bounded_str_def rd_def nth_append)
  moreover have "parse_result s rhn 0 (parsestr2rhn_loop str len rhn 0)"
    using parsestr2rhn_loop_spec [of str len s 0 rhn] assms by (simp add: DNSNAMEBUFSIZE_def)
  ultimately show ?thesis
    unfolding parse_result_def
    by (auto simp: pstr_denotes_not_root [OF False] DNSNAMEBUFSIZE_def fits_def list_all_iff lab63_ok
        intro!: name_at_take)
qed

theorem parsestr2rhn_correct_witness:
  "\<exists>rhn'. parsestr2rhn [97, 46, 98, 32] 3 (replicate 256 0) = Some (None, rhn') \<and>
    name_at rhn' 0 [[97], [98]]"
proof -
  have "pstr_denotes [97, 46, 98] [[97], [98]]"
    by (simp add: pstr_denotes_def wf_name_def lab63_def dotted_def DNSNAMEBUFSIZE_def)
  moreover have "bounded_str [97, 46, 98, 32] 3 [97, 46, 98]" "length (replicate 256 (0::byte)) = DNSNAMEBUFSIZE"
    by (simp_all add: bounded_str_def DNSNAMEBUFSIZE_def)
  ultimately show ?thesis using parsestr2rhn_correct [of "[97, 46, 98, 32]" 3 "[97, 46, 98]"] by metis
qed

end
