(* ===== verification/Names_Print.thy ===== *)
theory Names_Print
  imports Names
begin

text \<open>
  Printing (\<^verbatim>\<open>helpers.c\<close>): \<^verbatim>\<open>rhn2str\<close>, \<^verbatim>\<open>escapestr\<close> and
  \<^verbatim>\<open>hexdump\<close>, which write text into a buffer of limited size, and the string copies of
  \<^verbatim>\<open>helpers.h\<close> and \<^verbatim>\<open>cache.c\<close>.  The lemmas show that none of them writes outside the
  buffer, what they write when it is large enough, and how they mark a truncation.
\<close>

subsection \<open>Output primitives\<close>

text \<open>
  \<^verbatim>\<open>snprintf(&buf[pos], rem, ...)\<close> for a formatted result \<open>text\<close>: at most \<open>rem - 1\<close>
  characters and a null byte are written; the length of \<open>text\<close> is returned by the C function.
\<close>

definition snprintf_at :: "byte list \<Rightarrow> nat \<Rightarrow> nat \<Rightarrow> byte list \<Rightarrow> byte list option" where
  "snprintf_at buf pos rem text =
     (if rem = 0 then Some buf else wrs buf pos (take (rem - 1) text @ [0]))"

text \<open>The format \<^verbatim>\<open>"\\%03o"\<close>.\<close>

definition octal3 :: "byte \<Rightarrow> byte list" where
  "octal3 c = [92, 48 + c div 64, 48 + (c div 8) mod 8, 48 + c mod 8]"

subsection \<open>Names as text\<close>

text \<open>
  The loop over one label.  \<open>Inl\<close> is the jump to \<^verbatim>\<open>overflow\<close>, \<open>Inr (j, str)\<close> the end of
  the label with the next output position.
\<close>

primrec rhn2str_lab :: "byte list \<Rightarrow> nat \<Rightarrow> nat \<Rightarrow> nat \<Rightarrow> nat \<Rightarrow> byte list \<Rightarrow>
    (byte list + nat \<times> byte list) option" where
  "rhn2str_lab rhn sz 0 i j str = Some (Inr (j, str))"
| "rhn2str_lab rhn sz (Suc lb) i j str =
     (if j + 2 \<ge> sz then Some (Inl str)
      else do {
        c \<leftarrow> rd rhn i;
        if isgraph c then
          if c = 46 \<or> c = 92 \<or> c = 34 then do {
            str \<leftarrow> wr str j 92;
            if j + 1 + 2 \<ge> sz then Some (Inl str)
            else do { str \<leftarrow> wr str (j + 1) c; rhn2str_lab rhn sz lb (i + 1) (j + 2) str } }
          else do { str \<leftarrow> wr str j c; rhn2str_lab rhn sz lb (i + 1) (j + 1) str }
        else do {
          str \<leftarrow> snprintf_at str j (sz - 1 - j) (octal3 c);
          if length (octal3 c) \<ge> sz - 1 - j then do { str \<leftarrow> wr str j 46; Some (Inl str) }
          else rhn2str_lab rhn sz lb (i + 1) (j + length (octal3 c)) str } })"

function rhn2str_loop :: "byte list \<Rightarrow> nat \<Rightarrow> byte \<Rightarrow> nat \<Rightarrow> nat \<Rightarrow> byte list \<Rightarrow>
    (byte list + nat \<times> byte list) option" where
  "rhn2str_loop rhn sz lb i j str = do {
     r \<leftarrow> rhn2str_lab rhn sz (unat lb) i j str;
     case r of Inl str \<Rightarrow> Some (Inl str)
     | Inr (j, str) \<Rightarrow> do {
         str \<leftarrow> wr str j 46;
         lb' \<leftarrow> rd rhn (i + unat lb);
         if lb' = 0 then Some (Inr (j + 1, str))
         else rhn2str_loop rhn sz lb' (i + unat lb + 1) (j + 1) str } }"
  by pat_completeness auto
termination
  by (relation "measure (\<lambda>(rhn, sz, lb, i, j, str). length rhn - i)") (auto dest: rd_SomeD)

declare rhn2str_loop.simps [simp del]

definition rhn2str_overflow :: "nat \<Rightarrow> byte list \<Rightarrow> byte list option" where
  "rhn2str_overflow sz str = do {
     str \<leftarrow> wr str (sz - 1) 0;
     if sz - 1 > 0 then do {
       str \<leftarrow> wr str (sz - 2) 46;
       if sz - 2 > 0 then do {
         str \<leftarrow> wr str (sz - 3) 46;
         if sz - 3 > 0 then wr str (sz - 4) 46 else Some str }
       else Some str }
     else Some str }"

text \<open>The result is the null pointer (\<open>None\<close>) or the new contents of \<^verbatim>\<open>str\<close>.\<close>

definition rhn2str :: "byte list \<Rightarrow> byte list \<Rightarrow> nat \<Rightarrow> byte list option option" where
  "rhn2str rhn str sz =
     (if sz = 0 then Some None
      else do {
        lb \<leftarrow> rd rhn 0;
        if lb = 0 then do {
          (j, str) \<leftarrow> (if sz \<ge> 2 then do { str \<leftarrow> wr str 0 46; Some (1, str) } else Some (0, str));
          str \<leftarrow> wr str j 0;
          Some (Some str) }
        else do {
          r \<leftarrow> rhn2str_loop rhn sz lb 1 0 str;
          case r of Inl str \<Rightarrow> do { str \<leftarrow> rhn2str_overflow sz str; Some (Some str) }
          | Inr (j, str) \<Rightarrow> do { str \<leftarrow> wr str j 0; Some (Some str) } } })"

subsection \<open>Escaped strings and hexadecimal dumps\<close>

text \<open>
  \<^verbatim>\<open>escapestr\<close>: the return value is \<open>None\<close> for \<open>-1\<close>.  The lengths are the
  non-negative \<^verbatim>\<open>int\<close> arguments.
\<close>

function escapestr_loop :: "byte list \<Rightarrow> nat \<Rightarrow> nat \<Rightarrow> nat \<Rightarrow> nat \<Rightarrow> byte list \<Rightarrow>
    (nat option \<times> byte list) option" where
  "escapestr_loop inp ilen sz i j str =
     (if i < ilen then
        if j + 1 \<ge> sz then Some (None, str)
        else do {
          c \<leftarrow> rd inp i;
          if \<not> isprint c then do {
            str \<leftarrow> snprintf_at str j (sz - j) (octal3 c);
            if length (octal3 c) \<ge> sz - j then Some (None, str)
            else escapestr_loop inp ilen sz (i + 1) (j + length (octal3 c)) str }
          else if c = 92 \<or> c = 34 then do {
            str \<leftarrow> wr str j 92;
            if j + 1 + 1 \<ge> sz then Some (None, str)
            else do { str \<leftarrow> wr str (j + 1) c; escapestr_loop inp ilen sz (i + 1) (j + 2) str } }
          else do { str \<leftarrow> wr str j c; escapestr_loop inp ilen sz (i + 1) (j + 1) str } }
      else do { str \<leftarrow> wr str j 0; Some (Some j, str) })"
  by pat_completeness auto
termination
  by (relation "measure (\<lambda>(inp, ilen, sz, i, j, str). ilen - i)") auto

definition escapestr :: "byte list \<Rightarrow> nat \<Rightarrow> byte list \<Rightarrow> nat \<Rightarrow> (nat option \<times> byte list) option" where
  "escapestr inp ilen str sz = escapestr_loop inp ilen sz 0 0 str"

declare escapestr_loop.simps [simp del]

definition hexdigit :: "byte \<Rightarrow> byte" where
  "hexdigit d = (if d < 10 then 48 + d else 87 + d)"

text \<open>The formats \<^verbatim>\<open>"%02x"\<close> (first byte) and \<^verbatim>\<open>" %02x"\<close>.\<close>

definition hexbyte :: "nat \<Rightarrow> byte \<Rightarrow> byte list" where
  "hexbyte i c = (if i = 0 then [] else [32]) @ [hexdigit (c div 16), hexdigit (c mod 16)]"

text \<open>\<open>Inl\<close> is the jump to \<^verbatim>\<open>truncated\<close>.\<close>

function hexdump_loop :: "byte list \<Rightarrow> nat \<Rightarrow> nat \<Rightarrow> nat \<Rightarrow> nat \<Rightarrow> byte list \<Rightarrow>
    (nat \<times> byte list + nat \<times> byte list) option" where
  "hexdump_loop data dlen buflen i j buf =
     (if i < dlen then do {
        c \<leftarrow> rd data i;
        buf \<leftarrow> snprintf_at buf j (buflen - j) (hexbyte i c);
        if length (hexbyte i c) \<ge> buflen - j then Some (Inl (j, buf))
        else hexdump_loop data dlen buflen (i + 1) (j + length (hexbyte i c)) buf }
      else Some (Inr (j, buf)))"
  by pat_completeness auto
termination
  by (relation "measure (\<lambda>(d, dlen, buflen, i, j, buf). dlen - i)") auto

declare hexdump_loop.simps [simp del]

primrec put_dots :: "nat \<Rightarrow> nat \<Rightarrow> byte list \<Rightarrow> byte list option" where
  "put_dots j 0 buf = Some buf"
| "put_dots j (Suc n) buf = do { buf \<leftarrow> wr buf j 46; put_dots (j + 1) n buf }"

definition hexdump_truncated :: "nat \<Rightarrow> nat \<Rightarrow> byte list \<Rightarrow> (nat \<times> byte list) option" where
  "hexdump_truncated buflen j buf =
     (if j \<ge> 6 then do {
        let j = j - 3;
        let j = (if j + 4 \<ge> buflen then j - 3 else j);
        buf \<leftarrow> wr buf j 32;
        buf \<leftarrow> put_dots (j + 1) 3 buf;
        Some (j + 4, buf) }
      else do {
        let ndots = min (buflen - 1) 3;
        buf \<leftarrow> put_dots 0 ndots buf;
        Some (ndots, buf) })"

definition hexdump :: "byte list \<Rightarrow> nat \<Rightarrow> byte list \<Rightarrow> nat \<Rightarrow> byte list option" where
  "hexdump data dlen buf buflen = do {
     r \<leftarrow> hexdump_loop data dlen buflen 0 0 buf;
     (j, buf) \<leftarrow> (case r of Inr jb \<Rightarrow> Some jb | Inl (j, buf) \<Rightarrow> hexdump_truncated buflen j buf);
     wr buf j 0 }"

subsection \<open>What the printed name is\<close>

definition esc :: "byte \<Rightarrow> byte list" where
  "esc c = (if isgraph c then if c = 46 \<or> c = 92 \<or> c = 34 then [92, c] else [c] else octal3 c)"

definition esc_label :: "byte list \<Rightarrow> byte list" where
  "esc_label l = concat (map esc l)"

definition name_text :: "byte list list \<Rightarrow> byte list" where
  "name_text ls = (if ls = [] then [46] else concat (map (\<lambda>l. esc_label l @ [46]) ls))"

text \<open>Only the first \<open>sz\<close> cells of the buffer have changed.\<close>

definition frame :: "nat \<Rightarrow> byte list \<Rightarrow> byte list \<Rightarrow> bool" where
  "frame sz str str' \<longleftrightarrow> length str' = length str \<and> drop sz str' = drop sz str"

lemma frame_refl [simp]: "frame sz str str"
  by (simp add: frame_def)

lemma frame_trans: "frame sz a b \<Longrightarrow> frame sz b c \<Longrightarrow> frame sz a c"
  by (simp add: frame_def)

lemma frame_update [simp]: "i < sz \<Longrightarrow> frame sz a (b[i := v]) \<longleftrightarrow> frame sz a b"
  by (simp add: frame_def)

lemma frame_wrs: "i + length vs \<le> sz \<Longrightarrow> wrs a i vs = Some b \<Longrightarrow> frame sz a b"
  by (auto simp: frame_def wrs_Some drop_append)

lemma esc_ne: "0 < length (esc c)"
  by (simp add: esc_def octal3_def)

lemma octal3_length [simp]: "length (octal3 c) = 4"
  by (simp add: octal3_def)

lemma snprintf_at_short:
  assumes "pos + length text < pos + rem" "pos + rem \<le> sz" "sz \<le> length buf"
  shows "\<exists>buf'. snprintf_at buf pos rem text = Some buf' \<and> frame sz buf buf' \<and>
    take (pos + length text) buf' = take pos buf @ text"
proof -
  from assms have eq: "take (rem - 1) text = text" by simp
  with assms have "snprintf_at buf pos rem text = wrs buf pos (text @ [0])"
    by (simp add: snprintf_at_def)
  moreover obtain buf' where b: "wrs buf pos (text @ [0]) = Some buf'"
    using assms by (cases "wrs buf pos (text @ [0])") auto
  moreover from b have "take (pos + length text) buf' = take pos buf @ text"
    using assms by (auto simp: wrs_Some)
  moreover from frame_wrs [OF _ b, of sz] assms have "frame sz buf buf'" by simp
  ultimately show ?thesis by auto
qed

lemma snprintf_at_safe:
  assumes "pos + rem \<le> sz" "sz \<le> length buf"
  shows "\<exists>buf'. snprintf_at buf pos rem text = Some buf' \<and> frame sz buf buf'"
proof (cases "rem = 0")
  case False
  let ?vs = "take (rem - 1) text @ [0]"
  from False have le: "pos + length ?vs \<le> sz" using assms by simp
  then obtain buf' where "wrs buf pos ?vs = Some buf'"
    using assms(2) by (cases "wrs buf pos ?vs") auto
  with False frame_wrs [OF le this] show ?thesis by (simp add: snprintf_at_def)
qed (simp add: snprintf_at_def)

text \<open>One character of a label.\<close>

lemma rhn2str_lab_fits:
  assumes "rd rhn i = Some c" "sz \<le> length str" "j + length (esc c) + 1 < sz"
  shows "\<exists>str1. rhn2str_lab rhn sz (Suc n) i j str = rhn2str_lab rhn sz n (i + 1) (j + length (esc c)) str1 \<and>
    take (j + length (esc c)) str1 = take j str @ esc c \<and> frame sz str str1"
proof (cases "isgraph c")
  case True
  with assms show ?thesis
    by (auto simp: esc_def wr_def take_Suc_conv_app_nth)
next
  case False
  with assms have "j + length (octal3 c) < j + (sz - 1 - j)" "j + (sz - 1 - j) \<le> sz"
    by (simp_all add: esc_def)
  from snprintf_at_short [OF this assms(2)] False assms show ?thesis
    by (auto simp: esc_def)
qed

lemma rhn2str_lab_ovf:
  assumes "rd rhn i = Some c" "sz \<le> length str" "\<not> j + length (esc c) + 1 < sz"
  shows "\<exists>str'. rhn2str_lab rhn sz (Suc n) i j str = Some (Inl str') \<and> frame sz str str'"
proof (cases "isgraph c \<or> j + 2 \<ge> sz")
  case True
  with assms show ?thesis by (auto simp: esc_def wr_def)
next
  case False
  with assms have "j + (sz - 1 - j) \<le> sz" by simp
  from snprintf_at_safe [OF this assms(2), of "octal3 c"] obtain str1 where
    s1: "snprintf_at str j (sz - 1 - j) (octal3 c) = Some str1" "frame sz str str1" by auto
  moreover from s1(2) False assms have "j < length str1" by (simp add: frame_def)
  ultimately show ?thesis using False assms by (auto simp: esc_def wr_def)
qed

lemma rhn2str_lab_spec:
  assumes "i + n \<le> length rhn" "sz \<le> length str" "e = esc_label (take n (drop i rhn))"
  shows "if n = 0 \<or> j + length e + 1 < sz
    then \<exists>str'. rhn2str_lab rhn sz n i j str = Some (Inr (j + length e, str')) \<and>
      take (j + length e) str' = take j str @ e \<and> frame sz str str'
    else \<exists>str'. rhn2str_lab rhn sz n i j str = Some (Inl str') \<and> frame sz str str'"
  using assms
proof (induction n arbitrary: i j str e)
  case 0
  then show ?case by (simp add: esc_label_def)
next
  case (Suc n)
  let ?c = "rhn ! i" and ?e = "esc_label (take n (drop (i + 1) rhn))"
  from Suc.prems have c: "rd rhn i = Some ?c" by (simp add: rd_def)
  have e: "e = esc ?c @ ?e" using Suc.prems
    by (simp add: esc_label_def flip: Cons_nth_drop_Suc)
  show ?case
  proof (cases "j + length (esc ?c) + 1 < sz")
    case False
    with rhn2str_lab_ovf [OF c Suc.prems(2) this] e show ?thesis by simp
  next
    case True
    from rhn2str_lab_fits [OF c Suc.prems(2) True] obtain str1 where
      s1: "rhn2str_lab rhn sz (Suc n) i j str = rhn2str_lab rhn sz n (i + 1) (j + length (esc ?c)) str1"
        "take (j + length (esc ?c)) str1 = take j str @ esc ?c" "frame sz str str1" by blast
    then have "sz \<le> length str1" using Suc.prems by (simp add: frame_def)
    note IH = Suc.IH [OF _ this refl, of "i + 1" "j + length (esc ?c)"]
    have len: "j + length e = j + length (esc ?c) + length ?e" by (simp add: e)
    have "n = 0 \<Longrightarrow> j + length e + 1 < sz" using True e by (simp add: esc_label_def)
    then have cond: "Suc n = 0 \<or> j + length (esc ?c) + length ?e + 1 < sz \<longleftrightarrow>
        n = 0 \<or> j + length (esc ?c) + length ?e + 1 < sz" using len by auto
    from frame_trans [OF s1(3)] s1(2) IH Suc.prems(1)
    have "if n = 0 \<or> j + length (esc ?c) + length ?e + 1 < sz
      then \<exists>str'. rhn2str_lab rhn sz n (i + 1) (j + length (esc ?c)) str1 =
          Some (Inr (j + length (esc ?c) + length ?e, str')) \<and>
        take (j + length (esc ?c) + length ?e) str' = take j str @ esc ?c @ ?e \<and> frame sz str str'
      else \<exists>str'. rhn2str_lab rhn sz n (i + 1) (j + length (esc ?c)) str1 = Some (Inl str') \<and>
        frame sz str str'" by (auto split: if_splits)
    then show ?thesis unfolding len s1(1) unfolding cond by (simp only: e)
  qed
qed

lemma name_text_Cons: "ls \<noteq> [] \<Longrightarrow> name_text (l # ls) = esc_label l @ 46 # name_text ls"
  by (simp add: name_text_def)

lemma name_text_single: "name_text [l] = esc_label l @ [46]"
  by (simp add: name_text_def)

lemma rhn2str_loop_spec:
  assumes "name_at rhn i (l # ls)" "sz \<le> length str" "t = name_text (l # ls)"
  shows "if j + length t < sz
    then \<exists>str'. rhn2str_loop rhn sz (of_nat (length l)) (i + 1) j str = Some (Inr (j + length t, str')) \<and>
      take (j + length t) str' = take j str @ t \<and> frame sz str str'
    else \<exists>str'. rhn2str_loop rhn sz (of_nat (length l)) (i + 1) j str = Some (Inl str') \<and> frame sz str str'"
  using assms
proof (induction ls arbitrary: l i j str t)
  case Nil
  let ?e = "esc_label l"
  from Nil have l: "lab_ok l" "take (length l) (drop (i + 1) rhn) = l"
    "rd rhn (i + 1 + length l) = Some 0" by auto
  then have "i + 1 + length l \<le> length rhn" "length l \<noteq> 0" by (auto dest: rd_SomeD simp: lab_ok_def)
  with rhn2str_lab_spec [OF this(1) Nil.prems(2) refl, of j] l Nil.prems(2)
  show ?case
    by (auto simp: rhn2str_loop.simps [of rhn sz _ "Suc i" j str] Nil.prems(3) name_text_single
        wr_def frame_def take_Suc_conv_app_nth split: if_splits)
next
  case (Cons l' ls)
  let ?e = "esc_label l" and ?t = "name_text (l' # ls)"
  let ?k = "i + 1 + length l"
  from Cons.prems have l: "lab_ok l" "take (length l) (drop (i + 1) rhn) = l"
    "rd rhn ?k = Some (of_nat (length l'))" "name_at rhn ?k (l' # ls)" "lab_ok l'" by auto
  have t: "t = ?e @ 46 # ?t" by (simp add: Cons.prems(3) name_text_Cons)
  from l have "?k \<le> length rhn" "length l \<noteq> 0" by (auto dest: rd_SomeD simp: lab_ok_def)
  note lab = rhn2str_lab_spec [OF this(1) Cons.prems(2) refl, of j, unfolded l(2)]
  show ?case
  proof (cases "j + length ?e + 1 < sz")
    case False
    with lab \<open>length l \<noteq> 0\<close> l(1) t show ?thesis
      by (auto simp: rhn2str_loop.simps [of rhn sz _ "Suc i" j str])
  next
    case True
    with lab obtain str1 where s1: "rhn2str_lab rhn sz (length l) (i + 1) j str = Some (Inr (j + length ?e, str1))"
      "take (j + length ?e) str1 = take j str @ ?e" "frame sz str str1" by auto
    let ?str = "str1[j + length ?e := 46]"
    from s1(3) Cons.prems(2) True have len: "sz \<le> length str1" "j + length ?e < length str1"
      by (auto simp: frame_def)
    with s1(2) have tk: "take (j + length ?e + 1) ?str = take j str @ ?e @ [46]"
      by (simp add: take_Suc_conv_app_nth)
    have loop: "rhn2str_loop rhn sz (of_nat (length l)) (i + 1) j str =
        rhn2str_loop rhn sz (of_nat (length l')) (?k + 1) (j + length ?e + 1) ?str"
      using s1(1) l len by (subst rhn2str_loop.simps) (simp add: wr_def)
    from s1(3) True have fr: "frame sz str ?str" by simp
    from Cons.IH [OF l(4) _ refl, of ?str "j + length ?e + 1"] len frame_trans [OF fr] tk
    show ?thesis unfolding loop t by (auto simp: add.assoc split: if_splits)
  qed
qed

lemma rhn2str_overflow_spec:
  assumes "0 < sz" "sz \<le> length str"
  shows "\<exists>str'. rhn2str_overflow sz str = Some str' \<and> frame sz str str' \<and> str' ! (sz - 1) = 0 \<and>
    (\<forall>k. 2 \<le> k \<and> k \<le> 4 \<and> k \<le> sz \<longrightarrow> str' ! (sz - k) = 46)"
proof -
  have "str' ! (sz - k) = 46" if "2 \<le> k" "k \<le> 4" "k \<le> sz" "rhn2str_overflow sz str = Some str'" for k str'
  proof -
    from that(1,2) have "k = 2 \<or> k = 3 \<or> k = 4" by arith
    with that assms show ?thesis
      by (auto simp: rhn2str_overflow_def wr_def nth_list_update split: if_splits)
  qed
  moreover have "\<exists>str'. rhn2str_overflow sz str = Some str' \<and> frame sz str str' \<and> str' ! (sz - 1) = 0"
    using assms by (auto simp: rhn2str_overflow_def wr_def nth_list_update)
  ultimately show ?thesis by blast
qed

text \<open>The marks of a truncated text: a null byte in the last cell and dots in the three before it.\<close>

definition truncated :: "nat \<Rightarrow> byte list \<Rightarrow> bool" where
  "truncated sz str \<longleftrightarrow> str ! (sz - 1) = 0 \<and> (\<forall>k. 2 \<le> k \<and> k \<le> 4 \<and> k \<le> sz \<longrightarrow> str ! (sz - k) = 46)"

lemma rhn2str_spec:
  assumes "name_at rhn 0 ls" "0 < sz" "sz \<le> length str"
  shows "\<exists>str'. rhn2str rhn str sz = Some (Some str') \<and> frame sz str str' \<and>
    (if length (name_text ls) < sz
     then take (length (name_text ls) + 1) str' = name_text ls @ [0]
     else truncated sz str')"
proof (cases ls)
  case Nil
  with assms show ?thesis
    by (auto simp: rhn2str_def name_text_def wr_def frame_def truncated_def take_Suc_conv_app_nth
        numeral_2_eq_2)
next
  case (Cons l ls')
  from assms(1) Cons have l: "rd rhn 0 = Some (of_nat (length l))" "lab_ok l" by auto
  note loop = rhn2str_loop_spec [OF assms(1) [unfolded Cons] assms(3) refl, of 0]
  show ?thesis
  proof (cases "length (name_text ls) < sz")
    case True
    with loop Cons obtain str1 where
      s: "rhn2str_loop rhn sz (of_nat (length l)) 1 0 str = Some (Inr (length (name_text ls), str1))"
        "take (length (name_text ls)) str1 = name_text ls" "frame sz str str1" by auto
    with assms True have "length (name_text ls) < length str1" by (simp add: frame_def)
    with s l True assms show ?thesis
      by (auto simp: rhn2str_def wr_def take_Suc_conv_app_nth)
  next
    case False
    with loop Cons obtain str1 where
      s: "rhn2str_loop rhn sz (of_nat (length l)) 1 0 str = Some (Inl str1)" "frame sz str str1" by auto
    with assms have "sz \<le> length str1" by (simp add: frame_def)
    from rhn2str_overflow_spec [OF assms(2) this] s l assms False show ?thesis
      by (auto simp: rhn2str_def truncated_def intro: frame_trans)
  qed
qed

text \<open>
  C37.  For a name in memory and a buffer of \<open>sz > 0\<close> cells, \<^verbatim>\<open>rhn2str\<close> stays inside
  the name and inside the first \<open>sz\<close> cells of the buffer.  When the text of the name (escaped labels
  each followed by a dot) and its null byte fit, the buffer holds exactly that; otherwise the buffer is
  terminated and ends in dots.
\<close>

theorem rhn2str_correct:
  assumes "name_at rhn 0 ls" "0 < sz" "sz \<le> length str"
  shows "\<exists>str'. rhn2str rhn str sz = Some (Some str') \<and> frame sz str str' \<and>
    (if length (name_text ls) < sz
     then take (length (name_text ls) + 1) str' = name_text ls @ [0]
     else truncated sz str')"
  using rhn2str_spec [OF assms] .

theorem rhn2str_correct_witness:
  "\<exists>str'. rhn2str [2, 97, 46, 1, 0x80, 0] (replicate 16 1) 16 = Some (Some str') \<and>
    take 10 str' = [97, 92, 46, 46, 92, 50, 48, 48, 46, 0]"
proof -
  let ?ls = "[[97, 46], [0x80]] :: byte list list"
  have n: "name_at [2, 97, 46, 1, 0x80, 0] 0 ?ls" by (simp add: rd_def lab_ok_def)
  have "name_text ?ls = [97, 92, 46, 46, 92, 50, 48, 48, 46]"
    by (simp add: name_text_def esc_label_def esc_def octal3_def isgraph_def)
  with rhn2str_correct [OF n, of 16 "replicate 16 1"] show ?thesis by (auto simp: eval_nat_numeral)
qed

text \<open>
  The text of a name whose characters are all printable and none of which is a dot, a backslash or a
  quote is its dotted notation, which \<^verbatim>\<open>str2rhn\<close> reads back.
\<close>

definition plain_byte :: "byte \<Rightarrow> bool" where
  "plain_byte c \<longleftrightarrow> isgraph c \<and> c \<noteq> 46 \<and> c \<noteq> 92 \<and> c \<noteq> 34"

lemma plain_esc_label: "list_all plain_byte l \<Longrightarrow> esc_label l = l"
  by (induction l) (auto simp: esc_label_def esc_def plain_byte_def)

lemma plain_name_text:
  assumes "list_all (list_all plain_byte) ls" "ls \<noteq> []"
  shows "name_text ls = dotted ls"
proof -
  have "concat (map (\<lambda>l. esc_label l @ [46]) ls) = concat (map (\<lambda>l. l @ [46]) ls)"
    using assms(1) by (induction ls) (auto simp: plain_esc_label)
  with assms(2) show ?thesis by (simp add: name_text_def dotted_def)
qed

lemma plain_str_denotes:
  assumes "list_all (list_all plain_byte) ls" "wf_name ls"
  shows "str_denotes (name_text ls) ls"
proof (cases "ls = []")
  case True
  then show ?thesis by (simp add: name_text_def str_denotes_root)
next
  case False
  have "\<forall>l\<in>set ls. 46 \<notin> set l" using assms(1) by (auto simp: list_all_iff plain_byte_def)
  with False assms show ?thesis by (auto simp: str_denotes_def plain_name_text undot_iff)
qed

lemma plain_no_null: "list_all (list_all plain_byte) ls \<Longrightarrow> 0 \<notin> set (name_text ls)"
proof (cases "ls = []")
  case False
  assume "list_all (list_all plain_byte) ls"
  moreover have "\<not> plain_byte 0" by (simp add: plain_byte_def isgraph_def)
  ultimately show ?thesis using False by (auto simp: plain_name_text dotted_def list_all_iff)
qed (simp add: name_text_def)

lemma wf_name_text_length: "list_all (list_all plain_byte) ls \<Longrightarrow> wf_name ls \<Longrightarrow>
    length (name_text ls) < DNSNAMEBUFSIZE"
proof -
  assume a: "list_all (list_all plain_byte) ls" "wf_name ls"
  have "length (dotted ls) + 1 = length (enc ls)"
    by (induction ls) (auto simp: dotted_def)
  with a show ?thesis
    by (cases "ls = []") (auto simp: plain_name_text wf_name_def, simp add: name_text_def DNSNAMEBUFSIZE_def)
qed

text \<open>
  C24.  Printing and parsing are inverse: for a well-formed name made of ordinary characters, the
  string \<^verbatim>\<open>rhn2str\<close> prints into a buffer of 256 bytes is accepted by \<^verbatim>\<open>str2rhn\<close>, which
  restores the name byte for byte.
\<close>

theorem rhn2str_str2rhn:
  assumes "name_at rhn 0 ls" "wf_name ls" "list_all (list_all plain_byte) ls"
    and "length str = DNSNAMEBUFSIZE" "length buf = DNSNAMEBUFSIZE"
  shows "\<exists>str' buf'. rhn2str rhn str DNSNAMEBUFSIZE = Some (Some str') \<and>
    str2rhn str' buf = Some (True, buf') \<and> take (length (enc ls)) buf' = take (length (enc ls)) rhn"
proof -
  let ?t = "name_text ls"
  note len = wf_name_text_length [OF assms(3,2)]
  from rhn2str_spec [OF assms(1), of DNSNAMEBUFSIZE str] assms(4) len obtain str' where
    s: "rhn2str rhn str DNSNAMEBUFSIZE = Some (Some str')" "take (length ?t + 1) str' = ?t @ [0]"
    by (auto simp: DNSNAMEBUFSIZE_def)
  have "str' = take (length ?t + 1) str' @ drop (length ?t + 1) str'" by simp
  also have "\<dots> = ?t @ 0 # drop (length ?t + 1) str'" by (simp only: s(2)) simp
  finally have str': "str' = ?t @ 0 # drop (length ?t + 1) str'" .
  from str2rhn_spec [OF plain_no_null [OF assms(3)] assms(5)] str' plain_str_denotes [OF assms(3,2)]
  obtain buf' where "str2rhn str' buf = Some (True, buf')" "name_at buf' 0 ls" by metis
  with s(1) assms(1) show ?thesis by (auto simp: name_at_prefix prefix_def)
qed

theorem rhn2str_str2rhn_witness:
  "\<exists>str' buf'. rhn2str [3, 119, 119, 119, 1, 120, 0] (replicate 256 0) DNSNAMEBUFSIZE = Some (Some str') \<and>
    str2rhn str' (replicate 256 7) = Some (True, buf') \<and> take 7 buf' = [3, 119, 119, 119, 1, 120, 0]"
proof -
  let ?ls = "[[119, 119, 119], [120]] :: byte list list"
  have "name_at [3, 119, 119, 119, 1, 120, 0] 0 ?ls" "wf_name ?ls" "list_all (list_all plain_byte) ?ls"
    by (simp_all add: rd_def lab_ok_def wf_name_def lab63_def DNSNAMEBUFSIZE_def plain_byte_def isgraph_def)
  from rhn2str_str2rhn [OF this, of "replicate 256 0" "replicate 256 7"] show ?thesis
    by (simp add: DNSNAMEBUFSIZE_def numeral_eq_Suc)
qed

subsection \<open>Escaped strings\<close>

definition pesc :: "byte \<Rightarrow> byte list" where
  "pesc c = (if \<not> isprint c then octal3 c else if c = 92 \<or> c = 34 then [92, c] else [c])"

lemma escapestr_loop_step:
  assumes "rd inp i = Some c" "i < ilen" "sz \<le> length str" "j < sz"
  shows "if j + length (pesc c) < sz
    then \<exists>str1. escapestr_loop inp ilen sz i j str = escapestr_loop inp ilen sz (i + 1) (j + length (pesc c)) str1 \<and>
      take (j + length (pesc c)) str1 = take j str @ pesc c \<and> frame sz str str1
    else \<exists>str1. escapestr_loop inp ilen sz i j str = Some (None, str1) \<and> frame sz str str1"
proof (cases "isprint c")
  case True
  with assms show ?thesis
    by (auto simp: escapestr_loop.simps [of inp ilen sz i] pesc_def wr_def take_Suc_conv_app_nth)
next
  case False
  have rem: "j + (sz - j) \<le> sz" using assms by simp
  show ?thesis
  proof (cases "j + 4 < sz")
    case True
    then have "j + length (octal3 c) < j + (sz - j)" by simp
    from snprintf_at_short [OF this rem assms(3)] False True assms show ?thesis
      by (auto simp: escapestr_loop.simps [of inp ilen sz i] pesc_def)
  next
    case long: False
    from snprintf_at_safe [OF rem assms(3), of "octal3 c"] False long assms show ?thesis
      by (auto simp: escapestr_loop.simps [of inp ilen sz i] pesc_def)
  qed
qed

lemma escapestr_loop_spec:
  assumes "ilen \<le> length inp" "sz \<le> length str" "j < sz" "i \<le> ilen"
    and "t = concat (map pesc (take (ilen - i) (drop i inp)))"
  shows "if j + length t < sz
    then \<exists>str'. escapestr_loop inp ilen sz i j str = Some (Some (j + length t), str') \<and>
      take (j + length t + 1) str' = take j str @ t @ [0] \<and> frame sz str str'
    else \<exists>str'. escapestr_loop inp ilen sz i j str = Some (None, str') \<and> frame sz str str'"
  using assms
proof (induction "ilen - i" arbitrary: i j str t)
  case 0
  then show ?case
    by (auto simp: escapestr_loop.simps [of inp i sz i] wr_def take_Suc_conv_app_nth)
next
  case (Suc n)
  let ?c = "inp ! i" and ?t = "concat (map pesc (take (ilen - (i + 1)) (drop (i + 1) inp)))"
  from Suc.hyps(2) Suc.prems have i: "i < ilen" "rd inp i = Some ?c" by (auto simp: rd_def)
  with Suc.prems(1) have "take (ilen - i) (drop i inp) = ?c # take (ilen - (i + 1)) (drop (i + 1) inp)"
    by (simp flip: Cons_nth_drop_Suc add: take_Cons' )
  then have t: "t = pesc ?c @ ?t" using Suc.prems(5) by simp
  note step = escapestr_loop_step [OF i(2,1) Suc.prems(2,3)]
  show ?case
  proof (cases "j + length (pesc ?c) < sz")
    case False
    with step t show ?thesis by auto
  next
    case True
    with step obtain str1 where s:
      "escapestr_loop inp ilen sz i j str = escapestr_loop inp ilen sz (i + 1) (j + length (pesc ?c)) str1"
      "take (j + length (pesc ?c)) str1 = take j str @ pesc ?c" "frame sz str str1" by auto
    from s(3) have str1: "sz \<le> length str1" using Suc.prems(2) by (simp add: frame_def)
    from Suc.hyps(2) i(1) have "n = ilen - (i + 1)" "i + 1 \<le> ilen" by arith+
    with Suc.hyps(1) [OF this(1) Suc.prems(1) str1 True this(2) refl] frame_trans [OF s(3)]
    show ?thesis unfolding s(1) t by (auto simp: s(2) [simplified] add.assoc split: if_splits)
  qed
qed

text \<open>
  \<^verbatim>\<open>escapestr\<close> on \<open>ilen\<close> readable characters and a buffer of \<open>size > 0\<close> cells stays
  inside both.  It returns \<open>-1\<close> exactly when the escaped text and its null byte do not fit, and
  otherwise leaves exactly them at the start of the buffer and returns the length of the text.
\<close>

theorem escapestr_correct:
  assumes "ilen \<le> length inp" "0 < sz" "sz \<le> length str"
  shows "\<exists>r str'. escapestr inp ilen str sz = Some (r, str') \<and> frame sz str str' \<and>
    (let t = concat (map pesc (take ilen inp)) in
     if length t < sz then r = Some (length t) \<and> take (length t + 1) str' = t @ [0] else r = None)"
  using escapestr_loop_spec [OF assms(1,3,2), of 0, OF _ refl]
  by (auto simp: escapestr_def Let_def split: if_splits)

theorem escapestr_correct_witness:
  "\<exists>str'. escapestr [34, 10] 2 (replicate 8 1) 8 = Some (Some 6, str') \<and>
    take 7 str' = [92, 34, 92, 48, 49, 50, 0]"
proof -
  have "concat (map pesc (take 2 [34, 10])) = [92, 34, 92, 48, 49, 50]"
    by (simp add: pesc_def octal3_def isprint_def)
  from escapestr_correct [of 2 "[34, 10]" 8 "replicate 8 1", unfolded this Let_def] show ?thesis
    by (auto simp: numeral_eq_Suc)
qed

subsection \<open>Hexadecimal dumps\<close>

lemma hexbyte_length: "length (hexbyte i c) = (if i = 0 then 2 else 3)"
  by (simp add: hexbyte_def)

text \<open>The text for the bytes from \<open>i\<close> on.\<close>

primrec hextext :: "nat \<Rightarrow> byte list \<Rightarrow> byte list" where
  "hextext i [] = []"
| "hextext i (c # cs) = hexbyte i c @ hextext (Suc i) cs"

lemma hexdump_loop_spec:
  assumes "sz \<le> length buf" "j < sz" "i + length cs \<le> length data"
    and "cs = take (length cs) (drop i data)"
  shows "if j + length (hextext i cs) < sz
    then \<exists>buf'. hexdump_loop data (i + length cs) sz i j buf = Some (Inr (j + length (hextext i cs), buf')) \<and>
      take (j + length (hextext i cs)) buf' = take j buf @ hextext i cs \<and> frame sz buf buf'
    else \<exists>j' buf'. hexdump_loop data (i + length cs) sz i j buf = Some (Inl (j', buf')) \<and> j' < sz \<and>
      frame sz buf buf'"
  using assms
proof (induction cs arbitrary: i j buf)
  case Nil
  then show ?case by (simp add: hexdump_loop.simps)
next
  case (Cons c cs)
  let ?h = "hexbyte i c"
  from Cons.prems(3) have lt: "i < length data" by simp
  with Cons.prems(4) have c: "rd data i = Some c" "cs = take (length cs) (drop (i + 1) data)"
    by (simp_all add: rd_def flip: Cons_nth_drop_Suc)
  have rem: "j + (sz - j) \<le> sz" using Cons.prems(2) by simp
  have loop: "hexdump_loop data (i + length (c # cs)) sz i j buf =
     do { buf \<leftarrow> snprintf_at buf j (sz - j) ?h;
          if length ?h \<ge> sz - j then Some (Inl (j, buf))
          else hexdump_loop data (i + 1 + length cs) sz (i + 1) (j + length ?h) buf }"
    using c(1) by (subst hexdump_loop.simps) (simp cong: if_cong)
  show ?case
  proof (cases "j + length ?h < sz")
    case False
    with snprintf_at_safe [OF rem Cons.prems(1), of ?h] Cons.prems(2) show ?thesis
      unfolding loop by auto
  next
    case True
    then have "j + length ?h < j + (sz - j)" by simp
    from snprintf_at_short [OF this rem Cons.prems(1)] obtain buf1 where
      b: "snprintf_at buf j (sz - j) ?h = Some buf1" "frame sz buf buf1"
        "take (j + length ?h) buf1 = take j buf @ ?h" by auto
    then have "sz \<le> length buf1" using Cons.prems(1) by (simp add: frame_def)
    from Cons.IH [OF this True _ c(2)] Cons.prems(3) b True frame_trans [OF b(2)] show ?thesis
      unfolding loop by (auto simp: add.assoc split: if_splits)
  qed
qed

lemma put_dots_spec:
  "j + n \<le> sz \<Longrightarrow> sz \<le> length buf \<Longrightarrow> \<exists>buf'. put_dots j n buf = Some buf' \<and> frame sz buf buf'"
proof (induction n arbitrary: j buf)
  case (Suc n)
  from Suc.IH [of "j + 1" "buf[j := 46]"] Suc.prems show ?case
    by (auto simp: wr_def frame_def)
qed simp

lemma hexdump_truncated_spec:
  assumes "j < sz" "sz \<le> length buf"
  shows "\<exists>j' buf'. hexdump_truncated sz j buf = Some (j', buf') \<and> j' < sz \<and> frame sz buf buf'"
proof (cases "j \<ge> 6")
  case False
  have m: "0 + min (sz - 1) 3 \<le> sz" "min (sz - 1) 3 < sz" using assms(1) by linarith+
  from put_dots_spec [OF m(1) assms(2)] m(2) False show ?thesis
    by (auto simp: hexdump_truncated_def Let_def)
next
  case True
  let ?k = "if j - 3 + 4 \<ge> sz then j - 3 - 3 else j - 3"
  have k: "?k + 4 < sz" using True assms(1) by (cases "j - 3 + 4 \<ge> sz") simp_all
  with put_dots_spec [of "?k + 1" 3 sz "buf[?k := 32]"] assms obtain buf' where
    "put_dots (?k + 1) 3 (buf[?k := 32]) = Some buf'" "frame sz (buf[?k := 32]) buf'" by auto
  moreover have "wr buf ?k 32 = Some (buf[?k := 32])" using k assms(2) by (simp only: wr_lt)
  moreover have "frame sz buf (buf[?k := 32])" using k by (simp only: frame_update frame_refl)
  ultimately show ?thesis using True k unfolding hexdump_truncated_def Let_def
    by (simp only: if_True bind.bind_lunit) (blast intro: frame_trans)
qed

text \<open>
  \<^verbatim>\<open>hexdump\<close> never writes outside its buffer of \<open>buflen > 0\<close> cells; when the
  hexadecimal text and its null byte fit, the buffer starts with exactly them, and otherwise it
  starts with a null-terminated string.
\<close>

theorem hexdump_correct:
  assumes "dlen \<le> length data" "0 < buflen" "buflen \<le> length buf"
  shows "\<exists>buf'. hexdump data dlen buf buflen = Some buf' \<and> frame buflen buf buf' \<and>
    (let t = hextext 0 (take dlen data) in
     if length t < buflen then take (length t + 1) buf' = t @ [0] else 0 \<in> set (take buflen buf'))"
proof -
  let ?t = "hextext 0 (take dlen data)"
  have len: "length (take dlen data) = dlen" using assms(1) by simp
  from hexdump_loop_spec [OF assms(3,2), of 0 "take dlen data" data, unfolded len] assms(1)
  have spec: "if length ?t < buflen
    then \<exists>buf'. hexdump_loop data dlen buflen 0 0 buf = Some (Inr (length ?t, buf')) \<and>
      take (length ?t) buf' = ?t \<and> frame buflen buf buf'
    else \<exists>j' buf'. hexdump_loop data dlen buflen 0 0 buf = Some (Inl (j', buf')) \<and> j' < buflen \<and>
      frame buflen buf buf'" by (simp cong: if_cong)
  show ?thesis
  proof (cases "length ?t < buflen")
    case True
    with spec obtain buf1 where "hexdump_loop data dlen buflen 0 0 buf = Some (Inr (length ?t, buf1))"
      "take (length ?t) buf1 = ?t" "frame buflen buf buf1" by auto
    moreover from this(3) True assms(3) have "length ?t < length buf1" by (simp add: frame_def)
    ultimately show ?thesis using True
      by (auto simp: hexdump_def wr_def Let_def take_Suc_conv_app_nth)
  next
    case False
    with spec obtain j1 buf1 where s: "hexdump_loop data dlen buflen 0 0 buf = Some (Inl (j1, buf1))"
      "j1 < buflen" "frame buflen buf buf1" by auto
    then have "buflen \<le> length buf1" using assms(3) by (simp add: frame_def)
    from hexdump_truncated_spec [OF s(2) this] obtain j2 buf2 where
      t: "hexdump_truncated buflen j1 buf1 = Some (j2, buf2)" "j2 < buflen" "frame buflen buf1 buf2" by blast
    note fr = frame_trans [OF s(3) t(3)]
    with assms(3) t(2) have len2: "j2 < length buf2" by (simp add: frame_def)
    with t(2) have "0 \<in> set (take buflen (buf2[j2 := 0]))"
      by (auto simp: in_set_conv_nth intro!: exI [of _ j2])
    with False s(1) t fr len2 show ?thesis by (auto simp: hexdump_def wr_def Let_def)
  qed
qed

theorem hexdump_correct_witness:
  "\<exists>buf'. hexdump [0xAB, 0x07] 2 (replicate 9 1) 9 = Some buf' \<and>
    take 6 buf' = [97, 98, 32, 48, 55, 0]"
proof -
  have "hextext 0 (take 2 [0xAB, 0x07]) = [97, 98, 32, 48, 55]"
    by (simp add: hexbyte_def hexdigit_def)
  from hexdump_correct [of 2 "[0xAB, 0x07]" 9 "replicate 9 1", unfolded this Let_def] show ?thesis
    by (auto simp: numeral_eq_Suc)
qed

subsection \<open>String copies\<close>

text \<open>\<^verbatim>\<open>strlen(s+i)\<close>.\<close>

function strlen_at :: "byte list \<Rightarrow> nat \<Rightarrow> nat option" where
  "strlen_at s i = do { c \<leftarrow> rd s i; if c = 0 then Some 0 else map_option Suc (strlen_at s (i + 1)) }"
  by pat_completeness auto
termination by (relation "measure (\<lambda>(s, i). length s - i)") (auto dest: rd_SomeD)

declare strlen_at.simps [simp del]

text \<open>
  \<^verbatim>\<open>strncp\<close> (none of the optional library functions is assumed): \<^verbatim>\<open>strncpy\<close> fills the
  destination with the string and null bytes; a string that does not fit is cut.
\<close>

definition strncp :: "byte list \<Rightarrow> byte list \<Rightarrow> nat \<Rightarrow> (bool \<times> byte list) option" where
  "strncp dst src dstsz = do {
     n \<leftarrow> strlen_at src 0;
     dst \<leftarrow> wrs dst 0 (take dstsz (take n src) @ replicate (dstsz - n) 0);
     if n < dstsz then Some (True, dst)
     else do { dst \<leftarrow> wr dst (dstsz - 1) 0; Some (False, dst) } }"

text \<open>
  The \<^verbatim>\<open>stpcpy\<close> of \<^verbatim>\<open>helpers.h\<close> copies up to and including the null byte and returns its
  position.  The one of \<^verbatim>\<open>cache.c\<close> is \<^verbatim>\<open>memcpy(dest, src, strlen(src)) + strlen(src)\<close>.
\<close>

function stpcpy_loop :: "byte list \<Rightarrow> nat \<Rightarrow> byte list \<Rightarrow> nat \<Rightarrow> (nat \<times> byte list) option" where
  "stpcpy_loop dest d src s = do {
     c \<leftarrow> rd src s;
     dest \<leftarrow> wr dest d c;
     if c \<noteq> 0 then stpcpy_loop dest (d + 1) src (s + 1) else Some (d + 1 - 1, dest) }"
  by pat_completeness auto
termination by (relation "measure (\<lambda>(dest, d, src, s). length src - s)") (auto dest: rd_SomeD)

declare stpcpy_loop.simps [simp del]

definition stpcpy :: "byte list \<Rightarrow> nat \<Rightarrow> byte list \<Rightarrow> (nat \<times> byte list) option" where
  "stpcpy dest d src = stpcpy_loop dest d src 0"

definition cache_stpcpy :: "byte list \<Rightarrow> nat \<Rightarrow> byte list \<Rightarrow> (nat \<times> byte list) option" where
  "cache_stpcpy dest d src = do {
     n \<leftarrow> strlen_at src 0;
     dest \<leftarrow> wrs dest d (take n src);
     Some (d + n, dest) }"

lemma strlen_at_c: "0 \<notin> set (drop i s) \<Longrightarrow> i \<le> length s \<Longrightarrow> strlen_at (s @ 0 # r) i = Some (length s - i)"
proof (induction "length s - i" arbitrary: i)
  case 0
  then show ?case by (subst strlen_at.simps) (simp add: rd_def nth_append)
next
  case (Suc n)
  then have "drop i s = s ! i # drop (i + 1) s" by (simp add: Cons_nth_drop_Suc)
  with Suc.prems Suc.hyps(2) Suc.hyps(1) [of "i + 1"] show ?case
    by (subst strlen_at.simps) (auto simp: rd_def nth_append)
qed

lemma strncp_spec:
  assumes "0 \<notin> set s" "0 < n" "n \<le> length dst"
  shows "\<exists>dst'. strncp dst (s @ 0 # r) n = Some (length s < n, dst') \<and> frame n dst dst' \<and>
    take (min (length s) (n - 1) + 1) dst' = take (n - 1) s @ [0]"
proof -
  have l: "strlen_at (s @ 0 # r) 0 = Some (length s)" using strlen_at_c [of 0 s r] assms(1) by simp
  show ?thesis
  proof (cases "length s < n")
    case True
    then obtain k where "n = length s + Suc k" using less_imp_Suc_add by fastforce
    with l assms show ?thesis by (auto simp: strncp_def wrs_def frame_def)
  next
    case False
    then have "take n s = take (n - 1) s @ [s ! (n - 1)]"
      using assms(2) take_Suc_conv_app_nth [of "n - 1" s] by simp
    with False l assms show ?thesis
      by (auto simp: strncp_def wrs_def wr_def frame_def min_def list_update_append)
  qed
qed

lemma stpcpy_loop_spec:
  assumes "0 \<notin> set (drop i s)" "i \<le> length s" "d + (length s - i) < length dest"
  shows "stpcpy_loop dest d (s @ 0 # r) i =
    map_option (Pair (d + (length s - i))) (wrs dest d (drop i s @ [0]))"
  using assms
proof (induction "length s - i" arbitrary: i d dest)
  case 0
  then show ?case
    by (subst stpcpy_loop.simps) (auto simp: rd_def nth_append wr_def wrs_def upd_conv_take_nth_drop)
next
  case (Suc n)
  then have dr: "drop i s = s ! i # drop (i + 1) s" by (simp add: Cons_nth_drop_Suc)
  let ?dest = "dest[d := s ! i]"
  from Suc.hyps(2) Suc.prems have len: "d + 1 + (length s - (i + 1)) = d + (length s - i)"
    "length (drop (i + 1) s @ [0]) + 1 = length (drop i s @ [0])" by auto
  have w: "wrs ?dest (d + 1) (drop (i + 1) s @ [0]) = wrs dest d (drop i s @ [0])"
    using Suc.prems Suc.hyps(2) unfolding dr by (auto simp: wrs_def take_Suc_conv_app_nth)
  have "stpcpy_loop dest d (s @ 0 # r) i = stpcpy_loop ?dest (d + 1) (s @ 0 # r) (i + 1)"
    using Suc.prems Suc.hyps(2) dr by (subst stpcpy_loop.simps) (auto simp: rd_def nth_append wr_def)
  also have "\<dots> = map_option (Pair (d + (length s - i))) (wrs dest d (drop i s @ [0]))"
    using Suc.hyps(1) [of "i + 1" "d + 1" ?dest] Suc.hyps(2) Suc.prems dr unfolding w len(1) by auto
  finally show ?case .
qed

text \<open>
  Of the two definitions of \<^verbatim>\<open>stpcpy\<close> in the program, the one of \<^verbatim>\<open>helpers.h\<close> writes
  the string and its null byte, the one of \<^verbatim>\<open>cache.c\<close> writes the string only: they
  return the same position, at which the first leaves a null byte and the second what was there before.
\<close>

theorem stpcpy_versions:
  assumes "0 \<notin> set s" "d + length s < length dest"
  shows "\<exists>dest1 dest2. stpcpy dest d (s @ 0 # r) = Some (d + length s, dest1) \<and>
    cache_stpcpy dest d (s @ 0 # r) = Some (d + length s, dest2) \<and>
    take (d + length s) dest1 = take (d + length s) dest2 \<and>
    dest1 ! (d + length s) = 0 \<and> dest2 ! (d + length s) = dest ! (d + length s)"
proof -
  from stpcpy_loop_spec [of 0 s d dest r] assms
  have "stpcpy dest d (s @ 0 # r) = Some (d + length s, take d dest @ s @ 0 # drop (d + length s + 1) dest)"
    by (simp add: stpcpy_def wrs_def)
  moreover from strlen_at_c [of 0 s r] assms
  have "cache_stpcpy dest d (s @ 0 # r) = Some (d + length s, take d dest @ s @ drop (d + length s) dest)"
    by (simp add: cache_stpcpy_def wrs_def)
  ultimately show ?thesis using assms by (auto simp: nth_append)
qed

theorem stpcpy_versions_witness:
  "\<exists>dest1 dest2. stpcpy [7, 7, 7] 1 ([65] @ 0 # []) = Some (2, dest1) \<and>
    cache_stpcpy [7, 7, 7] 1 ([65] @ 0 # []) = Some (2, dest2) \<and> dest1 ! 2 = 0 \<and> dest2 ! 2 = 7"
proof -
  have "0 \<notin> set [65 :: byte]" by simp
  from stpcpy_versions [OF this, of 1 "[7, 7, 7]" "[]"] show ?thesis
    by (simp add: numeral_2_eq_2 [symmetric]) blast
qed

end
