(* ===== verification/RR_Types.thy ===== *)
theory RR_Types
  imports Prelude
begin

text \<open>
  The tables of \<^verbatim>\<open>rr_types.h\<close>: numbers and names of the record types, the positions of their
  sets inside a cache entry (a directly embedded array for the \<open>NRRMU\<close> most used types, a separately
  allocated one for the \<open>NRREXT\<close> others), and the classes of types that exclude each other.  The
  lemmas show that the tables fit together.
\<close>

text \<open>The \<^verbatim>\<open>T_\<close> constants by name.\<close>

definition T_values :: "(string \<times> nat) list" where
  "T_values = [
     (''A'', 1), (''NS'', 2), (''MD'', 3), (''MF'', 4), (''CNAME'', 5),
     (''SOA'', 6), (''MB'', 7), (''MG'', 8), (''MR'', 9), (''NULL'', 10),
     (''WKS'', 11), (''PTR'', 12), (''HINFO'', 13), (''MINFO'', 14), (''MX'', 15),
     (''TXT'', 16), (''RP'', 17), (''AFSDB'', 18), (''X25'', 19), (''ISDN'', 20),
     (''RT'', 21), (''NSAP'', 22), (''NSAP_PTR'', 23), (''SIG'', 24), (''KEY'', 25),
     (''PX'', 26), (''GPOS'', 27), (''AAAA'', 28), (''LOC'', 29), (''NXT'', 30),
     (''EID'', 31), (''NIMLOC'', 32), (''SRV'', 33), (''ATMA'', 34), (''NAPTR'', 35),
     (''KX'', 36), (''CERT'', 37), (''A6'', 38), (''DNAME'', 39), (''SINK'', 40),
     (''OPT'', 41), (''APL'', 42), (''DS'', 43), (''SSHFP'', 44), (''IPSECKEY'', 45),
     (''RRSIG'', 46), (''NSEC'', 47), (''DNSKEY'', 48), (''DHCID'', 49), (''NSEC3'', 50),
     (''NSEC3PARAM'', 51), (''HIP'', 55), (''NINFO'', 56), (''RKEY'', 57), (''TALINK'', 58),
     (''SPF'', 99), (''UINFO'', 100), (''UID'', 101), (''GID'', 102), (''UNSPEC'', 103)
     ]"

definition T_MIN :: nat where
  "T_MIN = 1"

definition T_MAX :: nat where
  "T_MAX = 51"

definition T_NUM :: nat where
  "T_NUM = 51"

definition T_A :: nat where
  "T_A = 1"

definition T_NS :: nat where
  "T_NS = 2"

definition T_CNAME :: nat where
  "T_CNAME = 5"

definition T_SOA :: nat where
  "T_SOA = 6"

definition T_PTR :: nat where
  "T_PTR = 12"

definition T_MX :: nat where
  "T_MX = 15"

definition T_TXT :: nat where
  "T_TXT = 16"

definition T_AAAA :: nat where
  "T_AAAA = 28"

definition NRRMU :: nat where
  "NRRMU = 8"

definition NRREXT :: nat where
  "NRREXT = 39"

definition NRRTOT :: nat where
  "NRRTOT = 47"

lemmas rr_consts = T_MIN_def T_MAX_def T_NUM_def NRRMU_def NRREXT_def NRRTOT_def
  T_A_def T_NS_def T_CNAME_def T_SOA_def T_PTR_def T_MX_def T_TXT_def T_AAAA_def

text \<open>From record types (minus \<^verbatim>\<open>T_MIN\<close>) to the internal indices.\<close>

definition rrlkuptab :: "nat list" where
  "rrlkuptab = [
     0, 1, 8, 9, 2, 3, 10, 11, 12, 13, 14, 4, 15, 16, 5, 6, 17,
     18, 19, 20, 21, 22, 23, 24, 25, 26, 27, 7, 28, 29, 30, 31, 32, 33,
     34, 35, 36, 47, 48, 49, 50, 37, 38, 39, 40, 41, 42, 43, 44, 45, 46
     ]"

text \<open>The most used types, and all types that are cached, in ascending order.\<close>

definition rrmuiterlist :: "nat list" where
  "rrmuiterlist = [T_A, T_NS, T_CNAME, T_SOA, T_PTR, T_MX, T_TXT, T_AAAA]"

definition rrcachiterlist :: "nat list" where
  "rrcachiterlist = [
     1, 2, 3, 4, 5, 6, 7, 8, 9, 10, 11, 12, 13, 14, 15, 16,
     17, 18, 19, 20, 21, 22, 23, 24, 25, 26, 27, 28, 29, 30, 31, 32,
     33, 34, 35, 36, 37, 42, 43, 44, 45, 46, 47, 48, 49, 50, 51
     ]"

text \<open>
  The macros \<^verbatim>\<open>getrrset_X\<close> and \<^verbatim>\<open>have_rr_X\<close> for fixed types: the place they look at,
  \<open>Inl i\<close> in the embedded array, \<open>Inr i\<close> in the separate one; \<open>None\<close> for the types that are
  never there.
\<close>

type_synonym rr_place = "nat + nat"

definition getrrset_fixed :: "(string \<times> rr_place) list" where
  "getrrset_fixed = [
     (''A'', Inl 0), (''NS'', Inl 1), (''MD'', Inr 0), (''MF'', Inr 1),
     (''CNAME'', Inl 2), (''SOA'', Inl 3), (''MB'', Inr 2), (''MG'', Inr 3),
     (''MR'', Inr 4), (''NULL'', Inr 5), (''WKS'', Inr 6), (''PTR'', Inl 4),
     (''HINFO'', Inr 7), (''MINFO'', Inr 8), (''MX'', Inl 5), (''TXT'', Inl 6),
     (''RP'', Inr 9), (''AFSDB'', Inr 10), (''X25'', Inr 11), (''ISDN'', Inr 12),
     (''RT'', Inr 13), (''NSAP'', Inr 14), (''NSAP_PTR'', Inr 15), (''SIG'', Inr 16),
     (''KEY'', Inr 17), (''PX'', Inr 18), (''GPOS'', Inr 19), (''AAAA'', Inl 7),
     (''LOC'', Inr 20), (''NXT'', Inr 21), (''EID'', Inr 22), (''NIMLOC'', Inr 23),
     (''SRV'', Inr 24), (''ATMA'', Inr 25), (''NAPTR'', Inr 26), (''KX'', Inr 27),
     (''CERT'', Inr 28), (''APL'', Inr 29), (''DS'', Inr 30), (''SSHFP'', Inr 31),
     (''IPSECKEY'', Inr 32), (''RRSIG'', Inr 33), (''NSEC'', Inr 34), (''DNSKEY'', Inr 35),
     (''DHCID'', Inr 36), (''NSEC3'', Inr 37), (''NSEC3PARAM'', Inr 38)
     ]"

definition have_rr_fixed :: "(string \<times> rr_place option) list" where
  "have_rr_fixed = [
     (''A'', Some (Inl 0)), (''NS'', Some (Inl 1)), (''MD'', Some (Inr 0)), (''MF'', Some (Inr 1)),
     (''CNAME'', Some (Inl 2)), (''SOA'', Some (Inl 3)), (''MB'', Some (Inr 2)), (''MG'', Some (Inr 3)),
     (''MR'', Some (Inr 4)), (''NULL'', Some (Inr 5)), (''WKS'', Some (Inr 6)), (''PTR'', Some (Inl 4)),
     (''HINFO'', Some (Inr 7)), (''MINFO'', Some (Inr 8)), (''MX'', Some (Inl 5)), (''TXT'', Some (Inl 6)),
     (''RP'', Some (Inr 9)), (''AFSDB'', Some (Inr 10)), (''X25'', Some (Inr 11)), (''ISDN'', Some (Inr 12)),
     (''RT'', Some (Inr 13)), (''NSAP'', Some (Inr 14)), (''NSAP_PTR'', Some (Inr 15)), (''SIG'', Some (Inr 16)),
     (''KEY'', Some (Inr 17)), (''PX'', Some (Inr 18)), (''GPOS'', Some (Inr 19)), (''AAAA'', Some (Inl 7)),
     (''LOC'', Some (Inr 20)), (''NXT'', Some (Inr 21)), (''EID'', Some (Inr 22)), (''NIMLOC'', Some (Inr 23)),
     (''SRV'', Some (Inr 24)), (''ATMA'', Some (Inr 25)), (''NAPTR'', Some (Inr 26)), (''KX'', Some (Inr 27)),
     (''CERT'', Some (Inr 28)), (''A6'', None), (''DNAME'', None), (''SINK'', None),
     (''OPT'', None), (''APL'', Some (Inr 29)), (''DS'', Some (Inr 30)), (''SSHFP'', Some (Inr 31)),
     (''IPSECKEY'', Some (Inr 32)), (''RRSIG'', Some (Inr 33)), (''NSEC'', Some (Inr 34)), (''DNSKEY'', Some (Inr 35)),
     (''DHCID'', Some (Inr 36)), (''NSEC3'', Some (Inr 37)), (''NSEC3PARAM'', Some (Inr 38))
     ]"

text \<open>The place of a set from its internal index, as \<^verbatim>\<open>getrrset\<close> and \<^verbatim>\<open>have_rr\<close> compute it.\<close>

definition rr_place_of :: "nat \<Rightarrow> rr_place option" where
  "rr_place_of tpi = (if tpi < NRRMU then Some (Inl tpi)
     else if tpi < NRRTOT then Some (Inr (tpi - NRRMU)) else None)"

definition rrnames :: "string list" where
  "rrnames = [
     ''A'', ''NS'', ''MD'', ''MF'', ''CNAME'', ''SOA'', ''MB'', ''MG'',
     ''MR'', ''NULL'', ''WKS'', ''PTR'', ''HINFO'', ''MINFO'', ''MX'', ''TXT'',
     ''RP'', ''AFSDB'', ''X25'', ''ISDN'', ''RT'', ''NSAP'', ''NSAP_PTR'', ''SIG'',
     ''KEY'', ''PX'', ''GPOS'', ''AAAA'', ''LOC'', ''NXT'', ''EID'', ''NIMLOC'',
     ''SRV'', ''ATMA'', ''NAPTR'', ''KX'', ''CERT'', ''A6'', ''DNAME'', ''SINK'',
     ''OPT'', ''APL'', ''DS'', ''SSHFP'', ''IPSECKEY'', ''RRSIG'', ''NSEC'', ''DNSKEY'',
     ''DHCID'', ''NSEC3'', ''NSEC3PARAM''
     ]"

subsection \<open>Classes of types\<close>

definition RRCL_ALIAS :: "16 word" where
  "RRCL_ALIAS = 1"

definition RRCL_RECORD :: "16 word" where
  "RRCL_RECORD = 2"

definition RRCL_IDEM :: "16 word" where
  "RRCL_IDEM = 4"

definition RRCL_PTR :: "16 word" where
  "RRCL_PTR = 8"

definition RRX_ALIAS :: "16 word" where
  "RRX_ALIAS = RRCL_RECORD OR RRCL_PTR"

definition RRX_RECORD :: "16 word" where
  "RRX_RECORD = RRCL_ALIAS OR RRCL_PTR"

definition RRX_IDEM :: "16 word" where
  "RRX_IDEM = 0"

definition RRX_PTR :: "16 word" where
  "RRX_PTR = RRCL_ALIAS OR RRCL_RECORD"

lemmas rr_class_defs = RRCL_ALIAS_def RRCL_RECORD_def RRCL_IDEM_def RRCL_PTR_def
  RRX_ALIAS_def RRX_RECORD_def RRX_IDEM_def RRX_PTR_def

record rr_infos =
  rr_class :: "16 word"
  excludes :: "16 word"

text \<open>By internal index.\<close>

definition rr_info :: "rr_infos list" where
  "rr_info = map (\<lambda>(c, x). \<lparr>rr_class = c, excludes = x\<rparr>) [
     (RRCL_RECORD, RRX_RECORD), (RRCL_IDEM, RRX_IDEM), (RRCL_ALIAS, RRX_ALIAS), (RRCL_IDEM, RRX_IDEM),
     (RRCL_PTR, RRX_PTR), (RRCL_IDEM, RRX_IDEM), (RRCL_IDEM, RRX_IDEM), (RRCL_RECORD, RRX_RECORD),
     (RRCL_IDEM, RRX_IDEM), (RRCL_IDEM, RRX_IDEM), (RRCL_IDEM, RRX_IDEM), (RRCL_IDEM, RRX_IDEM),
     (RRCL_IDEM, RRX_IDEM), (RRCL_IDEM, RRX_IDEM), (RRCL_RECORD, RRX_RECORD), (RRCL_RECORD, RRX_RECORD),
     (RRCL_IDEM, RRX_IDEM), (RRCL_RECORD, RRX_RECORD), (RRCL_RECORD, RRX_RECORD), (RRCL_RECORD, RRX_RECORD),
     (RRCL_RECORD, RRX_RECORD), (RRCL_RECORD, RRX_RECORD), (RRCL_RECORD, RRX_RECORD), (RRCL_PTR, RRX_PTR),
     (RRCL_IDEM, RRX_IDEM), (RRCL_IDEM, RRX_IDEM), (RRCL_IDEM, RRX_IDEM), (RRCL_RECORD, RRX_RECORD),
     (RRCL_RECORD, RRX_RECORD), (RRCL_IDEM, RRX_IDEM), (RRCL_RECORD, RRX_RECORD), (RRCL_RECORD, RRX_RECORD),
     (RRCL_RECORD, RRX_RECORD), (RRCL_RECORD, RRX_RECORD), (RRCL_RECORD, RRX_RECORD), (RRCL_RECORD, RRX_RECORD),
     (RRCL_RECORD, RRX_RECORD), (RRCL_IDEM, RRX_IDEM), (RRCL_IDEM, RRX_IDEM), (RRCL_IDEM, RRX_IDEM),
     (RRCL_IDEM, RRX_IDEM), (RRCL_IDEM, RRX_IDEM), (RRCL_IDEM, RRX_IDEM), (RRCL_IDEM, RRX_IDEM),
     (RRCL_IDEM, RRX_IDEM), (RRCL_IDEM, RRX_IDEM), (RRCL_IDEM, RRX_IDEM)
     ]"

subsection \<open>Names of types\<close>

text \<open>\<^verbatim>\<open>rr_tp_byname\<close>: \<open>None\<close> is the result \<open>-1\<close>.\<close>

primrec rr_tp_byname_loop :: "string \<Rightarrow> string list \<Rightarrow> nat \<Rightarrow> nat option" where
  "rr_tp_byname_loop name [] i = None"
| "rr_tp_byname_loop name (n # ns) i = (if name = n then Some (i + T_MIN) else rr_tp_byname_loop name ns (i + 1))"

definition rr_tp_byname :: "string \<Rightarrow> nat option" where
  "rr_tp_byname name = rr_tp_byname_loop name rrnames 0"

definition getrrtpname :: "int \<Rightarrow> string" where
  "getrrtpname tp = (if tp \<ge> int T_MIN \<and> tp \<le> int T_MAX then rrnames ! nat (tp - int T_MIN) else ''[unknown]'')"

definition c_names :: "string list" where
  "c_names = [''IN'', ''CS'', ''CH'', ''HS'']"

definition qt_names :: "string list" where
  "qt_names = [''IXFR'', ''AXFR'', ''MAILB'', ''MAILA'', ''*'']"

text \<open>With \<^verbatim>\<open>C_MIN\<close> 1, \<^verbatim>\<open>C_MAX\<close> 4, \<^verbatim>\<open>QC_ALL\<close> 255, \<^verbatim>\<open>QT_MIN\<close> 251 and \<^verbatim>\<open>QT_MAX\<close> 255.\<close>

definition get_cname :: "int \<Rightarrow> string" where
  "get_cname i = (if i \<ge> 1 \<and> i \<le> 4 then c_names ! nat (i - 1) else if i = 255 then ''*'' else ''[unknown]'')"

definition get_tname :: "int \<Rightarrow> string" where
  "get_tname i = (if i \<ge> int T_MIN \<and> i \<le> int T_MAX then rrnames ! nat (i - int T_MIN)
     else if i \<ge> 251 \<and> i \<le> 255 then qt_names ! nat (i - 251) else ''[unknown]'')"

definition e_names :: "string list" where
  "e_names = [''no error'', ''query format error'', ''server failed'', ''non-existent domain'',
     ''not supported'', ''query refused'', ''name exists when it should not'',
     ''RR set exists when it should not'', ''RR set that should exist does not'',
     ''server not authoritative for zone'', ''name not contained in zone'',
     ''11'', ''12'', ''13'', ''14'', ''15'', ''bad OPT version'']"

definition get_ename :: "int \<Rightarrow> string" where
  "get_ename i = (if i \<ge> 0 \<and> i < 17 then e_names ! nat i else ''[unknown]'')"

subsection \<open>The tables fit together\<close>

text \<open>
  The tables agree.  Distinct types have distinct indices; the types with an index below
  \<open>NRRTOT\<close> are exactly those of \<^verbatim>\<open>rrcachiterlist\<close>, which is strictly ascending; the \<open>i\<close>-th of
  the most used types has index \<open>i\<close>; the macros for fixed types look where the general macros look for
  the type of that name; and the mutual exclusions are symmetric.
\<close>

theorem rr_tables_consistent:
  "length rrlkuptab = T_NUM \<and> length rrcachiterlist = NRRTOT \<and> length rr_info = NRRTOT \<and>
   length rrnames = T_NUM \<and> distinct rrnames \<and>
   distinct rrlkuptab \<and> sorted_wrt (<) rrcachiterlist \<and>
   filter (\<lambda>tp. rrlkuptab ! (tp - T_MIN) < NRRTOT) [T_MIN..<Suc T_MAX] = rrcachiterlist \<and>
   map (\<lambda>tp. rrlkuptab ! (tp - T_MIN)) rrmuiterlist = [0..<NRRMU] \<and>
   list_all (\<lambda>(n, pl). map_option (\<lambda>tp. rr_place_of (rrlkuptab ! (tp - T_MIN))) (map_of T_values n) = Some (Some pl))
     getrrset_fixed \<and>
   list_all (\<lambda>(n, pl). map_option (\<lambda>tp. rr_place_of (rrlkuptab ! (tp - T_MIN))) (map_of T_values n) = Some pl)
     have_rr_fixed \<and>
   list_all (\<lambda>a. list_all (\<lambda>b. (rr_class a AND excludes b \<noteq> 0) = (rr_class b AND excludes a \<noteq> 0)) rr_info) rr_info"
  by (intro conjI) code_simp+

text \<open>
  \<^verbatim>\<open>rr_tp_byname\<close> inverts \<^verbatim>\<open>getrrtpname\<close> on every type in the table.
\<close>

theorem rr_tp_byname_getrrtpname:
  "list_all (\<lambda>tp. rr_tp_byname (getrrtpname (int tp)) = Some tp) [T_MIN..<Suc T_MAX]"
  by code_simp

end
