(* ===== verification/Cent.thy ===== *)
theory Cent
  imports RR_Types Names
begin

text \<open>
  Cache entries and their record sets (\<^verbatim>\<open>cache.h\<close> and the cent handlers of
  \<^verbatim>\<open>cache.c\<close>).  A set of records is a list of byte strings; the arrays of sets of an entry are
  lists of optional sets.  The doubly linked list \<^verbatim>\<open>rrset_l\<close>, from which deleting a set unlinks
  it, is passed along as a list of its nodes.  The lemmas show that every operation keeps the
  entry's accounts: \<^verbatim>\<open>cs\<close> is the number of bytes the entry occupies and \<^verbatim>\<open>num_rrs\<close> the
  number of its sets.

  Sizes are those of an LP64 platform; byte counts and times are integers (they stay far from the
  limits of their C types), \<^verbatim>\<open>num_rrs\<close> and flags are 16-bit words.
\<close>

subsection \<open>Data\<close>

text \<open>A source of memory: whether the next calls of \<^verbatim>\<open>malloc\<close> succeed.\<close>

type_synonym alloc = "nat \<Rightarrow> bool"

definition malloc :: "alloc \<Rightarrow> bool \<times> alloc" where
  "malloc a = (a 0, \<lambda>n. a (Suc n))"

text \<open>
  The nodes of \<^verbatim>\<open>rrset_l\<close>: the address of the node, the address of the entry, and the index of the
  set (\<open>None\<close> for the index \<open>-1\<close> of a negatively cached domain).
\<close>

record rr_lent_t =
  le_id :: nat
  le_cent :: nat
  le_idx :: "nat option"

record rr_set_t =
  rs_lent :: "nat option"
  rs_ttl :: int
  rs_ts :: int
  rs_flags :: "16 word"
  rs_rrs :: "byte list list"

text \<open>
  The fields \<open>neg_lent\<close>, \<open>neg_ttl\<close>, \<open>neg_ts\<close> and the fields \<open>rrmu\<close>, \<open>rrext\<close> stand for the two structures of a union: the
  former are meaningful when \<open>DF_NEGATIVE\<close> is set, the latter when it is not.
\<close>

record dns_cent_t =
  ce_qname :: "byte list"
  ce_cs :: int
  ce_num_rrs :: "16 word"
  ce_flags :: "16 word"
  neg_lent :: "nat option"
  neg_ttl :: int
  neg_ts :: int
  rrmu :: "rr_set_t option list"
  rrext :: "rr_set_t option list option"
  c_ns :: byte
  c_soa :: byte

definition cundef :: byte where
  "cundef = 0xff"

definition sizeof_dns_cent_t :: int where
  "sizeof_dns_cent_t = 104"

definition sizeof_rr_set_t :: int where
  "sizeof_rr_set_t = 40"

definition sizeof_rr_bucket_t :: int where
  "sizeof_rr_bucket_t = 16"

definition sizeof_rrext :: int where
  "sizeof_rrext = 8 * int NRREXT"

definition CF_NEGATIVE :: "16 word" where
  "CF_NEGATIVE = 1"

definition CF_LOCAL :: "16 word" where
  "CF_LOCAL = 2"

definition CF_AUTH :: "16 word" where
  "CF_AUTH = 4"

definition CF_NOCACHE :: "16 word" where
  "CF_NOCACHE = 8"

definition CF_ADDITIONAL :: "16 word" where
  "CF_ADDITIONAL = 16"

definition CF_NOPURGE :: "16 word" where
  "CF_NOPURGE = 32"

definition CF_ROOTSERV :: "16 word" where
  "CF_ROOTSERV = 64"

definition DF_NEGATIVE :: "16 word" where
  "DF_NEGATIVE = 1"

definition DF_LOCAL :: "16 word" where
  "DF_LOCAL = 2"

definition DF_AUTH :: "16 word" where
  "DF_AUTH = 4"

definition DF_NOCACHE :: "16 word" where
  "DF_NOCACHE = 8"

definition DF_WILD :: "16 word" where
  "DF_WILD = 16"

lemmas flag_defs = CF_NEGATIVE_def CF_LOCAL_def CF_AUTH_def CF_NOCACHE_def CF_ADDITIONAL_def
  CF_NOPURGE_def CF_ROOTSERV_def DF_NEGATIVE_def DF_LOCAL_def DF_AUTH_def DF_NOCACHE_def DF_WILD_def

definition has :: "16 word \<Rightarrow> 16 word \<Rightarrow> bool" where
  "has fl f \<longleftrightarrow> fl AND f \<noteq> 0"

definition negative :: "dns_cent_t \<Rightarrow> bool" where
  "negative cent \<longleftrightarrow> has (ce_flags cent) DF_NEGATIVE"

subsection \<open>Access to the sets\<close>

definition RRARR_LEN :: "dns_cent_t \<Rightarrow> nat" where
  "RRARR_LEN cent = (if negative cent then 0 else if rrext cent \<noteq> None then NRRTOT else NRRMU)"

definition RRARR_INDEX_TESTEXT :: "dns_cent_t \<Rightarrow> nat \<Rightarrow> rr_set_t option" where
  "RRARR_INDEX_TESTEXT cent i = (if negative cent then None
     else if i < NRRMU then rrmu cent ! i
     else case rrext cent of Some ext \<Rightarrow> ext ! (i - NRRMU) | None \<Rightarrow> None)"

definition RRARR_INDEX :: "dns_cent_t \<Rightarrow> nat \<Rightarrow> rr_set_t option" where
  "RRARR_INDEX cent i = (if i < NRRMU then rrmu cent ! i else the (rrext cent) ! (i - NRRMU))"

text \<open>Storing through \<^verbatim>\<open>RRARR_INDEX_PA\<close>.\<close>

definition put_rrset :: "dns_cent_t \<Rightarrow> nat \<Rightarrow> rr_set_t option \<Rightarrow> dns_cent_t" where
  "put_rrset cent i v = (if i < NRRMU then cent\<lparr>rrmu := (rrmu cent)[i := v]\<rparr>
     else cent\<lparr>rrext := map_option (\<lambda>ext. ext[i - NRRMU := v]) (rrext cent)\<rparr>)"

definition getrrset_eff :: "dns_cent_t \<Rightarrow> nat \<Rightarrow> rr_set_t option" where
  "getrrset_eff cent type = (let idx = rrlkuptab ! (type - T_MIN) in
     if idx < NRRMU then rrmu cent ! idx
     else if idx - NRRMU < NRREXT then
       (case rrext cent of Some ext \<Rightarrow> ext ! (idx - NRRMU) | None \<Rightarrow> None)
     else None)"

definition getrrset :: "dns_cent_t \<Rightarrow> nat \<Rightarrow> rr_set_t option" where
  "getrrset cent type = (if \<not> negative cent \<and> T_MIN \<le> type \<and> type - T_MIN < T_NUM
     then getrrset_eff cent type else None)"

definition have_rr :: "dns_cent_t \<Rightarrow> nat \<Rightarrow> bool" where
  "have_rr cent type \<longleftrightarrow> \<not> negative cent \<and>
     (case getrrset_eff cent type of Some rrset \<Rightarrow> rs_rrs rrset \<noteq> [] | None \<Rightarrow> False)"

definition PDNSD_NOT_CACHED_TYPE :: "nat \<Rightarrow> bool" where
  "PDNSD_NOT_CACHED_TYPE type \<longleftrightarrow> type < T_MIN \<or> type > T_MAX \<or> rrlkuptab ! (type - T_MIN) \<ge> NRRTOT"

definition NRRITERLIST :: "dns_cent_t \<Rightarrow> nat" where
  "NRRITERLIST cent = (if negative cent then 0 else if rrext cent \<noteq> None then NRRTOT else NRRMU)"

definition RRITERLIST :: "dns_cent_t \<Rightarrow> nat list" where
  "RRITERLIST cent = (if negative cent then [] else if rrext cent \<noteq> None then rrcachiterlist else rrmuiterlist)"

subsection \<open>Operations\<close>

text \<open>\<^verbatim>\<open>remove_rrl\<close>: unlink the node at an address.\<close>

definition remove_rrl :: "nat \<Rightarrow> rr_lent_t list \<Rightarrow> rr_lent_t list" where
  "remove_rrl le rrl = filter (\<lambda>e. le_id e \<noteq> le) rrl"

definition remove_rrl_opt :: "nat option \<Rightarrow> rr_lent_t list \<Rightarrow> rr_lent_t list" where
  "remove_rrl_opt le rrl = (case le of None \<Rightarrow> rrl | Some l \<Rightarrow> remove_rrl l rrl)"

definition init_cent :: "alloc \<Rightarrow> byte list \<Rightarrow> int \<Rightarrow> int \<Rightarrow> 16 word \<Rightarrow> (dns_cent_t option \<times> alloc) option" where
  "init_cent a qname ttl ts fl = do {
     namesz \<leftarrow> rhnlen qname;
     let (ok, a) = malloc a;
     if \<not> ok then Some (None, a)
     else Some (Some \<lparr>ce_qname = take namesz qname, ce_cs = sizeof_dns_cent_t + int namesz,
       ce_num_rrs = 0, ce_flags = fl, neg_lent = None, neg_ttl = ttl, neg_ts = ts,
       rrmu = replicate NRRMU None, rrext = None, c_ns = cundef, c_soa = cundef\<rparr>, a) }"

text \<open>The copy of the data made by \<^verbatim>\<open>create_rr\<close>.\<close>

definition create_rr :: "alloc \<Rightarrow> byte list \<Rightarrow> byte list option \<times> alloc" where
  "create_rr a dat = (let (ok, a) = malloc a in (if ok then Some dat else None, a))"

text \<open>Making a negative entry an ordinary one without sets.\<close>

definition unnegate :: "dns_cent_t \<Rightarrow> rr_lent_t list \<Rightarrow> dns_cent_t \<times> rr_lent_t list" where
  "unnegate cent rrl = (if negative cent then
       (cent\<lparr>ce_flags := ce_flags cent AND NOT DF_NEGATIVE, rrmu := replicate NRRMU None, rrext := None\<rparr>,
        remove_rrl_opt (neg_lent cent) rrl)
     else (cent, rrl))"

text \<open>The storage for the slot: the result is \<open>None\<close> when the array cannot be allocated.\<close>

definition ensure_slot :: "alloc \<Rightarrow> dns_cent_t \<Rightarrow> nat \<Rightarrow> dns_cent_t option \<times> alloc" where
  "ensure_slot a cent idx = (if idx < NRRMU \<or> rrext cent \<noteq> None then (Some cent, a)
     else let (ok, a) = malloc a in
       (if ok then Some (cent\<lparr>rrext := Some (replicate NRREXT None), ce_cs := ce_cs cent + sizeof_rrext\<rparr>)
        else None, a))"

text \<open>
  The boolean is the return value.  The index fails the assertion when it is not below \<open>NRRTOT\<close>.
\<close>

definition add_cent_rrset_by_index :: "alloc \<Rightarrow> rr_lent_t list \<Rightarrow> dns_cent_t \<Rightarrow> nat \<Rightarrow> int \<Rightarrow> int \<Rightarrow> 16 word \<Rightarrow>
    (bool \<times> dns_cent_t \<times> rr_lent_t list \<times> alloc) option" where
  "add_cent_rrset_by_index a rrl cent idx ttl ts fl =
     (let (cent, rrl) = unnegate cent rrl in
      if \<not> idx < NRRMU \<and> \<not> idx - NRRMU < NRREXT then None
      else case ensure_slot a cent idx of
        (None, a) \<Rightarrow> Some (False, cent, rrl, a)
      | (Some cent, a) \<Rightarrow>
          let (ok, a) = malloc a in
          if \<not> ok then Some (False, put_rrset cent idx None, rrl, a)
          else Some (True,
            (put_rrset cent idx (Some \<lparr>rs_lent = None, rs_ttl = ttl, rs_ts = ts, rs_flags = fl, rs_rrs = []\<rparr>))
              \<lparr>ce_cs := ce_cs cent + sizeof_rr_set_t, ce_num_rrs := ce_num_rrs cent + 1\<rparr>, rrl, a))"

definition add_cent_rrset_by_type :: "alloc \<Rightarrow> rr_lent_t list \<Rightarrow> dns_cent_t \<Rightarrow> nat \<Rightarrow> int \<Rightarrow> int \<Rightarrow> 16 word \<Rightarrow>
    (bool \<times> dns_cent_t \<times> rr_lent_t list \<times> alloc) option" where
  "add_cent_rrset_by_type a rrl cent type ttl ts fl =
     (if T_MIN \<le> type \<and> type - T_MIN < T_NUM
      then add_cent_rrset_by_index a rrl cent (rrlkuptab ! (type - T_MIN)) ttl ts fl else None)"

text \<open>
  \<^verbatim>\<open>add_cent_rr_int\<close>: \<open>rtail\<close> is the position of the record after which to insert, if
  \<^verbatim>\<open>*rtail\<close> is not null; the new record becomes \<^verbatim>\<open>*rtail\<close>.
\<close>

definition insert_rr :: "byte list list \<Rightarrow> nat option \<Rightarrow> byte list \<Rightarrow> byte list list \<times> nat" where
  "insert_rr rrs rtail rr = (case rtail of None \<Rightarrow> (rr # rrs, 0)
     | Some k \<Rightarrow> (take (k + 1) rrs @ rr # drop (k + 1) rrs, k + 1))"

definition link_rr :: "dns_cent_t \<Rightarrow> nat \<Rightarrow> nat option \<Rightarrow> byte list \<Rightarrow> (dns_cent_t \<times> nat) option" where
  "link_rr cent idx rtail rr = (case RRARR_INDEX_TESTEXT cent idx of None \<Rightarrow> None
     | Some rrset \<Rightarrow>
         let (rrs, k) = insert_rr (rs_rrs rrset) rtail rr in
         Some ((put_rrset cent idx (Some (rrset\<lparr>rs_rrs := rrs\<rparr>)))
           \<lparr>ce_cs := ce_cs cent + sizeof_rr_bucket_t + int (length rr)\<rparr>, k))"

definition add_cent_rr_int :: "alloc \<Rightarrow> rr_lent_t list \<Rightarrow> dns_cent_t \<Rightarrow> nat \<Rightarrow> int \<Rightarrow> int \<Rightarrow> 16 word \<Rightarrow>
    byte list \<Rightarrow> nat option \<Rightarrow> (bool \<times> dns_cent_t \<times> nat option \<times> rr_lent_t list \<times> alloc) option" where
  "add_cent_rr_int a rrl cent idx ttl ts fl dat rtail =
     (case create_rr a dat of
        (None, a) \<Rightarrow> Some (False, cent, rtail, rrl, a)
      | (Some rr, a) \<Rightarrow> do {
          (ok, cent, rrl, a) \<leftarrow>
            (if rtail = None \<and> RRARR_INDEX_TESTEXT cent idx = None
             then add_cent_rrset_by_index a rrl cent idx ttl ts fl
             else Some (True, cent, rrl, a));
          if \<not> ok then Some (False, cent, rtail, rrl, a)
          else do {
            (cent, k) \<leftarrow> link_rr cent idx rtail rr;
            Some (True, cent, Some k, rrl, a) } })"

definition add_cent_rr :: "alloc \<Rightarrow> rr_lent_t list \<Rightarrow> dns_cent_t \<Rightarrow> nat \<Rightarrow> int \<Rightarrow> int \<Rightarrow> 16 word \<Rightarrow>
    byte list \<Rightarrow> (bool \<times> dns_cent_t \<times> rr_lent_t list \<times> alloc) option" where
  "add_cent_rr a rrl cent type ttl ts fl dat =
     (if has (ce_flags cent) DF_LOCAL \<and> \<not> has fl CF_LOCAL then Some (True, cent, rrl, a)
      else if \<not> (T_MIN \<le> type \<and> type - T_MIN < T_NUM) then None
      else let idx = rrlkuptab ! (type - T_MIN) in
      if \<not> idx < NRRTOT then None
      else case RRARR_INDEX_TESTEXT cent idx of
        None \<Rightarrow> do {
          (ok, cent, _, rrl, a) \<leftarrow> add_cent_rr_int a rrl cent idx ttl ts fl dat None;
          Some (ok, cent, rrl, a) }
      | Some rrset \<Rightarrow>
          let cent = (if ttl < rs_ttl rrset then put_rrset cent idx (Some (rrset\<lparr>rs_ttl := ttl\<rparr>)) else cent) in
          if dat \<in> set (rs_rrs rrset) then Some (True, cent, rrl, a)
          else do {
            (ok, cent, _, rrl, a) \<leftarrow> add_cent_rr_int a rrl cent idx ttl ts fl dat
              (if rs_rrs rrset = [] then None else Some (length (rs_rrs rrset) - 1));
            Some (ok, cent, rrl, a) })"

text \<open>\<^verbatim>\<open>del_rrset\<close>: the size of the memory freed.\<close>

definition rrset_size :: "rr_set_t \<Rightarrow> int" where
  "rrset_size s = sizeof_rr_set_t + (\<Sum>rr\<leftarrow>rs_rrs s. sizeof_rr_bucket_t + int (length rr))"

definition del_rrset :: "rr_set_t \<Rightarrow> rr_lent_t list \<Rightarrow> int \<times> rr_lent_t list" where
  "del_rrset s rrl = (rrset_size s, remove_rrl_opt (rs_lent s) rrl)"

definition del_cent_rrset_by_index :: "dns_cent_t \<Rightarrow> nat \<Rightarrow> rr_lent_t list \<Rightarrow> int \<times> dns_cent_t \<times> rr_lent_t list" where
  "del_cent_rrset_by_index cent i rrl = (case RRARR_INDEX_TESTEXT cent i of
       None \<Rightarrow> (0, cent, rrl)
     | Some s \<Rightarrow> let (rv, rrl) = del_rrset s rrl in
         (rv, (put_rrset cent i None)\<lparr>ce_num_rrs := ce_num_rrs cent - 1, ce_cs := ce_cs cent - rv,
            ce_flags := ce_flags cent AND NOT DF_AUTH\<rparr>, rrl))"

text \<open>Deleting the sets of an array one after the other.\<close>

primrec del_rrsets :: "rr_set_t option list \<Rightarrow> rr_lent_t list \<Rightarrow> int \<times> rr_lent_t list" where
  "del_rrsets [] rrl = (0, rrl)"
| "del_rrsets (s # ss) rrl = (case s of None \<Rightarrow> del_rrsets ss rrl
     | Some rrs \<Rightarrow> let (rv, rrl) = del_rrset rrs rrl; (rv', rrl) = del_rrsets ss rrl in (rv + rv', rrl))"

definition free_cent :: "dns_cent_t \<Rightarrow> rr_lent_t list \<Rightarrow> rr_lent_t list" where
  "free_cent cent rrl = (if negative cent then remove_rrl_opt (neg_lent cent) rrl
     else let rrl = snd (del_rrsets (rrmu cent) rrl) in
       (case rrext cent of None \<Rightarrow> rrl | Some ext \<Rightarrow> snd (del_rrsets ext rrl)))"

definition negate_cent :: "dns_cent_t \<Rightarrow> int \<Rightarrow> int \<Rightarrow> rr_lent_t list \<Rightarrow> dns_cent_t \<times> rr_lent_t list" where
  "negate_cent cent ttl ts rrl =
     (let (cent, rrl) =
        (if negative cent then (cent, rrl)
         else let (rv, rrl) = del_rrsets (rrmu cent) rrl;
                  (rv', rrl) = (case rrext cent of None \<Rightarrow> (0, rrl)
                    | Some ext \<Rightarrow> let (r, l) = del_rrsets ext rrl in (r + sizeof_rrext, l)) in
           (cent\<lparr>ce_cs := ce_cs cent - rv - rv', ce_num_rrs := 0,
              ce_flags := ce_flags cent OR DF_NEGATIVE, neg_lent := None\<rparr>, rrl)) in
      (cent\<lparr>neg_ttl := ttl, neg_ts := ts\<rparr>, rrl))"

subsection \<open>Copies\<close>

primrec copy_rrs :: "alloc \<Rightarrow> byte list list \<Rightarrow> byte list list option \<times> alloc" where
  "copy_rrs a [] = (Some [], a)"
| "copy_rrs a (rr # rrs) = (case create_rr a rr of (None, a) \<Rightarrow> (None, a)
     | (Some c, a) \<Rightarrow> (case copy_rrs a rrs of (None, a) \<Rightarrow> (None, a) | (Some cs, a) \<Rightarrow> (Some (c # cs), a)))"

definition copy_rrset :: "alloc \<Rightarrow> rr_set_t \<Rightarrow> rr_set_t option \<times> alloc" where
  "copy_rrset a rrset = (let (ok, a) = malloc a in
     if \<not> ok then (None, a)
     else case copy_rrs a (rs_rrs rrset) of
       (None, a) \<Rightarrow> (None, a)
     | (Some rrs, a) \<Rightarrow> (Some (rrset\<lparr>rs_lent := None, rs_rrs := rrs\<rparr>), a))"

primrec copy_rrsets :: "alloc \<Rightarrow> rr_set_t option list \<Rightarrow> rr_set_t option list option \<times> alloc" where
  "copy_rrsets a [] = (Some [], a)"
| "copy_rrsets a (s # ss) = (case (case s of None \<Rightarrow> (Some None, a)
       | Some rrset \<Rightarrow> (case copy_rrset a rrset of (None, a) \<Rightarrow> (None, a) | (Some c, a) \<Rightarrow> (Some (Some c), a))) of
     (None, a) \<Rightarrow> (None, a)
   | (Some c, a) \<Rightarrow> (case copy_rrsets a ss of (None, a) \<Rightarrow> (None, a) | (Some cs, a) \<Rightarrow> (Some (c # cs), a)))"

text \<open>
  \<^verbatim>\<open>copy_cent\<close>: the entry itself, its name, the array \<^verbatim>\<open>rrext\<close> if there is one, then the sets.
\<close>

definition copy_cent :: "alloc \<Rightarrow> dns_cent_t \<Rightarrow> (dns_cent_t option \<times> alloc) option" where
  "copy_cent a cent =
     (let (ok, a) = malloc a in
      if \<not> ok then Some (None, a)
      else do {
        namesz \<leftarrow> rhnlen (ce_qname cent);
        let (ok, a) = malloc a;
        if \<not> ok then Some (None, a)
        else if negative cent then Some (Some (cent\<lparr>ce_qname := take namesz (ce_qname cent), neg_lent := None\<rparr>), a)
        else
          let (ok, a) = (if rrext cent = None then (True, a) else malloc a) in
          if \<not> ok then Some (None, a)
          else case copy_rrsets a (rrmu cent) of
            (None, a) \<Rightarrow> Some (None, a)
          | (Some mu, a) \<Rightarrow>
             (case rrext cent of
                None \<Rightarrow> Some (Some (cent\<lparr>ce_qname := take namesz (ce_qname cent), rrmu := mu\<rparr>), a)
              | Some ext \<Rightarrow>
                 (case copy_rrsets a ext of
                    (None, a) \<Rightarrow> Some (None, a)
                  | (Some cext, a) \<Rightarrow>
                      Some (Some (cent\<lparr>ce_qname := take namesz (ce_qname cent), rrmu := mu, rrext := Some cext\<rparr>), a))) })"

subsection \<open>Times to live\<close>

text \<open>The options of the configuration that the cache uses.\<close>

record cache_conf =
  min_ttl :: int
  max_ttl :: int
  neg_ttl_conf :: int
  perm_cache :: int

definition CACHE_LAT :: int where
  "CACHE_LAT = 120"

definition CLAT_ADJ :: "int \<Rightarrow> int" where
  "CLAT_ADJ ttl = (if ttl < CACHE_LAT then CACHE_LAT else ttl)"

text \<open>\<open>now\<close> is the value of \<^verbatim>\<open>time(NULL)\<close>.\<close>

definition timedout :: "int \<Rightarrow> rr_set_t \<Rightarrow> bool" where
  "timedout now rrset \<longleftrightarrow> rs_ts rrset + CLAT_ADJ (rs_ttl rrset) < now"

definition timedout_nxdom :: "int \<Rightarrow> dns_cent_t \<Rightarrow> bool" where
  "timedout_nxdom now cent \<longleftrightarrow> neg_ts cent + CLAT_ADJ (neg_ttl cent) < now"

definition adjust_ttl :: "cache_conf \<Rightarrow> rr_set_t \<Rightarrow> rr_set_t" where
  "adjust_ttl g rrset = (if has (rs_flags rrset) CF_NOCACHE
     then rrset\<lparr>rs_flags := rs_flags rrset AND NOT CF_NOCACHE, rs_ttl := 0\<rparr>
     else let mn = (if has (rs_flags rrset) CF_NEGATIVE \<and> neg_ttl_conf g < min_ttl g then neg_ttl_conf g else min_ttl g) in
       if rs_ttl rrset < mn then rrset\<lparr>rs_ttl := mn\<rparr>
       else if rs_ttl rrset > max_ttl g then rrset\<lparr>rs_ttl := max_ttl g\<rparr> else rrset)"

definition set_dom_ttl :: "cache_conf \<Rightarrow> dns_cent_t \<Rightarrow> dns_cent_t" where
  "set_dom_ttl g cent = (if has (ce_flags cent) DF_NOCACHE
     then cent\<lparr>ce_flags := ce_flags cent AND NOT DF_NOCACHE, neg_ttl := 0\<rparr>
     else let mn = (if neg_ttl_conf g < min_ttl g then neg_ttl_conf g else min_ttl g) in
       if neg_ttl cent < mn then cent\<lparr>neg_ttl := mn\<rparr>
       else if neg_ttl cent > max_ttl g then cent\<lparr>neg_ttl := max_ttl g\<rparr> else cent)"

text \<open>
  \<^verbatim>\<open>adjust_dom_ttl\<close> is only for entries that are negative: in others \<^verbatim>\<open>neg.ttl\<close> lies where the pointers to the sets are, and
  the call has no result.
\<close>

definition adjust_dom_ttl :: "cache_conf \<Rightarrow> dns_cent_t \<Rightarrow> dns_cent_t option" where
  "adjust_dom_ttl g cent = (if \<not> negative cent then None else Some (set_dom_ttl g cent))"

text \<open>The flags of records obtained from a server.\<close>

definition mk_flag_val :: "bool \<Rightarrow> bool \<Rightarrow> bool \<Rightarrow> 16 word" where
  "mk_flag_val purge_cache nocache rootserver =
     (if \<not> purge_cache then CF_NOPURGE else 0) OR (if nocache then CF_NOCACHE else 0) OR
     (if rootserver then CF_ROOTSERV else 0)"

subsection \<open>The slots of an entry and its accounts\<close>

definition slots :: "dns_cent_t \<Rightarrow> rr_set_t option list" where
  "slots cent = (if negative cent then [] else rrmu cent @ (case rrext cent of None \<Rightarrow> [] | Some ext \<Rightarrow> ext))"

definition slot_val :: "(rr_set_t \<Rightarrow> int) \<Rightarrow> rr_set_t option \<Rightarrow> int" where
  "slot_val f x = (case x of None \<Rightarrow> 0 | Some s \<Rightarrow> f s)"

definition slot_sum :: "(rr_set_t \<Rightarrow> int) \<Rightarrow> rr_set_t option list \<Rightarrow> int" where
  "slot_sum f xs = (\<Sum>x\<leftarrow>xs. slot_val f x)"

definition num_sets :: "dns_cent_t \<Rightarrow> int" where
  "num_sets cent = slot_sum (\<lambda>_. 1) (slots cent)"

definition cent_size :: "dns_cent_t \<Rightarrow> int" where
  "cent_size cent = sizeof_dns_cent_t + int (length (ce_qname cent)) + slot_sum rrset_size (slots cent) +
     (if \<not> negative cent \<and> rrext cent \<noteq> None then sizeof_rrext else 0)"

definition cent_shape :: "dns_cent_t \<Rightarrow> bool" where
  "cent_shape cent \<longleftrightarrow> (\<exists>ls. wf_name ls \<and> ce_qname cent = enc ls) \<and>
     (\<not> negative cent \<longrightarrow> length (rrmu cent) = NRRMU \<and> (\<forall>ext. rrext cent = Some ext \<longrightarrow> length ext = NRREXT))"

definition cent_ok :: "dns_cent_t \<Rightarrow> bool" where
  "cent_ok cent \<longleftrightarrow> cent_shape cent \<and> ce_cs cent = cent_size cent \<and> ce_num_rrs cent = of_int (num_sets cent)"

lemma slot_val_simps [simp]: "slot_val f None = 0" "slot_val f (Some s) = f s"
  by (simp_all add: slot_val_def)

lemma slot_sum_simps [simp]: "slot_sum f [] = 0" "slot_sum f (x # xs) = slot_val f x + slot_sum f xs"
    "slot_sum f (xs @ ys) = slot_sum f xs + slot_sum f ys" "slot_sum f (replicate n None) = 0"
  by (simp_all add: slot_sum_def sum_list_replicate)

lemma slot_sum_update: "i < length xs \<Longrightarrow>
    slot_sum f (xs[i := v]) = slot_sum f xs - slot_val f (xs ! i) + slot_val f v"
proof (induction xs arbitrary: i)
  case (Cons x xs)
  then show ?case by (cases i) auto
qed simp

lemma slot_sum_nonneg: "(\<And>s. 0 \<le> f s) \<Longrightarrow> 0 \<le> slot_sum f xs"
  by (induction xs) (auto simp: slot_val_def split: option.splits)

lemma rr_numbers: "NRRTOT = NRRMU + NRREXT" "0 < NRRMU" "0 < NRREXT"
  by (simp_all add: rr_consts)

lemma slots_length: "cent_shape cent \<Longrightarrow> length (slots cent) = RRARR_LEN cent"
  by (auto simp: slots_def RRARR_LEN_def cent_shape_def rr_numbers split: option.splits)

lemma slots_negative [simp]: "negative cent \<Longrightarrow> slots cent = []"
  by (simp add: slots_def)

lemma RRARR_LEN_le: "RRARR_LEN cent \<le> NRRTOT"
  by (simp add: RRARR_LEN_def rr_numbers)

lemma RRARR_INDEX_TESTEXT_slots:
  "cent_shape cent \<Longrightarrow> i < NRRTOT \<Longrightarrow>
   RRARR_INDEX_TESTEXT cent i = (if i < length (slots cent) then slots cent ! i else None)"
  by (auto simp: RRARR_INDEX_TESTEXT_def slots_def cent_shape_def rr_numbers nth_append split: option.splits)

lemma RRARR_INDEX_slots:
  "cent_shape cent \<Longrightarrow> i < RRARR_LEN cent \<Longrightarrow> RRARR_INDEX cent i = slots cent ! i"
  by (auto simp: RRARR_INDEX_def RRARR_LEN_def slots_def cent_shape_def nth_append split: if_splits)

lemma put_rrset_fields [simp]:
  "ce_qname (put_rrset cent i v) = ce_qname cent" "ce_cs (put_rrset cent i v) = ce_cs cent"
  "ce_num_rrs (put_rrset cent i v) = ce_num_rrs cent" "ce_flags (put_rrset cent i v) = ce_flags cent"
  "negative (put_rrset cent i v) = negative cent" "(rrext (put_rrset cent i v) = None) = (rrext cent = None)"
  "neg_lent (put_rrset cent i v) = neg_lent cent" "neg_ts (put_rrset cent i v) = neg_ts cent"
  "neg_ttl (put_rrset cent i v) = neg_ttl cent"
  "c_ns (put_rrset cent i v) = c_ns cent" "c_soa (put_rrset cent i v) = c_soa cent"
  by (simp_all add: put_rrset_def negative_def)

lemma slots_put_rrset:
  "cent_shape cent \<Longrightarrow> i < length (slots cent) \<Longrightarrow> slots (put_rrset cent i v) = (slots cent)[i := v]"
  by (auto simp: slots_def put_rrset_def cent_shape_def negative_def list_update_append split: option.splits if_splits)

lemma cent_shape_put_rrset: "cent_shape cent \<Longrightarrow> cent_shape (put_rrset cent i v)"
  by (auto simp: cent_shape_def put_rrset_def negative_def)

text \<open>Fields that the accounts do not depend on.\<close>

lemma cent_acc_simps [simp]:
  "slots (cent\<lparr>ce_cs := x\<rparr>) = slots cent" "slots (cent\<lparr>ce_num_rrs := y\<rparr>) = slots cent"
  "slots (cent\<lparr>neg_lent := l\<rparr>) = slots cent" "slots (cent\<lparr>neg_ttl := t\<rparr>) = slots cent"
  "slots (cent\<lparr>neg_ts := t\<rparr>) = slots cent" "slots (cent\<lparr>c_ns := c\<rparr>) = slots cent"
  "slots (cent\<lparr>c_soa := c\<rparr>) = slots cent"
  "negative (cent\<lparr>ce_cs := x\<rparr>) = negative cent" "negative (cent\<lparr>ce_num_rrs := y\<rparr>) = negative cent"
  "negative (cent\<lparr>neg_lent := l\<rparr>) = negative cent" "negative (cent\<lparr>neg_ttl := t\<rparr>) = negative cent"
  "negative (cent\<lparr>neg_ts := t\<rparr>) = negative cent" "negative (cent\<lparr>c_ns := c\<rparr>) = negative cent"
  "negative (cent\<lparr>c_soa := c\<rparr>) = negative cent" "negative (cent\<lparr>rrmu := m\<rparr>) = negative cent"
  "negative (cent\<lparr>rrext := e\<rparr>) = negative cent" "negative (cent\<lparr>ce_qname := q\<rparr>) = negative cent"
  by (simp_all add: slots_def negative_def)

lemma cent_shape_simps [simp]:
  "cent_shape (cent\<lparr>ce_cs := x\<rparr>) = cent_shape cent" "cent_shape (cent\<lparr>ce_num_rrs := y\<rparr>) = cent_shape cent"
  "cent_shape (cent\<lparr>neg_lent := l\<rparr>) = cent_shape cent" "cent_shape (cent\<lparr>neg_ttl := t\<rparr>) = cent_shape cent"
  "cent_shape (cent\<lparr>neg_ts := t\<rparr>) = cent_shape cent" "cent_shape (cent\<lparr>c_ns := c\<rparr>) = cent_shape cent"
  "cent_shape (cent\<lparr>c_soa := c\<rparr>) = cent_shape cent"
  by (simp_all add: cent_shape_def)

lemma cent_ok_simps [simp]:
  "cent_ok (cent\<lparr>neg_lent := l\<rparr>) = cent_ok cent" "cent_ok (cent\<lparr>neg_ttl := t\<rparr>) = cent_ok cent"
  "cent_ok (cent\<lparr>neg_ts := t\<rparr>) = cent_ok cent" "cent_ok (cent\<lparr>c_ns := c\<rparr>) = cent_ok cent"
  "cent_ok (cent\<lparr>c_soa := c\<rparr>) = cent_ok cent"
  by (simp_all add: cent_ok_def cent_size_def num_sets_def)

text \<open>
  Flag bits that do not touch \<^verbatim>\<open>DF_NEGATIVE\<close>.
\<close>

lemma has_simps: "has (x AND NOT y) z \<longleftrightarrow> x AND (NOT y AND z) \<noteq> 0" "has (x OR y) z \<longleftrightarrow> has x z \<or> has y z"
  by (simp_all add: has_def and.assoc bit.conj_disj_distrib2 or_eq_0_iff)

lemma negative_keep_auth [simp]: "negative (cent\<lparr>ce_flags := ce_flags cent AND NOT DF_AUTH\<rparr>) = negative cent"
  by (simp add: negative_def has_simps) (simp add: has_def flag_defs)

lemma slots_flags: "negative (cent\<lparr>ce_flags := f\<rparr>) = negative cent \<Longrightarrow> slots (cent\<lparr>ce_flags := f\<rparr>) = slots cent"
  by (simp add: slots_def)

lemma cent_ok_flags: "negative (cent\<lparr>ce_flags := f\<rparr>) = negative cent \<Longrightarrow> cent_ok (cent\<lparr>ce_flags := f\<rparr>) = cent_ok cent"
  by (simp add: cent_ok_def cent_shape_def cent_size_def num_sets_def slots_flags)

lemma unnegate_flag: "\<not> negative (cent\<lparr>ce_flags := ce_flags cent AND NOT DF_NEGATIVE\<rparr>)"
  by (simp add: negative_def has_def and.assoc)

subsection \<open>Every operation keeps the accounts\<close>

lemma cent_ok_put:
  assumes "cent_ok cent" "i < length (slots cent)"
    and "cs' = ce_cs cent - slot_val rrset_size (slots cent ! i) + slot_val rrset_size v"
    and "n' = ce_num_rrs cent - of_int (slot_val (\<lambda>_. 1) (slots cent ! i)) + of_int (slot_val (\<lambda>_. 1) v)"
  shows "cent_ok ((put_rrset cent i v)\<lparr>ce_cs := cs', ce_num_rrs := n'\<rparr>)"
  using assms
  by (simp add: cent_ok_def cent_shape_put_rrset cent_size_def num_sets_def slots_put_rrset slot_sum_update)

lemma cent_ok_put_eq:
  assumes "cent_ok cent" "i < length (slots cent)" "slot_val rrset_size v = slot_val rrset_size (slots cent ! i)"
    and "slot_val (\<lambda>_. 1) v = slot_val (\<lambda>_. 1) (slots cent ! i)"
  shows "cent_ok (put_rrset cent i v)"
proof -
  have "cent_ok ((put_rrset cent i v)\<lparr>ce_cs := ce_cs cent, ce_num_rrs := ce_num_rrs cent\<rparr>)"
    by (rule cent_ok_put [OF assms(1,2)]) (simp_all add: assms(3,4))
  moreover have "(put_rrset cent i v)\<lparr>ce_cs := ce_cs cent, ce_num_rrs := ce_num_rrs cent\<rparr> = put_rrset cent i v"
    by (simp add: put_rrset_def)
  ultimately show ?thesis by simp
qed

lemma index_slots:
  assumes "cent_ok cent" "RRARR_INDEX_TESTEXT cent i = Some s" "i < NRRTOT"
  shows "i < length (slots cent)" "slots cent ! i = Some s" "\<not> negative cent"
  using assms by (auto simp: cent_ok_def RRARR_INDEX_TESTEXT_slots split: if_splits)

text \<open>Replacing a set by one of the same records (another time to live, another node).\<close>

lemma cent_ok_put_same:
  assumes "cent_ok cent" "RRARR_INDEX_TESTEXT cent i = Some s" "i < NRRTOT" "rs_rrs s' = rs_rrs s"
  shows "cent_ok (put_rrset cent i (Some s'))"
  using index_slots [OF assms(1-3)] assms(4)
  by (intro cent_ok_put_eq [OF assms(1)]) (simp_all add: rrset_size_def)

lemma index_put_rrset:
  assumes "cent_shape cent" "i < length (slots cent)" "j < NRRTOT"
  shows "RRARR_INDEX_TESTEXT (put_rrset cent i v) j = (if j = i then v else RRARR_INDEX_TESTEXT cent j)"
  using assms by (auto simp: RRARR_INDEX_TESTEXT_slots cent_shape_put_rrset slots_put_rrset)

lemma index_simps [simp]:
  "RRARR_INDEX_TESTEXT (cent\<lparr>ce_cs := x\<rparr>) i = RRARR_INDEX_TESTEXT cent i"
  "RRARR_INDEX_TESTEXT (cent\<lparr>ce_num_rrs := y\<rparr>) i = RRARR_INDEX_TESTEXT cent i"
  "RRARR_INDEX_TESTEXT (cent\<lparr>c_ns := c\<rparr>) i = RRARR_INDEX_TESTEXT cent i"
  "RRARR_INDEX_TESTEXT (cent\<lparr>c_soa := c\<rparr>) i = RRARR_INDEX_TESTEXT cent i"
  by (simp_all add: RRARR_INDEX_TESTEXT_def)

lemma index_flags: "negative (cent\<lparr>ce_flags := f\<rparr>) = negative cent \<Longrightarrow>
    RRARR_INDEX_TESTEXT (cent\<lparr>ce_flags := f\<rparr>) i = RRARR_INDEX_TESTEXT cent i"
  by (simp add: RRARR_INDEX_TESTEXT_def)

lemma del_cent_rrset_ok:
  assumes "cent_ok cent" "i < NRRTOT" "del_cent_rrset_by_index cent i rrl = (rv, cent', rrl')"
  shows "cent_ok cent'" "ce_cs cent' = ce_cs cent - rv" "ce_qname cent' = ce_qname cent"
    "negative cent' = negative cent" "neg_lent cent' = neg_lent cent"
    "\<And>j. j < NRRTOT \<Longrightarrow> RRARR_INDEX_TESTEXT cent' j = (if j = i then None else RRARR_INDEX_TESTEXT cent j)"
    "rrl' = (case RRARR_INDEX_TESTEXT cent i of None \<Rightarrow> rrl | Some s \<Rightarrow> remove_rrl_opt (rs_lent s) rrl)"
proof -
  have "cent_ok cent' \<and> ce_cs cent' = ce_cs cent - rv \<and> ce_qname cent' = ce_qname cent \<and>
    negative cent' = negative cent \<and> neg_lent cent' = neg_lent cent \<and>
    (\<forall>j<NRRTOT. RRARR_INDEX_TESTEXT cent' j = (if j = i then None else RRARR_INDEX_TESTEXT cent j)) \<and>
    rrl' = (case RRARR_INDEX_TESTEXT cent i of None \<Rightarrow> rrl | Some s \<Rightarrow> remove_rrl_opt (rs_lent s) rrl)"
  proof (cases "RRARR_INDEX_TESTEXT cent i")
    case None
    with assms show ?thesis by (auto simp: del_cent_rrset_by_index_def)
  next
    case (Some s)
    note sl = index_slots [OF assms(1) Some assms(2)]
    let ?c = "(put_rrset cent i None)\<lparr>ce_cs := ce_cs cent - rrset_size s, ce_num_rrs := ce_num_rrs cent - 1\<rparr>"
    have ok: "cent_ok ?c" by (rule cent_ok_put [OF assms(1) sl(1)]) (simp_all add: sl(2))
    have c': "cent' = ?c\<lparr>ce_flags := ce_flags ?c AND NOT DF_AUTH\<rparr>" "rv = rrset_size s"
      "rrl' = remove_rrl_opt (rs_lent s) rrl"
      using assms(3) Some by (auto simp: del_cent_rrset_by_index_def del_rrset_def)
    have neg: "negative cent' = negative ?c" unfolding c' by (rule negative_keep_auth)
    have "cent_ok cent'" using ok neg unfolding c'(1) by (simp only: cent_ok_flags)
    moreover have "RRARR_INDEX_TESTEXT cent' j = (if j = i then None else RRARR_INDEX_TESTEXT cent j)" if "j < NRRTOT" for j
      using index_put_rrset [of cent i j None] assms(1) sl(1) that neg unfolding c'(1)
      by (simp only: index_flags) (simp add: cent_ok_def)
    ultimately show ?thesis using neg c' Some by simp
  qed
  then show "cent_ok cent'" "ce_cs cent' = ce_cs cent - rv" "ce_qname cent' = ce_qname cent"
    "negative cent' = negative cent" "neg_lent cent' = neg_lent cent"
    "\<And>j. j < NRRTOT \<Longrightarrow> RRARR_INDEX_TESTEXT cent' j = (if j = i then None else RRARR_INDEX_TESTEXT cent j)"
    "rrl' = (case RRARR_INDEX_TESTEXT cent i of None \<Rightarrow> rrl | Some s \<Rightarrow> remove_rrl_opt (rs_lent s) rrl)" by blast+
qed

lemma unnegate_ok:
  assumes "cent_ok cent" "unnegate cent rrl = (cent', rrl')"
  shows "cent_ok cent' \<and> \<not> negative cent' \<and> ce_qname cent' = ce_qname cent \<and> ce_cs cent' = ce_cs cent \<and>
    (\<forall>j<NRRTOT. RRARR_INDEX_TESTEXT cent' j = RRARR_INDEX_TESTEXT cent j) \<and>
    rrl' = (if negative cent then remove_rrl_opt (neg_lent cent) rrl else rrl)"
proof (cases "negative cent")
  case False
  with assms show ?thesis by (auto simp: unnegate_def)
next
  case True
  let ?f = "ce_flags cent AND NOT DF_NEGATIVE"
  have c': "cent' = cent\<lparr>ce_flags := ?f, rrmu := replicate NRRMU None, rrext := None\<rparr>"
    "rrl' = remove_rrl_opt (neg_lent cent) rrl" using assms(2) True by (auto simp: unnegate_def)
  have neg: "\<not> negative cent'" using unnegate_flag [of cent] unfolding c' by (simp add: negative_def)
  then have sl: "slots cent' = replicate NRRMU None" unfolding slots_def by (simp add: c')
  have sh: "cent_shape cent'" using assms(1) neg by (simp add: cent_ok_def cent_shape_def c')
  have "cent_ok cent'" using assms(1) True sl neg sh
    unfolding cent_ok_def cent_size_def num_sets_def by (simp add: c')
  moreover have "RRARR_INDEX_TESTEXT cent' j = RRARR_INDEX_TESTEXT cent j" if "j < NRRTOT" for j
    using True sl that by (simp add: RRARR_INDEX_TESTEXT_slots [OF sh]) (simp add: RRARR_INDEX_TESTEXT_def)
  ultimately show ?thesis using neg True c' by simp
qed

lemma ensure_slot_ok:
  assumes "cent_ok cent" "\<not> negative cent" "idx < NRRTOT" "ensure_slot a cent idx = (r, a')"
  shows "(r = None \<longrightarrow> (\<exists>n. \<not> a n)) \<and> (\<forall>cent'. r = Some cent' \<longrightarrow> cent_ok cent' \<and> \<not> negative cent' \<and>
    idx < length (slots cent') \<and> ce_qname cent' = ce_qname cent \<and>
    (\<forall>j<NRRTOT. RRARR_INDEX_TESTEXT cent' j = RRARR_INDEX_TESTEXT cent j))"
proof (cases "idx < NRRMU \<or> rrext cent \<noteq> None")
  case True
  with assms(2) have "idx < RRARR_LEN cent" using assms(3) by (auto simp: RRARR_LEN_def)
  with True assms show ?thesis
    by (auto simp: ensure_slot_def cent_ok_def slots_length split: if_splits)
next
  case False
  let ?c = "cent\<lparr>rrext := Some (replicate NRREXT None), ce_cs := ce_cs cent + sizeof_rrext\<rparr>"
  have sl: "slots ?c = slots cent @ replicate NRREXT None" using False assms(2)
    by (simp add: slots_def)
  have sh: "cent_shape ?c" using assms(1,2) by (auto simp: cent_ok_def cent_shape_def)
  have "cent_ok ?c" using assms(1,2) sl sh False by (simp add: cent_ok_def cent_size_def num_sets_def)
  moreover have "idx < length (slots ?c)" using sl assms(1-3) False
    by (auto simp: cent_ok_def slots_length RRARR_LEN_def rr_numbers)
  moreover have "RRARR_INDEX_TESTEXT ?c j = RRARR_INDEX_TESTEXT cent j" if "j < NRRTOT" for j
    using that assms(1) RRARR_INDEX_TESTEXT_slots [OF sh that] sl
    by (auto simp: cent_ok_def RRARR_INDEX_TESTEXT_slots nth_append)
  ultimately show ?thesis using False assms(2,4) by (auto simp: ensure_slot_def malloc_def split: if_splits)
qed

lemma ensure_slot_alloc: "ensure_slot a cent idx = (r, a') \<Longrightarrow> \<not> a' n \<Longrightarrow> \<exists>n. \<not> a n"
  by (auto simp: ensure_slot_def malloc_def split: if_splits)

lemma add_cent_rrset_by_index_ok:
  assumes "cent_ok cent" "idx < NRRTOT" "RRARR_INDEX_TESTEXT cent idx = None"
  shows "\<exists>ok cent' a'. add_cent_rrset_by_index a rrl cent idx ttl ts fl = Some (ok, cent', snd (unnegate cent rrl), a') \<and>
    cent_ok cent' \<and> \<not> negative cent' \<and> ce_qname cent' = ce_qname cent \<and> (ok \<or> (\<exists>n. \<not> a n)) \<and>
    (\<forall>j<NRRTOT. RRARR_INDEX_TESTEXT cent' j =
       (if ok \<and> j = idx then Some \<lparr>rs_lent = None, rs_ttl = ttl, rs_ts = ts, rs_flags = fl, rs_rrs = []\<rparr>
        else RRARR_INDEX_TESTEXT cent j))"
proof -
  obtain c1 rrl1 where u: "unnegate cent rrl = (c1, rrl1)" by (cases "unnegate cent rrl")
  from unnegate_ok [OF assms(1) u] have c1: "cent_ok c1" "\<not> negative c1" "ce_qname c1 = ce_qname cent"
    "\<And>j. j < NRRTOT \<Longrightarrow> RRARR_INDEX_TESTEXT c1 j = RRARR_INDEX_TESTEXT cent j" by auto
  have guard: "\<not> (\<not> idx < NRRMU \<and> \<not> idx - NRRMU < NRREXT)" using assms(2) by (auto simp: rr_numbers)
  obtain r a1 where e: "ensure_slot a c1 idx = (r, a1)" by (cases "ensure_slot a c1 idx")
  note es = ensure_slot_ok [OF c1(1,2) assms(2) e]
  show ?thesis
  proof (cases r)
    case None
    with guard es c1 u e show ?thesis by (auto simp: add_cent_rrset_by_index_def)
  next
    case (Some c2)
    with es have c2: "cent_ok c2" "\<not> negative c2" "idx < length (slots c2)" "ce_qname c2 = ce_qname c1"
      "\<And>j. j < NRRTOT \<Longrightarrow> RRARR_INDEX_TESTEXT c2 j = RRARR_INDEX_TESTEXT cent j" using c1(4) by auto
    have sl: "slots c2 ! idx = None"
      using c2(1,3) c2(5) [OF assms(2)] assms(3) RRARR_INDEX_TESTEXT_slots [OF _ assms(2), of c2]
      by (simp add: cent_ok_def)
    let ?s = "\<lparr>rs_lent = None, rs_ttl = ttl, rs_ts = ts, rs_flags = fl, rs_rrs = []\<rparr>"
    let ?c = "(put_rrset c2 idx (Some ?s))\<lparr>ce_cs := ce_cs c2 + sizeof_rr_set_t, ce_num_rrs := ce_num_rrs c2 + 1\<rparr>"
    have "cent_ok ?c" by (rule cent_ok_put [OF c2(1,3)]) (simp_all add: sl rrset_size_def)
    moreover have "cent_ok (put_rrset c2 idx None)" by (rule cent_ok_put_eq [OF c2(1,3)]) (simp_all add: sl)
    moreover have "RRARR_INDEX_TESTEXT (put_rrset c2 idx v) j = (if j = idx then v else RRARR_INDEX_TESTEXT cent j)"
      if "j < NRRTOT" for j v
      using index_put_rrset [OF _ c2(3) that, of v] c2(1) c2(5) [OF that] by (simp add: cent_ok_def)
    moreover have "\<exists>n. \<not> a n" if "\<not> a1 0" using ensure_slot_alloc [OF e that] .
    ultimately show ?thesis using guard Some c1(3) c2(2,4) u e assms(3)
      by (cases "a1 0") (auto simp: add_cent_rrset_by_index_def malloc_def)
  qed
qed

lemma link_rr_ok:
  assumes "cent_ok cent" "idx < NRRTOT" "RRARR_INDEX_TESTEXT cent idx = Some rrset"
    and ins: "insert_rr (rs_rrs rrset) rtail rr = (rrs, k)"
  shows "\<exists>cent'. link_rr cent idx rtail rr = Some (cent', k) \<and> cent_ok cent' \<and> ce_qname cent' = ce_qname cent \<and>
    (\<forall>j<NRRTOT. RRARR_INDEX_TESTEXT cent' j =
       (if j = idx then Some (rrset\<lparr>rs_rrs := rrs\<rparr>) else RRARR_INDEX_TESTEXT cent j)) \<and>
    negative cent' = negative cent \<and> neg_lent cent' = neg_lent cent"
proof -
  note sl = index_slots [OF assms(1,3,2)]
  let ?f = "\<lambda>rr. sizeof_rr_bucket_t + int (length rr)"
  have "sum_list (map ?f rrs) = sum_list (map ?f (rs_rrs rrset)) + ?f rr"
  proof (cases rtail)
    case (Some n)
    have "sum_list (map ?f (rs_rrs rrset)) = sum_list (map ?f (take (n + 1) (rs_rrs rrset))) + sum_list (map ?f (drop (n + 1) (rs_rrs rrset)))"
      by (simp only: sum_list_append [symmetric] map_append [symmetric] append_take_drop_id)
    with ins Some show ?thesis by (auto simp: insert_rr_def)
  qed (use ins in \<open>auto simp: insert_rr_def\<close>)
  then have sz: "rrset_size (rrset\<lparr>rs_rrs := rrs\<rparr>) = rrset_size rrset + ?f rr" by (simp add: rrset_size_def)
  let ?c = "(put_rrset cent idx (Some (rrset\<lparr>rs_rrs := rrs\<rparr>)))\<lparr>ce_cs := ce_cs cent + ?f rr, ce_num_rrs := ce_num_rrs cent\<rparr>"
  have "cent_ok ?c" by (rule cent_ok_put [OF assms(1) sl(1)]) (simp_all add: sl(2) sz)
  moreover have "link_rr cent idx rtail rr = Some (?c, k)"
    using assms(3) ins by (simp add: link_rr_def put_rrset_def)
  ultimately show ?thesis
    using index_put_rrset [of cent idx _ "Some (rrset\<lparr>rs_rrs := rrs\<rparr>)"] assms(1) sl(1) by (simp add: cent_ok_def)
qed

definition base_set :: "dns_cent_t \<Rightarrow> nat \<Rightarrow> int \<Rightarrow> int \<Rightarrow> 16 word \<Rightarrow> rr_set_t" where
  "base_set cent idx ttl ts fl = (case RRARR_INDEX_TESTEXT cent idx of Some s \<Rightarrow> s
     | None \<Rightarrow> \<lparr>rs_lent = None, rs_ttl = ttl, rs_ts = ts, rs_flags = fl, rs_rrs = []\<rparr>)"

lemma add_cent_rr_int_ok:
  assumes "cent_ok cent" "idx < NRRTOT" "rtail = None \<or> RRARR_INDEX_TESTEXT cent idx \<noteq> None"
    and ins: "insert_rr (rs_rrs (base_set cent idx ttl ts fl)) rtail dat = (rrs, k)"
  shows "\<exists>ok cent' rtail' rrl' a'. add_cent_rr_int a rrl cent idx ttl ts fl dat rtail = Some (ok, cent', rtail', rrl', a') \<and>
    cent_ok cent' \<and> ce_qname cent' = ce_qname cent \<and> (ok \<or> (\<exists>n. \<not> a n)) \<and> (ok \<longrightarrow> rtail' = Some k) \<and>
    (\<not> negative cent \<longrightarrow> rrl' = rrl \<and> \<not> negative cent') \<and>
    (\<forall>j<NRRTOT. RRARR_INDEX_TESTEXT cent' j =
       (if ok \<and> j = idx then Some ((base_set cent idx ttl ts fl)\<lparr>rs_rrs := rrs\<rparr>) else RRARR_INDEX_TESTEXT cent j))"
proof (cases "a 0")
  case False
  with assms show ?thesis by (auto simp: add_cent_rr_int_def create_rr_def malloc_def)
next
  case True
  let ?a = "\<lambda>n. a (Suc n)"
  have cr: "create_rr a dat = (Some dat, ?a)" using True by (simp add: create_rr_def malloc_def)
  show ?thesis
  proof (cases "RRARR_INDEX_TESTEXT cent idx")
    case (Some s)
    then have "base_set cent idx ttl ts fl = s" by (simp add: base_set_def)
    with ins have i: "insert_rr (rs_rrs s) rtail dat = (rrs, k)" by simp
    from link_rr_ok [OF assms(1,2) Some i] Some cr show ?thesis
      by (auto simp: add_cent_rr_int_def base_set_def)
  next
    case None
    with assms(3) have rt: "rtail = None" by simp
    have b: "base_set cent idx ttl ts fl = \<lparr>rs_lent = None, rs_ttl = ttl, rs_ts = ts, rs_flags = fl, rs_rrs = []\<rparr>"
      using None by (simp add: base_set_def)
    from add_cent_rrset_by_index_ok [OF assms(1,2) None, of ?a rrl ttl ts fl, folded b] obtain ok c1 a1 where
      c1: "add_cent_rrset_by_index ?a rrl cent idx ttl ts fl = Some (ok, c1, snd (unnegate cent rrl), a1)"
        "cent_ok c1" "\<not> negative c1" "ce_qname c1 = ce_qname cent" "ok \<or> (\<exists>n. \<not> a (Suc n))"
        "\<And>j. j < NRRTOT \<Longrightarrow> RRARR_INDEX_TESTEXT c1 j = (if ok \<and> j = idx then Some (base_set cent idx ttl ts fl)
           else RRARR_INDEX_TESTEXT cent j)" by blast
    show ?thesis
    proof (cases ok)
      case False
      with c1 cr rt None assms(2) show ?thesis by (auto simp: add_cent_rr_int_def unnegate_def)
    next
      case ok: True
      with c1(6) [OF assms(2)] have "RRARR_INDEX_TESTEXT c1 idx = Some (base_set cent idx ttl ts fl)" by simp
      from link_rr_ok [OF c1(2) assms(2) this ins] obtain c2 where
        "link_rr c1 idx rtail dat = Some (c2, k)" "cent_ok c2" "ce_qname c2 = ce_qname c1" "negative c2 = negative c1"
        "\<forall>j<NRRTOT. RRARR_INDEX_TESTEXT c2 j = (if j = idx then Some ((base_set cent idx ttl ts fl)\<lparr>rs_rrs := rrs\<rparr>)
           else RRARR_INDEX_TESTEXT c1 j)" by auto
      with c1 cr rt None ok show ?thesis by (auto simp: add_cent_rr_int_def unnegate_def)
    qed
  qed
qed

lemma insert_rr_end:
  "rtail = (if rrs = [] then None else Some (length rrs - 1)) \<Longrightarrow> insert_rr rrs rtail rr = (rrs @ [rr], length rrs)"
  by (cases "rrs = []") (auto simp: insert_rr_def)

lemma add_cent_rr_ok:
  assumes "cent_ok cent" "\<not> PDNSD_NOT_CACHED_TYPE type" "idx = rrlkuptab ! (type - T_MIN)"
  shows "\<exists>ok cent' rrl' a'. add_cent_rr a rrl cent type ttl ts fl dat = Some (ok, cent', rrl', a') \<and>
    cent_ok cent' \<and> ce_qname cent' = ce_qname cent \<and>
    (\<forall>j<NRRTOT. j \<noteq> idx \<longrightarrow> RRARR_INDEX_TESTEXT cent' j = RRARR_INDEX_TESTEXT cent j) \<and>
    (if has (ce_flags cent) DF_LOCAL \<and> \<not> has fl CF_LOCAL then ok \<and> cent' = cent
     else (ok \<or> (\<exists>n. \<not> a n)) \<and>
       (case RRARR_INDEX_TESTEXT cent idx of
          None \<Rightarrow> RRARR_INDEX_TESTEXT cent' idx =
            (if ok then Some \<lparr>rs_lent = None, rs_ttl = ttl, rs_ts = ts, rs_flags = fl, rs_rrs = [dat]\<rparr> else None)
        | Some s \<Rightarrow> RRARR_INDEX_TESTEXT cent' idx = Some (s\<lparr>rs_ttl := min ttl (rs_ttl s),
            rs_rrs := (if dat \<in> set (rs_rrs s) \<or> \<not> ok then rs_rrs s else rs_rrs s @ [dat])\<rparr>)))"
proof (cases "has (ce_flags cent) DF_LOCAL \<and> \<not> has fl CF_LOCAL")
  case True
  with assms(1) show ?thesis by (auto simp: add_cent_rr_def)
next
  case False
  from assms(2,3) have idx: "idx < NRRTOT" and ty: "T_MIN \<le> type" "type - T_MIN < T_NUM"
    by (auto simp: PDNSD_NOT_CACHED_TYPE_def rr_consts)
  show ?thesis
  proof (cases "RRARR_INDEX_TESTEXT cent idx")
    case None
    have b: "base_set cent idx ttl ts fl = \<lparr>rs_lent = None, rs_ttl = ttl, rs_ts = ts, rs_flags = fl, rs_rrs = []\<rparr>"
      using None by (simp add: base_set_def)
    have ins: "insert_rr (rs_rrs (base_set cent idx ttl ts fl)) None dat = ([dat], 0)"
      by (simp add: b insert_rr_def)
    from add_cent_rr_int_ok [OF assms(1) idx disjI1 [OF refl] ins, of a rrl, unfolded b] obtain ok c2 rtail2 rrl2 a2 where
      r: "add_cent_rr_int a rrl cent idx ttl ts fl dat None = Some (ok, c2, rtail2, rrl2, a2)" "cent_ok c2"
        "ce_qname c2 = ce_qname cent" "ok \<or> (\<exists>n. \<not> a n)"
        "\<forall>j<NRRTOT. RRARR_INDEX_TESTEXT c2 j = (if ok \<and> j = idx then
           Some (\<lparr>rs_lent = None, rs_ttl = ttl, rs_ts = ts, rs_flags = fl, rs_rrs = []\<rparr>\<lparr>rs_rrs := [dat]\<rparr>)
           else RRARR_INDEX_TESTEXT cent j)"
      by (elim exE conjE) (rule that; assumption)
    have "add_cent_rr a rrl cent type ttl ts fl dat = Some (ok, c2, rrl2, a2)"
      using r(1) False None idx ty assms(3) by (auto simp: add_cent_rr_def)
    with r(2-5) None False idx show ?thesis by auto
  next
    case (Some s)
    let ?s = "s\<lparr>rs_ttl := min ttl (rs_ttl s)\<rparr>"
    define c where "c = (if ttl < rs_ttl s then put_rrset cent idx (Some (s\<lparr>rs_ttl := ttl\<rparr>)) else cent)"
    note sl = index_slots [OF assms(1) Some idx]
    have c: "cent_ok c" "ce_qname c = ce_qname cent" "negative c = negative cent"
      using assms(1) cent_ok_put_same [OF assms(1) Some idx] by (auto simp: c_def)
    have ix: "RRARR_INDEX_TESTEXT c j = (if j = idx then Some ?s else RRARR_INDEX_TESTEXT cent j)" if "j < NRRTOT" for j
      using index_put_rrset [OF _ sl(1) that, of "Some (s\<lparr>rs_ttl := ttl\<rparr>)"] assms(1) Some
      by (auto simp: cent_ok_def c_def)
    show ?thesis
    proof (cases "dat \<in> set (rs_rrs s)")
      case True
      with False Some idx ty assms(3) have "add_cent_rr a rrl cent type ttl ts fl dat = Some (True, c, rrl, a)"
        by (auto simp: add_cent_rr_def c_def)
      with False Some c ix ix [OF idx] True show ?thesis by auto
    next
      case new: False
      let ?t = "if rs_rrs s = [] then None else Some (length (rs_rrs s) - 1)"
      have b: "base_set c idx ttl ts fl = ?s" using ix [OF idx] by (simp add: base_set_def)
      have ins: "insert_rr (rs_rrs (base_set c idx ttl ts fl)) ?t dat = (rs_rrs s @ [dat], length (rs_rrs s))"
        unfolding b by (intro trans [OF insert_rr_end]) simp_all
      have "?t = None \<or> RRARR_INDEX_TESTEXT c idx \<noteq> None" using ix [OF idx] by simp
      from add_cent_rr_int_ok [OF c(1) idx this ins, of a rrl, unfolded b] obtain ok c2 rtail2 rrl2 a2 where
        r: "add_cent_rr_int a rrl c idx ttl ts fl dat ?t = Some (ok, c2, rtail2, rrl2, a2)" "cent_ok c2"
          "ce_qname c2 = ce_qname c" "ok \<or> (\<exists>n. \<not> a n)"
          "\<forall>j<NRRTOT. RRARR_INDEX_TESTEXT c2 j =
             (if ok \<and> j = idx then Some (?s\<lparr>rs_rrs := rs_rrs s @ [dat]\<rparr>) else RRARR_INDEX_TESTEXT c j)"
        by (elim exE conjE) (rule that; assumption)
      have "add_cent_rr a rrl cent type ttl ts fl dat = Some (ok, c2, rrl2, a2)"
        using r(1) False Some idx ty assms(3) new
        by (cases "ttl < rs_ttl s") (auto simp: add_cent_rr_def c_def)
      moreover have "RRARR_INDEX_TESTEXT c2 idx = Some (?s\<lparr>rs_rrs := (if ok then rs_rrs s @ [dat] else rs_rrs s)\<rparr>)"
        using r(5) idx ix [OF idx] by simp
      moreover have "\<forall>j<NRRTOT. j \<noteq> idx \<longrightarrow> RRARR_INDEX_TESTEXT c2 j = RRARR_INDEX_TESTEXT cent j"
        using r(5) ix by simp
      ultimately show ?thesis using False Some new r(2-4) c(2) by auto
    qed
  qed
qed

text \<open>
  C22.  \<^verbatim>\<open>add_cent_rr\<close> keeps the accounts of the entry whether or not memory is available, and
  changes no set but the one of the given type.  A non-local record for a local entry is ignored.
  Otherwise, if it returns 1, the set holds the old records in their order and the new one at the end,
  unless the same data was already there; and its time to live is the minimum of the old and the new
  one.  It returns 0 only when memory runs out, and then changes no record.
\<close>

theorem add_cent_rr_correct:
  assumes "cent_ok cent" "\<not> PDNSD_NOT_CACHED_TYPE type" "idx = rrlkuptab ! (type - T_MIN)"
  shows "\<exists>ok cent' rrl' a'. add_cent_rr a rrl cent type ttl ts fl dat = Some (ok, cent', rrl', a') \<and>
    cent_ok cent' \<and> ce_qname cent' = ce_qname cent \<and>
    (\<forall>j<NRRTOT. j \<noteq> idx \<longrightarrow> RRARR_INDEX_TESTEXT cent' j = RRARR_INDEX_TESTEXT cent j) \<and>
    (if has (ce_flags cent) DF_LOCAL \<and> \<not> has fl CF_LOCAL then ok \<and> cent' = cent
     else (ok \<or> (\<exists>n. \<not> a n)) \<and>
       (case RRARR_INDEX_TESTEXT cent idx of
          None \<Rightarrow> RRARR_INDEX_TESTEXT cent' idx =
            (if ok then Some \<lparr>rs_lent = None, rs_ttl = ttl, rs_ts = ts, rs_flags = fl, rs_rrs = [dat]\<rparr> else None)
        | Some s \<Rightarrow> RRARR_INDEX_TESTEXT cent' idx = Some (s\<lparr>rs_ttl := min ttl (rs_ttl s),
            rs_rrs := (if dat \<in> set (rs_rrs s) \<or> \<not> ok then rs_rrs s else rs_rrs s @ [dat])\<rparr>)))"
  by (rule add_cent_rr_ok [OF assms])

lemma init_cent_ok:
  assumes "name_at qname 0 ls" "wf_name ls"
  shows "\<exists>r a'. init_cent a qname ttl ts fl = Some (r, a') \<and> (r = None \<longleftrightarrow> \<not> a 0) \<and>
    (\<forall>cent. r = Some cent \<longrightarrow> cent_ok cent \<and> ce_qname cent = enc ls \<and> ce_flags cent = fl \<and>
       neg_ttl cent = ttl \<and> neg_ts cent = ts \<and> neg_lent cent = None \<and>
       (\<forall>j<NRRTOT. RRARR_INDEX_TESTEXT cent j = None))"
proof -
  have len: "rhnlen qname = Some (length (enc ls))" using rhnlen_at_name [OF assms(1)] by (simp add: rhnlen_def)
  have tk: "take (length (enc ls)) qname = enc ls" using assms(1) by (auto simp: name_at_prefix prefix_def)
  let ?c = "\<lparr>ce_qname = enc ls, ce_cs = sizeof_dns_cent_t + int (length (enc ls)),
       ce_num_rrs = 0, ce_flags = fl, neg_lent = None, neg_ttl = ttl, neg_ts = ts,
       rrmu = replicate NRRMU None, rrext = None, c_ns = cundef, c_soa = cundef\<rparr>"
  have sh: "cent_shape ?c" using assms(2) by (auto simp: cent_shape_def)
  have sl: "slots ?c = (if negative ?c then [] else replicate NRRMU None)" by (simp add: slots_def)
  then have "cent_ok ?c" using sh by (simp add: cent_ok_def cent_size_def num_sets_def)
  moreover have "RRARR_INDEX_TESTEXT ?c j = None" if "j < NRRTOT" for j
    using sl by (simp add: RRARR_INDEX_TESTEXT_slots [OF sh that])
  ultimately show ?thesis using len tk by (auto simp: init_cent_def malloc_def)
qed

theorem add_cent_rr_correct_witness:
  "\<exists>cent cent' a'. init_cent (\<lambda>n. True) [1, 97, 0] 0 0 0 = Some (Some cent, \<lambda>n. True) \<and>
    add_cent_rr (\<lambda>n. True) [] cent T_MX 60 1000 0 [1, 2] = Some (True, cent', [], a') \<and>
    RRARR_INDEX_TESTEXT cent' 5 = Some \<lparr>rs_lent = None, rs_ttl = 60, rs_ts = 1000, rs_flags = 0, rs_rrs = [[1, 2]]\<rparr>"
proof -
  have n: "name_at [1, 97, 0] 0 [[97]]" "wf_name [[97 :: byte]]"
    by (simp_all add: rd_def lab_ok_def wf_name_def lab63_def DNSNAMEBUFSIZE_def)
  from init_cent_ok [OF n, of "\<lambda>n. True" 0 0 0] obtain cent a1 where
    i: "init_cent (\<lambda>n. True) [1, 97, 0] 0 0 0 = Some (Some cent, a1)" "cent_ok cent" "ce_flags cent = 0"
      "RRARR_INDEX_TESTEXT cent 5 = None" by (fastforce simp: NRRTOT_def)
  then have a1: "a1 = (\<lambda>n. True)" by (auto simp: init_cent_def malloc_def bind_eq_Some_conv)
  have neg: "\<not> negative cent" using i(3) by (simp add: negative_def has_def)
  have t: "\<not> PDNSD_NOT_CACHED_TYPE T_MX" "5 = rrlkuptab ! (T_MX - T_MIN)"
    by (simp_all add: PDNSD_NOT_CACHED_TYPE_def rr_consts rrlkuptab_def)
  from add_cent_rr_correct [OF i(2) t, of "\<lambda>n. True" "[]" 60 1000 0 "[1, 2]"] i(3,4) neg
  obtain cent' rrl' a' where c: "add_cent_rr (\<lambda>n. True) [] cent T_MX 60 1000 0 [1, 2] = Some (True, cent', rrl', a')"
    "RRARR_INDEX_TESTEXT cent' 5 = Some \<lparr>rs_lent = None, rs_ttl = 60, rs_ts = 1000, rs_flags = 0, rs_rrs = [[1, 2]]\<rparr>"
    by (auto simp: has_def)
  have "rrl' = []" using c(1) i(3,4) t(2) neg
    by (auto simp: add_cent_rr_def add_cent_rr_int_def create_rr_def malloc_def add_cent_rrset_by_index_def
        unnegate_def ensure_slot_def rr_consts has_def bind_eq_Some_conv split: if_splits)
  with i(1) a1 c show ?thesis by blast
qed

text \<open>The nodes that an entry owns in the list \<^verbatim>\<open>rrset_l\<close>.\<close>

definition slot_lents :: "rr_set_t option list \<Rightarrow> nat set" where
  "slot_lents ss = {l. \<exists>s. Some s \<in> set ss \<and> rs_lent s = Some l}"

definition cent_lents :: "dns_cent_t \<Rightarrow> nat set" where
  "cent_lents cent = (if negative cent then set_option (neg_lent cent) else slot_lents (slots cent))"

lemma slot_lents_simps [simp]:
  "slot_lents [] = {}" "slot_lents (xs @ ys) = slot_lents xs \<union> slot_lents ys"
  by (auto simp: slot_lents_def)

lemma del_rrsets_spec:
  "del_rrsets ss rrl = (slot_sum rrset_size ss, filter (\<lambda>e. le_id e \<notin> slot_lents ss) rrl)"
proof (induction ss arbitrary: rrl)
  case Nil
  then show ?case by (simp add: slot_lents_def)
next
  case (Cons x ss)
  have "slot_lents (x # ss) = (case x of None \<Rightarrow> {} | Some s \<Rightarrow> set_option (rs_lent s)) \<union> slot_lents ss"
    by (auto simp: slot_lents_def split: option.splits)
  then show ?case
    by (cases x) (auto simp: Cons del_rrset_def remove_rrl_opt_def remove_rrl_def split: option.splits
        intro!: filter_cong)
qed

lemma free_cent_spec: "free_cent cent rrl = filter (\<lambda>e. le_id e \<notin> cent_lents cent) rrl"
  by (auto simp: free_cent_def cent_lents_def del_rrsets_spec slots_def remove_rrl_opt_def remove_rrl_def
      split: option.splits intro!: filter_cong)

lemma negative_set: "negative (cent\<lparr>ce_flags := ce_flags cent OR DF_NEGATIVE\<rparr>)"
  by (simp add: negative_def has_simps) (simp add: has_def flag_defs)

lemma negate_cent_ok:
  assumes "cent_ok cent" "negate_cent cent ttl ts rrl = (cent', rrl')"
  shows "cent_ok cent' \<and> negative cent' \<and> neg_ttl cent' = ttl \<and> neg_ts cent' = ts \<and> ce_qname cent' = ce_qname cent \<and>
    neg_lent cent' = (if negative cent then neg_lent cent else None) \<and>
    rrl' = (if negative cent then rrl else filter (\<lambda>e. le_id e \<notin> cent_lents cent) rrl)"
proof (cases "negative cent")
  case True
  with assms show ?thesis by (auto simp: negate_cent_def Let_def)
next
  case False
  let ?r = "(if rrext cent = None then 0 else sizeof_rrext) + slot_sum rrset_size (slots cent)"
  have c': "cent' = cent\<lparr>ce_cs := ce_cs cent - ?r, ce_num_rrs := 0,
      ce_flags := ce_flags cent OR DF_NEGATIVE, neg_lent := None, neg_ttl := ttl, neg_ts := ts\<rparr>"
    "rrl' = filter (\<lambda>e. le_id e \<notin> cent_lents cent) rrl"
    using assms(2) False by (auto simp: negate_cent_def Let_def del_rrsets_spec slots_def cent_lents_def
        split: option.splits intro!: filter_cong)
  have neg: "negative cent'" using negative_set [of cent] by (simp add: c' negative_def)
  have "ce_cs cent' = cent_size cent'"
    using assms(1) False neg by (simp add: cent_ok_def cent_size_def c')
  moreover have "cent_shape cent'" using assms(1) neg by (simp add: cent_ok_def cent_shape_def c')
  moreover have "ce_num_rrs cent' = of_int (num_sets cent')" using neg by (simp add: num_sets_def c'(1))
  ultimately show ?thesis using neg False c' by (simp add: cent_ok_def)
qed

text \<open>A copy is the entry without its links to the list.\<close>

definition unlinked :: "rr_set_t option \<Rightarrow> rr_set_t option" where
  "unlinked = map_option (rs_lent_update (\<lambda>_. None))"

definition strip_cent :: "dns_cent_t \<Rightarrow> dns_cent_t" where
  "strip_cent cent = (if negative cent then cent\<lparr>neg_lent := None\<rparr>
     else cent\<lparr>rrmu := map unlinked (rrmu cent), rrext := map_option (map unlinked) (rrext cent)\<rparr>)"

lemma copy_rrs_spec: "copy_rrs a rrs = (r, a') \<Longrightarrow>
    (r = Some rrs \<and> a' = (\<lambda>n. a (n + length rrs)) \<or> r = None \<and> (\<exists>n. \<not> a n))"
proof (induction rrs arbitrary: a r a')
  case (Cons rr rrs)
  show ?case
  proof (cases "a 0")
    case True
    obtain r1 a1 where r1: "copy_rrs (\<lambda>n. a (Suc n)) rrs = (r1, a1)" by (cases "copy_rrs (\<lambda>n. a (Suc n)) rrs")
    from Cons.IH [OF r1] Cons.prems True r1 show ?thesis
      by (auto simp: create_rr_def malloc_def split: option.splits)
  next
    case False
    with Cons.prems show ?thesis by (auto simp: create_rr_def malloc_def)
  qed
qed simp

lemma copy_rrset_spec: "copy_rrset a s = (r, a') \<Longrightarrow>
    r = Some (s\<lparr>rs_lent := None\<rparr>) \<and> (\<exists>k. a' = (\<lambda>n. a (n + k))) \<or> r = None \<and> (\<exists>n. \<not> a n)"
proof -
  assume c: "copy_rrset a s = (r, a')"
  obtain r1 a1 where r1: "copy_rrs (\<lambda>n. a (Suc n)) (rs_rrs s) = (r1, a1)"
    by (cases "copy_rrs (\<lambda>n. a (Suc n)) (rs_rrs s)")
  from copy_rrs_spec [OF r1] c r1 show ?thesis
    by (auto simp: copy_rrset_def malloc_def split: option.splits if_splits
        intro: exI [of _ "Suc (length (rs_rrs s))"])
qed

lemma copy_rrsets_spec: "copy_rrsets a ss = (r, a') \<Longrightarrow>
    r = Some (map unlinked ss) \<and> (\<exists>k. a' = (\<lambda>n. a (n + k))) \<or> r = None \<and> (\<exists>n. \<not> a n)"
proof (induction ss arbitrary: a r a')
  case Nil
  then show ?case by (auto intro: exI [of _ 0])
next
  case (Cons x ss)
  show ?case
  proof (cases x)
    case None
    obtain r2 a2 where r2: "copy_rrsets a ss = (r2, a2)" by (cases "copy_rrsets a ss")
    from Cons.IH [OF r2] Cons.prems r2 None show ?thesis by (auto simp: unlinked_def)
  next
    case (Some s)
    obtain r1 a1 where r1: "copy_rrset a s = (r1, a1)" by (cases "copy_rrset a s")
    obtain r2 a2 where r2: "copy_rrsets a1 ss = (r2, a2)" by (cases "copy_rrsets a1 ss")
    from copy_rrset_spec [OF r1] show ?thesis
    proof
      assume "r1 = None \<and> (\<exists>n. \<not> a n)"
      with Cons.prems r1 Some show ?thesis by auto
    next
      assume s1: "r1 = Some (s\<lparr>rs_lent := None\<rparr>) \<and> (\<exists>k. a1 = (\<lambda>n. a (n + k)))"
      then obtain k where k: "a1 = (\<lambda>n. a (n + k))" by blast
      from Cons.IH [OF r2] Cons.prems r1 r2 Some s1 show ?thesis
        by (auto simp: unlinked_def k add.assoc)
    qed
  qed
qed

lemma strip_cent_ok:
  assumes "cent_ok cent"
  shows "cent_ok (strip_cent cent)" "ce_cs (strip_cent cent) = ce_cs cent" "ce_flags (strip_cent cent) = ce_flags cent"
    "negative (strip_cent cent) = negative cent" "ce_qname (strip_cent cent) = ce_qname cent"
    "slots (strip_cent cent) = map unlinked (slots cent)" "cent_lents (strip_cent cent) = {}"
    "ce_num_rrs (strip_cent cent) = ce_num_rrs cent"
proof -
  show neg: "negative (strip_cent cent) = negative cent" by (simp add: strip_cent_def)
  show sl: "slots (strip_cent cent) = map unlinked (slots cent)"
    by (auto simp: slots_def strip_cent_def split: option.splits)
  show cs: "ce_cs (strip_cent cent) = ce_cs cent" "ce_flags (strip_cent cent) = ce_flags cent"
    "ce_qname (strip_cent cent) = ce_qname cent" "ce_num_rrs (strip_cent cent) = ce_num_rrs cent"
    by (simp_all add: strip_cent_def)
  have "rrset_size (s\<lparr>rs_lent := None\<rparr>) = rrset_size s" for s by (simp add: rrset_size_def)
  then have sum: "slot_sum rrset_size (map unlinked xs) = slot_sum rrset_size xs"
    "slot_sum (\<lambda>_. 1) (map unlinked xs) = slot_sum (\<lambda>_. 1) xs" for xs
    by (induction xs) (auto simp: unlinked_def slot_val_def split: option.splits)
  have "cent_shape (strip_cent cent)"
    using assms neg by (auto simp: cent_ok_def cent_shape_def strip_cent_def)
  moreover have "\<not> negative cent \<Longrightarrow> (rrext (strip_cent cent) = None) = (rrext cent = None)"
    by (simp add: strip_cent_def)
  ultimately show "cent_ok (strip_cent cent)"
    using assms by (cases "negative cent")
      (simp_all add: cent_ok_def cent_size_def num_sets_def neg sl sum cs del: not_None_eq)
  show "cent_lents (strip_cent cent) = {}"
    unfolding cent_lents_def neg sl by (auto simp: slot_lents_def unlinked_def strip_cent_def eq_commute [of "Some _"])
qed


lemma copy_cent_spec:
  assumes "cent_ok cent"
  shows "\<exists>r a'. copy_cent a cent = Some (r, a') \<and> (r = Some (strip_cent cent) \<or> r = None \<and> (\<exists>n. \<not> a n))"
proof -
  from assms obtain ls where ls: "wf_name ls" "ce_qname cent = enc ls" by (auto simp: cent_ok_def cent_shape_def)
  then have q: "rhnlen (ce_qname cent) = Some (length (ce_qname cent))"
    using rhnlen_at_name [OF name_at_enc [of ls "[]"]]
    by (simp add: rhnlen_def wf_name_lab_ok)
  show ?thesis
  proof (cases "a 0 \<and> a 1 \<and> \<not> negative cent \<and> (rrext cent \<noteq> None \<longrightarrow> a 2)")
    case False
    then show ?thesis
      by (auto simp: copy_cent_def malloc_def q strip_cent_def numeral_2_eq_2)
  next
    case True
    define b where "b = (\<lambda>n. a (n + (if rrext cent = None then 2 else 3)))"
    obtain r1 a1 where r1: "copy_rrsets b (rrmu cent) = (r1, a1)" by (cases "copy_rrsets b (rrmu cent)")
    from copy_rrsets_spec [OF r1] consider
        (full) k where "r1 = Some (map unlinked (rrmu cent))" "a1 = (\<lambda>n. b (n + k))" | (fail) "r1 = None" "\<exists>n. \<not> b n"
      by blast
    note mu = this
    have b1: "\<exists>n. \<not> b n \<Longrightarrow> \<exists>n. \<not> a n" by (auto simp: b_def)
    have m: "copy_cent a cent = (case copy_rrsets b (rrmu cent) of
            (None, a) \<Rightarrow> Some (None, a)
          | (Some mu, a) \<Rightarrow>
             (case rrext cent of
                None \<Rightarrow> Some (Some (cent\<lparr>rrmu := mu\<rparr>), a)
              | Some ext \<Rightarrow>
                 (case copy_rrsets a ext of
                    (None, a) \<Rightarrow> Some (None, a)
                  | (Some cext, a) \<Rightarrow> Some (Some (cent\<lparr>rrmu := mu, rrext := Some cext\<rparr>), a))))"
      using True by (cases "rrext cent") (simp_all add: copy_cent_def malloc_def q b_def numeral_2_eq_2 numeral_3_eq_3
          split: prod.split option.split)
    show ?thesis
    proof (cases rule: mu)
      case fail
      with b1 show ?thesis unfolding m r1 by simp
    next
      case full
      show ?thesis
      proof (cases "rrext cent")
        case None
        with full True show ?thesis unfolding m r1 by (simp add: strip_cent_def)
      next
        case (Some ext)
        obtain r2 a2 where r2: "copy_rrsets a1 ext = (r2, a2)" by (cases "copy_rrsets a1 ext")
        have "\<not> a1 n \<Longrightarrow> \<exists>n. \<not> a n" for n using b1 full(2) by auto
        with copy_rrsets_spec [OF r2] full(1) True show ?thesis
          unfolding m r1 by (auto simp: strip_cent_def r2 Some)
      qed
    qed
  qed
qed

text \<open>
  C25.  \<^verbatim>\<open>copy_cent\<close> of a well-formed entry returns a null pointer only when memory runs out;
  otherwise the copy has the same name, flags, times, sets and records, and no link into the list
  \<^verbatim>\<open>rrset_l\<close>, and its accounts are again correct.
\<close>

theorem copy_cent_correct:
  assumes "cent_ok cent"
  shows "\<exists>r a'. copy_cent a cent = Some (r, a') \<and> (r = None \<longrightarrow> (\<exists>n. \<not> a n)) \<and>
    (\<forall>copy. r = Some copy \<longrightarrow> cent_ok copy \<and> ce_qname copy = ce_qname cent \<and> ce_flags copy = ce_flags cent \<and>
       ce_cs copy = ce_cs cent \<and> ce_num_rrs copy = ce_num_rrs cent \<and> neg_ttl copy = neg_ttl cent \<and>
       neg_ts copy = neg_ts cent \<and> c_ns copy = c_ns cent \<and> c_soa copy = c_soa cent \<and>
       (\<forall>j<NRRTOT. RRARR_INDEX_TESTEXT copy j = map_option (rs_lent_update (\<lambda>_. None)) (RRARR_INDEX_TESTEXT cent j)) \<and>
       cent_lents copy = {})"
proof -
  from copy_cent_spec [OF assms] obtain r a' where
    r: "copy_cent a cent = Some (r, a')" "r = Some (strip_cent cent) \<or> r = None \<and> (\<exists>n. \<not> a n)" by blast
  note ok = strip_cent_ok [OF assms]
  have sh: "cent_shape cent" "cent_shape (strip_cent cent)" using assms ok(1) by (simp_all add: cent_ok_def)
  have "RRARR_INDEX_TESTEXT (strip_cent cent) j = map_option (rs_lent_update (\<lambda>_. None)) (RRARR_INDEX_TESTEXT cent j)"
    if "j < NRRTOT" for j
    by (simp add: RRARR_INDEX_TESTEXT_slots [OF sh(1) that] RRARR_INDEX_TESTEXT_slots [OF sh(2) that] ok(6) unlinked_def)
  moreover have "neg_ttl (strip_cent cent) = neg_ttl cent \<and> neg_ts (strip_cent cent) = neg_ts cent \<and>
      c_ns (strip_cent cent) = c_ns cent \<and> c_soa (strip_cent cent) = c_soa cent"
    by (simp add: strip_cent_def)
  ultimately have "\<forall>copy. r = Some copy \<longrightarrow> cent_ok copy \<and> ce_qname copy = ce_qname cent \<and> ce_flags copy = ce_flags cent \<and>
       ce_cs copy = ce_cs cent \<and> ce_num_rrs copy = ce_num_rrs cent \<and> neg_ttl copy = neg_ttl cent \<and>
       neg_ts copy = neg_ts cent \<and> c_ns copy = c_ns cent \<and> c_soa copy = c_soa cent \<and>
       (\<forall>j<NRRTOT. RRARR_INDEX_TESTEXT copy j = map_option (rs_lent_update (\<lambda>_. None)) (RRARR_INDEX_TESTEXT cent j)) \<and>
       cent_lents copy = {}"
    using r(2) ok by auto
  with r show ?thesis by blast
qed

lemma ok_cent_ex: "\<exists>cent. init_cent (\<lambda>n. True) [1, 97, 0] 7 8 0 = Some (Some cent, \<lambda>n. True) \<and> cent_ok cent \<and> ce_flags cent = 0"
proof -
  have n: "name_at [1, 97, 0] 0 [[97]]" "wf_name [[97 :: byte]]"
    by (simp_all add: rd_def lab_ok_def wf_name_def lab63_def DNSNAMEBUFSIZE_def)
  from init_cent_ok [OF n, of "\<lambda>n. True" 7 8 0] obtain cent a1 where
    i: "init_cent (\<lambda>n. True) [1, 97, 0] 7 8 0 = Some (Some cent, a1)" "cent_ok cent" "ce_flags cent = 0"
    by fastforce
  moreover have "a1 = (\<lambda>n. True)" using i(1) by (auto simp: init_cent_def malloc_def bind_eq_Some_conv)
  ultimately show ?thesis by blast
qed

theorem copy_cent_correct_witness:
  "\<exists>cent copy a'. init_cent (\<lambda>n. True) [1, 97, 0] 7 8 0 = Some (Some cent, \<lambda>n. True) \<and>
     copy_cent (\<lambda>n. True) cent = Some (Some copy, a') \<and> cent_ok copy \<and> ce_qname copy = ce_qname cent"
proof -
  from ok_cent_ex obtain cent where c: "init_cent (\<lambda>n. True) [1, 97, 0] 7 8 0 = Some (Some cent, \<lambda>n. True)" "cent_ok cent"
    by blast
  from copy_cent_correct [OF c(2), of "\<lambda>n. True"] c(1) show ?thesis by auto
qed

text \<open>The entries that the operations build.\<close>

inductive built :: "dns_cent_t \<Rightarrow> bool" where
  b_init: "name_at qname 0 ls \<Longrightarrow> wf_name ls \<Longrightarrow> init_cent a qname ttl ts fl = Some (Some cent, a') \<Longrightarrow> built cent"
| b_rr: "built cent \<Longrightarrow> add_cent_rr a rrl cent type ttl ts fl dat = Some (ok, cent', rrl', a') \<Longrightarrow> built cent'"
| b_rrset: "built cent \<Longrightarrow> getrrset cent type = None \<Longrightarrow>
    add_cent_rrset_by_type a rrl cent type ttl ts fl = Some (ok, cent', rrl', a') \<Longrightarrow> built cent'"
| b_del: "built cent \<Longrightarrow> i < NRRTOT \<Longrightarrow> del_cent_rrset_by_index cent i rrl = (rv, cent', rrl') \<Longrightarrow> built cent'"
| b_negate: "built cent \<Longrightarrow> negate_cent cent ttl ts rrl = (cent', rrl') \<Longrightarrow> built cent'"
| b_copy: "built cent \<Longrightarrow> copy_cent a cent = Some (Some cent', a') \<Longrightarrow> built cent'"
| b_ttl: "built cent \<Longrightarrow> adjust_dom_ttl g cent = Some cent' \<Longrightarrow> built cent'"

lemma getrrset_index:
  "T_MIN \<le> type \<Longrightarrow> type - T_MIN < T_NUM \<Longrightarrow> rrlkuptab ! (type - T_MIN) < NRRTOT \<Longrightarrow>
   getrrset cent type = RRARR_INDEX_TESTEXT cent (rrlkuptab ! (type - T_MIN))"
  by (auto simp: getrrset_def getrrset_eff_def RRARR_INDEX_TESTEXT_def Let_def rr_numbers split: option.splits)

lemma set_dom_ttl_ok: "cent_ok cent \<Longrightarrow> cent_ok (set_dom_ttl g cent)"
proof -
  have "negative (cent\<lparr>ce_flags := ce_flags cent AND NOT DF_NOCACHE\<rparr>) = negative cent"
    by (simp add: negative_def has_simps) (simp add: has_def flag_defs)
  note fl = cent_ok_flags [OF this]
  assume "cent_ok cent"
  then show ?thesis by (simp add: set_dom_ttl_def Let_def fl)
qed

lemma add_cent_rr_type: "add_cent_rr a rrl cent type ttl ts fl dat = Some (ok, cent', rrl', a') \<Longrightarrow>
    cent' = cent \<or> T_MIN \<le> type \<and> type - T_MIN < T_NUM \<and> rrlkuptab ! (type - T_MIN) < NRRTOT"
  by (auto simp: add_cent_rr_def split: if_splits)

text \<open>
  C21.  Every entry that the operations of the cache build, in any order and with any allocation failures,
  is well formed: \<^verbatim>\<open>cs\<close> is the number of bytes it occupies, \<^verbatim>\<open>num_rrs\<close> the number of its sets.
\<close>

theorem built_cent_ok:
  assumes "built cent"
  shows "cent_ok cent"
  using assms
proof induction
  case (b_init qname ls a ttl ts fl cent a')
  with init_cent_ok [OF b_init(1,2), of a ttl ts fl] show ?case by auto
next
  case (b_rr cent a rrl type ttl ts fl dat ok cent' rrl' a')
  from add_cent_rr_type [OF b_rr.hyps(2)] show ?case
  proof
    assume "T_MIN \<le> type \<and> type - T_MIN < T_NUM \<and> rrlkuptab ! (type - T_MIN) < NRRTOT"
    then have "\<not> PDNSD_NOT_CACHED_TYPE type" by (auto simp: PDNSD_NOT_CACHED_TYPE_def rr_consts)
    with add_cent_rr_ok [OF b_rr.IH _ refl, of type a rrl ttl ts fl dat] b_rr.hyps(2) show ?thesis by auto
  qed (use b_rr.IH in simp)
next
  case (b_rrset cent type a rrl ttl ts fl ok cent' rrl' a')
  let ?i = "rrlkuptab ! (type - T_MIN)"
  from b_rrset.hyps(3) have t: "T_MIN \<le> type" "type - T_MIN < T_NUM" "?i < NRRTOT"
    by (auto simp: add_cent_rrset_by_type_def add_cent_rrset_by_index_def Let_def rr_numbers split: if_splits prod.splits)
  with b_rrset.hyps(2) have "RRARR_INDEX_TESTEXT cent ?i = None" by (simp add: getrrset_index)
  from add_cent_rrset_by_index_ok [OF b_rrset.IH t(3) this, of a rrl ttl ts fl] b_rrset.hyps(3) t show ?case
    by (auto simp: add_cent_rrset_by_type_def)
next
  case (b_copy cent a cent' a')
  from copy_cent_spec [OF b_copy.IH, of a] b_copy.hyps(2) strip_cent_ok(1) [OF b_copy.IH] show ?case by auto
qed (auto dest: del_cent_rrset_ok(1) negate_cent_ok simp: adjust_dom_ttl_def intro: set_dom_ttl_ok split: if_splits)

theorem built_cent_ok_witness:
  "\<exists>cent. init_cent (\<lambda>n. True) [1, 97, 0] 7 8 0 = Some (Some cent, \<lambda>n. True) \<and> cent_ok (fst (negate_cent cent 5 6 []))"
proof -
  from ok_cent_ex obtain cent where c: "init_cent (\<lambda>n. True) [1, 97, 0] 7 8 0 = Some (Some cent, \<lambda>n. True)" by blast
  have "name_at [1, 97, 0] 0 [[97]]" "wf_name [[97 :: byte]]"
    by (simp_all add: rd_def lab_ok_def wf_name_def lab63_def DNSNAMEBUFSIZE_def)
  from b_init [OF this c] have "built cent" .
  from b_negate [OF this, of 5 6 "[]" "fst (negate_cent cent 5 6 [])" "snd (negate_cent cent 5 6 [])"]
  have "built (fst (negate_cent cent 5 6 []))" by simp
  from built_cent_ok [OF this] c show ?thesis by blast
qed

text \<open>
  C38.  The time to live of a set after \<^verbatim>\<open>adjust_ttl\<close>: 0 if the set must not be cached, otherwise
  between the limits of the configuration (for negatively cached sets the lower limit is
  \<^verbatim>\<open>neg_ttl\<close> if that is smaller), unchanged if it was within them; the flag \<^verbatim>\<open>CF_NOCACHE\<close> is
  cleared and nothing else changes.  Adjusting is idempotent except for uncacheable sets.
\<close>

theorem adjust_ttl_bounds:
  assumes "min_ttl g \<le> max_ttl g" "s' = adjust_ttl g s" "lo = (if has (rs_flags s) CF_NEGATIVE then min (neg_ttl_conf g) (min_ttl g) else min_ttl g)"
  shows "\<not> has (rs_flags s') CF_NOCACHE \<and> rs_rrs s' = rs_rrs s \<and> rs_ts s' = rs_ts s \<and> rs_lent s' = rs_lent s \<and>
    (if has (rs_flags s) CF_NOCACHE then rs_ttl s' = 0 \<and> rs_flags s' = rs_flags s AND NOT CF_NOCACHE
     else rs_flags s' = rs_flags s \<and> lo \<le> rs_ttl s' \<and> rs_ttl s' \<le> max_ttl g \<and>
       (lo \<le> rs_ttl s \<and> rs_ttl s \<le> max_ttl g \<longrightarrow> rs_ttl s' = rs_ttl s) \<and> adjust_ttl g s' = s')"
proof (cases "has (rs_flags s) CF_NOCACHE")
  case True
  then show ?thesis using assms(2) by (simp add: adjust_ttl_def has_def and.assoc)
next
  case False
  have lo: "(if has (rs_flags s) CF_NEGATIVE \<and> neg_ttl_conf g < min_ttl g then neg_ttl_conf g else min_ttl g) = lo" "lo \<le> max_ttl g"
    using assms(1,3) by auto
  have "s' = s\<lparr>rs_ttl := max lo (min (rs_ttl s) (max_ttl g))\<rparr>"
    using False assms(2) lo(2) unfolding adjust_ttl_def lo(1) by (auto simp: Let_def)
  then show ?thesis using False lo by (auto simp: adjust_ttl_def Let_def)
qed

theorem adjust_ttl_bounds_witness:
  "rs_ttl (adjust_ttl \<lparr>min_ttl = 120, max_ttl = 604800, neg_ttl_conf = 900, perm_cache = 2048\<rparr>
     \<lparr>rs_lent = None, rs_ttl = 1000000, rs_ts = 0, rs_flags = 0, rs_rrs = []\<rparr>) \<le> 604800"
  using adjust_ttl_bounds [of "\<lparr>min_ttl = 120, max_ttl = 604800, neg_ttl_conf = 900, perm_cache = 2048\<rparr>"
     _ "\<lparr>rs_lent = None, rs_ttl = 1000000, rs_ts = 0, rs_flags = 0, rs_rrs = []\<rparr>", OF _ refl refl]
  by (simp add: has_def)

subsection \<open>Sets by type\<close>

definition idx_of :: "nat \<Rightarrow> nat" where
  "idx_of tp = rrlkuptab ! (tp - T_MIN)"

lemma idx_of_inj:
  assumes "\<not> PDNSD_NOT_CACHED_TYPE a" "\<not> PDNSD_NOT_CACHED_TYPE b" "idx_of a = idx_of b"
  shows "a = b"
proof -
  have "distinct rrlkuptab" "length rrlkuptab = T_NUM" by code_simp+
  with assms show ?thesis by (auto simp: PDNSD_NOT_CACHED_TYPE_def idx_of_def nth_eq_iff_index_eq T_NUM_def T_MIN_def T_MAX_def)
qed

lemma idx_of_less: "\<not> PDNSD_NOT_CACHED_TYPE tp \<Longrightarrow> idx_of tp < NRRTOT"
  by (simp add: PDNSD_NOT_CACHED_TYPE_def idx_of_def)

lemma getrrset_idx: "\<not> PDNSD_NOT_CACHED_TYPE tp \<Longrightarrow> getrrset x tp = RRARR_INDEX_TESTEXT x (idx_of tp)"
  using idx_of_less [of tp] by (intro getrrset_index [folded idx_of_def]) (auto simp: PDNSD_NOT_CACHED_TYPE_def rr_consts)

lemma getrrset_uncached: "PDNSD_NOT_CACHED_TYPE tp \<Longrightarrow> getrrset c tp = None"
  by (auto simp: getrrset_def getrrset_eff_def PDNSD_NOT_CACHED_TYPE_def rr_consts Let_def split: if_splits)

end
