(* ===== verification/RRList.thy ===== *)
theory RRList
  imports Cent "HOL-Library.Multiset"
begin

text \<open>
  The list \<^verbatim>\<open>rrset_l\<close> of record sets in order of age (\<^verbatim>\<open>cache.c\<close>): insertion from the back,
  merging, and the merge sort with a fixed array of partial results.  The function \<open>ts\<close> gives the time
  stamp that \<^verbatim>\<open>get_rrlent_ts\<close> reads through a node.  The second part treats the links of the nodes
  themselves: insertion and removal on the doubly linked representation implement the operations on
  lists.
\<close>

subsection \<open>Operations on the list\<close>

text \<open>The search of \<^verbatim>\<open>insert_rrl\<close> runs from the tail, so the list is given in reverse.\<close>

primrec insert_back :: "('a \<Rightarrow> int) \<Rightarrow> 'a \<Rightarrow> 'a list \<Rightarrow> 'a list" where
  "insert_back ts ne [] = [ne]"
| "insert_back ts ne (le # prev) = (if ts ne \<ge> ts le then ne # le # prev else le # insert_back ts ne prev)"

definition rrl_insert :: "bool \<Rightarrow> ('a \<Rightarrow> int) \<Rightarrow> 'a \<Rightarrow> 'a list \<Rightarrow> 'a list" where
  "rrl_insert sorting ts ne l = (if sorting then rev (insert_back ts ne (rev l)) else l @ [ne])"

fun listmerge :: "('a \<Rightarrow> int) \<Rightarrow> 'a list \<Rightarrow> 'a list \<Rightarrow> 'a list" where
  "listmerge ts [] q = q"
| "listmerge ts p [] = p"
| "listmerge ts (x # p) (y # q) =
     (if ts x \<le> ts y then x # listmerge ts p (y # q) else y # listmerge ts (x # p) q)"

definition NTMPSORT :: nat where
  "NTMPSORT = 32"

text \<open>
  The array \<^verbatim>\<open>tmp\<close> up to \<^verbatim>\<open>fill\<close>, with the empty list for a null pointer.  \<open>sort_put\<close> is the loop
  over \<^verbatim>\<open>counter\<close>; \<open>n\<close> is the index of \<^verbatim>\<open>counter\<close>.  The assertion fails if \<open>n\<close> is the size of
  the array.
\<close>

primrec sort_put :: "('a \<Rightarrow> int) \<Rightarrow> nat \<Rightarrow> 'a list list \<Rightarrow> 'a list \<Rightarrow> 'a list list option" where
  "sort_put ts n [] carry = (if n = NTMPSORT then None else Some [carry])"
| "sort_put ts n (c # cs) carry = (if c = [] then Some (carry # cs)
     else do { cs' \<leftarrow> sort_put ts (n + 1) cs (listmerge ts c carry); Some ([] # cs') })"

primrec sort_fill :: "('a \<Rightarrow> int) \<Rightarrow> 'a list \<Rightarrow> 'a list list \<Rightarrow> 'a list list option" where
  "sort_fill ts [] tmp = Some tmp"
| "sort_fill ts (x # rem) tmp = do { tmp \<leftarrow> sort_put ts 0 tmp [x]; sort_fill ts rem tmp }"

primrec sort_collect :: "('a \<Rightarrow> int) \<Rightarrow> 'a list list \<Rightarrow> 'a list \<Rightarrow> 'a list" where
  "sort_collect ts [] carry = carry"
| "sort_collect ts (c # cs) carry = sort_collect ts cs (listmerge ts c carry)"

definition sort_rrl :: "('a \<Rightarrow> int) \<Rightarrow> 'a list \<Rightarrow> 'a list option" where
  "sort_rrl ts l = (if length l < 2 then Some l
     else do { tmp \<leftarrow> sort_fill ts l []; Some (sort_collect ts (tl tmp) (hd tmp)) })"

text \<open>
  The links of the nodes: nodes are named by their addresses, \<^verbatim>\<open>rrset_l\<close> and \<^verbatim>\<open>rrset_l_tail\<close> are
  the head and the tail.
\<close>

record rrl_links =
  l_next :: "nat \<Rightarrow> nat option"
  l_prev :: "nat \<Rightarrow> nat option"
  l_head :: "nat option"
  l_tail :: "nat option"

definition set_next :: "nat \<Rightarrow> nat option \<Rightarrow> rrl_links \<Rightarrow> rrl_links" where
  "set_next le v s = s\<lparr>l_next := (l_next s)(le := v)\<rparr>"

definition set_prev :: "nat \<Rightarrow> nat option \<Rightarrow> rrl_links \<Rightarrow> rrl_links" where
  "set_prev le v s = s\<lparr>l_prev := (l_prev s)(le := v)\<rparr>"

text \<open>The loop from the tail: the first node met that is not newer than \<open>t\<close>.\<close>

partial_function (option) rrl_search :: "(nat \<Rightarrow> int) \<Rightarrow> int \<Rightarrow> rrl_links \<Rightarrow> nat option \<Rightarrow> nat option option" where
  "rrl_search ts t s le = (if le = None then Some None
     else if t \<ge> ts (the le) then Some le else rrl_search ts t s (l_prev s (the le)))"

declare rrl_search.simps [code]

text \<open>The three ways of linking the new node: at the start, after \<open>le\<close>, at the end.\<close>

definition link_first :: "nat \<Rightarrow> rrl_links \<Rightarrow> rrl_links" where
  "link_first ne s =
     (let s = set_next ne (l_head s) s;
          s = (case l_head s of Some h \<Rightarrow> set_prev h (Some ne) s | None \<Rightarrow> s\<lparr>l_tail := Some ne\<rparr>)
      in s\<lparr>l_head := Some ne\<rparr>)"

definition link_after :: "nat \<Rightarrow> nat \<Rightarrow> rrl_links \<Rightarrow> rrl_links" where
  "link_after le ne s =
     (let s = set_next ne (l_next s le) s;
          s = set_prev ne (Some le) s;
          s = (case l_next s le of Some n \<Rightarrow> set_prev n (Some ne) s | None \<Rightarrow> s\<lparr>l_tail := Some ne\<rparr>)
      in set_next le (Some ne) s)"

definition link_last :: "nat \<Rightarrow> rrl_links \<Rightarrow> rrl_links" where
  "link_last ne s =
     (let s = set_prev ne (l_tail s) s;
          s = (case l_tail s of Some t \<Rightarrow> set_next t (Some ne) s | None \<Rightarrow> s\<lparr>l_head := Some ne\<rparr>)
      in s\<lparr>l_tail := Some ne\<rparr>)"

definition insert_links :: "bool \<Rightarrow> (nat \<Rightarrow> int) \<Rightarrow> nat \<Rightarrow> rrl_links \<Rightarrow> rrl_links option" where
  "insert_links sorting ts ne s =
     (let s = set_prev ne None (set_next ne None s) in
      if sorting then do {
        r \<leftarrow> rrl_search ts (ts ne) s (l_tail s);
        Some (case r of None \<Rightarrow> link_first ne s | Some le \<Rightarrow> link_after le ne s) }
      else Some (link_last ne s))"

definition remove_links :: "nat \<Rightarrow> rrl_links \<Rightarrow> rrl_links" where
  "remove_links le s =
     (let next = l_next s le; prev = l_prev s le;
          s = (case next of Some n \<Rightarrow> set_prev n prev s | None \<Rightarrow> s\<lparr>l_tail := prev\<rparr>)
      in (case prev of Some p \<Rightarrow> set_next p next s | None \<Rightarrow> s\<lparr>l_head := next\<rparr>))"

text \<open>The loop of \<^verbatim>\<open>sort_rrl\<close> that restores the backward links.\<close>

partial_function (option) restore_prev :: "nat option \<Rightarrow> nat option \<Rightarrow> rrl_links \<Rightarrow> rrl_links option" where
  "restore_prev p q s = (if p = None then Some (s\<lparr>l_tail := q\<rparr>)
     else restore_prev (l_next s (the p)) p (set_prev (the p) q s))"

declare restore_prev.simps [code]

subsection \<open>Sorting\<close>

lemma insert_back_mset: "mset (insert_back ts ne l) = add_mset ne (mset l)"
  by (induction l) auto

lemma insert_back_split: "\<exists>b a. l = b @ a \<and> insert_back ts ne l = b @ ne # a \<and>
    (\<forall>x\<in>set b. ts ne < ts x) \<and> (a \<noteq> [] \<longrightarrow> ts (hd a) \<le> ts ne)"
proof (induction l)
  case (Cons x l)
  then obtain b a where i: "l = b @ a" "insert_back ts ne l = b @ ne # a" "\<forall>x\<in>set b. ts ne < ts x"
    "a \<noteq> [] \<longrightarrow> ts (hd a) \<le> ts ne" by blast
  show ?case
  proof (cases "ts ne \<ge> ts x")
    case True
    then show ?thesis by (intro exI [of _ "[]"] exI [of _ "x # l"]) simp
  next
    case False
    with i show ?thesis by (intro exI [of _ "x # b"] exI [of _ a]) simp
  qed
qed simp

text \<open>The new node goes behind every node that is not newer and, if the list is sorted, before the others.\<close>

lemma rrl_insert_split:
  "\<exists>a b. l = a @ b \<and> rrl_insert sorting ts ne l = a @ ne # b \<and>
     (sorting \<longrightarrow> (\<forall>x\<in>set b. ts ne < ts x) \<and> (a \<noteq> [] \<longrightarrow> ts (last a) \<le> ts ne)) \<and> (\<not> sorting \<longrightarrow> b = [])"
proof (cases sorting)
  case True
  from insert_back_split [of "rev l" ts ne] obtain b a where
    "rev l = b @ a" "insert_back ts ne (rev l) = b @ ne # a" "\<forall>x\<in>set b. ts ne < ts x" "a \<noteq> [] \<longrightarrow> ts (hd a) \<le> ts ne" by blast
  moreover from this(1) have "l = rev a @ rev b" by (metis rev_append rev_rev_ident)
  ultimately show ?thesis using True
    by (intro exI [of _ "rev a"] exI [of _ "rev b"]) (simp add: rrl_insert_def last_rev)
qed (simp add: rrl_insert_def)

lemma sorted_insert_mid:
  "sorted (map ts (a @ b)) \<Longrightarrow> (a \<noteq> [] \<longrightarrow> ts (last a) \<le> ts ne) \<Longrightarrow> (\<forall>x\<in>set b. ts ne < ts x) \<Longrightarrow>
   sorted (map ts (a @ (ne :: 'a) # b))" for ts :: "'a \<Rightarrow> int"
proof (induction a)
  case (Cons x a)
  show ?case
  proof (cases a)
    case Nil
    with Cons.prems show ?thesis by force
  next
    case (Cons y ys)
    with Cons.prems Cons.IH have "sorted (map ts (a @ ne # b))" by simp
    moreover have "ts x \<le> ts ne"
    proof -
      have "ts x \<le> ts (last a)" using Cons.prems(1) Cons by simp
      moreover have "ts (last a) \<le> ts ne" using Cons.prems(2) Cons by simp
      ultimately show ?thesis by simp
    qed
    ultimately show ?thesis using Cons.prems(1) by auto
  qed
qed force

lemma rrl_insert_sorted: "sorted (map ts l) \<Longrightarrow> sorted (map ts (rrl_insert True ts ne l))"
proof -
  assume s: "sorted (map ts l)"
  from rrl_insert_split [of l True ts ne] obtain a b where ab: "l = a @ b" "rrl_insert True ts ne l = a @ ne # b"
    "\<forall>x\<in>set b. ts ne < ts x" "a \<noteq> [] \<longrightarrow> ts (last a) \<le> ts ne" by auto
  show ?thesis unfolding ab(2) by (rule sorted_insert_mid [OF _ ab(4,3)]) (use s ab(1) in simp)
qed

lemma listmerge_Nil [simp]: "listmerge ts p [] = p"
  by (cases p) auto

lemma listmerge_set [simp]: "set (listmerge ts p q) = set p \<union> set q"
  by (induction ts p q rule: listmerge.induct) auto

lemma listmerge_mset: "mset (listmerge ts p q) = mset p + mset q"
  by (induction ts p q rule: listmerge.induct) auto

lemma listmerge_sorted: "sorted (map ts p) \<Longrightarrow> sorted (map ts q) \<Longrightarrow> sorted (map ts (listmerge ts p q))"
  by (induction ts p q rule: listmerge.induct) force+

lemma listmerge_filter:
  "sorted (map ts p) \<Longrightarrow> sorted (map ts q) \<Longrightarrow>
   filter (\<lambda>x. ts x = t) (listmerge ts p q) = filter (\<lambda>x. ts x = t) p @ filter (\<lambda>x. ts x = t) q"
proof (induction ts p q rule: listmerge.induct)
  case (3 ts x p y q)
  show ?case
  proof (cases "ts x \<le> ts y")
    case True
    with 3 show ?thesis by simp
  next
    case False
    have "ts y = t \<Longrightarrow> filter (\<lambda>z. ts z = t) (x # p) = []" using False "3.prems"(1) by (force simp: filter_empty_conv)
    then show ?thesis using "3.IH"(2) [OF False "3.prems"(1)] "3.prems"(2) False by (cases "ts y = t") simp_all
  qed
qed simp_all

lemma listmerge_sort_key: "listmerge ts (sort_key ts xs) (sort_key ts ys) = sort_key ts (xs @ ys)"
proof (rule properties_for_sort_key [symmetric])
  show "mset (listmerge ts (sort_key ts xs) (sort_key ts ys)) = mset (xs @ ys)" by (simp add: listmerge_mset)
  show "sorted (map ts (listmerge ts (sort_key ts xs) (sort_key ts ys)))" by (simp add: listmerge_sorted)
  show "filter (\<lambda>x. ts k = ts x) (listmerge ts (sort_key ts xs) (sort_key ts ys)) = filter (\<lambda>x. ts k = ts x) (xs @ ys)"
    if "k \<in> set (listmerge ts (sort_key ts xs) (sort_key ts ys))" for k
    using listmerge_filter [of ts "sort_key ts xs" "sort_key ts ys" "ts k"] by (simp add: eq_commute [of "ts k"] sort_key_stable)
qed

text \<open>
  The invariant of the array: slot \<open>i\<close> is empty or holds a sorted list of length \<open>2\<^sup>i\<close>, and the
  slots, read from the last to the first, hold the part of the list that has been processed.
\<close>

primrec segs_ok :: "nat \<Rightarrow> 'a list list \<Rightarrow> bool" where
  "segs_ok n [] \<longleftrightarrow> True"
| "segs_ok n (s # ss) \<longleftrightarrow> (s = [] \<or> length s = 2 ^ n) \<and> segs_ok (Suc n) ss"

lemma segs_bound: "segs_ok n segs \<Longrightarrow> length (concat segs) + 2 ^ n \<le> 2 ^ (n + length segs)"
proof (induction segs arbitrary: n)
  case (Cons s ss)
  have "length (concat ss) + 2 ^ Suc n \<le> 2 ^ (Suc n + length ss)" using Cons.IH [of "Suc n"] Cons.prems by simp
  with Cons.prems show ?case by auto
qed simp

lemma sort_put_spec:
  assumes "segs_ok n segs" "n + length segs \<le> NTMPSORT" "length s = 2 ^ n"
  shows "(case sort_put ts n (map (sort_key ts) segs) (sort_key ts s) of
      None \<Rightarrow> length (concat segs) + 2 ^ n = 2 ^ NTMPSORT
    | Some cs \<Rightarrow> \<exists>segs'. cs = map (sort_key ts) segs' \<and> segs_ok n segs' \<and> n + length segs' \<le> NTMPSORT \<and>
        concat (rev segs') = concat (rev segs) @ s)"
  using assms
proof (induction segs arbitrary: n s)
  case Nil
  then show ?case by (auto intro!: exI [of _ "[s]"])
next
  case (Cons c ss)
  have e: "sort_key ts c = [] \<longleftrightarrow> c = []" by (metis length_0_conv length_sort)
  show ?case
  proof (cases "c = []")
    case True
    with Cons.prems show ?thesis by (auto intro!: exI [of _ "s # ss"])
  next
    case False
    with Cons.prems have l: "length (c @ s) = 2 ^ Suc n" "segs_ok (Suc n) ss" "Suc n + length ss \<le> NTMPSORT" by auto
    from Cons.IH [OF l(2,3,1)] show ?thesis
    proof (cases "sort_put ts (Suc n) (map (sort_key ts) ss) (sort_key ts (c @ s))")
      case None
      with Cons.IH [OF l(2,3,1)] False Cons.prems(1) e show ?thesis by (simp add: listmerge_sort_key)
    next
      case (Some cs)
      with Cons.IH [OF l(2,3,1)] obtain segs' where "cs = map (sort_key ts) segs'" "segs_ok (Suc n) segs'"
        "Suc n + length segs' \<le> NTMPSORT" "concat (rev segs') = concat (rev ss) @ c @ s" by auto
      then show ?thesis using Some False e by (auto simp: listmerge_sort_key intro!: exI [of _ "[] # segs'"])
    qed
  qed
qed

lemma concat_rev_length: "length (concat (rev xs)) = length (concat xs)"
  by (induction xs) auto

lemma sort_fill_spec:
  assumes "segs_ok 0 segs" "length segs \<le> NTMPSORT"
  shows "(case sort_fill ts l (map (sort_key ts) segs) of
      None \<Rightarrow> 2 ^ NTMPSORT \<le> length (concat segs) + length l
    | Some cs \<Rightarrow> \<exists>segs'. cs = map (sort_key ts) segs' \<and> segs_ok 0 segs' \<and> length segs' \<le> NTMPSORT \<and>
        concat (rev segs') = concat (rev segs) @ l)"
  using assms
proof (induction l arbitrary: segs)
  case Nil
  then show ?case by auto
next
  case (Cons x l)
  from sort_put_spec [of 0 segs "[x]" ts] Cons.prems show ?case
  proof (cases "sort_put ts 0 (map (sort_key ts) segs) [x]")
    case None
    with sort_put_spec [of 0 segs "[x]" ts] Cons.prems show ?thesis by auto
  next
    case (Some cs)
    with sort_put_spec [of 0 segs "[x]" ts] Cons.prems obtain segs1 where
      s1: "cs = map (sort_key ts) segs1" "segs_ok 0 segs1" "length segs1 \<le> NTMPSORT"
        "concat (rev segs1) = concat (rev segs) @ [x]" by auto
    have "length (concat segs1) = length (concat segs) + 1"
      using arg_cong [OF s1(4), of length] by (simp add: concat_rev_length)
    with Cons.IH [OF s1(2,3)] Some s1(1,4) show ?thesis by (auto split: option.splits)
  qed
qed

lemma sort_collect_spec:
  "sort_collect ts (map (sort_key ts) ss) (sort_key ts s) = sort_key ts (concat (rev ss) @ s)"
  by (induction ss arbitrary: s) (simp_all add: listmerge_sort_key)

lemma sort_rrl_eq: "sort_rrl ts l = (if length l < 2 ^ NTMPSORT then Some (sort_key ts l) else None)"
proof (cases "length l < 2")
  case True
  then have "sort_key ts l = l" by (cases l rule: remdups_adj.cases) auto
  moreover have "length l < 2 ^ NTMPSORT" using True less_le_trans [of "length l" 2 "2 ^ NTMPSORT"] by (simp add: NTMPSORT_def)
  ultimately show ?thesis using True by (simp add: sort_rrl_def)
next
  case False
  from sort_fill_spec [of "[]" l ts] show ?thesis
  proof (cases "sort_fill ts l []")
    case None
    with sort_fill_spec [of "[]" l ts] have "2 ^ NTMPSORT \<le> length l" by simp
    with None False show ?thesis by (simp add: sort_rrl_def)
  next
    case (Some cs)
    with sort_fill_spec [of "[]" l ts] obtain segs where
      s: "cs = map (sort_key ts) segs" "segs_ok 0 segs" "length segs \<le> NTMPSORT" "concat (rev segs) = l" by auto
    with False obtain s0 ss where ss: "segs = s0 # ss" by (cases segs) auto
    have "length l = length (concat segs)" using s(4) by (metis concat_rev_length)
    then have "length l < 2 ^ length segs" using segs_bound [OF s(2)] by simp
    also have "(2 :: nat) ^ length segs \<le> 2 ^ NTMPSORT" using s(3) by simp
    finally have "length l < 2 ^ NTMPSORT" .
    moreover have "sort_collect ts (tl cs) (hd cs) = sort_key ts l"
      using sort_collect_spec [of ts ss s0] s(1,4) ss by simp
    ultimately show ?thesis using Some False by (simp add: sort_rrl_def)
  qed
qed

text \<open>
  C26.  \<^verbatim>\<open>sort_rrl\<close> sorts the list by time stamp and keeps the order of nodes with the same time stamp.
  The array of 32 partial results is enough exactly for lists of fewer than \<open>2\<^sup>3\<^sup>2\<close> nodes: for
  these the assertion does not fail, for longer ones it does.
\<close>

theorem sort_rrl_correct:
  "sort_rrl ts l = (if length l < 2 ^ 32 then Some (sort_key ts l) else None)"
  using sort_rrl_eq [of ts l] by (simp add: NTMPSORT_def)

subsection \<open>The linked representation\<close>

definition hdo :: "'a list \<Rightarrow> 'a option" where
  "hdo xs = (case xs of [] \<Rightarrow> None | x # _ \<Rightarrow> Some x)"

definition lasto :: "'a list \<Rightarrow> 'a option" where
  "lasto xs = (if xs = [] then None else Some (last xs))"

lemma hdo_simps [simp]: "hdo [] = None" "hdo (x # xs) = Some x"
  by (simp_all add: hdo_def)

lemma lasto_simps [simp]: "lasto [] = None" "lasto (xs @ [x]) = Some x" "lasto (x # xs) = (if xs = [] then Some x else lasto xs)"
  by (simp_all add: lasto_def)

lemma hdo_append: "hdo (xs @ ys) = (if xs = [] then hdo ys else hdo xs)"
  by (cases xs) auto

lemma lasto_append: "lasto (xs @ ys) = (if ys = [] then lasto xs else lasto ys)"
  by (simp add: lasto_def)

lemma hdo_Some: "hdo xs = Some y \<longleftrightarrow> (\<exists>ys. xs = y # ys)"
  by (cases xs) auto

lemma lasto_Some: "lasto xs = Some y \<longleftrightarrow> (\<exists>ys. xs = ys @ [y])"
  by (cases xs rule: rev_cases) auto

text \<open>The links of a segment between the nodes \<open>p\<close> and \<open>n\<close>.\<close>

primrec seg :: "rrl_links \<Rightarrow> nat option \<Rightarrow> nat list \<Rightarrow> nat option \<Rightarrow> bool" where
  "seg s p [] n \<longleftrightarrow> True"
| "seg s p (x # xs) n \<longleftrightarrow> l_prev s x = p \<and> l_next s x = (if xs = [] then n else hdo xs) \<and> seg s (Some x) xs n"

definition rep :: "rrl_links \<Rightarrow> nat list \<Rightarrow> bool" where
  "rep s xs \<longleftrightarrow> distinct xs \<and> l_head s = hdo xs \<and> l_tail s = lasto xs \<and> seg s None xs None"

lemma seg_append: "seg s p (xs @ ys) n \<longleftrightarrow>
    seg s p xs (if ys = [] then n else hdo ys) \<and> seg s (if xs = [] then p else lasto xs) ys n"
  by (induction xs arbitrary: p) (auto simp: hdo_append)

lemma seg_cong: "(\<And>x. x \<in> set xs \<Longrightarrow> l_next s x = l_next s' x \<and> l_prev s x = l_prev s' x) \<Longrightarrow> seg s p xs n = seg s' p xs n"
  by (induction xs arbitrary: p) auto

lemma seg_set_other [simp]:
  "x \<notin> set xs \<Longrightarrow> seg (set_next x v s) p xs n = seg s p xs n"
  "x \<notin> set xs \<Longrightarrow> seg (set_prev x v s) p xs n = seg s p xs n"
  "seg (s\<lparr>l_head := v\<rparr>) p xs n = seg s p xs n" "seg (s\<lparr>l_tail := v\<rparr>) p xs n = seg s p xs n"
  by (auto intro!: seg_cong simp: set_next_def set_prev_def)

lemma set_simps [simp]:
  "l_head (set_next x v s) = l_head s" "l_tail (set_next x v s) = l_tail s" "l_prev (set_next x v s) = l_prev s"
  "l_head (set_prev x v s) = l_head s" "l_tail (set_prev x v s) = l_tail s" "l_next (set_prev x v s) = l_next s"
  "l_next (set_next x v s) y = (if y = x then v else l_next s y)" "l_prev (set_prev x v s) y = (if y = x then v else l_prev s y)"
  by (auto simp: set_next_def set_prev_def)

text \<open>Changing the last forward link or the first backward link of a segment.\<close>

lemma seg_set_next_last [simp]: "t \<notin> set xs \<Longrightarrow> seg (set_next t v s) p (xs @ [t]) n \<longleftrightarrow> v = n \<and> seg s p (xs @ [t]) (l_next s t)"
  by (auto simp: seg_append)

lemma rrl_search_spec:
  assumes "seg s None xs n"
  shows "rrl_search ts t s (lasto xs) = Some (hdo (dropWhile (\<lambda>x. t < ts x) (rev xs)))"
  using assms
proof (induction xs arbitrary: n rule: rev_induct)
  case Nil
  then show ?case by (simp add: rrl_search.simps)
next
  case (snoc x xs)
  then have "l_prev s x = lasto xs" "seg s None xs (Some x)" by (auto simp: seg_append lasto_def split: if_splits)
  with snoc.IH show ?case by (subst rrl_search.simps) auto
qed

lemma insert_back_dropWhile:
  "insert_back ts ne l = takeWhile (\<lambda>x. ts ne < ts x) l @ ne # dropWhile (\<lambda>x. ts ne < ts x) l"
  by (induction l) auto

text \<open>Linking a node between two parts of the list.\<close>

lemma rep_link_first: "rep s xs \<Longrightarrow> ne \<notin> set xs \<Longrightarrow> l_prev s ne = None \<Longrightarrow> rep (link_first ne s) (ne # xs)"
  by (cases xs) (auto simp: rep_def link_first_def Let_def)

lemma rep_link_last: "rep s xs \<Longrightarrow> ne \<notin> set xs \<Longrightarrow> l_next s ne = None \<Longrightarrow> rep (link_last ne s) (xs @ [ne])"
  by (cases xs rule: rev_cases)
    (auto simp: rep_def link_last_def Let_def seg_append lasto_append hdo_append)

lemma rep_link_after:
  assumes "rep s (as @ le # bs)" "ne \<notin> set (as @ le # bs)"
  shows "rep (link_after le ne s) (as @ le # ne # bs)"
proof (cases bs)
  case Nil
  with assms show ?thesis
    by (auto simp: rep_def link_after_def Let_def seg_append lasto_append hdo_append)
next
  case (Cons b bs')
  with assms show ?thesis
    by (auto simp: rep_def link_after_def Let_def seg_append lasto_append hdo_append)
qed

lemma rep_remove_links:
  assumes "rep s (as @ le # bs)"
  shows "rep (remove_links le s) (as @ bs)"
proof (cases bs)
  case Nil
  with assms show ?thesis
    by (cases as rule: rev_cases) (auto simp: rep_def remove_links_def Let_def seg_append lasto_append hdo_append)
next
  case (Cons b bs')
  with assms show ?thesis
    by (cases as rule: rev_cases) (auto simp: rep_def remove_links_def Let_def seg_append lasto_append hdo_append)
qed

lemma rep_fresh: "rep s xs \<Longrightarrow> ne \<notin> set xs \<Longrightarrow> rep (set_prev ne u (set_next ne v s)) xs"
  by (simp add: rep_def)

lemma insert_links_ok:
  assumes "rep s xs" "ne \<notin> set xs"
  shows "\<exists>s'. insert_links sorting ts ne s = Some s' \<and> rep s' (rrl_insert sorting ts ne xs)"
proof -
  let ?s = "set_prev ne None (set_next ne None s)"
  let ?P = "\<lambda>x. ts ne < ts x"
  have r: "rep ?s xs" by (rule rep_fresh [OF assms])
  have f: "l_next ?s ne = None" "l_prev ?s ne = None" by simp_all
  show ?thesis
  proof (cases sorting)
    case False
    with rep_link_last [OF r assms(2) f(1)] show ?thesis by (simp add: insert_links_def rrl_insert_def Let_def)
  next
    case True
    have xs: "xs = rev (dropWhile ?P (rev xs)) @ rev (takeWhile ?P (rev xs))"
      by (metis rev_append rev_rev_ident takeWhile_dropWhile_id)
    have se: "rrl_search ts (ts ne) ?s (l_tail ?s) = Some (hdo (dropWhile ?P (rev xs)))"
      using r rrl_search_spec [of ?s xs None ts "ts ne"] by (simp add: rep_def)
    show ?thesis
    proof (cases "dropWhile ?P (rev xs)")
      case Nil
      with xs have "rrl_insert sorting ts ne xs = ne # xs"
        using True unfolding rrl_insert_def insert_back_dropWhile Nil by simp
      with rep_link_first [OF r assms(2) f(2)] True se Nil show ?thesis
        by (simp add: insert_links_def Let_def)
    next
      case (Cons le as)
      with xs have x: "xs = rev as @ le # rev (takeWhile ?P (rev xs))" by simp
      have "rep (link_after le ne ?s) (rev as @ le # ne # rev (takeWhile ?P (rev xs)))"
        by (rule rep_link_after) (use r assms(2) x in \<open>metis\<close>)+
      with True se Cons show ?thesis
        by (simp add: insert_links_def rrl_insert_def insert_back_dropWhile Let_def)
    qed
  qed
qed

text \<open>
  After the merge sort only the forward links are right; the last loop restores the others.
\<close>

primrec fwd :: "rrl_links \<Rightarrow> nat list \<Rightarrow> bool" where
  "fwd s [] \<longleftrightarrow> True"
| "fwd s (x # xs) \<longleftrightarrow> l_next s x = hdo xs \<and> fwd s xs"

lemma fwd_set_prev [simp]: "fwd (set_prev x v s) xs = fwd s xs"
  by (induction xs) auto

lemma restore_prev_seg:
  assumes "fwd s xs" "distinct xs"
  shows "\<exists>s'. restore_prev (hdo xs) q s = Some s' \<and> seg s' q xs None \<and> l_head s' = l_head s \<and>
    l_tail s' = (if xs = [] then q else lasto xs) \<and> (\<forall>y. y \<notin> set xs \<longrightarrow> l_prev s' y = l_prev s y) \<and> l_next s' = l_next s"
  using assms
proof (induction xs arbitrary: q s)
  case Nil
  then show ?case by (simp add: restore_prev.simps)
next
  case (Cons x xs)
  have n: "restore_prev (hdo (x # xs)) q s = restore_prev (hdo xs) (Some x) (set_prev x q s)"
    using Cons.prems(1) by (subst restore_prev.simps) simp
  from Cons.IH [of "set_prev x q s" "Some x"] Cons.prems obtain s' where
    "restore_prev (hdo xs) (Some x) (set_prev x q s) = Some s'" "seg s' (Some x) xs None" "l_head s' = l_head s"
    "l_tail s' = (if xs = [] then Some x else lasto xs)" "\<forall>y. y \<notin> set xs \<longrightarrow> l_prev s' y = l_prev (set_prev x q s) y"
    "l_next s' = l_next s" by auto
  with Cons.prems show ?case unfolding n by (cases xs) auto
qed

text \<open>
  The interface that the cache relies on: a representation of a list of nodes into which fresh nodes
  are inserted and from which any node is removed.
\<close>

datatype rrl_op = Ins nat | Del nat

fun list_op :: "(nat \<Rightarrow> nat list \<Rightarrow> nat list) \<Rightarrow> rrl_op \<Rightarrow> nat list \<Rightarrow> nat list option" where
  "list_op place (Ins ne) xs = (if ne \<in> set xs then None else Some (place ne xs))"
| "list_op place (Del le) xs = (if le \<in> set xs then Some (filter (\<lambda>x. x \<noteq> le) xs) else None)"

fun state_op :: "(nat \<Rightarrow> 's \<Rightarrow> 's option) \<Rightarrow> (nat \<Rightarrow> 's \<Rightarrow> 's) \<Rightarrow> rrl_op \<Rightarrow> 's \<Rightarrow> 's option" where
  "state_op ins del (Ins ne) s = ins ne s"
| "state_op ins del (Del le) s = Some (del le s)"

definition run_ops :: "('c \<Rightarrow> 's \<Rightarrow> 's option) \<Rightarrow> 'c list \<Rightarrow> 's \<Rightarrow> 's option" where
  "run_ops f cs s = foldl (\<lambda>r c. Option.bind r (f c)) (Some s) cs"

lemma run_ops_simps [simp]: "run_ops f [] s = Some s" "run_ops f (c # cs) s = Option.bind (f c s) (run_ops f cs)"
proof -
  have "foldl (\<lambda>r c. Option.bind r (f c)) None cs = None" by (induction cs) auto
  then show "run_ops f [] s = Some s" "run_ops f (c # cs) s = Option.bind (f c s) (run_ops f cs)"
    by (cases "f c s"; simp add: run_ops_def)+
qed

locale node_list =
  fixes rep :: "'s \<Rightarrow> nat list \<Rightarrow> bool"
    and ins :: "nat \<Rightarrow> 's \<Rightarrow> 's option"
    and del :: "nat \<Rightarrow> 's \<Rightarrow> 's"
    and place :: "nat \<Rightarrow> nat list \<Rightarrow> nat list"
  assumes insert_law: "rep s xs \<Longrightarrow> ne \<notin> set xs \<Longrightarrow> \<exists>s'. ins ne s = Some s' \<and> rep s' (place ne xs)"
    and remove_law: "rep s xs \<Longrightarrow> le \<in> set xs \<Longrightarrow> rep (del le s) (filter (\<lambda>x. x \<noteq> le) xs)"
begin

lemma op_refines: "rep s xs \<Longrightarrow> list_op place c xs = Some ys \<Longrightarrow> \<exists>s'. state_op ins del c s = Some s' \<and> rep s' ys"
  by (cases c) (use insert_law remove_law in \<open>auto split: if_splits\<close>)

lemma run_refines:
  "rep s xs \<Longrightarrow> run_ops (list_op place) cs xs = Some ys \<Longrightarrow>
   \<exists>s'. run_ops (state_op ins del) cs s = Some s' \<and> rep s' ys"
proof (induction cs arbitrary: s xs)
  case (Cons c cs)
  from Cons.prems(2) obtain zs where zs: "list_op place c xs = Some zs" "run_ops (list_op place) cs zs = Some ys"
    by (auto simp: bind_eq_Some_conv)
  from op_refines [OF Cons.prems(1) zs(1)] obtain s' where s': "state_op ins del c s = Some s'" "rep s' zs" by blast
  from Cons.IH [OF s'(2) zs(2)] s'(1) show ?case by simp
qed simp

end

lemma filter_distinct_mid: "distinct (as @ x # bs) \<Longrightarrow> filter (\<lambda>y. y \<noteq> x) (as @ x # bs) = as @ bs"
  by (auto simp: filter_id_conv intro!: arg_cong2 [of _ _ _ _ append])

lemma remove_links_ok: "rep s xs \<Longrightarrow> le \<in> set xs \<Longrightarrow> rep (remove_links le s) (filter (\<lambda>x. x \<noteq> le) xs)"
proof -
  assume r: "rep s xs" and "le \<in> set xs"
  then obtain as bs where xs: "xs = as @ le # bs" by (meson split_list)
  with r have "distinct (as @ le # bs)" by (simp add: rep_def)
  from rep_remove_links [OF r [unfolded xs]] show ?thesis unfolding xs filter_distinct_mid [OF \<open>distinct _\<close>] .
qed

interpretation rrl: node_list rep "insert_links sorting ts" remove_links "rrl_insert sorting ts" for sorting ts
  by unfold_locales (use insert_links_ok remove_links_ok in blast)+

definition empty_links :: "rrl_links" where
  "empty_links = \<lparr>l_next = \<lambda>_. None, l_prev = \<lambda>_. None, l_head = None, l_tail = None\<rparr>"

lemma rep_empty: "rep empty_links []"
  by (simp add: rep_def empty_links_def)

lemma sorted_filter_op: "list_op (rrl_insert True ts) c xs = Some ys \<Longrightarrow> sorted (map ts xs) \<Longrightarrow> sorted (map ts ys)"
  by (cases c) (auto simp: rrl_insert_sorted sorted_filter split: if_splits)

lemma sorted_run: "run_ops (list_op (rrl_insert True ts)) cs xs = Some ys \<Longrightarrow> sorted (map ts xs) \<Longrightarrow> sorted (map ts ys)"
proof (induction cs arbitrary: xs)
  case (Cons c cs)
  then show ?case by (auto simp: bind_eq_Some_conv dest: sorted_filter_op)
qed simp

text \<open>
  C27.  The links of the nodes implement the list: starting from the empty list, after any sequence of
  insertions of new nodes and removals of present ones, with the search for the place ending each time,
  following the links forward from \<^verbatim>\<open>rrset_l\<close> and backward from \<^verbatim>\<open>rrset_l_tail\<close> both give the nodes
  of the list of the abstract operations; and while the time stamps do not change, the list is sorted
  from the oldest to the newest node.
\<close>

theorem rrl_links_refine:
  assumes "run_ops (list_op (rrl_insert True ts)) cs [] = Some xs"
  shows "sorted (map ts xs) \<and>
    (\<exists>s. run_ops (state_op (insert_links True ts) remove_links) cs empty_links = Some s \<and>
       l_head s = hdo xs \<and> l_tail s = lasto xs \<and> distinct xs \<and>
       (\<forall>as x bs. xs = as @ x # bs \<longrightarrow> l_next s x = hdo bs \<and> l_prev s x = lasto as))"
proof -
  from rrl.run_refines [OF rep_empty assms] obtain s where
    s: "run_ops (state_op (insert_links True ts) remove_links) cs empty_links = Some s" "rep s xs" by blast
  have "\<forall>as x bs. xs = as @ x # bs \<longrightarrow> l_next s x = hdo bs \<and> l_prev s x = lasto as"
    using s(2) by (auto simp: rep_def seg_append)
  with s sorted_run [OF assms] show ?thesis by (auto simp: rep_def)
qed

theorem rrl_links_refine_witness:
  "\<exists>s. run_ops (state_op (insert_links True (\<lambda>x. - int x)) remove_links) [Ins 1, Ins 2, Ins 3, Del 2] empty_links = Some s \<and>
     l_head s = Some 3 \<and> l_next s 3 = Some 1 \<and> l_prev s 1 = Some 3"
proof -
  have "run_ops (list_op (rrl_insert True (\<lambda>x. - int x))) [Ins 1, Ins 2, Ins 3, Del 2] [] = Some [3, 1]"
    by (simp add: rrl_insert_def)
  from rrl_links_refine [OF this] obtain s where
    s: "run_ops (state_op (insert_links True (\<lambda>x. - int x)) remove_links) [Ins 1, Ins 2, Ins 3, Del 2] empty_links = Some s"
      "l_head s = hdo [3, 1]" "\<forall>as x bs. [3, 1] = as @ x # bs \<longrightarrow> l_next s x = hdo bs \<and> l_prev s x = lasto as" by blast
  from s(3) [rule_format, of "[]" 3 "[1]"] s(3) [rule_format, of "[3]" 1 "[]"] s(1,2) show ?thesis by simp
qed

text \<open>
  After the merge sort has set the forward links, the last loop of \<^verbatim>\<open>sort_rrl\<close> ends and makes the
  nodes a doubly linked list again.
\<close>

theorem restore_prev_rep:
  assumes "fwd s xs" "distinct xs" "l_head s = hdo xs"
  shows "\<exists>s'. restore_prev (l_head s) None s = Some s' \<and> rep s' xs"
proof -
  from restore_prev_seg [OF assms(1,2), of None] obtain s' where
    "restore_prev (hdo xs) None s = Some s'" "seg s' None xs None" "l_head s' = l_head s"
    "l_tail s' = (if xs = [] then None else lasto xs)" by blast
  with assms show ?thesis by (auto simp: rep_def)
qed

theorem restore_prev_rep_witness:
  "\<exists>s'. restore_prev (Some 1) None \<lparr>l_next = [1 \<mapsto> 2], l_prev = [1 \<mapsto> 5], l_head = Some 1, l_tail = None\<rparr> = Some s' \<and> rep s' [1, 2]"
  using restore_prev_rep [of "\<lparr>l_next = [1 \<mapsto> 2], l_prev = [1 \<mapsto> 5], l_head = Some 1, l_tail = None\<rparr>" "[1, 2]"] by simp

end
