(* ===== verification/Wire.thy ===== *)
theory Wire
  imports Names
begin

text \<open>
  Names inside DNS messages (\<^verbatim>\<open>dns.c\<close>) and the integer macros of \<^verbatim>\<open>dns.h\<close>:
  reading a compressed name (\<^verbatim>\<open>decompress_name\<close>), comparing names from the end
  (\<^verbatim>\<open>domain_match\<close>) and writing a name compressed against those already in the message
  (\<^verbatim>\<open>compress_name\<close>).  The relation \<open>cname\<close> says which name the bytes of a message
  denote; the routines are proved against it, and compression followed by decompression is shown to
  give back the name up to the case of letters.
\<close>

subsection \<open>Integers in network order\<close>

definition GETINT16 :: "byte list \<Rightarrow> nat \<Rightarrow> (16 word \<times> nat) option" where
  "GETINT16 b p = do {
     c0 \<leftarrow> rd b p; c1 \<leftarrow> rd b (p + 1);
     Some (push_bit 8 (ucast c0) OR ucast c1, p + 2) }"

definition GETINT32 :: "byte list \<Rightarrow> nat \<Rightarrow> (32 word \<times> nat) option" where
  "GETINT32 b p = do {
     c0 \<leftarrow> rd b p; c1 \<leftarrow> rd b (p + 1); c2 \<leftarrow> rd b (p + 2); c3 \<leftarrow> rd b (p + 3);
     Some (push_bit 24 (ucast c0) OR push_bit 16 (ucast c1) OR push_bit 8 (ucast c2) OR ucast c3, p + 4) }"

definition PUTINT16 :: "16 word \<Rightarrow> byte list \<Rightarrow> nat \<Rightarrow> (byte list \<times> nat) option" where
  "PUTINT16 s b p = do {
     b \<leftarrow> wr b p (ucast (drop_bit 8 s)); b \<leftarrow> wr b (p + 1) (ucast s);
     Some (b, p + 2) }"

definition PUTINT32 :: "32 word \<Rightarrow> byte list \<Rightarrow> nat \<Rightarrow> (byte list \<times> nat) option" where
  "PUTINT32 l b p = do {
     b \<leftarrow> wr b p (ucast (drop_bit 24 l)); b \<leftarrow> wr b (p + 1) (ucast (drop_bit 16 l));
     b \<leftarrow> wr b (p + 2) (ucast (drop_bit 8 l)); b \<leftarrow> wr b (p + 3) (ucast l);
     Some (b, p + 4) }"

lemma word16_split: "push_bit 8 (ucast (ucast (drop_bit 8 s) :: byte)) OR ucast (ucast s :: byte) = (s :: 16 word)"
  by (rule bit_word_eqI) (auto simp: bit_simps)

lemma word32_split:
  "push_bit 24 (ucast (ucast (drop_bit 24 l) :: byte)) OR push_bit 16 (ucast (ucast (drop_bit 16 l) :: byte)) OR
   push_bit 8 (ucast (ucast (drop_bit 8 l) :: byte)) OR ucast (ucast l :: byte) = (l :: 32 word)"
proof (rule bit_word_eqI)
  fix n assume "n < LENGTH(32)"
  then consider "n < 8" | "8 \<le> n \<and> n < 16" | "16 \<le> n \<and> n < 24" | "24 \<le> n \<and> n < 32" by fastforce
  then show "bit (push_bit 24 (ucast (ucast (drop_bit 24 l) :: byte)) OR push_bit 16 (ucast (ucast (drop_bit 16 l) :: byte)) OR
     push_bit 8 (ucast (ucast (drop_bit 8 l) :: byte)) OR ucast (ucast l :: byte) :: 32 word) n = bit l n"
    by cases (auto simp: bit_simps)
qed

text \<open>
  What \<^verbatim>\<open>PUTINT16\<close> and \<^verbatim>\<open>PUTINT32\<close> store, \<^verbatim>\<open>GETINT16\<close> and \<^verbatim>\<open>GETINT32\<close>
  read back from the same place, for every value, and nothing else of the buffer changes.
\<close>

theorem getint_putint:
  assumes "p + 4 \<le> length b"
  shows "(\<exists>b'. PUTINT16 s b p = Some (b', p + 2) \<and> GETINT16 b' p = Some (s, p + 2) \<and>
      take p b' = take p b \<and> drop (p + 2) b' = drop (p + 2) b) \<and>
    (\<exists>b'. PUTINT32 l b p = Some (b', p + 4) \<and> GETINT32 b' p = Some (l, p + 4) \<and>
      take p b' = take p b \<and> drop (p + 4) b' = drop (p + 4) b)"
  using assms
  by (auto simp: PUTINT16_def GETINT16_def PUTINT32_def GETINT32_def wr_def rd_def nth_list_update
      word16_split word32_split)

theorem getint_putint_witness:
  "\<exists>b'. PUTINT32 0x01020304 [9, 0, 0, 0, 0] 1 = Some (b', 5) \<and> GETINT32 b' 1 = Some (0x01020304, 5)"
  using getint_putint [where p = 1 and b = "[9, 0, 0, 0, 0]" and l = "0x01020304"] by auto

subsection \<open>Return codes\<close>

text \<open>The response codes of \<^verbatim>\<open>dns.h\<close> and the internal codes beside them.\<close>

datatype rc = RC_OK | RC_FORMAT | RC_SERVFAIL | RC_NAMEERR | RC_NOTSUPP | RC_REFUSED | RC_BADVERS
  | RC_NOTCACHED | RC_CACHED | RC_STALE | RC_TCPREFUSED | RC_TRUNC | RC_FATALERR

subsection \<open>Decompression\<close>

text \<open>The offset in a compression pointer with bytes \<open>lb\<close> and \<open>c\<close>.\<close>

definition ptr_offs :: "byte \<Rightarrow> byte \<Rightarrow> nat" where
  "ptr_offs lb c = push_bit 8 (unat lb AND 0x3f) OR unat c"

text \<open>
  The loop after the label \<^verbatim>\<open>jumped\<close>.  The result is the return code, the target buffer
  and \<open>tpos\<close>.  The inner \<^verbatim>\<open>do\<close>-loop copies \<open>lb\<close> bytes.
\<close>

function decompress_jumped :: "byte list \<Rightarrow> nat \<Rightarrow> nat \<Rightarrow> nat \<Rightarrow> byte list \<Rightarrow> nat \<Rightarrow>
    (rc \<times> byte list \<times> nat) option" where
  "decompress_jumped msg msgsz hops lptr tgt tpos = do {
     lb \<leftarrow> rd msg lptr;
     if lb > 0x3f then
       if lb < 0xc0 then Some (RC_FORMAT, tgt, tpos)
       else if lptr + 1 \<ge> msgsz then Some (RC_FORMAT, tgt, tpos)
       else if hops + 1 > 255 then Some (RC_FORMAT, tgt, tpos)
       else do {
         c \<leftarrow> rd msg (lptr + 1);
         if ptr_offs lb c \<ge> msgsz then Some (RC_FORMAT, tgt, tpos)
         else decompress_jumped msg msgsz (hops + 1) (ptr_offs lb c) tgt tpos }
     else do {
       tgt \<leftarrow> wr tgt tpos lb;
       if lb = 0 then Some (RC_OK, tgt, tpos + 1)
       else if lptr + 1 + unat lb \<ge> msgsz then Some (RC_FORMAT, tgt, tpos + 1)
       else if tpos + 1 + unat lb > DNSNAMEBUFSIZE - 1 then Some (RC_FORMAT, tgt, tpos + 1)
       else do {
         s \<leftarrow> rds msg (lptr + 1) (unat lb);
         tgt \<leftarrow> wrs tgt (tpos + 1) s;
         decompress_jumped msg msgsz hops (lptr + 1 + unat lb) tgt (tpos + 1 + unat lb) } } }"
  by pat_completeness auto
termination
  by (relation "measure (\<lambda>(msg, msgsz, hops, lptr, tgt, tpos). (256 - hops) + (256 - tpos))")
    (auto simp: DNSNAMEBUFSIZE_def)

declare decompress_jumped.simps [simp del]

text \<open>The first loop, before any jump; the result carries \<open>newsz\<close> in addition.\<close>

function decompress_direct :: "byte list \<Rightarrow> nat \<Rightarrow> nat \<Rightarrow> nat \<Rightarrow> byte list \<Rightarrow> nat \<Rightarrow>
    (rc \<times> nat \<times> byte list \<times> nat) option" where
  "decompress_direct msg msgsz newsz lptr tgt tpos = do {
     lb \<leftarrow> rd msg lptr;
     if lb > 0x3f then
       if lb < 0xc0 then Some (RC_FORMAT, newsz - 1, tgt, tpos)
       else if newsz - 1 = 0 then Some (RC_TRUNC, newsz - 1, tgt, tpos)
       else if lptr + 1 \<ge> msgsz then Some (RC_FORMAT, newsz - 1, tgt, tpos)
       else do {
         c \<leftarrow> rd msg (lptr + 1);
         if ptr_offs lb c \<ge> msgsz then Some (RC_FORMAT, newsz - 2, tgt, tpos)
         else do {
           (rc, tgt, tpos) \<leftarrow> decompress_jumped msg msgsz 1 (ptr_offs lb c) tgt tpos;
           Some (rc, newsz - 2, tgt, tpos) } }
     else do {
       tgt \<leftarrow> wr tgt tpos lb;
       if lb = 0 then Some (RC_OK, newsz - 1, tgt, tpos + 1)
       else if newsz - 1 \<le> unat lb then Some (RC_TRUNC, newsz - 1, tgt, tpos + 1)
       else if lptr + 1 + unat lb \<ge> msgsz then Some (RC_FORMAT, newsz - 1, tgt, tpos + 1)
       else if tpos + 1 + unat lb > DNSNAMEBUFSIZE - 1 then Some (RC_FORMAT, newsz - 1, tgt, tpos + 1)
       else do {
         s \<leftarrow> rds msg (lptr + 1) (unat lb);
         tgt \<leftarrow> wrs tgt (tpos + 1) s;
         decompress_direct msg msgsz (newsz - 1 - unat lb) (lptr + 1 + unat lb) tgt (tpos + 1 + unat lb) } } }"
  by pat_completeness auto
termination
  by (relation "measure (\<lambda>(msg, msgsz, newsz, lptr, tgt, tpos). 256 - tpos)")
    (auto simp: DNSNAMEBUFSIZE_def)

declare decompress_direct.simps [simp del]

text \<open>
  The whole function: the return code, the advanced source position, the remaining size, the target
  buffer and the length of the name.  On an error \<^verbatim>\<open>*src\<close>, \<^verbatim>\<open>*sz\<close> and \<^verbatim>\<open>*len\<close>
  (here \<open>None\<close>) are left alone.
\<close>

definition decompress_name :: "byte list \<Rightarrow> nat \<Rightarrow> nat \<Rightarrow> nat \<Rightarrow> byte list \<Rightarrow>
    (rc \<times> nat \<times> nat \<times> byte list \<times> nat option) option" where
  "decompress_name msg msgsz src sz tgt =
     (if sz = 0 then Some (RC_TRUNC, src, sz, tgt, None)
      else if src \<ge> msgsz then Some (RC_FORMAT, src, sz, tgt, None)
      else do {
        (rc, newsz, tgt, tpos) \<leftarrow> decompress_direct msg msgsz sz src tgt 0;
        if rc = RC_OK then Some (RC_OK, src + (sz - newsz), newsz, tgt, Some tpos)
        else Some (rc, src, sz, tgt, None) })"

subsection \<open>Comparing names from the end\<close>

text \<open>Collecting the length bytes into an array of 128; a name with more segments fails the assertion.\<close>

function domain_lbs :: "byte list \<Rightarrow> nat \<Rightarrow> byte list \<Rightarrow> (nat \<times> byte list) option" where
  "domain_lbs m i ls = do {
     lb \<leftarrow> rd m i;
     if lb = 0 then Some (i, ls)
     else if \<not> length ls < 128 then None
     else domain_lbs m (i + unat lb + 1) (ls @ [lb]) }"
  by pat_completeness auto
termination by (relation "measure (\<lambda>(m, i, ls). length m - i)") (auto dest: rd_SomeD)

declare domain_lbs.simps [simp del]

text \<open>
  The innermost loop: \<open>Some None\<close> is the jump to \<^verbatim>\<open>mismatch\<close>.  An index that
  would go below zero has no result.
\<close>

primrec domain_match_seg :: "byte list \<Rightarrow> byte list \<Rightarrow> nat \<Rightarrow> nat \<Rightarrow> nat \<Rightarrow> (nat \<times> nat) option option" where
  "domain_match_seg ms md 0 i j = Some (Some (i, j))"
| "domain_match_seg ms md (Suc lb) i j = (if i = 0 \<or> j = 0 then None else do {
     c \<leftarrow> rd ms (i - 1); d \<leftarrow> rd md (j - 1);
     if tolower c \<noteq> tolower d then Some None
     else domain_match_seg ms md lb (i - 1) (j - 1) })"

text \<open>The loop over \<open>k\<close>; \<open>m\<close> is the number of iterations left, so \<open>k + m = n + 1\<close>.\<close>

primrec domain_match_loop :: "byte list \<Rightarrow> byte list \<Rightarrow> byte list \<Rightarrow> byte list \<Rightarrow> nat \<Rightarrow> nat \<Rightarrow> nat \<Rightarrow> nat \<Rightarrow>
    (nat \<times> nat \<times> nat) option" where
  "domain_match_loop ms md ls ld 0 k i j = Some (k - 1, i, j)"
| "domain_match_loop ms md ls ld (Suc m) k i j = do {
     lb \<leftarrow> rd ls (length ls - k); lb' \<leftarrow> rd ld (length ld - k);
     if lb \<noteq> lb' then Some (k - 1, i, j)
     else do {
       r \<leftarrow> domain_match_seg ms md (unat lb) i j;
       case r of None \<Rightarrow> Some (k - 1, i, j)
       | Some (i', j') \<Rightarrow> if i' = 0 \<or> j' = 0 then None
           else domain_match_loop ms md ls ld m (k + 1) (i' - 1) (j' - 1) } }"

text \<open>The result is the number of matching segments and the two offsets of the match.\<close>

definition domain_match :: "byte list \<Rightarrow> byte list \<Rightarrow> (nat \<times> nat \<times> nat) option" where
  "domain_match ms md = do {
     (i, ls) \<leftarrow> domain_lbs ms 0 [];
     (j, ld) \<leftarrow> domain_lbs md 0 [];
     domain_match_loop ms md ls ld (min (length ls) (length ld)) 1 i j }"

subsection \<open>Compression\<close>

record compel_t =
  index :: nat
  compel_s :: "byte list"

text \<open>The search for the longest match; the state is \<open>(longest, lrem, coffs)\<close>.\<close>

primrec compress_search :: "byte list \<Rightarrow> compel_t list \<Rightarrow> nat \<times> nat \<times> nat \<Rightarrow> (nat \<times> nat \<times> nat) option" where
  "compress_search inp [] st = Some st"
| "compress_search inp (ci # cis) st = do {
     (rv, rem, to) \<leftarrow> domain_match inp (compel_s ci);
     compress_search inp cis
       (if rv > fst st \<and> index ci + to \<le> 0x3fff then (rv, rem, index ci + to) else st) }"

text \<open>
  \<^verbatim>\<open>compress_name\<close>: \<open>grow_ok\<close> says whether \<^verbatim>\<open>dlist_grow\<close> finds memory.  The result is
  the returned length, the output buffer and the list of names to compress against; a failed
  \<^verbatim>\<open>dlist_grow\<close> has freed the list.
\<close>

definition compress_name :: "bool \<Rightarrow> byte list \<Rightarrow> byte list \<Rightarrow> nat \<Rightarrow> compel_t list \<Rightarrow>
    (nat \<times> byte list \<times> compel_t list) option" where
  "compress_name grow_ok inp out offs cb = do {
     ilen \<leftarrow> rhnlen inp;
     if \<not> ilen \<le> DNSNAMEBUFSIZE then None
     else do {
       (longest, lrem, coffs) \<leftarrow> compress_search inp cb (0, 0, 0);
       (out, rl, add) \<leftarrow>
         (if longest > 0 then
            if \<not> lrem + 2 \<le> ilen then None
            else do {
              s \<leftarrow> rds inp 0 lrem;
              out \<leftarrow> wrs out 0 s;
              out \<leftarrow> wr out lrem (of_nat (0xc0 OR drop_bit 8 (coffs AND 0x3f00)));
              out \<leftarrow> wr out (lrem + 1) (of_nat (coffs AND 0xff));
              Some (out, lrem + 2, lrem \<noteq> 0) }
          else do {
            s \<leftarrow> rds inp 0 ilen;
            out \<leftarrow> wrs out 0 s;
            Some (out, ilen, True) });
       if add then
         if \<not> grow_ok then Some (0, out, [])
         else do {
           s \<leftarrow> rds inp 0 ilen;
           Some (rl, out, cb @ [\<lparr>index = offs, compel_s = s\<rparr>]) }
       else Some (rl, out, cb) } }"

subsection \<open>What a compressed name denotes\<close>

text \<open>
  \<open>cname m p n h ls\<close>: the bytes of \<open>m\<close> at \<open>p\<close> denote the name \<open>ls\<close>, following \<open>h\<close>
  compression pointers; the name occupies \<open>n\<close> bytes at \<open>p\<close>.
\<close>

inductive cname :: "byte list \<Rightarrow> nat \<Rightarrow> nat \<Rightarrow> nat \<Rightarrow> byte list list \<Rightarrow> bool" for m :: "byte list" where
  cname_end: "rd m p = Some 0 \<Longrightarrow> cname m p 1 0 []"
| cname_lab: "rd m p = Some (of_nat (length l)) \<Longrightarrow> lab63 l \<Longrightarrow> take (length l) (drop (p + 1) m) = l \<Longrightarrow>
    cname m (p + 1 + length l) n h ls \<Longrightarrow> cname m p (1 + length l + n) h (l # ls)"
| cname_ptr: "rd m p = Some lb \<Longrightarrow> 0xc0 \<le> lb \<Longrightarrow> rd m (p + 1) = Some c \<Longrightarrow>
    cname m (ptr_offs lb c) n h ls \<Longrightarrow> cname m p 2 (Suc h) ls"

lemma lab63_byte: "lab63 l \<Longrightarrow> (of_nat (length l) :: byte) \<noteq> 0 \<and> (of_nat (length l) :: byte) \<le> 0x3f"
  by (auto simp: lab63_def byte_of_nat_eq_0 word_le_nat_alt unat_byte_of_nat)

lemma lab63_unat: "lab63 l \<Longrightarrow> unat (of_nat (length l) :: byte) = length l"
  by (simp add: lab63_def unat_byte_of_nat)

lemma cname_in: "cname m p n h ls \<Longrightarrow> p < length m"
  by (erule cname.cases) (auto dest: rd_SomeD)

lemma cname_labs: "cname m p n h ls \<Longrightarrow> list_all lab63 ls"
  by (induction rule: cname.induct) auto

lemma cname_n_pos: "cname m p n h ls \<Longrightarrow> 0 < n"
  by (erule cname.cases) auto

lemma cname_append: "cname m p n h ls \<Longrightarrow> cname (m @ r) p n h ls"
proof (induction rule: cname.induct)
  case (cname_end p)
  then show ?case by (intro cname.cname_end) (simp add: rd_Some nth_append)
next
  case (cname_lab p l n h ls)
  from cname_in [OF cname_lab(4)] cname_lab show ?case
    by (intro cname.cname_lab) (auto dest: rd_SomeD simp: rd_append_left)
next
  case (cname_ptr p lb c n h ls)
  then have "rd (m @ r) p = Some lb" "rd (m @ r) (p + 1) = Some c"
    by (simp_all add: rd_Some nth_append)
  from cname.cname_ptr [OF this(1) cname_ptr(2) this(2) cname_ptr(5)] show ?case .
qed

text \<open>The shape of a name by its first byte.\<close>

lemma cname_0: "rd m p = Some 0 \<Longrightarrow> cname m p n h ls \<longleftrightarrow> n = 1 \<and> h = 0 \<and> ls = []"
proof
  assume "rd m p = Some 0" "cname m p n h ls"
  from this(2,1) show "n = 1 \<and> h = 0 \<and> ls = []" by (cases rule: cname.cases) (auto dest: lab63_byte)
qed (simp add: cname_end [simplified])

lemma cname_lab_iff:
  assumes "rd m p = Some lb" "lb \<noteq> 0" "lb \<le> 0x3f"
  shows "cname m p n h ls \<longleftrightarrow> (\<exists>n' ls'. n = 1 + unat lb + n' \<and>
    ls = take (unat lb) (drop (p + 1) m) # ls' \<and> cname m (p + 1 + unat lb) n' h ls')" (is "_ \<longleftrightarrow> ?R")
proof
  assume "cname m p n h ls"
  then show ?R
  proof (cases rule: cname.cases)
    case (cname_ptr lb' c n' h')
    with assms have False by (unat_arith; simp)
    then show ?thesis ..
  qed (use assms in \<open>auto simp: lab63_unat\<close>)
next
  assume ?R
  then obtain n' ls' where r: "n = 1 + unat lb + n'" "ls = take (unat lb) (drop (p + 1) m) # ls'"
    "cname m (p + 1 + unat lb) n' h ls'" by blast
  let ?l = "take (unat lb) (drop (p + 1) m)"
  from cname_in [OF r(3)] have len: "length ?l = unat lb" by simp
  moreover have "lab63 ?l" using assms(2,3) len unat_gt_0_byte [of lb]
    by (auto simp: lab63_def word_le_nat_alt)
  ultimately show "cname m p n h ls" using cname_lab [of m p ?l n' h ls'] assms(1) r by simp
qed

lemma cname_ptr_iff:
  assumes "rd m p = Some lb" "0xc0 \<le> lb"
  shows "cname m p n h ls \<longleftrightarrow> (\<exists>c n' h'. n = 2 \<and> h = Suc h' \<and> rd m (p + 1) = Some c \<and>
    cname m (ptr_offs lb c) n' h' ls)"
proof -
  have ne: "\<not> (0xc0 :: byte) \<le> 0" "\<And>l. lab63 l \<Longrightarrow> \<not> (0xc0 :: byte) \<le> of_nat (length l)"
    by (auto simp: lab63_def word_le_nat_alt unat_byte_of_nat)
  have "\<exists>c n' h'. n = 2 \<and> h = Suc h' \<and> rd m (p + 1) = Some c \<and> cname m (ptr_offs lb c) n' h' ls"
    if "cname m p n h ls"
    using that assms ne by (cases rule: cname.cases) auto
  moreover have "cname m p n h ls" if "n = 2" "h = Suc h'" "rd m (p + 1) = Some c"
    "cname m (ptr_offs lb c) n' h' ls" for c n' h'
    using cname_ptr [OF assms that(3,4)] that(1,2) by simp
  ultimately show ?thesis by blast
qed

lemma cname_bad:
  assumes "rd m p = Some lb" "0x3f < lb" "lb < 0xc0"
  shows "\<not> cname m p n h ls"
proof
  assume "cname m p n h ls"
  then show False using assms by (cases rule: cname.cases) (auto dest: lab63_byte)
qed

lemma rd_take: "rd (take n b) i = (if i < n then rd b i else None)"
  by (simp add: rd_def)

lemma cname_det: "cname m p n h ls \<Longrightarrow> cname m p n' h' ls' \<Longrightarrow> n = n' \<and> h = h' \<and> ls = ls'"
proof (induction arbitrary: n' h' ls' rule: cname.induct)
  case (cname_end p)
  then show ?case by (simp add: cname_0)
next
  case (cname_lab p l n h ls)
  note b = lab63_byte [OF cname_lab(2)] lab63_unat [OF cname_lab(2)]
  from cname_lab(6) cname_lab(5) show ?case
    unfolding cname_lab_iff [OF cname_lab(1) b(1) [THEN conjunct1] b(1) [THEN conjunct2]] b(2)
    by (metis cname_lab.hyps(3))
next
  case (cname_ptr p lb c n h ls)
  from cname_ptr(6,5,3) show ?case unfolding cname_ptr_iff [OF cname_ptr(1,2)] by auto
qed

text \<open>
  The contract of the loops: the name at \<open>lptr\<close> is appended to the target when it exists within
  the limits on pointers and bytes, and otherwise an error is returned.
\<close>

inductive decoded :: "byte list \<Rightarrow> nat \<Rightarrow> nat \<Rightarrow> byte list \<Rightarrow> nat \<Rightarrow> (rc \<times> byte list \<times> nat) option \<Rightarrow> bool"
  for m where
  decoded_ok: "cname m lptr n h ls \<Longrightarrow> hops + h \<le> 255 \<Longrightarrow> tpos + length (enc ls) \<le> DNSNAMEBUFSIZE \<Longrightarrow>
    length tgt' = DNSNAMEBUFSIZE \<Longrightarrow> take (tpos + length (enc ls)) tgt' = take tpos tgt @ enc ls \<Longrightarrow>
    decoded m hops lptr tgt tpos (Some (RC_OK, tgt', tpos + length (enc ls)))"
| decoded_error: "rc \<noteq> RC_OK \<Longrightarrow> length tgt' = DNSNAMEBUFSIZE \<Longrightarrow>
   (\<And>n h ls. cname m lptr n h ls \<Longrightarrow> hops + h \<le> 255 \<Longrightarrow> \<not> tpos + length (enc ls) \<le> DNSNAMEBUFSIZE) \<Longrightarrow>
   decoded m hops lptr tgt tpos (Some (rc, tgt', tpos'))"

lemma decoded_end:
  assumes "rd m lptr = Some 0" "tpos < DNSNAMEBUFSIZE" "length tgt = DNSNAMEBUFSIZE" "hops \<le> 255"
  shows "decoded m hops lptr tgt tpos (Some (RC_OK, tgt[tpos := 0], tpos + 1))"
  using decoded_ok [OF cname_end [OF assms(1)], of hops tpos "tgt[tpos := 0]" tgt] assms
  by (simp add: take_Suc_conv_app_nth)

lemma decoded_ptr:
  assumes "rd m lptr = Some lb" "0xc0 \<le> lb" "rd m (lptr + 1) = Some c"
    and "decoded m (hops + 1) (ptr_offs lb c) tgt tpos r"
  shows "decoded m hops lptr tgt tpos r"
  using assms(4)
proof (cases rule: decoded.cases)
  case (decoded_ok n h ls tgt')
  with decoded.decoded_ok [OF cname_ptr [OF assms(1-3)]] show ?thesis by simp
next
  case (decoded_error rc tgt' tpos')
  then show ?thesis using assms(3)
    by (auto intro!: decoded.decoded_error simp: cname_ptr_iff [OF assms(1,2)])
qed

lemma put_label:
  assumes "tpos + 1 + n \<le> length tgt" "length s = n"
  shows "\<exists>tgt'. wrs (tgt[tpos := lb]) (tpos + 1) s = Some tgt' \<and> length tgt' = length tgt \<and>
    take (tpos + 1 + n) tgt' = take tpos tgt @ lb # s"
  using assms by (auto simp: wrs_def take_Suc_conv_app_nth)

lemma decoded_lab:
  assumes "rd m lptr = Some lb" "lb \<noteq> 0" "lb \<le> 0x3f" "s = take (unat lb) (drop (lptr + 1) m)"
    and "length s = unat lb"
    and "take (tpos + 1 + unat lb) tgt1 = take tpos tgt @ lb # s"
    and "decoded m hops (lptr + 1 + unat lb) tgt1 (tpos + 1 + unat lb) r"
  shows "decoded m hops lptr tgt tpos r"
proof -
  have e: "enc (s # ls) = lb # s @ enc ls" for ls using assms(5) by simp
  note iff = cname_lab_iff [OF assms(1-3), folded assms(4)]
  from assms(7) show ?thesis
  proof (cases rule: decoded.cases)
    case (decoded_ok n h ls tgt')
    then have "cname m lptr (1 + unat lb + n) h (s # ls)" using iff by blast
    from decoded.decoded_ok [OF this, of hops tpos tgt' tgt] decoded_ok assms(5,6) show ?thesis
      by (simp add: e add.assoc)
  next
    case (decoded_error rc tgt' tpos')
    have "\<not> tpos + length (enc ls) \<le> DNSNAMEBUFSIZE" if "cname m lptr n h ls" "hops + h \<le> 255" for n h ls
      using that decoded_error(4) assms(5) unfolding iff by (fastforce simp: e add.assoc)
    from decoded.decoded_error [OF decoded_error(2,3) this] decoded_error(1) show ?thesis by simp
  qed
qed

text \<open>Shared steps of the two loops: copying a label, and the reasons for an error.\<close>

lemma copy_label:
  assumes "msgsz \<le> length msg" "lptr + 1 + n < msgsz" "tpos + 1 + n \<le> DNSNAMEBUFSIZE - 1"
    and "length tgt = DNSNAMEBUFSIZE" and "s = take n (drop (lptr + 1) (take msgsz msg))"
  obtains tgt1 where "rds msg (lptr + 1) n = Some s" "length s = n"
    "wrs (tgt[tpos := lb]) (tpos + 1) s = Some tgt1" "length tgt1 = DNSNAMEBUFSIZE"
    "take (tpos + 1 + n) tgt1 = take tpos tgt @ lb # s"
proof -
  have s: "rds msg (lptr + 1) n = Some s" "length s = n" using assms(1,2,5) by (auto simp: rds_def drop_take)
  with put_label [of tpos n tgt s lb] assms(3,4) that show ?thesis by (auto simp: DNSNAMEBUFSIZE_def)
qed

lemma label_error:
  assumes "rd (take msgsz msg) lptr = Some lb" "lb \<noteq> 0" "lb \<le> 0x3f" "msgsz \<le> length msg"
    and "\<not> (lptr + 1 + unat lb < msgsz \<and> tpos + 1 + unat lb \<le> DNSNAMEBUFSIZE - 1)"
    and "cname (take msgsz msg) lptr n h ls"
  shows "\<not> tpos + length (enc ls) \<le> DNSNAMEBUFSIZE"
proof -
  from assms(6) obtain ls' n' where ls: "ls = take (unat lb) (drop (lptr + 1) (take msgsz msg)) # ls'"
    "cname (take msgsz msg) (lptr + 1 + unat lb) n' h ls'" unfolding cname_lab_iff [OF assms(1-3)] by blast
  from cname_in [OF ls(2)] have lt: "lptr + 1 + unat lb < msgsz" by simp
  with assms(4) ls(1) have "length (enc ls) = 1 + unat lb + length (enc ls')" by simp
  moreover have "1 \<le> length (enc ls')" by (simp add: Suc_le_eq)
  ultimately show ?thesis using assms(5) lt unfolding DNSNAMEBUFSIZE_def by linarith
qed

lemma pointer_error:
  assumes "rd (take msgsz msg) lptr = Some lb" "0xc0 \<le> lb"
    and "\<not> lptr + 1 < msgsz \<or> (\<exists>c. rd msg (lptr + 1) = Some c \<and> msgsz \<le> ptr_offs lb c)"
  shows "\<not> cname (take msgsz msg) lptr n h ls"
  using assms(3) unfolding cname_ptr_iff [OF assms(1,2)] by (auto simp: rd_take dest: cname_in)

lemma pointer_cases:
  assumes "msgsz \<le> length msg"
  obtains (err) "\<not> lptr + 1 < msgsz \<or> (\<exists>c. rd msg (lptr + 1) = Some c \<and> msgsz \<le> ptr_offs lb c)"
    | (ok) c where "lptr + 1 < msgsz" "rd msg (lptr + 1) = Some c" "rd (take msgsz msg) (lptr + 1) = Some c"
        "ptr_offs lb c < msgsz"
proof (cases "lptr + 1 < msgsz \<and> ptr_offs lb (msg ! (lptr + 1)) < msgsz")
  case True
  with assms ok [of "msg ! (lptr + 1)"] show ?thesis by (simp add: rd_def)
next
  case False
  with assms err show ?thesis by (auto simp: rd_def)
qed

lemma first_byte:
  obtains (bad) "0x3f < lb" "lb < 0xc0" | (ptr) "0x3f < lb" "\<not> lb < 0xc0" "0xc0 \<le> lb" | (z) "lb = 0"
    | (lab) "lb \<noteq> 0" "lb \<le> 0x3f" "\<not> 0x3f < (lb :: byte)"
  by (meson not_le)

lemma decompress_jumped_spec:
  assumes "msgsz \<le> length msg" "lptr < msgsz" "tpos < DNSNAMEBUFSIZE" "length tgt = DNSNAMEBUFSIZE" "hops \<le> 255"
  shows "decoded (take msgsz msg) hops lptr tgt tpos (decompress_jumped msg msgsz hops lptr tgt tpos)"
  using assms
proof (induction msg msgsz hops lptr tgt tpos rule: decompress_jumped.induct)
  case (1 msg msgsz hops lptr tgt tpos)
  let ?m = "take msgsz msg"
  obtain lb where lb: "rd msg lptr = Some lb" "rd ?m lptr = Some lb"
    using "1.prems"(1,2) by (auto simp: rd_def)
  note unf = decompress_jumped.simps [of msg msgsz hops lptr tgt tpos]
  have w: "wr tgt tpos lb = Some (tgt[tpos := lb])" using "1.prems" by (simp add: wr_def)
  show ?case
  proof (cases lb rule: first_byte)
    case bad
    with cname_bad [OF lb(2)] lb "1.prems" show ?thesis unfolding unf by (auto intro: decoded_error)
  next
    case ptr
    consider (err) "\<not> lptr + 1 < msgsz \<or> (\<exists>c. rd msg (lptr + 1) = Some c \<and> msgsz \<le> ptr_offs lb c)"
      | (hops) "\<not> hops + 1 \<le> 255" | (ok) c where "lptr + 1 < msgsz" "hops + 1 \<le> 255"
          "rd msg (lptr + 1) = Some c" "rd ?m (lptr + 1) = Some c" "ptr_offs lb c < msgsz"
      by (rule pointer_cases [OF "1.prems"(1), of lptr lb]; cases "hops + 1 \<le> 255") auto
    then show ?thesis
    proof cases
      case err
      have "decoded ?m hops lptr tgt tpos (Some (RC_FORMAT, tgt, tpos))"
        using pointer_error [OF lb(2) ptr(3) err] "1.prems"(4) by (auto intro: decoded_error)
      with err ptr(1,2) lb(1) show ?thesis unfolding unf by auto
    next
      case hops
      then have "\<not> hops + h \<le> 255" if "cname ?m lptr n h ls" for n h ls
        using that unfolding cname_ptr_iff [OF lb(2) ptr(3)] by auto
      then have "decoded ?m hops lptr tgt tpos (Some (RC_FORMAT, tgt, tpos))"
        using "1.prems"(4) by (intro decoded_error) auto
      with hops ptr(1,2) lb(1) show ?thesis unfolding unf by simp
    next
      case ok
      with "1.IH"(1) [OF lb(1) ptr(1,2) _ _ ok(3)] "1.prems"
      have "decoded ?m (hops + 1) (ptr_offs lb c) tgt tpos (decompress_jumped msg msgsz (hops + 1) (ptr_offs lb c) tgt tpos)"
        by simp
      from decoded_ptr [OF lb(2) ptr(3) ok(4) this] ok ptr(1,2) lb show ?thesis unfolding unf by simp
    qed
  next
    case z
    with decoded_end [of ?m lptr tpos tgt hops] lb "1.prems" show ?thesis unfolding unf by (simp add: wr_def)
  next
    case lab
    show ?thesis
    proof (cases "lptr + 1 + unat lb < msgsz \<and> tpos + 1 + unat lb \<le> DNSNAMEBUFSIZE - 1")
      case False
      have "decoded ?m hops lptr tgt tpos (Some (RC_FORMAT, tgt[tpos := lb], tpos + 1))"
        using label_error [OF lb(2) lab(1,2) "1.prems"(1) False] "1.prems"(4) by (auto intro: decoded_error)
      with False w lb lab show ?thesis unfolding unf by (auto simp: not_less)
    next
      case True
      let ?s = "take (unat lb) (drop (lptr + 1) ?m)"
      from copy_label [OF "1.prems"(1) _ _ "1.prems"(4) refl] True obtain tgt1 where
        t: "rds msg (lptr + 1) (unat lb) = Some ?s" "length ?s = unat lb"
          "wrs (tgt[tpos := lb]) (tpos + 1) ?s = Some tgt1" "length tgt1 = DNSNAMEBUFSIZE"
          "take (tpos + 1 + unat lb) tgt1 = take tpos tgt @ lb # ?s" by metis
      have "decoded ?m hops (lptr + 1 + unat lb) tgt1 (tpos + 1 + unat lb)
          (decompress_jumped msg msgsz hops (lptr + 1 + unat lb) tgt1 (tpos + 1 + unat lb))"
        by (rule "1.IH"(2) [OF lb(1) _ w _ _ _ t(1,3)])
          (use lab True "1.prems" t(4) in \<open>auto simp: DNSNAMEBUFSIZE_def not_less\<close>)
      from decoded_lab [OF lb(2) lab(1,2) refl t(2,5) this] show ?thesis unfolding unf
        using lb(1) lab(1,3) True w t(1,3) by simp
    qed
  qed
qed

text \<open>
  The first loop does the same and counts the bytes of the data field it uses up; \<open>sz\<close> bytes of it
  are left at \<open>lptr\<close>.
\<close>

inductive decoded_field :: "byte list \<Rightarrow> nat \<Rightarrow> nat \<Rightarrow> byte list \<Rightarrow> nat \<Rightarrow>
    (rc \<times> nat \<times> byte list \<times> nat) option \<Rightarrow> bool" for m where
  decoded_field_ok: "cname m lptr n h ls \<Longrightarrow> n \<le> sz \<Longrightarrow> h \<le> 255 \<Longrightarrow> tpos + length (enc ls) \<le> DNSNAMEBUFSIZE \<Longrightarrow>
    length tgt' = DNSNAMEBUFSIZE \<Longrightarrow> take (tpos + length (enc ls)) tgt' = take tpos tgt @ enc ls \<Longrightarrow>
    decoded_field m sz lptr tgt tpos (Some (RC_OK, sz - n, tgt', tpos + length (enc ls)))"
| decoded_field_error: "rc \<noteq> RC_OK \<Longrightarrow> length tgt' = DNSNAMEBUFSIZE \<Longrightarrow>
   (\<And>n h ls. cname m lptr n h ls \<Longrightarrow> n \<le> sz \<Longrightarrow> h \<le> 255 \<Longrightarrow> \<not> tpos + length (enc ls) \<le> DNSNAMEBUFSIZE) \<Longrightarrow>
   decoded_field m sz lptr tgt tpos (Some (rc, newsz, tgt', tpos'))"

lemma decoded_field_ptr:
  assumes "rd m lptr = Some lb" "0xc0 \<le> lb" "rd m (lptr + 1) = Some c" "2 \<le> sz"
    and "decoded m 1 (ptr_offs lb c) tgt tpos (Some (rc, tgt', tpos'))"
  shows "decoded_field m sz lptr tgt tpos (Some (rc, sz - 2, tgt', tpos'))"
  using assms(5)
proof (cases rule: decoded.cases)
  case (decoded_ok n h ls)
  with decoded_field_ok [OF cname_ptr [OF assms(1-3)]] assms(4) show ?thesis by auto
next
  case decoded_error
  then show ?thesis using assms(3)
    by (auto intro!: decoded_field_error simp: cname_ptr_iff [OF assms(1,2)])
qed

lemma decoded_field_lab:
  assumes "rd m lptr = Some lb" "lb \<noteq> 0" "lb \<le> 0x3f" "s = take (unat lb) (drop (lptr + 1) m)"
    and "length s = unat lb" "unat lb < sz - 1"
    and "take (tpos + 1 + unat lb) tgt1 = take tpos tgt @ lb # s"
    and "decoded_field m (sz - 1 - unat lb) (lptr + 1 + unat lb) tgt1 (tpos + 1 + unat lb) r"
  shows "decoded_field m sz lptr tgt tpos r"
proof -
  have e: "enc (s # ls) = lb # s @ enc ls" for ls using assms(5) by simp
  note iff = cname_lab_iff [OF assms(1-3), folded assms(4)]
  from assms(8) show ?thesis
  proof (cases rule: decoded_field.cases)
    case (decoded_field_ok n h ls tgt')
    then have "cname m lptr (1 + unat lb + n) h (s # ls)" using iff by blast
    from decoded_field.decoded_field_ok [OF this, of sz tpos tgt' tgt] decoded_field_ok assms(5-7) show ?thesis
      by (simp add: e add.assoc)
  next
    case (decoded_field_error rc tgt' newsz tpos')
    have "\<not> tpos + length (enc ls) \<le> DNSNAMEBUFSIZE" if c: "cname m lptr n h ls" "n \<le> sz" "h \<le> 255" for n h ls
    proof -
      from c(1) obtain n' ls' where n: "n = 1 + unat lb + n'" "ls = s # ls'"
        "cname m (lptr + 1 + unat lb) n' h ls'" unfolding iff by blast
      then have "n' \<le> sz - 1 - unat lb" using c(2) by arith
      from decoded_field_error(4) [OF n(3) this c(3)] n(2) assms(5) show ?thesis by (simp add: e add.assoc)
    qed
    from decoded_field.decoded_field_error [OF decoded_field_error(2,3) this] decoded_field_error(1)
    show ?thesis by simp
  qed
qed

lemma decompress_direct_spec:
  assumes "msgsz \<le> length msg" "lptr < msgsz" "0 < newsz" "tpos < DNSNAMEBUFSIZE" "length tgt = DNSNAMEBUFSIZE"
  shows "decoded_field (take msgsz msg) newsz lptr tgt tpos (decompress_direct msg msgsz newsz lptr tgt tpos)"
  using assms
proof (induction msg msgsz newsz lptr tgt tpos rule: decompress_direct.induct)
  case (1 msg msgsz newsz lptr tgt tpos)
  let ?m = "take msgsz msg"
  obtain lb where lb: "rd msg lptr = Some lb" "rd ?m lptr = Some lb"
    using "1.prems"(1,2) by (auto simp: rd_def)
  note unf = decompress_direct.simps [of msg msgsz newsz lptr tgt tpos]
  have w: "wr tgt tpos lb = Some (tgt[tpos := lb])" using "1.prems" by (simp add: wr_def)
  show ?case
  proof (cases lb rule: first_byte)
    case bad
    with cname_bad [OF lb(2)] lb "1.prems" show ?thesis unfolding unf
      by (auto intro: decoded_field_error)
  next
    case ptr
    consider (err) "\<not> lptr + 1 < msgsz \<or> (\<exists>c. rd msg (lptr + 1) = Some c \<and> msgsz \<le> ptr_offs lb c)"
      | (trunc) "newsz - 1 = 0" | (ok) c where "lptr + 1 < msgsz" "\<not> newsz - 1 = 0" "2 \<le> newsz"
          "rd msg (lptr + 1) = Some c" "rd ?m (lptr + 1) = Some c" "ptr_offs lb c < msgsz"
      by (rule pointer_cases [OF "1.prems"(1), of lptr lb]; cases "2 \<le> newsz") auto
    then show ?thesis
    proof cases
      case err
      have "decoded_field ?m newsz lptr tgt tpos (Some (rc, k, tgt, tpos))" if "rc \<noteq> RC_OK" for rc k
        using pointer_error [OF lb(2) ptr(3) err] "1.prems"(5) that by (auto intro: decoded_field_error)
      with err ptr(1,2) lb(1) show ?thesis unfolding unf by auto
    next
      case trunc
      then have "\<not> n \<le> newsz" if "cname ?m lptr n h ls" for n h ls
        using that unfolding cname_ptr_iff [OF lb(2) ptr(3)] by auto
      then have "decoded_field ?m newsz lptr tgt tpos (Some (RC_TRUNC, newsz - 1, tgt, tpos))"
        using "1.prems"(5) by (intro decoded_field_error) auto
      with trunc ptr(1,2) lb(1) show ?thesis unfolding unf by simp
    next
      case ok
      have "decoded ?m 1 (ptr_offs lb c) tgt tpos (decompress_jumped msg msgsz 1 (ptr_offs lb c) tgt tpos)"
        by (rule decompress_jumped_spec) (use "1.prems" ok in auto)
      moreover from this obtain rc tgt' tpos' where
        d: "decompress_jumped msg msgsz 1 (ptr_offs lb c) tgt tpos = Some (rc, tgt', tpos')"
        by (auto elim: decoded.cases)
      ultimately have "decoded_field ?m newsz lptr tgt tpos (Some (rc, newsz - 2, tgt', tpos'))"
        using decoded_field_ptr [OF lb(2) ptr(3) ok(5,3)] by simp
      with d ok ptr(1,2) lb show ?thesis unfolding unf by simp
    qed
  next
    case z
    with decoded_field_ok [OF cname_end [of ?m lptr], of newsz tpos "tgt[tpos := 0]" tgt] lb w "1.prems"
    show ?thesis unfolding unf by (simp add: take_Suc_conv_app_nth)
  next
    case lab
    consider (trunc) "newsz - 1 \<le> unat lb"
      | (err) "\<not> newsz - 1 \<le> unat lb" "\<not> (lptr + 1 + unat lb < msgsz \<and> tpos + 1 + unat lb \<le> DNSNAMEBUFSIZE - 1)"
      | (ok) "\<not> newsz - 1 \<le> unat lb" "lptr + 1 + unat lb < msgsz" "tpos + 1 + unat lb \<le> DNSNAMEBUFSIZE - 1" by blast
    then show ?thesis
    proof cases
      case trunc
      then have no: "\<not> n \<le> newsz" if "cname ?m lptr n h ls" for n h ls
        using that cname_n_pos unfolding cname_lab_iff [OF lb(2) lab(1,2)] by fastforce
      with "1.prems"(5) have "decoded_field ?m newsz lptr tgt tpos (Some (RC_TRUNC, newsz - 1, tgt[tpos := lb], tpos + 1))"
        by (intro decoded_field_error) auto
      with trunc w lb lab show ?thesis unfolding unf by simp
    next
      case err
      have "decoded_field ?m newsz lptr tgt tpos (Some (RC_FORMAT, newsz - 1, tgt[tpos := lb], tpos + 1))"
        using label_error [OF lb(2) lab(1,2) "1.prems"(1) err(2)] "1.prems"(5) by (intro decoded_field_error) auto
      with err w lb lab show ?thesis unfolding unf by (auto simp: not_less)
    next
      case ok
      let ?s = "take (unat lb) (drop (lptr + 1) ?m)"
      from copy_label [OF "1.prems"(1) ok(2,3) "1.prems"(5) refl] obtain tgt1 where
        t: "rds msg (lptr + 1) (unat lb) = Some ?s" "length ?s = unat lb"
          "wrs (tgt[tpos := lb]) (tpos + 1) ?s = Some tgt1" "length tgt1 = DNSNAMEBUFSIZE"
          "take (tpos + 1 + unat lb) tgt1 = take tpos tgt @ lb # ?s" by metis
      have "decoded_field ?m (newsz - 1 - unat lb) (lptr + 1 + unat lb) tgt1 (tpos + 1 + unat lb)
          (decompress_direct msg msgsz (newsz - 1 - unat lb) (lptr + 1 + unat lb) tgt1 (tpos + 1 + unat lb))"
        by (rule "1.IH" [OF lb(1) lab(3) w lab(1) ok(1) _ _ t(1,3)])
          (use ok "1.prems" t(4) in \<open>auto simp: DNSNAMEBUFSIZE_def\<close>)
      from decoded_field_lab [OF lb(2) lab(1,2) refl t(2) _ t(5) this] ok(1)
      show ?thesis unfolding unf
        using lb(1) lab(1,3) ok(1-3) w t(1,3) by simp
    qed
  qed
qed

lemma decompress_name_cname:
  assumes "msgsz \<le> length msg" "length tgt = DNSNAMEBUFSIZE"
    and "cname (take msgsz msg) src n h ls" "n \<le> sz" "h \<le> 255" "length (enc ls) \<le> DNSNAMEBUFSIZE"
  shows "\<exists>tgt'. decompress_name msg msgsz src sz tgt = Some (RC_OK, src + n, sz - n, tgt', Some (length (enc ls))) \<and>
    length tgt' = DNSNAMEBUFSIZE \<and> take (length (enc ls)) tgt' = enc ls"
proof -
  from cname_in [OF assms(3)] cname_n_pos [OF assms(3)] assms(1,4) have pre: "src < msgsz" "0 < sz" by auto
  have "decoded_field (take msgsz msg) sz src tgt 0 (decompress_direct msg msgsz sz src tgt 0)"
    by (rule decompress_direct_spec) (use assms pre in \<open>auto simp: DNSNAMEBUFSIZE_def\<close>)
  then show ?thesis
  proof (cases rule: decoded_field.cases)
    case (decoded_field_ok n' h' ls' tgt')
    from cname_det [OF assms(3) decoded_field_ok(2)] decoded_field_ok pre assms(4) show ?thesis
      by (auto simp: decompress_name_def)
  next
    case decoded_field_error
    with assms show ?thesis by auto
  qed
qed

lemma decompress_name_error:
  assumes "msgsz \<le> length msg" "length tgt = DNSNAMEBUFSIZE"
    and "\<And>n h ls. cname (take msgsz msg) src n h ls \<Longrightarrow> n \<le> sz \<Longrightarrow> h \<le> 255 \<Longrightarrow> \<not> length (enc ls) \<le> DNSNAMEBUFSIZE"
  shows "\<exists>rc tgt'. decompress_name msg msgsz src sz tgt = Some (rc, src, sz, tgt', None) \<and> rc \<noteq> RC_OK \<and>
    length tgt' = DNSNAMEBUFSIZE"
proof (cases "0 < sz \<and> src < msgsz")
  case False
  with assms(2) show ?thesis by (auto simp: decompress_name_def)
next
  case True
  have "decoded_field (take msgsz msg) sz src tgt 0 (decompress_direct msg msgsz sz src tgt 0)"
    by (rule decompress_direct_spec) (use assms(1,2) True in \<open>auto simp: DNSNAMEBUFSIZE_def\<close>)
  then show ?thesis
  proof (cases rule: decoded_field.cases)
    case (decoded_field_ok n' h' ls' tgt')
    with assms(3) show ?thesis by auto
  next
    case decoded_field_error
    with True show ?thesis by (auto simp: decompress_name_def)
  qed
qed

text \<open>
  C3.  \<^verbatim>\<open>decompress_name\<close> on a message of \<open>msgsz\<close> bytes and a 256-byte target reads only the
  message and writes only the target, and it always returns, whatever the message holds (pointer
  cycles included).  It returns \<^verbatim>\<open>RC_OK\<close> exactly when the bytes at \<open>src\<close> denote a name that
  lies inside the message, whose first part lies inside the \<open>sz\<close> bytes of the data field, and that
  needs at most 255 pointers and 256 bytes; then the target holds that name, and the source position
  and size are moved past it.  On an error they are unchanged.
\<close>

theorem decompress_name_correct:
  assumes "msgsz \<le> length msg" "length tgt = DNSNAMEBUFSIZE"
  shows "\<exists>rc src' sz' tgt' len. decompress_name msg msgsz src sz tgt = Some (rc, src', sz', tgt', len) \<and>
    length tgt' = DNSNAMEBUFSIZE \<and>
    (rc = RC_OK \<longleftrightarrow> (\<exists>n h ls. cname (take msgsz msg) src n h ls \<and> n \<le> sz \<and> h \<le> 255 \<and>
       length (enc ls) \<le> DNSNAMEBUFSIZE)) \<and>
    (rc = RC_OK \<longrightarrow> (\<forall>n h ls. cname (take msgsz msg) src n h ls \<longrightarrow> src' = src + n \<and> sz' = sz - n \<and>
       len = Some (length (enc ls)) \<and> take (length (enc ls)) tgt' = enc ls)) \<and>
    (rc \<noteq> RC_OK \<longrightarrow> src' = src \<and> sz' = sz)"
proof (cases "\<exists>n h ls. cname (take msgsz msg) src n h ls \<and> n \<le> sz \<and> h \<le> 255 \<and> length (enc ls) \<le> DNSNAMEBUFSIZE")
  case True
  then obtain n h ls where c: "cname (take msgsz msg) src n h ls" "n \<le> sz" "h \<le> 255"
    "length (enc ls) \<le> DNSNAMEBUFSIZE" by blast
  from decompress_name_cname [OF assms c] cname_det [OF c(1)] True show ?thesis by blast
next
  case False
  then obtain rc tgt' where "decompress_name msg msgsz src sz tgt = Some (rc, src, sz, tgt', None)"
    "rc \<noteq> RC_OK" "length tgt' = DNSNAMEBUFSIZE"
    using decompress_name_error [OF assms, of src sz] by blast
  with False show ?thesis by blast
qed

theorem decompress_name_correct_witness:
  "\<exists>tgt'. decompress_name [1, 120, 0, 1, 121, 0xc0, 0] 7 3 4 (replicate 256 0) = Some (RC_OK, 7, 0, tgt', Some 5) \<and>
    take 5 tgt' = [1, 121, 1, 120, 0]"
proof -
  let ?m = "[1, 120, 0, 1, 121, 0xc0, 0] :: byte list"
  have o: "ptr_offs 0xc0 0 = 0" by (simp add: ptr_offs_def)
  have "cname ?m 0 (1 + length [120 :: byte] + 1) 0 [[120]]"
    by (rule cname_lab) (simp_all add: rd_def lab63_def cname_0)
  then have "cname ?m 5 2 (Suc 0) [[120]]"
    using cname_ptr [of ?m 5 "0xc0" 0] by (simp add: rd_def o)
  then have "cname ?m 3 (1 + length [121 :: byte] + 2) (Suc 0) [[121], [120]]"
    by (intro cname_lab) (simp_all add: rd_def lab63_def)
  then have c: "cname (take 7 ?m) 3 4 (Suc 0) [[121], [120]]" by (simp add: numeral_eq_Suc)
  then have "\<exists>n h ls. cname (take 7 ?m) 3 n h ls \<and> n \<le> 4 \<and> h \<le> 255 \<and> length (enc ls) \<le> DNSNAMEBUFSIZE"
    by (intro exI conjI) (assumption, simp_all add: DNSNAMEBUFSIZE_def)
  with decompress_name_correct [of 7 ?m "replicate 256 0" 3 4] c show ?thesis
    by (fastforce simp: DNSNAMEBUFSIZE_def numeral_eq_Suc)
qed

subsection \<open>The longest common suffix\<close>

text \<open>Position of the \<open>j\<close>-th label in the transport form.\<close>

definition lab_pos :: "byte list list \<Rightarrow> nat \<Rightarrow> nat" where
  "lab_pos ls j = length (enc (take j ls)) - 1"

text \<open>Number of labels two names have in common at the end, up to the case of letters.\<close>

definition common_labels :: "byte list list \<Rightarrow> byte list list \<Rightarrow> nat" where
  "common_labels xs ys = length (longest_common_prefix (rev (lower_name xs)) (rev (lower_name ys)))"

lemma length_enc: "length (enc ls) = 1 + (\<Sum>l\<leftarrow>ls. length l + 1)"
  by (induction ls) auto

lemma lab_pos_Suc: "j < length ls \<Longrightarrow> lab_pos ls (Suc j) = lab_pos ls j + 1 + length (ls ! j)"
  by (simp add: lab_pos_def length_enc take_Suc_conv_app_nth)

lemma lab_pos_0 [simp]: "lab_pos ls 0 = 0"
  by (simp add: lab_pos_def)

lemma lab_pos_length: "lab_pos ls (length ls) = length (enc ls) - 1"
  by (simp add: lab_pos_def)

lemma name_at_lab_pos: "name_at b p ls \<Longrightarrow> j \<le> length ls \<Longrightarrow> name_at b (p + lab_pos ls j) (drop j ls)"
  using name_at_append [of b p "take j ls" "drop j ls"] length_enc_gt_0 [of "take j ls"]
  by (simp add: lab_pos_def Suc_le_eq del: length_enc_gt_0)

lemma domain_lbs_name:
  "name_at m p ls \<Longrightarrow> length acc + length ls \<le> 128 \<Longrightarrow>
   domain_lbs m p acc = Some (p + length (enc ls) - 1, acc @ map (\<lambda>l. of_nat (length l)) ls)"
proof (induction ls arbitrary: p acc)
  case Nil
  then show ?case by (simp add: domain_lbs.simps [of m p])
next
  case (Cons l ls)
  then have "domain_lbs m p acc = domain_lbs m (p + length l + 1) (acc @ [of_nat (length l)])"
    by (subst domain_lbs.simps) auto
  with Cons.IH [of "p + length l + 1" "acc @ [of_nat (length l)]"] Cons.prems show ?case
    by (simp add: add.commute add.left_commute)
qed

lemma domain_match_seg_spec:
  assumes "n \<le> i" "n \<le> j" "i \<le> length ms" "j \<le> length md"
  shows "domain_match_seg ms md n i j =
    Some (if map tolower (take n (drop (i - n) ms)) = map tolower (take n (drop (j - n) md))
          then Some (i - n, j - n) else None)"
  using assms
proof (induction n arbitrary: i j)
  case (Suc n)
  have "take (Suc n) (drop (i - Suc n) ms) = take n (drop (i - 1 - n) ms) @ [ms ! (i - 1)]"
    "take (Suc n) (drop (j - Suc n) md) = take n (drop (j - 1 - n) md) @ [md ! (j - 1)]"
    using Suc.prems by (simp_all add: take_Suc_conv_app_nth)
  with Suc.IH [of "i - 1" "j - 1"] Suc.prems show ?case by (auto simp: rd_def)
qed simp

lemma label_at:
  assumes "name_at b 0 xs" "a < length xs"
  shows "take (length (xs ! a)) (drop (lab_pos xs a + 1) b) = xs ! a \<and> lab_ok (xs ! a) \<and>
    lab_pos xs (Suc a) < length b"
proof -
  have "name_at b (lab_pos xs a) (xs ! a # drop (Suc a) xs)"
    using name_at_lab_pos [OF assms(1), of a] assms(2) by (simp add: Cons_nth_drop_Suc)
  moreover from name_at_lab_pos [OF assms(1), of "Suc a"] assms(2)
  have "lab_pos xs (Suc a) < length b" by (auto dest: name_at_SomeD)
  ultimately show ?thesis by simp
qed

lemma rev_drop_step:
  "1 \<le> k \<Longrightarrow> k \<le> length xs \<Longrightarrow>
   drop (k - 1) (rev (lower_name xs)) = map tolower (xs ! (length xs - k)) # drop k (rev (lower_name xs))"
  using Cons_nth_drop_Suc [of "k - 1" "rev (lower_name xs)"] by (simp add: lower_name_def rev_nth)

lemma domain_match_loop_spec:
  assumes "name_at ms 0 xs" "name_at md 0 ys" "1 \<le> k" "k + m = min (length xs) (length ys) + 1"
    and K: "K = k - 1 + length (longest_common_prefix (drop (k - 1) (rev (lower_name xs))) (drop (k - 1) (rev (lower_name ys))))"
  shows "domain_match_loop ms md (map (\<lambda>l. of_nat (length l)) xs) (map (\<lambda>l. of_nat (length l)) ys) m k
      (lab_pos xs (length xs + 1 - k)) (lab_pos ys (length ys + 1 - k)) =
    Some (K, lab_pos xs (length xs - K), lab_pos ys (length ys - K))"
  using assms(3-)
proof (induction m arbitrary: k)
  case 0
  then have "drop (k - 1) (rev (lower_name xs)) = [] \<or> drop (k - 1) (rev (lower_name ys)) = []"
    by (auto simp: lower_name_def min_def split: if_splits)
  then have "K = k - 1" using 0(3) by auto
  with 0 show ?case by (simp add: Suc_diff_le)
next
  case (Suc m)
  let ?a = "length xs - k" and ?b = "length ys - k"
  let ?x = "xs ! ?a" and ?y = "ys ! ?b"
  from Suc.prems have k: "1 \<le> k" "k \<le> length xs" "k \<le> length ys" by auto
  then have ix: "?a < length xs" "?b < length ys" "length xs + 1 - k = Suc ?a" "length ys + 1 - k = Suc ?b" by auto
  note lx = label_at [OF assms(1) ix(1)] and ly = label_at [OF assms(2) ix(2)]
  let ?seg = "domain_match_seg ms md (length ?x) (lab_pos xs (Suc ?a)) (lab_pos ys (Suc ?b))"
  have seg: "?seg = Some (if map tolower ?x = map tolower ?y then Some (lab_pos xs ?a + 1, lab_pos ys ?b + 1) else None)"
    if "length ?x = length ?y"
    using that lx ly domain_match_seg_spec [of "length ?x" "lab_pos xs (Suc ?a)" "lab_pos ys (Suc ?b)" ms md]
    by (simp add: lab_pos_Suc [OF ix(1)] lab_pos_Suc [OF ix(2)])
  have len_eq: "(of_nat (length ?x) :: byte) = of_nat (length ?y) \<longleftrightarrow> length ?x = length ?y"
    using lx ly lab_ok_len by metis
  note K = Suc.prems(3) [unfolded rev_drop_step [OF k(1,2)] rev_drop_step [OF k(1,3)]]
  show ?case
  proof (cases "map tolower ?x = map tolower ?y")
    case False
    then have "K = k - 1" using K by simp
    with False seg len_eq lx ly ix k show ?thesis by (auto simp: rd_def)
  next
    case True
    then have len: "length ?x = length ?y" by (rule map_eq_imp_length_eq)
    with True K k(1) have "K = Suc k - 1 + length (longest_common_prefix (drop (Suc k - 1) (rev (lower_name xs)))
        (drop (Suc k - 1) (rev (lower_name ys))))" by simp
    from Suc.IH [OF _ _ this] Suc.prems seg [OF len] True len ix lx ly show ?thesis by (simp add: rd_def)
  qed
qed

lemma common_labels_le: "common_labels xs ys \<le> length xs" "common_labels xs ys \<le> length ys"
  using prefix_length_le [OF longest_common_prefix_prefix1 [of "rev (lower_name xs)" "rev (lower_name ys)"]]
    prefix_length_le [OF longest_common_prefix_prefix2 [of "rev (lower_name xs)" "rev (lower_name ys)"]]
  by (simp_all add: common_labels_def lower_name_def)

lemma wf_name_labels: "wf_name ls \<Longrightarrow> length ls \<le> 127"
proof -
  assume w: "wf_name ls"
  have "2 * length ls \<le> (\<Sum>l\<leftarrow>ls. length l + 1)" if "list_all lab63 ls"
    using that by (induction ls) (auto simp: lab63_def neq_Nil_conv)
  with w show ?thesis by (auto simp: wf_name_def length_enc DNSNAMEBUFSIZE_def)
qed

lemma domain_match_spec:
  assumes "name_at ms 0 xs" "name_at md 0 ys" "length xs \<le> 128" "length ys \<le> 128"
  shows "domain_match ms md = (let k = common_labels xs ys in
    Some (k, lab_pos xs (length xs - k), lab_pos ys (length ys - k)))"
  using domain_match_loop_spec [OF assms(1,2), of 1 "min (length xs) (length ys)" "common_labels xs ys"]
    domain_lbs_name [OF assms(1), of "[]"] domain_lbs_name [OF assms(2), of "[]"] assms(3,4)
  by (simp add: domain_match_def common_labels_def Let_def lab_pos_length)

definition same_suffix :: "byte list list \<Rightarrow> byte list list \<Rightarrow> nat \<Rightarrow> bool" where
  "same_suffix xs ys k \<longleftrightarrow> k \<le> length xs \<and> k \<le> length ys \<and>
     lower_name (drop (length xs - k) xs) = lower_name (drop (length ys - k) ys)"

lemma same_suffix_iff: "same_suffix xs ys k \<longleftrightarrow> k \<le> common_labels xs ys"
proof -
  let ?x = "rev (lower_name xs)" and ?y = "rev (lower_name ys)"
  have tk: "take k (rev (lower_name ls)) = rev (lower_name (drop (length ls - k) ls))" for ls
    by (simp add: lower_name_def take_rev drop_map)
  have "same_suffix xs ys k \<longleftrightarrow> k \<le> length ?x \<and> k \<le> length ?y \<and> take k ?x = take k ?y"
    unfolding tk by (simp add: same_suffix_def lower_name_def)
  also have "\<dots> \<longleftrightarrow> k \<le> length (longest_common_prefix ?x ?y)"
  proof
    assume h: "k \<le> length ?x \<and> k \<le> length ?y \<and> take k ?x = take k ?y"
    then have "prefix (take k ?x) ?x" "prefix (take k ?x) ?y"
      using take_is_prefix [of k ?x] take_is_prefix [of k ?y] by simp_all
    from longest_common_prefix_max_prefix [OF this] h show "k \<le> length (longest_common_prefix ?x ?y)"
      by (metis length_take min.absorb2 prefix_length_le)
  next
    assume h: "k \<le> length (longest_common_prefix ?x ?y)"
    define l where "l = longest_common_prefix ?x ?y"
    obtain u v where "?x = l @ u" "?y = l @ v"
      unfolding l_def by (meson longest_common_prefix_prefix1 longest_common_prefix_prefix2 prefixE)
    moreover from h have "k \<le> length l" by (simp add: l_def)
    ultimately show "k \<le> length ?x \<and> k \<le> length ?y \<and> take k ?x = take k ?y"
      by (simp only: length_append) simp
  qed
  finally show ?thesis by (simp add: common_labels_def)
qed

text \<open>
  C33.  For two well-formed names \<^verbatim>\<open>domain_match\<close> does not fail its assertions, stays inside
  the names and returns the largest number of name elements the names have in common at their ends, up
  to the case of letters, with the positions at which this common part starts.
\<close>

theorem domain_match_correct:
  assumes "name_at ms 0 xs" "name_at md 0 ys" "wf_name xs" "wf_name ys"
  shows "\<exists>k os od. domain_match ms md = Some (k, os, od) \<and>
    same_suffix xs ys k \<and> (\<forall>j. same_suffix xs ys j \<longrightarrow> j \<le> k) \<and>
    name_at ms os (drop (length xs - k) xs) \<and> name_at md od (drop (length ys - k) ys)"
  using domain_match_spec [OF assms(1,2)] wf_name_labels [OF assms(3)] wf_name_labels [OF assms(4)]
    name_at_lab_pos [OF assms(1), of "length xs - common_labels xs ys"]
    name_at_lab_pos [OF assms(2), of "length ys - common_labels xs ys"]
  by (simp add: Let_def same_suffix_iff)

theorem domain_match_correct_witness:
  "\<exists>k os od. domain_match [1, 97, 2, 99, 100, 0] [2, 67, 68, 0] = Some (k, os, od) \<and> k = 1"
proof -
  let ?xs = "[[97], [99, 100]] :: byte list list" and ?ys = "[[67, 68]] :: byte list list"
  have "name_at [1, 97, 2, 99, 100, 0] 0 ?xs" "name_at [2, 67, 68, 0] 0 ?ys" "wf_name ?xs" "wf_name ?ys"
    by (simp_all add: rd_def lab_ok_def wf_name_def lab63_def DNSNAMEBUFSIZE_def)
  from domain_match_correct [OF this] obtain k os od where
    k: "domain_match [1, 97, 2, 99, 100, 0] [2, 67, 68, 0] = Some (k, os, od)" "same_suffix ?xs ?ys k"
      "\<forall>j. same_suffix ?xs ?ys j \<longrightarrow> j \<le> k" by blast
  have "same_suffix ?xs ?ys 1" by (simp add: same_suffix_def lower_name_def tolower_def)
  with k(2,3) have "k = 1" by (force simp: same_suffix_def)
  with k(1) show ?thesis by blast
qed

subsection \<open>Compression against the names already in the message\<close>

text \<open>The labels without the final null byte.\<close>

definition encl :: "byte list list \<Rightarrow> byte list" where
  "encl ls = concat (map (\<lambda>l. of_nat (length l) # l) ls)"

lemma enc_encl: "enc ls = encl ls @ [0]"
  by (induction ls) (auto simp: encl_def)

lemma lab_pos_encl: "lab_pos ls j = length (encl (take j ls))"
  by (simp add: lab_pos_def enc_encl)

lemma encl_append: "encl (xs @ ys) = encl xs @ encl ys"
  by (simp add: encl_def)

lemma lab_pos_less: "i < j \<Longrightarrow> j \<le> length ls \<Longrightarrow> lab_pos ls i < lab_pos ls j"
  by (induction j) (auto simp: lab_pos_Suc less_Suc_eq)

lemma lab_pos_mono: "i \<le> j \<Longrightarrow> j \<le> length ls \<Longrightarrow> lab_pos ls i \<le> lab_pos ls j"
  using lab_pos_less by (cases "i = j") (auto simp: less_imp_le)

lemma cname_encl:
  assumes "list_all lab63 pre" "cname (a @ encl pre @ r) (length a + length (encl pre)) n h ls"
  shows "cname (a @ encl pre @ r) (length a) (length (encl pre) + n) h (pre @ ls)"
  using assms
proof (induction pre arbitrary: a)
  case (Cons l pre)
  let ?a = "a @ of_nat (length l) # l"
  let ?m = "a @ encl (l # pre) @ r"
  have m: "?m = ?a @ encl pre @ r" by (simp add: encl_def)
  have len: "length ?a = length a + 1 + length l" "length (encl (l # pre)) = 1 + length l + length (encl pre)"
    by (simp_all add: encl_def)
  have "cname ?m (length a + 1 + length l) (length (encl pre) + n) h (pre @ ls)"
    using Cons.IH [of ?a] Cons.prems unfolding m len by (simp add: add.assoc)
  then have "cname ?m (length a) (1 + length l + (length (encl pre) + n)) h (l # pre @ ls)"
    by (rule cname_lab [rotated 3]) (use Cons.prems(1) in \<open>simp_all add: encl_def rd_def nth_append\<close>)
  then show ?case by (simp add: len add.assoc)
qed (simp add: encl_def)

text \<open>The two bytes of a pointer.\<close>

definition ptr_bytes :: "nat \<Rightarrow> byte list" where
  "ptr_bytes coffs = [of_nat (0xc0 OR drop_bit 8 (coffs AND 0x3f00)), of_nat (coffs AND 0xff)]"

lemma ptr_masks: "(0xc0::nat) = push_bit 6 (mask 2)" "(0x3f00::nat) = push_bit 8 (mask 6)"
    "(0x3f::nat) = mask 6" "(0xff::nat) = mask 8"
  by (simp_all add: mask_eq_exp_minus_1)

lemma ptr_bytes_nat:
  fixes coffs :: nat
  assumes "coffs \<le> 0x3fff"
  shows "push_bit 8 ((0xc0 OR drop_bit 8 (coffs AND 0x3f00)) AND 0x3f) OR (coffs AND 0xff) = coffs"
    "0xc0 OR drop_bit 8 (coffs AND 0x3f00) < 256" "0xc0 \<le> 0xc0 OR drop_bit 8 (coffs AND 0x3f00)"
proof -
  have c: "take_bit 14 coffs = coffs" using assms by (simp add: take_bit_nat_eq_self_iff)
  then have lt: "n < 14" if "bit coffs n" for n using that by (metis bit_take_bit_iff)
  show "push_bit 8 ((0xc0 OR drop_bit 8 (coffs AND 0x3f00)) AND 0x3f) OR (coffs AND 0xff) = coffs"
    unfolding ptr_masks by (rule bit_eqI) (auto simp: bit_simps dest: lt)
  have "take_bit 8 (0xc0 OR drop_bit 8 (coffs AND 0x3f00)) = 0xc0 OR drop_bit 8 (coffs AND 0x3f00)"
    unfolding ptr_masks by (rule bit_eqI) (auto simp: bit_simps dest: lt)
  then have "0xc0 OR drop_bit 8 (coffs AND 0x3f00) < 2 ^ 8" by (metis take_bit_nat_less_exp)
  then show "0xc0 OR drop_bit 8 (coffs AND 0x3f00) < 256" by simp
  have "0xc0 AND drop_bit 8 (coffs AND 0x3f00) = 0"
    unfolding ptr_masks by (rule bit_eqI) (auto simp: bit_simps)
  from disjunctive_add_eq_or [OF this, symmetric] show "0xc0 \<le> 0xc0 OR drop_bit 8 (coffs AND 0x3f00)" by simp
qed

lemma ptr_bytes_offs:
  assumes "coffs \<le> 0x3fff"
  shows "0xc0 \<le> ptr_bytes coffs ! 0" "ptr_offs (ptr_bytes coffs ! 0) (ptr_bytes coffs ! 1) = coffs"
proof -
  note p = ptr_bytes_nat [OF assms]
  have "coffs AND 0xff < 256"
    using take_bit_nat_less_exp [of 8 coffs] unfolding ptr_masks take_bit_eq_mask by simp
  with p show "ptr_offs (ptr_bytes coffs ! 0) (ptr_bytes coffs ! 1) = coffs"
    by (simp add: ptr_bytes_def ptr_offs_def unat_byte_of_nat)
  from p show "0xc0 \<le> ptr_bytes coffs ! 0"
    by (simp add: ptr_bytes_def word_le_nat_alt unat_byte_of_nat)
qed

text \<open>
  What is known of an entry of the compression list.  An entry is here \<open>(idx, ls, v)\<close>: its position,
  its name and the number of labels that stand in the message before a pointer.  Each of these \<open>v\<close>
  labels starts an occurrence of the rest of the name; each later label starts a suffix that an earlier
  entry has among its own first labels.
\<close>

type_synonym centry = "nat \<times> byte list list \<times> nat"

definition compel :: "centry \<Rightarrow> compel_t" where
  "compel e = \<lparr>index = fst e, compel_s = enc (fst (snd e))\<rparr>"

definition occurs :: "byte list \<Rightarrow> nat \<Rightarrow> byte list list \<Rightarrow> bool" where
  "occurs m p ls \<longleftrightarrow> (\<exists>n h ls'. cname m p n h ls' \<and> lower_name ls' = lower_name ls \<and> h \<le> length ls)"

definition has_suffix :: "byte list list \<Rightarrow> centry \<Rightarrow> bool" where
  "has_suffix ys e \<longleftrightarrow> (case e of (i, ls, v) \<Rightarrow> \<exists>j<v. lower_name (drop j ls) = lower_name ys)"

definition entry_ok :: "byte list \<Rightarrow> centry list \<Rightarrow> centry \<Rightarrow> bool" where
  "entry_ok m earlier e \<longleftrightarrow> (case e of (i, ls, v) \<Rightarrow>
     wf_name ls \<and> v \<le> length ls \<and>
     (\<forall>j<v. occurs m (i + lab_pos ls j) (drop j ls)) \<and>
     (\<forall>j. v \<le> j \<and> j < length ls \<longrightarrow> (\<exists>e'\<in>set earlier. has_suffix (drop j ls) e')) \<and>
     (\<forall>(i', ls', v')\<in>set earlier. \<forall>j<v'. i' + lab_pos ls' j < i))"

primrec entries_ok :: "byte list \<Rightarrow> centry list \<Rightarrow> centry list \<Rightarrow> bool" where
  "entries_ok m earlier [] \<longleftrightarrow> True"
| "entries_ok m earlier (e # es) \<longleftrightarrow> entry_ok m earlier e \<and> entries_ok m (earlier @ [e]) es"

lemma entries_ok_append: "entries_ok m q (es @ fs) \<longleftrightarrow> entries_ok m q es \<and> entries_ok m (q @ es) fs"
  by (induction es arbitrary: q) auto

lemma occurs_append: "occurs m p ls \<Longrightarrow> occurs (m @ r) p ls"
  unfolding occurs_def using cname_append by blast

lemma entries_ok_extend: "entries_ok m q es \<Longrightarrow> entries_ok (m @ r) q es"
  by (induction es arbitrary: q) (auto simp: entry_ok_def occurs_append)

lemma entries_ok_entry:
  "entries_ok m q es \<Longrightarrow> e \<in> set es \<Longrightarrow> \<exists>q'. entry_ok m q' e \<and> set q' \<subseteq> set q \<union> set es"
  by (induction es arbitrary: q) fastforce+

text \<open>The state of the search after the entries \<open>q\<close>, for the name \<open>xs\<close>.\<close>

definition search_ok :: "byte list list \<Rightarrow> centry list \<Rightarrow> nat \<times> nat \<times> nat \<Rightarrow> bool" where
  "search_ok xs q st \<longleftrightarrow> (case st of (L, lrem, coffs) \<Rightarrow>
     (L > 0 \<longrightarrow> lrem = lab_pos xs (length xs - L) \<and> L \<le> length xs \<and> coffs \<le> 0x3fff \<and>
        (\<exists>(i, ls, v)\<in>set q. \<exists>j<v. coffs = i + lab_pos ls j \<and>
           lower_name (drop j ls) = lower_name (drop (length xs - L) xs))) \<and>
     (\<forall>(i, ls, v)\<in>set q. common_labels xs ls \<le> L \<or>
        i + lab_pos ls (length ls - common_labels xs ls) > 0x3fff))"

lemma same_suffix_trans_lower:
  assumes "same_suffix xs ls k" "lower_name (drop j ls') = lower_name (drop (length ls - k) ls)"
  shows "j = length ls' - k \<and> k \<le> common_labels xs ls' \<or> k = 0"
proof -
  from arg_cong [OF assms(2), of length] assms(1) have "length ls' - j = k"
    by (auto simp: same_suffix_def lower_name_def)
  with assms have "k = 0 \<or> j = length ls' - k \<and> same_suffix xs ls' k" by (auto simp: same_suffix_def)
  then show ?thesis by (auto simp: same_suffix_iff)
qed

lemma search_ok_step:
  assumes e: "entry_ok m q (i, ls, v)" and st: "search_ok xs q (L, lrem, coffs)"
    and k: "k = common_labels xs ls" "os = lab_pos xs (length xs - k)" "od = lab_pos ls (length ls - k)"
  shows "search_ok xs (q @ [(i, ls, v)]) (if k > L \<and> i + od \<le> 0x3fff then (k, os, i + od) else (L, lrem, coffs))"
proof (cases "k > L \<and> i + od \<le> 0x3fff")
  case False
  with st k show ?thesis by (auto simp: search_ok_def)
next
  case True
  let ?j = "length ls - k"
  have suf: "same_suffix xs ls k" by (simp add: same_suffix_iff k(1))
  then have kl: "k \<le> length xs" "k \<le> length ls" "lower_name (drop ?j ls) = lower_name (drop (length xs - k) xs)"
    by (auto simp: same_suffix_def)
  have "?j < v"
  proof (rule ccontr)
    assume "\<not> ?j < v"
    with True kl e obtain i' ls' v' j' where q': "(i', ls', v') \<in> set q" "j' < v'"
      "lower_name (drop j' ls') = lower_name (drop ?j ls)"
      by (auto simp: entry_ok_def has_suffix_def not_less)
    let ?k' = "common_labels xs ls'"
    from same_suffix_trans_lower [OF suf q'(3)] True have j': "j' = length ls' - k" "k \<le> ?k'" by auto
    then have "lab_pos ls' (length ls' - ?k') \<le> lab_pos ls' j'" by (intro lab_pos_mono) auto
    moreover have "i' + lab_pos ls' j' < i" using e q'(1,2) by (fastforce simp: entry_ok_def)
    ultimately have "\<not> i' + lab_pos ls' (length ls' - ?k') > 0x3fff" using True by linarith
    with st q'(1) have "?k' \<le> L" by (fastforce simp: search_ok_def)
    with j'(2) True show False by simp
  qed
  moreover have "common_labels xs ls2 \<le> k \<or> i2 + lab_pos ls2 (length ls2 - common_labels xs ls2) > 0x3fff"
    if "(i2, ls2, v2) \<in> set (q @ [(i, ls, v)])" for i2 ls2 v2
    using that st True k(1) by (auto simp: search_ok_def)
  ultimately show ?thesis using True kl k by (fastforce simp: search_ok_def)
qed

lemma compress_search_spec:
  assumes "name_at inp 0 xs" "wf_name xs" "entries_ok m q es" "search_ok xs q st"
  shows "\<exists>st'. compress_search inp (map compel es) st = Some st' \<and> search_ok xs (q @ es) st'"
  using assms(3,4)
proof (induction es arbitrary: q st)
  case (Cons e es)
  obtain i ls v where e: "e = (i, ls, v)" by (cases e)
  obtain L lrem coffs where st: "st = (L, lrem, coffs)" by (cases st)
  from Cons.prems(1) e have ok: "entry_ok m q (i, ls, v)" "entries_ok m (q @ [e]) es" by auto
  then have ls: "wf_name ls" by (simp add: entry_ok_def)
  have "name_at (enc ls) 0 ls" using name_at_enc [of ls "[]"] wf_name_lab_ok [OF ls] by simp
  from domain_match_spec [OF assms(1) this] wf_name_labels [OF ls] wf_name_labels [OF assms(2)]
  have dm: "domain_match inp (enc ls) = Some (common_labels xs ls, lab_pos xs (length xs - common_labels xs ls),
    lab_pos ls (length ls - common_labels xs ls))" by (simp add: Let_def)
  from search_ok_step [OF ok(1) Cons.prems(2) [unfolded st] refl refl refl]
  have "search_ok xs (q @ [e]) (if common_labels xs ls > fst st \<and> i + lab_pos ls (length ls - common_labels xs ls) \<le> 0x3fff
    then (common_labels xs ls, lab_pos xs (length xs - common_labels xs ls), i + lab_pos ls (length ls - common_labels xs ls))
    else st)" by (simp only: e st fst_conv)
  from Cons.IH [OF ok(2) this] dm show ?case by (simp add: e compel_def cong: if_cong split del: if_split)
qed simp

text \<open>The bytes written, and the names that can then be read at its labels.\<close>

lemma encl_split: "j2 \<le> j \<Longrightarrow> encl (take j xs) = encl (take j2 xs) @ encl (drop j2 (take j xs))"
  by (metis append_take_drop_id encl_append min.absorb1 take_take)

lemma cname_pointer:
  assumes "cname m co n h ls" "co \<le> 0x3fff" "list_all lab63 xs" "j2 \<le> j"
    and m': "m' = m @ (encl (take j xs) @ ptr_bytes co) @ r"
  shows "cname m' (length m + lab_pos xs j2) (lab_pos xs j - lab_pos xs j2 + 2) (Suc h) (drop j2 (take j xs) @ ls)"
proof -
  let ?a = "m @ encl (take j2 xs)" and ?pre = "drop j2 (take j xs)" and ?r = "ptr_bytes co @ r"
  have m'_eq: "m' = ?a @ encl ?pre @ ?r" using encl_split [OF assms(4), of xs] by (simp add: m')
  have "rd m' (length ?a + length (encl ?pre)) = Some (ptr_bytes co ! 0)"
    "rd m' (length ?a + length (encl ?pre) + 1) = Some (ptr_bytes co ! 1)"
    unfolding m'_eq by (simp_all add: rd_def nth_append ptr_bytes_def)
  moreover have "cname m' co n h ls" unfolding m' by (rule cname_append [OF assms(1)])
  ultimately have "cname m' (length ?a + length (encl ?pre)) 2 (Suc h) ls"
    using cname_ptr ptr_bytes_offs [OF assms(2)] by metis
  moreover have "list_all lab63 ?pre" using assms(3) by (auto simp: list_all_iff dest: in_set_dropD in_set_takeD)
  ultimately have "cname m' (length ?a) (length (encl ?pre) + 2) (Suc h) (?pre @ ls)"
    unfolding m'_eq by (intro cname_encl)
  moreover have "length (encl ?pre) = lab_pos xs j - lab_pos xs j2"
    using encl_split [OF assms(4), of xs] by (simp add: lab_pos_encl)
  ultimately show ?thesis by (simp add: lab_pos_encl)
qed

lemma cname_plain:
  assumes "list_all lab63 xs" "j \<le> length xs" and m': "m' = m @ enc xs @ r"
  shows "cname m' (length m + lab_pos xs j) (length (enc xs) - lab_pos xs j) 0 (drop j xs)"
proof -
  let ?a = "m @ encl (take j xs)" and ?pre = "drop j xs"
  have x: "enc xs = encl (take j xs) @ encl ?pre @ [0]"
    using encl_split [of j "length xs" xs] assms(2) by (simp add: enc_encl)
  have m'_eq: "m' = ?a @ encl ?pre @ 0 # r" by (simp add: m' x)
  have "cname m' (length ?a + length (encl ?pre)) 1 0 []"
    unfolding m'_eq by (rule cname_end) (simp add: rd_def nth_append)
  moreover have "list_all lab63 ?pre" using assms(1) by (auto simp: list_all_iff dest: in_set_dropD)
  ultimately have "cname m' (length ?a) (length (encl ?pre) + 1) 0 (?pre @ [])"
    unfolding m'_eq by (intro cname_encl)
  then show ?thesis by (simp add: lab_pos_encl x)
qed

text \<open>
  The effect of one call with memory for the list: \<open>w\<close> is what it writes for the name \<open>xs\<close> at the end
  of the message \<open>m\<close>.
\<close>

definition written :: "byte list \<Rightarrow> centry list \<Rightarrow> byte list list \<Rightarrow> byte list \<Rightarrow> centry list \<Rightarrow> bool" where
  "written m es xs w es' \<longleftrightarrow> 0 < length w \<and> length w \<le> length (enc xs) \<and>
     (\<forall>r. entries_ok (m @ w @ r) [] es') \<and>
     (\<forall>r. \<exists>h ls. cname (m @ w @ r) (length m) (length w) h ls \<and> lower_name ls = lower_name xs \<and> h \<le> length xs + 1)"

lemma lower_name_append: "lower_name (xs @ ys) = lower_name xs @ lower_name ys"
  by (simp add: lower_name_def)

lemma lower_name_enc_length: "lower_name xs = lower_name ys \<Longrightarrow> length (enc xs) = length (enc ys)"
proof -
  assume "lower_name xs = lower_name ys"
  then have "map length (lower_name xs) = map length (lower_name ys)" by simp
  then have "map length xs = map length ys" by (simp add: lower_name_def comp_def)
  then have "map (\<lambda>n. n + 1) (map length xs) = map (\<lambda>n. n + 1) (map length ys)" by (rule arg_cong)
  then have "(\<Sum>l\<leftarrow>xs. length l + 1) = (\<Sum>l\<leftarrow>ys. length l + 1)" by (simp add: comp_def)
  then show ?thesis unfolding length_enc by simp
qed

text \<open>Every suffix of the matched part stands before the pointer of some entry.\<close>

lemma suffix_in_entries:
  assumes "entries_ok m [] es" "(i, ls, v) \<in> set es" "lower_name (drop j ls) = lower_name (drop j0 xs)"
    and "j0 \<le> k" "k < length xs"
  shows "\<exists>e'\<in>set es. has_suffix (drop k xs) e'"
proof -
  let ?k = "j + (k - j0)"
  from arg_cong [OF assms(3), of "drop (k - j0)"] assms(4) have eq: "lower_name (drop ?k ls) = lower_name (drop k xs)"
    by (simp add: lower_name_def drop_map add.commute)
  with assms(5) have "length (drop ?k ls) = length (drop k xs)"
    by (metis length_map lower_name_def)
  then have lt: "?k < length ls" using assms(5) by simp
  from entries_ok_entry [OF assms(1,2)] obtain q' where q': "entry_ok m q' (i, ls, v)" "set q' \<subseteq> set es" by auto
  show ?thesis
  proof (cases "?k < v")
    case True
    with eq assms(2) show ?thesis by (auto simp: has_suffix_def intro!: bexI [of _ "(i, ls, v)"])
  next
    case False
    with lt q'(1) obtain e' where "e' \<in> set q'" "has_suffix (drop ?k ls) e'" by (auto simp: entry_ok_def not_less)
    with q'(2) eq show ?thesis by (auto simp: has_suffix_def intro!: bexI [of _ e'])
  qed
qed

lemma search_found:
  assumes "entries_ok m [] es" "search_ok xs es (L, lrem, coffs)" "0 < L" "j = length xs - L"
  obtains i ls v j' n h ls0 where "(i, ls, v) \<in> set es" "j' < v" "lower_name (drop j' ls) = lower_name (drop j xs)"
    "L \<le> length xs" "coffs \<le> 0x3fff" "lrem = lab_pos xs j"
    "cname m coffs n h ls0" "lower_name ls0 = lower_name (drop j xs)" "h \<le> L"
proof -
  from assms(2,3) obtain i ls v j' where e: "(i, ls, v) \<in> set es" "j' < v" "coffs = i + lab_pos ls j'"
    "lower_name (drop j' ls) = lower_name (drop j xs)"
    and le: "L \<le> length xs" "coffs \<le> 0x3fff" "lrem = lab_pos xs j"
    by (fastforce simp: search_ok_def assms(4))
  from entries_ok_entry [OF assms(1) e(1)] e(2) have "occurs m coffs (drop j' ls)" by (auto simp: entry_ok_def e(3))
  then obtain n h ls0 where c: "cname m coffs n h ls0" "lower_name ls0 = lower_name (drop j xs)"
    "h \<le> length (drop j' ls)" unfolding occurs_def e(4) by blast
  from arg_cong [OF e(4), of length] have "length (drop j' ls) = L" using assms(4) le by (simp add: lower_name_def)
  with that [OF e(1,2,4) le c(1,2)] c(3) show ?thesis by simp
qed

lemma drop_take_drop: "j2 \<le> j \<Longrightarrow> drop j2 (take j xs) @ drop j xs = drop j2 xs"
  by (metis append_take_drop_id drop_drop drop_take le_add_diff_inverse2)

lemma written_pointer:
  assumes xs: "wf_name xs" and es: "entries_ok m [] es" and st: "search_ok xs es (L, lrem, coffs)" "0 < L"
    and j: "j = length xs - L" and w: "w = encl (take j xs) @ ptr_bytes coffs"
    and es': "es' = (if j = 0 then es else es @ [(length m, xs, j)])"
    and ord: "\<forall>(i', ls', v')\<in>set es. \<forall>j<v'. i' + lab_pos ls' j < length m"
  shows "written m es xs w es'"
proof -
  from search_found [OF es st j] obtain i ls v j' n h ls0 where
    e: "(i, ls, v) \<in> set es" "j' < v" "lower_name (drop j' ls) = lower_name (drop j xs)"
    and le: "L \<le> length xs" "coffs \<le> 0x3fff"
    and c: "cname m coffs n h ls0" "lower_name ls0 = lower_name (drop j xs)" "h \<le> L" .
  have labs: "list_all lab63 xs" using xs by (simp add: wf_name_def)
  have lw: "length w = lab_pos xs j + 2" by (simp add: w lab_pos_encl ptr_bytes_def)
  have low: "lower_name (drop j2 (take j xs) @ ls0) = lower_name (drop j2 xs)" if "j2 \<le> j" for j2
    using arg_cong [OF drop_take_drop [OF that, of xs], of lower_name] by (simp add: lower_name_append c(2))
  have cn: "\<exists>ls'. cname (m @ w @ r) (length m + lab_pos xs j2) (lab_pos xs j - lab_pos xs j2 + 2) (Suc h) ls' \<and>
      lower_name ls' = lower_name (drop j2 xs)" if "j2 \<le> j" for j2 r
    using cname_pointer [OF c(1) le(2) labs that refl, of r, folded w] low [OF that] by blast
  have "entry_ok (m @ w @ r) es (length m, xs, j)" for r
  proof -
    have "occurs (m @ w @ r) (length m + lab_pos xs j2) (drop j2 xs)" if "j2 < j" for j2
    proof -
      have "Suc h \<le> length (drop j2 xs)" using c(3) that j le(1) by simp
      with cn [of j2 r] that show ?thesis unfolding occurs_def by fastforce
    qed
    with suffix_in_entries [OF es e(1,3)] xs j ord show ?thesis by (simp add: entry_ok_def)
  qed
  then have ok: "entries_ok (m @ w @ r) [] es'" for r
    using entries_ok_extend [OF es, of "w @ r"] by (simp add: es' entries_ok_append)
  have "lab_pos xs j < lab_pos xs (length xs)" using st(2) j le(1) by (intro lab_pos_less) auto
  then have len: "length w \<le> length (enc xs)" "0 < length w" using lw by (simp_all add: lab_pos_length)
  have "\<exists>h ls. cname (m @ w @ r) (length m) (length w) h ls \<and> lower_name ls = lower_name xs \<and> h \<le> length xs + 1" for r
    using cn [of 0 r] lw c(3) le(1) by fastforce
  with ok len show ?thesis by (simp add: written_def)
qed

lemma written_plain:
  assumes xs: "wf_name xs" and es: "entries_ok m [] es"
    and ord: "\<forall>(i', ls', v')\<in>set es. \<forall>j<v'. i' + lab_pos ls' j < length m"
  shows "written m es xs (enc xs) (es @ [(length m, xs, length xs)])"
proof -
  have labs: "list_all lab63 xs" using xs by (simp add: wf_name_def)
  note cn = cname_plain [OF labs _ refl, of _ m]
  have "occurs (m @ enc xs @ r) (length m + lab_pos xs j) (drop j xs)" if "j < length xs" for j r
    using cn [of j r] that unfolding occurs_def by force
  then have "entries_ok (m @ enc xs @ r) [] (es @ [(length m, xs, length xs)])" for r
    using entries_ok_extend [OF es, of "enc xs @ r"] xs ord by (auto simp: entries_ok_append entry_ok_def)
  moreover have "cname (m @ enc xs @ r) (length m) (length (enc xs)) 0 xs" for r using cn [of 0 r] by simp
  ultimately show ?thesis unfolding written_def by fastforce
qed

lemma entries_ok_ord:
  assumes "entries_ok m [] es"
  shows "\<forall>(i, ls, v)\<in>set es. \<forall>j<v. i + lab_pos ls j < length m"
  using entries_ok_entry [OF assms] by (fastforce simp: entry_ok_def occurs_def dest: cname_in)

lemma name_at_take_enc: "name_at b 0 xs \<Longrightarrow> take (length (enc xs)) b = enc xs"
  by (auto simp: name_at_prefix prefix_def)

lemma name_at_take_encl:
  assumes "name_at b 0 xs" "j \<le> length xs"
  shows "take (lab_pos xs j) b = encl (take j xs)" "lab_pos xs j \<le> length b"
proof -
  have "enc xs = encl (take j xs) @ encl (drop j xs) @ [0]"
    using encl_split [of j "length xs" xs] assms(2) by (simp add: enc_encl)
  then obtain r where "b = encl (take j xs) @ r" using assms(1) by (auto simp: name_at_prefix prefix_def)
  then show "take (lab_pos xs j) b = encl (take j xs)" "lab_pos xs j \<le> length b" by (simp_all add: lab_pos_encl)
qed

lemma write_pointer:
  assumes "length s + 2 \<le> length out"
  shows "do { out \<leftarrow> wrs out 0 s; out \<leftarrow> wr out (length s) a; wr out (length s + 1) b } =
    Some (s @ [a, b] @ drop (length s + 2) out)"
proof -
  obtain x y r where r: "drop (length s) out = x # y # r"
    using assms by (cases "drop (length s) out"; cases "tl (drop (length s) out)")
      (auto dest: arg_cong [of _ _ length])
  then have "drop (length s + 2) out = r" by (metis add.commute drop_drop drop_Suc_Cons drop0 numeral_2_eq_2)
  with r assms show ?thesis by (simp add: wrs_def wr_def list_update_append)
qed

lemma compress_name_written:
  assumes n: "name_at inp 0 xs" "wf_name xs" and es: "entries_ok m [] es" and out: "length (enc xs) \<le> length out"
  shows "\<exists>w out' es'. compress_name True inp out (length m) (map compel es) = Some (length w, out', map compel es') \<and>
    take (length w) out' = w \<and> length out' = length out \<and> written m es xs w es'"
proof -
  have "rhnlen inp = Some (length (enc xs))" using rhnlen_at_name [OF n(1)] by (simp add: rhnlen_def)
  moreover have le: "length (enc xs) \<le> DNSNAMEBUFSIZE" using n(2) by (simp add: wf_name_def)
  moreover have rds_inp: "rds inp 0 (length (enc xs)) = Some (enc xs)"
    using name_at_length [OF n(1)] name_at_take_enc [OF n(1)] by (simp add: rds_def)
  ultimately have pre: "rhnlen inp = Some (length (enc xs))" "length (enc xs) \<le> DNSNAMEBUFSIZE"
    "rds inp 0 (length (enc xs)) = Some (enc xs)" by auto
  obtain L lrem coffs where st: "compress_search inp (map compel es) (0, 0, 0) = Some (L, lrem, coffs)"
    "search_ok xs es (L, lrem, coffs)"
  proof -
    have "search_ok xs [] (0, 0, 0)" by (simp add: search_ok_def)
    from compress_search_spec [OF n es this] that show ?thesis by (metis append_Nil prod_cases3)
  qed
  show ?thesis
  proof (cases "L = 0")
    case True
    let ?out = "enc xs @ drop (length (enc xs)) out"
    have "compress_name True inp out (length m) (map compel es) =
        Some (length (enc xs), ?out, map compel (es @ [(length m, xs, length xs)]))"
      using pre st(1) True out by (simp add: compress_name_def wrs_def compel_def)
    with written_plain [OF n(2) es entries_ok_ord [OF es]] out show ?thesis
      by (intro exI [of _ "enc xs"] exI [of _ ?out] exI [of _ "es @ [(length m, xs, length xs)]"] conjI) simp_all
  next
    case False
    let ?j = "length xs - L" and ?w = "encl (take (length xs - L) xs) @ ptr_bytes coffs"
    have lrem: "lrem = lab_pos xs ?j" using st(2) False by (simp add: search_ok_def)
    let ?es = "if ?j = 0 then es else es @ [(length m, xs, ?j)]"
    have wr: "written m es xs ?w ?es"
      by (rule written_pointer [OF n(2) es st(2) _ refl refl refl entries_ok_ord [OF es]]) (use False in simp)
    then have w2: "lrem + 2 \<le> length (enc xs)" by (simp add: written_def lrem lab_pos_encl ptr_bytes_def)
    let ?s = "encl (take ?j xs)"
    have s: "rds inp 0 lrem = Some ?s" "length ?s = lrem"
      using name_at_take_encl [OF n(1), of ?j] by (simp_all add: rds_def lrem lab_pos_encl)
    have "?j = 0 \<longleftrightarrow> lrem = 0" unfolding lrem by (metis lab_pos_0 lab_pos_less diff_le_self not_gr_zero)
    then have "compress_name True inp out (length m) (map compel es) =
        Some (length ?w, ?w @ drop (lrem + 2) out, map compel ?es)"
      using pre st(1) False w2 s out write_pointer [of ?s out "ptr_bytes coffs ! 0" "ptr_bytes coffs ! 1"]
      by (auto simp: compress_name_def compel_def ptr_bytes_def bind_eq_Some_conv)
    moreover have "length ?w = lrem + 2" using s(2) by (simp add: ptr_bytes_def)
    ultimately show ?thesis using wr w2 out
      by (intro exI [of _ ?w] exI [of _ "?w @ drop (lrem + 2) out"] exI [of _ ?es] conjI) auto
  qed
qed

text \<open>
  The messages the program composes: any bytes, and names written by \<^verbatim>\<open>compress_name\<close> at the
  end of the message.
\<close>

inductive msg_built :: "byte list \<Rightarrow> compel_t list \<Rightarrow> bool" where
  built_start: "msg_built [] []"
| built_data: "msg_built m cb \<Longrightarrow> msg_built (m @ d) cb"
| built_name: "msg_built m cb \<Longrightarrow> name_at inp 0 xs \<Longrightarrow> wf_name xs \<Longrightarrow> length (enc xs) \<le> length out \<Longrightarrow>
    compress_name True inp out (length m) cb = Some (rl, out', cb') \<Longrightarrow>
    msg_built (m @ take rl out') cb'"

lemma msg_built_ok: "msg_built m cb \<Longrightarrow> \<exists>es. cb = map compel es \<and> entries_ok m [] es"
proof (induction rule: msg_built.induct)
  case built_start
  then show ?case by (intro exI [of _ "[]"]) simp
next
  case (built_data m cb d)
  then show ?case using entries_ok_extend by blast
next
  case (built_name m cb inp xs out rl out' cb')
  then obtain es where es: "cb = map compel es" "entries_ok m [] es" by blast
  from compress_name_written [OF built_name(2,3) es(2) built_name(4)] built_name(5) es(1)
  obtain es' where "cb' = map compel es'" "written m es xs (take rl out') es'" by auto
  then show ?case unfolding written_def by (metis append_Nil2)
qed

text \<open>
  C4.  Compression is faithful.  Let a message be composed of arbitrary data and names written by
  \<^verbatim>\<open>compress_name\<close>.  For every well-formed name, \<^verbatim>\<open>compress_name\<close> fails no assertion and
  writes at most as many bytes as the uncompressed name has; and whatever is appended to the message
  later, \<^verbatim>\<open>decompress_name\<close> at that place succeeds, moves past exactly the bytes written, and
  yields the name up to the case of letters.
\<close>

theorem compress_decompress:
  assumes "msg_built m cb" "name_at inp 0 xs" "wf_name xs" "length (enc xs) \<le> length out"
    and "length tgt = DNSNAMEBUFSIZE"
  shows "\<exists>rl out' cb'. compress_name True inp out (length m) cb = Some (rl, out', cb') \<and>
    rl \<le> length (enc xs) \<and> length out' = length out \<and>
    (\<forall>r. let msg = m @ take rl out' @ r in
      \<exists>tgt' ys. decompress_name msg (length msg) (length m) (length msg - length m) tgt =
          Some (RC_OK, length m + rl, length msg - length m - rl, tgt', Some (length (enc xs))) \<and>
        name_at tgt' 0 ys \<and> lower_name ys = lower_name xs)"
proof -
  from msg_built_ok [OF assms(1)] obtain es where es: "cb = map compel es" "entries_ok m [] es" by blast
  from compress_name_written [OF assms(2,3) es(2) assms(4)] obtain w out' es' where
    c: "compress_name True inp out (length m) cb = Some (length w, out', map compel es')"
      "take (length w) out' = w" "length out' = length out" "written m es xs w es'" unfolding es(1) by blast
  have "\<exists>tgt' ys. decompress_name (m @ w @ r) (length (m @ w @ r)) (length m) (length (m @ w @ r) - length m) tgt =
      Some (RC_OK, length m + length w, length (m @ w @ r) - length m - length w, tgt', Some (length (enc xs))) \<and>
    name_at tgt' 0 ys \<and> lower_name ys = lower_name xs" for r
  proof -
    from c(4) obtain h ys where y: "cname (m @ w @ r) (length m) (length w) h ys" "lower_name ys = lower_name xs"
      "h \<le> length xs + 1" unfolding written_def by blast
    have len: "length (enc ys) = length (enc xs)" using lower_name_enc_length [OF y(2)] .
    have "length (enc ys) \<le> DNSNAMEBUFSIZE" "h \<le> 255"
      using len y(3) assms(3) wf_name_labels [OF assms(3)] by (auto simp: wf_name_def)
    from decompress_name_cname [OF order_refl assms(5), of "m @ w @ r" "length m" "length w" h ys "length (m @ w @ r) - length m"]
      this y(1) obtain tgt' where t: "decompress_name (m @ w @ r) (length (m @ w @ r)) (length m) (length (m @ w @ r) - length m) tgt =
        Some (RC_OK, length m + length w, length (m @ w @ r) - length m - length w, tgt', Some (length (enc ys)))"
      "take (length (enc ys)) tgt' = enc ys" by auto
    have "name_at tgt' 0 ys" using t(2) cname_labs [OF y(1)]
      by (intro name_at_take) (auto simp: list_all_iff lab63_ok)
    with t(1) y(2) show ?thesis unfolding len by blast
  qed
  moreover from c(4) have "length w \<le> length (enc xs)" by (simp add: written_def)
  ultimately show ?thesis using c(1,3)
    by (intro exI [of _ "length w"] exI [of _ out'] exI [of _ "map compel es'"] conjI allI) (simp_all only: Let_def c(2))
qed

theorem compress_decompress_witness:
  "\<exists>rl out' cb'. compress_name True [1, 65, 0] (replicate 4 0) 3 [\<lparr>index = 0, compel_s = [1, 97, 0]\<rparr>] = Some (rl, out', cb') \<and>
    rl \<le> 3"
proof -
  have labs: "name_at [1, 97, 0] 0 [[97]]" "wf_name [[97 :: byte]]" "name_at [1, 65, 0] 0 [[65]]" "wf_name [[65 :: byte]]"
    by (simp_all add: rd_def lab_ok_def wf_name_def lab63_def DNSNAMEBUFSIZE_def)
  have "compress_name True [1, 97, 0] (replicate 3 0) (length ([] :: byte list)) [] =
      Some (3, [1, 97, 0], [\<lparr>index = 0, compel_s = [1, 97, 0]\<rparr>])"
    using rhnlen_at_name [OF labs(1)]
    by (simp add: compress_name_def rhnlen_def DNSNAMEBUFSIZE_def rds_def wrs_def numeral_3_eq_3)
  from built_name [OF built_start labs(1,2) _ this]
  have b: "msg_built [1, 97, 0] [\<lparr>index = 0, compel_s = [1, 97, 0]\<rparr>]" by (simp add: numeral_3_eq_3)
  have "length (replicate 256 (0 :: byte)) = DNSNAMEBUFSIZE" by (simp add: DNSNAMEBUFSIZE_def)
  from compress_decompress [OF b labs(3,4) _ this, of "replicate 4 0"] show ?thesis
    by (fastforce simp: numeral_3_eq_3)
qed

end
