(* ===== verification/Hash.thy ===== *)
theory Hash
  imports Wire "HOL-Library.Multiset"
begin

text \<open>
  The hash table of cache entries (\<^verbatim>\<open>hash.c\<close>, \<^verbatim>\<open>hash.h\<close>).  A bucket is a linked list of
  entries; a pointer to a link is the number of the bucket and the position in its chain.  The data
  of an entry is a reference of type \<open>'c\<close> to a cache entry, and the functions that look at the name
  of the entry get it through a parameter \<open>qn\<close>, the contents of \<^verbatim>\<open>data->qname\<close>.  The theory
  shows that the hash ignores the case of letters, that chains stay sorted by the long hash, and that
  the operations implement a map from names.
\<close>

definition HASH_SZ :: nat where
  "HASH_SZ = 10"

definition HASH_NUM_BUCKETS :: nat where
  "HASH_NUM_BUCKETS = 2 ^ HASH_SZ"

definition HASH_BITMASK :: "32 word" where
  "HASH_BITMASK = of_nat HASH_NUM_BUCKETS - 1"

record 'c dns_hash_ent_t =
  rhash :: "64 word"
  data :: 'c

type_synonym 'c hash_table = "'c dns_hash_ent_t list list"

text \<open>\<^verbatim>\<open>dns_hash_loc_t\<close>: the position of a link, and the long hash.\<close>

record dns_hash_loc_t =
  loc_bucket :: nat
  loc_pos :: nat
  loc_rhash :: "64 word"

definition mk_dns_hash :: "'c hash_table" where
  "mk_dns_hash = replicate HASH_NUM_BUCKETS []"

subsection \<open>The hash of a name\<close>

definition hash_add :: "nat \<Rightarrow> byte \<Rightarrow> 32 word \<times> 64 word \<Rightarrow> 32 word \<times> 64 word" where
  "hash_add i c sr = (fst sr + push_bit (i mod (HASH_SZ - 5)) (ucast c),
                      snd sr + push_bit (i mod (8 * 8 - 7)) (ucast c))"

primrec dns_hash_lab :: "byte list \<Rightarrow> nat \<Rightarrow> nat \<Rightarrow> 32 word \<times> 64 word \<Rightarrow> (32 word \<times> 64 word) option" where
  "dns_hash_lab str 0 i sr = Some sr"
| "dns_hash_lab str (Suc lb) i sr = do {
     c \<leftarrow> rd str i;
     dns_hash_lab str lb (i + 1) (hash_add i (toupper c) sr) }"

function dns_hash_loop :: "byte list \<Rightarrow> nat \<Rightarrow> 32 word \<times> 64 word \<Rightarrow> (32 word \<times> 64 word) option" where
  "dns_hash_loop str i sr = do {
     lb \<leftarrow> rd str i;
     if lb = 0 then Some sr
     else do {
       sr \<leftarrow> dns_hash_lab str (unat lb) (i + 1) (hash_add i lb sr);
       dns_hash_loop str (i + 1 + unat lb) sr } }"
  by pat_completeness auto
termination by (relation "measure (\<lambda>(str, i, sr). length str - i)") (auto dest: rd_SomeD)

declare dns_hash_loop.simps [simp del]

definition hash_fold :: "32 word \<Rightarrow> 32 word" where
  "hash_fold s = (s AND HASH_BITMASK) + drop_bit HASH_SZ (s AND NOT HASH_BITMASK)"

definition dns_hash :: "byte list \<Rightarrow> (nat \<times> 64 word) option" where
  "dns_hash str = do {
     (s, r) \<leftarrow> dns_hash_loop str 0 (0, 0);
     Some (unat (hash_fold (hash_fold s) AND HASH_BITMASK), r) }"

subsection \<open>Operations\<close>

text \<open>
  The loop of \<^verbatim>\<open>dns_lookup\<close> and \<^verbatim>\<open>del_dns_hash\<close> along a chain, from position \<open>n\<close> on:
  the data found, if any, and the position of the last link looked at.
\<close>

primrec chain_lookup :: "('c \<Rightarrow> byte list) \<Rightarrow> byte list \<Rightarrow> 64 word \<Rightarrow> 'c dns_hash_ent_t list \<Rightarrow> nat \<Rightarrow>
    ('c option \<times> nat) option" where
  "chain_lookup qn key rh [] n = Some (None, n)"
| "chain_lookup qn key rh (he # hes) n =
     (if rhash he \<le> rh then
        if rhash he = rh then do {
          eq \<leftarrow> rhnicmp key (qn (data he));
          if eq then Some (Some (data he), n) else chain_lookup qn key rh hes (n + 1) }
        else chain_lookup qn key rh hes (n + 1)
      else Some (None, n))"

definition dns_lookup :: "('c \<Rightarrow> byte list) \<Rightarrow> 'c hash_table \<Rightarrow> byte list \<Rightarrow> ('c option \<times> dns_hash_loc_t) option" where
  "dns_lookup qn tab key = do {
     (idx, rh) \<leftarrow> dns_hash key;
     chain \<leftarrow> rd tab idx;
     (retval, n) \<leftarrow> chain_lookup qn key rh chain 0;
     Some (retval, \<lparr>loc_bucket = idx, loc_pos = n, loc_rhash = rh\<rparr>) }"

text \<open>\<open>ok\<close> says whether \<^verbatim>\<open>malloc\<close> succeeds; \<open>False\<close> is the return value 0.\<close>

definition add_dns_hash :: "bool \<Rightarrow> 'c hash_table \<Rightarrow> 'c \<Rightarrow> dns_hash_loc_t \<Rightarrow> (bool \<times> 'c hash_table) option" where
  "add_dns_hash ok tab d loc =
     (if \<not> ok then Some (False, tab)
      else do {
        chain \<leftarrow> rd tab (loc_bucket loc);
        if loc_pos loc \<le> length chain then
          Some (True, tab[loc_bucket loc :=
            take (loc_pos loc) chain @ \<lparr>rhash = loc_rhash loc, data = d\<rparr> # drop (loc_pos loc) chain])
        else None })"

definition del_dns_hash_ent :: "'c hash_table \<Rightarrow> dns_hash_loc_t \<Rightarrow> ('c \<times> 'c hash_table) option" where
  "del_dns_hash_ent tab loc = do {
     chain \<leftarrow> rd tab (loc_bucket loc);
     he \<leftarrow> rd chain (loc_pos loc);
     Some (data he, tab[loc_bucket loc := take (loc_pos loc) chain @ drop (loc_pos loc + 1) chain]) }"

definition del_dns_hash :: "('c \<Rightarrow> byte list) \<Rightarrow> 'c hash_table \<Rightarrow> byte list \<Rightarrow> ('c option \<times> 'c hash_table) option" where
  "del_dns_hash qn tab key = do {
     (idx, rh) \<leftarrow> dns_hash key;
     chain \<leftarrow> rd tab idx;
     (retval, n) \<leftarrow> chain_lookup qn key rh chain 0;
     case retval of None \<Rightarrow> Some (None, tab)
     | Some d \<Rightarrow> Some (Some d, tab[idx := take n chain @ drop (n + 1) chain]) }"

text \<open>
  Freeing a bucket or the table: the result is the new table and the entries handed to
  \<^verbatim>\<open>del_cent\<close>, in order.
\<close>

definition free_dns_hash_bucket :: "'c hash_table \<Rightarrow> nat \<Rightarrow> ('c list \<times> 'c hash_table) option" where
  "free_dns_hash_bucket tab i = do {
     chain \<leftarrow> rd tab i;
     Some (map data chain, tab[i := []]) }"

text \<open>
  \<^verbatim>\<open>free_dns_hash_selected\<close> with an include/exclude list of \<open>(domain, exact, included)\<close>.
\<close>

record slist_t =
  exact :: bool
  included :: bool
  domain :: "byte list"

primrec slist_selects :: "slist_t list \<Rightarrow> byte list \<Rightarrow> bool option" where
  "slist_selects [] name = Some False"
| "slist_selects (sl # sla) name = do {
     (k, nrem, lrem) \<leftarrow> domain_match name (domain sl);
     if lrem = 0 \<and> (\<not> exact sl \<or> nrem = 0) then Some (included sl)
     else slist_selects sla name }"

primrec free_selected_chain :: "('c \<Rightarrow> byte list) \<Rightarrow> slist_t list \<Rightarrow> 'c dns_hash_ent_t list \<Rightarrow>
    ('c list \<times> 'c dns_hash_ent_t list) option" where
  "free_selected_chain qn sla [] = Some ([], [])"
| "free_selected_chain qn sla (he # hes) = do {
     del \<leftarrow> slist_selects sla (qn (data he));
     (ds, rest) \<leftarrow> free_selected_chain qn sla hes;
     Some (if del then (data he # ds, rest) else (ds, he # rest)) }"

definition free_dns_hash_selected :: "('c \<Rightarrow> byte list) \<Rightarrow> slist_t list \<Rightarrow> 'c hash_table \<Rightarrow> nat \<Rightarrow>
    ('c list \<times> 'c hash_table) option" where
  "free_dns_hash_selected qn sla tab i = do {
     chain \<leftarrow> rd tab i;
     (ds, rest) \<leftarrow> free_selected_chain qn sla chain;
     Some (ds, tab[i := rest]) }"

definition free_dns_hash :: "'c hash_table \<Rightarrow> 'c list \<times> 'c hash_table" where
  "free_dns_hash tab = (concat (map (map data) tab), map (\<lambda>chain. []) tab)"

text \<open>
  Iteration.  A position is the bucket and the rest of its chain (\<^verbatim>\<open>pos->ent\<close> and what
  follows it).
\<close>

record 'c dns_hash_pos_t =
  pos_bucket :: nat
  pos_ent :: "'c dns_hash_ent_t list"

text \<open>The common loop: the first non-empty bucket from \<open>i\<close> on.\<close>

function fetch_from :: "'c hash_table \<Rightarrow> nat \<Rightarrow> ('c \<times> 'c dns_hash_pos_t) option" where
  "fetch_from tab i = (if i < length tab then
     case tab ! i of he # hes \<Rightarrow> Some (data he, \<lparr>pos_bucket = i, pos_ent = hes\<rparr>)
     | [] \<Rightarrow> fetch_from tab (i + 1)
   else None)"
  by pat_completeness auto
termination by (relation "measure (\<lambda>(tab, i). length tab - i)") auto

declare fetch_from.simps [simp del]

definition fetch_first :: "'c hash_table \<Rightarrow> ('c \<times> 'c dns_hash_pos_t) option" where
  "fetch_first tab = fetch_from tab 0"

definition fetch_next :: "'c hash_table \<Rightarrow> 'c dns_hash_pos_t \<Rightarrow> ('c \<times> 'c dns_hash_pos_t) option" where
  "fetch_next tab pos = (case pos_ent pos of
     he # hes \<Rightarrow> Some (data he, pos\<lparr>pos_ent := hes\<rparr>)
   | [] \<Rightarrow> fetch_from tab (pos_bucket pos + 1))"

text \<open>The loop \<^verbatim>\<open>for(x=fetch_first(&pos); x; x=fetch_next(&pos))\<close>: the data it visits.\<close>

definition pos_left :: "'c hash_table \<Rightarrow> 'c dns_hash_pos_t \<Rightarrow> nat" where
  "pos_left tab pos = length (pos_ent pos) + length (concat (drop (pos_bucket pos + 1) tab))"

lemma fetch_from_cases:
  "fetch_from tab i = None \<and> concat (drop i tab) = [] \<or>
   (\<exists>d pos. fetch_from tab i = Some (d, pos) \<and>
      map data (concat (drop i tab)) = d # map data (pos_ent pos @ concat (drop (pos_bucket pos + 1) tab)))"
proof (induction tab i rule: fetch_from.induct)
  case (1 tab i)
  show ?case
  proof (cases "i < length tab")
    case True
    then have "drop i tab = tab ! i # drop (i + 1) tab" by (simp add: Cons_nth_drop_Suc)
    with 1 True show ?thesis by (cases "tab ! i") (auto simp: fetch_from.simps [of tab i])
  qed (simp add: fetch_from.simps)
qed

lemma fetch_next_cases:
  "fetch_next tab pos = None \<and> pos_ent pos @ concat (drop (pos_bucket pos + 1) tab) = [] \<or>
   (\<exists>d pos'. fetch_next tab pos = Some (d, pos') \<and>
      map data (pos_ent pos @ concat (drop (pos_bucket pos + 1) tab)) =
        d # map data (pos_ent pos' @ concat (drop (pos_bucket pos' + 1) tab)))"
  using fetch_from_cases [of tab "pos_bucket pos + 1"]
  by (cases "pos_ent pos") (auto simp: fetch_next_def)

function fetch_rest :: "'c hash_table \<Rightarrow> 'c dns_hash_pos_t \<Rightarrow> 'c list" where
  "fetch_rest tab pos = (case fetch_next tab pos of None \<Rightarrow> [] | Some (d, pos') \<Rightarrow> d # fetch_rest tab pos')"
  by pat_completeness auto
termination
proof (relation "measure (\<lambda>(tab, pos). pos_left tab pos)")
  fix tab :: "'c hash_table" and pos and x d pos'
  assume "fetch_next tab pos = Some x" "(d, pos') = x"
  with fetch_next_cases [of tab pos] obtain d' where
    "map data (pos_ent pos @ concat (drop (pos_bucket pos + 1) tab)) =
        d' # map data (pos_ent pos' @ concat (drop (pos_bucket pos' + 1) tab))" by auto
  from arg_cong [OF this, of length] show "((tab, pos'), tab, pos) \<in> measure (\<lambda>(tab, pos). pos_left tab pos)"
    by (simp add: pos_left_def)
qed simp

declare fetch_rest.simps [simp del]

definition fetch_all :: "'c hash_table \<Rightarrow> 'c list" where
  "fetch_all tab = (case fetch_first tab of None \<Rightarrow> [] | Some (d, pos) \<Rightarrow> d # fetch_rest tab pos)"

lemma fetch_rest_spec: "fetch_rest tab pos = map data (pos_ent pos @ concat (drop (pos_bucket pos + 1) tab))"
proof (induction tab pos rule: fetch_rest.induct)
  case (1 tab pos)
  with fetch_next_cases [of tab pos] show ?case by (auto simp: fetch_rest.simps [of tab pos])
qed

text \<open>
  C35.  Iterating with \<^verbatim>\<open>fetch_first\<close> and \<^verbatim>\<open>fetch_next\<close> ends and visits every entry of
  the table exactly once, bucket by bucket in the order of the chains.
\<close>

theorem fetch_visits_all: "fetch_all tab = map data (concat tab)"
  using fetch_from_cases [of tab 0] by (auto simp: fetch_all_def fetch_first_def fetch_rest_spec)

subsection \<open>The hash ignores the case of letters\<close>

fun hash_bytes :: "nat \<Rightarrow> byte list \<Rightarrow> 32 word \<times> 64 word \<Rightarrow> 32 word \<times> 64 word" where
  "hash_bytes i [] sr = sr"
| "hash_bytes i (c # cs) sr = hash_bytes (i + 1) cs (hash_add i c sr)"

primrec hash_labels :: "byte list list \<Rightarrow> nat \<Rightarrow> 32 word \<times> 64 word \<Rightarrow> 32 word \<times> 64 word" where
  "hash_labels [] i sr = sr"
| "hash_labels (l # ls) i sr =
     hash_labels ls (i + 1 + length l) (hash_bytes (i + 1) (map toupper l) (hash_add i (of_nat (length l)) sr))"

lemma dns_hash_lab_spec: "i + n \<le> length str \<Longrightarrow>
    dns_hash_lab str n i sr = Some (hash_bytes i (map toupper (take n (drop i str))) sr)"
proof (induction n arbitrary: i sr)
  case (Suc n)
  then have "drop i str = str ! i # drop (Suc i) str" by (simp add: Cons_nth_drop_Suc)
  with Suc show ?case by (simp add: rd_def)
qed simp

lemma dns_hash_loop_spec: "name_at str i ls \<Longrightarrow> dns_hash_loop str i sr = Some (hash_labels ls i sr)"
proof (induction ls arbitrary: i sr)
  case Nil
  then show ?case by (simp add: dns_hash_loop.simps)
next
  case (Cons l ls)
  then have n: "name_at str (i + 1 + length l) ls" by simp
  from name_at_SomeD [OF n] Cons.prems
  have "dns_hash_lab str (length l) (i + 1) sr' = Some (hash_bytes (i + 1) (map toupper l) sr')" for sr'
    by (subst dns_hash_lab_spec) auto
  with Cons.prems Cons.IH [OF n] show ?case by (subst dns_hash_loop.simps) simp
qed

lemma hash_labels_lower: "lower_name xs = lower_name ys \<Longrightarrow> hash_labels xs i sr = hash_labels ys i sr"
proof (induction xs arbitrary: ys i sr)
  case (Cons x xs)
  then obtain y ys' where ys: "ys = y # ys'" "map tolower x = map tolower y" "lower_name xs = lower_name ys'"
    by (cases ys) (auto simp: lower_name_def)
  have "map toupper (map tolower x) = map toupper (map tolower y)" using ys(2) by simp
  then have "map toupper x = map toupper y" by (simp add: comp_def)
  with Cons.IH [OF ys(3)] ys(1) map_eq_imp_length_eq [OF ys(2)] show ?case by simp
qed (auto simp: lower_name_def)

definition name_hash :: "byte list list \<Rightarrow> nat \<times> 64 word" where
  "name_hash ls = (let (s, r) = hash_labels ls 0 (0, 0) in (unat (hash_fold (hash_fold s) AND HASH_BITMASK), r))"

lemma dns_hash_name: "name_at str 0 ls \<Longrightarrow> dns_hash str = Some (name_hash ls)"
  by (simp add: dns_hash_def dns_hash_loop_spec name_hash_def split: prod.splits)

lemma name_hash_lower: "lower_name xs = lower_name ys \<Longrightarrow> name_hash xs = name_hash ys"
  using hash_labels_lower [of xs ys 0 "(0, 0)"] by (simp add: name_hash_def)

lemma HASH_BITMASK_mask: "HASH_BITMASK = mask 10"
  by (simp add: HASH_BITMASK_def HASH_NUM_BUCKETS_def HASH_SZ_def mask_eq_exp_minus_1)

lemma name_hash_less: "fst (name_hash ls) < HASH_NUM_BUCKETS"
proof -
  have "unat (s AND HASH_BITMASK) < 2 ^ 10" for s :: "32 word"
    using take_bit_nat_less_exp [of 10 "unat s"]
    unfolding HASH_BITMASK_mask take_bit_eq_mask [symmetric] by (simp add: unsigned_take_bit_eq)
  then show ?thesis by (simp add: name_hash_def HASH_NUM_BUCKETS_def HASH_SZ_def split: prod.splits)
qed

text \<open>
  C34.  \<^verbatim>\<open>dns_hash\<close> reads only the name, gives a bucket number below \<open>HASH_NUM_BUCKETS\<close>, and
  gives equal results for names that \<^verbatim>\<open>rhnicmp\<close> considers equal, although the one converts to
  upper and the other to lower case.
\<close>

theorem dns_hash_respects_rhnicmp:
  assumes "name_at a 0 xs" "name_at b 0 ys"
  shows "\<exists>idx rh. dns_hash a = Some (idx, rh) \<and> idx < HASH_NUM_BUCKETS \<and>
    (rhnicmp a b = Some True \<longrightarrow> dns_hash b = Some (idx, rh))"
  using dns_hash_name [OF assms(1)] dns_hash_name [OF assms(2)] name_hash_less [of xs] rhnicmp_name [OF assms]
    name_hash_lower [of xs ys] by (cases "name_hash xs") auto

theorem dns_hash_respects_rhnicmp_witness:
  "\<exists>idx rh. dns_hash [1, 97, 0] = Some (idx, rh) \<and> dns_hash [1, 65, 0] = Some (idx, rh)"
proof -
  have n: "name_at [1, 97, 0] 0 [[97]]" "name_at [1, 65, 0] 0 [[65]]" by (simp_all add: rd_def lab_ok_def)
  have "rhnicmp [1, 97, 0] [1, 65, 0] = Some True"
    using rhnicmp_name [OF n] by (simp add: lower_name_def tolower_def)
  with dns_hash_respects_rhnicmp [OF n] show ?thesis by blast
qed

subsection \<open>The table as a map\<close>

text \<open>The labels of a name in memory.\<close>

function name_of :: "byte list \<Rightarrow> nat \<Rightarrow> byte list list option" where
  "name_of b p = do {
     lb \<leftarrow> rd b p;
     if lb = 0 then Some []
     else do { ls \<leftarrow> name_of b (p + 1 + unat lb); Some (take (unat lb) (drop (p + 1) b) # ls) } }"
  by pat_completeness auto
termination by (relation "measure (\<lambda>(b, p). length b - p)") (auto dest: rd_SomeD)

declare name_of.simps [simp del]

lemma name_of_name_at: "name_at b p ls \<Longrightarrow> name_of b p = Some ls"
  by (induction ls arbitrary: p) (auto simp: name_of.simps [of b])

definition key_of :: "('c \<Rightarrow> byte list) \<Rightarrow> 'c \<Rightarrow> byte list list" where
  "key_of qn d = (case name_of (qn d) 0 of Some ls \<Rightarrow> lower_name ls | None \<Rightarrow> [])"

definition has_name :: "('c \<Rightarrow> byte list) \<Rightarrow> 'c \<Rightarrow> bool" where
  "has_name qn d \<longleftrightarrow> (\<exists>ls. name_at (qn d) 0 ls)"

definition entries :: "'c hash_table \<Rightarrow> 'c list" where
  "entries tab = map data (concat tab)"

definition table_ok :: "('c \<Rightarrow> byte list) \<Rightarrow> 'c hash_table \<Rightarrow> bool" where
  "table_ok qn tab \<longleftrightarrow> length tab = HASH_NUM_BUCKETS \<and>
     (\<forall>i<length tab. sorted (map rhash (tab ! i)) \<and>
        (\<forall>he\<in>set (tab ! i). has_name qn (data he) \<and> dns_hash (qn (data he)) = Some (i, rhash he))) \<and>
     distinct (map (key_of qn) (entries tab))"

definition content :: "('c \<Rightarrow> byte list) \<Rightarrow> 'c hash_table \<Rightarrow> byte list list \<rightharpoonup> 'c" where
  "content qn tab = map_of (map (\<lambda>d. (key_of qn d, d)) (entries tab))"

lemma key_of_name: "name_at (qn d) 0 ls \<Longrightarrow> key_of qn d = lower_name ls"
  by (simp add: key_of_def name_of_name_at)

lemma has_name_hash: "has_name qn d \<Longrightarrow> lower_name ls = key_of qn d \<Longrightarrow> dns_hash (qn d) = Some (name_hash ls)"
  using name_hash_lower by (metis has_name_def key_of_name dns_hash_name)

lemma has_name_rhnicmp: "name_at key 0 ls \<Longrightarrow> has_name qn d \<Longrightarrow> rhnicmp key (qn d) = Some (lower_name ls = key_of qn d)"
  by (auto simp: has_name_def key_of_name rhnicmp_name)

lemma mset_concat_update: "i < length tab \<Longrightarrow>
    mset (concat (tab[i := c])) + mset (tab ! i) = mset (concat tab) + mset c"
proof (induction tab arbitrary: i)
  case (Cons x tab)
  then show ?case by (cases i) (auto simp: ac_simps)
qed simp

lemma entries_update: "i < length tab \<Longrightarrow>
    mset (entries (tab[i := c])) + mset (map data (tab ! i)) = mset (entries tab) + mset (map data c)"
  using arg_cong [OF mset_concat_update [of i tab c], of "image_mset data"] by (simp add: entries_def)

lemma in_entries: "d \<in> set (entries tab) \<longleftrightarrow> (\<exists>i<length tab. \<exists>he\<in>set (tab ! i). data he = d)"
proof -
  have "set (concat tab) = (\<Union>i<length tab. set (tab ! i))"
    by (fastforce simp: in_set_conv_nth [of _ tab])
  then show ?thesis by (auto simp: entries_def)
qed

lemma content_Some:
  assumes "table_ok qn tab"
  shows "content qn tab k = Some d \<longleftrightarrow> d \<in> set (entries tab) \<and> key_of qn d = k"
proof -
  have "distinct (map fst (map (\<lambda>d. (key_of qn d, d)) (entries tab)))"
    using assms by (simp add: table_ok_def comp_def)
  from map_of_eq_Some_iff [OF this] show ?thesis by (auto simp: content_def)
qed

lemma content_None: "content qn tab k = None \<longleftrightarrow> k \<notin> key_of qn ` set (entries tab)"
  by (force simp: content_def map_of_eq_None_iff)

text \<open>What the search along a chain finds.\<close>

lemma chain_lookup_spec:
  assumes "name_at key 0 ls" "sorted (map rhash hes)" "\<forall>he\<in>set hes. has_name qn (data he)"
  shows "\<exists>r k. chain_lookup qn key rh hes n = Some (r, n + k) \<and> k \<le> length hes \<and>
    (\<forall>he\<in>set (take k hes). rhash he \<le> rh) \<and>
    (case r of None \<Rightarrow> (\<forall>he\<in>set (drop k hes). rh \<le> rhash he) \<and>
        (\<forall>he\<in>set hes. rhash he = rh \<longrightarrow> key_of qn (data he) \<noteq> lower_name ls)
     | Some d \<Rightarrow> k < length hes \<and> data (hes ! k) = d \<and> rhash (hes ! k) = rh \<and> key_of qn d = lower_name ls)"
  using assms(2,3)
proof (induction hes arbitrary: n)
  case (Cons he hes)
  have cmp: "rhnicmp key (qn (data he)) = Some (lower_name ls = key_of qn (data he))"
    using Cons.prems(2) by (intro has_name_rhnicmp [OF assms(1)]) simp
  consider (past) "rh < rhash he" | (found) "rhash he = rh" "lower_name ls = key_of qn (data he)"
    | (on) "rhash he \<le> rh" "rhash he = rh \<longrightarrow> lower_name ls \<noteq> key_of qn (data he)" by fastforce
  then show ?case
  proof cases
    case past
    with Cons.prems(1) show ?thesis by (intro exI [of _ None] exI [of _ 0]) auto
  next
    case found
    with cmp show ?thesis by (intro exI [of _ "Some (data he)"] exI [of _ 0]) simp
  next
    case on
    with cmp have "chain_lookup qn key rh (he # hes) n = chain_lookup qn key rh hes (n + 1)" by auto
    moreover from Cons.IH [of "n + 1"] Cons.prems obtain r k where
      "chain_lookup qn key rh hes (n + 1) = Some (r, n + 1 + k)" "k \<le> length hes"
      "\<forall>he\<in>set (take k hes). rhash he \<le> rh"
      "case r of None \<Rightarrow> (\<forall>he\<in>set (drop k hes). rh \<le> rhash he) \<and>
        (\<forall>he\<in>set hes. rhash he = rh \<longrightarrow> key_of qn (data he) \<noteq> lower_name ls)
       | Some d \<Rightarrow> k < length hes \<and> data (hes ! k) = d \<and> rhash (hes ! k) = rh \<and> key_of qn d = lower_name ls"
      by auto
    ultimately show ?thesis using on
      by (intro exI [of _ r] exI [of _ "Suc k"]) (auto split: option.splits)
  qed
qed simp

lemma table_okD:
  assumes "table_ok qn tab" "i < length tab"
  shows "sorted (map rhash (tab ! i))" "he \<in> set (tab ! i) \<Longrightarrow> has_name qn (data he)"
    "he \<in> set (tab ! i) \<Longrightarrow> dns_hash (qn (data he)) = Some (i, rhash he)"
  using assms by (auto simp: table_ok_def)

text \<open>\<open>loc\<close> is a place where an entry with the key \<open>ls\<close> may be inserted.\<close>

definition loc_ok :: "'c hash_table \<Rightarrow> byte list list \<Rightarrow> dns_hash_loc_t \<Rightarrow> bool" where
  "loc_ok tab ls loc \<longleftrightarrow> (loc_bucket loc, loc_rhash loc) = name_hash ls \<and> loc_bucket loc < length tab \<and>
     loc_pos loc \<le> length (tab ! loc_bucket loc) \<and>
     (\<forall>he\<in>set (take (loc_pos loc) (tab ! loc_bucket loc)). rhash he \<le> loc_rhash loc) \<and>
     (\<forall>he\<in>set (drop (loc_pos loc) (tab ! loc_bucket loc)). loc_rhash loc \<le> rhash he)"

definition loc_at :: "'c hash_table \<Rightarrow> 'c \<Rightarrow> dns_hash_loc_t \<Rightarrow> bool" where
  "loc_at tab d loc \<longleftrightarrow> loc_bucket loc < length tab \<and> loc_pos loc < length (tab ! loc_bucket loc) \<and>
     data (tab ! loc_bucket loc ! loc_pos loc) = d"

lemma dns_lookup_spec:
  assumes "table_ok qn tab" "name_at key 0 ls"
  shows "\<exists>loc. dns_lookup qn tab key = Some (content qn tab (lower_name ls), loc) \<and>
    (case content qn tab (lower_name ls) of None \<Rightarrow> loc_ok tab ls loc | Some d \<Rightarrow> loc_at tab d loc)"
proof -
  obtain idx rh where h: "name_hash ls = (idx, rh)" by (cases "name_hash ls")
  with name_hash_less [of ls] assms(1) have idx: "idx < length tab" by (auto simp: table_ok_def)
  note t = table_okD [OF assms(1) idx]
  from chain_lookup_spec [OF assms(2) t(1), of qn rh 0] t(2) obtain r k where
    c: "chain_lookup qn key rh (tab ! idx) 0 = Some (r, k)" "k \<le> length (tab ! idx)"
      "\<forall>he\<in>set (take k (tab ! idx)). rhash he \<le> rh"
    and r: "case r of None \<Rightarrow> (\<forall>he\<in>set (drop k (tab ! idx)). rh \<le> rhash he) \<and>
        (\<forall>he\<in>set (tab ! idx). rhash he = rh \<longrightarrow> key_of qn (data he) \<noteq> lower_name ls)
     | Some d \<Rightarrow> k < length (tab ! idx) \<and> data (tab ! idx ! k) = d \<and> rhash (tab ! idx ! k) = rh \<and> key_of qn d = lower_name ls"
    by auto
  have lk: "dns_lookup qn tab key = Some (r, \<lparr>loc_bucket = idx, loc_pos = k, loc_rhash = rh\<rparr>)"
    using dns_hash_name [OF assms(2)] h idx c(1) by (simp add: dns_lookup_def rd_def)
  show ?thesis
  proof (cases r)
    case (Some d)
    with r have "d \<in> set (entries tab)" "key_of qn d = lower_name ls" using idx nth_mem by (auto simp: in_entries)
    then have "content qn tab (lower_name ls) = Some d" by (simp add: content_Some [OF assms(1)])
    with lk Some r idx show ?thesis by (simp add: loc_at_def)
  next
    case None
    have "lower_name ls \<notin> key_of qn ` set (entries tab)"
    proof
      assume "lower_name ls \<in> key_of qn ` set (entries tab)"
      then obtain i he where he: "i < length tab" "he \<in> set (tab ! i)" "key_of qn (data he) = lower_name ls"
        by (auto simp: in_entries)
      from has_name_hash [of qn "data he" ls] table_okD(2,3) [OF assms(1) he(1,2)] he(3) h
      have "i = idx" "rhash he = rh" by auto
      with he None r show False by auto
    qed
    then have "content qn tab (lower_name ls) = None" by (simp add: content_None)
    with lk None r c idx h show ?thesis by (simp add: loc_ok_def)
  qed
qed

text \<open>Replacing a chain of the table.\<close>

lemma table_ok_update:
  assumes "table_ok qn tab" "i < length tab" "sorted (map rhash c)"
    and "\<forall>he\<in>set c. has_name qn (data he) \<and> dns_hash (qn (data he)) = Some (i, rhash he)"
    and "distinct (map (key_of qn) (entries (tab[i := c])))"
  shows "table_ok qn (tab[i := c])"
  using assms by (auto simp: table_ok_def nth_list_update)

lemma content_eqI:
  assumes "table_ok qn tab" "\<And>k d. m k = Some d \<longleftrightarrow> d \<in> set (entries tab) \<and> key_of qn d = k"
  shows "content qn tab = m"
proof
  show "content qn tab k = m k" for k
    using content_Some [OF assms(1), of k] assms(2) [of k] by (metis not_None_eq)
qed

lemma distinct_key_mset:
  "mset xs = mset ys \<Longrightarrow> distinct (map f xs) \<longleftrightarrow> distinct (map f ys)"
  by (metis mset_eq_imp_distinct_iff mset_map)

lemma sorted_insert_at:
  assumes "sorted (map f c)" "\<forall>x\<in>set (take n c). f x \<le> f new" "\<forall>x\<in>set (drop n c). f new \<le> f x"
  shows "sorted (map f (take n c @ new # drop n c))"
proof -
  have "sorted (map f (take n c @ drop n c))" using assms(1) by simp
  then have "sorted (map f (take n c))" "sorted (map f (drop n c))"
    "\<forall>x\<in>set (take n c). \<forall>y\<in>set (drop n c). f x \<le> f y"
    unfolding map_append sorted_append by auto
  with assms(2,3) show ?thesis unfolding map_append sorted_append by auto
qed

lemma mset_insert_at: "mset (map f (take n c @ x # drop n c)) = add_mset (f x) (mset (map f c))"
proof -
  have "mset (take n c) + mset (drop n c) = mset c" by (metis append_take_drop_id mset_append)
  from arg_cong [OF this, of "image_mset f"] show ?thesis by simp
qed

lemma add_dns_hash_spec:
  assumes "table_ok qn tab" "has_name qn d" "key_of qn d = lower_name ls" "loc_ok tab ls loc"
    and "content qn tab (lower_name ls) = None"
  shows "\<exists>tab'. add_dns_hash True tab d loc = Some (True, tab') \<and> table_ok qn tab' \<and>
    mset (entries tab') = add_mset d (mset (entries tab)) \<and>
    content qn tab' = (content qn tab)(lower_name ls \<mapsto> d)"
proof -
  let ?i = "loc_bucket loc" and ?n = "loc_pos loc"
  let ?new = "\<lparr>rhash = loc_rhash loc, data = d\<rparr>"
  let ?c = "take ?n (tab ! ?i) @ ?new # drop ?n (tab ! ?i)"
  let ?tab = "tab[?i := ?c]"
  from assms(4) have i: "?i < length tab" "?n \<le> length (tab ! ?i)" "name_hash ls = (?i, loc_rhash loc)"
    and ord: "\<forall>he\<in>set (take ?n (tab ! ?i)). rhash he \<le> loc_rhash loc"
      "\<forall>he\<in>set (drop ?n (tab ! ?i)). loc_rhash loc \<le> rhash he" by (auto simp: loc_ok_def)
  note t = table_okD [OF assms(1) i(1)]
  have srt: "sorted (map rhash ?c)"
    using sorted_insert_at [OF t(1), of ?n ?new] ord by simp
  have "mset (map data ?c) = add_mset d (mset (map data (tab ! ?i)))"
    using mset_insert_at [of data ?n "tab ! ?i" ?new] by simp
  then have "mset (entries ?tab) + mset (map data (tab ! ?i)) = add_mset d (mset (entries tab)) + mset (map data (tab ! ?i))"
    using entries_update [OF i(1), of ?c] by simp
  then have ms: "mset (entries ?tab) = add_mset d (mset (entries tab))" by simp
  then have es: "mset (entries ?tab) = mset (d # entries tab)" by simp
  from assms(5) have new: "key_of qn d \<notin> key_of qn ` set (entries tab)" by (simp add: content_None assms(3))
  with assms(1) have "distinct (map (key_of qn) (entries ?tab))"
    unfolding distinct_key_mset [OF es] by (simp add: table_ok_def)
  moreover have "dns_hash (qn d) = Some (?i, loc_rhash loc)"
    using has_name_hash [OF assms(2)] assms(3) i(3) by simp
  ultimately have ok: "table_ok qn ?tab"
    using srt t assms(2) by (intro table_ok_update [OF assms(1) i(1)]) (auto dest: in_set_takeD in_set_dropD)
  moreover have "content qn ?tab = (content qn tab)(lower_name ls \<mapsto> d)"
    using content_Some [OF assms(1)] new assms(3) mset_eq_setD [OF es]
    by (intro content_eqI [OF ok]) (auto split: if_splits, metis imageI)
  ultimately show ?thesis using i ms by (simp add: add_dns_hash_def rd_def)
qed

lemma del_dns_hash_ent_spec:
  assumes "table_ok qn tab" "loc_at tab d loc"
  shows "\<exists>tab'. del_dns_hash_ent tab loc = Some (d, tab') \<and> table_ok qn tab' \<and>
    mset (entries tab) = add_mset d (mset (entries tab')) \<and>
    content qn tab' = (content qn tab)(key_of qn d := None)"
proof -
  let ?i = "loc_bucket loc" and ?n = "loc_pos loc"
  let ?c = "take ?n (tab ! ?i) @ drop (?n + 1) (tab ! ?i)"
  let ?tab = "tab[?i := ?c]"
  from assms(2) have i: "?i < length tab" "?n < length (tab ! ?i)" "data (tab ! ?i ! ?n) = d" by (auto simp: loc_at_def)
  note t = table_okD [OF assms(1) i(1)]
  have chain: "tab ! ?i = take ?n (tab ! ?i) @ tab ! ?i ! ?n # drop (?n + 1) (tab ! ?i)"
    using i(2) by (simp add: id_take_nth_drop)
  have "mset (map data (tab ! ?i)) = add_mset d (mset (map data ?c))"
    using i(3) by (subst chain) simp
  then have "add_mset d (mset (entries ?tab)) + mset (map data ?c) = mset (entries tab) + mset (map data ?c)"
    using entries_update [OF i(1), of ?c] by simp
  then have ms: "mset (entries tab) = add_mset d (mset (entries ?tab))" by simp
  then have es: "mset (entries tab) = mset (d # entries ?tab)" by simp
  have dk: "distinct (map (key_of qn) (d # entries ?tab))"
    using assms(1) distinct_key_mset [OF es, of "key_of qn"] by (simp add: table_ok_def)
  have "sorted (map rhash (take ?n (tab ! ?i) @ tab ! ?i ! ?n # drop (?n + 1) (tab ! ?i)))"
    using t(1) chain by simp
  then have "sorted (map rhash ?c)" by (simp add: sorted_append)
  with dk t have ok: "table_ok qn ?tab"
    by (intro table_ok_update [OF assms(1) i(1)]) (auto dest: in_set_takeD in_set_dropD)
  moreover have "content qn ?tab = (content qn tab)(key_of qn d := None)"
    using content_Some [OF assms(1)] dk mset_eq_setD [OF es]
    by (intro content_eqI [OF ok]) (auto, metis imageI)
  ultimately show ?thesis using i ms by (simp add: del_dns_hash_ent_def rd_def)
qed

lemma del_dns_hash_ent_eq:
  assumes "table_ok qn tab" "name_at key 0 ls"
  shows "\<exists>tab'. del_dns_hash qn tab key = Some (content qn tab (lower_name ls), tab') \<and> table_ok qn tab' \<and>
    content qn tab' = (content qn tab)(lower_name ls := None) \<and>
    mset (entries tab) = mset (entries tab') + (case content qn tab (lower_name ls) of None \<Rightarrow> {#} | Some d \<Rightarrow> {#d#})"
proof -
  from dns_lookup_spec [OF assms] obtain loc where
    l: "dns_lookup qn tab key = Some (content qn tab (lower_name ls), loc)"
      "case content qn tab (lower_name ls) of None \<Rightarrow> loc_ok tab ls loc | Some d \<Rightarrow> loc_at tab d loc" by blast
  show ?thesis
  proof (cases "content qn tab (lower_name ls)")
    case None
    then have "content qn tab = (content qn tab)(lower_name ls := None)" by auto
    with l None assms(1) show ?thesis
      by (auto simp: dns_lookup_def del_dns_hash_def bind_eq_Some_conv split: prod.splits)
  next
    case (Some d)
    with l(2) have at: "loc_at tab d loc" by simp
    from Some have k: "key_of qn d = lower_name ls" by (simp add: content_Some [OF assms(1)])
    from del_dns_hash_ent_spec [OF assms(1) at] k obtain tab' where
      t: "del_dns_hash_ent tab loc = Some (d, tab')" "table_ok qn tab'"
        "mset (entries tab) = add_mset d (mset (entries tab'))"
        "content qn tab' = (content qn tab)(lower_name ls := None)" by auto
    have "del_dns_hash qn tab key = Some (Some d, tab')"
      using l(1) Some t(1) by (auto simp: dns_lookup_def del_dns_hash_def del_dns_hash_ent_def bind_eq_Some_conv
          split: prod.splits)
    with t Some show ?thesis by simp
  qed
qed

subsection \<open>The interface of the table\<close>

text \<open>
  What the cache relies on: a partial map from keys, with a search that yields the value or a place to
  insert at.
\<close>

locale keyed_table =
  fixes ok :: "'t \<Rightarrow> bool"
    and cont :: "'t \<Rightarrow> 'k \<rightharpoonup> 'v"
    and keyv :: "'v \<Rightarrow> 'k"
    and good :: "'v \<Rightarrow> bool"
    and look :: "'t \<Rightarrow> 'q \<Rightarrow> ('v option \<times> 'l) option"
    and ins :: "'t \<Rightarrow> 'v \<Rightarrow> 'l \<Rightarrow> (bool \<times> 't) option"
    and del :: "'t \<Rightarrow> 'q \<Rightarrow> ('v option \<times> 't) option"
    and denotes :: "'q \<Rightarrow> 'k \<Rightarrow> bool"
  assumes look: "ok t \<Longrightarrow> denotes q k \<Longrightarrow> \<exists>loc. look t q = Some (cont t k, loc)"
    and look_ins: "ok t \<Longrightarrow> denotes q k \<Longrightarrow> look t q = Some (None, loc) \<Longrightarrow> good v \<Longrightarrow> keyv v = k \<Longrightarrow>
      \<exists>t'. ins t v loc = Some (True, t') \<and> ok t' \<and> cont t' = (cont t)(k \<mapsto> v)"
    and del: "ok t \<Longrightarrow> denotes q k \<Longrightarrow> \<exists>t'. del t q = Some (cont t k, t') \<and> ok t' \<and> cont t' = (cont t)(k := None)"
begin

lemma find_inserted:
  assumes "ok t" "denotes q k" "look t q = Some (None, loc)" "good v" "keyv v = k"
  shows "\<exists>t'. ins t v loc = Some (True, t') \<and> ok t' \<and>
    (\<forall>q' k'. denotes q' k' \<longrightarrow> (\<exists>loc'. look t' q' = Some (if k' = k then Some v else cont t k', loc')))"
proof -
  from look_ins [OF assms] obtain t' where
    t': "ins t v loc = Some (True, t')" "ok t'" "cont t' = (cont t)(k \<mapsto> v)" by blast
  have "\<exists>loc'. look t' q' = Some (if k' = k then Some v else cont t k', loc')" if "denotes q' k'" for q' k'
    using look [OF t'(2) that] t'(3) by simp
  with t' show ?thesis by blast
qed

lemma delete_inserted:
  assumes "ok t" "denotes q k" "look t q = Some (None, loc)" "good v" "keyv v = k"
  shows "\<exists>t' t''. ins t v loc = Some (True, t') \<and> del t' q = Some (Some v, t'') \<and> ok t'' \<and> cont t'' = cont t"
proof -
  from look_ins [OF assms] obtain t' where t': "ins t v loc = Some (True, t')" "ok t'" "cont t' = (cont t)(k \<mapsto> v)" by blast
  from del [OF t'(2) assms(2)] obtain t'' where
    t'': "del t' q = Some (cont t' k, t'')" "ok t''" "cont t'' = (cont t')(k := None)" by blast
  from look [OF assms(1,2)] assms(3) have "cont t k = None" by auto
  with t'(3) t''(3) have "cont t'' = cont t" by auto
  with t' t'' show ?thesis by auto
qed

lemma not_found_deleted:
  assumes "ok t" "denotes q k"
  shows "\<exists>r t' loc. del t q = Some (r, t') \<and> look t' q = Some (None, loc)"
  using del [OF assms] look [OF _ assms(2)] by (metis fun_upd_same)

end

definition denotes_key :: "byte list \<Rightarrow> byte list list \<Rightarrow> bool" where
  "denotes_key key k \<longleftrightarrow> (\<exists>ls. name_at key 0 ls \<and> lower_name ls = k)"

interpretation dns_table: keyed_table "table_ok qn" "content qn" "key_of qn" "has_name qn"
    "dns_lookup qn" "add_dns_hash True" "del_dns_hash qn" denotes_key
proof
  fix t :: "'a hash_table" and q k
  assume t: "table_ok qn t" and "denotes_key q k"
  then obtain ls where ls: "name_at q 0 ls" "lower_name ls = k" by (auto simp: denotes_key_def)
  show "\<exists>loc. dns_lookup qn t q = Some (content qn t k, loc)"
    using dns_lookup_spec [OF t ls(1)] ls(2) by auto
  show "\<exists>t'. del_dns_hash qn t q = Some (content qn t k, t') \<and> table_ok qn t' \<and> content qn t' = (content qn t)(k := None)"
    using del_dns_hash_ent_eq [OF t ls(1)] ls(2) by auto
  fix loc v
  assume lk: "dns_lookup qn t q = Some (None, loc)" and v: "has_name qn v" "key_of qn v = k"
  from dns_lookup_spec [OF t ls(1)] lk have "content qn t (lower_name ls) = None" "loc_ok t ls loc"
    by (auto split: option.splits)
  from add_dns_hash_spec [OF t v(1) _ this(2,1)] v(2) ls(2)
  show "\<exists>t'. add_dns_hash True t v loc = Some (True, t') \<and> table_ok qn t' \<and> content qn t' = (content qn t)(k \<mapsto> v)"
    by auto
qed

text \<open>The table stands for the map \<open>m\<close>: it is well-formed, and a search for any name finds what the map has for it.\<close>

definition implements :: "('c \<Rightarrow> byte list) \<Rightarrow> 'c hash_table \<Rightarrow> (byte list list \<Rightarrow> 'c option) \<Rightarrow> bool" where
  "implements qn tab m \<longleftrightarrow> table_ok qn tab \<and> (\<forall>key ls. name_at key 0 ls \<longrightarrow> (\<exists>loc. dns_lookup qn tab key = Some (m (lower_name ls), loc)))"

lemma implementsI:
  assumes "implements qn tab m" "table_ok qn tab'" "content qn tab' = (content qn tab)(k := x)"
  shows "implements qn tab' (m(k := x))"
proof -
  have "\<exists>loc. dns_lookup qn tab' key = Some ((m(k := x)) (lower_name ls), loc)" if "name_at key 0 ls" for key ls
  proof -
    from assms(1) that obtain loc where "dns_lookup qn tab key = Some (m (lower_name ls), loc)" by (auto simp: implements_def)
    with dns_lookup_spec [of qn tab key ls] assms(1) that have "m (lower_name ls) = content qn tab (lower_name ls)" by (auto simp: implements_def)
    with dns_lookup_spec [OF assms(2) that] assms(3) show ?thesis by (auto split: if_splits)
  qed
  with assms(2) show ?thesis by (simp add: implements_def)
qed

lemma table_ok_mk: "table_ok qn mk_dns_hash"
  by (simp add: table_ok_def mk_dns_hash_def entries_def)

lemma implements_mk: "implements qn mk_dns_hash Map.empty"
proof -
  have "content qn mk_dns_hash = Map.empty" by (simp add: content_def entries_def mk_dns_hash_def)
  with dns_lookup_spec [OF table_ok_mk, of _ _ qn] show ?thesis by (fastforce simp: implements_def table_ok_mk)
qed

text \<open>
  C20.  The hash table is a map from names, up to the case of letters.  The new table is the empty map.  \<^verbatim>\<open>dns_lookup\<close>
  finds what the map has for the key and a place; when it finds nothing, \<^verbatim>\<open>add_dns_hash\<close> at that place adds an entry of
  this name to the map, and when it finds an entry, \<^verbatim>\<open>del_dns_hash_ent\<close> at that place returns it and takes it out of the
  map; \<^verbatim>\<open>del_dns_hash\<close> of any key returns what the map has for it and takes it out.  Every other key is found as before.
\<close>

theorem hash_table_map_laws:
  assumes "implements qn tab m" "name_at key 0 ls"
  defines "k \<equiv> lower_name ls"
  shows "implements qn mk_dns_hash Map.empty \<and>
    (\<exists>loc. dns_lookup qn tab key = Some (m k, loc) \<and>
      (case m k of
         None \<Rightarrow> \<forall>d. has_name qn d \<and> key_of qn d = k \<longrightarrow>
           (\<exists>tab'. add_dns_hash True tab d loc = Some (True, tab') \<and> implements qn tab' (m(k \<mapsto> d)))
       | Some d \<Rightarrow> \<exists>tab'. del_dns_hash_ent tab loc = Some (d, tab') \<and> implements qn tab' (m(k := None)))) \<and>
    (\<exists>tab'. del_dns_hash qn tab key = Some (m k, tab') \<and> implements qn tab' (m(k := None)))"
proof -
  from assms(1) have t: "table_ok qn tab" by (simp add: implements_def)
  from assms(1,2) obtain loc where l: "dns_lookup qn tab key = Some (m k, loc)" by (auto simp: implements_def k_def)
  with dns_lookup_spec [OF t assms(2)] have c: "content qn tab k = m k" and
    at: "case m k of None \<Rightarrow> loc_ok tab ls loc | Some d \<Rightarrow> loc_at tab d loc" by (auto simp: k_def)
  have "\<exists>tab'. add_dns_hash True tab d loc = Some (True, tab') \<and> implements qn tab' (m(k \<mapsto> d))"
    if "m k = None" "has_name qn d" "key_of qn d = k" for d
    using add_dns_hash_spec [OF t that(2), of ls loc] that at c implementsI [OF assms(1)] by (auto simp: k_def)
  moreover have "\<exists>tab'. del_dns_hash_ent tab loc = Some (d, tab') \<and> implements qn tab' (m(k := None))" if "m k = Some d" for d
  proof -
    from content_Some [OF t, of k d] c that have "key_of qn d = k" by simp
    with del_dns_hash_ent_spec [OF t, of d loc] at that implementsI [OF assms(1)] show ?thesis by auto
  qed
  moreover have "\<exists>tab'. del_dns_hash qn tab key = Some (m k, tab') \<and> implements qn tab' (m(k := None))"
    using dns_table.del [OF t, of key k] assms(2) c implementsI [OF assms(1)] by (fastforce simp: denotes_key_def k_def)
  ultimately show ?thesis using implements_mk l by (auto split: option.split)
qed

theorem hash_table_map_laws_witness:
  "\<exists>loc tab' tab''. dns_lookup (\<lambda>d. d) mk_dns_hash [1, 97, 0] = Some (None, loc) \<and>
    add_dns_hash True mk_dns_hash [1, 65, 0] loc = Some (True, tab') \<and> implements (\<lambda>d. d) tab' [[[97]] \<mapsto> [1, 65, 0]] \<and>
    del_dns_hash (\<lambda>d. d) tab' [1, 97, 0] = Some (Some [1, 65, 0], tab'') \<and> implements (\<lambda>d. d) tab'' Map.empty"
proof -
  have n: "name_at [1, 97, 0] 0 [[97]]" "name_at [1, 65, 0] 0 [[65]]" by (simp_all add: rd_def lab_ok_def)
  have low: "lower_name [[65]] = [[97]]" "lower_name [[97]] = [[97]]" by (simp_all add: lower_name_def tolower_def)
  have h1: "has_name (\<lambda>d. d) [1, 65, 0]" unfolding has_name_def using n(2) by (rule exI [of _ "[[65]]"])
  have h2: "key_of (\<lambda>d. d) [1, 65, 0] = [[97]]"
    using key_of_name [of "\<lambda>d. d" "[1, 65, 0]" "[[65]]"] n(2) low by simp
  from hash_table_map_laws [OF implements_mk n(1), of "\<lambda>d. d"] h1 h2 obtain loc tab' where
    l: "dns_lookup (\<lambda>d. d) mk_dns_hash [1, 97, 0] = Some (None, loc)" "add_dns_hash True mk_dns_hash [1, 65, 0] loc = Some (True, tab')"
      "implements (\<lambda>d. d) tab' [[[97]] \<mapsto> [1, 65, 0]]" unfolding low(2) by auto
  from hash_table_map_laws [OF l(3) n(1)] obtain tab'' where
    "del_dns_hash (\<lambda>d. d) tab' [1, 97, 0] = Some (Some [1, 65, 0], tab'')" "implements (\<lambda>d. d) tab'' ([[[97]] \<mapsto> [1, 65, 0]]([[97]] := None))"
    unfolding low(2) by auto
  with l show ?thesis by auto
qed

end
