(* ===== verification/Cache.thy ===== *)
theory Cache
  imports RRList Hash
begin

text \<open>
  The cache of \<^verbatim>\<open>cache.c\<close>: the hash table of entries, the list \<^verbatim>\<open>rrset_l\<close> of their record sets in
  order of age, and the accounts \<^verbatim>\<open>cache_size\<close> and \<^verbatim>\<open>ent_num\<close>.  Entries live at addresses; the hash
  table and the nodes of the list hold addresses.  An access through an address that is not allocated
  makes an operation undefined (\<open>None\<close>), so that every theorem that an operation returns includes the
  absence of dangling pointers.  Time is the argument \<open>now\<close>, the value of \<^verbatim>\<open>time(NULL)\<close> during the
  call.  The functions are modelled between taking and releasing the lock of the cache.
\<close>

subsection \<open>State\<close>

record cache =
  heap :: "nat \<Rightarrow> dns_cent_t option"
  rrset_l :: "rr_lent_t list"
  buckets :: "nat hash_table"
  cache_size :: int
  ent_num :: int
  insert_sort :: bool
  mem :: alloc
  next_addr :: nat

definition init_cache :: "alloc \<Rightarrow> cache" where
  "init_cache m = \<lparr>heap = \<lambda>_. None, rrset_l = [], buckets = mk_dns_hash, cache_size = 0, ent_num = 0,
     insert_sort = True, mem = m, next_addr = 0\<rparr>"

text \<open>The size by which the cache in memory may exceed the one on disk.\<close>

definition MCSZ :: int where
  "MCSZ = 10240"

text \<open>The name of the entry at an address; nothing can be read at an address that is not allocated.\<close>

definition qn :: "cache \<Rightarrow> nat \<Rightarrow> byte list" where
  "qn st p = (case heap st p of Some c \<Rightarrow> ce_qname c | None \<Rightarrow> [])"

abbreviation upd_cent :: "nat \<Rightarrow> dns_cent_t \<Rightarrow> cache \<Rightarrow> cache" where
  "upd_cent p c st \<equiv> st\<lparr>heap := (heap st)(p \<mapsto> c)\<rparr>"

text \<open>The set that a node stands for, and its time stamp.\<close>

definition le_rrset :: "cache \<Rightarrow> rr_lent_t \<Rightarrow> rr_set_t option" where
  "le_rrset st le = (case (heap st (le_cent le), le_idx le) of
     (Some c, Some i) \<Rightarrow> RRARR_INDEX_TESTEXT c i | _ \<Rightarrow> None)"

definition get_rrlent_ts :: "cache \<Rightarrow> rr_lent_t \<Rightarrow> int" where
  "get_rrlent_ts st le = (case le_rrset st le of Some s \<Rightarrow> rs_ts s
     | None \<Rightarrow> (case heap st (le_cent le) of Some c \<Rightarrow> neg_ts c | None \<Rightarrow> 0))"

subsection \<open>Sets of an entry in the cache\<close>

text \<open>
  \<^verbatim>\<open>insert_rrl\<close> for the set with the index \<open>i\<close>, or for the whole entry if \<open>i\<close> is \<open>None\<close>.
\<close>

definition insert_rrl :: "nat \<Rightarrow> nat option \<Rightarrow> cache \<Rightarrow> (bool \<times> cache) option" where
  "insert_rrl p i st = do {
     c \<leftarrow> heap st p;
     let rrs = (case i of None \<Rightarrow> None | Some k \<Rightarrow> RRARR_INDEX_TESTEXT c k);
     if (case rrs of None \<Rightarrow> False | Some s \<Rightarrow> has (rs_flags s) CF_LOCAL) \<or> has (ce_flags c) DF_LOCAL then Some (True, st)
     else
       let (ok, m) = malloc (mem st); st = st\<lparr>mem := m\<rparr> in
       if \<not> ok then Some (False, st)
       else
         let ne = \<lparr>le_id = next_addr st, le_cent = p, le_idx = i\<rparr>;
             st = st\<lparr>next_addr := next_addr st + 1,
                     rrset_l := rrl_insert (insert_sort st) (get_rrlent_ts st) ne (rrset_l st)\<rparr> in
         (case i of
            None \<Rightarrow> Some (True, upd_cent p (c\<lparr>neg_lent := Some (le_id ne)\<rparr>) st)
          | Some k \<Rightarrow> (case rrs of None \<Rightarrow> None
              | Some s \<Rightarrow> Some (True, upd_cent p (put_rrset c k (Some (s\<lparr>rs_lent := Some (le_id ne)\<rparr>))) st))) }"

definition del_cent_rrset :: "nat \<Rightarrow> nat \<Rightarrow> cache \<Rightarrow> (int \<times> cache) option" where
  "del_cent_rrset p i st = do {
     c \<leftarrow> heap st p;
     let (rv, c, rrl) = del_cent_rrset_by_index c i (rrset_l st);
     Some (rv, upd_cent p c (st\<lparr>rrset_l := rrl\<rparr>)) }"

definition del_cent :: "nat \<Rightarrow> cache \<Rightarrow> cache option" where
  "del_cent p st = do {
     c \<leftarrow> heap st p;
     Some (st\<lparr>cache_size := cache_size st - ce_cs c, rrset_l := free_cent c (rrset_l st),
              heap := (heap st)(p := None), ent_num := ent_num st - 1\<rparr>) }"

text \<open>The result of the deletion from the hash table is only used for a warning.\<close>

definition del_cache_ent :: "nat \<Rightarrow> dns_hash_loc_t option \<Rightarrow> cache \<Rightarrow> cache option" where
  "del_cache_ent p loc st = do {
     c \<leftarrow> heap st p;
     (d, tab) \<leftarrow> (case loc of
         Some loc \<Rightarrow> (case del_dns_hash_ent (buckets st) loc of None \<Rightarrow> None | Some (d, tab) \<Rightarrow> Some (Some d, tab))
       | None \<Rightarrow> del_dns_hash (qn st) (buckets st) (ce_qname c));
     del_cent p (st\<lparr>buckets := tab\<rparr>) }"

definition del_cache :: "byte list \<Rightarrow> cache \<Rightarrow> cache option" where
  "del_cache name st = do {
     (d, tab) \<leftarrow> del_dns_hash (qn st) (buckets st) name;
     let st = st\<lparr>buckets := tab\<rparr>;
     case d of None \<Rightarrow> Some st | Some p \<Rightarrow> del_cent p st }"

subsection \<open>Purging\<close>

text \<open>A set that has timed out and that no flag protects.\<close>

definition must_go :: "int \<Rightarrow> rr_set_t \<Rightarrow> bool" where
  "must_go now s \<longleftrightarrow> \<not> (has (rs_flags s) CF_NOPURGE \<or> has (rs_flags s) CF_LOCAL) \<and> timedout now s"

definition purge_rrset :: "int \<Rightarrow> nat \<Rightarrow> nat \<Rightarrow> bool \<Rightarrow> cache \<Rightarrow> (bool \<times> cache) option" where
  "purge_rrset now p idx test st = do {
     c \<leftarrow> heap st p;
     case RRARR_INDEX_TESTEXT c idx of None \<Rightarrow> Some (False, st)
     | Some s \<Rightarrow>
         if must_go now s then
           if test then Some (True, st)
           else do {
             (rv, st) \<leftarrow> del_cent_rrset p idx st;
             Some (True, st\<lparr>cache_size := cache_size st - rv\<rparr>) }
         else Some (False, st) }"

text \<open>
  The body of the loop over the indices and the loop; the counters are \<^verbatim>\<open>rv\<close>, \<^verbatim>\<open>numrrs\<close> and
  \<^verbatim>\<open>numrrext\<close>.
\<close>

definition purge_rrsets_step :: "int \<Rightarrow> nat \<Rightarrow> bool \<Rightarrow> nat \<Rightarrow> nat \<times> nat \<times> nat \<times> cache \<Rightarrow> (nat \<times> nat \<times> nat \<times> cache) option" where
  "purge_rrsets_step now p test i r = (let (rv, numrrs, numrrext, st) = r in do {
     c \<leftarrow> heap st p;
     case RRARR_INDEX c i of
         None \<Rightarrow> Some (rv, numrrs, numrrext, st)
       | Some s \<Rightarrow>
           if must_go now s then
             if test then Some (rv + 1, numrrs, numrrext, st)
             else do {
               (n, st) \<leftarrow> del_cent_rrset p i st;
               Some (rv + 1, numrrs, numrrext, st\<lparr>cache_size := cache_size st - n\<rparr>) }
           else Some (rv, numrrs + 1, (if i \<ge> NRRMU then numrrext + 1 else numrrext), st) })"

primrec purge_rrsets_loop :: "int \<Rightarrow> nat \<Rightarrow> bool \<Rightarrow> nat list \<Rightarrow> nat \<times> nat \<times> nat \<times> cache \<Rightarrow> (nat \<times> nat \<times> nat \<times> cache) option" where
  "purge_rrsets_loop now p test [] r = Some r"
| "purge_rrsets_loop now p test (i # is) r = do { r \<leftarrow> purge_rrsets_step now p test i r; purge_rrsets_loop now p test is r }"

text \<open>The result is the number of items deleted, \<^verbatim>\<open>*numrrsrem\<close> and the new state.\<close>

definition purge_all_rrsets :: "int \<Rightarrow> nat \<Rightarrow> bool \<Rightarrow> cache \<Rightarrow> (nat \<times> nat \<times> cache) option" where
  "purge_all_rrsets now p test st = do {
     c \<leftarrow> heap st p;
     if negative c then Some (0, 0, st)
     else do {
       (rv, numrrs, numrrext, st) \<leftarrow> purge_rrsets_loop now p test [0..<RRARR_LEN c] (0, 0, 0, st);
       c \<leftarrow> heap st p;
       if rrext c \<noteq> None \<and> numrrext = 0 then
         Some (rv + 1, numrrs,
           if test then st
           else (upd_cent p (c\<lparr>rrext := None, ce_cs := ce_cs c - sizeof_rrext\<rparr>) st)
             \<lparr>cache_size := cache_size st - sizeof_rrext\<rparr>)
       else Some (rv, numrrs, st) } }"

text \<open>
  Whether the reference \<open>cn\<close> (\<^verbatim>\<open>c_ns\<close> or \<^verbatim>\<open>c_soa\<close>) of the entry leads to no valid set of the
  type \<open>type\<close>.
\<close>

definition stale_ref :: "int \<Rightarrow> nat \<Rightarrow> dns_cent_t \<Rightarrow> byte \<Rightarrow> cache \<Rightarrow> bool option" where
  "stale_ref now type c cn st = do {
     scnt \<leftarrow> rhnsegcnt (ce_qname c);
     rrset \<leftarrow>
       (if unat cn = scnt then Some (getrrset c type)
        else if unat cn < scnt then do {
          k \<leftarrow> skipsegs (ce_qname c) 0 (scnt - unat cn);
          (r, loc) \<leftarrow> dns_lookup (qn st) (buckets st) (drop k (ce_qname c));
          (case r of None \<Rightarrow> Some None | Some q \<Rightarrow> do { ce \<leftarrow> heap st q; Some (getrrset ce type) }) }
        else Some None);
     Some (case rrset of None \<Rightarrow> True
       | Some s \<Rightarrow> rs_rrs s = [] \<or> \<not> has (rs_flags s) CF_LOCAL \<and> timedout now s) }"

definition purge_refs :: "int \<Rightarrow> nat \<Rightarrow> bool \<Rightarrow> int \<times> cache \<Rightarrow> (int \<times> cache) option" where
  "purge_refs now p test r = (let (npurge, st) = r in do {
     c \<leftarrow> heap st p;
     (npurge, st) \<leftarrow>
       (if c_ns c = cundef then Some (npurge, st)
        else do {
          stale \<leftarrow> stale_ref now T_NS c (c_ns c) st;
          Some (if stale then (npurge + 1, if test then st else upd_cent p (c\<lparr>c_ns := cundef\<rparr>) st) else (npurge, st)) });
     c \<leftarrow> heap st p;
     if c_soa c = cundef then Some (npurge, st)
     else do {
       stale \<leftarrow> stale_ref now T_SOA c (c_soa c) st;
       Some (if stale then (npurge + 1, if test then st else upd_cent p (c\<lparr>c_soa := cundef\<rparr>) st) else (npurge, st)) } })"

definition purge_cent :: "int \<Rightarrow> nat \<Rightarrow> bool \<Rightarrow> bool \<Rightarrow> cache \<Rightarrow> (int \<times> cache) option" where
  "purge_cent now p delete test st = do {
     (npurge, numrrs, st) \<leftarrow> purge_all_rrsets now p test st;
     c \<leftarrow> heap st p;
     if delete \<and> numrrs = 0 \<and> (\<not> negative c \<or> \<not> has (ce_flags c) DF_LOCAL \<and> timedout_nxdom now c) then
       if test then Some (-1, st) else do { st \<leftarrow> del_cache_ent p None st; Some (-1, st) }
     else if \<not> has (ce_flags c) DF_LOCAL then purge_refs now p test (int npurge, st)
     else Some (int npurge, st) }"

text \<open>
  The loops of \<^verbatim>\<open>purge_cache\<close> follow the links of the list: \<open>le\<close> is the address of a node, and
  reading a node that has been removed is undefined.
\<close>

definition find_lent :: "nat \<Rightarrow> cache \<Rightarrow> rr_lent_t option" where
  "find_lent le st = find (\<lambda>e. le_id e = le) (rrset_l st)"

definition lent_next :: "nat \<Rightarrow> cache \<Rightarrow> nat option" where
  "lent_next le st = map_option le_id (hdo (tl (dropWhile (\<lambda>e. le_id e \<noteq> le) (rrset_l st))))"

definition le_local :: "cache \<Rightarrow> rr_lent_t \<Rightarrow> dns_cent_t \<Rightarrow> bool" where
  "le_local st e c \<longleftrightarrow> (case le_rrset st e of None \<Rightarrow> False | Some s \<Rightarrow> has (rs_flags s) CF_LOCAL) \<or> has (ce_flags c) DF_LOCAL"

definition purge_step1 :: "int \<Rightarrow> nat \<Rightarrow> cache \<Rightarrow> cache option" where
  "purge_step1 now le st = do {
     e \<leftarrow> find_lent le st;
     c \<leftarrow> heap st (le_cent e);
     if le_local st e c then Some st
     else do {
       (b, st) \<leftarrow> (case le_idx e of None \<Rightarrow> Some (False, st) | Some i \<Rightarrow> purge_rrset now (le_cent e) i False st);
       c \<leftarrow> heap st (le_cent e);
       if ce_num_rrs c = 0 \<and> (\<not> negative c \<or> \<not> has (ce_flags c) DF_LOCAL \<and> timedout_nxdom now c)
       then del_cache_ent (le_cent e) None st else Some st } }"

definition purge_step2 :: "nat \<Rightarrow> cache \<Rightarrow> cache option" where
  "purge_step2 le st = do {
     e \<leftarrow> find_lent le st;
     c \<leftarrow> heap st (le_cent e);
     if le_local st e c then Some st
     else do {
       st \<leftarrow> (case le_idx e of None \<Rightarrow> Some st
         | Some i \<Rightarrow> do {
             (rv, st) \<leftarrow> del_cent_rrset (le_cent e) i st;
             Some (st\<lparr>cache_size := cache_size st - rv\<rparr>) });
       c \<leftarrow> heap st (le_cent e);
       if ce_num_rrs c = 0 then del_cache_ent (le_cent e) None st else Some st } }"

partial_function (option) purge_loop :: "(cache \<Rightarrow> bool) \<Rightarrow> (nat \<Rightarrow> cache \<Rightarrow> cache option) \<Rightarrow> nat option \<Rightarrow> cache \<Rightarrow> cache option" where
  "purge_loop cond step le st = (if le \<noteq> None \<and> cond st
     then Option.bind (step (the le) st) (\<lambda>st'. purge_loop cond step (lent_next (the le) st) st')
     else Some st)"

declare purge_loop.simps [code]

definition first_lent :: "cache \<Rightarrow> nat option" where
  "first_lent st = map_option le_id (hdo (rrset_l st))"

definition sort_cache_rrl :: "cache \<Rightarrow> cache option" where
  "sort_cache_rrl st = do {
     l \<leftarrow> sort_rrl (get_rrlent_ts st) (rrset_l st);
     Some (st\<lparr>rrset_l := l\<rparr>) }"

definition purge_cache :: "int \<Rightarrow> int \<Rightarrow> bool \<Rightarrow> cache \<Rightarrow> cache option" where
  "purge_cache now sz lazy st = do {
     st \<leftarrow> purge_loop (\<lambda>st. \<not> lazy \<or> cache_size st > sz) (purge_step1 now) (first_lent st) st;
     if cache_size st \<le> sz then Some st
     else do {
       st \<leftarrow> (if \<not> insert_sort st then do { st \<leftarrow> sort_cache_rrl st; Some (st\<lparr>insert_sort := True\<rparr>) } else Some st);
       purge_loop (\<lambda>st. cache_size st > sz) purge_step2 (first_lent st) st } }"

subsection \<open>Conflicts\<close>

text \<open>The set at index \<open>i\<close> conflicts with a new set at index \<open>idx\<close>.\<close>

definition excl :: "nat \<Rightarrow> nat \<Rightarrow> bool" where
  "excl idx i \<longleftrightarrow> rr_class (rr_info ! idx) AND excludes (rr_info ! i) \<noteq> 0 \<or>
     excludes (rr_info ! idx) AND rr_class (rr_info ! i) \<noteq> 0"

definition conflicts :: "nat \<Rightarrow> nat \<Rightarrow> rr_set_t option \<Rightarrow> bool" where
  "conflicts idx i rrs = (case rrs of None \<Rightarrow> False | Some s \<Rightarrow> \<not> has (rs_flags s) CF_NEGATIVE \<and> excl idx i)"

text \<open>
  The first loop: \<open>None\<close> for the early return 0, otherwise the number of conflicts and the sum of their
  remaining times.
\<close>

primrec count_conflicts :: "int \<Rightarrow> nat \<Rightarrow> dns_cent_t \<Rightarrow> nat list \<Rightarrow> nat \<times> int \<Rightarrow> (nat \<times> int) option" where
  "count_conflicts now idx c [] r = Some r"
| "count_conflicts now idx c (i # is) r =
     (if conflicts idx i (RRARR_INDEX c i) then
        let s = the (RRARR_INDEX c i) in
        if has (rs_flags s) CF_LOCAL then None
        else let rttl = rs_ttl s + rs_ts s - now in
          count_conflicts now idx c is (fst r + 1, if rttl > 0 then snd r + rttl else snd r)
      else count_conflicts now idx c is r)"

primrec del_conflicts :: "nat \<Rightarrow> nat \<Rightarrow> nat list \<Rightarrow> cache \<Rightarrow> cache option" where
  "del_conflicts idx p [] st = Some st"
| "del_conflicts idx p (i # is) st = do {
     c \<leftarrow> heap st p;
     st \<leftarrow> (if conflicts idx i (RRARR_INDEX c i) then do { (rv, st) \<leftarrow> del_cent_rrset p i st; Some st } else Some st);
     del_conflicts idx p is st }"

definition cr_check_add :: "int \<Rightarrow> nat \<Rightarrow> nat \<Rightarrow> int \<Rightarrow> 16 word \<Rightarrow> cache \<Rightarrow> (bool \<times> cache) option" where
  "cr_check_add now p idx ttl fl st = do {
     c \<leftarrow> heap st p;
     if has fl CF_NEGATIVE then Some (True, st)
     else if has fl CF_LOCAL then do { st \<leftarrow> del_conflicts idx p [0..<RRARR_LEN c] st; Some (True, st) }
     else if has (ce_flags c) DF_LOCAL then Some (False, st)
     else case count_conflicts now idx c [0..<RRARR_LEN c] (0, 0) of
         None \<Rightarrow> Some (False, st)
       | Some (ncf, nttl) \<Rightarrow>
           if ncf = 0 then Some (True, st)
           else if ttl > nttl div int ncf then do { st \<leftarrow> del_conflicts idx p [0..<RRARR_LEN c] st; Some (True, st) }
           else Some (False, st) }"

subsection \<open>Adding entries\<close>

text \<open>The loop that puts the sets of a new entry into the list; \<open>False\<close> when memory runs out.\<close>

primrec add_rrl_loop :: "cache_conf \<Rightarrow> nat \<Rightarrow> nat list \<Rightarrow> cache \<Rightarrow> (bool \<times> cache) option" where
  "add_rrl_loop g p [] st = Some (True, st)"
| "add_rrl_loop g p (i # is) st = do {
     c \<leftarrow> heap st p;
     case RRARR_INDEX c i of None \<Rightarrow> add_rrl_loop g p is st
     | Some s \<Rightarrow> do {
         (ok, st) \<leftarrow> insert_rrl p (Some i) (upd_cent p (put_rrset c i (Some (adjust_ttl g s))) st);
         if ok then add_rrl_loop g p is st else Some (False, st) } }"

text \<open>The copy of a new entry, put at a fresh address.\<close>

definition alloc_cent :: "dns_cent_t \<Rightarrow> cache \<Rightarrow> (nat option \<times> cache) option" where
  "alloc_cent cent st = do {
     (r, m) \<leftarrow> copy_cent (mem st) cent;
     let st = st\<lparr>mem := m\<rparr>;
     case r of None \<Rightarrow> Some (None, st)
     | Some ce \<Rightarrow> Some (Some (next_addr st), upd_cent (next_addr st) ce (st\<lparr>next_addr := next_addr st + 1\<rparr>)) }"

definition add_new_rrl :: "cache_conf \<Rightarrow> nat \<Rightarrow> cache \<Rightarrow> (bool \<times> cache) option" where
  "add_new_rrl g p st = do {
     ce \<leftarrow> heap st p;
     if \<not> negative ce then add_rrl_loop g p [0..<RRARR_LEN ce] st
     else do { ce \<leftarrow> adjust_dom_ttl g ce; insert_rrl p None (upd_cent p ce st) } }"

definition free_new_cent :: "nat \<Rightarrow> cache \<Rightarrow> cache option" where
  "free_new_cent p st = do {
     ce \<leftarrow> heap st p;
     Some (st\<lparr>rrset_l := free_cent ce (rrset_l st), heap := (heap st)(p := None)\<rparr>) }"

definition cache_limit :: "cache_conf \<Rightarrow> int" where
  "cache_limit g = perm_cache g * 1024 + MCSZ"

definition add_new_cent :: "cache_conf \<Rightarrow> int \<Rightarrow> dns_cent_t \<Rightarrow> dns_hash_loc_t \<Rightarrow> cache \<Rightarrow> cache option" where
  "add_new_cent g now cent loc st =
     (if ce_num_rrs cent = 0 \<and> \<not> negative cent then purge_cache now (cache_limit g) True st
      else do {
        (r, st) \<leftarrow> alloc_cent cent st;
        case r of None \<Rightarrow> Some st
        | Some p \<Rightarrow> do {
            (ok, st) \<leftarrow> add_new_rrl g p st;
            if \<not> ok then free_new_cent p st
            else do {
              let (mok, m) = malloc (mem st);
              (ok, tab) \<leftarrow> add_dns_hash mok (buckets st) p loc;
              let st = st\<lparr>mem := m, buckets := tab\<rparr>;
              if \<not> ok then free_new_cent p st
              else do {
                ce \<leftarrow> heap st p;
                purge_cache now (cache_limit g) True
                  (st\<lparr>ent_num := ent_num st + 1, cache_size := cache_size st + ce_cs ce\<rparr>) } } } })"

text \<open>Whether the set that is in the cache takes precedence over the new one.\<close>

definition keeps_old :: "int \<Rightarrow> rr_set_t \<Rightarrow> rr_set_t option \<Rightarrow> bool" where
  "keeps_old now new old = (case old of None \<Rightarrow> False
     | Some s \<Rightarrow> \<not> has (rs_flags new) CF_LOCAL \<and> has (rs_flags s) CF_LOCAL \<or>
         has (rs_flags new) CF_ADDITIONAL \<and>
           (\<not> has (rs_flags s) CF_ADDITIONAL \<or> \<not> has (rs_flags new) CF_ROOTSERV \<and> has (rs_flags s) CF_ROOTSERV) \<and>
           \<not> timedout now s)"

text \<open>How the treatment of one set ends: with the next one, or at one of the labels of the error exits.\<close>

datatype add_status = AddNext | AddSize | AddCleanup

primrec add_rrs_loop :: "nat \<Rightarrow> nat \<Rightarrow> rr_set_t \<Rightarrow> byte list list \<Rightarrow> nat option \<Rightarrow> cache \<Rightarrow> (bool \<times> cache) option" where
  "add_rrs_loop p i new [] rtail st = Some (True, st)"
| "add_rrs_loop p i new (rr # rrs) rtail st = do {
     c \<leftarrow> heap st p;
     (ok, c, rtail, rrl, m) \<leftarrow> add_cent_rr_int (mem st) (rrset_l st) c i (rs_ttl new) (rs_ts new) (rs_flags new) rr rtail;
     let st = (upd_cent p c st)\<lparr>rrset_l := rrl, mem := m\<rparr>;
     if ok then add_rrs_loop p i new rrs rtail st else Some (False, st) }"

definition replace_rrset :: "cache_conf \<Rightarrow> int \<Rightarrow> nat \<Rightarrow> nat \<Rightarrow> rr_set_t \<Rightarrow> cache \<Rightarrow> (add_status \<times> cache) option" where
  "replace_rrset g now p i new st = do {
     c \<leftarrow> heap st p;
     if keeps_old now new (RRARR_INDEX_TESTEXT c i) then Some (AddNext, st)
     else do {
       (rv, st) \<leftarrow> del_cent_rrset p i st;
       (ok, st) \<leftarrow> cr_check_add now p i (rs_ttl new) (rs_flags new) st;
       if \<not> ok then Some (AddNext, st)
       else do {
         c \<leftarrow> heap st p;
         (ok, c, rrl, m) \<leftarrow> add_cent_rrset_by_index (mem st) (rrset_l st) c i (rs_ttl new) (rs_ts new) (rs_flags new);
         let st = (upd_cent p c st)\<lparr>rrset_l := rrl, mem := m\<rparr>;
         if \<not> ok then Some (AddSize, st)
         else do {
           (ok, st) \<leftarrow> add_rrs_loop p i new (rs_rrs new) None st;
           if \<not> ok then Some (AddCleanup, st)
           else do {
             c \<leftarrow> heap st p;
             s \<leftarrow> RRARR_INDEX c i;
             (ok, st) \<leftarrow> insert_rrl p (Some i) (upd_cent p (put_rrset c i (Some (adjust_ttl g s))) st);
             Some (if ok then AddNext else AddCleanup, st) } } } } }"

text \<open>The loop over the sets of the new entry; the index tells at which set an error exit was taken.\<close>

primrec replace_loop :: "cache_conf \<Rightarrow> int \<Rightarrow> nat \<Rightarrow> dns_cent_t \<Rightarrow> nat list \<Rightarrow> cache \<Rightarrow> (add_status \<times> nat \<times> cache) option" where
  "replace_loop g now p cent [] st = Some (AddNext, 0, st)"
| "replace_loop g now p cent (i # is) st = (case RRARR_INDEX cent i of
       None \<Rightarrow> replace_loop g now p cent is st
     | Some new \<Rightarrow> do {
         (status, st) \<leftarrow> replace_rrset g now p i new st;
         if status = AddNext then replace_loop g now p cent is st else Some (status, i, st) })"

definition merge_ref :: "byte \<Rightarrow> byte \<Rightarrow> byte" where
  "merge_ref new old = (if new \<noteq> cundef \<and> (old = cundef \<or> old < new) then new else old)"

definition update_cent :: "cache_conf \<Rightarrow> int \<Rightarrow> dns_cent_t \<Rightarrow> nat \<Rightarrow> cache \<Rightarrow> cache option" where
  "update_cent g now cent p st = do {
     (n, st) \<leftarrow> purge_cent now p False False st;
     c \<leftarrow> heap st p;
     (status, i, st) \<leftarrow> replace_loop g now p cent [0..<RRARR_LEN cent] (st\<lparr>cache_size := cache_size st - ce_cs c\<rparr>);
     case status of
       AddNext \<Rightarrow> do {
         c \<leftarrow> heap st p;
         let c = c\<lparr>ce_flags := ce_flags c OR (ce_flags cent AND (DF_AUTH OR DF_WILD)),
                  c_ns := merge_ref (c_ns cent) (c_ns c), c_soa := merge_ref (c_soa cent) (c_soa c)\<rparr>;
         purge_cache now (cache_limit g) True ((upd_cent p c st)\<lparr>cache_size := cache_size st + ce_cs c\<rparr>) }
     | AddSize \<Rightarrow> do { c \<leftarrow> heap st p; Some (st\<lparr>cache_size := cache_size st + ce_cs c\<rparr>) }
     | AddCleanup \<Rightarrow> do {
         (rv, st) \<leftarrow> del_cent_rrset p i st;
         c \<leftarrow> heap st p;
         Some (st\<lparr>cache_size := cache_size st + ce_cs c\<rparr>) } }"

text \<open>
  One pass from the label \<^verbatim>\<open>retry\<close>; the boolean says that the code jumps back to it.
\<close>

definition add_cache_pass :: "cache_conf \<Rightarrow> int \<Rightarrow> dns_cent_t \<Rightarrow> cache \<Rightarrow> (bool \<times> cache) option" where
  "add_cache_pass g now cent st = do {
     (r, loc) \<leftarrow> dns_lookup (qn st) (buckets st) (ce_qname cent);
     case r of
       None \<Rightarrow> do { st \<leftarrow> add_new_cent g now cent loc st; Some (False, st) }
     | Some p \<Rightarrow>
         if negative cent then do {
           ce \<leftarrow> heap st p;
           if \<exists>i\<in>set [0..<RRARR_LEN ce]. (case RRARR_INDEX ce i of None \<Rightarrow> False | Some s \<Rightarrow> has (rs_flags s) CF_LOCAL)
           then Some (False, st)
           else do { st \<leftarrow> del_cache_ent p (Some loc) st; Some (True, st) } }
         else do { st \<leftarrow> update_cent g now cent p st; Some (False, st) } }"

partial_function (option) add_cache :: "cache_conf \<Rightarrow> int \<Rightarrow> dns_cent_t \<Rightarrow> cache \<Rightarrow> cache option" where
  "add_cache g now cent st = Option.bind (add_cache_pass g now cent st)
     (\<lambda>r. if fst r then add_cache g now cent (snd r) else Some (snd r))"

declare add_cache.simps [code]

subsection \<open>Other operations on the cache\<close>

definition invalidate_rrset :: "rr_set_t \<Rightarrow> rr_set_t" where
  "invalidate_rrset s = s\<lparr>rs_ts := 0, rs_flags := rs_flags s AND NOT CF_AUTH\<rparr>"

primrec invalidate_loop :: "nat list \<Rightarrow> dns_cent_t \<Rightarrow> dns_cent_t" where
  "invalidate_loop [] c = c"
| "invalidate_loop (i # is) c = invalidate_loop is (case RRARR_INDEX c i of None \<Rightarrow> c
     | Some s \<Rightarrow> put_rrset c i (Some (invalidate_rrset s)))"

definition invalidate_cent :: "dns_cent_t \<Rightarrow> dns_cent_t" where
  "invalidate_cent c =
     (let c = (if negative c then c\<lparr>neg_ts := 0\<rparr> else invalidate_loop [0..<RRARR_LEN c] c) in
      c\<lparr>ce_flags := ce_flags c AND NOT DF_AUTH\<rparr>)"

definition invalidate_record :: "byte list \<Rightarrow> cache \<Rightarrow> cache option" where
  "invalidate_record name st = do {
     (r, loc) \<leftarrow> dns_lookup (qn st) (buckets st) name;
     case r of None \<Rightarrow> Some st
     | Some p \<Rightarrow> do { c \<leftarrow> heap st p; Some (upd_cent p (invalidate_cent c) st) } }"

definition set_cent_flags :: "byte list \<Rightarrow> 16 word \<Rightarrow> cache \<Rightarrow> (bool \<times> cache) option" where
  "set_cent_flags name fl st = do {
     (r, loc) \<leftarrow> dns_lookup (qn st) (buckets st) name;
     case r of None \<Rightarrow> Some (False, st)
     | Some p \<Rightarrow> do { c \<leftarrow> heap st p; Some (True, upd_cent p (c\<lparr>ce_flags := ce_flags c OR fl\<rparr>) st) } }"

text \<open>\<^verbatim>\<open>getlocalowner\<close>: the position in the name at which the owner starts.\<close>

function getlocalowner_loop :: "byte list \<Rightarrow> nat \<Rightarrow> nat \<Rightarrow> cache \<Rightarrow> nat option option" where
  "getlocalowner_loop name nm tp st = do {
     lb \<leftarrow> rd name nm;
     if lb = 0 then Some None
     else do {
       (r, loc) \<leftarrow> dns_lookup (qn st) (buckets st) (drop nm name);
       case r of None \<Rightarrow> getlocalowner_loop name (nm + unat lb + 1) tp st
       | Some p \<Rightarrow> do {
           ce \<leftarrow> heap st p;
           if \<not> has (ce_flags ce) DF_LOCAL then Some None
           else if have_rr ce tp then Some (Some nm)
           else getlocalowner_loop name (nm + unat lb + 1) tp st } } }"
  by pat_completeness auto
termination
  by (relation "measure (\<lambda>(name, nm, tp, st). length name - nm)") (auto simp: rd_def split: if_splits)

declare getlocalowner_loop.simps [simp del]

definition getlocalowner :: "byte list \<Rightarrow> nat \<Rightarrow> cache \<Rightarrow> nat option option" where
  "getlocalowner name tp st = do {
     lb \<leftarrow> rd name 0;
     if lb = 0 then Some None else getlocalowner_loop name (unat lb + 1) tp st }"

text \<open>The search up the hierarchy in \<^verbatim>\<open>lookup_cache\<close>, with the kind of wildcard found.\<close>

datatype wild = w_none | w_wild | w_neg | w_locnerr

function lookup_wild :: "byte list \<Rightarrow> nat \<Rightarrow> cache \<Rightarrow> (nat option \<times> wild) option" where
  "lookup_wild name nm st = do {
     lb \<leftarrow> rd name nm;
     if lb = 0 then Some (None, w_none)
     else do {
       (r, loc) \<leftarrow> dns_lookup (qn st) (buckets st) (drop nm name);
       case r of None \<Rightarrow> lookup_wild name (nm + unat lb + 1) st
       | Some p \<Rightarrow> do {
           ce \<leftarrow> heap st p;
           if negative ce then Some (Some p, w_neg)
           else if has (ce_flags ce) DF_WILD then do {
             n \<leftarrow> rhnlen (drop nm name);
             if n > DNSNAMEBUFSIZE - 2 then None
             else do {
               (r, loc) \<leftarrow> dns_lookup (qn st) (buckets st) (1 # 42 # take n (drop nm name));
               Some (r, if r = None then w_none else w_wild) } }
           else if has (ce_flags ce) DF_LOCAL then Some (Some p, w_locnerr)
           else Some (None, w_none) } } }"
  by pat_completeness auto
termination
  by (relation "measure (\<lambda>(name, nm, st). length name - nm)") (auto simp: rd_def split: if_splits)

declare lookup_wild.simps [simp del]

definition lookup_cent :: "byte list \<Rightarrow> bool \<Rightarrow> cache \<Rightarrow> (nat option \<times> wild) option" where
  "lookup_cent name wild st = do {
     (r, loc) \<leftarrow> dns_lookup (qn st) (buckets st) name;
     if wild \<and> r = None then do {
       lb \<leftarrow> rd name 0;
       if lb = 0 then Some (None, w_none) else lookup_wild name (unat lb + 1) st }
     else Some (r, w_none) }"

text \<open>
  The part of \<^verbatim>\<open>lookup_cache\<close> under the read lock: \<open>Inl\<close> if something has to be purged first,
  otherwise the copy, the kind of wildcard, and the memory that is left.
\<close>

definition lookup_cache_r :: "int \<Rightarrow> byte list \<Rightarrow> bool \<Rightarrow> cache \<Rightarrow> (unit + dns_cent_t option \<times> wild \<times> alloc) option" where
  "lookup_cache_r now name wild st = do {
     (r, w) \<leftarrow> lookup_cent name wild st;
     case r of None \<Rightarrow> Some (Inr (None, w, mem st))
     | Some p \<Rightarrow> do {
         (purge, st) \<leftarrow> purge_cent now p True True st;
         if purge \<noteq> 0 then Some (Inl ())
         else do {
           c \<leftarrow> heap st p;
           (r, m) \<leftarrow> copy_cent (mem st) c;
           Some (Inr (r, w, m)) } } }"

definition lookup_cache_rw :: "int \<Rightarrow> byte list \<Rightarrow> bool \<Rightarrow> cache \<Rightarrow> (dns_cent_t option \<times> wild \<times> cache) option" where
  "lookup_cache_rw now name wild st = do {
     (r, w) \<leftarrow> lookup_cent name wild st;
     case r of None \<Rightarrow> Some (None, w, st)
     | Some p \<Rightarrow> do {
         (purge, st) \<leftarrow> purge_cent now p True False st;
         if purge < 0 then Some (None, w, st)
         else do {
           c \<leftarrow> heap st p;
           (r, m) \<leftarrow> copy_cent (mem st) c;
           Some (r, w, st\<lparr>mem := m\<rparr>) } } }"

definition lookup_cache :: "int \<Rightarrow> byte list \<Rightarrow> bool \<Rightarrow> cache \<Rightarrow> (dns_cent_t option \<times> wild \<times> cache) option" where
  "lookup_cache now name wild st = do {
     r \<leftarrow> lookup_cache_r now name wild st;
     case r of Inr (c, w, m) \<Rightarrow> Some (c, w, st\<lparr>mem := m\<rparr>)
     | Inl _ \<Rightarrow> lookup_cache_rw now name wild st }"

definition lookup_cache_local_rrset :: "byte list \<Rightarrow> nat \<Rightarrow> cache \<Rightarrow> (rr_set_t option \<times> cache) option" where
  "lookup_cache_local_rrset name type st = do {
     (r, loc) \<leftarrow> dns_lookup (qn st) (buckets st) name;
     case r of None \<Rightarrow> Some (None, st)
     | Some p \<Rightarrow> do {
         cent \<leftarrow> heap st p;
         case getrrset cent type of None \<Rightarrow> Some (None, st)
         | Some s \<Rightarrow> if has (rs_flags s) CF_LOCAL
             then let (r, m) = copy_rrset (mem st) s in Some (r, st\<lparr>mem := m\<rparr>)
             else Some (None, st) } }"

primrec del_cents :: "nat list \<Rightarrow> cache \<Rightarrow> cache option" where
  "del_cents [] st = Some st"
| "del_cents (p # ps) st = do { st \<leftarrow> del_cent p st; del_cents ps st }"

text \<open>\<^verbatim>\<open>empty_cache\<close>: \<open>None\<close> for a null pointer as list of domains.\<close>

definition empty_bucket :: "slist_t list option \<Rightarrow> nat \<Rightarrow> cache \<Rightarrow> cache option" where
  "empty_bucket sla i st = do {
     (ds, tab) \<leftarrow> (case sla of Some sla \<Rightarrow> free_dns_hash_selected (qn st) sla (buckets st) i
       | None \<Rightarrow> free_dns_hash_bucket (buckets st) i);
     del_cents ds (st\<lparr>buckets := tab\<rparr>) }"

primrec empty_buckets :: "slist_t list option \<Rightarrow> nat list \<Rightarrow> cache \<Rightarrow> cache option" where
  "empty_buckets sla [] st = Some st"
| "empty_buckets sla (i # is) st = do { st \<leftarrow> empty_bucket sla i st; empty_buckets sla is st }"

definition empty_cache :: "slist_t list option \<Rightarrow> cache \<Rightarrow> cache option" where
  "empty_cache sla st = empty_buckets sla [0..<HASH_NUM_BUCKETS] st"

definition destroy_cache :: "cache \<Rightarrow> cache option" where
  "destroy_cache st = (let (ds, tab) = free_dns_hash (buckets st) in del_cents ds (st\<lparr>buckets := tab\<rparr>))"

end
