(* ===== verification/Cache_Inv.thy ===== *)
theory Cache_Inv
  imports Cache
begin

text \<open>
  The invariant of the cache and the operations that keep it: every node of the list belongs to a set of
  an entry and every entry is counted with the bytes it occupies.
\<close>

subsection \<open>The invariant\<close>

text \<open>The links of an entry into the list: the index of the set and the address of the node.\<close>

definition links :: "dns_cent_t \<Rightarrow> (nat option \<times> nat) set" where
  "links c = {(None, l) | l. negative c \<and> neg_lent c = Some l} \<union>
     {(Some i, l) | i l s. i < NRRTOT \<and> RRARR_INDEX_TESTEXT c i = Some s \<and> rs_lent s = Some l}"

text \<open>The nodes of the list are exactly the ones that the entries link to.\<close>

definition list_ok :: "(nat \<Rightarrow> dns_cent_t option) \<Rightarrow> rr_lent_t list \<Rightarrow> bool" where
  "list_ok h l \<longleftrightarrow> distinct (map le_id l) \<and>
     (\<forall>e. e \<in> set l \<longleftrightarrow> (\<exists>c. h (le_cent e) = Some c \<and> (le_idx e, le_id e) \<in> links c))"

definition base_ok :: "cache \<Rightarrow> bool" where
  "base_ok st \<longleftrightarrow> list_ok (heap st) (rrset_l st) \<and> (\<forall>e\<in>set (rrset_l st). le_id e < next_addr st) \<and>
     (\<forall>p c. heap st p = Some c \<longrightarrow> cent_ok c \<and> p < next_addr st)"

text \<open>The sizes of the entries at a set of addresses.\<close>

definition size_of :: "(nat \<Rightarrow> dns_cent_t option) \<Rightarrow> nat \<Rightarrow> int" where
  "size_of h p = (case h p of Some c \<Rightarrow> ce_cs c | None \<Rightarrow> 0)"

text \<open>
  The invariant, with the exception of a set \<open>X\<close> of entries that are not in the table yet.  All other
  entries are in the table and counted.
\<close>

definition ok_but :: "nat set \<Rightarrow> cache \<Rightarrow> bool" where
  "ok_but X st \<longleftrightarrow> base_ok st \<and> table_ok (qn st) (buckets st) \<and> set (entries (buckets st)) = dom (heap st) - X \<and>
     cache_size st = (\<Sum>p\<in>dom (heap st) - X. size_of (heap st) p) \<and> ent_num st = int (card (dom (heap st) - X))"

definition cache_ok :: "cache \<Rightarrow> bool" where
  "cache_ok st \<longleftrightarrow> ok_but {} st"

lemma list_okD: "list_ok h l \<Longrightarrow> e \<in> set l \<Longrightarrow> \<exists>c. h (le_cent e) = Some c \<and> (le_idx e, le_id e) \<in> links c"
  by (auto simp: list_ok_def)

lemma list_ok_unique: "list_ok h l \<Longrightarrow> e \<in> set l \<Longrightarrow> e' \<in> set l \<Longrightarrow> le_id e = le_id e' \<Longrightarrow> e = e'"
  by (metis list_ok_def distinct_map inj_onD)

text \<open>An entry loses the links of the nodes in \<open>D\<close>, and these nodes are removed.\<close>

lemma list_ok_shrink:
  assumes "list_ok h l" "h p = Some c" "links c' = {x \<in> links c. snd x \<notin> D}" "D \<subseteq> snd ` links c"
  shows "list_ok (h(p \<mapsto> c')) (filter (\<lambda>e. le_id e \<notin> D) l)"
proof -
  have "distinct (map le_id (filter (\<lambda>e. le_id e \<notin> D) l))"
    using assms(1) by (auto simp: list_ok_def distinct_map intro: inj_on_subset)
  moreover have other: "le_id e \<notin> D" if "e \<in> set l" "le_cent e \<noteq> p" for e
  proof
    assume "le_id e \<in> D"
    with assms(4) obtain i where i: "(i, le_id e) \<in> links c" by force
    let ?e = "\<lparr>le_id = le_id e, le_cent = p, le_idx = i\<rparr>"
    have "?e \<in> set l" using assms(1,2) i by (simp add: list_ok_def)
    with list_ok_unique [OF assms(1) that(1), of ?e] have "e = ?e" by simp
    with that(2) show False by (metis rr_lent_t.select_convs(2))
  qed
  moreover have "e \<in> set (filter (\<lambda>e. le_id e \<notin> D) l) \<longleftrightarrow>
      (\<exists>d. (h(p \<mapsto> c')) (le_cent e) = Some d \<and> (le_idx e, le_id e) \<in> links d)" for e
    using assms(1-3) other [of e] by (auto simp: list_ok_def)
  ultimately show ?thesis by (simp add: list_ok_def)
qed

lemma list_ok_remove:
  assumes "list_ok h l" "h p = Some c"
  shows "list_ok (h(p := None)) (filter (\<lambda>e. le_id e \<notin> snd ` links c) l)"
proof -
  obtain c' :: dns_cent_t where c': "links c' = {}"
  proof
    show "links \<lparr>ce_qname = [], ce_cs = 0, ce_num_rrs = 0, ce_flags = 1, neg_lent = None, neg_ttl = 0, neg_ts = 0,
       rrmu = [], rrext = None, c_ns = 0, c_soa = 0\<rparr> = {}"
      by (simp add: links_def RRARR_INDEX_TESTEXT_def negative_def has_def DF_NEGATIVE_def)
  qed
  have "links c' = {x \<in> links c. snd x \<notin> snd ` links c}" by (auto simp: c')
  from list_ok_shrink [OF assms this subset_refl]
  have "list_ok (h(p \<mapsto> c')) (filter (\<lambda>e. le_id e \<notin> snd ` links c) l)" .
  then show ?thesis using c' by (auto simp: list_ok_def split: if_splits)
qed

text \<open>An entry gains the link of a new node.\<close>

lemma list_ok_insert:
  assumes "list_ok h l" "h p = Some c" "links c' = insert (i, n) (links c)" "\<forall>e\<in>set l. le_id e \<noteq> n"
    and "mset l' = add_mset \<lparr>le_id = n, le_cent = p, le_idx = i\<rparr> (mset l)"
  shows "list_ok (h(p \<mapsto> c')) l'"
proof -
  have s: "set l' = insert \<lparr>le_id = n, le_cent = p, le_idx = i\<rparr> (set l)"
    using assms(5) by (metis set_mset_add_mset_insert set_mset_mset)
  have "mset (map le_id l') = add_mset n (mset (map le_id l))" using assms(5) by simp
  then have "distinct (map le_id l') \<longleftrightarrow> distinct (n # map le_id l)"
    by (intro mset_eq_imp_distinct_iff) simp
  then have "distinct (map le_id l')" using assms(1,4) by (auto simp: list_ok_def)
  moreover have "e \<in> set l' \<longleftrightarrow> (\<exists>d. (h(p \<mapsto> c')) (le_cent e) = Some d \<and> (le_idx e, le_id e) \<in> links d)" for e
    using assms(1-3) by (cases e) (auto simp: list_ok_def s)
  ultimately show ?thesis by (simp add: list_ok_def)
qed

lemma list_ok_same: "list_ok h l \<Longrightarrow> h p = Some c \<Longrightarrow> links c' = links c \<Longrightarrow> list_ok (h(p \<mapsto> c')) l"
  by (auto simp: list_ok_def)

lemma list_ok_new: "list_ok h l \<Longrightarrow> h p = None \<Longrightarrow> links c' = {} \<Longrightarrow> list_ok (h(p \<mapsto> c')) l"
  by (auto simp: list_ok_def)

subsection \<open>Links under the operations on entries\<close>

definition lent_at :: "dns_cent_t \<Rightarrow> nat \<Rightarrow> nat option" where
  "lent_at c i = Option.bind (RRARR_INDEX_TESTEXT c i) rs_lent"

lemma links_iff:
  "(None, l) \<in> links c \<longleftrightarrow> negative c \<and> neg_lent c = Some l"
  "(Some i, l) \<in> links c \<longleftrightarrow> i < NRRTOT \<and> lent_at c i = Some l"
  by (auto simp: links_def lent_at_def bind_eq_Some_conv)

lemma links_eqI:
  assumes "\<And>l. (None, l) \<in> A \<longleftrightarrow> negative c \<and> neg_lent c = Some l"
    and "\<And>i l. (Some i, l) \<in> A \<longleftrightarrow> i < NRRTOT \<and> lent_at c i = Some l"
  shows "links c = A"
proof (rule set_eqI)
  fix x :: "nat option \<times> nat"
  obtain i l where "x = (i, l)" by (cases x)
  with assms links_iff show "x \<in> links c \<longleftrightarrow> x \<in> A" by (cases i) auto
qed

lemma lent_at_negative: "negative c \<Longrightarrow> lent_at c i = None"
  by (simp add: lent_at_def RRARR_INDEX_TESTEXT_def)

lemma links_cong:
  assumes "negative c' = negative c" "negative c \<Longrightarrow> neg_lent c' = neg_lent c"
    and "\<And>i. i < NRRTOT \<Longrightarrow> lent_at c' i = lent_at c i"
  shows "links c' = links c"
  by (rule links_eqI) (use assms in \<open>auto simp: links_iff\<close>)

lemma links_inj: "list_ok h l \<Longrightarrow> h p = Some c \<Longrightarrow> inj_on snd (links c)"
proof (rule inj_onI)
  fix x y assume l: "list_ok h l" and c: "h p = Some c" and xy: "x \<in> links c" "y \<in> links c" "snd x = snd y"
  let ?e = "\<lambda>x. \<lparr>le_id = snd x, le_cent = p, le_idx = fst x\<rparr>"
  have "?e x \<in> set l" "?e y \<in> set l" using l c xy(1,2) by (auto simp: list_ok_def)
  from list_ok_unique [OF l this] xy(3) show "x = y" by (simp add: prod_eq_iff)
qed

lemma cent_lents_links: "cent_ok c \<Longrightarrow> cent_lents c = snd ` links c"
proof -
  assume ok: "cent_ok c"
  then have sh: "cent_shape c" by (simp add: cent_ok_def)
  have len: "length (slots c) \<le> NRRTOT" using slots_length [OF sh] RRARR_LEN_le by simp
  have "l \<in> cent_lents c \<longleftrightarrow> (\<exists>i. (i, l) \<in> links c)" for l
  proof (cases "negative c")
    case True
    then have "(Some i, l) \<notin> links c" for i by (simp add: links_iff lent_at_negative)
    with True show ?thesis
      by (metis cent_lents_def elem_set links_iff(1) option.exhaust)
  next
    case False
    have "(\<exists>i. (i, l) \<in> links c) \<longleftrightarrow> (\<exists>i<NRRTOT. lent_at c i = Some l)"
      using False by (metis links_iff option.exhaust)
    also have "\<dots> \<longleftrightarrow> (\<exists>i<length (slots c). \<exists>s. slots c ! i = Some s \<and> rs_lent s = Some l)"
      using len by (auto simp: lent_at_def RRARR_INDEX_TESTEXT_slots [OF sh] bind_eq_Some_conv split: if_splits
          intro: less_le_trans)
    also have "\<dots> \<longleftrightarrow> l \<in> slot_lents (slots c)" by (auto simp: slot_lents_def in_set_conv_nth)
    finally show ?thesis using False by (simp add: cent_lents_def)
  qed
  then show ?thesis by force
qed

lemma free_cent_links: "cent_ok c \<Longrightarrow> free_cent c l = filter (\<lambda>e. le_id e \<notin> snd ` links c) l"
  by (simp add: free_cent_spec cent_lents_links)

lemma remove_rrl_opt_filter: "remove_rrl_opt x l = filter (\<lambda>e. le_id e \<notin> set_option x) l"
  by (cases x) (simp_all add: remove_rrl_opt_def remove_rrl_def)

lemma filter_true_id: "filter (\<lambda>e. le_id e \<notin> {}) l = l"
  by simp

text \<open>Deleting the set with the index \<open>i\<close>.\<close>

lemma del_by_index_links:
  assumes "cent_ok c" "i < NRRTOT" "inj_on snd (links c)" "del_cent_rrset_by_index c i l = (rv, c', l')"
  shows "links c' = {x \<in> links c. snd x \<notin> set_option (lent_at c i)}" "set_option (lent_at c i) \<subseteq> snd ` links c"
    "l' = filter (\<lambda>e. le_id e \<notin> set_option (lent_at c i)) l"
proof -
  note d = del_cent_rrset_ok [OF assms(1,2,4)]
  have at: "lent_at c' j = (if j = i then None else lent_at c j)" if "j < NRRTOT" for j
    using d(6) [OF that] by (simp add: lent_at_def)
  have mem: "(Some i, l) \<in> links c" if "lent_at c i = Some l" for l using that assms(2) by (simp add: links_iff)
  then show "set_option (lent_at c i) \<subseteq> snd ` links c" by force
  have inj: "x = (Some i, snd x)" if "x \<in> links c" "lent_at c i = Some (snd x)" for x
    using inj_onD [OF assms(3) _ that(1) mem [OF that(2)]] by simp
  show "links c' = {x \<in> links c. snd x \<notin> set_option (lent_at c i)}"
  proof (rule links_eqI)
    show "(None, l) \<in> {x \<in> links c. snd x \<notin> set_option (lent_at c i)} \<longleftrightarrow> negative c' \<and> neg_lent c' = Some l" for l
      using d(4,5) by (auto simp: links_iff lent_at_negative)
    show "(Some j, l) \<in> {x \<in> links c. snd x \<notin> set_option (lent_at c i)} \<longleftrightarrow> j < NRRTOT \<and> lent_at c' j = Some l" for j l
    proof (cases "j = i")
      case True
      with at [of j] show ?thesis by (simp add: links_iff)
    next
      case False
      with inj [of "(Some j, l)"] have "(Some j, l) \<in> links c \<Longrightarrow> lent_at c i \<noteq> Some l" by auto
      with False at [of j] show ?thesis by (auto simp: links_iff)
    qed
  qed
  show "l' = filter (\<lambda>e. le_id e \<notin> set_option (lent_at c i)) l"
    using d(7) by (simp add: lent_at_def remove_rrl_opt_filter split: option.splits)
qed

text \<open>Adding an empty set.\<close>

lemma add_by_index_links:
  assumes "cent_ok c" "idx < NRRTOT" "RRARR_INDEX_TESTEXT c idx = None"
    and "add_cent_rrset_by_index a l c idx ttl ts fl = Some (ok, c', l', a')"
  shows "links c' = {x \<in> links c. snd x \<notin> (if negative c then set_option (neg_lent c) else {})}"
    "(if negative c then set_option (neg_lent c) else {}) \<subseteq> snd ` links c"
    "l' = filter (\<lambda>e. le_id e \<notin> (if negative c then set_option (neg_lent c) else {})) l"
proof -
  from add_cent_rrset_by_index_ok [OF assms(1-3), of a l ttl ts fl] assms(4) have
    r: "\<not> negative c'" "l' = snd (unnegate c l)"
      "\<And>j. j < NRRTOT \<Longrightarrow> RRARR_INDEX_TESTEXT c' j =
       (if ok \<and> j = idx then Some \<lparr>rs_lent = None, rs_ttl = ttl, rs_ts = ts, rs_flags = fl, rs_rrs = []\<rparr>
        else RRARR_INDEX_TESTEXT c j)" by auto
  have at: "lent_at c' j = lent_at c j" if "j < NRRTOT" for j
    using r(3) [OF that] assms(3) by (auto simp: lent_at_def)
  show "l' = filter (\<lambda>e. le_id e \<notin> (if negative c then set_option (neg_lent c) else {})) l"
    using r(2) by (simp add: unnegate_def remove_rrl_opt_filter)
  have "(None, n) \<in> links c" if "negative c" "neg_lent c = Some n" for n using that by (simp add: links_iff)
  then show "(if negative c then set_option (neg_lent c) else {}) \<subseteq> snd ` links c"
    by (force split: if_splits)
  show "links c' = {x \<in> links c. snd x \<notin> (if negative c then set_option (neg_lent c) else {})}"
  proof (rule links_eqI)
    fix l
    show "(None, l) \<in> {x \<in> links c. snd x \<notin> (if negative c then set_option (neg_lent c) else {})} \<longleftrightarrow>
        negative c' \<and> neg_lent c' = Some l" using r(1) by (auto simp: links_iff)
    show "(Some j, l) \<in> {x \<in> links c. snd x \<notin> (if negative c then set_option (neg_lent c) else {})} \<longleftrightarrow>
        j < NRRTOT \<and> lent_at c' j = Some l" for j
      using at [of j] by (cases "negative c") (auto simp: links_iff lent_at_negative)
  qed
qed

lemma lent_at_put: "cent_shape c \<Longrightarrow> k < length (slots c) \<Longrightarrow> j < NRRTOT \<Longrightarrow>
    lent_at (put_rrset c k v) j = (if j = k then Option.bind v rs_lent else lent_at c j)"
  by (simp add: lent_at_def index_put_rrset)

lemma links_put_same:
  assumes "cent_ok c" "RRARR_INDEX_TESTEXT c k = Some s" "k < NRRTOT" "rs_lent s' = rs_lent s"
  shows "links (put_rrset c k (Some s')) = links c"
proof (rule links_cong)
  note sl = index_slots [OF assms(1-3)]
  show "negative (put_rrset c k (Some s')) = negative c" by simp
  show "neg_lent (put_rrset c k (Some s')) = neg_lent c" by (simp add: put_rrset_def)
  show "lent_at (put_rrset c k (Some s')) j = lent_at c j" if "j < NRRTOT" for j
    using lent_at_put [OF _ sl(1) that, of "Some s'"] assms by (auto simp: cent_ok_def lent_at_def)
qed

lemma links_put_new:
  assumes "cent_ok c" "RRARR_INDEX_TESTEXT c k = Some s" "k < NRRTOT" "rs_lent s = None" "rs_lent s' = Some n"
  shows "links (put_rrset c k (Some s')) = insert (Some k, n) (links c)"
proof -
  note sl = index_slots [OF assms(1-3)]
  have at: "lent_at (put_rrset c k (Some s')) j = (if j = k then Some n else lent_at c j)" if "j < NRRTOT" for j
    using lent_at_put [OF _ sl(1) that, of "Some s'"] assms by (auto simp: cent_ok_def)
  have "lent_at c k = None" using assms(2,4) by (simp add: lent_at_def)
  with at sl(3) assms(3) show ?thesis
    by (intro links_eqI) (auto simp: links_iff split: if_splits)
qed

subsection \<open>Changing one entry\<close>

lemma qn_upd: "heap st p = Some c \<Longrightarrow> ce_qname c' = ce_qname c \<Longrightarrow> heap st' = (heap st)(p \<mapsto> c') \<Longrightarrow> qn st' = qn st"
  by (auto simp: qn_def fun_eq_iff)

lemma qn_same: "heap st' = heap st \<Longrightarrow> qn st' = qn st"
  by (auto simp: qn_def fun_eq_iff)

lemma finite_heap: "base_ok st \<Longrightarrow> finite (dom (heap st))"
  by (rule finite_subset [of _ "{..<next_addr st}"]) (auto simp: base_ok_def)

lemma dom_upd_same: "h p = Some c \<Longrightarrow> dom (h(p \<mapsto> c')) = dom h"
  by (auto simp: dom_def)

lemma sum_size_upd:
  assumes "finite (dom h)" "h p = Some c"
  shows "(\<Sum>q\<in>dom h - X. size_of (h(p \<mapsto> c')) q) = (\<Sum>q\<in>dom h - X. size_of h q) + (if p \<in> X then 0 else ce_cs c' - ce_cs c)"
proof (cases "p \<in> X")
  case True
  then show ?thesis by (auto simp: size_of_def intro!: sum.cong)
next
  case False
  let ?D = "dom h - X" and ?h = "h(p \<mapsto> c')"
  have p: "p \<in> ?D" "finite ?D" using assms False by auto
  have "sum (size_of ?h) (?D - {p}) = sum (size_of h) (?D - {p})"
    by (rule sum.cong) (auto simp: size_of_def)
  moreover have "sum (size_of ?h) ?D = size_of ?h p + sum (size_of ?h) (?D - {p})" by (rule sum.remove [OF p(2,1)])
  moreover have "sum (size_of h) ?D = size_of h p + sum (size_of h) (?D - {p})" by (rule sum.remove [OF p(2,1)])
  moreover have "size_of ?h p = ce_cs c'" "size_of h p = ce_cs c" using assms(2) by (simp_all add: size_of_def)
  ultimately show ?thesis using False by (simp only: if_False)
qed

text \<open>
  Replacing the entry at \<open>p\<close> by one of the same name, with the list changed accordingly.
\<close>

lemma base_ok_upd:
  assumes "base_ok st" "heap st p = Some c" "cent_ok c'"
    and "list_ok ((heap st)(p \<mapsto> c')) l" "\<forall>e\<in>set l. le_id e < n" "next_addr st \<le> n"
    and "heap st' = (heap st)(p \<mapsto> c')" "rrset_l st' = l" "next_addr st' = n"
  shows "base_ok st'"
proof -
  have "q < n" if "heap st q = Some d" for q d
    using assms(1,6) that unfolding base_ok_def by (meson less_le_trans)
  then show ?thesis using assms by (auto simp: base_ok_def)
qed

lemma ok_but_upd:
  assumes "ok_but X st" "heap st p = Some c" "cent_ok c'" "ce_qname c' = ce_qname c"
    and "list_ok ((heap st)(p \<mapsto> c')) l" "\<forall>e\<in>set l. le_id e < n" "next_addr st \<le> n"
    and "heap st' = (heap st)(p \<mapsto> c')" "rrset_l st' = l" "next_addr st' = n" "buckets st' = buckets st"
    and "ent_num st' = ent_num st" "cache_size st' = cache_size st + (if p \<in> X then 0 else ce_cs c' - ce_cs c)"
  shows "ok_but X st'"
proof -
  have b: "base_ok st" using assms(1) by (simp add: ok_but_def)
  have "base_ok st'" by (rule base_ok_upd [OF b assms(2,3,5-10)])
  moreover have "qn st' = qn st" by (rule qn_upd [OF assms(2,4,8)])
  moreover have "dom (heap st') = dom (heap st)" using dom_upd_same [of "heap st" p c c'] assms(2,8) by simp
  ultimately show ?thesis
    using assms(1,8,11-13) sum_size_upd [OF finite_heap [OF b] assms(2), of c' X] by (simp add: ok_but_def)
qed

lemma base_ok_mem [simp]: "base_ok (st\<lparr>mem := m\<rparr>) = base_ok st"
  by (simp add: base_ok_def)

lemma qn_simps [simp]:
  "qn (st\<lparr>mem := m\<rparr>) = qn st" "qn (st\<lparr>buckets := t\<rparr>) = qn st" "qn (st\<lparr>cache_size := x\<rparr>) = qn st"
  "qn (st\<lparr>ent_num := y\<rparr>) = qn st" "qn (st\<lparr>rrset_l := l\<rparr>) = qn st" "qn (st\<lparr>insert_sort := b\<rparr>) = qn st"
  "qn (st\<lparr>next_addr := n\<rparr>) = qn st"
  by (simp_all add: qn_def fun_eq_iff)

lemma ok_but_simps [simp]: "ok_but X (st\<lparr>mem := m\<rparr>) = ok_but X st" "ok_but X (st\<lparr>insert_sort := b\<rparr>) = ok_but X st"
  by (simp_all add: ok_but_def base_ok_def)

lemma ok_butD:
  assumes "ok_but X st" "heap st p = Some c"
  shows "cent_ok c" "list_ok (heap st) (rrset_l st)" "inj_on snd (links c)" "\<forall>e\<in>set (rrset_l st). le_id e < next_addr st"
  using assms links_inj [of "heap st" "rrset_l st" p c] by (auto simp: ok_but_def base_ok_def)

text \<open>Deleting a set of an entry; the caller adjusts \<^verbatim>\<open>cache_size\<close> if the entry is counted.\<close>

lemma del_cent_rrset_spec:
  assumes "ok_but X st" "heap st p = Some c" "i < NRRTOT"
  shows "\<exists>rv st' c'. del_cent_rrset p i st = Some (rv, st') \<and>
    ok_but X (st'\<lparr>cache_size := cache_size st' - (if p \<in> X then 0 else rv)\<rparr>) \<and> cache_size st' = cache_size st \<and>
    heap st' = (heap st)(p \<mapsto> c') \<and> ce_cs c' = ce_cs c - rv \<and> cent_ok c' \<and> ce_qname c' = ce_qname c \<and>
    negative c' = negative c \<and> (\<forall>j<NRRTOT. RRARR_INDEX_TESTEXT c' j = (if j = i then None else RRARR_INDEX_TESTEXT c j)) \<and>
    rrset_l st' = filter (\<lambda>e. le_id e \<notin> set_option (lent_at c i)) (rrset_l st) \<and>
    (\<exists>rrl. del_cent_rrset_by_index c i (rrset_l st) = (rv, c', rrl)) \<and>
    buckets st' = buckets st \<and> mem st' = mem st \<and> next_addr st' = next_addr st \<and> insert_sort st' = insert_sort st \<and>
    ent_num st' = ent_num st"
proof -
  note c = ok_butD [OF assms(1,2)]
  obtain rv c' l' where d: "del_cent_rrset_by_index c i (rrset_l st) = (rv, c', l')"
    by (cases "del_cent_rrset_by_index c i (rrset_l st)") auto
  note ok = del_cent_rrset_ok [OF c(1) assms(3) d]
  note lk = del_by_index_links [OF c(1) assms(3) c(3) d]
  let ?st = "upd_cent p c' (st\<lparr>rrset_l := l'\<rparr>)"
  have l: "list_ok ((heap st)(p \<mapsto> c')) l'" unfolding lk(3) by (rule list_ok_shrink [OF c(2) assms(2) lk(1,2)])
  have "ok_but X (?st\<lparr>cache_size := cache_size ?st - (if p \<in> X then 0 else rv)\<rparr>)"
    by (rule ok_but_upd [OF assms(1,2) ok(1,3) l]) (use c(4) ok(2) lk(3) in auto)
  then show ?thesis using assms(2) d ok lk(3)
    by (intro exI [of _ rv] exI [of _ ?st] exI [of _ c']) (simp add: del_cent_rrset_def)
qed

text \<open>Removing an entry that is no longer in the table.\<close>

lemma base_ok_remove:
  assumes "base_ok st" "heap st p = Some c" "heap st' = (heap st)(p := None)"
    and "rrset_l st' = free_cent c (rrset_l st)" "next_addr st' = next_addr st"
  shows "base_ok st'"
proof -
  have ok: "cent_ok c" "list_ok (heap st) (rrset_l st)" using assms(1,2) by (auto simp: base_ok_def)
  show ?thesis using assms list_ok_remove [OF ok(2) assms(2)]
    by (auto simp: base_ok_def free_cent_links [OF ok(1)])
qed

lemma table_ok_cong: "(\<And>d. d \<in> set (entries tab) \<Longrightarrow> f d = g d) \<Longrightarrow> table_ok f tab = table_ok g tab"
proof -
  assume e: "\<And>d. d \<in> set (entries tab) \<Longrightarrow> f d = g d"
  have "f (data he) = g (data he)" if "i < length tab" "he \<in> set (tab ! i)" for i he
    using that e in_entries [of "data he" tab] by blast
  moreover have "map (key_of f) (entries tab) = map (key_of g) (entries tab)" using e by (simp add: key_of_def)
  then have "distinct (map (key_of f) (entries tab)) = distinct (map (key_of g) (entries tab))" by (simp only:)
  ultimately show ?thesis by (simp add: table_ok_def has_name_def cong: ball_cong)
qed

lemma content_cong: "(\<And>d. d \<in> set (entries tab) \<Longrightarrow> f d = g d) \<Longrightarrow> content f tab = content g tab"
  by (auto simp: content_def key_of_def intro!: arg_cong [of _ _ map_of])

lemma entries_mset_dom:
  assumes "table_ok f tab"
  shows "distinct (entries tab)"
  using assms by (auto simp: table_ok_def distinct_map)

text \<open>Taking the entry at \<open>p\<close> out of the table, the list and the accounts.\<close>

lemma ok_but_remove:
  assumes "ok_but X st" "heap st p = Some c" "p \<notin> X" "table_ok (qn st) tab"
    and "mset (entries (buckets st)) = add_mset p (mset (entries tab))"
    and "heap st' = (heap st)(p := None)" "rrset_l st' = free_cent c (rrset_l st)" "next_addr st' = next_addr st"
    and "buckets st' = tab" "ent_num st' = ent_num st - 1" "cache_size st' = cache_size st - ce_cs c"
  shows "ok_but X st'"
proof -
  have b: "base_ok st" using assms(1) by (simp add: ok_but_def)
  have "distinct (entries (buckets st))" using assms(1) entries_mset_dom by (auto simp: ok_but_def)
  then have "distinct (p # entries tab)" using mset_eq_imp_distinct_iff [of "p # entries tab" "entries (buckets st)"] assms(5) by simp
  moreover have "set (entries (buckets st)) = insert p (set (entries tab))"
    using assms(5) by (metis set_mset_add_mset_insert set_mset_mset)
  ultimately have ent: "set (entries tab) = dom (heap st) - X - {p}" using assms(1) by (auto simp: ok_but_def)
  then have "\<forall>d\<in>set (entries tab). qn st d = qn st' d" using assms(6) by (auto simp: qn_def)
  then have "table_ok (qn st') tab" using table_ok_cong [of tab "qn st" "qn st'"] assms(4) by simp
  moreover have "base_ok st'" by (rule base_ok_remove [OF b assms(2,6-8)])
  moreover have dom: "dom (heap st') - X = dom (heap st) - X - {p}" using assms(6) by auto
  moreover have p: "p \<in> dom (heap st) - X" "finite (dom (heap st) - X)" using assms(2,3) finite_heap [OF b] by auto
  have "(\<Sum>q\<in>dom (heap st) - X. size_of (heap st) q) = ce_cs c + (\<Sum>q\<in>dom (heap st') - X. size_of (heap st') q)"
    unfolding dom using p assms(2,6) by (subst sum.remove [OF p(2,1)]) (auto simp: size_of_def intro!: sum.cong)
  moreover have "int (card (dom (heap st) - X)) = 1 + int (card (dom (heap st') - X))"
    unfolding dom using p by (metis card.remove of_nat_Suc)
  ultimately show ?thesis using assms(1,9-11) ent by (simp add: ok_but_def)
qed

lemma cent_name:
  assumes "cent_ok c"
  obtains ls where "wf_name ls" "ce_qname c = enc ls" "name_at (ce_qname c) 0 ls"
proof -
  from assms obtain ls where ls: "wf_name ls" "ce_qname c = enc ls" by (auto simp: cent_ok_def cent_shape_def)
  then have "name_at (ce_qname c) 0 ls" using name_at_enc [of ls "[]"] wf_name_lab_ok by simp
  with ls that show thesis by blast
qed

text \<open>An entry of the cache is what its name is mapped to.\<close>

lemma content_self:
  assumes "ok_but X st" "heap st p = Some c" "p \<notin> X" "name_at (ce_qname c) 0 ls"
  shows "content (qn st) (buckets st) (lower_name ls) = Some p"
proof -
  have "p \<in> set (entries (buckets st))" using assms(1-3) by (auto simp: ok_but_def)
  moreover have "key_of (qn st) p = lower_name ls" using assms(2,4) by (intro key_of_name) (simp add: qn_def)
  ultimately show ?thesis using assms(1) content_Some [of "qn st" "buckets st"] by (simp add: ok_but_def)
qed

lemma content_heap:
  assumes "ok_but X st" "content (qn st) (buckets st) k = Some p"
  shows "\<exists>c. heap st p = Some c \<and> p \<notin> X"
  using assms content_Some [of "qn st" "buckets st"] by (auto simp: ok_but_def)

lemma lookup_spec:
  assumes "ok_but X st" "name_at name 0 ls"
  shows "\<exists>loc. dns_lookup (qn st) (buckets st) name = Some (content (qn st) (buckets st) (lower_name ls), loc) \<and>
    (case content (qn st) (buckets st) (lower_name ls) of None \<Rightarrow> loc_ok (buckets st) ls loc | Some p \<Rightarrow> loc_at (buckets st) p loc)"
  using assms by (intro dns_lookup_spec) (auto simp: ok_but_def)

lemma del_cent_spec:
  assumes "ok_but X st" "heap st p = Some c" "p \<notin> X" "table_ok (qn st) tab"
    and "mset (entries (buckets st)) = add_mset p (mset (entries tab))"
  shows "\<exists>st'. del_cent p (st\<lparr>buckets := tab\<rparr>) = Some st' \<and> ok_but X st' \<and> heap st' = (heap st)(p := None) \<and>
    rrset_l st' = filter (\<lambda>e. le_id e \<notin> snd ` links c) (rrset_l st) \<and> cache_size st' = cache_size st - ce_cs c \<and>
    buckets st' = tab \<and> mem st' = mem st \<and> next_addr st' = next_addr st \<and> insert_sort st' = insert_sort st"
proof -
  let ?st = "st\<lparr>buckets := tab, cache_size := cache_size st - ce_cs c, rrset_l := free_cent c (rrset_l st),
              heap := (heap st)(p := None), ent_num := ent_num st - 1\<rparr>"
  have "ok_but X ?st" by (rule ok_but_remove [OF assms]) simp_all
  then show ?thesis using assms(2) free_cent_links [OF ok_butD(1) [OF assms(1,2)]]
    by (intro exI [of _ ?st]) (simp add: del_cent_def)
qed

lemma del_cache_ent_spec:
  assumes "ok_but X st" "heap st p = Some c" "p \<notin> X" "loc = None \<or> loc_at (buckets st) p (the loc)"
  shows "\<exists>st'. del_cache_ent p loc st = Some st' \<and> ok_but X st' \<and> heap st' = (heap st)(p := None) \<and>
    rrset_l st' = filter (\<lambda>e. le_id e \<notin> snd ` links c) (rrset_l st) \<and> cache_size st' = cache_size st - ce_cs c \<and>
    mem st' = mem st \<and> next_addr st' = next_addr st \<and> insert_sort st' = insert_sort st"
proof -
  have t: "table_ok (qn st) (buckets st)" using assms(1) by (simp add: ok_but_def)
  from cent_name [OF ok_butD(1) [OF assms(1,2)]] obtain ls where ls: "name_at (ce_qname c) 0 ls" by blast
  have "\<exists>d tab. (case loc of
         Some loc \<Rightarrow> (case del_dns_hash_ent (buckets st) loc of None \<Rightarrow> None | Some (d, tab) \<Rightarrow> Some (Some d, tab))
       | None \<Rightarrow> del_dns_hash (qn st) (buckets st) (ce_qname c)) = Some (d, tab) \<and> table_ok (qn st) tab \<and>
       mset (entries (buckets st)) = add_mset p (mset (entries tab))"
  proof (cases loc)
    case None
    from del_dns_hash_ent_eq [OF t ls] content_self [OF assms(1-3) ls] None show ?thesis by auto
  next
    case (Some loc')
    with assms(4) have "loc_at (buckets st) p loc'" by simp
    from del_dns_hash_ent_spec [OF t this] Some show ?thesis by auto
  qed
  then obtain d tab where d: "(case loc of
         Some loc \<Rightarrow> (case del_dns_hash_ent (buckets st) loc of None \<Rightarrow> None | Some (d, tab) \<Rightarrow> Some (Some d, tab))
       | None \<Rightarrow> del_dns_hash (qn st) (buckets st) (ce_qname c)) = Some (d, tab)" "table_ok (qn st) tab"
       "mset (entries (buckets st)) = add_mset p (mset (entries tab))" by blast
  from del_cent_spec [OF assms(1-3) d(2,3)] d(1) assms(2) show ?thesis
    by (auto simp: del_cache_ent_def)
qed

end
