(* ===== verification/Cache_Purge.thy ===== *)
theory Cache_Purge
  imports Cache_Inv
begin

text \<open>
  Purging: the functions that delete timed-out sets and empty entries keep the invariant, and
  \<^verbatim>\<open>purge_cache\<close> brings the cache below its limit as far as the local records allow.
\<close>

subsection \<open>Timed-out sets of one entry\<close>

definition gone :: "int \<Rightarrow> dns_cent_t \<Rightarrow> nat \<Rightarrow> bool" where
  "gone now c i = (case RRARR_INDEX_TESTEXT c i of None \<Rightarrow> False | Some s \<Rightarrow> must_go now s)"

definition kept :: "int \<Rightarrow> dns_cent_t \<Rightarrow> nat \<Rightarrow> bool" where
  "kept now c i = (case RRARR_INDEX_TESTEXT c i of None \<Rightarrow> False | Some s \<Rightarrow> \<not> must_go now s)"

lemma del_by_index_frame:
  assumes "del_cent_rrset_by_index c i l = (rv, c', l')"
  shows "RRARR_LEN c' = RRARR_LEN c" "c_ns c' = c_ns c" "c_soa c' = c_soa c" "neg_ts c' = neg_ts c" "neg_ttl c' = neg_ttl c"
    "has (ce_flags c') DF_LOCAL = has (ce_flags c) DF_LOCAL" "has (ce_flags c') DF_WILD = has (ce_flags c) DF_WILD"
    "neg_lent c' = neg_lent c"
proof -
  have f: "has (x AND NOT DF_AUTH) DF_LOCAL = has x DF_LOCAL" "has (x AND NOT DF_AUTH) DF_WILD = has x DF_WILD" for x
    by (simp_all add: has_simps) (simp_all add: has_def flag_defs)
  have n: "negative (c\<lparr>ce_num_rrs := a, ce_cs := b, ce_flags := ce_flags c AND NOT DF_AUTH\<rparr>) = negative c" for c a b
    using negative_keep_auth [of "c\<lparr>ce_num_rrs := a, ce_cs := b\<rparr>"] by simp
  show "RRARR_LEN c' = RRARR_LEN c" "c_ns c' = c_ns c" "c_soa c' = c_soa c" "neg_ts c' = neg_ts c" "neg_ttl c' = neg_ttl c"
    "has (ce_flags c') DF_LOCAL = has (ce_flags c) DF_LOCAL" "has (ce_flags c') DF_WILD = has (ce_flags c) DF_WILD"
    "neg_lent c' = neg_lent c"
    using assms n [of "put_rrset c i None"]
    by (auto simp: del_cent_rrset_by_index_def Let_def f RRARR_LEN_def put_rrset_def split: option.splits prod.splits if_splits)
qed

lemma RRARR_INDEX_eq: "\<not> negative c \<Longrightarrow> i < RRARR_LEN c \<Longrightarrow> RRARR_INDEX c i = RRARR_INDEX_TESTEXT c i"
  by (auto simp: RRARR_INDEX_def RRARR_INDEX_TESTEXT_def RRARR_LEN_def split: if_splits option.splits)

lemma RRARR_LEN_negative: "i < RRARR_LEN c \<Longrightarrow> \<not> negative c \<and> i < NRRTOT"
  using RRARR_LEN_le [of c] by (auto simp: RRARR_LEN_def split: if_splits)

text \<open>What the entry at \<open>p\<close> and the rest of the state have in common before and after.\<close>

definition same_rest :: "cache \<Rightarrow> cache \<Rightarrow> bool" where
  "same_rest st st' \<longleftrightarrow> buckets st' = buckets st \<and> mem st' = mem st \<and> next_addr st' = next_addr st \<and>
     insert_sort st' = insert_sort st \<and> ent_num st' = ent_num st"

definition same_core :: "dns_cent_t \<Rightarrow> dns_cent_t \<Rightarrow> bool" where
  "same_core c c' \<longleftrightarrow> ce_qname c' = ce_qname c \<and> negative c' = negative c \<and> neg_ts c' = neg_ts c \<and> neg_ttl c' = neg_ttl c \<and> neg_lent c' = neg_lent c \<and>
     has (ce_flags c') DF_LOCAL = has (ce_flags c) DF_LOCAL \<and> has (ce_flags c') DF_WILD = has (ce_flags c) DF_WILD"

definition same_head :: "dns_cent_t \<Rightarrow> dns_cent_t \<Rightarrow> bool" where
  "same_head c c' \<longleftrightarrow> same_core c c' \<and> RRARR_LEN c' = RRARR_LEN c \<and> c_ns c' = c_ns c \<and> c_soa c' = c_soa c"

lemma same_rest_refl [simp]: "same_rest st st" and same_head_refl [simp]: "same_head c c"
  by (simp_all add: same_rest_def same_head_def same_core_def)

lemma same_rest_trans: "same_rest a b \<Longrightarrow> same_rest b c \<Longrightarrow> same_rest a c"
  by (simp add: same_rest_def)

lemma same_head_trans: "same_head a b \<Longrightarrow> same_head b c \<Longrightarrow> same_head a c"
  by (simp add: same_head_def same_core_def)

lemma same_core_refl [simp]: "same_core c c" and same_core_trans: "same_core a b \<Longrightarrow> same_core b c \<Longrightarrow> same_core a c"
  by (simp_all add: same_core_def)

text \<open>The local sets in the cache.\<close>

definition local_sets :: "dns_cent_t \<Rightarrow> (nat \<times> rr_set_t) set" where
  "local_sets c = {(i, s). i < NRRTOT \<and> RRARR_INDEX_TESTEXT c i = Some s \<and> has (rs_flags s) CF_LOCAL}"

definition locals :: "cache \<Rightarrow> (nat \<times> nat \<times> rr_set_t) set" where
  "locals st = {(p, x). \<exists>c. heap st p = Some c \<and> x \<in> local_sets c}"

lemma locals_upd: "heap st p = Some c \<Longrightarrow> heap st' = (heap st)(p \<mapsto> c') \<Longrightarrow> local_sets c \<subseteq> local_sets c' \<Longrightarrow> locals st \<subseteq> locals st'"
  unfolding locals_def by (auto split: if_splits) blast

lemma locals_del: "heap st p = Some c \<Longrightarrow> heap st' = (heap st)(p := None) \<Longrightarrow> local_sets c = {} \<Longrightarrow> locals st \<subseteq> locals st'"
  by (auto simp: locals_def)

lemma locals_heap: "heap st' = heap st \<Longrightarrow> locals st' = locals st"
  by (simp add: locals_def)

text \<open>Deleting a set and taking its size off \<^verbatim>\<open>cache_size\<close>.\<close>

lemma del_sized_spec:
  assumes "ok_but X st" "heap st p = Some c" "p \<notin> X" "i < NRRTOT"
  shows "\<exists>rv st' c'. del_cent_rrset p i st = Some (rv, st') \<and> ok_but X (st'\<lparr>cache_size := cache_size st' - rv\<rparr>) \<and>
    heap st' = (heap st)(p \<mapsto> c') \<and> same_head c c' \<and>
    (\<forall>j<NRRTOT. RRARR_INDEX_TESTEXT c' j = (if j = i then None else RRARR_INDEX_TESTEXT c j)) \<and>
    rrset_l st' = filter (\<lambda>e. le_id e \<notin> set_option (lent_at c i)) (rrset_l st) \<and> same_rest st st'"
proof -
  from del_cent_rrset_spec [OF assms(1,2,4)] obtain rv st' c' rrl where
    d: "del_cent_rrset p i st = Some (rv, st')"
      "ok_but X (st'\<lparr>cache_size := cache_size st' - (if p \<in> X then 0 else rv)\<rparr>)"
      "heap st' = (heap st)(p \<mapsto> c')" "ce_qname c' = ce_qname c" "negative c' = negative c"
      "\<forall>j<NRRTOT. RRARR_INDEX_TESTEXT c' j = (if j = i then None else RRARR_INDEX_TESTEXT c j)"
      "rrset_l st' = filter (\<lambda>e. le_id e \<notin> set_option (lent_at c i)) (rrset_l st)"
      "del_cent_rrset_by_index c i (rrset_l st) = (rv, c', rrl)"
      "buckets st' = buckets st" "mem st' = mem st" "next_addr st' = next_addr st" "insert_sort st' = insert_sort st"
      "ent_num st' = ent_num st"
    by (elim exE conjE) (rule that; assumption)
  have "same_head c c'" using del_by_index_frame [OF d(8)] d(4,5) by (simp add: same_head_def same_core_def)
  with d assms(3) show ?thesis by (auto simp: same_rest_def)
qed

definition counts :: "int \<Rightarrow> dns_cent_t \<Rightarrow> nat list \<Rightarrow> nat \<times> nat \<times> nat \<Rightarrow> nat \<times> nat \<times> nat" where
  "counts now c is r = (fst r + length (filter (gone now c) is), fst (snd r) + length (filter (kept now c) is),
     snd (snd r) + length (filter (\<lambda>i. NRRMU \<le> i \<and> kept now c i) is))"

definition pack :: "nat \<times> nat \<times> nat \<Rightarrow> cache \<Rightarrow> nat \<times> nat \<times> nat \<times> cache" where
  "pack r st = (fst r, fst (snd r), snd (snd r), st)"

text \<open>The relation of the entry before and after the sets in \<open>I\<close> that must go are deleted.\<close>

definition swept :: "int \<Rightarrow> bool \<Rightarrow> nat set \<Rightarrow> dns_cent_t \<Rightarrow> dns_cent_t \<Rightarrow> bool" where
  "swept now test I c c' \<longleftrightarrow> same_head c c' \<and>
     (\<forall>j<NRRTOT. RRARR_INDEX_TESTEXT c' j = (if \<not> test \<and> j \<in> I \<and> gone now c j then None else RRARR_INDEX_TESTEXT c j))"

lemma heap_self: "heap st p = Some c \<Longrightarrow> heap st = (heap st)(p \<mapsto> c)"
  by auto

lemma purge_rrsets_step_spec:
  assumes "ok_but X st" "p \<notin> X" "heap st p = Some c" "i < RRARR_LEN c"
  shows "\<exists>st' c'. purge_rrsets_step now p test i (pack r st) = Some (pack (counts now c [i] r) st') \<and>
    ok_but X st' \<and> heap st' = (heap st)(p \<mapsto> c') \<and> swept now test {i} c c' \<and> same_rest st st' \<and> (test \<longrightarrow> st' = st)"
proof -
  from assms(4) have i: "i < NRRTOT" "\<not> negative c" using RRARR_LEN_negative by auto
  note ix = RRARR_INDEX_eq [OF i(2) assms(4)]
  show ?thesis
  proof (cases "gone now c i \<and> \<not> test")
    case True
    then obtain s where s: "RRARR_INDEX_TESTEXT c i = Some s" "must_go now s" by (auto simp: gone_def split: option.splits)
    from del_sized_spec [OF assms(1,3,2) i(1)] obtain m st1 c1 where
        d: "del_cent_rrset p i st = Some (m, st1)" "ok_but X (st1\<lparr>cache_size := cache_size st1 - m\<rparr>)"
          "heap st1 = (heap st)(p \<mapsto> c1)" "same_head c c1"
          "\<forall>j<NRRTOT. RRARR_INDEX_TESTEXT c1 j = (if j = i then None else RRARR_INDEX_TESTEXT c j)" "same_rest st st1"
      by (elim exE conjE) (rule that; assumption)
    from d s True assms(3) show ?thesis
      by (intro exI [of _ "st1\<lparr>cache_size := cache_size st1 - m\<rparr>"] exI [of _ c1])
        (auto simp: purge_rrsets_step_def pack_def counts_def ix gone_def kept_def same_rest_def swept_def)
  next
    case False
    then have "swept now test {i} c c" by (auto simp: swept_def)
    with False assms(1,3) heap_self [OF assms(3)] show ?thesis
      by (intro exI [of _ st] exI [of _ c])
        (auto simp: purge_rrsets_step_def pack_def counts_def ix gone_def kept_def split: option.splits)
  qed
qed

lemma swept_gone: "swept now test I c c' \<Longrightarrow> j < NRRTOT \<Longrightarrow> j \<notin> I \<Longrightarrow> gone now c' j = gone now c j \<and> kept now c' j = kept now c j"
  by (auto simp: swept_def gone_def kept_def)

lemma swept_trans: "swept now test I c c' \<Longrightarrow> swept now test J c' c'' \<Longrightarrow> I \<inter> J = {} \<Longrightarrow> swept now test (I \<union> J) c c''"
  unfolding swept_def using same_head_trans by (auto simp: gone_def)

lemma purge_rrsets_loop_spec:
  assumes "ok_but X st" "p \<notin> X" "heap st p = Some c" "\<forall>i\<in>set is. i < RRARR_LEN c" "distinct is"
  shows "\<exists>st' c'. purge_rrsets_loop now p test is (pack r st) = Some (pack (counts now c is r) st') \<and>
    ok_but X st' \<and> heap st' = (heap st)(p \<mapsto> c') \<and> swept now test (set is) c c' \<and> same_rest st st' \<and> (test \<longrightarrow> st' = st)"
  using assms
proof (induction "is" arbitrary: st c r)
  case Nil
  with heap_self [OF Nil(3)] show ?case by (auto simp: counts_def swept_def intro!: exI [of _ st] exI [of _ c])
next
  case (Cons i "is")
  from purge_rrsets_step_spec [OF Cons.prems(1-3), of i now test r] Cons.prems(4) obtain st1 c1 where
    s1: "purge_rrsets_step now p test i (pack r st) = Some (pack (counts now c [i] r) st1)" "ok_but X st1"
      "heap st1 = (heap st)(p \<mapsto> c1)" "swept now test {i} c c1" "same_rest st st1" "test \<longrightarrow> st1 = st" by auto
  have c1: "heap st1 p = Some c1" "\<forall>i\<in>set is. i < RRARR_LEN c1"
    using s1(3,4) Cons.prems(4) by (auto simp: swept_def same_head_def)
  have "gone now c1 j = gone now c j \<and> kept now c1 j = kept now c j" if "j \<in> set is" for j
    using swept_gone [OF s1(4)] that Cons.prems(4,5) RRARR_LEN_negative [of j c] by auto
  then have fl: "filter (gone now c1) is = filter (gone now c) is" "filter (kept now c1) is = filter (kept now c) is"
    "filter (\<lambda>i. NRRMU \<le> i \<and> kept now c1 i) is = filter (\<lambda>i. NRRMU \<le> i \<and> kept now c i) is"
    by (auto intro!: filter_cong)
  have ct: "counts now c1 is (counts now c [i] r) = counts now c (i # is) r" by (simp add: counts_def fl)
  have "distinct is" using Cons.prems(5) by simp
  from Cons.IH [OF s1(2) Cons.prems(2) c1 this, of "counts now c [i] r", unfolded ct] obtain st2 c2 where
    s2: "purge_rrsets_loop now p test is (pack (counts now c [i] r) st1) = Some (pack (counts now c (i # is) r) st2)"
      "ok_but X st2" "heap st2 = (heap st1)(p \<mapsto> c2)" "swept now test (set is) c1 c2" "same_rest st1 st2" "test \<longrightarrow> st2 = st1"
    by (elim exE conjE) (rule that; assumption)
  from swept_trans [OF s1(4) s2(4)] Cons.prems(5) have "swept now test (set (i # is)) c c2" by auto
  moreover have "heap st2 = (heap st)(p \<mapsto> c2)" using s1(3) s2(3) by simp
  ultimately show ?case using s1(1,6) s2(1,2,6) same_rest_trans [OF s1(5) s2(5)]
    by (intro exI [of _ st2] exI [of _ c2]) simp
qed

text \<open>Freeing the array of less used sets when it is empty.\<close>

lemma drop_rrext_ok:
  assumes "cent_ok c" "\<not> negative c" "rrext c = Some ext" "\<forall>j<NRRTOT. NRRMU \<le> j \<longrightarrow> RRARR_INDEX_TESTEXT c j = None"
  shows "cent_ok (c\<lparr>rrext := None, ce_cs := ce_cs c - sizeof_rrext\<rparr>)"
    "\<And>j. j < NRRTOT \<Longrightarrow> RRARR_INDEX_TESTEXT (c\<lparr>rrext := None, ce_cs := ce_cs c - sizeof_rrext\<rparr>) j = RRARR_INDEX_TESTEXT c j"
proof -
  let ?c = "c\<lparr>rrext := None, ce_cs := ce_cs c - sizeof_rrext\<rparr>"
  have len: "length (rrmu c) = NRRMU" "length ext = NRREXT" using assms(1-3) by (auto simp: cent_ok_def cent_shape_def)
  have "ext ! k = None" if "k < NRREXT" for k
    using assms(4) [rule_format, of "NRRMU + k"] that assms(2,3) by (simp add: RRARR_INDEX_TESTEXT_def rr_numbers)
  then have ext: "ext = replicate NRREXT None" using len(2) by (auto intro: nth_equalityI)
  have "slots ?c = rrmu c" "slots c = rrmu c @ ext" using assms(2,3) by (simp_all add: slots_def)
  then show "cent_ok ?c" using assms(1-3) len ext
    by (auto simp: cent_ok_def cent_shape_def cent_size_def num_sets_def)
  show "RRARR_INDEX_TESTEXT ?c j = RRARR_INDEX_TESTEXT c j" if "j < NRRTOT" for j
    using that assms(2,4) by (auto simp: RRARR_INDEX_TESTEXT_def)
qed

lemma links_index:
  assumes "negative c' = negative c" "neg_lent c' = neg_lent c"
    and "\<And>j. j < NRRTOT \<Longrightarrow> RRARR_INDEX_TESTEXT c' j = RRARR_INDEX_TESTEXT c j"
  shows "links c' = links c"
  by (rule links_cong) (use assms in \<open>auto simp: lent_at_def\<close>)

text \<open>Changes of an entry that leave its sets, its list nodes and its size alone.\<close>

lemma ok_but_links:
  assumes "ok_but X st" "heap st p = Some c" "cent_ok c'" "ce_qname c' = ce_qname c" "links c' = links c"
    and "cs = cache_size st + (if p \<in> X then 0 else ce_cs c' - ce_cs c)"
  shows "ok_but X ((upd_cent p c' st)\<lparr>cache_size := cs\<rparr>)"
proof (rule ok_but_upd [OF assms(1-4)])
  note c = ok_butD [OF assms(1,2)]
  show "list_ok ((heap st)(p \<mapsto> c')) (rrset_l st)" using c(2) assms(2,5) by (rule list_ok_same)
  show "\<forall>e\<in>set (rrset_l st). le_id e < next_addr st" by (rule c(4))
qed (simp_all add: assms(6))

lemma ok_but_same:
  assumes "ok_but X st" "heap st p = Some c" "cent_ok c'" "ce_qname c' = ce_qname c" "links c' = links c" "ce_cs c' = ce_cs c"
  shows "ok_but X (upd_cent p c' st)"
  using ok_but_links [OF assms(1-5) refl] assms(6) by (cases st; cases "p \<in> X") simp_all

definition all_kept :: "int \<Rightarrow> dns_cent_t \<Rightarrow> nat" where
  "all_kept now c = length (filter (kept now c) [0..<RRARR_LEN c])"

definition purged :: "int \<Rightarrow> bool \<Rightarrow> dns_cent_t \<Rightarrow> dns_cent_t \<Rightarrow> bool" where
  "purged now test c c' \<longleftrightarrow> same_core c c' \<and>
     (\<forall>j<NRRTOT. RRARR_INDEX_TESTEXT c' j = (if \<not> test \<and> gone now c j then None else RRARR_INDEX_TESTEXT c j))"

lemma gone_len: "cent_ok c \<Longrightarrow> j < NRRTOT \<Longrightarrow> gone now c j \<or> kept now c j \<Longrightarrow> j < RRARR_LEN c"
  by (auto simp: gone_def kept_def cent_ok_def RRARR_INDEX_TESTEXT_slots slots_length split: if_splits option.splits)

lemma purge_all_rrsets_spec:
  assumes "ok_but X st" "p \<notin> X" "heap st p = Some c"
  shows "\<exists>n st' c'. purge_all_rrsets now p test st = Some (n, all_kept now c, st') \<and> ok_but X st' \<and>
    heap st' = (heap st)(p \<mapsto> c') \<and> purged now test c c' \<and> c_ns c' = c_ns c \<and> c_soa c' = c_soa c \<and> same_rest st st' \<and>
    (test \<longrightarrow> st' = st) \<and> (n = 0 \<longrightarrow> (\<forall>j<NRRTOT. \<not> gone now c j))"
proof (cases "negative c")
  case True
  then have "purged now test c c" "all_kept now c = 0" "\<not> gone now c j" for j
    by (simp_all add: purged_def gone_def RRARR_INDEX_TESTEXT_def all_kept_def RRARR_LEN_def)
  with True assms heap_self [OF assms(3)] show ?thesis
    by (intro exI [of _ 0] exI [of _ st] exI [of _ c]) (simp add: purge_all_rrsets_def)
next
  case False
  have ok: "cent_ok c" by (rule ok_butD [OF assms(1,3)])
  let ?is = "[0..<RRARR_LEN c]"
  have "\<forall>i\<in>set ?is. i < RRARR_LEN c" by simp
  from purge_rrsets_loop_spec [OF assms this, of now test "(0, 0, 0)"] obtain st1 c1 where
    s1: "purge_rrsets_loop now p test ?is (pack (0, 0, 0) st) = Some (pack (counts now c ?is (0, 0, 0)) st1)"
      "ok_but X st1" "heap st1 = (heap st)(p \<mapsto> c1)" "swept now test (set ?is) c c1" "same_rest st st1" "test \<longrightarrow> st1 = st"
    by auto
  have pu: "purged now test c c1"
    using s1(4) gone_len [OF ok] by (auto simp: purged_def swept_def same_head_def)
  have c1: "heap st1 p = Some c1" "\<not> negative c1" "c_ns c1 = c_ns c" "c_soa c1 = c_soa c"
    using s1(3,4) False by (simp_all add: swept_def same_head_def same_core_def)
  have none: "\<forall>j<NRRTOT. \<not> gone now c j" if "filter (gone now c) ?is = []"
    using that gone_len [OF ok, of _ now] by (auto simp: filter_empty_conv)
  show ?thesis
  proof (cases "rrext c1 \<noteq> None \<and> filter (\<lambda>i. NRRMU \<le> i \<and> kept now c i) ?is = [] \<and> \<not> test")
    case False
    define x where "x = length (filter (\<lambda>i. NRRMU \<le> i \<and> kept now c i) ?is)"
    let ?n = "length (filter (gone now c) ?is) + (if rrext c1 \<noteq> None \<and> x = 0 then 1 else 0)"
    have "purge_rrsets_loop now p test ?is (0, 0, 0, st) = Some (length (filter (gone now c) ?is), all_kept now c, x, st1)"
      using s1(1) by (simp add: pack_def counts_def all_kept_def x_def)
    moreover have "rrext c1 \<noteq> None \<and> x = 0 \<longrightarrow> test" using False by (auto simp: x_def)
    ultimately have "purge_all_rrsets now p test st = Some (?n, all_kept now c, st1)"
      using c1(1) \<open>\<not> negative c\<close> assms(3) by (simp add: purge_all_rrsets_def del: not_None_eq)
    moreover have "?n = 0 \<Longrightarrow> filter (gone now c) ?is = []" by simp
    from none [OF this] have "?n = 0 \<longrightarrow> (\<forall>j<NRRTOT. \<not> gone now c j)" by blast
    ultimately show ?thesis using s1(2,3,5,6) pu c1(3,4) by - (intro exI conjI; assumption)
  next
    case True
    then obtain ext where ext: "rrext c1 = Some ext" by auto
    have em: "\<forall>j<NRRTOT. NRRMU \<le> j \<longrightarrow> RRARR_INDEX_TESTEXT c1 j = None"
    proof (intro allI impI)
      fix j assume j: "j < NRRTOT" "NRRMU \<le> j"
      then have "\<not> kept now c j" using True gone_len [OF ok, of j now] by (auto simp: filter_empty_conv)
      then show "RRARR_INDEX_TESTEXT c1 j = None" using pu j True
        by (auto simp: purged_def kept_def gone_def split: option.splits)
    qed
    let ?c = "c1\<lparr>rrext := None, ce_cs := ce_cs c1 - sizeof_rrext\<rparr>"
    let ?st = "(upd_cent p ?c st1)\<lparr>cache_size := cache_size st1 - sizeof_rrext\<rparr>"
    note d = drop_rrext_ok [OF ok_butD(1) [OF s1(2) c1(1)] c1(2) ext em]
    have lk: "links ?c = links c1" by (rule links_index) (use d(2) in simp_all)
    have "ok_but X ?st"
      by (rule ok_but_links [OF s1(2) c1(1) d(1) _ lk]) (use assms(2) in simp_all)
    moreover have "purged now test c ?c" using pu d(2) by (auto simp: purged_def same_core_def)
    ultimately show ?thesis using True s1 c1 \<open>\<not> negative c\<close> assms(3) ext
      by (intro exI [of _ "length (filter (gone now c) ?is) + 1"] exI [of _ ?st] exI [of _ ?c])
        (simp add: purge_all_rrsets_def pack_def counts_def all_kept_def same_rest_def)
  qed
qed

lemma name_at_drop: "name_at b q ls \<Longrightarrow> name_at (drop q b) 0 ls"
  by (simp add: name_at_prefix)

lemma stale_ref_total:
  assumes "ok_but X st" "cent_ok c"
  shows "\<exists>b. stale_ref now type c cn st = Some b"
proof -
  from cent_name [OF assms(2)] obtain ls where ls: "name_at (ce_qname c) 0 ls" by blast
  note sc = rhnsegcnt_name [OF ls]
  show ?thesis
  proof (cases "unat cn < length ls")
    case True
    from skipsegs_name [OF ls, of "length ls - unat cn"] obtain k where
      k: "skipsegs (ce_qname c) 0 (length ls - unat cn) = Some k" "name_at (ce_qname c) k (drop (length ls - unat cn) ls)"
      by auto
    from lookup_spec [OF assms(1) name_at_drop [OF k(2)]] obtain r loc where
      r: "dns_lookup (qn st) (buckets st) (drop k (ce_qname c)) = Some (r, loc)"
        "r = content (qn st) (buckets st) (lower_name (drop (length ls - unat cn) ls))" by blast
    have "\<exists>d. heap st q = Some d" if "r = Some q" for q
      using content_heap [OF assms(1)] r(2) that by metis
    with True k(1) r(1) sc show ?thesis by (cases r) (auto simp: stale_ref_def)
  qed (auto simp: stale_ref_def sc)
qed

lemma links_refs: "links (c\<lparr>c_ns := a\<rparr>) = links c" "links (c\<lparr>c_soa := a\<rparr>) = links c"
  by (rule links_index; simp)+

lemma purge_refs_spec:
  assumes "ok_but X st" "heap st p = Some c"
  shows "\<exists>m st' c'. purge_refs now p test (n, st) = Some (m, st') \<and> n \<le> m \<and> ok_but X st' \<and> heap st' = (heap st)(p \<mapsto> c') \<and>
    purged now True c c' \<and> same_rest st st' \<and> rrset_l st' = rrset_l st \<and> cache_size st' = cache_size st \<and> (test \<longrightarrow> st' = st)"
proof -
  have ok: "cent_ok c" by (rule ok_butD [OF assms])
  have fr: "purged now True c (c\<lparr>c_ns := a\<rparr>)" "purged now True c (c\<lparr>c_soa := b\<rparr>)"
    "purged now True c (c\<lparr>c_ns := a, c_soa := b\<rparr>)" "purged now True c c" for a b
    by (simp_all add: purged_def same_core_def)
  obtain ns where ns: "c_ns c \<noteq> cundef \<longrightarrow> stale_ref now T_NS c (c_ns c) st = Some ns"
    using stale_ref_total [OF assms(1) ok] by blast
  let ?ch = "c_ns c \<noteq> cundef \<and> ns"
  define c1 where "c1 = (if ?ch \<and> \<not> test then c\<lparr>c_ns := cundef\<rparr> else c)"
  define st1 where "st1 = (if ?ch \<and> \<not> test then upd_cent p c1 st else st)"
  have h1: "heap st1 = (heap st)(p \<mapsto> c1)" using heap_self [OF assms(2)] by (simp add: st1_def c1_def)
  have ok1: "ok_but X st1" "cent_ok c1" "heap st1 p = Some c1"
    using assms ok ok_but_same [OF assms, of c1] h1 by (auto simp: st1_def c1_def links_refs)
  obtain so where so: "c_soa c1 \<noteq> cundef \<longrightarrow> stale_ref now T_SOA c1 (c_soa c1) st1 = Some so"
    using stale_ref_total [OF ok1(1,2)] by blast
  let ?cs = "c_soa c1 \<noteq> cundef \<and> so"
  define st2 where "st2 = (if ?cs \<and> \<not> test then upd_cent p (c1\<lparr>c_soa := cundef\<rparr>) st1 else st1)"
  define c2 where "c2 = (if ?cs \<and> \<not> test then c1\<lparr>c_soa := cundef\<rparr> else c1)"
  have ok2: "ok_but X st2"
    using ok1 ok_but_same [OF ok1(1,3), of "c1\<lparr>c_soa := cundef\<rparr>"] by (auto simp: st2_def links_refs)
  have h2: "heap st2 = (heap st)(p \<mapsto> c2)" by (simp add: st2_def c2_def h1)
  have "purge_refs now p test (n, st) = Some ((n + (if ?ch then 1 else 0)) + (if ?cs then 1 else 0), st2)"
    using assms(2) ns so ok1(3) by (auto simp: purge_refs_def st1_def st2_def c1_def split: if_splits)
  moreover have "same_rest st st2" "rrset_l st2 = rrset_l st" "cache_size st2 = cache_size st" "test \<longrightarrow> st2 = st"
    by (simp_all add: st1_def st2_def same_rest_def)
  moreover have "purged now True c c2" using fr by (auto simp: c2_def c1_def)
  ultimately show ?thesis using ok2 h2
    by (intro exI [of _ "(n + (if ?ch then 1 else 0)) + (if ?cs then 1 else 0)"] exI [of _ st2] exI [of _ c2]) auto
qed

text \<open>
  \<^verbatim>\<open>purge_cent\<close>: the return value is negative exactly when the entry is (or would be) removed; if
  nothing is deleted, the entry is as before.
\<close>

definition dies :: "int \<Rightarrow> dns_cent_t \<Rightarrow> bool" where
  "dies now c \<longleftrightarrow> all_kept now c = 0 \<and> (\<not> negative c \<or> \<not> has (ce_flags c) DF_LOCAL \<and> timedout_nxdom now c)"

lemma purge_cent_spec:
  assumes "ok_but X st" "p \<notin> X" "heap st p = Some c"
  shows "\<exists>n st'. purge_cent now p delete test st = Some (n, st') \<and> ok_but X st' \<and> (test \<longrightarrow> st' = st) \<and>
    mem st' = mem st \<and> next_addr st' = next_addr st \<and> insert_sort st' = insert_sort st \<and>
    (if delete \<and> dies now c then n = -1 \<and> (\<not> test \<longrightarrow> heap st' = (heap st)(p := None))
     else 0 \<le> n \<and> (\<exists>c'. heap st' = (heap st)(p \<mapsto> c') \<and> purged now test c c') \<and>
       (n = 0 \<longrightarrow> (\<forall>j<NRRTOT. \<not> gone now c j)))"
proof -
  from purge_all_rrsets_spec [OF assms, of now test] obtain m st1 c1 where
    s1: "purge_all_rrsets now p test st = Some (m, all_kept now c, st1)" "ok_but X st1" "heap st1 = (heap st)(p \<mapsto> c1)"
      "purged now test c c1" "same_rest st st1" "test \<longrightarrow> st1 = st" "m = 0 \<longrightarrow> (\<forall>j<NRRTOT. \<not> gone now c j)"
    by (elim exE conjE) (rule that; assumption)
  have c1: "heap st1 p = Some c1" using s1(3) by simp
  have d: "all_kept now c = 0 \<and> (\<not> negative c1 \<or> \<not> has (ce_flags c1) DF_LOCAL \<and> timedout_nxdom now c1) \<longleftrightarrow> dies now c"
    using s1(4) by (simp add: dies_def purged_def same_core_def timedout_nxdom_def)
  have pc: "purge_cent now p delete test st =
      (if delete \<and> dies now c then if test then Some (-1, st1) else do { st \<leftarrow> del_cache_ent p None st1; Some (-1, st) }
       else if \<not> has (ce_flags c1) DF_LOCAL then purge_refs now p test (int m, st1) else Some (int m, st1))"
    using s1(1) c1 by (simp add: purge_cent_def flip: d)
  have rest: "mem st1 = mem st" "next_addr st1 = next_addr st" "insert_sort st1 = insert_sort st"
    using s1(5) by (simp_all add: same_rest_def)
  show ?thesis
  proof (cases "delete \<and> dies now c")
    case True
    from del_cache_ent_spec [OF s1(2) c1 assms(2), of None] obtain st2 where
      "del_cache_ent p None st1 = Some st2" "ok_but X st2" "heap st2 = (heap st1)(p := None)" "mem st2 = mem st1"
      "next_addr st2 = next_addr st1" "insert_sort st2 = insert_sort st1" by auto
    with True s1(2,3,6) rest show ?thesis unfolding pc by (cases test) simp_all
  next
    case False
    from purge_refs_spec [OF s1(2) c1, of now test "int m"] obtain k st2 c2 where
      s2: "purge_refs now p test (int m, st1) = Some (k, st2)" "int m \<le> k" "ok_but X st2" "heap st2 = (heap st1)(p \<mapsto> c2)"
        "purged now True c1 c2" "same_rest st1 st2" "test \<longrightarrow> st2 = st1" by (elim exE conjE) (rule that; assumption)
    have p2: "purged now test c c2" "heap st2 = (heap st)(p \<mapsto> c2)"
      using s1(3,4) s2(4,5) same_core_trans [of c c1 c2] by (auto simp: purged_def)
    show ?thesis
    proof (cases "has (ce_flags c1) DF_LOCAL")
      case True
      then have "purge_cent now p delete test st = Some (int m, st1)" using False by (auto simp: pc)
      moreover have "\<exists>c'. heap st1 = (heap st)(p \<mapsto> c') \<and> purged now test c c'" using s1(3,4) by blast
      moreover have "0 \<le> int m" "int m = 0 \<longrightarrow> (\<forall>j<NRRTOT. \<not> gone now c j)" using s1(7) by auto
      ultimately show ?thesis unfolding if_not_P [OF False] using s1(2,6) rest
        by - ((rule exI)+, intro conjI; assumption)
    next
      case local: False
      then have "purge_cent now p delete test st = Some (k, st2)" using False s2(1) by (auto simp: pc)
      moreover have "\<exists>c'. heap st2 = (heap st)(p \<mapsto> c') \<and> purged now test c c'" using p2 by blast
      moreover have "0 \<le> k" "k = 0 \<longrightarrow> (\<forall>j<NRRTOT. \<not> gone now c j)" using s1(7) s2(2) by auto
      moreover have "mem st2 = mem st" "next_addr st2 = next_addr st" "insert_sort st2 = insert_sort st"
        using rest s2(6) by (simp_all add: same_rest_def)
      moreover have "test \<longrightarrow> st2 = st" using s1(6) s2(7) by blast
      ultimately show ?thesis unfolding if_not_P [OF False] using s2(3)
        by - ((rule exI)+, intro conjI; assumption)
    qed
  qed
qed

text \<open>Purging keeps the local sets.\<close>

lemma purged_locals: "purged now test c c' \<Longrightarrow> local_sets c \<subseteq> local_sets c'"
  by (auto simp: local_sets_def purged_def gone_def must_go_def)

lemma dies_locals: "cent_ok c \<Longrightarrow> dies now c \<Longrightarrow> local_sets c = {}"
proof -
  assume ok: "cent_ok c" and "dies now c"
  then have "\<not> kept now c j" if "j < NRRTOT" for j
    using gone_len [OF ok that, of now] by (auto simp: dies_def all_kept_def filter_empty_conv)
  moreover have "kept now c j" if "(j, s) \<in> local_sets c" for j s
    using that by (simp add: local_sets_def kept_def must_go_def)
  ultimately show ?thesis by (auto simp: local_sets_def)
qed

lemma purge_cent_locals:
  assumes "ok_but X st" "p \<notin> X" "heap st p = Some c" "purge_cent now p delete test st = Some (n, st')"
  shows "locals st \<subseteq> locals st'"
proof -
  from purge_cent_spec [OF assms(1-3), of now delete test] assms(4) have
    s: "test \<longrightarrow> st' = st" "if delete \<and> dies now c then n = -1 \<and> (\<not> test \<longrightarrow> heap st' = (heap st)(p := None))
     else 0 \<le> n \<and> (\<exists>c'. heap st' = (heap st)(p \<mapsto> c') \<and> purged now test c c') \<and>
       (n = 0 \<longrightarrow> (\<forall>j<NRRTOT. \<not> gone now c j))" by auto
  show ?thesis
  proof (cases "delete \<and> dies now c")
    case True
    with s locals_del [OF assms(3)] dies_locals [OF ok_butD(1) [OF assms(1,3)]] show ?thesis by (cases test) auto
  next
    case False
    with s(2) obtain c' where "heap st' = (heap st)(p \<mapsto> c')" "purged now test c c'" by auto
    then show ?thesis using locals_upd [OF assms(3)] purged_locals by blast
  qed
qed

subsection \<open>The walk along the list\<close>

lemma purged_links: "purged now test c c' \<Longrightarrow> links c' \<subseteq> links c"
proof
  fix x assume p: "purged now test c c'" and x: "x \<in> links c'"
  then show "x \<in> links c"
    by (cases x; cases "fst x") (auto simp: links_iff lent_at_def purged_def same_core_def split: if_splits)
qed

lemma ok_but_nodes:
  assumes "ok_but X st" "ok_but Y st'" "heap st p = Some c"
    and "heap st' = (heap st)(p := None) \<or> (\<exists>c'. heap st' = (heap st)(p \<mapsto> c') \<and> links c' \<subseteq> links c)"
  shows "set (rrset_l st') \<subseteq> set (rrset_l st)"
proof
  fix e assume "e \<in> set (rrset_l st')"
  with assms(2) obtain d where "heap st' (le_cent e) = Some d" "(le_idx e, le_id e) \<in> links d"
    by (auto simp: ok_but_def base_ok_def list_ok_def)
  with assms(3,4) have "\<exists>d. heap st (le_cent e) = Some d \<and> (le_idx e, le_id e) \<in> links d"
    by (auto split: if_splits)
  with assms(1) show "e \<in> set (rrset_l st)" by (simp add: ok_but_def base_ok_def list_ok_def)
qed

lemma purge_cent_nodes:
  assumes "ok_but X st" "p \<notin> X" "heap st p = Some c" "purge_cent now p delete test st = Some (n, st')"
  shows "set (rrset_l st') \<subseteq> set (rrset_l st)"
proof -
  from purge_cent_spec [OF assms(1-3), of now delete test] assms(4) have
    s: "ok_but X st'" "test \<longrightarrow> st' = st" "if delete \<and> dies now c then n = -1 \<and> (\<not> test \<longrightarrow> heap st' = (heap st)(p := None))
     else 0 \<le> n \<and> (\<exists>c'. heap st' = (heap st)(p \<mapsto> c') \<and> purged now test c c') \<and>
       (n = 0 \<longrightarrow> (\<forall>j<NRRTOT. \<not> gone now c j))" by auto
  show ?thesis
  proof (cases test)
    case False
    with s(3) have "heap st' = (heap st)(p := None) \<or> (\<exists>c'. heap st' = (heap st)(p \<mapsto> c') \<and> links c' \<subseteq> links c)"
      by (cases "delete \<and> dies now c") (auto dest: purged_links)
    then show ?thesis by (rule ok_but_nodes [OF assms(1) s(1) assms(3)])
  qed (use s(2) in simp)
qed

lemma slot_sum_one: "slot_sum (\<lambda>_. 1) xs = int (length (filter (\<lambda>x. x \<noteq> None) xs))"
  by (induction xs) (auto simp: slot_val_def split: option.splits)

lemma num_rrs_0:
  assumes "cent_ok c"
  shows "ce_num_rrs c = 0 \<longleftrightarrow> (\<forall>j<NRRTOT. RRARR_INDEX_TESTEXT c j = None)"
proof -
  have sh: "cent_shape c" using assms by (simp add: cent_ok_def)
  let ?n = "length (filter (\<lambda>x. x \<noteq> None) (slots c))"
  have len: "length (slots c) \<le> NRRTOT" using slots_length [OF sh] RRARR_LEN_le by simp
  have small: "?n < 2 ^ 16" using order_trans [OF length_filter_le len, of "\<lambda>x. x \<noteq> None"] by (simp add: NRRTOT_def)
  have "ce_num_rrs c = of_nat ?n" using assms by (simp add: cent_ok_def num_sets_def slot_sum_one)
  moreover have "(of_nat n :: 16 word) = 0 \<longleftrightarrow> n = 0" if "n < 2 ^ 16" for n
    using that by (auto simp: word_of_nat_eq_0_iff dest: dvd_imp_le)
  ultimately have "ce_num_rrs c = 0 \<longleftrightarrow> ?n = 0" using small by simp
  also have "\<dots> \<longleftrightarrow> (\<forall>j<length (slots c). slots c ! j = None)" by (auto simp: filter_empty_conv all_set_conv_all_nth)
  also have "\<dots> \<longleftrightarrow> (\<forall>j<NRRTOT. RRARR_INDEX_TESTEXT c j = None)"
    using len by (auto simp: RRARR_INDEX_TESTEXT_slots [OF sh] split: if_splits)
  finally show ?thesis .
qed

lemma node_entry:
  assumes "ok_but X st" "e \<in> set (rrset_l st)"
  obtains c where "heap st (le_cent e) = Some c" "(le_idx e, le_id e) \<in> links c"
  using assms list_okD [of "heap st" "rrset_l st" e] by (auto simp: ok_but_def base_ok_def)

lemma find_lent_Some:
  assumes "ok_but X st" "e \<in> set (rrset_l st)"
  shows "find_lent (le_id e) st = Some e"
proof -
  have "list_ok (heap st) (rrset_l st)" using assms(1) by (simp add: ok_but_def base_ok_def)
  note u = list_ok_unique [OF this]
  obtain x where x: "find (\<lambda>x. le_id x = le_id e) (rrset_l st) = Some x"
    using assms(2) by (cases "find (\<lambda>x. le_id x = le_id e) (rrset_l st)") (auto simp: find_None_iff)
  then have "x \<in> set (rrset_l st)" "le_id x = le_id e" by (auto simp: find_Some_iff)
  with u [OF _ assms(2)] x show ?thesis by (simp add: find_lent_def)
qed

lemma del_empty_links:
  assumes "cent_ok c" "\<not> negative c" "ce_num_rrs c = 0"
  shows "links c = {}"
  using assms num_rrs_0 [OF assms(1)] by (auto simp: links_def)

text \<open>What one iteration does to the list: at most the node itself is removed.\<close>

definition steps_ok :: "rr_lent_t \<Rightarrow> cache \<Rightarrow> cache \<Rightarrow> bool" where
  "steps_ok e st st' \<longleftrightarrow> ok_but {} st' \<and>
     (rrset_l st' = rrset_l st \<or> rrset_l st' = filter (\<lambda>x. le_id x \<noteq> le_id e) (rrset_l st)) \<and>
     mem st' = mem st \<and> next_addr st' = next_addr st \<and> insert_sort st' = insert_sort st \<and>
     (\<forall>x c. x \<in> set (rrset_l st') \<longrightarrow> heap st (le_cent x) = Some c \<longrightarrow>
        (\<exists>c'. heap st' (le_cent x) = Some c' \<and> le_local st' x c' = le_local st x c)) \<and>
     locals st \<subseteq> locals st'"

text \<open>The local nodes depend on the flags only.\<close>

lemma le_local_cong:
  assumes "has (ce_flags c') DF_LOCAL = has (ce_flags c) DF_LOCAL" "le_rrset st' x = le_rrset st x"
  shows "le_local st' x c' = le_local st x c"
  using assms by (simp add: le_local_def)

text \<open>Deleting the set of the node \<open>e\<close>, and the entry if no set is left.\<close>

lemma del_node_set:
  assumes "ok_but {} st" "e \<in> set (rrset_l st)" "le_idx e = Some i"
    and nl: "\<forall>s. le_rrset st e = Some s \<longrightarrow> \<not> has (rs_flags s) CF_LOCAL"
  shows "\<exists>rv st1 c1. del_cent_rrset (le_cent e) i st = Some (rv, st1) \<and> heap st1 (le_cent e) = Some c1 \<and> \<not> negative c1 \<and>
    rrset_l st1 = filter (\<lambda>x. le_id x \<noteq> le_id e) (rrset_l st) \<and> steps_ok e st (st1\<lparr>cache_size := cache_size st1 - rv\<rparr>)"
proof -
  from node_entry [OF assms(1,2)] obtain c where c: "heap st (le_cent e) = Some c" "(Some i, le_id e) \<in> links c"
    using assms(3) by metis
  then have i: "i < NRRTOT" "lent_at c i = Some (le_id e)" by (simp_all add: links_iff)
  then have neg: "\<not> negative c" using lent_at_negative by fastforce
  have "le_cent e \<notin> {}" by simp
  from del_sized_spec [OF assms(1) c(1) this i(1)] obtain rv st1 c1 where
    d: "del_cent_rrset (le_cent e) i st = Some (rv, st1)" "ok_but {} (st1\<lparr>cache_size := cache_size st1 - rv\<rparr>)"
      "heap st1 = (heap st)(le_cent e \<mapsto> c1)" "same_head c c1"
      "\<forall>j<NRRTOT. RRARR_INDEX_TESTEXT c1 j = (if j = i then None else RRARR_INDEX_TESTEXT c j)"
      "rrset_l st1 = filter (\<lambda>e. le_id e \<notin> set_option (lent_at c i)) (rrset_l st)" "same_rest st st1"
    by (elim exE conjE) (rule that; assumption)
  have l: "rrset_l st1 = filter (\<lambda>x. le_id x \<noteq> le_id e) (rrset_l st)" using d(6) i(2) by (simp add: eq_commute)
  have sh: "has (ce_flags c1) DF_LOCAL = has (ce_flags c) DF_LOCAL" "negative c1 = negative c"
    using d(4) by (simp_all add: same_head_def same_core_def)
  have loc: "\<exists>c'. heap st1 (le_cent x) = Some c' \<and> le_local (st1\<lparr>cache_size := cache_size st1 - rv\<rparr>) x c' = le_local st x cx"
    if x: "x \<in> set (rrset_l st1)" "heap st (le_cent x) = Some cx" for x cx
  proof (cases "le_cent x = le_cent e")
    case True
    with x(2) c(1) have cx: "cx = c" by simp
    from x(1) l have xl: "x \<in> set (rrset_l st)" "le_id x \<noteq> le_id e" by auto
    from node_entry [OF assms(1) xl(1)] True c(1) have lk: "(le_idx x, le_id x) \<in> links c" by auto
    have "le_rrset (st1\<lparr>cache_size := cache_size st1 - rv\<rparr>) x = le_rrset st x"
    proof (cases "le_idx x")
      case (Some j)
      with lk have "j < NRRTOT" "lent_at c j = Some (le_id x)" by (simp_all add: links_iff)
      with i(2) xl(2) d(5) Some True c(1) d(3) show ?thesis by (auto simp: le_rrset_def)
    qed (simp add: le_rrset_def True c(1) d(3))
    from le_local_cong [OF sh(1) this] show ?thesis using True cx d(3) by simp
  next
    case False
    then have "le_rrset (st1\<lparr>cache_size := cache_size st1 - rv\<rparr>) x = le_rrset st x" using d(3) by (simp add: le_rrset_def)
    from le_local_cong [OF refl this] False x(2) d(3) show ?thesis by simp
  qed
  have "local_sets c \<subseteq> local_sets c1" using nl d(5) assms(3) c(1) by (auto simp: local_sets_def le_rrset_def)
  from locals_upd [OF c(1) d(3) this] have "locals st \<subseteq> locals (st1\<lparr>cache_size := cache_size st1 - rv\<rparr>)"
    by (simp add: locals_def)
  then have "steps_ok e st (st1\<lparr>cache_size := cache_size st1 - rv\<rparr>)"
    using d(2,7) l loc by (simp add: steps_ok_def same_rest_def)
  then show ?thesis using d(1,3) l neg sh(2) by (intro exI [of _ rv] exI [of _ st1] exI [of _ c1]) simp
qed

lemma steps_ok_refl: "ok_but {} st \<Longrightarrow> steps_ok e st st"
  by (simp add: steps_ok_def)

lemma steps_ok_trans: "steps_ok e st st1 \<Longrightarrow> steps_ok e st1 st2 \<Longrightarrow> steps_ok e st st2"
proof -
  assume a: "steps_ok e st st1" "steps_ok e st1 st2"
  have l: "rrset_l st2 = rrset_l st \<or> rrset_l st2 = filter (\<lambda>x. le_id x \<noteq> le_id e) (rrset_l st)"
    using a by (auto simp: steps_ok_def)
  have "set (rrset_l st2) \<subseteq> set (rrset_l st1)" using a(2) by (auto simp: steps_ok_def)
  then have "\<exists>c'. heap st2 (le_cent x) = Some c' \<and> le_local st2 x c' = le_local st x c"
    if "x \<in> set (rrset_l st2)" "heap st (le_cent x) = Some c" for x c
    using a that unfolding steps_ok_def by (metis (no_types, lifting) subsetD)
  with a l show ?thesis by (auto simp: steps_ok_def)
qed

text \<open>Deleting an entry without sets, reached from its node or after its last set is gone.\<close>

lemma del_node_entry:
  assumes "ok_but {} st" "heap st p = Some c" "ce_num_rrs c = 0" "negative c \<longrightarrow> neg_lent c = Some (le_id e)"
  shows "\<exists>st'. del_cache_ent p None st = Some st' \<and> steps_ok e st st' \<and> (negative c \<longrightarrow> e \<notin> set (rrset_l st'))"
proof -
  note c = ok_butD [OF assms(1,2)]
  have p: "p \<notin> {}" by simp
  have none: "(None :: dns_hash_loc_t option) = None \<or> loc_at (buckets st) p (the None)" by simp
  from del_cache_ent_spec [OF assms(1,2) p none] obtain st' where
    d: "del_cache_ent p None st = Some st'" "ok_but {} st'" "heap st' = (heap st)(p := None)"
      "rrset_l st' = filter (\<lambda>e. le_id e \<notin> snd ` links c) (rrset_l st)"
      "mem st' = mem st" "next_addr st' = next_addr st" "insert_sort st' = insert_sort st"
    by (elim exE conjE) (rule that; assumption)
  have lk: "links c = (if negative c then {(None, le_id e)} else {})"
    using assms(3,4) num_rrs_0 [OF c(1)] by (auto simp: links_def)
  have l: "rrset_l st' = (if negative c then filter (\<lambda>x. le_id x \<noteq> le_id e) (rrset_l st) else rrset_l st)"
    using d(4) lk by simp
  have loc: "\<exists>c'. heap st' (le_cent x) = Some c' \<and> le_local st' x c' = le_local st x cx"
    if x: "x \<in> set (rrset_l st')" "heap st (le_cent x) = Some cx" for x cx
  proof -
    from node_entry [OF d(2) x(1)] d(3) have np: "le_cent x \<noteq> p" by (metis fun_upd_same option.distinct(1))
    then have "le_rrset st' x = le_rrset st x" using d(3) by (simp add: le_rrset_def)
    from le_local_cong [OF refl this] np x(2) d(3) show ?thesis by simp
  qed
  have "local_sets c = {}" using assms(3) num_rrs_0 [OF c(1)] by (auto simp: local_sets_def)
  from locals_del [OF assms(2) d(3) this] have "steps_ok e st st'" using d(2,5-7) l loc by (simp add: steps_ok_def)
  with d(1) l show ?thesis by auto
qed

lemma purge_step1_spec:
  assumes "ok_but {} st" "e \<in> set (rrset_l st)"
  shows "\<exists>st'. purge_step1 now (le_id e) st = Some st' \<and> steps_ok e st st'"
proof -
  from node_entry [OF assms] obtain c where c: "heap st (le_cent e) = Some c" "(le_idx e, le_id e) \<in> links c" by blast
  note f = find_lent_Some [OF assms]
  have ok: "cent_ok c" by (rule ok_butD [OF assms(1) c(1)])
  show ?thesis
  proof (cases "le_local st e c")
    case True
    with f c steps_ok_refl [OF assms(1)] show ?thesis by (simp add: purge_step1_def)
  next
    case local: False
    show ?thesis
    proof (cases "le_idx e")
      case None
      then have n: "negative c" "neg_lent c = Some (le_id e)" using c(2) by (simp_all add: links_iff)
      then have "ce_num_rrs c = 0" using num_rrs_0 [OF ok] by (simp add: RRARR_INDEX_TESTEXT_def)
      from del_node_entry [OF assms(1) c(1) this, of e] n f c(1) local None steps_ok_refl [OF assms(1)] show ?thesis
        by (cases "has (ce_flags c) DF_LOCAL \<or> \<not> timedout_nxdom now c") (auto simp: purge_step1_def)
    next
      case (Some i)
      then have i: "i < NRRTOT" "lent_at c i = Some (le_id e)" using c(2) by (simp_all add: links_iff)
      then obtain s where s: "RRARR_INDEX_TESTEXT c i = Some s" by (auto simp: lent_at_def bind_eq_Some_conv)
      show ?thesis
      proof (cases "must_go now s")
        case False
        have "ce_num_rrs c \<noteq> 0" using num_rrs_0 [OF ok] i(1) s by auto
        with False s f c(1) local Some steps_ok_refl [OF assms(1)] show ?thesis
          by (simp add: purge_step1_def purge_rrset_def)
      next
        case True
        have "\<forall>s. le_rrset st e = Some s \<longrightarrow> \<not> has (rs_flags s) CF_LOCAL"
          using True s Some c(1) by (auto simp: le_rrset_def must_go_def)
        from del_node_set [OF assms Some this] obtain rv st1 c1 where
          d: "del_cent_rrset (le_cent e) i st = Some (rv, st1)" "heap st1 (le_cent e) = Some c1" "\<not> negative c1"
            "steps_ok e st (st1\<lparr>cache_size := cache_size st1 - rv\<rparr>)" by (elim exE conjE) (rule that; assumption)
        let ?st = "st1\<lparr>cache_size := cache_size st1 - rv\<rparr>"
        have "ok_but {} ?st" "heap ?st (le_cent e) = Some c1" using d(2,4) by (simp_all add: steps_ok_def)
        from del_node_entry [OF this, of e] d(3) steps_ok_trans [OF d(4)]
        have "ce_num_rrs c1 = 0 \<Longrightarrow> \<exists>st'. del_cache_ent (le_cent e) None ?st = Some st' \<and> steps_ok e st st'" by blast
        with d True s f c(1) local Some show ?thesis
          by (cases "ce_num_rrs c1 = 0") (auto simp: purge_step1_def purge_rrset_def)
      qed
    qed
  qed
qed

lemma purge_step2_spec:
  assumes "ok_but {} st" "e \<in> set (rrset_l st)" "heap st (le_cent e) = Some c"
  shows "\<exists>st'. purge_step2 (le_id e) st = Some st' \<and> steps_ok e st st' \<and> (le_local st e c \<or> e \<notin> set (rrset_l st'))"
proof -
  from node_entry [OF assms(1,2)] assms(3) have lk: "(le_idx e, le_id e) \<in> links c" by auto
  note f = find_lent_Some [OF assms(1,2)]
  show ?thesis
  proof (cases "le_local st e c")
    case True
    with f assms(3) steps_ok_refl [OF assms(1)] show ?thesis by (simp add: purge_step2_def)
  next
    case local: False
    show ?thesis
    proof (cases "le_idx e")
      case None
      then have n: "negative c" "neg_lent c = Some (le_id e)" using lk by (simp_all add: links_iff)
      then have "ce_num_rrs c = 0" using num_rrs_0 [OF ok_butD(1) [OF assms(1,3)]] by (simp add: RRARR_INDEX_TESTEXT_def)
      with del_node_entry [OF assms(1,3) this, of e] n f assms(3) local None show ?thesis
        by (auto simp: purge_step2_def)
    next
      case (Some i)
      have "\<forall>s. le_rrset st e = Some s \<longrightarrow> \<not> has (rs_flags s) CF_LOCAL" using local by (auto simp: le_local_def)
      from del_node_set [OF assms(1,2) Some this] obtain rv st1 c1 where
        d: "del_cent_rrset (le_cent e) i st = Some (rv, st1)" "heap st1 (le_cent e) = Some c1" "\<not> negative c1"
          "rrset_l st1 = filter (\<lambda>x. le_id x \<noteq> le_id e) (rrset_l st)"
          "steps_ok e st (st1\<lparr>cache_size := cache_size st1 - rv\<rparr>)" by (elim exE conjE) (rule that; assumption)
      let ?st = "st1\<lparr>cache_size := cache_size st1 - rv\<rparr>"
      have k: "ok_but {} ?st" "heap ?st (le_cent e) = Some c1" using d(2,5) by (simp_all add: steps_ok_def)
      have sub: "steps_ok e ?st st' \<Longrightarrow> e \<notin> set (rrset_l st')" for st' using d(4) by (auto simp: steps_ok_def)
      from del_node_entry [OF k, of e] d(3) steps_ok_trans [OF d(5)] sub
      have "ce_num_rrs c1 = 0 \<Longrightarrow> \<exists>st'. del_cache_ent (le_cent e) None ?st = Some st' \<and> steps_ok e st st' \<and> e \<notin> set (rrset_l st')"
        by blast
      with d f assms(3) local Some sub [OF steps_ok_refl [OF k(1)]] show ?thesis
        by (cases "ce_num_rrs c1 = 0") (auto simp: purge_step2_def)
    qed
  qed
qed

definition node_local :: "cache \<Rightarrow> rr_lent_t \<Rightarrow> bool" where
  "node_local st x \<longleftrightarrow> (\<exists>c. heap st (le_cent x) = Some c \<and> le_local st x c)"

lemma steps_ok_local:
  assumes "steps_ok e st st'" "ok_but {} st" "x \<in> set (rrset_l st')"
  shows "node_local st' x = node_local st x"
proof -
  have "x \<in> set (rrset_l st)" using assms(1,3) by (auto simp: steps_ok_def)
  from node_entry [OF assms(2) this] obtain c where c: "heap st (le_cent x) = Some c" by blast
  with assms(1,3) obtain c' where "heap st' (le_cent x) = Some c'" "le_local st' x c' = le_local st x c"
    unfolding steps_ok_def by metis
  with c show ?thesis by (simp add: node_local_def)
qed

lemma id_mid: "distinct (map le_id (pre @ e # suf)) \<Longrightarrow> x \<in> set pre \<union> set suf \<Longrightarrow> le_id x \<noteq> le_id e"
  by auto (metis imageI)+

lemma lent_next_mid:
  assumes "distinct (map le_id (pre @ e # suf))" "rrset_l st = pre @ e # suf"
  shows "lent_next (le_id e) st = map_option le_id (hdo suf)"
proof -
  have "dropWhile (\<lambda>x. le_id x \<noteq> le_id e) (pre @ e # suf) = e # suf"
    using id_mid [OF assms(1)] by (subst dropWhile_append2) auto
  with assms(2) show ?thesis by (simp add: lent_next_def)
qed

lemma filter_id_mid:
  assumes "distinct (map le_id (pre @ e # suf))"
  shows "filter (\<lambda>x. le_id x \<noteq> le_id e) (pre @ e # suf) = pre @ suf"
proof -
  have "filter (\<lambda>x. le_id x \<noteq> le_id e) pre = pre" "filter (\<lambda>x. le_id x \<noteq> le_id e) suf = suf"
    using id_mid [OF assms] by (auto intro!: filter_True)
  then show ?thesis by simp
qed

text \<open>
  The loop visits every node once and ends; \<open>T\<close> says that a step removes its node unless it is local.
\<close>

lemma purge_loop_spec:
  assumes step: "\<And>st e. ok_but {} st \<Longrightarrow> e \<in> set (rrset_l st) \<Longrightarrow> \<exists>st'. step (le_id e) st = Some st' \<and> steps_ok e st st' \<and>
      (T \<longrightarrow> e \<in> set (rrset_l st') \<longrightarrow> node_local st' e)"
    and "ok_but {} st" "rrset_l st = pre @ suf" "T \<longrightarrow> (\<forall>x\<in>set pre. node_local st x)"
  shows "\<exists>st'. purge_loop cond step (map_option le_id (hdo suf)) st = Some st' \<and> ok_but {} st' \<and>
    mem st' = mem st \<and> next_addr st' = next_addr st \<and> insert_sort st' = insert_sort st \<and>
    set (rrset_l st') \<subseteq> set (rrset_l st) \<and> (\<forall>x\<in>set (rrset_l st'). node_local st' x = node_local st x) \<and>
    locals st \<subseteq> locals st' \<and> (cond st' \<longrightarrow> T \<longrightarrow> (\<forall>x\<in>set (rrset_l st'). node_local st' x))"
  using assms(2-)
proof (induction suf arbitrary: pre st)
  case Nil
  then show ?case by (simp add: purge_loop.simps)
next
  case (Cons e suf)
  show ?case
  proof (cases "cond st")
    case False
    then have "purge_loop cond step (map_option le_id (hdo (e # suf))) st = Some st" by (simp add: purge_loop.simps)
    with Cons.prems(1) False show ?thesis by auto
  next
    case True
    have dist: "distinct (map le_id (pre @ e # suf))"
      using Cons.prems(1,2) by (simp add: ok_but_def base_ok_def list_ok_def)
    have "e \<in> set (rrset_l st)" using Cons.prems(2) by simp
    from step [OF Cons.prems(1) this] obtain st1 where
      s: "step (le_id e) st = Some st1" "steps_ok e st st1" "T \<longrightarrow> e \<in> set (rrset_l st1) \<longrightarrow> node_local st1 e" by blast
    note loc = steps_ok_local [OF s(2) Cons.prems(1)]
    have nx: "purge_loop cond step (map_option le_id (hdo (e # suf))) st = purge_loop cond step (map_option le_id (hdo suf)) st1"
      using True s(1) lent_next_mid [OF dist Cons.prems(2)] by (subst purge_loop.simps) simp
    have "\<exists>pre'. rrset_l st1 = pre' @ suf \<and> (set pre' \<subseteq> insert e (set pre))"
      using s(2) Cons.prems(2) filter_id_mid [OF dist] by (auto simp: steps_ok_def intro: exI [of _ "pre @ [e]"])
    then obtain pre' where pre': "rrset_l st1 = pre' @ suf" "set pre' \<subseteq> insert e (set pre)" by blast
    have "T \<longrightarrow> (\<forall>x\<in>set pre'. node_local st1 x)"
      using pre' s(3) loc Cons.prems(3) by (metis Un_iff insert_iff set_append subsetD)
    moreover have s1: "ok_but {} st1" "mem st1 = mem st" "next_addr st1 = next_addr st" "insert_sort st1 = insert_sort st"
      "set (rrset_l st1) \<subseteq> set (rrset_l st)" "locals st \<subseteq> locals st1" using s(2) by (auto simp: steps_ok_def)
    ultimately obtain st' where st': "purge_loop cond step (map_option le_id (hdo suf)) st1 = Some st'" "ok_but {} st'"
      "mem st' = mem st1" "next_addr st' = next_addr st1" "insert_sort st' = insert_sort st1"
      "set (rrset_l st') \<subseteq> set (rrset_l st1)" "\<forall>x\<in>set (rrset_l st'). node_local st' x = node_local st1 x"
      "locals st1 \<subseteq> locals st'" "cond st' \<longrightarrow> T \<longrightarrow> (\<forall>x\<in>set (rrset_l st'). node_local st' x)"
      using Cons.IH [OF s1(1) pre'(1)] by blast
    moreover have "\<forall>x\<in>set (rrset_l st'). node_local st' x = node_local st x" using st'(6,7) loc by (metis subsetD)
    ultimately show ?thesis unfolding nx using s1 by (intro exI [of _ st']) auto
  qed
qed

lemma sort_cache_rrl_spec:
  assumes "ok_but {} st" "length (rrset_l st) < 2 ^ 32"
  shows "\<exists>st'. sort_cache_rrl st = Some st' \<and> ok_but {} st' \<and> mset (rrset_l st') = mset (rrset_l st) \<and> heap st' = heap st \<and>
    mem st' = mem st \<and> next_addr st' = next_addr st \<and> cache_size st' = cache_size st"
proof -
  let ?l = "sort_key (get_rrlent_ts st) (rrset_l st)"
  have "sort_cache_rrl st = Some (st\<lparr>rrset_l := ?l\<rparr>)"
    using assms(2) by (simp add: sort_cache_rrl_def sort_rrl_eq NTMPSORT_def)
  moreover have "list_ok (heap st) ?l" if "list_ok (heap st) (rrset_l st)"
  proof -
    have "mset (map le_id ?l) = mset (map le_id (rrset_l st))" by simp
    from mset_eq_imp_distinct_iff [OF this] that show ?thesis by (simp add: list_ok_def)
  qed
  ultimately show ?thesis using assms(1) by (auto simp: ok_but_def base_ok_def)
qed

text \<open>
  The list is short enough for the merge sort: it is at most as long as the number of addresses.
\<close>

definition room :: "cache \<Rightarrow> bool" where
  "room st \<longleftrightarrow> insert_sort st \<or> length (rrset_l st) < 2 ^ 32"

lemma ok_but_list_distinct: "ok_but X st \<Longrightarrow> distinct (rrset_l st)"
  by (auto simp: ok_but_def base_ok_def list_ok_def distinct_map)

lemma sublist_length: "ok_but X st \<Longrightarrow> ok_but X st' \<Longrightarrow> set (rrset_l st') \<subseteq> set (rrset_l st) \<Longrightarrow> length (rrset_l st') \<le> length (rrset_l st)"
  using ok_but_list_distinct by (metis List.finite_set card_mono distinct_card)

lemma purge_cache_spec:
  assumes "ok_but {} st" "room st"
  shows "\<exists>st'. purge_cache now sz lazy st = Some st' \<and> ok_but {} st' \<and> room st' \<and> (insert_sort st \<longrightarrow> insert_sort st') \<and> mem st' = mem st \<and> next_addr st' = next_addr st \<and>
    set (rrset_l st') \<subseteq> set (rrset_l st) \<and> locals st \<subseteq> locals st' \<and>
    (cache_size st' \<le> sz \<or> (\<forall>x\<in>set (rrset_l st'). node_local st' x))"
proof -
  have st1: "\<exists>st'. purge_step1 now (le_id e) st = Some st' \<and> steps_ok e st st' \<and> (False \<longrightarrow> e \<in> set (rrset_l st') \<longrightarrow> node_local st' e)"
    if "ok_but {} st" "e \<in> set (rrset_l st)" for st e using purge_step1_spec [OF that] by simp
  have st2: "\<exists>st'. purge_step2 (le_id e) st = Some st' \<and> steps_ok e st st' \<and> (True \<longrightarrow> e \<in> set (rrset_l st') \<longrightarrow> node_local st' e)"
    if st: "ok_but {} st" "e \<in> set (rrset_l st)" for st e
  proof -
    from node_entry [OF st] obtain c where c: "heap st (le_cent e) = Some c" by blast
    from purge_step2_spec [OF st c] steps_ok_local [OF _ st(1)] c show ?thesis by (auto simp: node_local_def)
  qed
  from purge_loop_spec [where step = "purge_step1 now" and T = False and cond = "\<lambda>st. \<not> lazy \<or> cache_size st > sz"
      and pre = "[]", OF st1 assms(1)] obtain s1 where
    s1: "purge_loop (\<lambda>st. \<not> lazy \<or> cache_size st > sz) (purge_step1 now) (first_lent st) st = Some s1" "ok_but {} s1"
      "mem s1 = mem st" "next_addr s1 = next_addr st" "insert_sort s1 = insert_sort st" "set (rrset_l s1) \<subseteq> set (rrset_l st)" "locals st \<subseteq> locals s1"
    by (auto simp: first_lent_def)
  have room1: "room s1" using assms(2) s1(5) sublist_length [OF assms(1) s1(2,6)] by (auto simp: room_def)
  show ?thesis
  proof (cases "cache_size s1 \<le> sz")
    case True
    with s1 room1 show ?thesis by (simp add: purge_cache_def)
  next
    case False
    have "\<exists>s2. (if \<not> insert_sort s1 then do { st \<leftarrow> sort_cache_rrl s1; Some (st\<lparr>insert_sort := True\<rparr>) } else Some s1) = Some s2 \<and>
        ok_but {} s2 \<and> insert_sort s2 \<and> mem s2 = mem s1 \<and> next_addr s2 = next_addr s1 \<and> set (rrset_l s2) = set (rrset_l s1) \<and> locals s2 = locals s1"
    proof (cases "insert_sort s1")
      case False
      with room1 sort_cache_rrl_spec [OF s1(2)] show ?thesis by (auto simp: room_def locals_def dest: mset_eq_setD)
    qed (use s1(2) in simp)
    then obtain s2 where s2: "(if \<not> insert_sort s1 then do { st \<leftarrow> sort_cache_rrl s1; Some (st\<lparr>insert_sort := True\<rparr>) } else Some s1) = Some s2"
      "ok_but {} s2" "insert_sort s2" "mem s2 = mem s1" "next_addr s2 = next_addr s1" "set (rrset_l s2) = set (rrset_l s1)" "locals s2 = locals s1" by blast
    from purge_loop_spec [where step = purge_step2 and T = True and cond = "\<lambda>st. cache_size st > sz" and pre = "[]",
        OF st2 s2(2)] obtain s3 where
      s3: "purge_loop (\<lambda>st. cache_size st > sz) purge_step2 (first_lent s2) s2 = Some s3" "ok_but {} s3"
        "mem s3 = mem s2" "next_addr s3 = next_addr s2" "insert_sort s3 = insert_sort s2" "set (rrset_l s3) \<subseteq> set (rrset_l s2)"
        "locals s2 \<subseteq> locals s3" "cache_size s3 > sz \<longrightarrow> (\<forall>x\<in>set (rrset_l s3). node_local s3 x)"
      by (auto simp: first_lent_def)
    have "purge_cache now sz lazy st = Some s3" using s1(1) False s2(1) s3(1) by (simp add: purge_cache_def)
    with s3 s2 s1 show ?thesis by (auto simp: room_def)
  qed
qed


text \<open>
  C14.  In a consistent cache \<^verbatim>\<open>purge_cache\<close> ends, never follows a link to a node or entry that has been
  freed, leaves the cache consistent, and keeps every local set.  Afterwards the cache is within the
  limit, unless all that is left in the list are nodes of local sets or entries.  The merge sort is not
  asked to sort more nodes than it can.
\<close>

theorem purge_cache_bound:
  assumes "cache_ok st" "insert_sort st \<or> length (rrset_l st) < 2 ^ 32"
  shows "\<exists>st'. purge_cache now sz lazy st = Some st' \<and> cache_ok st' \<and> locals st \<subseteq> locals st' \<and>
    (cache_size st' \<le> sz \<or>
     (\<forall>x\<in>set (rrset_l st'). \<exists>c. heap st' (le_cent x) = Some c \<and> le_local st' x c))"
  using purge_cache_spec [of st now sz lazy] assms unfolding cache_ok_def room_def node_local_def by blast

lemma cache_ok_init: "cache_ok (init_cache m)"
proof -
  have "entries (mk_dns_hash :: nat hash_table) = []" by (simp add: entries_def mk_dns_hash_def)
  then show ?thesis
    by (simp add: cache_ok_def ok_but_def base_ok_def init_cache_def list_ok_def table_ok_mk)
qed

theorem purge_cache_bound_witness:
  "\<exists>st'. purge_cache 1000 (-1) False (init_cache (\<lambda>_. True)) = Some st' \<and> cache_ok st' \<and>
    (cache_size st' \<le> -1 \<or> (\<forall>x\<in>set (rrset_l st'). \<exists>c. heap st' (le_cent x) = Some c \<and> le_local st' x c))"
  using purge_cache_bound [OF cache_ok_init, of "\<lambda>_. True" 1000 "-1" False] by (auto simp: init_cache_def)

end
