(* ===== verification/Cache_Add.thy ===== *)
theory Cache_Add
  imports Cache_Purge
begin

text \<open>
  Adding entries to the cache.  A new entry is first put into the list of sets and then into the table;
  the sets of an entry that is already in the table are replaced while its size is taken off
  \<^verbatim>\<open>cache_size\<close>.  Both situations are instances of one interface, an entry that is being worked on:
  the operations on its sets are treated once for both.
\<close>

subsection \<open>An entry that is being worked on\<close>

text \<open>What the operations on one entry leave alone, and that they need no more memory than they get.\<close>

definition around :: "cache \<Rightarrow> cache \<Rightarrow> nat \<Rightarrow> bool" where
  "around st st' n \<longleftrightarrow> buckets st' = buckets st \<and> ent_num st' = ent_num st \<and> cache_size st' = cache_size st \<and>
     insert_sort st' = insert_sort st \<and> length (rrset_l st') \<le> length (rrset_l st) + n \<and> ((\<forall>k. mem st k) \<longrightarrow> (\<forall>k. mem st' k))"

lemma around_refl [simp]: "around st st 0"
  by (simp add: around_def)

lemma around_trans: "around a b m \<Longrightarrow> around b c n \<Longrightarrow> around a c (m + n)"
  by (auto simp: around_def)

lemma around_mono: "around a b m \<Longrightarrow> m \<le> n \<Longrightarrow> around a b n"
  by (auto simp: around_def)

lemma sub_length: "list_ok h l \<Longrightarrow> list_ok h' l' \<Longrightarrow> set l' \<subseteq> set l \<Longrightarrow> length l' \<le> length l"
  unfolding list_ok_def distinct_map by (metis List.finite_set card_mono distinct_card)

lemma rrl_insert_mset: "mset (rrl_insert b ts ne l) = add_mset ne (mset l)"
  using rrl_insert_split [of l b ts ne] by auto

lemma put_rrset_self:
  assumes "RRARR_INDEX_TESTEXT c k = Some s"
  shows "put_rrset c k (Some s) = c"
proof -
  have u: "xs[j := v] = xs" if "xs ! j = v" for xs :: "rr_set_t option list" and j v
    using that by (metis list_update_id)
  show ?thesis using assms by (cases c) (auto simp: put_rrset_def RRARR_INDEX_TESTEXT_def u split: if_splits option.splits)
qed

text \<open>
  The sets that a new set for the index \<open>i\<close> is in conflict with, the time they have left, and whether the new set is
  admitted: a negative one and a local one always, otherwise only if nothing local is in the way and it lives longer than
  the sets in conflict do on the average.
\<close>

definition rivals :: "nat \<Rightarrow> dns_cent_t \<Rightarrow> nat set" where
  "rivals i c = {j. j < NRRTOT \<and> j \<noteq> i \<and> conflicts i j (RRARR_INDEX_TESTEXT c j)}"

definition set_at :: "dns_cent_t \<Rightarrow> nat \<Rightarrow> rr_set_t" where
  "set_at c j = the (RRARR_INDEX_TESTEXT c j)"

definition time_left :: "int \<Rightarrow> rr_set_t \<Rightarrow> int" where
  "time_left now s = max 0 (rs_ttl s + rs_ts s - now)"

definition admits :: "int \<Rightarrow> nat \<Rightarrow> int \<Rightarrow> 16 word \<Rightarrow> dns_cent_t \<Rightarrow> bool" where
  "admits now i ttl fl c \<longleftrightarrow> has fl CF_NEGATIVE \<or> has fl CF_LOCAL \<or>
     \<not> has (ce_flags c) DF_LOCAL \<and> (\<forall>j\<in>rivals i c. \<not> has (rs_flags (set_at c j)) CF_LOCAL) \<and>
     (rivals i c = {} \<or> (\<Sum>j\<in>rivals i c. time_left now (set_at c j)) div int (card (rivals i c)) < ttl)"

text \<open>The search for conflicts: a local one ends it, otherwise it counts them.\<close>

lemma count_conflicts_spec:
  assumes "\<forall>i\<in>set is. i < RRARR_LEN c"
  shows "case count_conflicts now idx c is (n, t) of
      None \<Rightarrow> \<exists>i\<in>set is. conflicts idx i (RRARR_INDEX_TESTEXT c i) \<and> has (rs_flags (set_at c i)) CF_LOCAL
    | Some (n', t') \<Rightarrow> n' = n + length (filter (\<lambda>i. conflicts idx i (RRARR_INDEX_TESTEXT c i)) is) \<and>
        t' = t + (\<Sum>i\<leftarrow>filter (\<lambda>i. conflicts idx i (RRARR_INDEX_TESTEXT c i)) is. time_left now (set_at c i)) \<and>
        (\<forall>i\<in>set is. conflicts idx i (RRARR_INDEX_TESTEXT c i) \<longrightarrow> \<not> has (rs_flags (set_at c i)) CF_LOCAL)"
  using assms
proof (induction "is" arbitrary: n t)
  case (Cons i "is")
  let ?s = "set_at c i"
  let ?t = "t + time_left now ?s"
  from Cons.prems have ix: "RRARR_INDEX c i = RRARR_INDEX_TESTEXT c i"
    using RRARR_LEN_negative [of i c] by (intro RRARR_INDEX_eq) auto
  have r: "\<forall>i\<in>set is. i < RRARR_LEN c" using Cons.prems by simp
  show ?case
  proof (cases "conflicts idx i (RRARR_INDEX_TESTEXT c i)")
    case False
    with Cons.IH [OF r, of n t] show ?thesis by (simp add: ix split: option.splits prod.splits)
  next
    case True
    show ?thesis
    proof (cases "has (rs_flags ?s) CF_LOCAL")
      case False
      have step: "count_conflicts now idx c (i # is) (n, t) = count_conflicts now idx c is (n + 1, ?t)"
        using True False by (simp add: ix Let_def set_at_def time_left_def)
      show ?thesis using True False Cons.IH [OF r, of "n + 1" ?t] unfolding step
        by (cases "count_conflicts now idx c is (n + 1, ?t)") auto
    qed (use True in \<open>simp add: ix Let_def set_at_def\<close>)
  qed
qed simp

text \<open>The memory that is left after an operation on an entry.\<close>

lemma add_cent_rrset_mem:
  "add_cent_rrset_by_index a l c idx ttl ts fl = Some (ok, c', l', a') \<Longrightarrow> \<forall>k. a k \<Longrightarrow> \<forall>k. a' k"
  by (auto simp: add_cent_rrset_by_index_def ensure_slot_def malloc_def Let_def split: prod.splits if_splits option.splits)

lemma add_cent_rr_int_mem:
  "add_cent_rr_int a l c idx ttl ts fl dat rtail = Some (ok, c', rtail', l', a') \<Longrightarrow> \<forall>k. a k \<Longrightarrow> \<forall>k. a' k"
  by (auto simp: add_cent_rr_int_def create_rr_def malloc_def bind_eq_Some_conv dest: add_cent_rrset_mem split: if_splits)

lemma adjust_ttl_fields [simp]: "rs_lent (adjust_ttl g s) = rs_lent s" "rs_rrs (adjust_ttl g s) = rs_rrs s" "rs_ts (adjust_ttl g s) = rs_ts s"
  "has (rs_flags (adjust_ttl g s)) CF_LOCAL = has (rs_flags s) CF_LOCAL"
proof -
  have "has (x AND NOT CF_NOCACHE) CF_LOCAL = has x CF_LOCAL" for x by (simp add: has_simps) (simp add: has_def flag_defs)
  then show "rs_lent (adjust_ttl g s) = rs_lent s" "rs_rrs (adjust_ttl g s) = rs_rrs s" "rs_ts (adjust_ttl g s) = rs_ts s"
    "has (rs_flags (adjust_ttl g s)) CF_LOCAL = has (rs_flags s) CF_LOCAL"
    by (simp_all add: adjust_ttl_def Let_def)
qed

text \<open>The set as the cache stores it.\<close>

definition stored :: "cache_conf \<Rightarrow> rr_set_t \<Rightarrow> nat option \<Rightarrow> rr_set_t" where
  "stored g new x = (adjust_ttl g (new\<lparr>rs_lent := None\<rparr>))\<lparr>rs_lent := x\<rparr>"

text \<open>
  Where a set comes from: an answer is better than additional records, and those of a root server are better than others.
  The set in the cache takes precedence over the new one when it is local and the new one is not, or when it is still
  valid and comes from a better source.
\<close>

definition source :: "16 word \<Rightarrow> nat" where
  "source fl = (if \<not> has fl CF_ADDITIONAL then 2 else if has fl CF_ROOTSERV then 1 else 0)"

definition precedes :: "int \<Rightarrow> rr_set_t \<Rightarrow> rr_set_t \<Rightarrow> bool" where
  "precedes now old new \<longleftrightarrow> has (rs_flags old) CF_LOCAL \<and> \<not> has (rs_flags new) CF_LOCAL \<or>
     source (rs_flags new) < source (rs_flags old) \<and> \<not> timedout now old"

lemma keeps_old_precedes: "keeps_old now new old \<longleftrightarrow> (\<exists>s. old = Some s \<and> precedes now s new)"
  by (auto simp: keeps_old_def precedes_def source_def split: option.split)

text \<open>
  What becomes of the sets of an entry when a new set for the index \<open>i\<close> arrives.  Either the old set takes precedence and
  nothing changes; or the slot gets the new set if that is admitted and is left empty if not, and the other sets stay,
  except those in conflict with a set that is admitted and not negative.
\<close>

definition others_kept :: "rr_set_t \<Rightarrow> nat \<Rightarrow> dns_cent_t \<Rightarrow> dns_cent_t \<Rightarrow> bool" where
  "others_kept new i c c' \<longleftrightarrow> ce_qname c' = ce_qname c \<and> (\<not> has (rs_flags new) CF_LOCAL \<longrightarrow> local_sets c \<subseteq> local_sets c')"

definition slot_result :: "cache_conf \<Rightarrow> int \<Rightarrow> rr_set_t \<Rightarrow> nat \<Rightarrow> dns_cent_t \<Rightarrow> dns_cent_t \<Rightarrow> bool" where
  "slot_result g now new i c c' \<longleftrightarrow>
     (if \<exists>s. RRARR_INDEX_TESTEXT c i = Some s \<and> precedes now s new then c' = c
      else if admits now i (rs_ttl new) (rs_flags new) c then
        (\<exists>x. RRARR_INDEX_TESTEXT c' i = Some (stored g new x)) \<and>
        (\<forall>j<NRRTOT. j \<noteq> i \<longrightarrow> RRARR_INDEX_TESTEXT c' j =
           (if j \<in> rivals i c \<and> \<not> has (rs_flags new) CF_NEGATIVE then None else RRARR_INDEX_TESTEXT c j))
      else RRARR_INDEX_TESTEXT c' i = None \<and> (\<forall>j<NRRTOT. j \<noteq> i \<longrightarrow> RRARR_INDEX_TESTEXT c' j = RRARR_INDEX_TESTEXT c j))"

locale open_entry =
  fixes p :: nat and I :: "cache \<Rightarrow> bool"
  assumes I_base: "I st \<Longrightarrow> base_ok st"
    and I_entry: "I st \<Longrightarrow> \<exists>c. heap st p = Some c"
    and I_upd: "I st \<Longrightarrow> heap st p = Some c \<Longrightarrow> ce_qname c' = ce_qname c \<Longrightarrow> base_ok st' \<Longrightarrow>
      heap st' = (heap st)(p \<mapsto> c') \<Longrightarrow> buckets st' = buckets st \<Longrightarrow> ent_num st' = ent_num st \<Longrightarrow>
      cache_size st' = cache_size st \<Longrightarrow> I st'"
begin

lemma I_cent: "I st \<Longrightarrow> heap st p = Some c \<Longrightarrow> cent_ok c"
  using I_base by (auto simp: base_ok_def)

lemma I_list: "I st \<Longrightarrow> list_ok (heap st) (rrset_l st)" "I st \<Longrightarrow> \<forall>e\<in>set (rrset_l st). le_id e < next_addr st"
  using I_base by (auto simp: base_ok_def)

lemma I_mem: "I st \<Longrightarrow> I (st\<lparr>mem := m\<rparr>)"
proof -
  assume i: "I st"
  then obtain c where c: "heap st p = Some c" using I_entry by blast
  show ?thesis by (rule I_upd [OF i c]) (use I_base [OF i] heap_self [OF c] in \<open>simp_all add: base_ok_def\<close>)
qed

text \<open>Replacing the entry and the list.\<close>

lemma I_replace:
  assumes "I st" "heap st p = Some c" "cent_ok c'" "ce_qname c' = ce_qname c" "list_ok ((heap st)(p \<mapsto> c')) l"
    and "\<forall>e\<in>set l. le_id e < n" "next_addr st \<le> n"
    and "heap st' = (heap st)(p \<mapsto> c')" "rrset_l st' = l" "next_addr st' = n" "buckets st' = buckets st"
    and "ent_num st' = ent_num st" "cache_size st' = cache_size st"
  shows "I st'"
  by (rule I_upd [OF assms(1,2,4) base_ok_upd [OF I_base [OF assms(1)] assms(2,3,5-10)] assms(8,11-13)])

lemma I_same:
  assumes "I st" "heap st p = Some c" "cent_ok c'" "ce_qname c' = ce_qname c" "links c' = links c"
  shows "I (upd_cent p c' st)"
  by (rule I_replace [OF assms(1-4) list_ok_same [where c = c]])
    (use I_list [OF assms(1)] assms in simp_all)

lemma I_del:
  assumes "I st" "heap st p = Some c" "i < NRRTOT"
  shows "\<exists>rv st' c'. del_cent_rrset p i st = Some (rv, st') \<and> I st' \<and> heap st' = (heap st)(p \<mapsto> c') \<and> same_head c c' \<and>
    (\<forall>j<NRRTOT. RRARR_INDEX_TESTEXT c' j = (if j = i then None else RRARR_INDEX_TESTEXT c j)) \<and>
    around st st' 0"
proof -
  note ok = I_cent [OF assms(1,2)] and l = I_list [OF assms(1)]
  obtain rv c' l' where d: "del_cent_rrset_by_index c i (rrset_l st) = (rv, c', l')"
    by (cases "del_cent_rrset_by_index c i (rrset_l st)") auto
  note k = del_cent_rrset_ok [OF ok assms(3) d]
  note lk = del_by_index_links [OF ok assms(3) links_inj [OF l(1) assms(2)] d]
  let ?st = "upd_cent p c' (st\<lparr>rrset_l := l'\<rparr>)"
  have "list_ok ((heap st)(p \<mapsto> c')) l'" unfolding lk(3) by (rule list_ok_shrink [OF l(1) assms(2) lk(1,2)])
  from I_replace [OF assms(1,2) k(1,3) this, of "next_addr st" ?st] l(2) lk(3) have "I ?st" by auto
  moreover have "same_head c c'" using del_by_index_frame [OF d] k(3,4) by (simp add: same_head_def same_core_def)
  ultimately show ?thesis using assms(2) d k(6) lk(3)
    by (intro exI [of _ rv] exI [of _ ?st] exI [of _ c']) (auto simp: del_cent_rrset_def around_def)
qed

text \<open>Putting a set, or the whole entry, into the list.\<close>

lemma I_link:
  assumes "I st" "heap st p = Some c" "cent_ok c'" "ce_qname c' = ce_qname c" "links c' = insert (i, next_addr st) (links c)"
    and "st' = upd_cent p c' (st\<lparr>mem := m, next_addr := next_addr st + 1,
      rrset_l := rrl_insert (insert_sort st) (get_rrlent_ts (st\<lparr>mem := m\<rparr>)) \<lparr>le_id = next_addr st, le_cent = p, le_idx = i\<rparr> (rrset_l st)\<rparr>)"
  shows "I st'"
proof -
  let ?ne = "\<lparr>le_id = next_addr st, le_cent = p, le_idx = i\<rparr>"
  let ?l = "rrl_insert (insert_sort st) (get_rrlent_ts (st\<lparr>mem := m\<rparr>)) ?ne (rrset_l st)"
  note l = I_list [OF assms(1)]
  have ms: "mset ?l = add_mset ?ne (mset (rrset_l st))" by (rule rrl_insert_mset)
  then have "set ?l = insert ?ne (set (rrset_l st))" by (metis set_mset_add_mset_insert set_mset_mset)
  then have "\<forall>e\<in>set ?l. le_id e < next_addr st + 1" using l(2) by (auto intro: less_SucI)
  moreover have "list_ok ((heap st)(p \<mapsto> c')) ?l"
    by (rule list_ok_insert [OF l(1) assms(2,5) _ ms]) (use l(2) in auto)
  ultimately show ?thesis
    by (intro I_replace [OF assms(1-4), of ?l "next_addr st + 1"]) (simp_all add: assms(6))
qed

lemma I_insert:
  assumes "I st" "heap st p = Some c" "k < NRRTOT" "RRARR_INDEX_TESTEXT c k = Some s" "rs_lent s = None"
  shows "\<exists>ok st' c' x. insert_rrl p (Some k) st = Some (ok, st') \<and> I st' \<and> heap st' = (heap st)(p \<mapsto> c') \<and>
    c' = put_rrset c k (Some (s\<lparr>rs_lent := x\<rparr>)) \<and> (has (rs_flags s) CF_LOCAL \<longrightarrow> x = None) \<and>
    around st st' 1 \<and> (ok \<or> (\<exists>n. \<not> mem st n))"
proof -
  note ok = I_cent [OF assms(1,2)]
  have "s\<lparr>rs_lent := None\<rparr> = s" using assms(5) by (cases s) simp
  with put_rrset_self [OF assms(4)] have same: "put_rrset c k (Some (s\<lparr>rs_lent := None\<rparr>)) = c" by simp
  show ?thesis
  proof (cases "has (rs_flags s) CF_LOCAL \<or> has (ce_flags c) DF_LOCAL \<or> \<not> mem st 0")
    case True
    let ?st = "if has (rs_flags s) CF_LOCAL \<or> has (ce_flags c) DF_LOCAL then st else st\<lparr>mem := \<lambda>n. mem st (Suc n)\<rparr>"
    have "insert_rrl p (Some k) st = Some (has (rs_flags s) CF_LOCAL \<or> has (ce_flags c) DF_LOCAL, ?st)"
      using True assms(2,4) by (auto simp: insert_rrl_def malloc_def Let_def)
    moreover have "I ?st" using assms(1) I_mem by simp
    moreover have "heap ?st = (heap st)(p \<mapsto> c)" using heap_self [OF assms(2)] by simp
    moreover have "around st ?st 1" by (simp add: around_def)
    moreover have "(has (rs_flags s) CF_LOCAL \<or> has (ce_flags c) DF_LOCAL) \<or> (\<exists>n. \<not> mem st n)" using True by auto
    ultimately show ?thesis using same
      by (intro exI [of _ "has (rs_flags s) CF_LOCAL \<or> has (ce_flags c) DF_LOCAL"] exI [of _ ?st] exI [of _ c] exI [of _ None])
        (simp only: simp_thms)
  next
    case False
    let ?c = "put_rrset c k (Some (s\<lparr>rs_lent := Some (next_addr st)\<rparr>))"
    let ?st = "upd_cent p ?c (st\<lparr>mem := \<lambda>n. mem st (Suc n), next_addr := next_addr st + 1,
      rrset_l := rrl_insert (insert_sort st) (get_rrlent_ts (st\<lparr>mem := \<lambda>n. mem st (Suc n)\<rparr>)) \<lparr>le_id = next_addr st, le_cent = p, le_idx = Some k\<rparr> (rrset_l st)\<rparr>)"
    have "insert_rrl p (Some k) st = Some (True, ?st)"
      using False assms(2,4) by (simp add: insert_rrl_def malloc_def Let_def)
    moreover have "I ?st"
      by (rule I_link [OF assms(1,2) cent_ok_put_same [OF ok assms(4,3)] _ links_put_new [OF ok assms(4,3,5)] refl]) simp_all
    moreover have "length (rrset_l ?st) = length (rrset_l st) + 1"
      using arg_cong [OF rrl_insert_mset, of size "insert_sort st" "get_rrlent_ts (st\<lparr>mem := \<lambda>n. mem st (Suc n)\<rparr>)"
        "\<lparr>le_id = next_addr st, le_cent = p, le_idx = Some k\<rparr>" "rrset_l st"] by simp
    ultimately show ?thesis using False
      by (intro exI [of _ True] exI [of _ ?st] exI [of _ ?c] exI [of _ "Some (next_addr st)"]) (simp add: around_def)
  qed
qed

lemma I_insert_neg:
  assumes "I st" "heap st p = Some c" "negative c" "neg_lent c = None"
  shows "\<exists>ok st' x. insert_rrl p None st = Some (ok, st') \<and> I st' \<and> heap st' = (heap st)(p \<mapsto> c\<lparr>neg_lent := x\<rparr>) \<and>
    around st st' 1 \<and> (ok \<or> (\<exists>n. \<not> mem st n))"
proof (cases "has (ce_flags c) DF_LOCAL \<or> \<not> mem st 0")
  case True
  let ?st = "if has (ce_flags c) DF_LOCAL then st else st\<lparr>mem := \<lambda>n. mem st (Suc n)\<rparr>"
  have "insert_rrl p None st = Some (has (ce_flags c) DF_LOCAL, ?st)"
    using True assms(2) by (auto simp: insert_rrl_def malloc_def Let_def)
  moreover have "I ?st" using assms(1) I_mem by simp
  moreover have "c\<lparr>neg_lent := None\<rparr> = c" using assms(4) by (cases c) simp
  then have "heap ?st = (heap st)(p \<mapsto> c\<lparr>neg_lent := None\<rparr>)" using heap_self [OF assms(2)] by simp
  moreover have "around st ?st 1" by (simp add: around_def)
  moreover have "has (ce_flags c) DF_LOCAL \<or> (\<exists>n. \<not> mem st n)" using True by auto
  ultimately show ?thesis by (intro exI [of _ "has (ce_flags c) DF_LOCAL"] exI [of _ ?st] exI [of _ None]) (simp only: simp_thms)
next
  case False
  let ?c = "c\<lparr>neg_lent := Some (next_addr st)\<rparr>"
  let ?st = "upd_cent p ?c (st\<lparr>mem := \<lambda>n. mem st (Suc n), next_addr := next_addr st + 1,
    rrset_l := rrl_insert (insert_sort st) (get_rrlent_ts (st\<lparr>mem := \<lambda>n. mem st (Suc n)\<rparr>)) \<lparr>le_id = next_addr st, le_cent = p, le_idx = None\<rparr> (rrset_l st)\<rparr>)"
  have ix: "RRARR_INDEX_TESTEXT ?c j = RRARR_INDEX_TESTEXT c j" for j by (simp add: RRARR_INDEX_TESTEXT_def)
  have lk: "links ?c = insert (None, next_addr st) (links c)"
    using assms(3,4) by (intro links_eqI) (auto simp: links_iff lent_at_def ix)
  have "insert_rrl p None st = Some (True, ?st)"
    using False assms(2) by (simp add: insert_rrl_def malloc_def Let_def)
  moreover have "I ?st"
    by (rule I_link [OF assms(1,2) _ _ lk refl]) (use I_cent [OF assms(1,2)] in simp_all)
  moreover have "length (rrset_l ?st) = length (rrset_l st) + 1"
    using arg_cong [OF rrl_insert_mset, of size "insert_sort st" "get_rrlent_ts (st\<lparr>mem := \<lambda>n. mem st (Suc n)\<rparr>)"
      "\<lparr>le_id = next_addr st, le_cent = p, le_idx = None\<rparr>" "rrset_l st"] by simp
  ultimately show ?thesis using False
    by (intro exI [of _ True] exI [of _ ?st] exI [of _ "Some (next_addr st)"]) (simp add: around_def)
qed

text \<open>Removing the sets in conflict with a new one.\<close>

lemma I_del_conflicts:
  assumes "I st" "heap st p = Some c" "\<forall>i\<in>set is. i < RRARR_LEN c" "distinct is"
  shows "\<exists>st' c'. del_conflicts idx p is st = Some st' \<and> I st' \<and> heap st' = (heap st)(p \<mapsto> c') \<and> same_head c c' \<and>
    (\<forall>j<NRRTOT. RRARR_INDEX_TESTEXT c' j =
       (if j \<in> set is \<and> conflicts idx j (RRARR_INDEX_TESTEXT c j) then None else RRARR_INDEX_TESTEXT c j)) \<and> around st st' 0"
  using assms
proof (induction "is" arbitrary: st c)
  case Nil
  with heap_self [OF Nil(2)] show ?case by (auto intro!: exI [of _ st] exI [of _ c])
next
  case (Cons i "is")
  from Cons.prems(3) have i: "i < RRARR_LEN c" "\<not> negative c" "i < NRRTOT" using RRARR_LEN_negative by auto
  note ix = RRARR_INDEX_eq [OF i(2,1)]
  have "\<exists>st1 c1. (if conflicts idx i (RRARR_INDEX c i) then do { (rv, st) \<leftarrow> del_cent_rrset p i st; Some st } else Some st) = Some st1 \<and>
      I st1 \<and> heap st1 = (heap st)(p \<mapsto> c1) \<and> same_head c c1 \<and> around st st1 0 \<and>
      (\<forall>j<NRRTOT. RRARR_INDEX_TESTEXT c1 j = (if j = i \<and> conflicts idx i (RRARR_INDEX_TESTEXT c i) then None else RRARR_INDEX_TESTEXT c j))"
  proof (cases "conflicts idx i (RRARR_INDEX_TESTEXT c i)")
    case True
    from I_del [OF Cons.prems(1,2) i(3)] obtain rv st1 c1 where "del_cent_rrset p i st = Some (rv, st1)" "I st1"
      "heap st1 = (heap st)(p \<mapsto> c1)" "same_head c c1" "around st st1 0"
      "\<forall>j<NRRTOT. RRARR_INDEX_TESTEXT c1 j = (if j = i then None else RRARR_INDEX_TESTEXT c j)"
      by (elim exE conjE) (rule that; assumption)
    with True show ?thesis by (intro exI [of _ st1] exI [of _ c1]) (simp add: ix)
  next
    case False
    with Cons.prems(1) heap_self [OF Cons.prems(2)] show ?thesis
      by (intro exI [of _ st] exI [of _ c]) (simp add: ix)
  qed
  then obtain st1 c1 where
    s1: "(if conflicts idx i (RRARR_INDEX c i) then do { (rv, st) \<leftarrow> del_cent_rrset p i st; Some st } else Some st) = Some st1"
      "I st1" "heap st1 = (heap st)(p \<mapsto> c1)" "same_head c c1" "around st st1 0"
      "\<forall>j<NRRTOT. RRARR_INDEX_TESTEXT c1 j = (if j = i \<and> conflicts idx i (RRARR_INDEX_TESTEXT c i) then None else RRARR_INDEX_TESTEXT c j)"
    by (elim exE conjE) (rule that; assumption)
  have c1: "heap st1 p = Some c1" "\<forall>i\<in>set is. i < RRARR_LEN c1" "distinct is"
    using s1(3,4) Cons.prems(3,4) by (auto simp: same_head_def)
  from Cons.IH [OF s1(2) c1] obtain st2 c2 where
    s2: "del_conflicts idx p is st1 = Some st2" "I st2" "heap st2 = (heap st1)(p \<mapsto> c2)" "same_head c1 c2"
      "\<forall>j<NRRTOT. RRARR_INDEX_TESTEXT c2 j =
         (if j \<in> set is \<and> conflicts idx j (RRARR_INDEX_TESTEXT c1 j) then None else RRARR_INDEX_TESTEXT c1 j)" "around st1 st2 0"
    by (elim exE conjE) (rule that; assumption)
  have "RRARR_INDEX_TESTEXT c2 j = (if j \<in> set (i # is) \<and> conflicts idx j (RRARR_INDEX_TESTEXT c j) then None else RRARR_INDEX_TESTEXT c j)"
    if "j < NRRTOT" for j using s1(6) s2(5) that Cons.prems(4) by (auto simp: conflicts_def)
  moreover have "heap st2 = (heap st)(p \<mapsto> c2)" using s1(3) s2(3) by simp
  moreover have "del_conflicts idx p (i # is) st = Some st2" using Cons.prems(2) s1(1) s2(1) by simp
  ultimately show ?case using s2(2) same_head_trans [OF s1(4) s2(4)] around_trans [OF s1(5) s2(6)]
    by (intro exI [of _ st2] exI [of _ c2]) simp
qed

lemma I_cr_check_add:
  assumes "I st" "heap st p = Some c" "idx < NRRTOT" "RRARR_INDEX_TESTEXT c idx = None"
  shows "\<exists>st' c'. cr_check_add now p idx ttl fl st = Some (admits now idx ttl fl c, st') \<and> I st' \<and> heap st' = (heap st)(p \<mapsto> c') \<and>
    same_head c c' \<and> around st st' 0 \<and> (\<not> has fl CF_LOCAL \<longrightarrow> local_sets c \<subseteq> local_sets c') \<and>
    (\<forall>j<NRRTOT. RRARR_INDEX_TESTEXT c' j = (if admits now idx ttl fl c \<and> j \<in> rivals idx c \<and> \<not> has fl CF_NEGATIVE then None else RRARR_INDEX_TESTEXT c j))"
proof -
  define ok where "ok = admits now idx ttl fl c"
  let ?is = "[0..<RRARR_LEN c]" and ?C = "\<lambda>j. conflicts idx j (RRARR_INDEX_TESTEXT c j)"
  have cok: "cent_ok c" by (rule I_cent [OF assms(1,2)])
  have out: "j < RRARR_LEN c" if "j < NRRTOT" "?C j" for j
    using that cok by (auto simp: conflicts_def cent_ok_def RRARR_INDEX_TESTEXT_slots slots_length split: if_splits option.splits)
  have "?C j \<Longrightarrow> j \<noteq> idx" for j using assms(4) by (auto simp: conflicts_def)
  then have riv: "j \<in> rivals idx c \<longleftrightarrow> j < NRRTOT \<and> ?C j" for j by (auto simp: rivals_def)
  have len: "RRARR_LEN c \<le> NRRTOT" by (simp add: RRARR_LEN_def rr_numbers)
  have flt: "set (filter ?C ?is) = rivals idx c" using out len by (auto simp: riv)
  have sum: "length (filter ?C ?is) = card (rivals idx c)"
    "(\<Sum>j\<leftarrow>filter ?C ?is. time_left now (set_at c j)) = (\<Sum>j\<in>rivals idx c. time_left now (set_at c j))"
    using distinct_card [of "filter ?C ?is"] sum_list_distinct_conv_sum_set [of "filter ?C ?is"] flt by simp_all
  have il: "\<forall>i\<in>set ?is. i < RRARR_LEN c" by simp
  from I_del_conflicts [OF assms(1,2) il, of idx] obtain st' c' where
    d: "del_conflicts idx p ?is st = Some st'" "I st'" "heap st' = (heap st)(p \<mapsto> c')" "same_head c c'" "around st st' 0"
      "\<forall>j<NRRTOT. RRARR_INDEX_TESTEXT c' j = (if j \<in> set ?is \<and> ?C j then None else RRARR_INDEX_TESTEXT c j)" by auto
  have d6: "RRARR_INDEX_TESTEXT c' j = (if j \<in> rivals idx c then None else RRARR_INDEX_TESTEXT c j)" if "j < NRRTOT" for j
    using d(6) that out [OF that] by (simp add: riv)
  have stay: ?thesis if "cr_check_add now p idx ttl fl st = Some (ok, st)" "\<not> ok \<or> has fl CF_NEGATIVE \<or> rivals idx c = {}"
    using that assms(1) heap_self [OF assms(2)] unfolding ok_def by (intro exI [of _ st] exI [of _ c]) auto
  have go: ?thesis if "cr_check_add now p idx ttl fl st = Some (True, st')" "ok" "\<not> has fl CF_NEGATIVE"
      "\<not> has fl CF_LOCAL \<longrightarrow> (\<forall>j\<in>rivals idx c. \<not> has (rs_flags (set_at c j)) CF_LOCAL)"
  proof -
    have "local_sets c \<subseteq> local_sets c'" if "\<not> has fl CF_LOCAL"
      using d6 \<open>\<not> has fl CF_LOCAL \<longrightarrow> _\<close> that by (fastforce simp: local_sets_def set_at_def)
    with that(1-3) d(2-5) d6 show ?thesis unfolding ok_def by (intro exI [of _ st'] exI [of _ c']) simp
  qed
  note cc = count_conflicts_spec [OF il, where now = now and idx = idx and n = 0 and t = 0]
  consider "has fl CF_NEGATIVE" | "\<not> has fl CF_NEGATIVE" "has fl CF_LOCAL"
    | "\<not> has fl CF_NEGATIVE" "\<not> has fl CF_LOCAL" "has (ce_flags c) DF_LOCAL"
    | "\<not> has fl CF_NEGATIVE" "\<not> has fl CF_LOCAL" "\<not> has (ce_flags c) DF_LOCAL" "count_conflicts now idx c ?is (0, 0) = None"
    | n t where "\<not> has fl CF_NEGATIVE" "\<not> has fl CF_LOCAL" "\<not> has (ce_flags c) DF_LOCAL" "count_conflicts now idx c ?is (0, 0) = Some (n, t)"
    by fastforce
  then show ?thesis
  proof cases
    case 1
    with assms(2) show ?thesis by (intro stay) (simp_all add: cr_check_add_def ok_def admits_def)
  next
    case 2
    with assms(2) d(1) show ?thesis by (intro go) (simp_all add: cr_check_add_def ok_def admits_def)
  next
    case 3
    with assms(2) show ?thesis by (intro stay) (simp_all add: cr_check_add_def ok_def admits_def)
  next
    case 4
    with cc len have "\<exists>j\<in>rivals idx c. has (rs_flags (set_at c j)) CF_LOCAL" by (fastforce simp: riv)
    with 4 assms(2) show ?thesis by (intro stay) (auto simp: cr_check_add_def ok_def admits_def)
  next
    case (5 n t)
    with cc sum have n: "n = card (rivals idx c)" "t = (\<Sum>j\<in>rivals idx c. time_left now (set_at c j))" by auto
    have nl: "\<forall>j\<in>rivals idx c. \<not> has (rs_flags (set_at c j)) CF_LOCAL" using 5 cc out by (auto simp: riv)
    have fin: "finite (rivals idx c)" using flt by (metis List.finite_set)
    consider (free) "rivals idx c = {}" | (longer) "rivals idx c \<noteq> {}" "t div int n < ttl" | (shorter) "rivals idx c \<noteq> {}" "\<not> t div int n < ttl" by blast
    then show ?thesis
    proof cases
      case free
      with 5 n assms(2) show ?thesis by (intro stay) (simp_all add: cr_check_add_def ok_def admits_def)
    next
      case longer
      then have "ok" "n \<noteq> 0" using 5 n nl fin by (simp_all add: ok_def admits_def)
      with 5 longer assms(2) d(1) nl show ?thesis by (intro go) (simp_all add: cr_check_add_def)
    next
      case shorter
      then have "\<not> ok" "n \<noteq> 0" using 5 n nl fin by (simp_all add: ok_def admits_def)
      with 5 shorter assms(2) show ?thesis by (intro stay) (simp_all add: cr_check_add_def)
    qed
  qed
qed

lemma I_add_set:
  assumes "I st" "heap st p = Some c" "i < NRRTOT" "RRARR_INDEX_TESTEXT c i = None"
  shows "\<exists>ok c' rrl m. add_cent_rrset_by_index (mem st) (rrset_l st) c i ttl ts fl = Some (ok, c', rrl, m) \<and>
    I ((upd_cent p c' st)\<lparr>rrset_l := rrl, mem := m\<rparr>) \<and> \<not> negative c' \<and> ce_qname c' = ce_qname c \<and> (ok \<or> (\<exists>n. \<not> mem st n)) \<and>
    around st ((upd_cent p c' st)\<lparr>rrset_l := rrl, mem := m\<rparr>) 0 \<and>
    (\<forall>j<NRRTOT. RRARR_INDEX_TESTEXT c' j =
       (if ok \<and> j = i then Some \<lparr>rs_lent = None, rs_ttl = ttl, rs_ts = ts, rs_flags = fl, rs_rrs = []\<rparr>
        else RRARR_INDEX_TESTEXT c j))"
proof -
  note ok = I_cent [OF assms(1,2)] and l = I_list [OF assms(1)]
  from add_cent_rrset_by_index_ok [OF ok assms(3,4), of "mem st" "rrset_l st" ttl ts fl] obtain b c' m where
    a: "add_cent_rrset_by_index (mem st) (rrset_l st) c i ttl ts fl = Some (b, c', snd (unnegate c (rrset_l st)), m)"
      "cent_ok c'" "\<not> negative c'" "ce_qname c' = ce_qname c" "b \<or> (\<exists>n. \<not> mem st n)"
      "\<forall>j<NRRTOT. RRARR_INDEX_TESTEXT c' j =
       (if b \<and> j = i then Some \<lparr>rs_lent = None, rs_ttl = ttl, rs_ts = ts, rs_flags = fl, rs_rrs = []\<rparr>
        else RRARR_INDEX_TESTEXT c j)" by (elim exE conjE) (rule that; assumption)
  let ?D = "if negative c then set_option (neg_lent c) else {}" and ?rrl = "snd (unnegate c (rrset_l st))"
  note lk = add_by_index_links [OF ok assms(3,4) a(1)]
  let ?st = "(upd_cent p c' st)\<lparr>rrset_l := ?rrl, mem := m\<rparr>"
  have "list_ok ((heap st)(p \<mapsto> c')) ?rrl" unfolding lk(3) by (rule list_ok_shrink [OF l(1) assms(2) lk(1,2)])
  moreover have sub: "set ?rrl \<subseteq> set (rrset_l st)" unfolding lk(3) by auto
  ultimately have "I ?st" using l(2) by (intro I_replace [OF assms(1,2) a(2,4), of ?rrl "next_addr st"]) auto
  moreover have "length ?rrl \<le> length (rrset_l st)" unfolding lk(3) by simp
  then have "around st ?st 0" using add_cent_rrset_mem [OF a(1)] by (simp add: around_def)
  ultimately show ?thesis using a
    by (intro exI [of _ b] exI [of _ c'] exI [of _ ?rrl] exI [of _ m]) simp
qed

lemma I_add_rrs:
  assumes "I st" "heap st p = Some c" "i < NRRTOT" "RRARR_INDEX_TESTEXT c i = Some s" "rs_lent s = None"
    and "rtail = (if rs_rrs s = [] then None else Some (length (rs_rrs s) - 1))"
  shows "\<exists>ok st' c' xs. add_rrs_loop p i new rrs rtail st = Some (ok, st') \<and> I st' \<and> heap st' = (heap st)(p \<mapsto> c') \<and>
    \<not> negative c' \<and> ce_qname c' = ce_qname c \<and> around st st' 0 \<and> (ok \<or> (\<exists>n. \<not> mem st n)) \<and> (ok \<longrightarrow> xs = rrs) \<and>
    (\<forall>j<NRRTOT. RRARR_INDEX_TESTEXT c' j = (if j = i then Some (s\<lparr>rs_rrs := rs_rrs s @ xs\<rparr>) else RRARR_INDEX_TESTEXT c j))"
  using assms
proof (induction rrs arbitrary: st c s rtail)
  case Nil
  have "s\<lparr>rs_rrs := rs_rrs s @ []\<rparr> = s" by (cases s) simp
  moreover have "\<not> negative c" using index_slots [OF I_cent [OF Nil(1,2)] Nil(4,3)] by simp
  ultimately show ?case using Nil heap_self [OF Nil(2)]
    by (intro exI [of _ True] exI [of _ st] exI [of _ c] exI [of _ "[]"]) simp
next
  case (Cons rr rrs)
  note ok = I_cent [OF Cons.prems(1,2)] and l = I_list [OF Cons.prems(1)]
  have neg: "\<not> negative c" using index_slots [OF ok Cons.prems(4,3)] by simp
  have b: "base_set c i (rs_ttl new) (rs_ts new) (rs_flags new) = s" using Cons.prems(4) by (simp add: base_set_def)
  have ins: "insert_rr (rs_rrs (base_set c i (rs_ttl new) (rs_ts new) (rs_flags new))) rtail rr = (rs_rrs s @ [rr], length (rs_rrs s))"
    unfolding b by (rule insert_rr_end [OF Cons.prems(6)])
  have "rtail = None \<or> RRARR_INDEX_TESTEXT c i \<noteq> None" using Cons.prems(4) by simp
  from add_cent_rr_int_ok [OF ok Cons.prems(3) this ins, of "mem st" "rrset_l st", unfolded b] obtain q c1 rt1 l1 m1 where
    a: "add_cent_rr_int (mem st) (rrset_l st) c i (rs_ttl new) (rs_ts new) (rs_flags new) rr rtail = Some (q, c1, rt1, l1, m1)"
      "cent_ok c1" "ce_qname c1 = ce_qname c" "q \<or> (\<exists>n. \<not> mem st n)" "q \<longrightarrow> rt1 = Some (length (rs_rrs s))"
      "\<not> negative c \<longrightarrow> l1 = rrset_l st \<and> \<not> negative c1"
      "\<forall>j<NRRTOT. RRARR_INDEX_TESTEXT c1 j = (if q \<and> j = i then Some (s\<lparr>rs_rrs := rs_rrs s @ [rr]\<rparr>) else RRARR_INDEX_TESTEXT c j)"
    by (elim exE conjE) (rule that; assumption)
  have lent: "lent_at c1 j = lent_at c j" if "j < NRRTOT" for j using a(7) that Cons.prems(4) by (simp add: lent_at_def)
  have lk: "links c1 = links c" by (rule links_cong) (use a(6) neg lent in auto)
  let ?st = "(upd_cent p c1 st)\<lparr>rrset_l := l1, mem := m1\<rparr>"
  have i1: "I ?st"
    by (rule I_replace [OF Cons.prems(1,2) a(2,3) list_ok_same [where c = c], of "rrset_l st" "next_addr st"])
      (use l Cons.prems(2) lk a(6) neg in simp_all)
  have ar: "around st ?st 0" using a(6) neg add_cent_rr_int_mem [OF a(1)] by (simp add: around_def)
  have step: "add_rrs_loop p i new (rr # rrs) rtail st = (if q then add_rrs_loop p i new rrs rt1 ?st else Some (False, ?st))"
    using Cons.prems(2) a(1) by simp
  show ?case
  proof (cases q)
    case False
    have "s\<lparr>rs_rrs := rs_rrs s @ []\<rparr> = s" by (cases s) simp
    with False a(3,4,6,7) i1 ar neg Cons.prems(4) show ?thesis unfolding step
      by (intro exI [of _ False] exI [of _ ?st] exI [of _ c1] exI [of _ "[]"]) simp
  next
    case True
    let ?s = "s\<lparr>rs_rrs := rs_rrs s @ [rr]\<rparr>"
    have ix1: "RRARR_INDEX_TESTEXT c1 i = Some ?s" using a(7) True Cons.prems(3) by simp
    have h1: "heap ?st p = Some c1" by simp
    have "rs_lent ?s = None" "rt1 = (if rs_rrs ?s = [] then None else Some (length (rs_rrs ?s) - 1))"
      using Cons.prems(5) a(5) True by simp_all
    from Cons.IH [OF i1 h1 Cons.prems(3) ix1 this] obtain q2 st2 c2 xs where
      r: "add_rrs_loop p i new rrs rt1 ?st = Some (q2, st2)" "I st2" "heap st2 = (heap ?st)(p \<mapsto> c2)" "\<not> negative c2"
        "ce_qname c2 = ce_qname c1" "around ?st st2 0" "q2 \<or> (\<exists>n. \<not> mem ?st n)" "q2 \<longrightarrow> xs = rrs"
        "\<forall>j<NRRTOT. RRARR_INDEX_TESTEXT c2 j = (if j = i then Some (?s\<lparr>rs_rrs := rs_rrs ?s @ xs\<rparr>) else RRARR_INDEX_TESTEXT c1 j)"
      by (elim exE conjE) (rule that; assumption)
    have "q2 \<or> (\<exists>n. \<not> mem st n)" using r(7) ar by (auto simp: around_def)
    moreover have "\<forall>j<NRRTOT. RRARR_INDEX_TESTEXT c2 j = (if j = i then Some (s\<lparr>rs_rrs := rs_rrs s @ rr # xs\<rparr>) else RRARR_INDEX_TESTEXT c j)"
      using r(9) a(7) by simp
    moreover have "heap st2 = (heap st)(p \<mapsto> c2)" using r(3) by simp
    ultimately show ?thesis unfolding step using True r(1,2,4,5,8) a(3) around_trans [OF ar r(6)]
      by (intro exI [of _ q2] exI [of _ st2] exI [of _ c2] exI [of _ "rr # xs"]) simp
  qed
qed

text \<open>
  The second half of \<^verbatim>\<open>add_cache\<close>'s treatment of a set: the slot is empty and the new set is put there.
\<close>

lemma I_fill_slot:
  assumes "I st" "heap st p = Some c" "i < NRRTOT" "RRARR_INDEX_TESTEXT c i = None"
    and "fill = do {
         (ok, c, rrl, m) \<leftarrow> add_cent_rrset_by_index (mem st) (rrset_l st) c i (rs_ttl new) (rs_ts new) (rs_flags new);
         let st = (upd_cent p c st)\<lparr>rrset_l := rrl, mem := m\<rparr>;
         if \<not> ok then Some (AddSize, st)
         else do {
           (ok, st) \<leftarrow> add_rrs_loop p i new (rs_rrs new) None st;
           if \<not> ok then Some (AddCleanup, st)
           else do {
             c \<leftarrow> heap st p;
             s \<leftarrow> RRARR_INDEX c i;
             (ok, st) \<leftarrow> insert_rrl p (Some i) (upd_cent p (put_rrset c i (Some (adjust_ttl g s))) st);
             Some (if ok then AddNext else AddCleanup, st) } } }"
  shows "\<exists>status st' c'. fill = Some (status, st') \<and> I st' \<and> heap st' = (heap st)(p \<mapsto> c') \<and> ce_qname c' = ce_qname c \<and>
    around st st' 1 \<and> (status = AddNext \<or> (\<exists>n. \<not> mem st n)) \<and>
    (\<forall>j<NRRTOT. j \<noteq> i \<longrightarrow> RRARR_INDEX_TESTEXT c' j = RRARR_INDEX_TESTEXT c j) \<and>
    (status = AddNext \<longrightarrow> (\<exists>x. RRARR_INDEX_TESTEXT c' i = Some (stored g new x))) \<and>
    (\<forall>s. RRARR_INDEX_TESTEXT c' i = Some s \<longrightarrow> has (rs_flags s) CF_LOCAL = has (rs_flags new) CF_LOCAL)"
proof -
  let ?new = "\<lparr>rs_lent = None, rs_ttl = rs_ttl new, rs_ts = rs_ts new, rs_flags = rs_flags new, rs_rrs = []\<rparr>"
  from I_add_set [OF assms(1-4), of "rs_ttl new" "rs_ts new" "rs_flags new"] obtain q1 c1 l1 m1 where
    a: "add_cent_rrset_by_index (mem st) (rrset_l st) c i (rs_ttl new) (rs_ts new) (rs_flags new) = Some (q1, c1, l1, m1)"
      "I ((upd_cent p c1 st)\<lparr>rrset_l := l1, mem := m1\<rparr>)" "ce_qname c1 = ce_qname c" "q1 \<or> (\<exists>n. \<not> mem st n)"
      "around st ((upd_cent p c1 st)\<lparr>rrset_l := l1, mem := m1\<rparr>) 0"
      "\<forall>j<NRRTOT. RRARR_INDEX_TESTEXT c1 j = (if q1 \<and> j = i then Some ?new else RRARR_INDEX_TESTEXT c j)"
    by (elim exE conjE) (rule that; assumption)
  let ?st1 = "(upd_cent p c1 st)\<lparr>rrset_l := l1, mem := m1\<rparr>"
  show ?thesis
  proof (cases q1)
    case False
    with a assms(3,4,5) around_mono [OF a(5), of 1] show ?thesis
      by (intro exI [of _ AddSize] exI [of _ ?st1] exI [of _ c1]) simp
  next
    case True
    have h1: "heap ?st1 p = Some c1" "RRARR_INDEX_TESTEXT c1 i = Some ?new" "rs_lent ?new = None"
      "None = (if rs_rrs ?new = [] then None else Some (length (rs_rrs ?new) - 1))" using a(6) True assms(3) by simp_all
    from I_add_rrs [OF a(2) h1(1) assms(3) h1(2-4), of new "rs_rrs new"] obtain q2 st2 c2 xs where
      b: "add_rrs_loop p i new (rs_rrs new) None ?st1 = Some (q2, st2)" "I st2" "heap st2 = (heap ?st1)(p \<mapsto> c2)" "\<not> negative c2"
        "ce_qname c2 = ce_qname c1" "around ?st1 st2 0" "q2 \<or> (\<exists>n. \<not> mem ?st1 n)" "q2 \<longrightarrow> xs = rs_rrs new"
        "\<forall>j<NRRTOT. RRARR_INDEX_TESTEXT c2 j = (if j = i then Some (?new\<lparr>rs_rrs := rs_rrs ?new @ xs\<rparr>) else RRARR_INDEX_TESTEXT c1 j)"
      by (elim exE conjE) (rule that; assumption)
    have ar2: "around st st2 0" using around_trans [OF a(5) b(6)] by simp
    have m2: "q2 \<or> (\<exists>n. \<not> mem st n)" using b(7) a(5) by (auto simp: around_def)
    have h2: "heap st2 = (heap st)(p \<mapsto> c2)" "heap st2 p = Some c2" using b(3) by simp_all
    show ?thesis
    proof (cases q2)
      case False
      with True a(1,3,6) b(1,2,5,9) assms(3,5) around_mono [OF ar2, of 1] m2 h2(1) show ?thesis
        by (intro exI [of _ AddCleanup] exI [of _ st2] exI [of _ c2]) simp
    next
      case q2: True
      let ?s = "new\<lparr>rs_lent := None\<rparr>"
      have s: "RRARR_INDEX_TESTEXT c2 i = Some ?s" using b(8,9) q2 assms(3) by (cases new) simp
      note ok2 = I_cent [OF b(2) h2(2)]
      have len: "i < RRARR_LEN c2" using index_slots [OF ok2 s assms(3)] slots_length [of c2] ok2 by (simp add: cent_ok_def)
      let ?c3 = "put_rrset c2 i (Some (adjust_ttl g ?s))"
      have i3: "I (upd_cent p ?c3 st2)" by (rule I_same [OF b(2) h2(2) cent_ok_put_same [OF ok2 s assms(3)] _ links_put_same [OF ok2 s assms(3)]]) simp_all
      have ix3: "RRARR_INDEX_TESTEXT ?c3 j = (if j = i then Some (adjust_ttl g ?s) else RRARR_INDEX_TESTEXT c2 j)" if "j < NRRTOT" for j
        using index_put_rrset [OF _ index_slots(1) [OF ok2 s assms(3)] that] ok2 by (simp add: cent_ok_def)
      have h3: "heap (upd_cent p ?c3 st2) p = Some ?c3" "RRARR_INDEX_TESTEXT ?c3 i = Some (adjust_ttl g ?s)" "rs_lent (adjust_ttl g ?s) = None"
        using ix3 [OF assms(3)] by simp_all
      from I_insert [OF i3 h3(1) assms(3) h3(2,3)] obtain q3 st3 c4 x where
        d: "insert_rrl p (Some i) (upd_cent p ?c3 st2) = Some (q3, st3)" "I st3" "heap st3 = (heap (upd_cent p ?c3 st2))(p \<mapsto> c4)"
          "c4 = put_rrset ?c3 i (Some ((adjust_ttl g ?s)\<lparr>rs_lent := x\<rparr>))" "around (upd_cent p ?c3 st2) st3 1" "q3 \<or> (\<exists>n. \<not> mem (upd_cent p ?c3 st2) n)"
        by (elim exE conjE) (rule that; assumption)
      note ok3 = I_cent [OF i3 h3(1)]
      have ix4: "RRARR_INDEX_TESTEXT c4 j = (if j = i then Some (stored g new x) else RRARR_INDEX_TESTEXT ?c3 j)" if "j < NRRTOT" for j
        using index_put_rrset [OF _ index_slots(1) [OF ok3 h3(2) assms(3)] that] ok3 by (simp add: cent_ok_def d(4) stored_def)
      have ar3: "around st st3 1" using ar2 d(5) by (auto simp: around_def)
      have "fill = Some (if q3 then AddNext else AddCleanup, st3)"
        using True q2 a(1) b(1) h2(2) s d(1) RRARR_INDEX_eq [OF b(4) len] assms(5) by simp
      moreover have "q3 \<or> (\<exists>n. \<not> mem st n)" using d(6) ar2 by (auto simp: around_def)
      moreover have "heap st3 = (heap st)(p \<mapsto> c4)" using d(3) h2(1) by simp
      moreover have "ce_qname c4 = ce_qname c" using d(4) b(5) a(3) by simp
      moreover have "\<forall>j<NRRTOT. j \<noteq> i \<longrightarrow> RRARR_INDEX_TESTEXT c4 j = RRARR_INDEX_TESTEXT c j" using ix4 ix3 b(9) a(6) by simp
      moreover have "has (rs_flags (stored g new x)) CF_LOCAL = has (rs_flags new) CF_LOCAL" by (simp add: stored_def)
      ultimately show ?thesis using d(2) ar3 ix4 [OF assms(3)]
        by (intro exI [of _ "if q3 then AddNext else AddCleanup"] exI [of _ st3] exI [of _ c4]) auto
    qed
  qed
qed

text \<open>The treatment of one new set, and of all.\<close>

lemma I_replace_rrset:
  assumes "I st" "heap st p = Some c" "i < NRRTOT"
  shows "\<exists>status st' c'. replace_rrset g now p i new st = Some (status, st') \<and> I st' \<and> heap st' = (heap st)(p \<mapsto> c') \<and>
    around st st' 1 \<and> (status = AddNext \<or> (\<exists>n. \<not> mem st n)) \<and> others_kept new i c c' \<and>
    (status = AddNext \<longrightarrow> slot_result g now new i c c') \<and>
    (status \<noteq> AddNext \<longrightarrow> (\<forall>s. RRARR_INDEX_TESTEXT c' i = Some s \<longrightarrow> has (rs_flags s) CF_LOCAL = has (rs_flags new) CF_LOCAL))"
proof (cases "keeps_old now new (RRARR_INDEX_TESTEXT c i)")
  case True
  with assms heap_self [OF assms(2)] show ?thesis
    by (intro exI [of _ AddNext] exI [of _ st] exI [of _ c]) (simp add: replace_rrset_def others_kept_def slot_result_def around_def flip: keeps_old_precedes)
next
  case False
  from I_del [OF assms] obtain rv st1 c1 where
    d: "del_cent_rrset p i st = Some (rv, st1)" "I st1" "heap st1 = (heap st)(p \<mapsto> c1)" "same_head c c1" "around st st1 0"
      "\<forall>j<NRRTOT. RRARR_INDEX_TESTEXT c1 j = (if j = i then None else RRARR_INDEX_TESTEXT c j)"
    by (elim exE conjE) (rule that; assumption)
  have h1: "heap st1 p = Some c1" using d(3) by simp
  have loc1: "local_sets c \<subseteq> local_sets c1" if "\<not> has (rs_flags new) CF_LOCAL"
    using False that d(6) by (auto simp: local_sets_def keeps_old_def split: if_splits)
  let ?ok = "admits now i (rs_ttl new) (rs_flags new) c"
  have "rivals i c1 = rivals i c" using d(6) by (auto simp: rivals_def)
  moreover have "set_at c1 j = set_at c j" if "j \<in> rivals i c" for j using d(6) that by (simp add: rivals_def set_at_def)
  moreover have "has (ce_flags c1) DF_LOCAL = has (ce_flags c) DF_LOCAL" using d(4) by (simp add: same_head_def same_core_def)
  ultimately have adm: "admits now i (rs_ttl new) (rs_flags new) c1 = ?ok" "rivals i c1 = rivals i c" by (simp_all add: admits_def)
  have empty: "RRARR_INDEX_TESTEXT c1 i = None" using d(6) assms(3) by simp
  from I_cr_check_add [OF d(2) h1 assms(3) empty, of now "rs_ttl new" "rs_flags new"] obtain st2 c2 where
    e: "cr_check_add now p i (rs_ttl new) (rs_flags new) st1 = Some (?ok, st2)" "I st2" "heap st2 = (heap st1)(p \<mapsto> c2)"
      "same_head c1 c2" "around st1 st2 0" "\<not> has (rs_flags new) CF_LOCAL \<longrightarrow> local_sets c1 \<subseteq> local_sets c2"
      "\<forall>j<NRRTOT. RRARR_INDEX_TESTEXT c2 j = (if ?ok \<and> j \<in> rivals i c \<and> \<not> has (rs_flags new) CF_NEGATIVE then None else RRARR_INDEX_TESTEXT c1 j)"
    unfolding adm by (elim exE conjE) (rule that; assumption)
  have h2: "heap st2 = (heap st)(p \<mapsto> c2)" "heap st2 p = Some c2" using e(3) d(3) by simp_all
  have none: "RRARR_INDEX_TESTEXT c2 i = None" using empty e(7) assms(3) by simp
  have ix2: "\<forall>j<NRRTOT. j \<noteq> i \<longrightarrow> RRARR_INDEX_TESTEXT c2 j = (if ?ok \<and> j \<in> rivals i c \<and> \<not> has (rs_flags new) CF_NEGATIVE then None else RRARR_INDEX_TESTEXT c j)"
    using e(7) d(6) by simp
  have ar2: "around st st2 0" using around_trans [OF d(5) e(5)] by simp
  have oth2: "others_kept new i c c2"
    using d(4) e(4,6) loc1 by (auto simp: others_kept_def same_head_def same_core_def)
  show ?thesis
  proof (cases ?ok)
    case f: False
    have "slot_result g now new i c c2" using False f none ix2 unfolding slot_result_def by (auto simp: keeps_old_precedes)
    with f False assms(2) d(1) e(1,2) h2 none oth2 around_mono [OF ar2, of 1] show ?thesis
      by (intro exI [of _ AddNext] exI [of _ st2] exI [of _ c2]) (simp add: replace_rrset_def)
  next
    case True
    from I_fill_slot [OF e(2) h2(2) assms(3) none refl, of new g] obtain status st' c' where
      r: "(do { (ok, c, rrl, m) \<leftarrow> add_cent_rrset_by_index (mem st2) (rrset_l st2) c2 i (rs_ttl new) (rs_ts new) (rs_flags new);
         let st = (upd_cent p c st2)\<lparr>rrset_l := rrl, mem := m\<rparr>;
         if \<not> ok then Some (AddSize, st)
         else do {
           (ok, st) \<leftarrow> add_rrs_loop p i new (rs_rrs new) None st;
           if \<not> ok then Some (AddCleanup, st)
           else do {
             c \<leftarrow> heap st p;
             s \<leftarrow> RRARR_INDEX c i;
             (ok, st) \<leftarrow> insert_rrl p (Some i) (upd_cent p (put_rrset c i (Some (adjust_ttl g s))) st);
             Some (if ok then AddNext else AddCleanup, st) } } }) = Some (status, st')" "I st'"
        "heap st' = (heap st2)(p \<mapsto> c')" "ce_qname c' = ce_qname c2" "around st2 st' 1" "status = AddNext \<or> (\<exists>n. \<not> mem st2 n)"
        "\<forall>j<NRRTOT. j \<noteq> i \<longrightarrow> RRARR_INDEX_TESTEXT c' j = RRARR_INDEX_TESTEXT c2 j"
        "status = AddNext \<longrightarrow> (\<exists>x. RRARR_INDEX_TESTEXT c' i = Some (stored g new x))"
        "\<forall>s. RRARR_INDEX_TESTEXT c' i = Some s \<longrightarrow> has (rs_flags s) CF_LOCAL = has (rs_flags new) CF_LOCAL"
      by (elim exE conjE) (rule that; assumption)
    have "replace_rrset g now p i new st = Some (status, st')"
      using False True assms(2) d(1) e(1) h2(2) r(1) by (simp add: replace_rrset_def)
    moreover have "status = AddNext \<or> (\<exists>n. \<not> mem st n)" using r(6) ar2 by (auto simp: around_def)
    moreover have "local_sets c2 \<subseteq> local_sets c'" using none r(7) by (auto simp: local_sets_def)
    then have "others_kept new i c c'" using oth2 r(4,7) by (auto simp: others_kept_def)
    moreover have "slot_result g now new i c c'" if "status = AddNext"
      using False True that ix2 r(7,8) unfolding slot_result_def by (auto simp: keeps_old_precedes)
    moreover have "heap st' = (heap st)(p \<mapsto> c')" using r(3) h2(1) by simp
    moreover have "around st st' 1" using around_trans [OF ar2 r(5)] by simp
    ultimately show ?thesis using r(2,9) by (intro exI [of _ status] exI [of _ st'] exI [of _ c']) simp
  qed
qed

lemma I_replace_loop:
  assumes "I st" "heap st p = Some c" "\<forall>i\<in>set is. i < NRRTOT"
  shows "\<exists>status i st' c'. replace_loop g now p cent is st = Some (status, i, st') \<and> I st' \<and> heap st' = (heap st)(p \<mapsto> c') \<and>
    ce_qname c' = ce_qname c \<and> around st st' (length is) \<and> (status = AddNext \<or> (\<exists>n. \<not> mem st n)) \<and> (status \<noteq> AddNext \<longrightarrow> i \<in> set is) \<and>
    ((\<forall>i\<in>set is. \<forall>s. RRARR_INDEX cent i = Some s \<longrightarrow> \<not> has (rs_flags s) CF_LOCAL) \<longrightarrow> local_sets c \<subseteq> local_sets c' \<and>
       (status \<noteq> AddNext \<longrightarrow> (\<forall>s. (i, s) \<notin> local_sets c')))"
  using assms
proof (induction "is" arbitrary: st c)
  case Nil
  with heap_self [OF Nil(2)] show ?case by (intro exI [of _ AddNext] exI [of _ 0] exI [of _ st] exI [of _ c]) simp
next
  case (Cons i "is")
  have r: "\<forall>i\<in>set is. i < NRRTOT" using Cons.prems by simp
  show ?case
  proof (cases "RRARR_INDEX cent i")
    case None
    from Cons.IH [OF Cons.prems(1,2) r] obtain status k st' c' where
      "replace_loop g now p cent is st = Some (status, k, st')" "I st'" "heap st' = (heap st)(p \<mapsto> c')" "ce_qname c' = ce_qname c"
      "around st st' (length is)" "status = AddNext \<or> (\<exists>n. \<not> mem st n)" "status \<noteq> AddNext \<longrightarrow> k \<in> set is"
      "(\<forall>i\<in>set is. \<forall>s. RRARR_INDEX cent i = Some s \<longrightarrow> \<not> has (rs_flags s) CF_LOCAL) \<longrightarrow> local_sets c \<subseteq> local_sets c' \<and>
         (status \<noteq> AddNext \<longrightarrow> (\<forall>s. (k, s) \<notin> local_sets c'))" by (elim exE conjE) (rule that; assumption)
    with None around_mono [of st st' "length is" "Suc (length is)"] show ?thesis
      by (intro exI [of _ status] exI [of _ k] exI [of _ st'] exI [of _ c']) simp
  next
    case (Some new)
    have i: "i < NRRTOT" using Cons.prems by simp
    from I_replace_rrset [OF Cons.prems(1,2) i, of g now new] obtain status st1 c1 where
      a: "replace_rrset g now p i new st = Some (status, st1)" "I st1" "heap st1 = (heap st)(p \<mapsto> c1)" "around st st1 1"
        "status = AddNext \<or> (\<exists>n. \<not> mem st n)" "others_kept new i c c1"
        "status \<noteq> AddNext \<longrightarrow> (\<forall>s. RRARR_INDEX_TESTEXT c1 i = Some s \<longrightarrow> has (rs_flags s) CF_LOCAL = has (rs_flags new) CF_LOCAL)"
      by (elim exE conjE) (rule that; assumption)
    show ?thesis
    proof (cases "status = AddNext")
      case False
      have "(i, s) \<notin> local_sets c1" if "\<not> has (rs_flags new) CF_LOCAL" for s
        using a(7) False that by (auto simp: local_sets_def)
      with False a Some around_mono [OF a(4), of "length (i # is)"] show ?thesis
        by (intro exI [of _ status] exI [of _ i] exI [of _ st1] exI [of _ c1]) (simp add: others_kept_def)
    next
      case True
      have h1: "heap st1 p = Some c1" using a(3) by simp
      from Cons.IH [OF a(2) h1 r] obtain status2 k st' c' where
        b: "replace_loop g now p cent is st1 = Some (status2, k, st')" "I st'" "heap st' = (heap st1)(p \<mapsto> c')" "ce_qname c' = ce_qname c1"
          "around st1 st' (length is)" "status2 = AddNext \<or> (\<exists>n. \<not> mem st1 n)" "status2 \<noteq> AddNext \<longrightarrow> k \<in> set is"
          "(\<forall>i\<in>set is. \<forall>s. RRARR_INDEX cent i = Some s \<longrightarrow> \<not> has (rs_flags s) CF_LOCAL) \<longrightarrow> local_sets c1 \<subseteq> local_sets c' \<and>
             (status2 \<noteq> AddNext \<longrightarrow> (\<forall>s. (k, s) \<notin> local_sets c'))" by (elim exE conjE) (rule that; assumption)
      have "status2 = AddNext \<or> (\<exists>n. \<not> mem st n)" using b(6) a(4) by (auto simp: around_def)
      moreover have "heap st' = (heap st)(p \<mapsto> c')" using a(3) b(3) by simp
      moreover have "around st st' (length (i # is))" using around_trans [OF a(4) b(5)] by simp
      moreover have "(\<forall>i\<in>set (i # is). \<forall>s. RRARR_INDEX cent i = Some s \<longrightarrow> \<not> has (rs_flags s) CF_LOCAL) \<Longrightarrow> local_sets c \<subseteq> local_sets c'"
        using a(6) b(8) Some by (auto simp: others_kept_def)
      ultimately show ?thesis using Some True a(1,6) b(1,2,4,7,8)
        by (intro exI [of _ status2] exI [of _ k] exI [of _ st'] exI [of _ c']) (simp add: others_kept_def)
    qed
  qed
qed

text \<open>The sets of a new entry, none of which is in the list yet, are put into it.\<close>

lemma I_add_rrl:
  assumes "I st" "heap st p = Some c" "\<forall>i\<in>set is. i < RRARR_LEN c \<and> lent_at c i = None" "distinct is"
  shows "\<exists>ok st' c'. add_rrl_loop g p is st = Some (ok, st') \<and> I st' \<and> heap st' = (heap st)(p \<mapsto> c') \<and> ce_qname c' = ce_qname c \<and>
    ce_cs c' = ce_cs c \<and> ce_flags c' = ce_flags c \<and> around st st' (length is) \<and> (ok \<or> (\<exists>n. \<not> mem st n)) \<and>
    (\<forall>j<NRRTOT. j \<notin> set is \<longrightarrow> RRARR_INDEX_TESTEXT c' j = RRARR_INDEX_TESTEXT c j) \<and>
    (ok \<longrightarrow> (\<forall>j\<in>set is. \<exists>x. RRARR_INDEX_TESTEXT c' j = map_option (\<lambda>s. stored g s x) (RRARR_INDEX_TESTEXT c j)))"
  using assms
proof (induction "is" arbitrary: st c)
  case Nil
  with heap_self [OF Nil(2)] show ?case by (intro exI [of _ True] exI [of _ st] exI [of _ c]) simp
next
  case (Cons i "is")
  have i: "i < RRARR_LEN c" "\<not> negative c" "i < NRRTOT" "lent_at c i = None" using Cons.prems(3) RRARR_LEN_negative by auto
  note ix = RRARR_INDEX_eq [OF i(2,1)]
  have r: "\<forall>i\<in>set is. i < RRARR_LEN c \<and> lent_at c i = None" "distinct is" "i \<notin> set is" using Cons.prems(3,4) by auto
  show ?case
  proof (cases "RRARR_INDEX_TESTEXT c i")
    case None
    from Cons.IH [OF Cons.prems(1,2) r(1,2)] obtain ok st' c' where
      "add_rrl_loop g p is st = Some (ok, st')" "I st'" "heap st' = (heap st)(p \<mapsto> c')" "ce_qname c' = ce_qname c" "ce_cs c' = ce_cs c"
      "ce_flags c' = ce_flags c" "around st st' (length is)" "ok \<or> (\<exists>n. \<not> mem st n)"
      "\<forall>j<NRRTOT. j \<notin> set is \<longrightarrow> RRARR_INDEX_TESTEXT c' j = RRARR_INDEX_TESTEXT c j"
      "ok \<longrightarrow> (\<forall>j\<in>set is. \<exists>x. RRARR_INDEX_TESTEXT c' j = map_option (\<lambda>s. stored g s x) (RRARR_INDEX_TESTEXT c j))"
      by (elim exE conjE) (rule that; assumption)
    with None Cons.prems(2) i(3) r(3) around_mono [of st st' "length is" "Suc (length is)"] show ?thesis
      by (intro exI [of _ ok] exI [of _ st'] exI [of _ c']) (simp add: ix)
  next
    case (Some s)
    have lent: "rs_lent s = None" using i(4) Some by (simp add: lent_at_def)
    then have s0: "s\<lparr>rs_lent := None\<rparr> = s" by (cases s) simp
    note ok = I_cent [OF Cons.prems(1,2)]
    let ?c1 = "put_rrset c i (Some (adjust_ttl g s))"
    have i1: "I (upd_cent p ?c1 st)"
      by (rule I_same [OF Cons.prems(1,2) cent_ok_put_same [OF ok Some i(3)] _ links_put_same [OF ok Some i(3)]]) simp_all
    have ix1: "RRARR_INDEX_TESTEXT ?c1 j = (if j = i then Some (adjust_ttl g s) else RRARR_INDEX_TESTEXT c j)" if "j < NRRTOT" for j
      using index_put_rrset [OF _ index_slots(1) [OF ok Some i(3)] that] ok by (simp add: cent_ok_def)
    have h1: "heap (upd_cent p ?c1 st) p = Some ?c1" "RRARR_INDEX_TESTEXT ?c1 i = Some (adjust_ttl g s)" "rs_lent (adjust_ttl g s) = None"
      using ix1 [OF i(3)] lent by simp_all
    from I_insert [OF i1 h1(1) i(3) h1(2,3)] obtain q st2 c2 x where
      d: "insert_rrl p (Some i) (upd_cent p ?c1 st) = Some (q, st2)" "I st2" "heap st2 = (heap (upd_cent p ?c1 st))(p \<mapsto> c2)"
        "c2 = put_rrset ?c1 i (Some ((adjust_ttl g s)\<lparr>rs_lent := x\<rparr>))" "around (upd_cent p ?c1 st) st2 1"
        "q \<or> (\<exists>n. \<not> mem (upd_cent p ?c1 st) n)" by (elim exE conjE) (rule that; assumption)
    note ok1 = I_cent [OF i1 h1(1)]
    have ix2: "RRARR_INDEX_TESTEXT c2 j = (if j = i then Some (stored g s x) else RRARR_INDEX_TESTEXT c j)" if "j < NRRTOT" for j
      using index_put_rrset [OF _ index_slots(1) [OF ok1 h1(2) i(3)] that] ok1 ix1 [OF that]
      by (simp add: cent_ok_def d(4) stored_def s0)
    have h2: "heap st2 = (heap st)(p \<mapsto> c2)" "heap st2 p = Some c2" "around st st2 1" using d(3,5) by (auto simp: around_def)
    have c2: "ce_qname c2 = ce_qname c" "ce_cs c2 = ce_cs c" "ce_flags c2 = ce_flags c" "RRARR_LEN c2 = RRARR_LEN c"
      by (simp_all add: d(4) RRARR_LEN_def)
    have step: "add_rrl_loop g p (i # is) st = (if q then add_rrl_loop g p is st2 else Some (False, st2))"
      using Cons.prems(2) Some d(1) by (simp add: ix)
    show ?thesis
    proof (cases q)
      case False
      with d(2,6) h2 c2 ix2 around_mono [OF h2(3), of "length (i # is)"] show ?thesis unfolding step
        by (intro exI [of _ False] exI [of _ st2] exI [of _ c2]) simp
    next
      case True
      have r2: "\<forall>i\<in>set is. i < RRARR_LEN c2 \<and> lent_at c2 i = None"
        using r ix2 RRARR_LEN_negative [of _ c] c2(4) by (fastforce simp: lent_at_def)
      from Cons.IH [OF d(2) h2(2) r2 r(2)] obtain q3 st3 c3 where
        e: "add_rrl_loop g p is st2 = Some (q3, st3)" "I st3" "heap st3 = (heap st2)(p \<mapsto> c3)" "ce_qname c3 = ce_qname c2" "ce_cs c3 = ce_cs c2"
          "ce_flags c3 = ce_flags c2" "around st2 st3 (length is)" "q3 \<or> (\<exists>n. \<not> mem st2 n)"
          "\<forall>j<NRRTOT. j \<notin> set is \<longrightarrow> RRARR_INDEX_TESTEXT c3 j = RRARR_INDEX_TESTEXT c2 j"
          "q3 \<longrightarrow> (\<forall>j\<in>set is. \<exists>x. RRARR_INDEX_TESTEXT c3 j = map_option (\<lambda>s. stored g s x) (RRARR_INDEX_TESTEXT c2 j))"
        by (elim exE conjE) (rule that; assumption)
      have "q3 \<or> (\<exists>n. \<not> mem st n)" using e(8) h2(3) by (auto simp: around_def)
      moreover have "heap st3 = (heap st)(p \<mapsto> c3)" using e(3) h2(1) by simp
      moreover have "\<exists>x. RRARR_INDEX_TESTEXT c3 j = map_option (\<lambda>s. stored g s x) (RRARR_INDEX_TESTEXT c j)"
        if "q3" "j \<in> set (i # is)" for j
      proof (cases "j = i")
        case True
        with e(9) ix2 i(3) r(3) Some show ?thesis by (auto intro!: exI [of _ x])
      next
        case False
        with that e(10) have "\<exists>x. RRARR_INDEX_TESTEXT c3 j = map_option (\<lambda>s. stored g s x) (RRARR_INDEX_TESTEXT c2 j)" by simp
        moreover have "j < NRRTOT" using that(2) False r(1) RRARR_LEN_negative by auto
        ultimately show ?thesis using ix2 False by simp
      qed
      moreover have "around st st3 (length (i # is))" using around_trans [OF h2(3) e(7)] by simp
      ultimately show ?thesis unfolding step using True e(1,2,4,5,6,9) c2 ix2
        by (intro exI [of _ q3] exI [of _ st3] exI [of _ c3]) simp
    qed
  qed
qed

end

end
