(* ===== verification/Cache_Enter.thy ===== *)
theory Cache_Enter
  imports Cache_Add
begin

text \<open>
  \<^verbatim>\<open>add_cache\<close>: a new entry is copied, put into the list and then into the table; the sets of an entry
  that is already there are replaced one by one.  The interface of an entry being worked on is
  interpreted on both situations.
\<close>

subsection \<open>The two situations\<close>

lemma ok_but_frame:
  assumes "ok_but X st" "heap st p = Some c" "ce_qname c' = ce_qname c" "base_ok st'"
    and "heap st' = (heap st)(p \<mapsto> c')" "buckets st' = buckets st" "ent_num st' = ent_num st"
    and "cache_size st' = cache_size st + (if p \<in> X then 0 else ce_cs c' - ce_cs c)"
  shows "ok_but X st'"
proof -
  have b: "base_ok st" using assms(1) by (simp add: ok_but_def)
  have "qn st' = qn st" by (rule qn_upd [OF assms(2,3,5)])
  moreover have "dom (heap st') = dom (heap st)" using dom_upd_same [of "heap st" p c c'] assms(2,5) by simp
  ultimately show ?thesis
    using assms(1,4-8) sum_size_upd [OF finite_heap [OF b] assms(2), of c' X] by (simp add: ok_but_def)
qed

definition fresh :: "nat \<Rightarrow> cache \<Rightarrow> bool" where
  "fresh p st \<longleftrightarrow> ok_but {p} st \<and> p \<in> dom (heap st)"

definition pend :: "nat \<Rightarrow> cache \<Rightarrow> bool" where
  "pend p st \<longleftrightarrow> (\<exists>c. heap st p = Some c \<and> ok_but {} (st\<lparr>cache_size := cache_size st + ce_cs c\<rparr>))"

interpretation new_entry: open_entry p "fresh p" for p
proof
  fix st assume "fresh p st"
  then show "base_ok st" "\<exists>c. heap st p = Some c" by (auto simp: fresh_def ok_but_def)
next
  fix st st' c c'
  assume a: "fresh p st" "heap st p = Some c" "ce_qname c' = ce_qname c" "base_ok st'"
      "heap st' = (heap st)(p \<mapsto> c')" "buckets st' = buckets st" "ent_num st' = ent_num st" "cache_size st' = cache_size st"
  from a(1) have "ok_but {p} st" by (simp add: fresh_def)
  from ok_but_frame [OF this a(2-7)] a(5,8) show "fresh p st'" by (simp add: fresh_def)
qed

interpretation old_entry: open_entry p "pend p" for p
proof
  fix st assume "pend p st"
  then show "base_ok st" "\<exists>c. heap st p = Some c" by (auto simp: pend_def ok_but_def base_ok_def)
next
  fix st st' c c'
  assume a: "pend p st" "heap st p = Some c" "ce_qname c' = ce_qname c" "base_ok st'"
      "heap st' = (heap st)(p \<mapsto> c')" "buckets st' = buckets st" "ent_num st' = ent_num st" "cache_size st' = cache_size st"
  let ?s = "st\<lparr>cache_size := cache_size st + ce_cs c\<rparr>" and ?t = "st'\<lparr>cache_size := cache_size st' + ce_cs c'\<rparr>"
  have s: "ok_but {} ?s" "heap ?s p = Some c" using a(1,2) by (auto simp: pend_def)
  have t: "base_ok ?t" using a(4) by (simp add: base_ok_def)
  have "ok_but {} ?t" by (rule ok_but_frame [OF s a(3) t]) (simp_all add: a(5-8))
  with a(5) show "pend p st'" by (simp add: pend_def)
qed

subsection \<open>Memory\<close>

lemma copy_rrsets_mem: "copy_rrsets a ss = (r, a') \<Longrightarrow> \<forall>k. a k \<Longrightarrow> \<forall>k. a' k"
  by (drule copy_rrsets_spec) auto

lemma copy_cent_mem: "copy_cent a cent = Some (r, a') \<Longrightarrow> \<forall>k. a k \<Longrightarrow> \<forall>k. a' k"
  by (auto simp: copy_cent_def malloc_def Let_def bind_eq_Some_conv
      split: prod.splits option.splits if_splits dest!: copy_rrsets_mem)

subsection \<open>A new entry\<close>

lemma strip_unlinked:
  assumes "cent_ok cent"
  shows "links (strip_cent cent) = {}"
  using strip_cent_ok(1,7) [OF assms] cent_lents_links [of "strip_cent cent"] by simp

lemma strip_index: "cent_ok cent \<Longrightarrow> j < NRRTOT \<Longrightarrow>
    RRARR_INDEX_TESTEXT (strip_cent cent) j = map_option (rs_lent_update (\<lambda>_. None)) (RRARR_INDEX_TESTEXT cent j)"
  using strip_cent_ok(1,6) [of cent] RRARR_INDEX_TESTEXT_slots [of cent j] RRARR_INDEX_TESTEXT_slots [of "strip_cent cent" j]
  by (simp add: cent_ok_def unlinked_def)

lemma alloc_cent_spec:
  assumes "ok_but {} st" "cent_ok cent"
  shows "\<exists>r st'. alloc_cent cent st = Some (r, st') \<and> buckets st' = buckets st \<and> rrset_l st' = rrset_l st \<and> insert_sort st' = insert_sort st \<and>
    cache_size st' = cache_size st \<and> ((\<forall>k. mem st k) \<longrightarrow> (\<forall>k. mem st' k)) \<and>
    (case r of None \<Rightarrow> ok_but {} st' \<and> heap st' = heap st \<and> (\<exists>n. \<not> mem st n)
     | Some p \<Rightarrow> heap st p = None \<and> fresh p st' \<and> heap st' = (heap st)(p \<mapsto> strip_cent cent))"
proof -
  from copy_cent_spec [OF assms(2), of "mem st"] obtain r a where
    r: "copy_cent (mem st) cent = Some (r, a)" "r = Some (strip_cent cent) \<or> r = None \<and> (\<exists>n. \<not> mem st n)" by blast
  show ?thesis
  proof (cases r)
    case None
    with r assms(1) copy_cent_mem [OF r(1)] show ?thesis
      by (intro exI [of _ None] exI [of _ "st\<lparr>mem := a\<rparr>"]) (auto simp: alloc_cent_def)
  next
    case (Some ce)
    with r(2) have ce: "ce = strip_cent cent" by simp
    let ?p = "next_addr st"
    let ?st = "upd_cent ?p ce (st\<lparr>mem := a, next_addr := ?p + 1\<rparr>)"
    have b: "base_ok st" using assms(1) by (simp add: ok_but_def)
    have no: "heap st ?p = None" using b by (cases "heap st ?p") (auto simp: base_ok_def)
    have "list_ok (heap ?st) (rrset_l st)"
      using list_ok_new [where h = "heap st" and l = "rrset_l st" and p = ?p and c' = ce] no b strip_unlinked [OF assms(2)] ce by (simp add: base_ok_def)
    then have "base_ok ?st"
      using b strip_cent_ok(1) [OF assms(2)] ce unfolding base_ok_def by (fastforce split: if_splits)
    moreover have d: "dom (heap ?st) - {?p} = dom (heap st)" using no by auto
    moreover have q: "qn ?st d = qn st d" if "d \<in> set (entries (buckets st))" for d
      using that assms(1) no by (auto simp: ok_but_def qn_def)
    then have "table_ok (qn ?st) (buckets st)" using table_ok_cong [of "buckets st" "qn ?st" "qn st"] assms(1) by (simp add: ok_but_def)
    moreover have "(\<Sum>q\<in>dom (heap st). size_of (heap ?st) q) = (\<Sum>q\<in>dom (heap st). size_of (heap st) q)"
      using no by (intro sum.cong) (auto simp: size_of_def)
    ultimately have "fresh ?p ?st" using assms(1) by (simp add: fresh_def ok_but_def)
    with Some ce no r(1) copy_cent_mem [OF r(1)] show ?thesis
      by (intro exI [of _ "Some ?p"] exI [of _ ?st]) (simp add: alloc_cent_def Let_def)
  qed
qed

text \<open>How the entry in the cache relates to the one that was added.\<close>

definition added :: "cache_conf \<Rightarrow> dns_cent_t \<Rightarrow> dns_cent_t \<Rightarrow> bool" where
  "added g cent c \<longleftrightarrow> ce_qname c = ce_qname cent \<and> negative c = negative cent \<and> ce_cs c = ce_cs cent \<and>
     (\<forall>j<NRRTOT. \<exists>x. RRARR_INDEX_TESTEXT c j = map_option (\<lambda>s. stored g s x) (RRARR_INDEX_TESTEXT cent j)) \<and>
     (negative cent \<longrightarrow> neg_ttl c = neg_ttl (set_dom_ttl g cent) \<and> neg_ts c = neg_ts cent)"

lemma stored_unlinked: "stored g (s\<lparr>rs_lent := y\<rparr>) x = stored g s x"
  by (simp add: stored_def)

lemma set_dom_ttl_fields [simp]:
  "ce_qname (set_dom_ttl g c) = ce_qname c" "ce_cs (set_dom_ttl g c) = ce_cs c" "neg_ts (set_dom_ttl g c) = neg_ts c"
  "neg_lent (set_dom_ttl g c) = neg_lent c" "negative (set_dom_ttl g c) = negative c"
proof -
  have "negative (c\<lparr>ce_flags := ce_flags c AND NOT DF_NOCACHE\<rparr>) = negative c"
    by (simp add: negative_def has_simps) (simp add: has_def flag_defs)
  then show "negative (set_dom_ttl g c) = negative c"
    by (simp add: set_dom_ttl_def Let_def negative_def)
qed (simp_all add: set_dom_ttl_def Let_def)

lemma set_dom_ttl_strip: "neg_ttl (set_dom_ttl g (strip_cent c)) = neg_ttl (set_dom_ttl g c)"
  by (simp add: set_dom_ttl_def Let_def strip_cent_def)

lemma add_new_rrl_spec:
  assumes "fresh p st" "heap st p = Some (strip_cent cent)" "cent_ok cent"
  shows "\<exists>ok st' c. add_new_rrl g p st = Some (ok, st') \<and> fresh p st' \<and> heap st' = (heap st)(p \<mapsto> c) \<and> ce_qname c = ce_qname cent \<and>
    around st st' NRRTOT \<and> (ok \<or> (\<exists>n. \<not> mem st n)) \<and> (ok \<longrightarrow> added g cent c)"
proof (cases "negative cent")
  case False
  let ?c = "strip_cent cent"
  note s = strip_cent_ok [OF assms(3)]
  have "lent_at ?c i = None" if "i < NRRTOT" for i
    using strip_unlinked [OF assms(3)] links_iff(2) [of i _ ?c] that by (cases "lent_at ?c i") auto
  then have l: "\<forall>i\<in>set [0..<RRARR_LEN ?c]. i < RRARR_LEN ?c \<and> lent_at ?c i = None"
    using RRARR_LEN_negative [of _ ?c] by auto
  from new_entry.I_add_rrl [OF assms(1,2) l distinct_upt, of g] obtain ok st' c where
    a: "add_rrl_loop g p [0..<RRARR_LEN ?c] st = Some (ok, st')" "fresh p st'" "heap st' = (heap st)(p \<mapsto> c)" "ce_qname c = ce_qname ?c"
      "ce_cs c = ce_cs ?c" "ce_flags c = ce_flags ?c" "around st st' (length [0..<RRARR_LEN ?c])" "ok \<or> (\<exists>n. \<not> mem st n)"
      "\<forall>j<NRRTOT. j \<notin> set [0..<RRARR_LEN ?c] \<longrightarrow> RRARR_INDEX_TESTEXT c j = RRARR_INDEX_TESTEXT ?c j"
      "ok \<longrightarrow> (\<forall>j\<in>set [0..<RRARR_LEN ?c]. \<exists>x. RRARR_INDEX_TESTEXT c j = map_option (\<lambda>s. stored g s x) (RRARR_INDEX_TESTEXT ?c j))"
    by (elim exE conjE) (rule that; assumption)
  have ix: "\<exists>x. RRARR_INDEX_TESTEXT c j = map_option (\<lambda>s. stored g s x) (RRARR_INDEX_TESTEXT cent j)" if "ok" "j < NRRTOT" for j
  proof (cases "j < RRARR_LEN ?c")
    case True
    then have "j \<in> set [0..<RRARR_LEN ?c]" by simp
    with a(10) that(1) obtain x where "RRARR_INDEX_TESTEXT c j = map_option (\<lambda>s. stored g s x) (RRARR_INDEX_TESTEXT ?c j)" by blast
    then show ?thesis
      by (intro exI [of _ x]) (simp add: strip_index [OF assms(3) that(2)] option.map_comp comp_def stored_unlinked)
  next
    case f: False
    then have "RRARR_INDEX_TESTEXT ?c j = None" using s(1) that(2) by (simp add: cent_ok_def RRARR_INDEX_TESTEXT_slots slots_length)
    with f a(9) that strip_index [OF assms(3) that(2)] show ?thesis by simp
  qed
  have "negative c = negative cent" using a(6) s(3) by (simp add: negative_def)
  moreover have "around st st' NRRTOT" using around_mono [OF a(7)] RRARR_LEN_le by simp
  moreover have "add_new_rrl g p st = Some (ok, st')" using False assms(2) a(1) s(4) by (simp add: add_new_rrl_def)
  ultimately show ?thesis using a(2-5,8) ix s False
    by (intro exI [of _ ok] exI [of _ st'] exI [of _ c]) (simp add: added_def)
next
  case True
  let ?c = "set_dom_ttl g (strip_cent cent)"
  note s = strip_cent_ok [OF assms(3)]
  have n: "negative ?c" "neg_lent ?c = None" using True s(4) by (simp_all add: strip_cent_def)
  have ix: "RRARR_INDEX_TESTEXT (?c\<lparr>neg_lent := x\<rparr>) j = None" "RRARR_INDEX_TESTEXT cent j = None" for j x
    using n(1) True by (simp_all add: RRARR_INDEX_TESTEXT_def negative_def)
  have "links ?c = links (strip_cent cent)"
    by (rule links_cong) (use True s(4) in \<open>simp_all add: lent_at_negative\<close>)
  then have i1: "fresh p (upd_cent p ?c st)"
    by (intro new_entry.I_same [OF assms(1,2) set_dom_ttl_ok [OF s(1)]]) simp_all
  have h1: "heap (upd_cent p ?c st) p = Some ?c" by simp
  from new_entry.I_insert_neg [OF i1 h1 n] obtain ok st' x where
    d: "insert_rrl p None (upd_cent p ?c st) = Some (ok, st')" "fresh p st'" "heap st' = (heap (upd_cent p ?c st))(p \<mapsto> ?c\<lparr>neg_lent := x\<rparr>)"
      "around (upd_cent p ?c st) st' 1" "ok \<or> (\<exists>n. \<not> mem (upd_cent p ?c st) n)" by (elim exE conjE) (rule that; assumption)
  have "negative (?c\<lparr>neg_lent := x\<rparr>) = negative cent" using n(1) True by (simp add: negative_def)
  then have "added g cent (?c\<lparr>neg_lent := x\<rparr>)" using s ix
    by (simp add: added_def set_dom_ttl_strip) (simp add: strip_cent_def)
  moreover have "around st st' NRRTOT" using d(4) by (auto simp: around_def NRRTOT_def)
  moreover have "heap st' = (heap st)(p \<mapsto> ?c\<lparr>neg_lent := x\<rparr>)" using d(3) by simp
  ultimately show ?thesis using True assms(2) d(1,2,5) s
    by (intro exI [of _ ok] exI [of _ st'] exI [of _ "?c\<lparr>neg_lent := x\<rparr>"]) (simp add: add_new_rrl_def adjust_dom_ttl_def)
qed

text \<open>Giving up: the new entry is taken out of the list again.\<close>

lemma free_new_cent_spec:
  assumes "fresh p st"
  shows "\<exists>st'. free_new_cent p st = Some st' \<and> ok_but {} st' \<and> heap st' = (heap st)(p := None) \<and> insert_sort st' = insert_sort st \<and>
    length (rrset_l st') \<le> length (rrset_l st)"
proof -
  from assms obtain c where c: "heap st p = Some c" and ok: "ok_but {p} st" by (auto simp: fresh_def)
  let ?st = "st\<lparr>rrset_l := free_cent c (rrset_l st), heap := (heap st)(p := None)\<rparr>"
  have b: "base_ok st" using ok by (simp add: ok_but_def)
  have "base_ok ?st" by (rule base_ok_remove [OF b c]) simp_all
  moreover have "dom (heap ?st) = dom (heap st) - {p}" by auto
  moreover have "table_ok (qn ?st) (buckets st)"
    using ok table_ok_cong [of "buckets st" "qn ?st" "qn st"] by (auto simp: ok_but_def qn_def)
  moreover have "(\<Sum>q\<in>dom (heap st) - {p}. size_of (heap ?st) q) = (\<Sum>q\<in>dom (heap st) - {p}. size_of (heap st) q)"
    by (intro sum.cong) (auto simp: size_of_def)
  ultimately have "ok_but {} ?st" using ok by (simp add: ok_but_def)
  moreover have "length (free_cent c (rrset_l st)) \<le> length (rrset_l st)"
    using free_cent_links [OF ok_butD(1) [OF ok c]] by simp
  ultimately show ?thesis using c by (intro exI [of _ ?st]) (simp add: free_new_cent_def)
qed

text \<open>The new entry is put into the table.\<close>

lemma enter_spec:
  assumes "fresh p st" "heap st p = Some c" "name_at (ce_qname c) 0 ls" "loc_ok (buckets st) ls loc"
    and "content (qn st) (buckets st) (lower_name ls) = None"
  shows "\<exists>tab. add_dns_hash True (buckets st) p loc = Some (True, tab) \<and>
    content (qn st) tab = (content (qn st) (buckets st))(lower_name ls \<mapsto> p) \<and>
    ok_but {} (st\<lparr>mem := m, buckets := tab, ent_num := ent_num st + 1, cache_size := cache_size st + ce_cs c\<rparr>)"
proof -
  have ok: "ok_but {p} st" using assms(1) by (simp add: fresh_def)
  have n: "has_name (qn st) p" "key_of (qn st) p = lower_name ls"
    using assms(2,3) by (auto simp: has_name_def qn_def intro: key_of_name)
  from add_dns_hash_spec [OF _ n assms(4,5)] ok obtain tab where
    t: "add_dns_hash True (buckets st) p loc = Some (True, tab)" "table_ok (qn st) tab"
      "mset (entries tab) = add_mset p (mset (entries (buckets st)))"
      "content (qn st) tab = (content (qn st) (buckets st))(lower_name ls \<mapsto> p)" by (auto simp: ok_but_def)
  have "set (entries tab) = insert p (set (entries (buckets st)))" using t(3) by (metis set_mset_add_mset_insert set_mset_mset)
  then have "set (entries tab) = dom (heap st)" using ok assms(2) by (auto simp: ok_but_def)
  moreover have fin: "finite (dom (heap st))" using ok finite_heap by (auto simp: ok_but_def)
  have pd: "p \<in> dom (heap st)" using assms(2) by auto
  have "(\<Sum>q\<in>dom (heap st). size_of (heap st) q) = ce_cs c + (\<Sum>q\<in>dom (heap st) - {p}. size_of (heap st) q)"
    using sum.remove [OF fin pd, of "size_of (heap st)"] assms(2) by (simp add: size_of_def)
  moreover have "card (dom (heap st)) = card (dom (heap st) - {p}) + 1" using card.remove [OF fin pd] by simp
  ultimately show ?thesis using ok t by (intro exI [of _ tab]) (simp add: ok_but_def base_ok_def)
qed

lemma purge_cache_idle:
  assumes "cache_size st \<le> sz"
  shows "purge_cache now sz True st = Some st"
proof -
  have "purge_loop (\<lambda>st. \<not> True \<or> cache_size st > sz) step le st = Some st" for step le
    using assms by (subst purge_loop.simps) simp
  with assms show ?thesis by (simp add: purge_cache_def)
qed

definition roomy :: "cache \<Rightarrow> bool" where
  "roomy st \<longleftrightarrow> insert_sort st \<or> length (rrset_l st) + NRRTOT < 2 ^ 32"

lemma roomy_room: "roomy st \<Longrightarrow> insert_sort st' = insert_sort st \<Longrightarrow> length (rrset_l st') \<le> length (rrset_l st) + NRRTOT \<Longrightarrow> room st'"
  by (auto simp: roomy_def room_def)

text \<open>What \<^verbatim>\<open>add_cache\<close> promises: the cache stays consistent, and data of the local configuration stay.\<close>

definition kept_ok :: "cache \<Rightarrow> cache \<Rightarrow> bool" where
  "kept_ok st st' \<longleftrightarrow> ok_but {} st' \<and> room st' \<and> length (rrset_l st') \<le> length (rrset_l st) + NRRTOT \<and> (insert_sort st \<longrightarrow> insert_sort st') \<and> locals st \<subseteq> locals st'"

lemma purge_kept:
  assumes "ok_but {} st1" "room st1" "insert_sort st1 = insert_sort st" "length (rrset_l st1) \<le> length (rrset_l st) + NRRTOT" "locals st \<subseteq> locals st1"
  shows "\<exists>st'. purge_cache now sz lazy st1 = Some st' \<and> kept_ok st st'"
proof -
  from purge_cache_spec [OF assms(1,2), of now sz lazy] obtain st' where
    p: "purge_cache now sz lazy st1 = Some st'" "ok_but {} st'" "room st'" "insert_sort st1 \<longrightarrow> insert_sort st'"
      "set (rrset_l st') \<subseteq> set (rrset_l st1)" "locals st1 \<subseteq> locals st'" by blast
  from sublist_length [OF assms(1) p(2,5)] p assms(3-5) show ?thesis by (intro exI [of _ st']) (auto simp: kept_ok_def)
qed

lemma add_new_cent_spec:
  assumes "ok_but {} st" "cent_ok cent" "roomy st" "name_at (ce_qname cent) 0 ls" "loc_ok (buckets st) ls loc"
    and "content (qn st) (buckets st) (lower_name ls) = None"
  shows "\<exists>st'. add_new_cent g now cent loc st = Some st' \<and> kept_ok st st' \<and>
    ((\<forall>k. mem st k) \<and> (ce_num_rrs cent \<noteq> 0 \<or> negative cent) \<and> cache_size st + ce_cs cent \<le> cache_limit g \<longrightarrow>
      (\<exists>p c. heap st p = None \<and> heap st' = (heap st)(p \<mapsto> c) \<and> added g cent c \<and> cache_size st' = cache_size st + ce_cs cent))"
proof (cases "ce_num_rrs cent = 0 \<and> \<not> negative cent")
  case True
  have "room st" using assms(3) by (auto simp: roomy_def room_def)
  from purge_kept [OF assms(1) this refl _ order_refl, of now "cache_limit g" True] True show ?thesis by (auto simp: add_new_cent_def)
next
  case False
  from alloc_cent_spec [OF assms(1,2)] obtain r st1 where
    a: "alloc_cent cent st = Some (r, st1)" "buckets st1 = buckets st" "rrset_l st1 = rrset_l st" "insert_sort st1 = insert_sort st"
      "cache_size st1 = cache_size st" "(\<forall>k. mem st k) \<longrightarrow> (\<forall>k. mem st1 k)"
      "case r of None \<Rightarrow> ok_but {} st1 \<and> heap st1 = heap st \<and> (\<exists>n. \<not> mem st n)
       | Some p \<Rightarrow> heap st p = None \<and> fresh p st1 \<and> heap st1 = (heap st)(p \<mapsto> strip_cent cent)" by blast
  have unf: "add_new_cent g now cent loc st = (case r of None \<Rightarrow> Some st1
        | Some p \<Rightarrow> do {
            (ok, st) \<leftarrow> add_new_rrl g p st1;
            if \<not> ok then free_new_cent p st
            else do {
              let (mok, m) = malloc (mem st);
              (ok, tab) \<leftarrow> add_dns_hash mok (buckets st) p loc;
              let st = st\<lparr>mem := m, buckets := tab\<rparr>;
              if \<not> ok then free_new_cent p st
              else do {
                ce \<leftarrow> heap st p;
                purge_cache now (cache_limit g) True
                  (st\<lparr>ent_num := ent_num st + 1, cache_size := cache_size st + ce_cs ce\<rparr>) } } })"
    unfolding add_new_cent_def if_not_P [OF False] a(1) by simp
  show ?thesis
  proof (cases r)
    case None
    with a have "kept_ok st st1" using roomy_room [OF assms(3) a(4)] by (simp add: kept_ok_def locals_def)
    with None a(7) show ?thesis by (auto simp: unf)
  next
    case (Some p)
    with a(7) have p: "heap st p = None" "fresh p st1" "heap st1 = (heap st)(p \<mapsto> strip_cent cent)" by simp_all
    then have h1: "heap st1 p = Some (strip_cent cent)" by simp
    from add_new_rrl_spec [OF p(2) h1 assms(2), of g] obtain ok st2 c where
      b: "add_new_rrl g p st1 = Some (ok, st2)" "fresh p st2" "heap st2 = (heap st1)(p \<mapsto> c)" "ce_qname c = ce_qname cent"
        "around st1 st2 NRRTOT" "ok \<or> (\<exists>n. \<not> mem st1 n)" "ok \<longrightarrow> added g cent c" by (elim exE conjE) (rule that; assumption)
    have h2: "heap st2 p = Some c" "heap st2 = (heap st)(p \<mapsto> c)" using b(3) p(3) by simp_all
    have fr: "buckets st2 = buckets st" "insert_sort st2 = insert_sort st" "length (rrset_l st2) \<le> length (rrset_l st) + NRRTOT"
      "cache_size st2 = cache_size st" "(\<forall>k. mem st k) \<longrightarrow> (\<forall>k. mem st2 k)"
      using b(5) a(2-6) by (auto simp: around_def)
    have giveup: "\<exists>st'. free_new_cent p (st2\<lparr>mem := m\<rparr>) = Some st' \<and> kept_ok st st'" for m
    proof -
      have "fresh p (st2\<lparr>mem := m\<rparr>)" using b(2) by (simp add: fresh_def)
      from free_new_cent_spec [OF this] obtain st' where f: "free_new_cent p (st2\<lparr>mem := m\<rparr>) = Some st'" "ok_but {} st'"
        "heap st' = (heap st2)(p := None)" "insert_sort st' = insert_sort st2" "length (rrset_l st') \<le> length (rrset_l st2)" by auto
      have "heap st' = heap st" using f(3) h2(2) p(1) by auto
      with f fr roomy_room [OF assms(3), of st'] show ?thesis by (auto simp: kept_ok_def locals_def)
    qed
    have loc2: "locals st \<subseteq> locals st2" using h2(2) p(1) by (auto simp: locals_def)
    let ?m = "\<lambda>n. mem st2 (Suc n)"
    consider "\<not> ok" | "ok" "\<not> mem st2 0" | "ok" "mem st2 0" by blast
    then show ?thesis
    proof cases
      case 1
      moreover have "st2\<lparr>mem := mem st2\<rparr> = st2" by simp
      ultimately show ?thesis using giveup [of "mem st2"] b(1,6) a(6) by (auto simp: unf Some)
    next
      case 2
      have "st2\<lparr>mem := ?m, buckets := buckets st2\<rparr> = st2\<lparr>mem := ?m\<rparr>" by simp
      with 2 giveup [of ?m] b(1) fr(5) show ?thesis by (auto simp: unf Some malloc_def add_dns_hash_def)
    next
      case 3
      have q: "qn st2 d = qn st d" if "d \<in> set (entries (buckets st))" for d
        using that assms(1) p(1) h2(2) by (auto simp: ok_but_def qn_def)
      have c: "name_at (ce_qname c) 0 ls" "loc_ok (buckets st2) ls loc" "content (qn st2) (buckets st2) (lower_name ls) = None"
        using assms(4-6) b(4) fr(1) content_cong [of "buckets st" "qn st2" "qn st", OF q] by simp_all
      from enter_spec [OF b(2) h2(1) c, of ?m] obtain tab where
        t: "add_dns_hash True (buckets st2) p loc = Some (True, tab)"
          "ok_but {} (st2\<lparr>mem := ?m, buckets := tab, ent_num := ent_num st2 + 1, cache_size := cache_size st2 + ce_cs c\<rparr>)" by blast
      let ?st3 = "st2\<lparr>mem := ?m, buckets := tab, ent_num := ent_num st2 + 1, cache_size := cache_size st2 + ce_cs c\<rparr>"
      have run: "add_new_cent g now cent loc st = purge_cache now (cache_limit g) True ?st3"
        using 3 b(1) h2(1) t(1) by (simp add: unf Some malloc_def)
      have "room ?st3" "insert_sort ?st3 = insert_sort st" "length (rrset_l ?st3) \<le> length (rrset_l st) + NRRTOT" "locals st \<subseteq> locals ?st3" using roomy_room [OF assms(3), of ?st3] fr loc2 by (simp_all add: locals_def)
      from purge_kept [OF t(2) this, of now "cache_limit g" True] obtain st' where
        pc: "purge_cache now (cache_limit g) True ?st3 = Some st'" "kept_ok st st'" by blast
      have ad: "added g cent c" using 3 b(7) by simp
      have "st' = ?st3" if "cache_size st + ce_cs cent \<le> cache_limit g"
        using that fr(4) ad pc(1) purge_cache_idle [of ?st3 "cache_limit g" now] by (simp add: added_def)
      then have "cache_size st + ce_cs cent \<le> cache_limit g \<longrightarrow>
          (\<exists>p c. heap st p = None \<and> heap st' = (heap st)(p \<mapsto> c) \<and> added g cent c \<and> cache_size st' = cache_size st + ce_cs cent)"
        using ad h2(2) p(1) fr(4) by (auto simp: added_def intro!: exI [of _ p] exI [of _ c])
      with run pc show ?thesis by auto
    qed
  qed
qed

subsection \<open>An entry that is already there\<close>

lemma pend_restore: "pend p st \<Longrightarrow> heap st p = Some c \<Longrightarrow> ok_but {} (st\<lparr>cache_size := cache_size st + ce_cs c\<rparr>)"
  by (auto simp: pend_def)

text \<open>The flags and references that the entry takes over.\<close>

lemma merged_fields:
  assumes "c' = c\<lparr>ce_flags := ce_flags c OR (fl AND (DF_AUTH OR DF_WILD)), c_ns := a, c_soa := b\<rparr>"
  shows "cent_ok c' = cent_ok c" "links c' = links c" "ce_qname c' = ce_qname c" "local_sets c' = local_sets c" "ce_cs c' = ce_cs c"
proof -
  have "(fl AND (DF_AUTH OR DF_WILD)) AND DF_NEGATIVE = fl AND ((DF_AUTH OR DF_WILD) AND DF_NEGATIVE)" by (simp only: and.assoc)
  also have "(DF_AUTH OR DF_WILD) AND DF_NEGATIVE = 0" by (simp add: flag_defs)
  finally have neg: "negative c' = negative c" unfolding assms by (simp add: negative_def has_simps) (simp add: has_def)
  then have ix: "RRARR_INDEX_TESTEXT c' j = RRARR_INDEX_TESTEXT c j" for j
    by (simp add: RRARR_INDEX_TESTEXT_def) (simp add: assms)
  show "links c' = links c" by (rule links_index) (use neg ix in \<open>simp_all add: assms\<close>)
  show "local_sets c' = local_sets c" by (simp add: local_sets_def ix)
  have "slots c' = slots c" by (simp add: slots_def neg) (simp add: assms)
  then show "cent_ok c' = cent_ok c" using neg
    by (simp add: cent_ok_def cent_shape_def cent_size_def num_sets_def) (auto simp: assms)
qed (simp_all add: assms)

lemma no_local_index: "local_sets cent = {} \<Longrightarrow> i \<in> set [0..<RRARR_LEN cent] \<Longrightarrow> RRARR_INDEX cent i = Some s \<Longrightarrow> \<not> has (rs_flags s) CF_LOCAL"
  using RRARR_LEN_negative [of i cent] RRARR_INDEX_eq [of cent i] by (auto simp: local_sets_def)

lemma update_cent_spec:
  assumes "ok_but {} st" "heap st p = Some c" "cent_ok cent" "roomy st"
  shows "\<exists>st'. update_cent g now cent p st = Some st' \<and> ok_but {} st' \<and> room st' \<and> length (rrset_l st') \<le> length (rrset_l st) + NRRTOT \<and>
    (insert_sort st \<longrightarrow> insert_sort st') \<and> (local_sets cent = {} \<longrightarrow> locals st \<subseteq> locals st')"
proof -
  have np: "p \<notin> {}" by simp
  from purge_cent_spec [OF assms(1) np assms(2), of now False False] obtain n st1 c1 where
    a: "purge_cent now p False False st = Some (n, st1)" "ok_but {} st1" "insert_sort st1 = insert_sort st" "heap st1 = (heap st)(p \<mapsto> c1)"
    by auto
  have loc1: "locals st \<subseteq> locals st1" by (rule purge_cent_locals [OF assms(1) np assms(2) a(1)])
  have len1: "length (rrset_l st1) \<le> length (rrset_l st)"
    by (rule sublist_length [OF assms(1) a(2) purge_cent_nodes [OF assms(1) np assms(2) a(1)]])
  let ?st2 = "st1\<lparr>cache_size := cache_size st1 - ce_cs c1\<rparr>"
  have h2: "heap st1 p = Some c1" "heap ?st2 p = Some c1" using a(4) by simp_all
  have p2: "pend p ?st2" using a(2) h2(1) by (simp add: pend_def)
  have il: "\<forall>i\<in>set [0..<RRARR_LEN cent]. i < NRRTOT" using RRARR_LEN_le [of cent] by auto
  from old_entry.I_replace_loop [OF p2 h2(2) il, of g now cent] obtain status i st3 c3 where
    b: "replace_loop g now p cent [0..<RRARR_LEN cent] ?st2 = Some (status, i, st3)" "pend p st3" "heap st3 = (heap ?st2)(p \<mapsto> c3)"
      "around ?st2 st3 (length [0..<RRARR_LEN cent])" "status \<noteq> AddNext \<longrightarrow> i \<in> set [0..<RRARR_LEN cent]"
      "(\<forall>i\<in>set [0..<RRARR_LEN cent]. \<forall>s. RRARR_INDEX cent i = Some s \<longrightarrow> \<not> has (rs_flags s) CF_LOCAL) \<longrightarrow> local_sets c1 \<subseteq> local_sets c3 \<and>
       (status \<noteq> AddNext \<longrightarrow> (\<forall>s. (i, s) \<notin> local_sets c3))" by (elim exE conjE) (rule that; assumption)
  have h3: "heap st3 p = Some c3" using b(3) by simp
  have loc3: "local_sets c1 \<subseteq> local_sets c3" "status \<noteq> AddNext \<Longrightarrow> (i, s) \<notin> local_sets c3" if "local_sets cent = {}" for s
    using b(6) no_local_index [OF that] by blast+
  have loc: "locals st \<subseteq> locals st'" if "heap st' = (heap st3)(p \<mapsto> c')" "local_sets c1 \<subseteq> local_sets c'" for st' c'
    using loc1 locals_upd [of st1 p c1 st' c'] h2(1) b(3) that by auto
  have room: "room st'" if "insert_sort st' = insert_sort st3" "length (rrset_l st') \<le> length (rrset_l st3)" for st'
    using that b(4) len1 a(3) RRARR_LEN_le [of cent] by (intro roomy_room [OF assms(4)]) (auto simp: around_def)
  have is3: "insert_sort st3 = insert_sort st" "length (rrset_l st3) \<le> length (rrset_l st) + NRRTOT"
    using b(4) a(3) len1 RRARR_LEN_le [of cent] by (simp_all add: around_def)
  have unf: "update_cent g now cent p st = (case status of
       AddNext \<Rightarrow> (let c = c3\<lparr>ce_flags := ce_flags c3 OR (ce_flags cent AND (DF_AUTH OR DF_WILD)),
                  c_ns := merge_ref (c_ns cent) (c_ns c3), c_soa := merge_ref (c_soa cent) (c_soa c3)\<rparr> in
         purge_cache now (cache_limit g) True ((upd_cent p c st3)\<lparr>cache_size := cache_size st3 + ce_cs c\<rparr>))
     | AddSize \<Rightarrow> Some (st3\<lparr>cache_size := cache_size st3 + ce_cs c3\<rparr>)
     | AddCleanup \<Rightarrow> do {
         (rv, st) \<leftarrow> del_cent_rrset p i st3;
         c \<leftarrow> heap st p;
         Some (st\<lparr>cache_size := cache_size st + ce_cs c\<rparr>) })"
    using a(1) h2(1) b(1) h3 by (simp add: update_cent_def split: add_status.split)
  show ?thesis
  proof (cases status)
    case AddNext
    define c4 where "c4 = c3\<lparr>ce_flags := ce_flags c3 OR (ce_flags cent AND (DF_AUTH OR DF_WILD)),
                  c_ns := merge_ref (c_ns cent) (c_ns c3), c_soa := merge_ref (c_soa cent) (c_soa c3)\<rparr>"
    note m = merged_fields [OF c4_def]
    have "pend p (upd_cent p c4 st3)"
      by (rule old_entry.I_same [OF b(2) h3 _ m(3,2)]) (use old_entry.I_cent [OF b(2) h3] m(1) in simp)
    then have k4: "ok_but {} ((upd_cent p c4 st3)\<lparr>cache_size := cache_size st3 + ce_cs c4\<rparr>)" (is "ok_but {} ?st4")
      using pend_restore [of p "upd_cent p c4 st3" c4] by simp
    have "room ?st4" by (rule room) simp_all
    from purge_cache_spec [OF k4 this, of now "cache_limit g" True] obtain st' where
      p: "purge_cache now (cache_limit g) True ?st4 = Some st'" "ok_but {} st'" "room st'" "insert_sort ?st4 \<longrightarrow> insert_sort st'"
        "set (rrset_l st') \<subseteq> set (rrset_l ?st4)" "locals ?st4 \<subseteq> locals st'" by blast
    moreover have "length (rrset_l st') \<le> length (rrset_l st3)" using sublist_length [OF k4 p(2,5)] by simp
    moreover have "locals st \<subseteq> locals ?st4" if "local_sets cent = {}"
      using loc [of ?st4 c4] loc3(1) [OF that] m(4) by simp
    ultimately show ?thesis unfolding unf AddNext using is3 by (auto simp: c4_def)
  next
    case AddSize
    have "locals st \<subseteq> locals st3" if "local_sets cent = {}" using loc [of st3 c3] loc3(1) [OF that] heap_self [OF h3] by simp
    moreover have "room (st3\<lparr>cache_size := cache_size st3 + ce_cs c3\<rparr>)" by (rule room) simp_all
    ultimately show ?thesis unfolding unf AddSize using is3 pend_restore [OF b(2) h3] by (simp add: locals_def)
  next
    case AddCleanup
    then have i: "i < NRRTOT" using b(5) il by auto
    from old_entry.I_del [OF b(2) h3 i] obtain rv st4 c4 where
      d: "del_cent_rrset p i st3 = Some (rv, st4)" "pend p st4" "heap st4 = (heap st3)(p \<mapsto> c4)" "around st3 st4 0"
        "\<forall>j<NRRTOT. RRARR_INDEX_TESTEXT c4 j = (if j = i then None else RRARR_INDEX_TESTEXT c3 j)"
      by (elim exE conjE) (rule that; assumption)
    have h4: "heap st4 p = Some c4" using d(3) by simp
    have "local_sets c3 \<subseteq> local_sets c4" if "local_sets cent = {}"
      using loc3(2) [OF that] AddCleanup d(5) by (fastforce simp: local_sets_def)
    then have "locals st \<subseteq> locals st4" if "local_sets cent = {}"
      using loc [OF d(3)] loc3(1) [OF that] that by blast
    moreover have "room (st4\<lparr>cache_size := cache_size st4 + ce_cs c4\<rparr>)" by (rule room) (use d(4) in \<open>simp_all add: around_def\<close>)
    ultimately show ?thesis unfolding unf AddCleanup using is3 d(1,4) h4 pend_restore [OF d(2) h4] by (simp add: locals_def around_def)
  qed
qed

subsection \<open>The whole operation\<close>

lemma content_deleted:
  assumes "ok_but {} st" "ok_but {} st'" "heap st' = (heap st)(p := None)" "content (qn st) (buckets st) k = Some p"
  shows "content (qn st') (buckets st') k = None"
proof (rule ccontr)
  assume "content (qn st') (buckets st') k \<noteq> None"
  then obtain q where q: "content (qn st') (buckets st') k = Some q" by blast
  have t: "table_ok (qn st) (buckets st)" "table_ok (qn st') (buckets st')" using assms(1,2) by (simp_all add: ok_but_def)
  from q content_Some [OF t(2)] have e: "q \<in> set (entries (buckets st'))" "key_of (qn st') q = k" by simp_all
  then have h: "q \<in> dom (heap st')" using assms(2) by (simp add: ok_but_def)
  then have "q \<noteq> p" "q \<in> dom (heap st)" using assms(3) by auto
  moreover have "key_of (qn st) q = k" using e(2) \<open>q \<noteq> p\<close> assms(3) by (simp add: key_of_def qn_def)
  moreover have "set (entries (buckets st)) = dom (heap st)" using assms(1) by (simp add: ok_but_def)
  ultimately have "content (qn st) (buckets st) k = Some q" using content_Some [OF t(1)] by simp
  with assms(4) \<open>q \<noteq> p\<close> show False by simp
qed

lemma add_cache_new:
  assumes "ok_but {} st" "cent_ok cent" "roomy st" "name_at (ce_qname cent) 0 ls" "content (qn st) (buckets st) (lower_name ls) = None"
  shows "\<exists>st'. add_cache g now cent st = Some st' \<and> kept_ok st st' \<and>
    ((\<forall>k. mem st k) \<and> (ce_num_rrs cent \<noteq> 0 \<or> negative cent) \<and> cache_size st + ce_cs cent \<le> cache_limit g \<longrightarrow>
      (\<exists>p c. heap st p = None \<and> heap st' = (heap st)(p \<mapsto> c) \<and> added g cent c \<and> cache_size st' = cache_size st + ce_cs cent))"
proof -
  from lookup_spec [OF assms(1,4)] assms(5) obtain loc where
    l: "dns_lookup (qn st) (buckets st) (ce_qname cent) = Some (None, loc)" "loc_ok (buckets st) ls loc" by auto
  from add_new_cent_spec [OF assms(1-4) l(2) assms(5), of g now] obtain st' where
    a: "add_new_cent g now cent loc st = Some st'" "kept_ok st st'"
      "(\<forall>k. mem st k) \<and> (ce_num_rrs cent \<noteq> 0 \<or> negative cent) \<and> cache_size st + ce_cs cent \<le> cache_limit g \<longrightarrow>
      (\<exists>p c. heap st p = None \<and> heap st' = (heap st)(p \<mapsto> c) \<and> added g cent c \<and> cache_size st' = cache_size st + ce_cs cent)" by blast
  have "add_cache g now cent st = Some st'" using l(1) a(1) by (subst add_cache.simps) (simp add: add_cache_pass_def)
  with a(2,3) show ?thesis by (intro exI [of _ st'] conjI)
qed

lemma local_check:
  assumes "cent_ok c" "\<not> (\<exists>i\<in>set [0..<RRARR_LEN c]. (case RRARR_INDEX c i of None \<Rightarrow> False | Some s \<Rightarrow> has (rs_flags s) CF_LOCAL))"
  shows "local_sets c = {}"
proof -
  have "\<not> has (rs_flags s) CF_LOCAL" if s: "i < NRRTOT" "RRARR_INDEX_TESTEXT c i = Some s" for i s
  proof -
    from index_slots [OF assms(1) s(2,1)] slots_length [of c] assms(1) have i: "i < RRARR_LEN c" "\<not> negative c"
      by (auto simp: cent_ok_def)
    with assms(2) RRARR_INDEX_eq [OF i(2,1)] s(2) show ?thesis by (auto dest: bspec [of _ _ i])
  qed
  then show ?thesis by (auto simp: local_sets_def)
qed

lemma add_cache_spec:
  assumes "ok_but {} st" "cent_ok cent" "roomy st"
  shows "\<exists>st'. add_cache g now cent st = Some st' \<and> ok_but {} st' \<and> room st' \<and> length (rrset_l st') \<le> length (rrset_l st) + NRRTOT \<and>
    (insert_sort st \<longrightarrow> insert_sort st') \<and> (local_sets cent = {} \<longrightarrow> locals st \<subseteq> locals st')"
proof -
  from cent_name [OF assms(2)] obtain ls where ls: "name_at (ce_qname cent) 0 ls" by blast
  show ?thesis
  proof (cases "content (qn st) (buckets st) (lower_name ls)")
    case None
    from add_cache_new [OF assms ls None, of g now] show ?thesis by (auto simp: kept_ok_def)
  next
    case (Some p)
    from content_heap [OF assms(1) Some] obtain c where c: "heap st p = Some c" by blast
    from lookup_spec [OF assms(1) ls] Some obtain loc where
      l: "dns_lookup (qn st) (buckets st) (ce_qname cent) = Some (Some p, loc)" "loc_at (buckets st) p loc" by auto
    let ?loc = "\<exists>i\<in>set [0..<RRARR_LEN c]. (case RRARR_INDEX c i of None \<Rightarrow> False | Some s \<Rightarrow> has (rs_flags s) CF_LOCAL)"
    consider "\<not> negative cent" | "negative cent" ?loc | "negative cent" "\<not> ?loc" by blast
    then show ?thesis
    proof cases
      case 1
      from update_cent_spec [OF assms(1) c assms(2,3), of g now] obtain st' where
        u: "update_cent g now cent p st = Some st'" "ok_but {} st'" "room st'" "length (rrset_l st') \<le> length (rrset_l st) + NRRTOT" "insert_sort st \<longrightarrow> insert_sort st'" "local_sets cent = {} \<longrightarrow> locals st \<subseteq> locals st'" by blast
      have "add_cache g now cent st = Some st'" using 1 l(1) u(1) by (subst add_cache.simps) (simp add: add_cache_pass_def)
      with u show ?thesis by blast
    next
      case 2
      have "add_cache_pass g now cent st = Some (False, st)" unfolding add_cache_pass_def using 2 l(1) c by simp
      then have "add_cache g now cent st = Some st" by (subst add_cache.simps) simp
      with assms(1) roomy_room [OF assms(3), of st] show ?thesis by auto
    next
      case 3
      have none: "local_sets c = {}" by (rule local_check [OF ok_butD(1) [OF assms(1) c] 3(2)])
      have np: "p \<notin> {}" by simp
      have at: "Some loc = None \<or> loc_at (buckets st) p (the (Some loc))" using l(2) by simp
      from del_cache_ent_spec [OF assms(1) c np at] obtain st1 where
        d: "del_cache_ent p (Some loc) st = Some st1" "ok_but {} st1" "heap st1 = (heap st)(p := None)"
          "rrset_l st1 = filter (\<lambda>e. le_id e \<notin> snd ` links c) (rrset_l st)" "insert_sort st1 = insert_sort st"
        by (elim exE conjE) (rule that; assumption)
      have k1: "content (qn st1) (buckets st1) (lower_name ls) = None" by (rule content_deleted [OF assms(1) d(2,3) Some])
      have len1: "length (rrset_l st1) \<le> length (rrset_l st)" using d(4) by simp
      then have r1: "roomy st1" using assms(3) d(5) by (auto simp: roomy_def)
      from add_cache_new [OF d(2) assms(2) r1 ls k1, of g now] obtain st' where
        a: "add_cache g now cent st1 = Some st'" "kept_ok st1 st'" by blast
      have "add_cache_pass g now cent st = Some (True, st1)" unfolding add_cache_pass_def using 3 l(1) c d(1) by simp
      then have "add_cache g now cent st = Some st'" using a(1) by (subst add_cache.simps) simp
      with a(2) d(5) len1 locals_del [OF c d(3) none] show ?thesis by (auto simp: kept_ok_def)
    qed
  qed
qed

text \<open>
  C8.  \<^verbatim>\<open>add_cache\<close> returns for every cache that satisfies the invariant and every well-formed entry,
  whatever memory is available: the jump back to \<^verbatim>\<open>retry\<close> is taken at most once.  The cache satisfies
  the invariant afterwards, and an entry without local sets removes no local set.
\<close>

theorem add_cache_returns:
  assumes "cache_ok st" "cent_ok cent" "insert_sort st \<or> length (rrset_l st) + NRRTOT < 2 ^ 32"
  shows "\<exists>st'. add_cache g now cent st = Some st' \<and> cache_ok st' \<and> (local_sets cent = {} \<longrightarrow> locals st \<subseteq> locals st')"
  using add_cache_spec [of st cent g now] assms unfolding cache_ok_def roomy_def by blast

text \<open>
  C7.  A name that is not in the cache is found after \<^verbatim>\<open>add_cache\<close>, provided that there is memory and
  the cache does not outgrow its limit: the entry found has the name, the sets and the records of the
  one that was added, with times to live brought within the configured limits, and no other entry has
  changed.
\<close>

theorem add_cache_found:
  assumes "cache_ok st" "cent_ok cent" "insert_sort st \<or> length (rrset_l st) + NRRTOT < 2 ^ 32"
    and "dns_lookup (qn st) (buckets st) (ce_qname cent) = Some (None, loc)"
    and "\<forall>k. mem st k" "ce_num_rrs cent \<noteq> 0 \<or> negative cent" "cache_size st + ce_cs cent \<le> cache_limit g"
  shows "\<exists>st' p c loc'. add_cache g now cent st = Some st' \<and> cache_ok st' \<and>
    dns_lookup (qn st') (buckets st') (ce_qname cent) = Some (Some p, loc') \<and>
    heap st p = None \<and> heap st' = (heap st)(p \<mapsto> c) \<and> added g cent c \<and> cache_size st' = cache_size st + ce_cs cent"
proof -
  have ok: "ok_but {} st" "roomy st" using assms(1,3) by (simp_all add: cache_ok_def roomy_def)
  from cent_name [OF assms(2)] obtain ls where ls: "name_at (ce_qname cent) 0 ls" by blast
  from lookup_spec [OF ok(1) ls] assms(4) have none: "content (qn st) (buckets st) (lower_name ls) = None" by auto
  from add_cache_new [OF ok(1) assms(2) ok(2) ls none, of g now] assms(5-7) obtain st' p c where
    a: "add_cache g now cent st = Some st'" "kept_ok st st'" "heap st p = None" "heap st' = (heap st)(p \<mapsto> c)" "added g cent c"
      "cache_size st' = cache_size st + ce_cs cent" by blast
  have k: "ok_but {} st'" using a(2) by (simp add: kept_ok_def)
  have c: "heap st' p = Some c" "p \<notin> {}" "name_at (ce_qname c) 0 ls" using a(4,5) ls by (simp_all add: added_def)
  from lookup_spec [OF k ls] content_self [OF k c] obtain loc' where
    "dns_lookup (qn st') (buckets st') (ce_qname cent) = Some (Some p, loc')" by auto
  with a k show ?thesis by (auto simp: cache_ok_def)
qed


text \<open>A concrete entry: the name \<^verbatim>\<open>a.\<close> with one address record.\<close>

definition example_cent :: dns_cent_t where
  "example_cent = \<lparr>ce_qname = [1, 97, 0], ce_cs = sizeof_dns_cent_t + 3 + sizeof_rr_set_t + sizeof_rr_bucket_t + 4, ce_num_rrs = 1, ce_flags = 0,
     neg_lent = None, neg_ttl = 0, neg_ts = 0,
     rrmu = Some \<lparr>rs_lent = None, rs_ttl = 60, rs_ts = 1000, rs_flags = 0, rs_rrs = [[127, 0, 0, 1]]\<rparr> # replicate (NRRMU - 1) None,
     rrext = None, c_ns = cundef, c_soa = cundef\<rparr>"

lemma example_cent_ok: "cent_ok example_cent"
proof -
  have "enc [[97 :: byte]] = [1, 97, 0]" by (simp add: enc_def)
  moreover have "wf_name [[97 :: byte]]" by (simp add: wf_name_def lab63_def DNSNAMEBUFSIZE_def)
  moreover have "\<not> negative example_cent" by (simp add: example_cent_def negative_def has_def)
  ultimately show ?thesis
    by (auto simp: cent_ok_def cent_shape_def cent_size_def num_sets_def slots_def example_cent_def rrset_size_def rr_numbers
        intro!: exI [of _ "[[97]]"])
qed

lemma example_room: "insert_sort (init_cache m)" "cache_size (init_cache m) = 0" "heap (init_cache m) = (\<lambda>_. None)" "mem (init_cache m) = m"
  by (simp_all add: init_cache_def)

theorem add_cache_returns_witness:
  "\<exists>st'. add_cache \<lparr>min_ttl = 120, max_ttl = 604800, neg_ttl_conf = 900, perm_cache = 2048\<rparr> 1000 example_cent (init_cache (\<lambda>n. n < 3)) = Some st' \<and> cache_ok st'"
  using add_cache_returns [OF cache_ok_init example_cent_ok, of "\<lambda>n. n < 3"] example_room(1) by blast

lemma example_absent: "\<exists>loc. dns_lookup (qn (init_cache m)) (buckets (init_cache m)) (ce_qname example_cent) = Some (None, loc)"
proof -
  have n: "name_at (ce_qname example_cent) 0 [[97]]" by (simp add: example_cent_def rd_def lab_ok_def)
  from lookup_spec [OF cache_ok_init [unfolded cache_ok_def] n, of m] show ?thesis
    by (auto simp: init_cache_def content_def entries_def mk_dns_hash_def)
qed

lemma example_fits: "ce_num_rrs example_cent \<noteq> 0 \<or> negative example_cent" "ce_cs example_cent \<le> cache_limit \<lparr>min_ttl = a, max_ttl = b, neg_ttl_conf = c, perm_cache = 2048\<rparr>"
  by (simp_all add: example_cent_def cache_limit_def sizeof_dns_cent_t_def sizeof_rr_set_t_def sizeof_rr_bucket_t_def MCSZ_def)

theorem add_cache_found_witness:
  "\<exists>st' p c loc'. add_cache \<lparr>min_ttl = 120, max_ttl = 604800, neg_ttl_conf = 900, perm_cache = 2048\<rparr> 1000 example_cent (init_cache (\<lambda>_. True)) = Some st' \<and>
    dns_lookup (qn st') (buckets st') [1, 97, 0] = Some (Some p, loc') \<and> heap st' p = Some c \<and>
    (\<exists>x. RRARR_INDEX_TESTEXT c 0 = Some \<lparr>rs_lent = x, rs_ttl = 120, rs_ts = 1000, rs_flags = 0, rs_rrs = [[127, 0, 0, 1]]\<rparr>)"
proof -
  let ?g = "\<lparr>min_ttl = 120, max_ttl = 604800, neg_ttl_conf = 900, perm_cache = 2048\<rparr>" and ?st = "init_cache (\<lambda>_. True)"
  obtain loc where loc: "dns_lookup (qn ?st) (buckets ?st) (ce_qname example_cent) = Some (None, loc)" using example_absent by blast
  have m: "\<forall>k. mem ?st k" "ce_num_rrs example_cent \<noteq> 0 \<or> negative example_cent" "cache_size ?st + ce_cs example_cent \<le> cache_limit ?g"
    using example_fits by (simp_all add: example_room)
  from add_cache_found [OF cache_ok_init example_cent_ok _ loc m, of 1000] example_room(1) obtain st' p c loc' where
    a: "add_cache ?g 1000 example_cent ?st = Some st'" "dns_lookup (qn st') (buckets st') (ce_qname example_cent) = Some (Some p, loc')"
      "heap st' = (heap ?st)(p \<mapsto> c)" "added ?g example_cent c" by blast
  have q: "ce_qname example_cent = [1, 97, 0]" by (simp add: example_cent_def)
  have "RRARR_INDEX_TESTEXT example_cent 0 = Some \<lparr>rs_lent = None, rs_ttl = 60, rs_ts = 1000, rs_flags = 0, rs_rrs = [[127, 0, 0, 1]]\<rparr>"
    by (simp add: example_cent_def RRARR_INDEX_TESTEXT_def negative_def has_def rr_numbers)
  with a(4) obtain x where "RRARR_INDEX_TESTEXT c 0 = Some (stored ?g \<lparr>rs_lent = None, rs_ttl = 60, rs_ts = 1000, rs_flags = 0, rs_rrs = [[127, 0, 0, 1]]\<rparr> x)"
    by (auto simp: added_def NRRTOT_def dest!: spec [of _ 0])
  moreover have "stored ?g \<lparr>rs_lent = None, rs_ttl = 60, rs_ts = 1000, rs_flags = 0, rs_rrs = [[127, 0, 0, 1]]\<rparr> x =
      \<lparr>rs_lent = x, rs_ttl = 120, rs_ts = 1000, rs_flags = 0, rs_rrs = [[127, 0, 0, 1]]\<rparr>"
    by (simp add: stored_def adjust_ttl_def has_def Let_def)
  ultimately show ?thesis using a(1-3) q by auto
qed

lemma example_added:
  "\<exists>st p c. ok_but {} st \<and> insert_sort st \<and> heap st p = Some c \<and> ce_qname c = [1, 97, 0] \<and> (\<forall>k. mem st k)"
proof -
  let ?g = "\<lparr>min_ttl = 120, max_ttl = 604800, neg_ttl_conf = 900, perm_cache = 2048\<rparr>" and ?st = "init_cache (\<lambda>_. True)"
  have n: "name_at (ce_qname example_cent) 0 [[97]]" by (simp add: example_cent_def rd_def lab_ok_def)
  have ok: "ok_but {} ?st" using cache_ok_init by (simp add: cache_ok_def)
  have "content (qn ?st) (buckets ?st) (lower_name [[97]]) = None" by (simp add: init_cache_def content_def entries_def mk_dns_hash_def)
  from add_cache_new [OF ok example_cent_ok _ n this, of ?g 1000] example_fits obtain st1 p c where
    a: "kept_ok ?st st1" "heap st1 = (heap ?st)(p \<mapsto> c)" "added ?g example_cent c" by (auto simp: example_room roomy_def)
  then have "ok_but {} (st1\<lparr>mem := \<lambda>_. True\<rparr>) \<and> insert_sort (st1\<lparr>mem := \<lambda>_. True\<rparr>) \<and> heap (st1\<lparr>mem := \<lambda>_. True\<rparr>) p = Some c \<and>
      ce_qname c = [1, 97, 0] \<and> (\<forall>k. mem (st1\<lparr>mem := \<lambda>_. True\<rparr>) k)"
    by (simp add: kept_ok_def added_def example_cent_def example_room)
  then show ?thesis by blast
qed


end
