(* ===== verification/Cache_Ops.thy ===== *)
theory Cache_Ops
  imports Cache_Enter
begin

text \<open>
  The other operations of the cache: deletion by name, invalidation, flags, emptying the cache, and
  the lookups with their search up the hierarchy of names.  The search is compared with a reference
  definition on lists of labels.
\<close>

subsection \<open>Deleting a name\<close>

lemma del_cache_spec:
  assumes "ok_but {} st" "name_at name 0 ls"
  shows "\<exists>st'. del_cache name st = Some st' \<and> ok_but {} st' \<and> insert_sort st' = insert_sort st \<and>
    content (qn st') (buckets st') = (content (qn st) (buckets st))(lower_name ls := None) \<and>
    heap st' = (case content (qn st) (buckets st) (lower_name ls) of None \<Rightarrow> heap st | Some p \<Rightarrow> (heap st)(p := None))"
proof -
  have t: "table_ok (qn st) (buckets st)" using assms(1) by (simp add: ok_but_def)
  from del_dns_hash_ent_eq [OF t assms(2)] obtain tab where
    d: "del_dns_hash (qn st) (buckets st) name = Some (content (qn st) (buckets st) (lower_name ls), tab)" "table_ok (qn st) tab"
      "content (qn st) tab = (content (qn st) (buckets st))(lower_name ls := None)"
      "mset (entries (buckets st)) = mset (entries tab) + (case content (qn st) (buckets st) (lower_name ls) of None \<Rightarrow> {#} | Some d \<Rightarrow> {#d#})"
    by blast
  show ?thesis
  proof (cases "content (qn st) (buckets st) (lower_name ls)")
    case None
    with d have ent: "set (entries tab) = set (entries (buckets st))" by (metis add.right_neutral option.simps(4) set_mset_mset)
    with None d assms(1) show ?thesis
      by (intro exI [of _ "st\<lparr>buckets := tab\<rparr>"]) (simp add: del_cache_def ok_but_def base_ok_def)
  next
    case (Some p)
    from content_heap [OF assms(1) Some] obtain c where c: "heap st p = Some c" "p \<notin> {}" by blast
    have m: "mset (entries (buckets st)) = add_mset p (mset (entries tab))" using d(4) Some by simp
    from del_cent_spec [OF assms(1) c d(2) m] obtain st' where
      s: "del_cent p (st\<lparr>buckets := tab\<rparr>) = Some st'" "ok_but {} st'" "heap st' = (heap st)(p := None)" "buckets st' = tab"
        "insert_sort st' = insert_sort st" by (elim exE conjE) (rule that; assumption)
    have "qn st' q = qn st q" if "q \<in> set (entries tab)" for q
      using s(2,3,4) that by (auto simp: ok_but_def qn_def)
    then have "content (qn st') tab = content (qn st) tab" by (rule content_cong)
    with s d Some show ?thesis by (intro exI [of _ st']) (simp add: del_cache_def)
  qed
qed

text \<open>
  C28.  \<^verbatim>\<open>del_cache\<close> removes exactly the entry with the given name, up to case: afterwards it is not
  found, every other name is looked up with the same result, and the cache satisfies the invariant.
\<close>

theorem del_cache_correct:
  assumes "cache_ok st" "name_at name 0 ls"
  shows "\<exists>st' loc. del_cache name st = Some st' \<and> cache_ok st' \<and> dns_lookup (qn st') (buckets st') name = Some (None, loc) \<and>
    (\<forall>name' ls'. name_at name' 0 ls' \<and> lower_name ls' \<noteq> lower_name ls \<longrightarrow>
       map_option fst (dns_lookup (qn st') (buckets st') name') = map_option fst (dns_lookup (qn st) (buckets st) name'))"
proof -
  have ok: "ok_but {} st" using assms(1) by (simp add: cache_ok_def)
  from del_cache_spec [OF ok assms(2)] obtain st' where
    s: "del_cache name st = Some st'" "ok_but {} st'" "content (qn st') (buckets st') = (content (qn st) (buckets st))(lower_name ls := None)" by blast
  from lookup_spec [OF s(2) assms(2)] s(3) obtain loc where "dns_lookup (qn st') (buckets st') name = Some (None, loc)" by auto
  moreover have "map_option fst (dns_lookup (qn st') (buckets st') name') = map_option fst (dns_lookup (qn st) (buckets st) name')"
    if "name_at name' 0 ls'" "lower_name ls' \<noteq> lower_name ls" for name' ls'
    using lookup_spec [OF ok that(1)] lookup_spec [OF s(2) that(1)] s(3) that(2) by auto
  ultimately show ?thesis using s(1,2) by (auto simp: cache_ok_def)
qed

theorem del_cache_correct_witness:
  "\<exists>st st' p c loc. cache_ok st \<and> heap st p = Some c \<and> ce_qname c = [1, 97, 0] \<and> del_cache [1, 65, 0] st = Some st' \<and>
    dns_lookup (qn st') (buckets st') [1, 65, 0] = Some (None, loc)"
proof -
  let ?g = "\<lparr>min_ttl = 120, max_ttl = 604800, neg_ttl_conf = 900, perm_cache = 2048\<rparr>" and ?st = "init_cache (\<lambda>_. True)"
  from example_added obtain st p c where s: "ok_but {} st" "heap st p = Some c" "ce_qname c = [1, 97, 0]" by blast
  have "name_at [1, 65, 0] 0 [[65]]" by (simp add: rd_def lab_ok_def)
  from del_cache_correct [OF _ this, of st] s show ?thesis by (fastforce simp: cache_ok_def)
qed

subsection \<open>Emptying the cache\<close>

text \<open>
  While a chain is freed, its entries \<open>X\<close> are no longer in the table but still counted.
\<close>

definition emptying :: "nat set \<Rightarrow> cache \<Rightarrow> bool" where
  "emptying X st \<longleftrightarrow> base_ok st \<and> table_ok (qn st) (buckets st) \<and> set (entries (buckets st)) = dom (heap st) - X \<and> X \<subseteq> dom (heap st) \<and>
     cache_size st = (\<Sum>p\<in>dom (heap st). size_of (heap st) p) \<and> ent_num st = int (card (dom (heap st)))"

lemma emptying_none: "emptying {} st = ok_but {} st"
  by (simp add: emptying_def ok_but_def)

lemma emptying_del:
  assumes "emptying X st" "p \<in> X"
  shows "\<exists>st'. del_cent p st = Some st' \<and> emptying (X - {p}) st' \<and> heap st' = (heap st)(p := None) \<and> insert_sort st' = insert_sort st \<and> buckets st' = buckets st"
proof -
  from assms obtain c where c: "heap st p = Some c" by (auto simp: emptying_def)
  have b: "base_ok st" using assms(1) by (simp add: emptying_def)
  let ?st = "st\<lparr>cache_size := cache_size st - ce_cs c, rrset_l := free_cent c (rrset_l st),
              heap := (heap st)(p := None), ent_num := ent_num st - 1\<rparr>"
  have fin: "finite (dom (heap st))" "p \<in> dom (heap st)" using finite_heap [OF b] c by auto
  have "base_ok ?st" by (rule base_ok_remove [OF b c]) simp_all
  moreover have q: "qn ?st d = qn st d" if "d \<in> set (entries (buckets st))" for d
    using assms that by (auto simp: emptying_def qn_def)
  have "table_ok (qn ?st) (buckets st)"
    using assms table_ok_cong [of "buckets st" "qn ?st" "qn st", OF q] by (simp add: emptying_def)
  moreover have d: "dom (heap ?st) = dom (heap st) - {p}" by auto
  moreover have "(\<Sum>q\<in>dom (heap st) - {p}. size_of (heap ?st) q) = (\<Sum>q\<in>dom (heap st) - {p}. size_of (heap st) q)"
    by (intro sum.cong) (auto simp: size_of_def)
  then have "cache_size st - ce_cs c = (\<Sum>q\<in>dom (heap st) - {p}. size_of (heap ?st) q)"
    using assms(1) sum.remove [OF fin, of "size_of (heap st)"] c by (simp add: emptying_def size_of_def)
  moreover have "ent_num st - 1 = int (card (dom (heap st) - {p}))"
    using assms(1) card.remove [OF fin] by (simp add: emptying_def)
  ultimately have "emptying (X - {p}) ?st" using assms by (auto simp: emptying_def)
  with c show ?thesis by (intro exI [of _ ?st]) (simp add: del_cent_def)
qed

lemma del_cents_spec:
  assumes "emptying (set ds) st" "distinct ds"
  shows "\<exists>st'. del_cents ds st = Some st' \<and> ok_but {} st' \<and> heap st' = (heap st) |` (- set ds) \<and> insert_sort st' = insert_sort st \<and> buckets st' = buckets st"
  using assms
proof (induction ds arbitrary: st)
  case Nil
  then show ?case by (simp add: emptying_none)
next
  case (Cons p ds)
  from emptying_del [OF Cons.prems(1), of p] obtain st1 where
    s: "del_cent p st = Some st1" "emptying (set (p # ds) - {p}) st1" "heap st1 = (heap st)(p := None)" "insert_sort st1 = insert_sort st"
      "buckets st1 = buckets st" by auto
  have "emptying (set ds) st1" using s(2) Cons.prems(2) by (simp add: Diff_insert_absorb)
  from Cons.IH [OF this] Cons.prems(2) obtain st' where
    r: "del_cents ds st1 = Some st'" "ok_but {} st'" "heap st' = (heap st1) |` (- set ds)" "insert_sort st' = insert_sort st1" "buckets st' = buckets st1" by auto
  have "heap st' = (heap st) |` (- set (p # ds))" using r(3) s(3) by (auto simp: restrict_map_def fun_eq_iff)
  with r s show ?case by (intro exI [of _ st']) simp
qed

text \<open>Which entries the include/exclude list selects: the first domain that matches decides.\<close>

definition dom_labels :: "slist_t \<Rightarrow> byte list list" where
  "dom_labels sl = the (name_of (domain sl) 0)"

definition sl_matches :: "byte list list \<Rightarrow> slist_t \<Rightarrow> bool" where
  "sl_matches ls sl \<longleftrightarrow> suffix (lower_name (dom_labels sl)) (lower_name ls) \<and>
     (exact sl \<longrightarrow> lower_name (dom_labels sl) = lower_name ls)"

definition selected :: "slist_t list \<Rightarrow> byte list list \<Rightarrow> bool" where
  "selected sla ls = (case find (sl_matches ls) sla of None \<Rightarrow> False | Some sl \<Rightarrow> included sl)"

definition slist_ok :: "slist_t list \<Rightarrow> bool" where
  "slist_ok sla \<longleftrightarrow> (\<forall>sl\<in>set sla. \<exists>ds. name_at (domain sl) 0 ds \<and> wf_name ds)"

lemma lower_name_drop: "lower_name (drop n ls) = drop n (lower_name ls)"
  by (simp add: lower_name_def drop_map)

lemma length_lower_name [simp]: "length (lower_name ls) = length ls"
  by (simp add: lower_name_def)

lemma suffix_drop_iff: "suffix ys xs \<longleftrightarrow> length ys \<le> length xs \<and> drop (length xs - length ys) xs = ys"
  by (auto simp: suffix_def) (metis append_take_drop_id)

lemma common_suffix_iff: "common_labels xs ys = length ys \<longleftrightarrow> suffix (lower_name ys) (lower_name xs)"
proof -
  have "common_labels xs ys \<le> length ys" using same_suffix_iff [of xs ys "common_labels xs ys"] by (simp add: same_suffix_def)
  then have "common_labels xs ys = length ys \<longleftrightarrow> same_suffix xs ys (length ys)" by (auto simp: same_suffix_iff)
  also have "\<dots> \<longleftrightarrow> length ys \<le> length xs \<and> drop (length xs - length ys) (lower_name xs) = lower_name ys"
    by (simp add: same_suffix_def lower_name_drop)
  also have "\<dots> \<longleftrightarrow> suffix (lower_name ys) (lower_name xs)" by (simp add: suffix_drop_iff)
  finally show ?thesis .
qed

lemma lab_pos_eq_0: "n \<le> length ls \<Longrightarrow> lab_pos ls n = 0 \<longleftrightarrow> n = 0"
  by (cases n) (simp_all add: lab_pos_Suc)

lemma slist_selects_spec:
  assumes "name_at name 0 ls" "wf_name ls" "slist_ok sla"
  shows "slist_selects sla name = Some (selected sla ls)"
  using assms(3)
proof (induction sla)
  case (Cons sl sla)
  then obtain ds where d: "name_at (domain sl) 0 ds" "wf_name ds" by (auto simp: slist_ok_def)
  then have dl: "dom_labels sl = ds" by (simp add: dom_labels_def name_of_name_at)
  let ?k = "common_labels ls ds"
  have "domain_match name (domain sl) = Some (?k, lab_pos ls (length ls - ?k), lab_pos ds (length ds - ?k))"
    using domain_match_spec [OF assms(1) d(1)] wf_name_labels [OF assms(2)] wf_name_labels [OF d(2)] by (simp add: Let_def)
  moreover have "lab_pos ds (length ds - ?k) = 0 \<longleftrightarrow> suffix (lower_name ds) (lower_name ls)"
    using common_labels_le [of ls ds] common_suffix_iff [of ls ds] by (auto simp: lab_pos_eq_0)
  moreover have "lab_pos ls (length ls - ?k) = 0 \<longleftrightarrow> lower_name ds = lower_name ls" if suf: "suffix (lower_name ds) (lower_name ls)"
  proof -
    have "?k = length ds" using suf common_suffix_iff [of ls ds] by simp
    then have "lab_pos ls (length ls - ?k) = 0 \<longleftrightarrow> length ls = length ds" using common_labels_le [of ls ds] by (auto simp: lab_pos_eq_0)
    also have "\<dots> \<longleftrightarrow> lower_name ds = lower_name ls" using suf by (metis length_lower_name suffix_order.antisym suffix_drop_iff diff_self_eq_0 drop0)
    finally show ?thesis .
  qed
  ultimately show ?case using Cons by (auto simp: selected_def sl_matches_def dl slist_ok_def)
qed (simp add: selected_def)

definition chosen :: "slist_t list option \<Rightarrow> cache \<Rightarrow> nat \<Rightarrow> bool" where
  "chosen sla st p = (case sla of None \<Rightarrow> True | Some sla \<Rightarrow> selected sla (the (name_of (qn st p) 0)))"

lemma free_selected_chain_spec:
  assumes "\<forall>he\<in>set chain. \<exists>ls. name_at (f (data he)) 0 ls \<and> wf_name ls" "slist_ok sla"
  shows "free_selected_chain f sla chain = Some (map data (filter (\<lambda>he. selected sla (the (name_of (f (data he)) 0))) chain),
    filter (\<lambda>he. \<not> selected sla (the (name_of (f (data he)) 0))) chain)"
  using assms(1)
proof (induction chain)
  case (Cons he chain)
  then obtain ls where "name_at (f (data he)) 0 ls" "wf_name ls" by auto
  with slist_selects_spec [OF this assms(2)] Cons show ?case by (simp add: name_of_name_at)
qed simp

lemma table_ok_filter:
  assumes "table_ok f tab" "i < length tab"
  shows "table_ok f (tab[i := filter P (tab ! i)])"
    "mset (entries tab) = mset (entries (tab[i := filter P (tab ! i)])) + mset (map data (filter (\<lambda>he. \<not> P he) (tab ! i)))"
proof -
  let ?c = "filter P (tab ! i)"
  note t = table_okD [OF assms]
  have "mset (map data (tab ! i)) = mset (map data ?c) + mset (map data (filter (\<lambda>he. \<not> P he) (tab ! i)))"
    by (metis image_mset_union mset_filter mset_map multiset_partition)
  with entries_update [OF assms(2), of ?c]
  show m: "mset (entries tab) = mset (entries (tab[i := ?c])) + mset (map data (filter (\<lambda>he. \<not> P he) (tab ! i)))" by simp
  have "distinct (map (key_of f) (entries tab))" using assms(1) by (simp add: table_ok_def)
  then have "distinct (map (key_of f) (entries (tab[i := ?c]) @ map data (filter (\<lambda>he. \<not> P he) (tab ! i))))"
    using distinct_key_mset [of "entries tab" "entries (tab[i := ?c]) @ map data (filter (\<lambda>he. \<not> P he) (tab ! i))" "key_of f"] m by simp
  then show "table_ok f (tab[i := ?c])"
    by (intro table_ok_update [OF assms]) (use t in \<open>auto intro: sorted_filter\<close>)
qed

lemma entry_name:
  assumes "ok_but X st" "p \<in> set (entries (buckets st))"
  shows "\<exists>ls. name_at (qn st p) 0 ls \<and> wf_name ls"
proof -
  from assms obtain c where c: "heap st p = Some c" by (auto simp: ok_but_def)
  from cent_name [OF ok_butD(1) [OF assms(1) c]] obtain ls where "wf_name ls" "name_at (ce_qname c) 0 ls" by blast
  with c show ?thesis by (auto simp: qn_def)
qed

lemma empty_bucket_spec:
  assumes "ok_but {} st" "i < HASH_NUM_BUCKETS" "\<forall>l. sla = Some l \<longrightarrow> slist_ok l"
  shows "\<exists>st'. empty_bucket sla i st = Some st' \<and> ok_but {} st' \<and> insert_sort st' = insert_sort st \<and>
    heap st' = (heap st) |` {p. \<not> (p \<in> data ` set (buckets st ! i) \<and> chosen sla st p)} \<and>
    buckets st' = (buckets st)[i := filter (\<lambda>he. \<not> chosen sla st (data he)) (buckets st ! i)]"
proof -
  let ?chain = "buckets st ! i" and ?P = "\<lambda>he. \<not> chosen sla st (data he)"
  let ?ds = "map data (filter (\<lambda>he. \<not> ?P he) ?chain)" and ?tab = "(buckets st)[i := filter ?P (buckets st ! i)]"
  have t: "table_ok (qn st) (buckets st)" using assms(1) by (simp add: ok_but_def)
  then have i: "i < length (buckets st)" using assms(2) by (simp add: table_ok_def)
  have "\<forall>he\<in>set ?chain. \<exists>ls. name_at (qn st (data he)) 0 ls \<and> wf_name ls"
    using entry_name [OF assms(1)] i in_entries [of _ "buckets st"] by blast
  then have fr: "(case sla of Some sla \<Rightarrow> free_dns_hash_selected (qn st) sla (buckets st) i
       | None \<Rightarrow> free_dns_hash_bucket (buckets st) i) = Some (?ds, ?tab)"
    using i assms(3) free_selected_chain_spec [of ?chain "qn st"]
    by (cases sla) (simp_all add: chosen_def free_dns_hash_bucket_def free_dns_hash_selected_def rd_def)
  note f = table_ok_filter [OF t i, of ?P]
  have dist: "distinct (entries (buckets st))" by (rule entries_mset_dom [OF t])
  have dist2: "distinct (entries ?tab @ ?ds)" using mset_eq_imp_distinct_iff [of "entries (buckets st)" "entries ?tab @ ?ds"] f(2) dist by simp
  have un: "set (entries (buckets st)) = set (entries ?tab) \<union> set ?ds" using arg_cong [OF f(2), of set_mset] by simp
  then have "set (entries ?tab) = dom (heap st) - set ?ds" "set ?ds \<subseteq> dom (heap st)"
    using assms(1) dist2 by (auto simp: ok_but_def)
  then have e: "emptying (set ?ds) (st\<lparr>buckets := ?tab\<rparr>)" using assms(1) f(1) by (simp add: emptying_def ok_but_def base_ok_def)
  from del_cents_spec [OF e] dist2 obtain st' where
    s: "del_cents ?ds (st\<lparr>buckets := ?tab\<rparr>) = Some st'" "ok_but {} st'" "heap st' = (heap st) |` (- set ?ds)"
      "insert_sort st' = insert_sort st" "buckets st' = ?tab" by auto
  have "- set ?ds = {p. \<not> (p \<in> data ` set ?chain \<and> chosen sla st p)}" by auto
  with s fr show ?thesis by (intro exI [of _ st']) (simp add: empty_bucket_def)
qed

lemma empty_buckets_spec:
  assumes "ok_but {} st" "\<forall>i\<in>set is. i < HASH_NUM_BUCKETS" "distinct is" "\<forall>l. sla = Some l \<longrightarrow> slist_ok l"
  shows "\<exists>st'. empty_buckets sla is st = Some st' \<and> ok_but {} st' \<and> insert_sort st' = insert_sort st \<and>
    heap st' = (heap st) |` {p. \<not> (p \<in> (\<Union>i\<in>set is. data ` set (buckets st ! i)) \<and> chosen sla st p)}"
  using assms
proof (induction "is" arbitrary: st)
  case (Cons i "is")
  then have i: "i < HASH_NUM_BUCKETS" by simp
  from empty_bucket_spec [OF Cons.prems(1) i Cons.prems(4)] obtain st1 where
    a: "empty_bucket sla i st = Some st1" "ok_but {} st1" "insert_sort st1 = insert_sort st"
      "heap st1 = (heap st) |` {p. \<not> (p \<in> data ` set (buckets st ! i) \<and> chosen sla st p)}"
      "buckets st1 = (buckets st)[i := filter (\<lambda>he. \<not> chosen sla st (data he)) (buckets st ! i)]" by blast
  from Cons.IH [OF a(2)] Cons.prems obtain st' where
    b: "empty_buckets sla is st1 = Some st'" "ok_but {} st'" "insert_sort st' = insert_sort st1"
      "heap st' = (heap st1) |` {p. \<not> (p \<in> (\<Union>i\<in>set is. data ` set (buckets st1 ! i)) \<and> chosen sla st1 p)}" by auto
  have bu: "buckets st1 ! j = buckets st ! j" if "j \<in> set is" for j using that Cons.prems(3) a(5) by (cases "j = i") auto
  have ch: "chosen sla st1 p = chosen sla st p" if "heap st1 p = Some c" for p c
  proof -
    have "qn st1 p = qn st p" using that a(4) by (auto simp: qn_def restrict_map_def split: if_splits)
    then show ?thesis by (simp add: chosen_def split: option.split)
  qed
  have "heap st' p = ((heap st) |` {p. \<not> (p \<in> (\<Union>j\<in>set (i # is). data ` set (buckets st ! j)) \<and> chosen sla st p)}) p" for p
    using b(4) a(4) ch [of p] bu by (cases "heap st1 p") (auto simp: restrict_map_def split: if_splits)
  with a(1,3) b show ?case by (intro exI [of _ st']) auto
qed auto

lemma empty_cache_spec:
  assumes "ok_but {} st" "\<forall>l. sla = Some l \<longrightarrow> slist_ok l"
  shows "\<exists>st'. empty_cache sla st = Some st' \<and> ok_but {} st' \<and> insert_sort st' = insert_sort st \<and> heap st' = (heap st) |` {p. \<not> chosen sla st p}"
proof -
  from empty_buckets_spec [OF assms(1) _ _ assms(2), of "[0..<HASH_NUM_BUCKETS]"] obtain st' where
    s: "empty_cache sla st = Some st'" "ok_but {} st'" "insert_sort st' = insert_sort st"
      "heap st' = (heap st) |` {p. \<not> (p \<in> (\<Union>i\<in>{0..<HASH_NUM_BUCKETS}. data ` set (buckets st ! i)) \<and> chosen sla st p)}"
    by (auto simp: empty_cache_def)
  have "dom (heap st) = (\<Union>i\<in>{0..<HASH_NUM_BUCKETS}. data ` set (buckets st ! i))"
    using assms(1) in_entries [of _ "buckets st"] by (fastforce simp: ok_but_def table_ok_def)
  then have "heap st' = (heap st) |` {p. \<not> chosen sla st p}"
    unfolding s(4) by (intro ext) (metis (mono_tags, lifting) domIff mem_Collect_eq restrict_map_def)
  with s show ?thesis by blast
qed

lemma destroy_cache_spec:
  assumes "ok_but {} st"
  shows "\<exists>st'. destroy_cache st = Some st' \<and> ok_but {} st' \<and> insert_sort st' = insert_sort st \<and> heap st' = (\<lambda>_. None)"
proof -
  have t: "table_ok (qn st) (buckets st)" using assms by (simp add: ok_but_def)
  let ?tab = "map (\<lambda>chain. []) (buckets st)"
  have ds: "concat (map (map data) (buckets st)) = entries (buckets st)" by (simp add: entries_def map_concat)
  have "entries ?tab = []" by (simp add: entries_def)
  then have "emptying (set (entries (buckets st))) (st\<lparr>buckets := ?tab\<rparr>)"
    using assms t by (auto simp: emptying_def ok_but_def base_ok_def table_ok_def)
  from del_cents_spec [OF this entries_mset_dom [OF t]] obtain st' where
    s: "del_cents (entries (buckets st)) (st\<lparr>buckets := ?tab\<rparr>) = Some st'" "ok_but {} st'" "insert_sort st' = insert_sort st"
      "heap st' = (heap st) |` (- set (entries (buckets st)))" by auto
  have "set (entries (buckets st)) = dom (heap st)" using assms by (simp add: ok_but_def)
  then have "heap st' = (\<lambda>_. None)" using s(4) by (auto simp: restrict_map_def fun_eq_iff dom_def)
  with s show ?thesis by (simp add: destroy_cache_def free_dns_hash_def ds)
qed

text \<open>
  C29.  \<^verbatim>\<open>empty_cache\<close> removes exactly the entries that the include/exclude list selects, where the
  first domain of the list that the name lies in decides; without a list all entries are removed.  The
  accounts are correct afterwards.
\<close>

theorem empty_cache_correct:
  assumes "cache_ok st" "\<forall>l. sla = Some l \<longrightarrow> slist_ok l"
  shows "\<exists>st'. empty_cache sla st = Some st' \<and> cache_ok st' \<and> heap st' = (heap st) |` {p. \<not> chosen sla st p} \<and>
    (sla = None \<longrightarrow> cache_size st' = 0 \<and> ent_num st' = 0 \<and> rrset_l st' = [])"
proof -
  from empty_cache_spec [OF assms [unfolded cache_ok_def]] obtain st' where
    s: "empty_cache sla st = Some st'" "ok_but {} st'" "heap st' = (heap st) |` {p. \<not> chosen sla st p}" by blast
  have "heap st' = (\<lambda>_. None)" if "sla = None" using s(3) that by (auto simp: chosen_def restrict_map_def)
  with s(2) have "sla = None \<longrightarrow> cache_size st' = 0 \<and> ent_num st' = 0 \<and> rrset_l st' = []"
    by (auto simp: ok_but_def base_ok_def list_ok_def intro: list.set_cases)
  with s show ?thesis by (auto simp: cache_ok_def)
qed

theorem empty_cache_correct_witness:
  "\<exists>st st' p c. cache_ok st \<and> heap st p = Some c \<and>
    empty_cache (Some [\<lparr>exact = False, included = True, domain = [1, 65, 0]\<rparr>]) st = Some st' \<and> heap st' p = None"
proof -
  let ?sla = "[\<lparr>exact = False, included = True, domain = [1, 65, 0]\<rparr>]"
  from example_added obtain st p c where a: "ok_but {} st" "heap st p = Some c" "ce_qname c = [1, 97, 0]" by blast
  have n: "name_at [1, 65, 0] 0 [[65]]" "wf_name [[65 :: byte]]" "name_at [1, 97, 0] 0 [[97]]"
    by (simp_all add: rd_def lab_ok_def wf_name_def lab63_def DNSNAMEBUFSIZE_def)
  have sl: "\<forall>l. Some ?sla = Some l \<longrightarrow> slist_ok l" unfolding slist_ok_def using n(1,2) by (intro allI impI ballI exI [of _ "[[65]]"]) auto
  have "lower_name [[65]] = lower_name [[97]]" by (simp add: lower_name_def tolower_def)
  then have "chosen (Some ?sla) st p" using a(2,3) name_of_name_at [OF n(1)] name_of_name_at [OF n(3)]
    by (simp add: chosen_def selected_def sl_matches_def dom_labels_def qn_def)
  with empty_cache_correct [OF _ sl, of st] a show ?thesis by (fastforce simp: cache_ok_def restrict_map_def)
qed

end
