(* ===== verification/Cache_Lookup.thy ===== *)
theory Cache_Lookup
  imports Cache_Ops
begin

text \<open>
  The lookups of the cache.  The search up the hierarchy of names is compared with a definition by
  recursion on the labels; the copy that \<^verbatim>\<open>lookup_cache\<close> returns has only sets that are still valid.
\<close>

subsection \<open>The search up the hierarchy\<close>

definition entry :: "cache \<Rightarrow> byte list list \<Rightarrow> nat option" where
  "entry st ls = content (qn st) (buckets st) (lower_name ls)"

primrec wild_above :: "cache \<Rightarrow> byte list list \<Rightarrow> nat option \<times> wild" where
  "wild_above st [] = (None, w_none)"
| "wild_above st (l # ls) = (case entry st (l # ls) of
       None \<Rightarrow> wild_above st ls
     | Some p \<Rightarrow> (case heap st p of
         None \<Rightarrow> (None, w_none)
       | Some ce \<Rightarrow>
           if negative ce then (Some p, w_neg)
           else if has (ce_flags ce) DF_WILD then (entry st ([42] # l # ls), if entry st ([42] # l # ls) = None then w_none else w_wild)
           else if has (ce_flags ce) DF_LOCAL then (Some p, w_locnerr)
           else (None, w_none)))"

definition cent_ref :: "cache \<Rightarrow> byte list list \<Rightarrow> bool \<Rightarrow> nat option \<times> wild" where
  "cent_ref st ls wild = (if wild \<and> entry st ls = None then wild_above st (tl ls) else (entry st ls, w_none))"

primrec owner_above :: "cache \<Rightarrow> nat \<Rightarrow> byte list list \<Rightarrow> byte list list option" where
  "owner_above st tp [] = None"
| "owner_above st tp (l # ls) = (case entry st (l # ls) of
       None \<Rightarrow> owner_above st tp ls
     | Some p \<Rightarrow> (case heap st p of
         None \<Rightarrow> None
       | Some ce \<Rightarrow>
           if \<not> has (ce_flags ce) DF_LOCAL then None
           else if have_rr ce tp then Some (l # ls) else owner_above st tp ls))"

lemma lookup_entry: "ok_but X st \<Longrightarrow> name_at name 0 ls \<Longrightarrow> \<exists>loc. dns_lookup (qn st) (buckets st) name = Some (entry st ls, loc)"
  using lookup_spec [of X st name ls] by (auto simp: entry_def)

lemma entry_heap: "ok_but X st \<Longrightarrow> entry st ls = Some p \<Longrightarrow> \<exists>c. heap st p = Some c \<and> p \<notin> X"
  using content_heap [of X st "lower_name ls" p] by (simp add: entry_def)

lemma name_at_prefix_take: "name_at b p ls \<Longrightarrow> take (length (enc ls)) (drop p b) = enc ls"
  by (auto simp: name_at_prefix prefix_def)

lemma lookup_wild_spec:
  assumes "ok_but {} st" "name_at name nm ls" "length (enc ls) \<le> DNSNAMEBUFSIZE - 2"
  shows "lookup_wild name nm st = Some (wild_above st ls)"
  using assms(2,3)
proof (induction ls arbitrary: nm)
  case Nil
  then show ?case by (simp add: lookup_wild.simps)
next
  case (Cons l ls)
  have nx: "name_at name (nm + unat (of_nat (length l) :: byte) + 1) ls" "rd name nm = Some (of_nat (length l))" "(of_nat (length l) :: byte) \<noteq> 0"
    using Cons.prems(1) by (auto simp: lab_ok_def)
  have ih: "lookup_wild name (nm + unat (of_nat (length l) :: byte) + 1) st = Some (wild_above st ls)"
    by (rule Cons.IH [OF nx(1)]) (use Cons.prems(2) in simp)
  have dr: "name_at (drop nm name) 0 (l # ls)" by (rule name_at_drop [OF Cons.prems(1)])
  from lookup_entry [OF assms(1) dr] obtain loc where lk: "dns_lookup (qn st) (buckets st) (drop nm name) = Some (entry st (l # ls), loc)" by blast
  show ?case
  proof (cases "entry st (l # ls)")
    case None
    with nx lk ih show ?thesis by (simp add: lookup_wild.simps [of name nm])
  next
    case (Some p)
    from entry_heap [OF assms(1) Some] obtain ce where ce: "heap st p = Some ce" by blast
    have len: "rhnlen (drop nm name) = Some (length (enc (l # ls)))" using rhnlen_at_name [OF dr] by (simp add: rhnlen_def)
    have star: "1 # 42 # take (length (enc (l # ls))) (drop nm name) = enc ([42] # l # ls)"
      using name_at_prefix_take [OF dr] by simp
    have "list_all lab_ok ([42] # l # ls)" using dr by (simp add: name_at_prefix) (simp add: lab_ok_def)
    from name_at_enc [OF this, of "[]"] have "name_at (enc ([42] # l # ls)) 0 ([42] # l # ls)" by simp
    from lookup_entry [OF assms(1) this] obtain loc' where
      lw: "dns_lookup (qn st) (buckets st) (enc ([42] # l # ls)) = Some (entry st ([42] # l # ls), loc')" by blast
    show ?thesis using Some ce nx lk ih len lw Cons.prems(2) unfolding lookup_wild.simps [of name nm] star [symmetric]
      by (simp add: star)
  qed
qed

lemma wf_tail:
  assumes "wf_name ls" "name_at name 0 ls" "ls = l # ls'"
  shows "name_at name (unat (of_nat (length l) :: byte) + 1) ls'" "length (enc ls') \<le> DNSNAMEBUFSIZE - 2"
    "rd name 0 = Some (of_nat (length l))" "(of_nat (length l) :: byte) \<noteq> 0"
proof -
  have "lab63 l" using assms(1,3) by (simp add: wf_name_def)
  then show "length (enc ls') \<le> DNSNAMEBUFSIZE - 2" using assms(1,3) by (cases l) (auto simp: wf_name_def lab63_def)
qed (use assms(2,3) in \<open>auto simp: lab_ok_def\<close>)

lemma lookup_cent_spec:
  assumes "ok_but {} st" "name_at name 0 ls" "wf_name ls"
  shows "lookup_cent name wild st = Some (cent_ref st ls wild)"
proof -
  from lookup_entry [OF assms(1,2)] obtain loc where lk: "dns_lookup (qn st) (buckets st) name = Some (entry st ls, loc)" by blast
  show ?thesis
  proof (cases ls)
    case Nil
    with assms(2) lk show ?thesis by (simp add: lookup_cent_def cent_ref_def)
  next
    case (Cons l ls')
    note t = wf_tail [OF assms(3,2) Cons]
    from lookup_wild_spec [OF assms(1) t(1,2)] t(3,4) lk Cons show ?thesis by (simp add: lookup_cent_def cent_ref_def)
  qed
qed

lemma cent_ref_heap: "ok_but {} st \<Longrightarrow> fst (cent_ref st ls wild) = Some p \<Longrightarrow> \<exists>c. heap st p = Some c"
proof -
  assume ok: "ok_but {} st"
  have "\<exists>c. heap st p = Some c" if "fst (wild_above st xs) = Some p" for xs
    using that entry_heap [OF ok] by (induction xs) (auto split: option.splits if_splits)
  moreover assume "fst (cent_ref st ls wild) = Some p"
  ultimately show ?thesis using entry_heap [OF ok, of ls p] by (auto simp: cent_ref_def split: if_splits)
qed

lemma getlocalowner_loop_spec:
  assumes "ok_but {} st" "name_at name nm ls"
  shows "getlocalowner_loop name nm tp st = Some (map_option (\<lambda>ls'. nm + (length (enc ls) - length (enc ls'))) (owner_above st tp ls)) \<and>
    (\<forall>ls'. owner_above st tp ls = Some ls' \<longrightarrow> length (enc ls') \<le> length (enc ls) \<and> ls' \<noteq> [] \<and> suffix ls' ls)"
  using assms(2)
proof (induction ls arbitrary: nm)
  case Nil
  then show ?case by (simp add: getlocalowner_loop.simps)
next
  case (Cons l ls)
  have nx: "name_at name (nm + unat (of_nat (length l) :: byte) + 1) ls" "rd name nm = Some (of_nat (length l))" "(of_nat (length l) :: byte) \<noteq> 0"
    "unat (of_nat (length l) :: byte) = length l" using Cons.prems by (auto simp: lab_ok_def)
  note ih = Cons.IH [OF nx(1)]
  have up: "map_option (\<lambda>ls'. nm + unat (of_nat (length l) :: byte) + 1 + (length (enc ls) - length (enc ls'))) (owner_above st tp ls) =
      map_option (\<lambda>ls'. nm + (length (enc (l # ls)) - length (enc ls'))) (owner_above st tp ls)"
    using ih nx(4) by (cases "owner_above st tp ls") auto
  have le: "\<forall>ls'. owner_above st tp ls = Some ls' \<longrightarrow> length (enc ls') \<le> Suc (length l + length (enc ls))" using ih by fastforce
  from lookup_entry [OF assms(1) name_at_drop [OF Cons.prems]] obtain loc where
    lk: "dns_lookup (qn st) (buckets st) (drop nm name) = Some (entry st (l # ls), loc)" by blast
  show ?case
  proof (cases "entry st (l # ls)")
    case None
    with nx lk ih up le show ?thesis by (simp add: getlocalowner_loop.simps [of name nm] suffix_ConsI)
  next
    case (Some p)
    from entry_heap [OF assms(1) Some] obtain ce where ce: "heap st p = Some ce" by blast
    with Some nx lk ih up le show ?thesis by (simp add: getlocalowner_loop.simps [of name nm] suffix_ConsI)
  qed
qed

lemma getlocalowner_spec:
  assumes "cache_ok st" "name_at name 0 ls" "wf_name ls"
  shows "\<exists>r. getlocalowner name tp st = Some r \<and>
    (case owner_above st tp (tl ls) of None \<Rightarrow> r = None
     | Some ls' \<Rightarrow> \<exists>k. r = Some k \<and> name_at name k ls' \<and> suffix ls' (tl ls))"
proof (cases ls)
  case Nil
  with assms(2) show ?thesis by (simp add: getlocalowner_def)
next
  case (Cons l ls1)
  have ok: "ok_but {} st" using assms(1) by (simp add: cache_ok_def)
  note t = wf_tail [OF assms(3,2) Cons]
  note g = getlocalowner_loop_spec [OF ok t(1), of tp]
  have r: "getlocalowner name tp st = getlocalowner_loop name (unat (of_nat (length l) :: byte) + 1) tp st"
    using t(3,4) by (simp add: getlocalowner_def)
  show ?thesis
  proof (cases "owner_above st tp ls1")
    case None
    with g Cons show ?thesis unfolding r by simp
  next
    case (Some ls')
    with g have s: "suffix ls' ls1" "length (enc ls') \<le> length (enc ls1)" by auto
    then obtain zs where zs: "ls1 = zs @ ls'" by (auto simp: suffix_def)
    then have "length (enc ls1) - length (enc ls') = length (enc zs) - 1" by (simp add: enc_encl encl_append)
    with name_at_append [of name _ zs ls'] t(1) zs have
      "name_at name (unat (of_nat (length l) :: byte) + 1 + (length (enc ls1) - length (enc ls'))) ls'"
      by (metis Nat.add_diff_assoc length_enc_gt_0 One_nat_def Suc_leI)
    with g Some Cons s show ?thesis unfolding r by simp
  qed
qed

text \<open>
  C30.  \<^verbatim>\<open>getlocalowner\<close> finds the closest ancestor with a record of the given type, going up only as
  long as the entries it meets belong to the local configuration: it returns the position in the name
  of the labels that the reference definition gives.
\<close>

theorem getlocalowner_correct:
  assumes "cache_ok st" "name_at name 0 ls" "wf_name ls"
  shows "\<exists>r. getlocalowner name tp st = Some r \<and>
    (case owner_above st tp (tl ls) of None \<Rightarrow> r = None
     | Some ls' \<Rightarrow> \<exists>k. r = Some k \<and> name_at name k ls' \<and> suffix ls' (tl ls))"
  by (rule getlocalowner_spec [OF assms])

theorem getlocalowner_correct_witness:
  "\<exists>st r. cache_ok st \<and> getlocalowner [1, 98, 1, 97, 0] T_SOA st = Some r"
proof -
  have n: "name_at [1, 98, 1, 97, 0] 0 [[98], [97]]" "wf_name [[98 :: byte], [97]]"
    by (simp_all add: rd_def lab_ok_def wf_name_def lab63_def DNSNAMEBUFSIZE_def)
  from example_added obtain st where "ok_but {} st" by blast
  with getlocalowner_correct [OF _ n, of st T_SOA] show ?thesis by (auto simp: cache_ok_def)
qed

subsection \<open>Lookup\<close>

text \<open>The valid part of an entry, as the copy handed out has it.\<close>

definition fresh_copy :: "int \<Rightarrow> dns_cent_t \<Rightarrow> dns_cent_t \<Rightarrow> bool" where
  "fresh_copy now c copy \<longleftrightarrow> cent_ok copy \<and> ce_qname copy = ce_qname c \<and> negative copy = negative c \<and>
     (\<forall>j<NRRTOT. RRARR_INDEX_TESTEXT copy j =
        (if gone now c j then None else map_option (rs_lent_update (\<lambda>_. None)) (RRARR_INDEX_TESTEXT c j)))"

lemma fresh_copy_strip:
  assumes "cent_ok c'" "purged now test c c'" "test \<longrightarrow> (\<forall>j<NRRTOT. \<not> gone now c j)"
  shows "fresh_copy now c (strip_cent c')"
  using strip_cent_ok [OF assms(1)] strip_index [OF assms(1)] assms(2,3)
  by (auto simp: fresh_copy_def purged_def same_core_def)

lemma lookup_cache_spec:
  assumes "ok_but {} st" "name_at name 0 ls" "wf_name ls"
  shows "\<exists>res st'. lookup_cache now name wild st = Some (res, snd (cent_ref st ls wild), st') \<and> ok_but {} st' \<and>
    insert_sort st' = insert_sort st \<and> locals st \<subseteq> locals st' \<and>
    (case fst (cent_ref st ls wild) of None \<Rightarrow> res = None
     | Some p \<Rightarrow> (\<exists>c. heap st p = Some c \<and> (\<forall>copy. res = Some copy \<longrightarrow> fresh_copy now c copy) \<and>
         (res = None \<longrightarrow> dies now c \<or> (\<exists>n. \<not> mem st n))))"
proof -
  obtain r w where rw: "cent_ref st ls wild = (r, w)" by force
  note lk = lookup_cent_spec [OF assms, of wild, unfolded rw]
  show ?thesis
  proof (cases r)
    case None
    with rw lk assms(1) show ?thesis
      by (intro exI [of _ None] exI [of _ "st\<lparr>mem := mem st\<rparr>"]) (simp add: lookup_cache_def lookup_cache_r_def)
  next
    case (Some p)
    from cent_ref_heap [OF assms(1), of ls wild p] rw Some obtain c where c: "heap st p = Some c" by auto
    have np: "p \<notin> {}" by simp
    note ok = ok_butD(1) [OF assms(1) c]
    from purge_cent_spec [OF assms(1) np c, of now True True] obtain n where
      t: "purge_cent now p True True st = Some (n, st)"
        "if dies now c then n = -1 else 0 \<le> n \<and> (n = 0 \<longrightarrow> (\<forall>j<NRRTOT. \<not> gone now c j))" by (auto split: if_splits)
    show ?thesis
    proof (cases "n = 0")
      case True
      with t(2) have ng: "\<forall>j<NRRTOT. \<not> gone now c j" by (auto split: if_splits)
      from copy_cent_spec [OF ok, of "mem st"] obtain res m where
        cp: "copy_cent (mem st) c = Some (res, m)" "res = Some (strip_cent c) \<or> res = None \<and> (\<exists>n. \<not> mem st n)" by blast
      have "lookup_cache now name wild st = Some (res, w, st\<lparr>mem := m\<rparr>)"
        using lk Some t(1) True c cp(1) by (simp add: lookup_cache_def lookup_cache_r_def)
      moreover have "fresh_copy now c (strip_cent c)"
        by (rule fresh_copy_strip [OF ok, where test = True]) (use ng in \<open>simp_all add: purged_def\<close>)
      ultimately show ?thesis using rw Some c cp(2) assms(1)
        by (intro exI [of _ res] exI [of _ "st\<lparr>mem := m\<rparr>"]) (auto simp: locals_def)
    next
      case False
      from purge_cent_spec [OF assms(1) np c, of now True False] obtain n2 st2 where
        u: "purge_cent now p True False st = Some (n2, st2)" "ok_but {} st2" "mem st2 = mem st" "insert_sort st2 = insert_sort st"
          "if True \<and> dies now c then n2 = -1 \<and> (\<not> False \<longrightarrow> heap st2 = (heap st)(p := None))
           else 0 \<le> n2 \<and> (\<exists>c'. heap st2 = (heap st)(p \<mapsto> c') \<and> purged now False c c') \<and> (n2 = 0 \<longrightarrow> (\<forall>j<NRRTOT. \<not> gone now c j))"
        by (elim exE conjE) (rule that; assumption)
      note loc = purge_cent_locals [OF assms(1) np c u(1)]
      have run: "lookup_cache now name wild st = (if n2 < 0 then Some (None, w, st2) else do {
           c \<leftarrow> heap st2 p; (r, m) \<leftarrow> copy_cent (mem st2) c; Some (r, w, st2\<lparr>mem := m\<rparr>) })"
        using lk Some t(1) False u(1) by (simp add: lookup_cache_def lookup_cache_r_def lookup_cache_rw_def)
      show ?thesis
      proof (cases "dies now c")
        case True
        with u(5) have "n2 < 0" by simp
        with True u(2,4) rw Some c loc run show ?thesis by (intro exI [of _ None] exI [of _ st2]) simp
      next
        case nd: False
        with u(5) have "0 \<le> n2 \<and> (\<exists>c'. heap st2 = (heap st)(p \<mapsto> c') \<and> purged now False c c')" by simp
        then obtain c' where c': "heap st2 p = Some c'" "purged now False c c'" "0 \<le> n2" by (elim exE conjE) simp
        note ok' = ok_butD(1) [OF u(2) c'(1)]
        from copy_cent_spec [OF ok', of "mem st2"] obtain res m where
          cp: "copy_cent (mem st2) c' = Some (res, m)" "res = Some (strip_cent c') \<or> res = None \<and> (\<exists>n. \<not> mem st n)" unfolding u(3) by blast
        have "fresh_copy now c (strip_cent c')" by (rule fresh_copy_strip [OF ok' c'(2)]) simp
        with rw Some c c'(1,3) cp u(2,4) loc run show ?thesis
          by (intro exI [of _ res] exI [of _ "st2\<lparr>mem := m\<rparr>"]) (auto simp: locals_def)
      qed
    qed
  qed
qed

text \<open>
  C6.  \<^verbatim>\<open>lookup_cache\<close> returns a copy of the entry with the given name, or, when wildcards are allowed,
  of the entry that the reference definition of the search up the hierarchy selects.  The copy has
  exactly the sets of the entry that have not timed out or are protected from purging.  No copy is
  returned only if there is no such entry, nothing valid is left in it, or memory runs out.  Local sets
  stay in the cache, which satisfies the invariant afterwards.
\<close>

theorem lookup_cache_correct:
  assumes "cache_ok st" "name_at name 0 ls" "wf_name ls"
  shows "\<exists>res st'. lookup_cache now name wild st = Some (res, snd (cent_ref st ls wild), st') \<and> cache_ok st' \<and> locals st \<subseteq> locals st' \<and>
    (case fst (cent_ref st ls wild) of None \<Rightarrow> res = None
     | Some p \<Rightarrow> (\<exists>c. heap st p = Some c \<and> (\<forall>copy. res = Some copy \<longrightarrow> fresh_copy now c copy) \<and>
         (res = None \<longrightarrow> dies now c \<or> (\<exists>n. \<not> mem st n))))"
  using lookup_cache_spec [OF assms [unfolded cache_ok_def], of now wild] unfolding cache_ok_def by blast

theorem lookup_cache_correct_witness:
  "\<exists>st p c res st'. cache_ok st \<and> heap st p = Some c \<and> lookup_cache 0 [1, 65, 0] False st = Some (res, w_none, st') \<and>
     (res = None \<longrightarrow> dies 0 c \<or> (\<exists>n. \<not> mem st n)) \<and> (\<forall>copy. res = Some copy \<longrightarrow> ce_qname copy = [1, 97, 0])"
proof -
  have n: "name_at [1, 65, 0] 0 [[65]]" "wf_name [[65 :: byte]]" "name_at [1, 97, 0] 0 [[97]]"
    by (simp_all add: rd_def lab_ok_def wf_name_def lab63_def DNSNAMEBUFSIZE_def)
  from example_added obtain st p c where s: "ok_but {} st" "heap st p = Some c" "ce_qname c = [1, 97, 0]" by blast
  have "lower_name [[65]] = lower_name [[97]]" by (simp add: lower_name_def tolower_def)
  moreover have "name_at (ce_qname c) 0 [[97]]" using s(3) n(3) by simp
  ultimately have "cent_ref st [[65]] False = (Some p, w_none)"
    using content_self [OF s(1,2), of "[[97]]"] by (simp add: cent_ref_def entry_def)
  with lookup_cache_correct [OF _ n(1,2), of st 0 False] s(1,2) obtain res st' where
    "lookup_cache 0 [1, 65, 0] False st = Some (res, w_none, st')" "\<forall>copy. res = Some copy \<longrightarrow> fresh_copy 0 c copy"
      "res = None \<longrightarrow> dies 0 c \<or> (\<exists>n. \<not> mem st n)" by (auto simp: cache_ok_def)
  with s show ?thesis by (intro exI [of _ st] exI [of _ p] exI [of _ c] exI [of _ res] exI [of _ st']) (auto simp: cache_ok_def fresh_copy_def)
qed

subsection \<open>Invalidation and flags\<close>

lemma invalidate_loop_spec:
  assumes "cent_ok c" "\<forall>i\<in>set is. i < RRARR_LEN c" "distinct is"
  shows "cent_ok (invalidate_loop is c) \<and> links (invalidate_loop is c) = links c \<and> ce_qname (invalidate_loop is c) = ce_qname c \<and>
    ce_cs (invalidate_loop is c) = ce_cs c \<and> negative (invalidate_loop is c) = negative c \<and>
    (\<forall>j<NRRTOT. RRARR_INDEX_TESTEXT (invalidate_loop is c) j =
       (if j \<in> set is then map_option invalidate_rrset (RRARR_INDEX_TESTEXT c j) else RRARR_INDEX_TESTEXT c j))"
  using assms
proof (induction "is" arbitrary: c)
  case (Cons i "is")
  have i: "i < NRRTOT" "RRARR_INDEX c i = RRARR_INDEX_TESTEXT c i"
    using Cons.prems(2) RRARR_LEN_negative [of i c] RRARR_INDEX_eq [of c i] by auto
  show ?case
  proof (cases "RRARR_INDEX_TESTEXT c i")
    case None
    with Cons i show ?thesis by auto
  next
    case (Some s)
    let ?c = "put_rrset c i (Some (invalidate_rrset s))"
    have rs: "rs_lent (invalidate_rrset s) = rs_lent s" "rs_rrs (invalidate_rrset s) = rs_rrs s" by (simp_all add: invalidate_rrset_def)
    note a = cent_ok_put_same [OF Cons.prems(1) Some i(1) rs(2)] links_put_same [OF Cons.prems(1) Some i(1) rs(1)]
    have ix: "RRARR_INDEX_TESTEXT ?c j = (if j = i then Some (invalidate_rrset s) else RRARR_INDEX_TESTEXT c j)" if "j < NRRTOT" for j
      using index_put_rrset [OF _ index_slots(1) [OF Cons.prems(1) Some i(1)] that] Cons.prems(1) by (simp add: cent_ok_def)
    have "RRARR_LEN ?c = RRARR_LEN c" by (simp add: RRARR_LEN_def)
    then have "\<forall>k\<in>set is. k < RRARR_LEN ?c" using Cons.prems(2) by simp
    with Cons.IH [OF a(1)] Cons.prems(3) a Some i ix show ?thesis by auto
  qed
qed simp

lemma invalidate_cent_spec:
  assumes "cent_ok c"
  shows "cent_ok (invalidate_cent c)" "links (invalidate_cent c) = links c" "ce_qname (invalidate_cent c) = ce_qname c"
    "ce_cs (invalidate_cent c) = ce_cs c" "negative (invalidate_cent c) = negative c"
    "\<forall>j<NRRTOT. RRARR_INDEX_TESTEXT (invalidate_cent c) j = map_option invalidate_rrset (RRARR_INDEX_TESTEXT c j)"
    "negative c \<longrightarrow> neg_ts (invalidate_cent c) = 0"
proof -
  let ?c = "if negative c then c\<lparr>neg_ts := 0\<rparr> else invalidate_loop [0..<RRARR_LEN c] c"
  have inv: "invalidate_cent c = ?c\<lparr>ce_flags := ce_flags ?c AND NOT DF_AUTH\<rparr>" by (simp add: invalidate_cent_def Let_def)
  have l: "\<forall>i\<in>set [0..<RRARR_LEN c]. i < RRARR_LEN c" by simp
  note lp = invalidate_loop_spec [OF assms l distinct_upt]
  have neg: "negative ?c = negative c" using lp by (simp add: negative_def)
  have n2: "negative (?c\<lparr>ce_flags := ce_flags ?c AND NOT DF_AUTH\<rparr>) = negative ?c" by (rule negative_keep_auth)
  show "negative (invalidate_cent c) = negative c" using inv n2 neg by simp
  have ok: "cent_ok ?c" "links ?c = links c" "ce_qname ?c = ce_qname c" "ce_cs ?c = ce_cs c"
  proof -
    have "links (c\<lparr>neg_ts := 0\<rparr>) = links c" if "negative c"
      by (rule links_cong) (use that in \<open>simp_all add: lent_at_negative negative_def\<close>)
    moreover have "cent_ok (c\<lparr>neg_ts := 0\<rparr>)" using assms by (simp add: cent_ok_def cent_shape_def cent_size_def num_sets_def slots_def negative_def)
    ultimately show "cent_ok ?c" "links ?c = links c" "ce_qname ?c = ce_qname c" "ce_cs ?c = ce_cs c" using lp by simp_all
  qed
  show "cent_ok (invalidate_cent c)" unfolding inv cent_ok_flags [OF n2] by (rule ok)
  have ix: "RRARR_INDEX_TESTEXT (invalidate_cent c) j = RRARR_INDEX_TESTEXT ?c j" for j
    unfolding inv using n2 by (simp add: RRARR_INDEX_TESTEXT_def)
  show "links (invalidate_cent c) = links c"
    using links_index [of "invalidate_cent c" ?c] ix n2 ok(2) by (simp add: inv)
  show "ce_qname (invalidate_cent c) = ce_qname c" "ce_cs (invalidate_cent c) = ce_cs c" using ok by (simp_all add: inv)
  show "\<forall>j<NRRTOT. RRARR_INDEX_TESTEXT (invalidate_cent c) j = map_option invalidate_rrset (RRARR_INDEX_TESTEXT c j)"
  proof (cases "negative c")
    case True
    with ix n2 neg show ?thesis by (simp add: RRARR_INDEX_TESTEXT_def negative_def)
  next
    case False
    have "RRARR_INDEX_TESTEXT c j = None" if "j < NRRTOT" "\<not> j < RRARR_LEN c" for j
      using that assms by (simp add: cent_ok_def RRARR_INDEX_TESTEXT_slots slots_length)
    with lp ix False show ?thesis by auto
  qed
  show "negative c \<longrightarrow> neg_ts (invalidate_cent c) = 0" by (simp add: inv)
qed

lemma invalidate_record_spec:
  assumes "ok_but {} st" "name_at name 0 ls"
  shows "\<exists>st'. invalidate_record name st = Some st' \<and> ok_but {} st' \<and> insert_sort st' = insert_sort st \<and>
    heap st' = (case entry st ls of None \<Rightarrow> heap st | Some p \<Rightarrow> (heap st)(p \<mapsto> invalidate_cent (the (heap st p)))) \<and>
    (\<forall>ls. entry st' ls = entry st ls)"
proof -
  from lookup_entry [OF assms] obtain loc where lk: "dns_lookup (qn st) (buckets st) name = Some (entry st ls, loc)" by blast
  show ?thesis
  proof (cases "entry st ls")
    case None
    with lk assms(1) show ?thesis by (simp add: invalidate_record_def)
  next
    case (Some p)
    from entry_heap [OF assms(1) Some] obtain c where c: "heap st p = Some c" by blast
    note i = invalidate_cent_spec [OF ok_butD(1) [OF assms(1) c]]
    have "ok_but {} (upd_cent p (invalidate_cent c) st)" by (rule ok_but_same [OF assms(1) c i(1,3,2,4)])
    moreover have "qn (upd_cent p (invalidate_cent c) st) = qn st" by (rule qn_upd [OF c i(3)]) simp
    ultimately show ?thesis using Some c lk
      by (intro exI [of _ "upd_cent p (invalidate_cent c) st"]) (simp add: invalidate_record_def entry_def)
  qed
qed

lemma or_flags_ok:
  assumes "\<not> has fl DF_NEGATIVE" "c' = c\<lparr>ce_flags := ce_flags c OR fl\<rparr>"
  shows "cent_ok c' = cent_ok c" "links c' = links c" "ce_qname c' = ce_qname c" "ce_cs c' = ce_cs c" "negative c' = negative c"
proof -
  show neg: "negative c' = negative c" using assms by (simp add: negative_def has_simps)
  then show "cent_ok c' = cent_ok c" unfolding assms(2) by (rule cent_ok_flags)
  have "RRARR_INDEX_TESTEXT c' j = RRARR_INDEX_TESTEXT c j" for j using neg assms(2) by (simp add: RRARR_INDEX_TESTEXT_def)
  then show "links c' = links c" using neg assms(2) by (intro links_index) simp_all
qed (simp_all add: assms(2))

lemma set_cent_flags_spec:
  assumes "ok_but {} st" "name_at name 0 ls" "\<not> has fl DF_NEGATIVE"
  shows "\<exists>st'. set_cent_flags name fl st = Some (entry st ls \<noteq> None, st') \<and> ok_but {} st' \<and> insert_sort st' = insert_sort st \<and>
    heap st' = (case entry st ls of None \<Rightarrow> heap st | Some p \<Rightarrow> (heap st)(p \<mapsto> (the (heap st p))\<lparr>ce_flags := ce_flags (the (heap st p)) OR fl\<rparr>))"
proof -
  from lookup_entry [OF assms(1,2)] obtain loc where lk: "dns_lookup (qn st) (buckets st) name = Some (entry st ls, loc)" by blast
  show ?thesis
  proof (cases "entry st ls")
    case None
    with lk assms(1) show ?thesis by (simp add: set_cent_flags_def)
  next
    case (Some p)
    from entry_heap [OF assms(1) Some] obtain c where c: "heap st p = Some c" by blast
    let ?c = "c\<lparr>ce_flags := ce_flags c OR fl\<rparr>"
    note o = or_flags_ok [OF assms(3), of ?c c, OF refl]
    have "cent_ok ?c" using o(1) ok_butD(1) [OF assms(1) c] by simp
    then have "ok_but {} (upd_cent p ?c st)" by (rule ok_but_same [OF assms(1) c _ o(3,2,4)])
    with Some c lk show ?thesis by (intro exI [of _ "upd_cent p ?c st"]) (simp add: set_cent_flags_def)
  qed
qed

lemma lookup_local_spec:
  assumes "ok_but {} st" "name_at name 0 ls" "\<not> PDNSD_NOT_CACHED_TYPE type"
  shows "\<exists>r st'. lookup_cache_local_rrset name type st = Some (r, st') \<and> ok_but {} st' \<and> insert_sort st' = insert_sort st \<and> heap st' = heap st \<and>
    (\<forall>s. r = Some s \<longrightarrow> (\<exists>p c s'. entry st ls = Some p \<and> heap st p = Some c \<and> getrrset c type = Some s' \<and>
       has (rs_flags s') CF_LOCAL \<and> s = s'\<lparr>rs_lent := None\<rparr>))"
proof -
  from lookup_entry [OF assms(1,2)] obtain loc where lk: "dns_lookup (qn st) (buckets st) name = Some (entry st ls, loc)" by blast
  show ?thesis
  proof (cases "entry st ls")
    case None
    with lk assms(1) show ?thesis by (simp add: lookup_cache_local_rrset_def)
  next
    case (Some p)
    from entry_heap [OF assms(1) Some] obtain c where c: "heap st p = Some c" by blast
    show ?thesis
    proof (cases "getrrset c type")
      case None
      with Some c lk assms(1) show ?thesis by (simp add: lookup_cache_local_rrset_def)
    next
      case s: (Some s)
      obtain r m where r: "copy_rrset (mem st) s = (r, m)" by force
      with Some c lk assms(1) s copy_rrset_spec [OF r] show ?thesis by (auto simp: lookup_cache_local_rrset_def)
    qed
  qed
qed

text \<open>Exactly what \<^verbatim>\<open>invalidate_record\<close> does to an entry.\<close>

lemma invalidate_loop_only: "\<exists>a b. invalidate_loop is c = c\<lparr>rrmu := a, rrext := b\<rparr> \<and> length a = length (rrmu c) \<and>
    map_option length b = map_option length (rrext c)"
proof (induction "is" arbitrary: c)
  case Nil
  show ?case by (intro exI [of _ "rrmu c"] exI [of _ "rrext c"]) simp
next
  case (Cons i "is")
  have "\<exists>a b. (case RRARR_INDEX c i of None \<Rightarrow> c | Some s \<Rightarrow> put_rrset c i (Some (invalidate_rrset s))) = c\<lparr>rrmu := a, rrext := b\<rparr> \<and>
      length a = length (rrmu c) \<and> map_option length b = map_option length (rrext c)"
  proof (cases "RRARR_INDEX c i")
    case None
    then show ?thesis by (intro exI [of _ "rrmu c"] exI [of _ "rrext c"]) simp
  next
    case (Some s)
    let ?c = "put_rrset c i (Some (invalidate_rrset s))"
    have "?c = c\<lparr>rrmu := rrmu ?c, rrext := rrext ?c\<rparr>" "length (rrmu ?c) = length (rrmu c)" "map_option length (rrext ?c) = map_option length (rrext c)"
      by (simp_all add: put_rrset_def option.map_comp comp_def)
    with Some show ?thesis by (intro exI [of _ "rrmu ?c"] exI [of _ "rrext ?c"]) simp
  qed
  then obtain a b where 1: "(case RRARR_INDEX c i of None \<Rightarrow> c | Some s \<Rightarrow> put_rrset c i (Some (invalidate_rrset s))) = c\<lparr>rrmu := a, rrext := b\<rparr>"
    "length a = length (rrmu c)" "map_option length b = map_option length (rrext c)" by blast
  from Cons.IH [of "c\<lparr>rrmu := a, rrext := b\<rparr>"] 1 show ?case by auto
qed

definition renewed :: "dns_cent_t \<Rightarrow> dns_cent_t" where
  "renewed c = (let old = map_option (\<lambda>s. s\<lparr>rs_ts := 0, rs_flags := rs_flags s AND NOT CF_AUTH\<rparr>) in
     if negative c then c\<lparr>neg_ts := 0, ce_flags := ce_flags c AND NOT DF_AUTH\<rparr>
     else c\<lparr>rrmu := map old (rrmu c), rrext := map_option (map old) (rrext c), ce_flags := ce_flags c AND NOT DF_AUTH\<rparr>)"

lemma invalidate_cent_renewed:
  assumes "cent_ok c"
  shows "invalidate_cent c = renewed c"
proof (cases "negative c")
  case True
  then show ?thesis by (simp add: invalidate_cent_def renewed_def Let_def)
next
  case False
  let ?c = "invalidate_loop [0..<RRARR_LEN c] c" and ?old = "map_option invalidate_rrset"
  have inv: "invalidate_rrset = (\<lambda>s. s\<lparr>rs_ts := 0, rs_flags := rs_flags s AND NOT CF_AUTH\<rparr>)" by (simp add: invalidate_rrset_def fun_eq_iff)
  from invalidate_loop_only [of "[0..<RRARR_LEN c]" c] obtain a b where
    ab: "?c = c\<lparr>rrmu := a, rrext := b\<rparr>" "length a = length (rrmu c)" "map_option length b = map_option length (rrext c)" by blast
  then have only: "length (rrmu ?c) = length (rrmu c)" "map_option length (rrext ?c) = map_option length (rrext c)"
    "?c = c\<lparr>rrmu := rrmu ?c, rrext := rrext ?c\<rparr>" by simp_all
  from assms False have len: "length (rrmu c) = NRRMU" "\<And>x. rrext c = Some x \<Longrightarrow> length x = NRREXT" by (auto simp: cent_ok_def cent_shape_def)
  have neg: "negative ?c = negative c" using invalidate_loop_spec [OF assms _ distinct_upt, of 0 "RRARR_LEN c"] by simp
  have ix: "RRARR_INDEX_TESTEXT ?c j = ?old (RRARR_INDEX_TESTEXT c j)" if "j < NRRTOT" for j
    using invalidate_loop_spec [OF assms _ distinct_upt, of 0 "RRARR_LEN c"] that False
    by (auto simp: RRARR_INDEX_TESTEXT_def RRARR_LEN_def rr_numbers split: option.split)
  have mu: "rrmu ?c = map ?old (rrmu c)"
  proof (rule nth_equalityI)
    fix j assume "j < length (rrmu ?c)"
    with only len ix [of j] neg False show "rrmu ?c ! j = map ?old (rrmu c) ! j" by (simp add: RRARR_INDEX_TESTEXT_def rr_numbers)
  qed (use only in simp)
  have ext: "rrext ?c = map_option (map ?old) (rrext c)"
  proof (cases "rrext c")
    case None
    with only show ?thesis by simp
  next
    case (Some x)
    with only obtain y where y: "rrext ?c = Some y" "length y = length x" by auto
    have "y = map ?old x"
    proof (rule nth_equalityI)
      fix j assume "j < length y"
      with y len(2) [OF Some] ix [of "NRRMU + j"] neg False Some show "y ! j = map ?old x ! j" by (simp add: RRARR_INDEX_TESTEXT_def rr_numbers)
    qed (use y in simp)
    with y Some show ?thesis by simp
  qed
  have "?c = c\<lparr>rrmu := map ?old (rrmu c), rrext := map_option (map ?old) (rrext c)\<rparr>" using only mu ext by metis
  with False show ?thesis by (simp add: invalidate_cent_def renewed_def Let_def inv)
qed

text \<open>
  C31.  \<^verbatim>\<open>invalidate_record\<close> changes only the entry with the name, if there is one: the time stamp of each of its sets
  becomes 0 and the set is no longer authoritative, or the time stamp of an entry that is negative becomes 0, and the
  entry is no longer authoritative.  Nothing else of the entry or of the cache changes.
\<close>

theorem invalidate_record_correct:
  assumes "cache_ok st" "name_at name 0 ls"
  shows "case entry st ls of None \<Rightarrow> invalidate_record name st = Some st
    | Some p \<Rightarrow> \<exists>c. heap st p = Some c \<and> invalidate_record name st = Some (st\<lparr>heap := (heap st)(p \<mapsto> renewed c)\<rparr>) \<and>
        cache_ok (st\<lparr>heap := (heap st)(p \<mapsto> renewed c)\<rparr>)"
proof -
  have ok: "ok_but {} st" using assms(1) by (simp add: cache_ok_def)
  from lookup_entry [OF ok assms(2)] obtain loc where lk: "dns_lookup (qn st) (buckets st) name = Some (entry st ls, loc)" by blast
  show ?thesis
  proof (cases "entry st ls")
    case None
    with lk show ?thesis by (simp add: invalidate_record_def)
  next
    case (Some p)
    from entry_heap [OF ok Some] obtain c where c: "heap st p = Some c" by blast
    from invalidate_cent_renewed [OF ok_butD(1) [OF ok c]] Some c lk invalidate_record_spec [OF ok assms(2)] show ?thesis
      by (auto simp: invalidate_record_def cache_ok_def)
  qed
qed

theorem invalidate_record_correct_witness:
  "\<exists>st p c. cache_ok st \<and> heap st p = Some c \<and> entry st [[97]] = Some p \<and>
     invalidate_record [1, 65, 0] st = Some (st\<lparr>heap := (heap st)(p \<mapsto> renewed c)\<rparr>)"
proof -
  from example_added obtain st p c where s: "ok_but {} st" "heap st p = Some c" "ce_qname c = [1, 97, 0]" by blast
  have n: "name_at (ce_qname c) 0 [[97]]" by (simp add: s(3) rd_def lab_ok_def)
  have l: "lower_name [[65]] = lower_name [[97 :: byte]]" by code_simp
  from content_self [OF s(1,2) _ n] l have e: "entry st [[97]] = Some p" "entry st [[65]] = Some p" by (simp_all add: entry_def)
  have "name_at [1, 65, 0] 0 [[65]]" by (simp add: rd_def lab_ok_def)
  from invalidate_record_correct [OF _ this, of st] s e show ?thesis by (auto simp: cache_ok_def)
qed

end
