(* ===== verification/Cache_System.thy ===== *)
theory Cache_System
  imports Cache_Lookup
begin

text \<open>
  The cache as a transition system: any sequence of the operations that other parts of the program
  call, starting from the empty cache, with memory running out at any point.
\<close>

datatype cache_op =
    Op_add cache_conf int dns_cent_t
  | Op_del "byte list"
  | Op_invalidate "byte list"
  | Op_flags "byte list" "16 word"
  | Op_lookup int "byte list" bool
  | Op_local "byte list" nat
  | Op_purge int int bool
  | Op_empty "slist_t list option"
  | Op_destroy

fun run_op :: "cache_op \<Rightarrow> cache \<Rightarrow> cache option" where
  "run_op (Op_add g now cent) st = add_cache g now cent st"
| "run_op (Op_del name) st = del_cache name st"
| "run_op (Op_invalidate name) st = invalidate_record name st"
| "run_op (Op_flags name fl) st = map_option snd (set_cent_flags name fl st)"
| "run_op (Op_lookup now name wild) st = map_option (\<lambda>r. snd (snd r)) (lookup_cache now name wild st)"
| "run_op (Op_local name type) st = map_option snd (lookup_cache_local_rrset name type st)"
| "run_op (Op_purge now sz lazy) st = purge_cache now sz lazy st"
| "run_op (Op_empty sla) st = empty_cache sla st"
| "run_op Op_destroy st = destroy_cache st"

text \<open>
  What the callers ensure: names are well formed, entries are ones that the operations on entries
  built, and the flag of negative entries is not set from outside.
\<close>

definition good_name :: "byte list \<Rightarrow> bool" where
  "good_name name \<longleftrightarrow> (\<exists>ls. name_at name 0 ls \<and> wf_name ls)"

fun op_ok :: "cache_op \<Rightarrow> bool" where
  "op_ok (Op_add g now cent) = cent_ok cent"
| "op_ok (Op_del name) = good_name name"
| "op_ok (Op_invalidate name) = good_name name"
| "op_ok (Op_flags name fl) = (good_name name \<and> \<not> has fl DF_NEGATIVE)"
| "op_ok (Op_lookup now name wild) = good_name name"
| "op_ok (Op_local name type) = (good_name name \<and> \<not> PDNSD_NOT_CACHED_TYPE type)"
| "op_ok (Op_purge now sz lazy) = True"
| "op_ok (Op_empty sla) = (\<forall>l. sla = Some l \<longrightarrow> slist_ok l)"
| "op_ok Op_destroy = True"

inductive cache_step :: "cache \<Rightarrow> cache \<Rightarrow> bool" where
  op: "op_ok x \<Longrightarrow> run_op x st = Some st' \<Longrightarrow> cache_step st st'"
| memory: "cache_step st (st\<lparr>mem := m\<rparr>)"

inductive reachable :: "cache \<Rightarrow> bool" where
  start: "reachable (init_cache m)"
| step: "reachable st \<Longrightarrow> cache_step st st' \<Longrightarrow> reachable st'"

inductive_cases cache_stepE: "cache_step st st'"

lemma good_nameE:
  assumes "good_name name"
  obtains ls where "name_at name 0 ls" "wf_name ls"
  using assms by (auto simp: good_name_def)

lemma run_op_ok:
  assumes "ok_but {} st" "insert_sort st" "op_ok x"
  shows "\<exists>st'. run_op x st = Some st' \<and> ok_but {} st' \<and> insert_sort st'"
proof (cases x)
  case (Op_add g now cent)
  with assms add_cache_spec [OF assms(1), of cent g now] show ?thesis by (auto simp: roomy_def)
next
  case (Op_del name)
  then obtain ls where "name_at name 0 ls" using assms(3) by (auto elim: good_nameE)
  from del_cache_spec [OF assms(1) this] Op_del assms(2) show ?thesis by auto
next
  case (Op_invalidate name)
  then obtain ls where "name_at name 0 ls" using assms(3) by (auto elim: good_nameE)
  from invalidate_record_spec [OF assms(1) this] Op_invalidate assms(2) show ?thesis by auto
next
  case (Op_flags name fl)
  then obtain ls where "name_at name 0 ls" "\<not> has fl DF_NEGATIVE" using assms(3) by (auto elim: good_nameE)
  from set_cent_flags_spec [OF assms(1) this] Op_flags assms(2) show ?thesis by auto
next
  case (Op_lookup now name wild)
  then obtain ls where "name_at name 0 ls" "wf_name ls" using assms(3) by (auto elim: good_nameE)
  from lookup_cache_spec [OF assms(1) this, of now wild] Op_lookup assms(2) show ?thesis by auto
next
  case (Op_local name type)
  then obtain ls where "name_at name 0 ls" "\<not> PDNSD_NOT_CACHED_TYPE type" using assms(3) by (auto elim: good_nameE)
  from lookup_local_spec [OF assms(1) this] Op_local assms(2) show ?thesis by auto
next
  case (Op_purge now sz lazy)
  with purge_cache_spec [OF assms(1), of now sz lazy] assms(2) show ?thesis by (auto simp: room_def)
next
  case (Op_empty sla)
  with empty_cache_spec [OF assms(1), of sla] assms(2,3) show ?thesis by auto
next
  case Op_destroy
  with destroy_cache_spec [OF assms(1)] assms(2) show ?thesis by auto
qed

text \<open>
  C5.  In every cache that a sequence of operations reaches, with allocations failing at any point,
  the table, the list of sets and the accounts agree: \<^verbatim>\<open>cache_size\<close> is the number of bytes that the
  entries occupy and \<^verbatim>\<open>ent_num\<close> their number.  Every further operation returns: none of them follows a
  pointer to freed memory, leaves an array or loops for ever.
\<close>

theorem cache_never_stuck:
  assumes "reachable st" "op_ok x"
  shows "cache_ok st \<and> (\<exists>st'. run_op x st = Some st' \<and> cache_ok st')"
proof -
  have "ok_but {} st \<and> insert_sort st" using assms(1)
  proof (induction rule: reachable.induct)
    case (start m)
    then show ?case using cache_ok_init [of m] by (simp add: cache_ok_def init_cache_def)
  next
    case (step st st')
    from step.hyps(2) step.IH run_op_ok [of st] show ?case by (elim cache_stepE) fastforce+
  qed
  with run_op_ok [of st x] assms(2) show ?thesis by (auto simp: cache_ok_def)
qed

theorem cache_never_stuck_witness:
  "\<exists>st'. run_op (Op_lookup 1000 [1, 97, 0] True) (init_cache (\<lambda>_. True)) = Some st' \<and> cache_ok st'"
proof -
  have "name_at [1, 97, 0] 0 [[97]]" "wf_name [[97 :: byte]]"
    by (simp_all add: rd_def lab_ok_def wf_name_def lab63_def DNSNAMEBUFSIZE_def)
  then have "op_ok (Op_lookup 1000 [1, 97, 0] True)" unfolding op_ok.simps good_name_def by blast
  from cache_never_stuck [OF reachable.start this] show ?thesis by blast
qed

end
