(* ===== verification/Disk.thy ===== *)
theory Disk
  imports Cache_System
begin

text \<open>
  The cache on disk: \<^verbatim>\<open>write_disk_cache\<close> and \<^verbatim>\<open>read_disk_cache\<close> of \<^verbatim>\<open>cache.c\<close>.  A file is the list of its
  bytes.  Integers are stored in the host's representation, here little-endian with 64 bits for
  \<^verbatim>\<open>time_t\<close> and \<^verbatim>\<open>unsigned long\<close>; the structs are packed.  Writing can fail at any point: a file being
  written has room for a number of bytes.
\<close>

subsection \<open>Integers and structs in a file\<close>

primrec le_bytes :: "nat \<Rightarrow> nat \<Rightarrow> byte list" where
  "le_bytes 0 x = []"
| "le_bytes (Suc n) x = of_nat x # le_bytes n (x div 256)"

primrec le_nat :: "byte list \<Rightarrow> nat" where
  "le_nat [] = 0"
| "le_nat (b # bs) = unat b + 256 * le_nat bs"

definition put_time :: "int \<Rightarrow> byte list" where
  "put_time t = le_bytes 8 (nat (t mod 2 ^ 64))"

definition get_time :: "byte list \<Rightarrow> int" where
  "get_time bs = (let n = int (le_nat bs) in if n < 2 ^ 63 then n else n - 2 ^ 64)"

record rr_fset_t =
  fs_tp :: byte
  fs_num_rr :: byte
  fs_flags :: "16 word"
  fs_ttl :: int
  fs_ts :: int

record dns_file_t =
  fe_qlen :: byte
  fe_num_rrs :: byte
  fe_flags :: "16 word"
  fe_c_ns :: byte
  fe_c_soa :: byte

definition put_fset :: "rr_fset_t \<Rightarrow> byte list" where
  "put_fset s = fs_tp s # fs_num_rr s # le_bytes 2 (unat (fs_flags s)) @ put_time (fs_ttl s) @ put_time (fs_ts s)"

definition get_fset :: "byte list \<Rightarrow> rr_fset_t" where
  "get_fset bs = \<lparr>fs_tp = bs ! 0, fs_num_rr = bs ! 1, fs_flags = of_nat (le_nat (take 2 (drop 2 bs))),
     fs_ttl = get_time (take 8 (drop 4 bs)), fs_ts = get_time (take 8 (drop 12 bs))\<rparr>"

definition put_file :: "dns_file_t \<Rightarrow> byte list" where
  "put_file e = fe_qlen e # fe_num_rrs e # le_bytes 2 (unat (fe_flags e)) @ [fe_c_ns e, fe_c_soa e]"

definition get_file :: "byte list \<Rightarrow> dns_file_t" where
  "get_file bs = \<lparr>fe_qlen = bs ! 0, fe_num_rrs = bs ! 1, fe_flags = of_nat (le_nat (take 2 (drop 2 bs))),
     fe_c_ns = bs ! 4, fe_c_soa = bs ! 5\<rparr>"

definition cachverid :: "byte list" where
  "cachverid = [112, 100, 49, 51]"

subsection \<open>Writing\<close>

type_synonym wfile = "nat \<times> byte list"

definition fwrite :: "byte list \<Rightarrow> wfile \<Rightarrow> bool \<times> wfile" where
  "fwrite bs w = (if length bs \<le> fst w then (True, fst w - length bs, snd w @ bs) else (False, w))"

primrec write_rrs :: "byte list list \<Rightarrow> wfile \<Rightarrow> bool \<times> wfile" where
  "write_rrs [] w = (True, w)"
| "write_rrs (rr # rrs) w =
     (let rdlen = (of_nat (length rr) :: 16 word); (ok, w) = fwrite (le_bytes 2 (unat rdlen)) w in
      if \<not> ok then (False, w)
      else let (ok, w) = (if rdlen \<noteq> 0 then fwrite (take (unat rdlen) rr) w else (True, w)) in
        if \<not> ok then (False, w) else write_rrs rrs w)"

definition write_rrset :: "nat \<Rightarrow> rr_set_t \<Rightarrow> wfile \<Rightarrow> bool \<times> wfile" where
  "write_rrset tp rrs w =
     (let num_rr = min 255 (length (rs_rrs rrs));
          sh = \<lparr>fs_tp = of_nat tp, fs_num_rr = of_nat num_rr, fs_flags = rs_flags rrs, fs_ttl = rs_ttl rrs, fs_ts = rs_ts rrs\<rparr>;
          (ok, w) = fwrite (put_fset sh) w in
      if \<not> ok then (False, w) else write_rrs (take num_rr (rs_rrs rrs)) w)"

primrec write_rrsets :: "dns_cent_t \<Rightarrow> nat list \<Rightarrow> wfile \<Rightarrow> bool \<times> wfile" where
  "write_rrsets c [] w = (True, w)"
| "write_rrsets c (tp # tps) w =
     (case getrrset_eff c tp of
        None \<Rightarrow> write_rrsets c tps w
      | Some s \<Rightarrow>
          if has (rs_flags s) CF_LOCAL then write_rrsets c tps w
          else let (ok, w) = write_rrset tp s w in if \<not> ok then (False, w) else write_rrsets c tps w)"

text \<open>Whether an entry has anything to be written.\<close>

definition to_write :: "dns_cent_t \<Rightarrow> bool" where
  "to_write c = (if negative c then \<not> has (ce_flags c) DF_LOCAL
     else list_ex (\<lambda>j. case RRARR_INDEX c j of None \<Rightarrow> False | Some s \<Rightarrow> \<not> has (rs_flags s) CF_LOCAL) [0..<RRARR_LEN c])"

definition num_to_write :: "dns_cent_t \<Rightarrow> nat" where
  "num_to_write c = length (filter (\<lambda>j. case RRARR_INDEX c j of None \<Rightarrow> False | Some s \<Rightarrow> \<not> has (rs_flags s) CF_LOCAL) [0..<RRARR_LEN c])"

definition write_cent :: "dns_cent_t \<Rightarrow> wfile \<Rightarrow> (bool \<times> wfile) option" where
  "write_cent c w = do {
     n \<leftarrow> rhnlen (ce_qname c);
     let qlen = (of_nat (n - 1) :: byte);
     let df = \<lparr>fe_qlen = qlen, fe_num_rrs = of_nat (num_to_write c), fe_flags = ce_flags c, fe_c_ns = c_ns c, fe_c_soa = c_soa c\<rparr>;
     let (ok, w) = fwrite (put_file df) w;
     if \<not> ok then Some (False, w)
     else
       let (ok, w) = (if negative c then fwrite (put_time (neg_ttl c) @ put_time (neg_ts c)) w else (True, w)) in
       if \<not> ok then Some (False, w)
       else
         let (ok, w) = (if qlen \<noteq> 0 then fwrite (take (unat qlen) (ce_qname c)) w else (True, w)) in
         if \<not> ok then Some (False, w)
         else Some (write_rrsets c (take (NRRITERLIST c) (RRITERLIST c)) w) }"

primrec write_cents :: "dns_cent_t list \<Rightarrow> wfile \<Rightarrow> (bool \<times> wfile) option" where
  "write_cents [] w = Some (True, w)"
| "write_cents (c # cs) w =
     (if to_write c then do {
        (ok, w) \<leftarrow> write_cent c w;
        if \<not> ok then Some (False, w) else write_cents cs w }
      else write_cents cs w)"

text \<open>
  \<^verbatim>\<open>write_disk_cache\<close>: \<open>locks\<close> tells whether the locks are obtained and the file can be opened, \<open>space\<close>
  how much can be written.  The result is the cache, which is first purged to its size on disk, and
  the file, if it was opened.
\<close>

definition write_disk_cache :: "cache_conf \<Rightarrow> int \<Rightarrow> bool \<times> bool \<times> bool \<Rightarrow> nat \<Rightarrow> cache \<Rightarrow> (cache \<times> byte list option) option" where
  "write_disk_cache g now locks space st = (let (lk_rw, lk_r, opened) = locks in
     if \<not> lk_rw then Some (st, None)
     else do {
       st \<leftarrow> purge_cache now (perm_cache g * 1024) False st;
       if \<not> lk_r then Some (st, None)
       else if \<not> opened then Some (st, None)
       else
         let (ok, w) = fwrite cachverid (space, []) in
         if \<not> ok then Some (st, Some (snd w))
         else do {
           cs \<leftarrow> those (map (heap st) (fetch_all (buckets st)));
           let en = length (filter to_write cs);
           let (ok, w) = fwrite (le_bytes 8 en) w;
           if \<not> ok then Some (st, Some (snd w))
           else do {
             (ok, w) \<leftarrow> write_cents cs w;
             Some (st, Some (snd w)) } } })"

subsection \<open>Reading\<close>

definition fread :: "nat \<Rightarrow> byte list \<Rightarrow> (byte list \<times> byte list) option" where
  "fread n f = (if n \<le> length f then Some (take n f, drop n f) else None)"

text \<open>How reading goes on: with a result, with the end of the file's treatment, or with the end of the program.\<close>

datatype 'a outcome = Done 'a | Stop alloc | Exit alloc

text \<open>The loop that validates a name of the given length.\<close>

function check_name :: "byte list \<Rightarrow> nat \<Rightarrow> nat \<Rightarrow> bool option" where
  "check_name nb qlen i = (if i < qlen then do {
     lb \<leftarrow> rd nb i;
     if lb = 0 \<or> lb > 63 \<or> i + (unat lb + 1) > qlen then Some False
     else check_name nb qlen (i + (unat lb + 1)) } else Some True)"
  by pat_completeness auto
termination by (relation "measure (\<lambda>(nb, qlen, i). qlen - i)") auto

declare check_name.simps [simp del]

text \<open>
  The records of a set; \<open>dtsz\<close> is the size of the buffer for their data, which grows when needed.
\<close>

primrec read_rrs :: "nat \<Rightarrow> rr_fset_t \<Rightarrow> nat \<Rightarrow> dns_cent_t \<Rightarrow> alloc \<Rightarrow> byte list \<Rightarrow> (nat \<times> dns_cent_t \<times> alloc \<times> byte list) outcome option" where
  "read_rrs 0 sh dtsz ce m f = Some (Done (dtsz, ce, m, f))"
| "read_rrs (Suc n) sh dtsz ce m f = (case fread 2 f of None \<Rightarrow> Some (Stop m)
     | Some (b, f) \<Rightarrow>
         let rdlen = le_nat b;
             (ok, m, dtsz) = (if rdlen > dtsz then let (ok, m) = malloc m in (ok, m, rdlen) else (True, m, dtsz)) in
         if \<not> ok then Some (Exit m)
         else (case (if rdlen = 0 then Some ([], f) else fread rdlen f) of None \<Rightarrow> Some (Stop m)
           | Some (dat, f) \<Rightarrow> do {
               (ok, ce, rrl, m) \<leftarrow> add_cent_rr m [] ce (unat (fs_tp sh)) (fs_ttl sh) (fs_ts sh) (fs_flags sh) dat;
               if \<not> ok then Some (Exit m) else read_rrs n sh dtsz ce m f }))"

primrec read_rrsets :: "nat \<Rightarrow> byte \<Rightarrow> nat \<Rightarrow> dns_cent_t \<Rightarrow> alloc \<Rightarrow> byte list \<Rightarrow> (nat \<times> dns_cent_t \<times> alloc \<times> byte list) outcome option" where
  "read_rrsets 0 prevtp dtsz ce m f = Some (Done (dtsz, ce, m, f))"
| "read_rrsets (Suc n) prevtp dtsz ce m f = (case fread 20 f of None \<Rightarrow> Some (Stop m)
     | Some (b, f) \<Rightarrow>
         let sh = get_fset b in
         if PDNSD_NOT_CACHED_TYPE (unat (fs_tp sh)) then Some (Stop m)
         else if fs_tp sh \<le> prevtp then Some (Stop m)
         else do {
           (ok, ce, rrl, m) \<leftarrow> add_cent_rrset_by_type m [] ce (unat (fs_tp sh)) (fs_ttl sh) (fs_ts sh) (fs_flags sh);
           if \<not> ok then Some (Exit m)
           else do {
             r \<leftarrow> read_rrs (unat (fs_num_rr sh)) sh dtsz ce m f;
             case r of Stop m \<Rightarrow> Some (Stop m) | Exit m \<Rightarrow> Some (Exit m)
             | Done (dtsz, ce, m, f) \<Rightarrow> read_rrsets n (fs_tp sh) dtsz ce m f } })"

definition read_cent :: "nat \<Rightarrow> alloc \<Rightarrow> byte list \<Rightarrow> (nat \<times> dns_cent_t \<times> alloc \<times> byte list) outcome option" where
  "read_cent dtsz m f = (case fread 6 f of None \<Rightarrow> Some (Stop m)
     | Some (b, f) \<Rightarrow>
         let fe = get_file b in
         (case (if has (fe_flags fe) DF_NEGATIVE then fread 16 f else Some (replicate 16 0, f)) of None \<Rightarrow> Some (Stop m)
          | Some (t, f) \<Rightarrow>
              (case (if fe_qlen fe \<noteq> 0 then fread (unat (fe_qlen fe)) f else Some ([], f)) of None \<Rightarrow> Some (Stop m)
               | Some (nb, f) \<Rightarrow> do {
                   valid \<leftarrow> check_name nb (unat (fe_qlen fe)) 0;
                   if \<not> valid then Some (Stop m)
                   else do {
                     (r, m) \<leftarrow> init_cent m (nb @ [0]) (get_time (take 8 t)) (get_time (drop 8 t)) (fe_flags fe);
                     case r of None \<Rightarrow> Some (Exit m)
                     | Some ce \<Rightarrow> read_rrsets (unat (fe_num_rrs fe)) 0 dtsz (ce\<lparr>c_ns := fe_c_ns fe, c_soa := fe_c_soa fe\<rparr>) m f } })))"

primrec read_cents :: "cache_conf \<Rightarrow> int \<Rightarrow> nat \<Rightarrow> nat \<Rightarrow> byte list \<Rightarrow> cache \<Rightarrow> (bool \<times> cache) option" where
  "read_cents g now 0 dtsz f st = Some (False, st)"
| "read_cents g now (Suc n) dtsz f st = do {
     r \<leftarrow> read_cent dtsz (mem st) f;
     case r of Stop m \<Rightarrow> Some (False, st\<lparr>mem := m\<rparr>)
     | Exit m \<Rightarrow> Some (True, st\<lparr>mem := m\<rparr>)
     | Done (dtsz, ce, m, f) \<Rightarrow> do {
         st \<leftarrow> add_cache g now ce (st\<lparr>mem := m\<rparr>);
         read_cents g now n dtsz f st } }"

text \<open>
  \<^verbatim>\<open>read_disk_cache\<close>, in two parts: reading the entries of the file, and the function itself, which gets the file if it
  can be opened.  The boolean says that the program exits for lack of memory.
\<close>

definition read_entries :: "cache_conf \<Rightarrow> int \<Rightarrow> byte list \<Rightarrow> cache \<Rightarrow> (bool \<times> cache) option" where
  "read_entries g now f st = (case fread (length cachverid) f of None \<Rightarrow> Some (False, st)
     | Some (b, f) \<Rightarrow>
         if b \<noteq> cachverid then Some (False, st)
         else (case fread 8 f of None \<Rightarrow> Some (False, st)
           | Some (b, f) \<Rightarrow> read_cents g now (le_nat b) 512 f st))"

definition read_disk_cache :: "cache_conf \<Rightarrow> int \<Rightarrow> byte list option \<Rightarrow> cache \<Rightarrow> (bool \<times> cache) option" where
  "read_disk_cache g now fl st = (case fl of None \<Rightarrow> Some (False, st)
     | Some f \<Rightarrow>
         let (ok, m) = malloc (mem st); st = st\<lparr>mem := m\<rparr> in
         if \<not> ok then Some (True, st)
         else do {
           let st = st\<lparr>insert_sort := False\<rparr>;
           (quit, st) \<leftarrow> read_entries g now f st;
           if quit then Some (True, st)
           else if \<not> insert_sort st then do {
             st \<leftarrow> sort_cache_rrl st;
             Some (False, st\<lparr>insert_sort := True\<rparr>) }
           else Some (False, st) })"

subsection \<open>Encodings\<close>

lemma le_bytes_length [simp]: "length (le_bytes n x) = n"
  by (induction n arbitrary: x) simp_all

lemma le_nat_bytes: "le_nat (le_bytes n x) = x mod 256 ^ n"
proof (induction n arbitrary: x)
  case (Suc n)
  have "unat (of_nat x :: byte) = x mod 256" by (simp add: unat_of_nat)
  with Suc show ?case by (simp add: mod_mult2_eq)
qed simp

lemma le_nat_less: "le_nat bs < 256 ^ length bs"
proof (induction bs)
  case (Cons b bs)
  have "unat b < 256" by (rule unat_byte_less)
  moreover have "256 * le_nat bs + 256 \<le> 256 * 256 ^ length bs" using Cons by (simp add: Suc_le_eq [symmetric] del: Suc_le_eq)
  ultimately have "unat b + 256 * le_nat bs < 256 * 256 ^ length bs" by linarith
  then show ?case by simp
qed simp

definition time_ok :: "int \<Rightarrow> bool" where
  "time_ok t \<longleftrightarrow> - (2 ^ 63) \<le> t \<and> t < 2 ^ 63"

lemma get_put_time: "time_ok t \<Longrightarrow> get_time (put_time t) = t"
proof -
  assume t: "time_ok t"
  have "int (nat (t mod 2 ^ 64) mod 256 ^ 8) = t mod 2 ^ 64" by (simp add: zmod_int)
  moreover have "t mod 2 ^ 64 = (if 0 \<le> t then t else t + 2 ^ 64)"
  proof (cases "0 \<le> t")
    case False
    have "t mod 2 ^ 64 = (t + 2 ^ 64) mod 2 ^ 64" by simp
    also have "\<dots> = t + 2 ^ 64" using False t by (intro mod_pos_pos_trivial) (auto simp: time_ok_def)
    finally show ?thesis using False by simp
  qed (use t in \<open>auto simp: time_ok_def\<close>)
  ultimately show ?thesis using t by (auto simp: get_time_def put_time_def le_nat_bytes Let_def time_ok_def)
qed

lemma put_time_length [simp]: "length (put_time t) = 8"
  by (simp add: put_time_def)

lemma le_word16: "(of_nat (le_nat (le_bytes 2 (unat w))) :: 16 word) = w"
proof -
  have "unat w < 65536" using unsigned_less [of w] by simp
  then have "unat w mod 256 ^ 2 = unat w" by simp
  then show ?thesis by (simp add: le_nat_bytes)
qed

lemma put_lengths [simp]: "length (put_fset s) = 20" "length (put_file e) = 6" "length cachverid = 4"
  by (simp_all add: put_fset_def put_file_def cachverid_def)

lemma get_put_fset: "time_ok (fs_ttl s) \<Longrightarrow> time_ok (fs_ts s) \<Longrightarrow> get_fset (put_fset s) = s"
  by (cases s) (simp add: get_fset_def put_fset_def le_word16 get_put_time)

lemma get_put_file: "get_file (put_file e) = e"
  by (cases e) (simp add: get_file_def put_file_def le_word16 nth_append)

lemma fread_append [simp]: "fread (length bs) (bs @ f) = Some (bs, f)"
  by (simp add: fread_def)

lemma fread_SomeD: "fread n f = Some (b, f') \<Longrightarrow> f = b @ f' \<and> length b = n"
  by (auto simp: fread_def split: if_splits)

subsection \<open>Reading any file\<close>

lemma check_name_spec:
  assumes "check_name nb qlen i = Some ok" "length nb = qlen" "i \<le> qlen"
  shows "ok \<longrightarrow> (\<exists>ls. list_all lab63 ls \<and> drop i nb @ [0] = enc ls)"
  using assms
proof (induction nb qlen i rule: check_name.induct)
  case (1 nb qlen i)
  show ?case
  proof (cases "i < qlen")
    case False
    with 1 show ?thesis by (intro impI exI [of _ "[]"]) simp
  next
    case True
    with "1.prems" obtain lb where lb: "rd nb i = Some lb" by (auto simp: rd_def)
    show ?thesis
    proof (cases "lb = 0 \<or> lb > 63 \<or> i + (unat lb + 1) > qlen")
      case t: True
      with "1.prems"(1) True lb show ?thesis by (simp add: check_name.simps [of nb qlen i])
    next
      case f: False
      with "1.prems"(1) True lb have c: "check_name nb qlen (i + (unat lb + 1)) = Some ok" by (simp add: check_name.simps [of nb qlen i])
      have le: "i + (unat lb + 1) \<le> qlen" using f by simp
      from "1.IH" [OF True lb f c "1.prems"(2) le] show ?thesis
      proof (intro impI)
        assume ok and "ok \<longrightarrow> (\<exists>ls. list_all lab63 ls \<and> drop (i + (unat lb + 1)) nb @ [0] = enc ls)"
        then obtain ls where ls: "list_all lab63 ls" "drop (i + (unat lb + 1)) nb @ [0] = enc ls" by blast
        let ?l = "take (unat lb) (drop (i + 1) nb)"
        have len: "length ?l = unat lb" using le "1.prems"(2) by simp
        have "unat lb \<le> 63" using f by (simp add: word_less_nat_alt not_less)
        moreover have "unat lb \<noteq> 0" using f by (simp add: unat_eq_0)
        ultimately have "lab63 ?l" using len by (auto simp: lab63_def)
        moreover have "drop (i + 1) nb = ?l @ drop (i + (unat lb + 1)) nb"
          by (metis append_take_drop_id drop_drop add.commute add.left_commute)
        then have "drop i nb = lb # ?l @ drop (i + (unat lb + 1)) nb"
          using lb True "1.prems"(2) by (simp add: rd_def Cons_nth_drop_Suc [symmetric] split: if_splits)
        then have "drop i nb @ [0] = enc (?l # ls)" using ls(2) len by simp
        ultimately show "\<exists>ls. list_all lab63 ls \<and> drop i nb @ [0] = enc ls" using ls(1) by (intro exI [of _ "?l # ls"]) simp
      qed
    qed
  qed
qed

lemma check_name_total: "length nb = qlen \<Longrightarrow> \<exists>ok. check_name nb qlen i = Some ok"
proof (induction nb qlen i rule: check_name.induct)
  case (1 nb qlen i)
  then show ?case by (cases "i < qlen") (auto simp: check_name.simps [of nb qlen i] rd_def)
qed

text \<open>The entry after some of its sets were read.\<close>

definition outcome_ok :: "('a \<Rightarrow> bool) \<Rightarrow> 'a outcome \<Rightarrow> bool" where
  "outcome_ok P r = (case r of Done x \<Rightarrow> P x | Stop m \<Rightarrow> True | Exit m \<Rightarrow> True)"

lemma outcome_ok_simps [simp]: "outcome_ok P (Done x) = P x" "outcome_ok P (Stop m)" "outcome_ok P (Exit m)"
  by (simp_all add: outcome_ok_def)

lemma read_rrs_ok:
  assumes "cent_ok ce" "\<not> PDNSD_NOT_CACHED_TYPE (unat (fs_tp sh))"
  shows "\<exists>r. read_rrs n sh dtsz ce m f = Some r \<and>
    outcome_ok (\<lambda>(dtsz', ce', m', f'). cent_ok ce' \<and> length f' \<le> length f \<and>
      (\<forall>j<NRRTOT. j \<noteq> idx_of (unat (fs_tp sh)) \<longrightarrow> RRARR_INDEX_TESTEXT ce' j = RRARR_INDEX_TESTEXT ce j)) r"
  using assms(1)
proof (induction n arbitrary: dtsz ce m f)
  case (Suc n)
  show ?case
  proof (cases "fread 2 f")
    case (Some bf)
    obtain b f1 where bf: "bf = (b, f1)" by force
    with Some fread_SomeD have f1: "length f1 \<le> length f" by fastforce
    obtain ok m1 dtsz1 where al: "(if le_nat b > dtsz then let (ok, m) = malloc m in (ok, m, le_nat b) else (True, m, dtsz)) = (ok, m1, dtsz1)"
      by (metis prod_cases3)
    show ?thesis
    proof (cases "ok \<and> (if le_nat b = 0 then Some ([], f1) else fread (le_nat b) f1) \<noteq> None")
      case False
      with Some bf al show ?thesis by (cases "le_nat b = 0"; cases "fread (le_nat b) f1") (auto simp: Let_def)
    next
      case True
      then obtain dat f2 where rd: "(if le_nat b = 0 then Some ([], f1) else fread (le_nat b) f1) = Some (dat, f2)" by auto
      then have f2: "length f2 \<le> length f1" using fread_SomeD by (fastforce split: if_splits)
      from add_cent_rr_ok [OF Suc.prems assms(2) refl, of m1 "[]" "fs_ttl sh" "fs_ts sh" "fs_flags sh" dat] obtain q ce1 l1 m2 where
        a: "add_cent_rr m1 [] ce (unat (fs_tp sh)) (fs_ttl sh) (fs_ts sh) (fs_flags sh) dat = Some (q, ce1, l1, m2)" "cent_ok ce1"
          "\<forall>j<NRRTOT. j \<noteq> idx_of (unat (fs_tp sh)) \<longrightarrow> RRARR_INDEX_TESTEXT ce1 j = RRARR_INDEX_TESTEXT ce j" by (auto simp: idx_of_def)
      have run: "read_rrs (Suc n) sh dtsz ce m f = (if \<not> q then Some (Exit m2) else read_rrs n sh dtsz1 ce1 m2 f2)"
        using Some bf al True rd a(1) by (simp add: Let_def)
      from Suc.IH [OF a(2), of dtsz1 m2 f2] obtain r where
        "read_rrs n sh dtsz1 ce1 m2 f2 = Some r" "outcome_ok (\<lambda>(dtsz', ce', m', f'). cent_ok ce' \<and> length f' \<le> length f2 \<and>
          (\<forall>j<NRRTOT. j \<noteq> idx_of (unat (fs_tp sh)) \<longrightarrow> RRARR_INDEX_TESTEXT ce' j = RRARR_INDEX_TESTEXT ce1 j)) r" by blast
      with a(3) f1 f2 show ?thesis unfolding run by (cases q; cases r) auto
    qed
  qed simp
qed simp

text \<open>The sets still to come have larger types, so their slots are empty.\<close>

definition above_free :: "byte \<Rightarrow> dns_cent_t \<Rightarrow> bool" where
  "above_free prevtp ce \<longleftrightarrow> (\<forall>tp. unat prevtp < tp \<and> \<not> PDNSD_NOT_CACHED_TYPE tp \<longrightarrow> RRARR_INDEX_TESTEXT ce (idx_of tp) = None)"

lemma read_rrsets_ok:
  assumes "cent_ok ce" "above_free prevtp ce"
  shows "\<exists>r. read_rrsets n prevtp dtsz ce m f = Some r \<and>
    outcome_ok (\<lambda>(dtsz', ce', m', f'). cent_ok ce' \<and> length f' \<le> length f) r"
  using assms
proof (induction n arbitrary: prevtp dtsz ce m f)
  case (Suc n)
  show ?case
  proof (cases "fread 20 f")
    case (Some bf)
    obtain b f1 where bf: "bf = (b, f1)" by force
    with Some fread_SomeD have f1: "length f1 \<le> length f" by fastforce
    let ?sh = "get_fset b"
    let ?tp = "unat (fs_tp ?sh)"
    show ?thesis
    proof (cases "PDNSD_NOT_CACHED_TYPE ?tp \<or> fs_tp ?sh \<le> prevtp")
      case True
      with Some bf show ?thesis by (auto simp: Let_def)
    next
      case False
      then have t: "\<not> PDNSD_NOT_CACHED_TYPE ?tp" "unat prevtp < ?tp" by (simp_all add: word_le_nat_alt)
      then have none: "RRARR_INDEX_TESTEXT ce (idx_of ?tp) = None" using Suc.prems(2) by (simp add: above_free_def)
      have by_type: "add_cent_rrset_by_type m [] ce ?tp (fs_ttl ?sh) (fs_ts ?sh) (fs_flags ?sh) =
          add_cent_rrset_by_index m [] ce (idx_of ?tp) (fs_ttl ?sh) (fs_ts ?sh) (fs_flags ?sh)"
        using t(1) by (auto simp: add_cent_rrset_by_type_def idx_of_def PDNSD_NOT_CACHED_TYPE_def rr_consts)
      from add_cent_rrset_by_index_ok [OF Suc.prems(1) idx_of_less [OF t(1)] none, of m "[]" "fs_ttl ?sh" "fs_ts ?sh" "fs_flags ?sh"] obtain q ce1 l1 m1 where
        a: "add_cent_rrset_by_index m [] ce (idx_of ?tp) (fs_ttl ?sh) (fs_ts ?sh) (fs_flags ?sh) = Some (q, ce1, l1, m1)" "cent_ok ce1"
          "\<forall>j<NRRTOT. j \<noteq> idx_of ?tp \<longrightarrow> RRARR_INDEX_TESTEXT ce1 j = RRARR_INDEX_TESTEXT ce j" by auto
      from read_rrs_ok [OF a(2) t(1), of "unat (fs_num_rr ?sh)" dtsz m1 f1] obtain r where
        r: "read_rrs (unat (fs_num_rr ?sh)) ?sh dtsz ce1 m1 f1 = Some r"
          "outcome_ok (\<lambda>(dtsz', ce', m', f'). cent_ok ce' \<and> length f' \<le> length f1 \<and>
            (\<forall>j<NRRTOT. j \<noteq> idx_of ?tp \<longrightarrow> RRARR_INDEX_TESTEXT ce' j = RRARR_INDEX_TESTEXT ce1 j)) r" by blast
      have run: "read_rrsets (Suc n) prevtp dtsz ce m f = (if \<not> q then Some (Exit m1)
          else case r of Stop m \<Rightarrow> Some (Stop m) | Exit m \<Rightarrow> Some (Exit m) | Done (dtsz, ce, m, f) \<Rightarrow> read_rrsets n (fs_tp ?sh) dtsz ce m f)"
        using Some bf False by_type a(1) r(1) by (auto simp: Let_def)
      show ?thesis
      proof (cases r)
        case (Done x)
        obtain dtsz2 ce2 m2 f2 where x: "x = (dtsz2, ce2, m2, f2)" by (metis prod_cases4)
        with r(2) Done have c2: "cent_ok ce2" "length f2 \<le> length f1"
          "\<forall>j<NRRTOT. j \<noteq> idx_of ?tp \<longrightarrow> RRARR_INDEX_TESTEXT ce2 j = RRARR_INDEX_TESTEXT ce1 j" by auto
        have "above_free (fs_tp ?sh) ce2" unfolding above_free_def
        proof (intro allI impI)
          fix tp assume tp: "?tp < tp \<and> \<not> PDNSD_NOT_CACHED_TYPE tp"
          then have "idx_of tp \<noteq> idx_of ?tp" "idx_of tp < NRRTOT" using idx_of_inj [of tp ?tp] t(1) idx_of_less by auto
          moreover have "RRARR_INDEX_TESTEXT ce (idx_of tp) = None" using Suc.prems(2) tp t(2) by (simp add: above_free_def)
          ultimately show "RRARR_INDEX_TESTEXT ce2 (idx_of tp) = None" using c2(3) a(3) by simp
        qed
        from Suc.IH [OF c2(1) this, of dtsz2 m2 f2] obtain r2 where
          "read_rrsets n (fs_tp ?sh) dtsz2 ce2 m2 f2 = Some r2" "outcome_ok (\<lambda>(dtsz', ce', m', f'). cent_ok ce' \<and> length f' \<le> length f2) r2" by blast
        with Done x c2(2) f1 show ?thesis unfolding run by (cases q; cases r2) auto
      next
        case (Stop m)
        then show ?thesis unfolding run by (cases q) auto
      next
        case (Exit m)
        then show ?thesis unfolding run by (cases q) auto
      qed
    qed
  qed simp
qed simp

lemma checked_name:
  assumes "check_name nb (length nb) 0 = Some True" "length nb < 256"
  shows "\<exists>ls. name_at (nb @ [0]) 0 ls \<and> wf_name ls"
proof -
  from check_name_spec [OF assms(1)] obtain ls where ls: "list_all lab63 ls" "nb @ [0] = enc ls" by auto
  have "length (enc ls) = length nb + 1" using ls(2) by (metis length_append_singleton Suc_eq_plus1)
  with ls(1) assms(2) have w: "wf_name ls" by (simp add: wf_name_def DNSNAMEBUFSIZE_def)
  with name_at_enc [OF wf_name_lab_ok [OF w], of "[]"] ls(2) show ?thesis by auto
qed

lemma read_cent_ok:
  "\<exists>r. read_cent dtsz m f = Some r \<and> outcome_ok (\<lambda>(dtsz', ce, m', f'). cent_ok ce \<and> length f' + 6 \<le> length f) r"
proof (cases "fread 6 f")
  case (Some bf)
  obtain b f1 where bf: "bf = (b, f1)" by force
  with Some fread_SomeD have f1: "length f1 + 6 = length f" by fastforce
  let ?fe = "get_file b"
  let ?t = "if has (fe_flags ?fe) DF_NEGATIVE then fread 16 f1 else Some (replicate 16 0, f1)"
  show ?thesis
  proof (cases ?t)
    case None
    with Some bf show ?thesis unfolding read_cent_def by (simp add: Let_def del: not_None_eq)
  next
    case t: (Some tf)
    obtain t f2 where tf: "tf = (t, f2)" by force
    have f2: "length f2 \<le> length f1" using t tf fread_SomeD by (fastforce split: if_splits)
    let ?n = "if fe_qlen ?fe \<noteq> 0 then fread (unat (fe_qlen ?fe)) f2 else Some ([], f2)"
    show ?thesis
    proof (cases ?n)
      case None
      with Some bf t tf show ?thesis unfolding read_cent_def by (simp add: Let_def del: not_None_eq)
    next
      case n: (Some nf)
      obtain nb f3 where nf: "nf = (nb, f3)" by force
      have nb: "length nb = unat (fe_qlen ?fe)" "length f3 \<le> length f2"
        using n nf fread_SomeD by (fastforce split: if_splits)+
      from check_name_total [OF refl, of nb 0] obtain v where v: "check_name nb (length nb) 0 = Some v" by blast
      have run: "read_cent dtsz m f = (if \<not> v then Some (Stop m) else do {
          (r, m) \<leftarrow> init_cent m (nb @ [0]) (get_time (take 8 t)) (get_time (drop 8 t)) (fe_flags ?fe);
          case r of None \<Rightarrow> Some (Exit m)
          | Some ce \<Rightarrow> read_rrsets (unat (fe_num_rrs ?fe)) 0 dtsz (ce\<lparr>c_ns := fe_c_ns ?fe, c_soa := fe_c_soa ?fe\<rparr>) m f3 })"
        using Some bf t tf n nf nb(1) v by (simp add: read_cent_def Let_def split del: if_split)
      show ?thesis
      proof (cases v)
        case True
        have "length nb < 256" using nb(1) by simp
        with checked_name [of nb] v True obtain ls where ls: "name_at (nb @ [0]) 0 ls" "wf_name ls" by auto
        from init_cent_ok [OF ls, of m "get_time (take 8 t)" "get_time (drop 8 t)" "fe_flags ?fe"] obtain r m1 where
          i: "init_cent m (nb @ [0]) (get_time (take 8 t)) (get_time (drop 8 t)) (fe_flags ?fe) = Some (r, m1)"
            "\<forall>ce. r = Some ce \<longrightarrow> cent_ok ce \<and> (\<forall>j<NRRTOT. RRARR_INDEX_TESTEXT ce j = None)" by blast
        show ?thesis
        proof (cases r)
          case None
          with run True i(1) show ?thesis by auto
        next
          case ce: (Some ce)
          let ?ce = "ce\<lparr>c_ns := fe_c_ns ?fe, c_soa := fe_c_soa ?fe\<rparr>"
          have "cent_ok ?ce" "above_free 0 ?ce" using i(2) ce idx_of_less by (auto simp: above_free_def)
          from read_rrsets_ok [OF this, of "unat (fe_num_rrs ?fe)" dtsz m1 f3] obtain r' where
            "read_rrsets (unat (fe_num_rrs ?fe)) 0 dtsz ?ce m1 f3 = Some r'"
            "outcome_ok (\<lambda>(dtsz', ce', m', f'). cent_ok ce' \<and> length f' \<le> length f3) r'" by blast
          with run True i(1) ce nb(2) f1 f2 show ?thesis by (cases r') auto
        qed
      qed (use run in auto)
    qed
  qed
qed (simp add: read_cent_def)

lemma read_cents_ok:
  assumes "ok_but {} st" "insert_sort st \<or> length (rrset_l st) + NRRTOT * length f < 2 ^ 32"
  shows "\<exists>q st'. read_cents g now n dtsz f st = Some (q, st') \<and> ok_but {} st' \<and> room st'"
  using assms
proof (induction n arbitrary: dtsz f st)
  case 0
  then show ?case by (auto simp: room_def)
next
  case (Suc n)
  from read_cent_ok [of dtsz "mem st" f] obtain r where
    r: "read_cent dtsz (mem st) f = Some r" "outcome_ok (\<lambda>(dtsz', ce, m', f'). cent_ok ce \<and> length f' + 6 \<le> length f) r" by blast
  have rm: "room (st\<lparr>mem := m\<rparr>)" for m using Suc.prems(2) by (auto simp: room_def)
  show ?case
  proof (cases r)
    case (Done x)
    obtain dtsz1 ce m1 f1 where x: "x = (dtsz1, ce, m1, f1)" by (metis prod_cases4)
    with r(2) Done have ce: "cent_ok ce" "length f1 + 6 \<le> length f" by auto
    let ?st = "st\<lparr>mem := m1\<rparr>"
    have k: "ok_but {} ?st" using Suc.prems(1) by simp
    have "NRRTOT + NRRTOT * length f1 \<le> NRRTOT * length f"
      using mult_le_mono2 [of "Suc (length f1)" "length f" NRRTOT] ce(2) by simp
    then have ro: "roomy ?st" "insert_sort st \<or> length (rrset_l st) + NRRTOT + NRRTOT * length f1 < 2 ^ 32"
      using Suc.prems(2) by (auto simp: roomy_def)
    from add_cache_spec [OF k ce(1) ro(1), of g now] obtain st1 where
      a: "add_cache g now ce ?st = Some st1" "ok_but {} st1" "length (rrset_l st1) \<le> length (rrset_l ?st) + NRRTOT" "insert_sort ?st \<longrightarrow> insert_sort st1"
      by blast
    have "insert_sort st1 \<or> length (rrset_l st1) + NRRTOT * length f1 < 2 ^ 32" using ro(2) a(3,4) by auto
    from Suc.IH [OF a(2) this] r(1) Done x a(1) show ?thesis by auto
  qed (use r(1) Suc.prems(1) rm in auto)
qed

lemma read_entries_ok:
  assumes "ok_but {} st" "insert_sort st \<or> length (rrset_l st) + NRRTOT * length f < 2 ^ 32"
  shows "\<exists>q st'. read_entries g now f st = Some (q, st') \<and> ok_but {} st' \<and> room st'"
proof (cases "\<exists>f1 b f2. fread (length cachverid) f = Some (cachverid, f1) \<and> fread 8 f1 = Some (b, f2)")
  case True
  then obtain f1 b f2 where f: "fread (length cachverid) f = Some (cachverid, f1)" "fread 8 f1 = Some (b, f2)" by blast
  then have "length f2 \<le> length f" using fread_SomeD [OF f(1)] fread_SomeD [OF f(2)] by simp
  then have "NRRTOT * length f2 \<le> NRRTOT * length f" by (rule mult_le_mono2)
  then have "length (rrset_l st) + NRRTOT * length f2 \<le> length (rrset_l st) + NRRTOT * length f" by simp
  with assms(2) have "insert_sort st \<or> length (rrset_l st) + NRRTOT * length f2 < 2 ^ 32" by linarith
  from read_cents_ok [OF assms(1) this, of g now "le_nat b" 512] f show ?thesis by (simp add: read_entries_def)
next
  case False
  then have "read_entries g now f st = Some (False, st)" by (auto simp: read_entries_def split: option.splits)
  with assms show ?thesis by (auto simp: room_def)
qed

lemma sort_cache_rrl_eq:
  "length (rrset_l st) < 2 ^ 32 \<Longrightarrow> sort_cache_rrl st = Some (st\<lparr>rrset_l := sort_key (get_rrlent_ts st) (rrset_l st)\<rparr>)"
  by (simp add: sort_cache_rrl_def sort_rrl_eq NTMPSORT_def)

lemma get_rrlent_ts_list [simp]: "get_rrlent_ts (st\<lparr>rrset_l := l, insert_sort := b\<rparr>) = get_rrlent_ts st"
  by (auto simp: fun_eq_iff get_rrlent_ts_def le_rrset_def split: option.split)

text \<open>
  C13.  \<^verbatim>\<open>read_disk_cache\<close> copes with any file that is not so long that the list of sets could get \<open>2 ^ 32\<close> nodes: whatever
  bytes it contains, reading it returns, no access is out of bounds, and the cache satisfies the invariant afterwards.
  Unless memory runs out, the entries that could be read are kept, sets are inserted at their place in the list from then
  on, and the list is the stable sort by time stamps of the list that reading has left; only when \<^verbatim>\<open>purge_cache\<close> has sorted
  it during the reading is it not sorted again.
\<close>

theorem read_disk_cache_safe:
  assumes "cache_ok st" "\<forall>f. fl = Some f \<longrightarrow> length (rrset_l st) + NRRTOT * length f < 2 ^ 32"
  shows "\<exists>quit st'. read_disk_cache g now fl st = Some (quit, st') \<and> cache_ok st' \<and>
    (\<forall>f. fl = Some f \<and> \<not> quit \<longrightarrow> insert_sort st' \<and>
      (\<exists>st1. read_entries g now f (st\<lparr>mem := \<lambda>n. mem st (Suc n), insert_sort := False\<rparr>) = Some (False, st1) \<and>
        (if insert_sort st1 then st' = st1
         else st' = st1\<lparr>rrset_l := sort_key (get_rrlent_ts st1) (rrset_l st1), insert_sort := True\<rparr> \<and>
           sorted (map (get_rrlent_ts st') (rrset_l st')))))"
proof (cases fl)
  case (Some f)
  have ok: "ok_but {} st" using assms(1) by (simp add: cache_ok_def)
  let ?st = "st\<lparr>mem := \<lambda>n. mem st (Suc n), insert_sort := False\<rparr>"
  have len: "length (rrset_l st) + NRRTOT * length f < 2 ^ 32" using assms(2) Some by simp
  have "ok_but {} ?st" using ok by simp
  from read_entries_ok [OF this, of f g now] len obtain q st1 where
    b: "read_entries g now f ?st = Some (q, st1)" "ok_but {} st1" "room st1" by auto
  have run: "read_disk_cache g now fl st = (if \<not> mem st 0 then Some (True, st\<lparr>mem := \<lambda>n. mem st (Suc n)\<rparr>)
      else if q then Some (True, st1)
      else if \<not> insert_sort st1 then do { st \<leftarrow> sort_cache_rrl st1; Some (False, st\<lparr>insert_sort := True\<rparr>) } else Some (False, st1))"
    using b(1) by (simp add: read_disk_cache_def Some malloc_def Let_def)
  show ?thesis
  proof (cases "mem st 0 \<and> \<not> q \<and> \<not> insert_sort st1")
    case True
    with b(3) have short: "length (rrset_l st1) < 2 ^ 32" by (simp add: room_def)
    from sort_cache_rrl_spec [OF b(2) short] sort_cache_rrl_eq [OF short]
    have "ok_but {} (st1\<lparr>rrset_l := sort_key (get_rrlent_ts st1) (rrset_l st1)\<rparr>)" by auto
    with True b(1) Some sort_cache_rrl_eq [OF short] show ?thesis
      by (intro exI [of _ False]) (simp add: run [unfolded Some] cache_ok_def)
  next
    case False
    with b ok Some show ?thesis unfolding run by (auto simp: cache_ok_def)
  qed
qed (use assms(1) in \<open>auto simp: read_disk_cache_def intro!: exI [of _ False]\<close>)

theorem read_disk_cache_safe_witness:
  "\<exists>quit st'. read_disk_cache \<lparr>min_ttl = 120, max_ttl = 604800, neg_ttl_conf = 900, perm_cache = 2048\<rparr> 1000
     (Some [112, 100, 49, 51, 1, 0, 0, 0, 0, 0, 0, 0, 255]) (init_cache (\<lambda>_. True)) = Some (quit, st') \<and> cache_ok st'"
proof -
  have "\<forall>f. Some [112, 100, 49, 51, 1, 0, 0, 0, 0, 0, 0, 0, 255 :: byte] = Some f \<longrightarrow> length (rrset_l (init_cache (\<lambda>_. True))) + NRRTOT * length f < 2 ^ 32"
    by (simp add: init_cache_def NRRTOT_def)
  from read_disk_cache_safe [OF cache_ok_init this] show ?thesis by blast
qed

end
