(* ===== verification/Disk_Trip.thy ===== *)
theory Disk_Trip
  imports Disk
begin

text \<open>
  What \<^verbatim>\<open>write_disk_cache\<close> writes for an entry, \<^verbatim>\<open>read_disk_cache\<close> reads back: the domain, its flags
  and times, and its sets of records except the local ones, each with its first 255 records.
\<close>

subsection \<open>What is written\<close>

definition wrote :: "byte list \<Rightarrow> wfile \<Rightarrow> wfile" where
  "wrote bs w = (fst w - length bs, snd w @ bs)"

lemma wrote_simps [simp]: "fst (wrote bs w) = fst w - length bs" "snd (wrote bs w) = snd w @ bs" "wrote [] w = w"
  "wrote c (wrote b w) = wrote (b @ c) w"
  by (simp_all add: wrote_def)

lemma fwrite_room: "length bs \<le> fst w \<Longrightarrow> fwrite bs w = (True, wrote bs w)"
  by (simp add: fwrite_def wrote_def)

definition rr_bytes :: "byte list \<Rightarrow> byte list" where
  "rr_bytes rr = le_bytes 2 (length rr) @ rr"

abbreviation short_rrs :: "byte list list \<Rightarrow> bool" where
  "short_rrs rrs \<equiv> list_all (\<lambda>rr. length rr < 2 ^ 16) rrs"

definition set_head :: "nat \<Rightarrow> rr_set_t \<Rightarrow> rr_fset_t" where
  "set_head tp s = \<lparr>fs_tp = of_nat tp, fs_num_rr = of_nat (min 255 (length (rs_rrs s))), fs_flags = rs_flags s,
     fs_ttl = rs_ttl s, fs_ts = rs_ts s\<rparr>"

definition set_bytes :: "nat \<Rightarrow> rr_set_t \<Rightarrow> byte list" where
  "set_bytes tp s = put_fset (set_head tp s) @ concat (map rr_bytes (take 255 (rs_rrs s)))"

definition on_disk :: "rr_set_t option \<Rightarrow> rr_set_t option" where
  "on_disk x = (case x of None \<Rightarrow> None
     | Some s \<Rightarrow> if has (rs_flags s) CF_LOCAL then None else Some (s\<lparr>rs_lent := None, rs_rrs := take 255 (rs_rrs s)\<rparr>))"

definition type_bytes :: "dns_cent_t \<Rightarrow> nat \<Rightarrow> byte list" where
  "type_bytes c tp = (case on_disk (getrrset_eff c tp) of None \<Rightarrow> [] | Some _ \<Rightarrow> set_bytes tp (the (getrrset_eff c tp)))"

lemma write_rrs_room:
  "short_rrs rrs \<Longrightarrow> length (concat (map rr_bytes rrs)) \<le> fst w \<Longrightarrow>
   write_rrs rrs w = (True, wrote (concat (map rr_bytes rrs)) w)"
proof (induction rrs arbitrary: w)
  case (Cons rr rrs)
  have u: "unat (of_nat (length rr) :: 16 word) = length rr" using Cons.prems(1) by (simp add: unat_of_nat)
  have z: "(of_nat (length rr) :: 16 word) = 0 \<longleftrightarrow> rr = []" unfolding unat_eq_0 [symmetric] u by simp
  have r: "length (le_bytes 2 (length rr)) \<le> fst w" "length rr \<le> fst (wrote (le_bytes 2 (length rr)) w)"
    using Cons.prems(2) by (simp_all add: rr_bytes_def)
  have "write_rrs rrs (wrote (rr_bytes rr) w) = (True, wrote (concat (map rr_bytes rrs)) (wrote (rr_bytes rr) w))"
    using Cons.prems by (intro Cons.IH) auto
  with r show ?case by (cases "rr = []") (simp_all add: Let_def u z fwrite_room rr_bytes_def [of rr] rr_bytes_def [of "[]"])
qed simp

lemma write_rrset_room:
  "short_rrs (rs_rrs s) \<Longrightarrow> length (set_bytes tp s) \<le> fst w \<Longrightarrow> write_rrset tp s w = (True, wrote (set_bytes tp s) w)"
proof -
  assume a: "short_rrs (rs_rrs s)" "length (set_bytes tp s) \<le> fst w"
  let ?h = "put_fset (set_head tp s)"
  have t: "take (min 255 (length (rs_rrs s))) (rs_rrs s) = take 255 (rs_rrs s)" by (simp add: min_def)
  have sh: "short_rrs (take 255 (rs_rrs s))" using a(1) by (auto simp: list_all_iff dest: in_set_takeD)
  have "write_rrs (take 255 (rs_rrs s)) (wrote ?h w) = (True, wrote (concat (map rr_bytes (take 255 (rs_rrs s)))) (wrote ?h w))"
    using a(2) by (intro write_rrs_room [OF sh]) (simp add: set_bytes_def)
  moreover have "fwrite ?h w = (True, wrote ?h w)" using a(2) by (intro fwrite_room) (simp add: set_bytes_def)
  ultimately show ?thesis unfolding write_rrset_def Let_def t by (simp add: set_head_def set_bytes_def)
qed

lemma write_rrsets_room:
  assumes "\<And>tp s. tp \<in> set tps \<Longrightarrow> getrrset_eff c tp = Some s \<Longrightarrow> short_rrs (rs_rrs s)"
    and "length (concat (map (type_bytes c) tps)) \<le> fst w"
  shows "write_rrsets c tps w = (True, wrote (concat (map (type_bytes c) tps)) w)"
  using assms
proof (induction tps arbitrary: w)
  case (Cons tp tps)
  have IH: "write_rrsets c tps w' = (True, wrote (concat (map (type_bytes c) tps)) w')"
    if "length (concat (map (type_bytes c) tps)) \<le> fst w'" for w'
    using Cons.prems(1) by (intro Cons.IH that) auto
  show ?case
  proof (cases "on_disk (getrrset_eff c tp)")
    case None
    then have "type_bytes c tp = []" by (simp add: type_bytes_def)
    with None Cons.prems(2) IH [of w] show ?thesis by (auto simp: on_disk_def split: option.splits if_splits)
  next
    case (Some s')
    then obtain s where s: "getrrset_eff c tp = Some s" "\<not> has (rs_flags s) CF_LOCAL" by (auto simp: on_disk_def split: option.splits if_splits)
    have b: "type_bytes c tp = set_bytes tp s" using s Some by (simp add: type_bytes_def)
    have "write_rrset tp s w = (True, wrote (set_bytes tp s) w)"
      using Cons.prems s(1) b by (intro write_rrset_room) auto
    moreover have "length (concat (map (type_bytes c) tps)) \<le> fst (wrote (set_bytes tp s) w)" using Cons.prems(2) b by simp
    ultimately show ?thesis using s IH [of "wrote (set_bytes tp s) w"] by (simp add: b)
  qed
qed simp

subsection \<open>Reading it back\<close>

abbreviation full :: alloc where
  "full \<equiv> \<lambda>_. True"

text \<open>The fields of an entry besides its sets.\<close>

definition frame :: "dns_cent_t \<Rightarrow> 16 word \<times> int \<times> int \<times> byte \<times> byte" where
  "frame c = (ce_flags c, neg_ttl c, neg_ts c, c_ns c, c_soa c)"

lemma frame_simps [simp]: "frame (c\<lparr>ce_cs := x\<rparr>) = frame c" "frame (c\<lparr>ce_num_rrs := y\<rparr>) = frame c" "frame (put_rrset c i v) = frame c"
  "frame (c\<lparr>rrext := e\<rparr>) = frame c"
  by (simp_all add: frame_def)

lemma malloc_full [simp]: "malloc full = (True, full)"
  by (simp add: malloc_def)

lemma create_rr_full [simp]: "create_rr full dat = (Some dat, full)"
  by (simp add: create_rr_def)

lemma add_cent_rrset_full:
  "add_cent_rrset_by_index full l c idx ttl ts fl = Some (ok, c', l', a') \<Longrightarrow> \<not> negative c \<Longrightarrow> frame c' = frame c \<and> a' = full"
  by (auto simp: add_cent_rrset_by_index_def unnegate_def ensure_slot_def split: if_splits prod.splits option.splits)

lemma link_rr_frame: "link_rr c idx rtail rr = Some (c', k) \<Longrightarrow> frame c' = frame c"
  by (auto simp: link_rr_def split: option.splits prod.splits)

lemma add_cent_rr_full:
  assumes "add_cent_rr full l c tp ttl ts fl dat = Some (ok, c', l', a')" "\<not> negative c"
  shows "frame c' = frame c \<and> a' = full"
proof -
  have i: "frame c' = frame c \<and> a' = full" if "add_cent_rr_int full l c idx ttl ts fl dat rtail = Some (ok, c', rt, l', a')" "\<not> negative c"
    for c c' idx ok rtail rt l l' a'
    using that add_cent_rrset_full [of l c idx ttl ts fl] link_rr_frame
    by (fastforce simp: add_cent_rr_int_def bind_eq_Some_conv split: if_splits prod.splits)
  from assms show ?thesis
    by (auto simp: add_cent_rr_def bind_eq_Some_conv Let_def split: if_splits option.splits dest!: i)
qed

lemma fread_rr_bytes [simp]: "fread 2 (rr_bytes rr @ g) = Some (le_bytes 2 (length rr), rr @ g)"
  using fread_append [of "le_bytes 2 (length rr)" "rr @ g"] by (simp add: rr_bytes_def)

lemma read_rrs_back:
  assumes "cent_ok ce" "\<not> PDNSD_NOT_CACHED_TYPE tp" "unat (fs_tp sh) = tp" "\<not> negative ce" "\<not> has (ce_flags ce) DF_LOCAL"
    and "RRARR_INDEX_TESTEXT ce (idx_of tp) = Some s" "rs_ttl s = fs_ttl sh" "distinct (rs_rrs s @ rrs)" "short_rrs rrs"
  shows "\<exists>dtsz' ce'. read_rrs (length rrs) sh dtsz ce full (concat (map rr_bytes rrs) @ f) = Some (Done (dtsz', ce', full, f)) \<and>
    cent_ok ce' \<and> ce_qname ce' = ce_qname ce \<and> frame ce' = frame ce \<and>
    (\<forall>j<NRRTOT. RRARR_INDEX_TESTEXT ce' j = (if j = idx_of tp then Some (s\<lparr>rs_rrs := rs_rrs s @ rrs\<rparr>) else RRARR_INDEX_TESTEXT ce j))"
  using assms
proof (induction rrs arbitrary: ce s dtsz)
  case (Cons rr rrs)
  let ?i = "idx_of tp"
  have i: "?i < NRRTOT" by (rule idx_of_less [OF Cons.prems(2)])
  from add_cent_rr_ok [OF Cons.prems(1,2) refl, of full "[]" "fs_ttl sh" "fs_ts sh" "fs_flags sh" rr] Cons.prems(5,6,7,8)
  obtain ce1 l1 m1 where a: "add_cent_rr full [] ce tp (fs_ttl sh) (fs_ts sh) (fs_flags sh) rr = Some (True, ce1, l1, m1)"
      "cent_ok ce1" "ce_qname ce1 = ce_qname ce" "\<forall>j<NRRTOT. j \<noteq> ?i \<longrightarrow> RRARR_INDEX_TESTEXT ce1 j = RRARR_INDEX_TESTEXT ce j"
      "RRARR_INDEX_TESTEXT ce1 ?i = Some (s\<lparr>rs_rrs := rs_rrs s @ [rr]\<rparr>)"
    by (auto simp: idx_of_def)
  from add_cent_rr_full [OF a(1) Cons.prems(4)] have fr: "frame ce1 = frame ce" "m1 = full" by auto
  then have ng: "\<not> negative ce1" "\<not> has (ce_flags ce1) DF_LOCAL" using Cons.prems(4,5) by (auto simp: frame_def negative_def)
  have rl: "le_nat (le_bytes 2 (length rr)) = length rr" using Cons.prems(9) by (simp add: le_nat_bytes)
  define dtsz1 where "dtsz1 = (if length rr > dtsz then length rr else dtsz)"
  have z: "le_nat (le_bytes 2 0) = 0" by (simp add: le_nat_bytes)
  have run: "read_rrs (length (rr # rrs)) sh dtsz ce full (concat (map rr_bytes (rr # rrs)) @ f) =
      read_rrs (length rrs) sh dtsz1 ce1 full (concat (map rr_bytes rrs) @ f)"
    using a(1) fr(2) Cons.prems(3) rl z by (cases "length rr > dtsz"; cases "rr = []") (simp_all add: dtsz1_def)
  have d: "distinct (rs_rrs (s\<lparr>rs_rrs := rs_rrs s @ [rr]\<rparr>) @ rrs)" "short_rrs rrs" using Cons.prems(8,9) by auto
  have ttl: "rs_ttl (s\<lparr>rs_rrs := rs_rrs s @ [rr]\<rparr>) = fs_ttl sh" using Cons.prems(7) by simp
  have s2: "s\<lparr>rs_rrs := rs_rrs s @ [rr], rs_rrs := rs_rrs (s\<lparr>rs_rrs := rs_rrs s @ [rr]\<rparr>) @ rrs\<rparr> = s\<lparr>rs_rrs := rs_rrs s @ rr # rrs\<rparr>" by simp
  from Cons.IH [OF a(2) Cons.prems(2,3) ng a(5) ttl d, of dtsz1, unfolded s2] obtain dtsz2 ce2 where
    r: "read_rrs (length rrs) sh dtsz1 ce1 full (concat (map rr_bytes rrs) @ f) = Some (Done (dtsz2, ce2, full, f))"
      "cent_ok ce2" "ce_qname ce2 = ce_qname ce1" "frame ce2 = frame ce1"
      "\<forall>j<NRRTOT. RRARR_INDEX_TESTEXT ce2 j = (if j = ?i then Some (s\<lparr>rs_rrs := rs_rrs s @ rr # rrs\<rparr>) else RRARR_INDEX_TESTEXT ce1 j)"
    by blast
  show ?case unfolding run
    by (intro exI [of _ dtsz2] exI [of _ ce2]) (use r a(3,4) fr(1) in auto)
qed (auto intro: exI)

text \<open>A set that the format of the file can represent.\<close>

definition storable :: "rr_set_t \<Rightarrow> bool" where
  "storable s \<longleftrightarrow> distinct (rs_rrs s) \<and> short_rrs (rs_rrs s) \<and> time_ok (rs_ttl s) \<and> time_ok (rs_ts s)"

lemma cached_byte: "\<not> PDNSD_NOT_CACHED_TYPE tp \<Longrightarrow> unat (of_nat tp :: byte) = tp"
  by (simp add: PDNSD_NOT_CACHED_TYPE_def T_MAX_def unat_of_nat)

lemma unat_num_rr: "unat (of_nat (min 255 n) :: byte) = min 255 n"
  by (simp add: unat_of_nat min_def)

text \<open>One set: its header, then its records.\<close>

lemma read_set_back:
  assumes "cent_ok ce" "\<not> negative ce" "\<not> has (ce_flags ce) DF_LOCAL" "\<not> PDNSD_NOT_CACHED_TYPE tp" "unat prevtp < tp"
    and "RRARR_INDEX_TESTEXT ce (idx_of tp) = None" "storable s"
  shows "\<exists>dtsz' ce'. read_rrsets (Suc n) prevtp dtsz ce full (set_bytes tp s @ f) = read_rrsets n (of_nat tp) dtsz' ce' full f \<and>
    cent_ok ce' \<and> ce_qname ce' = ce_qname ce \<and> frame ce' = frame ce \<and>
    (\<forall>j<NRRTOT. RRARR_INDEX_TESTEXT ce' j = (if j = idx_of tp then Some (s\<lparr>rs_lent := None, rs_rrs := take 255 (rs_rrs s)\<rparr>) else RRARR_INDEX_TESTEXT ce j))"
proof -
  let ?sh = "set_head tp s" and ?i = "idx_of tp" and ?rrs = "take 255 (rs_rrs s)"
  have st: "distinct ?rrs" "short_rrs ?rrs" "time_ok (fs_ttl ?sh)" "time_ok (fs_ts ?sh)"
    using assms(7) by (auto simp: storable_def set_head_def list_all_iff dest: in_set_takeD)
  have i: "?i < NRRTOT" by (rule idx_of_less [OF assms(4)])
  have tp: "unat (fs_tp ?sh) = tp" "fs_tp ?sh = of_nat tp" by (simp_all add: set_head_def cached_byte [OF assms(4)])
  have num: "unat (fs_num_rr ?sh) = length ?rrs" using unat_num_rr [of "length (rs_rrs s)"] by (simp add: set_head_def min.commute)
  have by_type: "add_cent_rrset_by_type full [] ce tp (fs_ttl ?sh) (fs_ts ?sh) (fs_flags ?sh) =
      add_cent_rrset_by_index full [] ce ?i (fs_ttl ?sh) (fs_ts ?sh) (fs_flags ?sh)"
    using assms(4) by (auto simp: add_cent_rrset_by_type_def idx_of_def PDNSD_NOT_CACHED_TYPE_def rr_consts)
  let ?s0 = "\<lparr>rs_lent = None, rs_ttl = fs_ttl ?sh, rs_ts = fs_ts ?sh, rs_flags = fs_flags ?sh, rs_rrs = []\<rparr>"
  from add_cent_rrset_by_index_ok [OF assms(1) i assms(6), of full "[]" "fs_ttl ?sh" "fs_ts ?sh" "fs_flags ?sh"] obtain ce1 l1 m1 where
    a: "add_cent_rrset_by_index full [] ce ?i (fs_ttl ?sh) (fs_ts ?sh) (fs_flags ?sh) = Some (True, ce1, l1, m1)" "cent_ok ce1" "\<not> negative ce1"
      "ce_qname ce1 = ce_qname ce" "\<forall>j<NRRTOT. RRARR_INDEX_TESTEXT ce1 j = (if j = ?i then Some ?s0 else RRARR_INDEX_TESTEXT ce j)" by auto
  from add_cent_rrset_full [OF a(1) assms(2)] have fr: "frame ce1 = frame ce" "m1 = full" by auto
  then have lc: "\<not> has (ce_flags ce1) DF_LOCAL" using assms(3) by (auto simp: frame_def)
  have s0: "RRARR_INDEX_TESTEXT ce1 ?i = Some ?s0" using a(5) i by simp
  from read_rrs_back [OF a(2) assms(4) tp(1) a(3) lc s0, of ?rrs dtsz f] st(1,2) obtain dtsz2 ce2 where
    r: "read_rrs (length ?rrs) ?sh dtsz ce1 full (concat (map rr_bytes ?rrs) @ f) = Some (Done (dtsz2, ce2, full, f))"
      "cent_ok ce2" "ce_qname ce2 = ce_qname ce1" "frame ce2 = frame ce1"
      "\<forall>j<NRRTOT. RRARR_INDEX_TESTEXT ce2 j = (if j = ?i then Some (?s0\<lparr>rs_rrs := ?rrs\<rparr>) else RRARR_INDEX_TESTEXT ce1 j)" by auto
  have rd: "fread 20 (set_bytes tp s @ f) = Some (put_fset ?sh, concat (map rr_bytes ?rrs) @ f)"
    using fread_append [of "put_fset ?sh" "concat (map rr_bytes ?rrs) @ f"] by (simp add: set_bytes_def)
  have gt: "\<not> fs_tp ?sh \<le> prevtp" using assms(5) tp(1) by (simp add: word_le_nat_alt)
  have run: "read_rrsets (Suc n) prevtp dtsz ce full (set_bytes tp s @ f) = read_rrsets n (of_nat tp) dtsz2 ce2 full f"
    using gt assms(4) a(1) fr(2) r(1) by (simp add: rd get_put_fset [OF st(3,4)] Let_def tp(1) by_type num) (simp add: tp(2))
  have "?s0\<lparr>rs_rrs := ?rrs\<rparr> = s\<lparr>rs_lent := None, rs_rrs := ?rrs\<rparr>" by (cases s) (simp add: set_head_def)
  with run r a(4,5) fr(1) show ?thesis by (intro exI [of _ dtsz2] exI [of _ ce2]) auto
qed

definition kept_on_disk :: "dns_cent_t \<Rightarrow> nat \<Rightarrow> bool" where
  "kept_on_disk c tp \<longleftrightarrow> on_disk (getrrset_eff c tp) \<noteq> None"

lemma read_rrsets_back:
  assumes "cent_ok ce" "\<not> negative ce" "\<not> has (ce_flags ce) DF_LOCAL" "sorted_wrt (<) (unat prevtp # tps)"
    and "list_all (\<lambda>tp. \<not> PDNSD_NOT_CACHED_TYPE tp \<and> RRARR_INDEX_TESTEXT ce (idx_of tp) = None \<and> pred_option storable (getrrset_eff c tp)) tps"
  shows "\<exists>dtsz' ce'. read_rrsets (length (filter (kept_on_disk c) tps)) prevtp dtsz ce full (concat (map (type_bytes c) tps) @ f) =
      Some (Done (dtsz', ce', full, f)) \<and>
    cent_ok ce' \<and> ce_qname ce' = ce_qname ce \<and> frame ce' = frame ce \<and>
    (\<forall>tp\<in>set tps. RRARR_INDEX_TESTEXT ce' (idx_of tp) = on_disk (getrrset_eff c tp)) \<and>
    (\<forall>j<NRRTOT. j \<notin> idx_of ` set tps \<longrightarrow> RRARR_INDEX_TESTEXT ce' j = RRARR_INDEX_TESTEXT ce j)"
  using assms
proof (induction tps arbitrary: prevtp dtsz ce)
  case (Cons tp tps)
  have tp: "\<not> PDNSD_NOT_CACHED_TYPE tp" "RRARR_INDEX_TESTEXT ce (idx_of tp) = None" "pred_option storable (getrrset_eff c tp)" "unat prevtp < tp"
    using Cons.prems(4,5) by simp_all
  note i = idx_of_less [OF tp(1)]
  have tps: "list_all (\<lambda>tp. \<not> PDNSD_NOT_CACHED_TYPE tp \<and> RRARR_INDEX_TESTEXT ce (idx_of tp) = None \<and> pred_option storable (getrrset_eff c tp)) tps"
    using Cons.prems(5) by simp
  have dif: "idx_of t \<noteq> idx_of tp" if t: "t \<in> set tps" for t
  proof
    assume e: "idx_of t = idx_of tp"
    have "\<not> PDNSD_NOT_CACHED_TYPE t" "tp < t" using t tps Cons.prems(4) by (simp_all add: list_all_iff)
    with idx_of_inj [OF this(1) tp(1) e] show False by simp
  qed
  then have new: "idx_of tp \<notin> idx_of ` set tps" by force
  show ?case
  proof (cases "on_disk (getrrset_eff c tp)")
    case None
    then have z: "filter (kept_on_disk c) (tp # tps) = filter (kept_on_disk c) tps" "type_bytes c tp = []"
      by (simp_all add: kept_on_disk_def type_bytes_def)
    have "sorted_wrt (<) (unat prevtp # tps)" using Cons.prems(4) by auto
    from Cons.IH [OF Cons.prems(1-3) this tps, of dtsz] z None i new tp(2) show ?thesis by auto
  next
    case (Some s')
    then obtain s where s: "getrrset_eff c tp = Some s" "s' = s\<lparr>rs_lent := None, rs_rrs := take 255 (rs_rrs s)\<rparr>"
      by (auto simp: on_disk_def split: option.splits if_splits)
    then have b: "type_bytes c tp = set_bytes tp s" "kept_on_disk c tp" using Some by (simp_all add: type_bytes_def kept_on_disk_def)
    have "storable s" using tp(3) s(1) by simp
    from read_set_back [OF Cons.prems(1-3) tp(1,4,2) this, of "length (filter (kept_on_disk c) tps)" dtsz "concat (map (type_bytes c) tps) @ f"]
    obtain dtsz1 ce1 where r: "read_rrsets (Suc (length (filter (kept_on_disk c) tps))) prevtp dtsz ce full (set_bytes tp s @ concat (map (type_bytes c) tps) @ f) =
          read_rrsets (length (filter (kept_on_disk c) tps)) (of_nat tp) dtsz1 ce1 full (concat (map (type_bytes c) tps) @ f)"
        "cent_ok ce1" "ce_qname ce1 = ce_qname ce" "frame ce1 = frame ce"
        "\<forall>j<NRRTOT. RRARR_INDEX_TESTEXT ce1 j = (if j = idx_of tp then Some s' else RRARR_INDEX_TESTEXT ce j)" unfolding s(2) by blast
    have ng: "\<not> negative ce1" "\<not> has (ce_flags ce1) DF_LOCAL" using r(4) Cons.prems(2,3) by (auto simp: frame_def negative_def)
    have so: "sorted_wrt (<) (unat (of_nat tp :: byte) # tps)" using Cons.prems(4) cached_byte [OF tp(1)] by simp
    have "list_all (\<lambda>tp. \<not> PDNSD_NOT_CACHED_TYPE tp \<and> RRARR_INDEX_TESTEXT ce1 (idx_of tp) = None \<and> pred_option storable (getrrset_eff c tp)) tps"
      using tps dif r(5) idx_of_less by (auto simp: list_all_iff)
    from Cons.IH [OF r(2) ng so this, of dtsz1] obtain dtsz2 ce2 where
      r2: "read_rrsets (length (filter (kept_on_disk c) tps)) (of_nat tp) dtsz1 ce1 full (concat (map (type_bytes c) tps) @ f) = Some (Done (dtsz2, ce2, full, f))"
        "cent_ok ce2" "ce_qname ce2 = ce_qname ce1" "frame ce2 = frame ce1"
        "\<forall>tp\<in>set tps. RRARR_INDEX_TESTEXT ce2 (idx_of tp) = on_disk (getrrset_eff c tp)"
        "\<forall>j<NRRTOT. j \<notin> idx_of ` set tps \<longrightarrow> RRARR_INDEX_TESTEXT ce2 j = RRARR_INDEX_TESTEXT ce1 j" by blast
    have "RRARR_INDEX_TESTEXT ce2 (idx_of tp) = Some s'" using r2(6) r(5) i new by simp
    with r r2 b Some show ?thesis by (intro exI [of _ dtsz2] exI [of _ ce2]) auto
  qed
qed (auto intro: exI)

subsection \<open>The round trip of an entry\<close>

definition cent_head :: "dns_cent_t \<Rightarrow> dns_file_t" where
  "cent_head c = \<lparr>fe_qlen = of_nat (length (ce_qname c) - 1), fe_num_rrs = of_nat (num_to_write c), fe_flags = ce_flags c,
     fe_c_ns = c_ns c, fe_c_soa = c_soa c\<rparr>"

definition cent_bytes :: "dns_cent_t \<Rightarrow> byte list" where
  "cent_bytes c = put_file (cent_head c) @ (if negative c then put_time (neg_ttl c) @ put_time (neg_ts c) else []) @
     butlast (ce_qname c) @ concat (map (type_bytes c) (RRITERLIST c))"

lemma iter_lists:
  "sorted_wrt (<) (0 # rrcachiterlist)" "sorted_wrt (<) (0 # rrmuiterlist)"
  "list_all (\<lambda>tp. \<not> PDNSD_NOT_CACHED_TYPE tp) rrcachiterlist" "list_all (\<lambda>tp. \<not> PDNSD_NOT_CACHED_TYPE tp) rrmuiterlist"
  "sort (map idx_of rrcachiterlist) = [0..<NRRTOT]" "map idx_of rrmuiterlist = [0..<NRRMU]"
  "length rrcachiterlist = NRRTOT" "length rrmuiterlist = NRRMU"
  by code_simp+

lemma take_iter: "take (NRRITERLIST c) (RRITERLIST c) = RRITERLIST c"
  by (simp add: NRRITERLIST_def RRITERLIST_def iter_lists)

lemma iter_sorted: "sorted_wrt (<) (0 # RRITERLIST c)" "list_all (\<lambda>tp. \<not> PDNSD_NOT_CACHED_TYPE tp) (RRITERLIST c)"
  using iter_lists(1-4) by (simp_all add: RRITERLIST_def)

lemma iter_mset: "mset (map idx_of (RRITERLIST c)) = mset [0..<RRARR_LEN c]"
proof -
  have "mset (map idx_of rrcachiterlist) = mset [0..<NRRTOT]" by (metis iter_lists(5) mset_sort)
  moreover have "mset (map idx_of rrmuiterlist) = mset [0..<NRRMU]" by (simp only: iter_lists(6))
  ultimately show ?thesis by (simp only: RRITERLIST_def RRARR_LEN_def split: if_split) simp
qed

lemma getrrset_eff_index:
  "\<not> negative c \<Longrightarrow> \<not> PDNSD_NOT_CACHED_TYPE tp \<Longrightarrow> getrrset_eff c tp = RRARR_INDEX_TESTEXT c (idx_of tp)"
  using idx_of_less [of tp] by (auto simp: getrrset_eff_def RRARR_INDEX_TESTEXT_def Let_def rr_numbers idx_of_def split: option.splits)

lemma num_to_write_filter:
  assumes "cent_ok c"
  shows "num_to_write c = length (filter (kept_on_disk c) (RRITERLIST c))"
proof -
  let ?Q = "\<lambda>j. on_disk (RRARR_INDEX_TESTEXT c j) \<noteq> None"
  have sh: "cent_shape c" using assms by (simp add: cent_ok_def)
  have "(case RRARR_INDEX c j of None \<Rightarrow> False | Some s \<Rightarrow> \<not> has (rs_flags s) CF_LOCAL) = ?Q j" if "j < RRARR_LEN c" for j
  proof -
    have "j < NRRTOT" using that RRARR_LEN_le [of c] by simp
    then have "RRARR_INDEX c j = RRARR_INDEX_TESTEXT c j"
      using that sh by (simp add: RRARR_INDEX_slots RRARR_INDEX_TESTEXT_slots slots_length)
    then show ?thesis by (simp add: on_disk_def split: option.split)
  qed
  then have "num_to_write c = length (filter ?Q [0..<RRARR_LEN c])"
    unfolding num_to_write_def by (intro arg_cong [where f = length] filter_cong) auto
  also have "\<dots> = size (filter_mset ?Q (mset (map idx_of (RRITERLIST c))))" by (simp only: iter_mset size_mset mset_filter [symmetric])
  also have "\<dots> = length (filter (?Q \<circ> idx_of) (RRITERLIST c))" by (simp only: mset_filter [symmetric] size_mset filter_map length_map)
  also have "\<dots> = length (filter (kept_on_disk c) (RRITERLIST c))"
  proof (cases "negative c")
    case False
    have "filter (?Q \<circ> idx_of) (RRITERLIST c) = filter (kept_on_disk c) (RRITERLIST c)"
      using iter_sorted(2) [of c] by (intro filter_cong refl) (simp add: kept_on_disk_def list_all_iff getrrset_eff_index [OF False])
    then show ?thesis by simp
  qed (simp add: RRITERLIST_def)
  finally show ?thesis .
qed

lemma num_to_write_byte:
  assumes "cent_ok c"
  shows "unat (of_nat (num_to_write c) :: byte) = num_to_write c"
proof -
  have "num_to_write c \<le> RRARR_LEN c" unfolding num_to_write_def by (rule order.trans [OF length_filter_le]) simp
  then have "num_to_write c < 256" using RRARR_LEN_le [of c] by (simp add: NRRTOT_def)
  then show ?thesis by (simp add: unat_of_nat)
qed

text \<open>The name without its final zero, and its length in one byte.\<close>

lemma qname_on_disk:
  assumes "cent_ok c"
  obtains ls where "wf_name ls" "ce_qname c = enc ls" "rhnlen (ce_qname c) = Some (length (ce_qname c))"
    "butlast (ce_qname c) @ [0] = ce_qname c" "unat (of_nat (length (ce_qname c) - 1) :: byte) = length (butlast (ce_qname c))"
proof -
  from assms obtain ls where ls: "wf_name ls" "ce_qname c = enc ls" by (auto simp: cent_ok_def cent_shape_def)
  have "name_at (ce_qname c) 0 ls" using name_at_enc [OF wf_name_lab_ok [OF ls(1)], of "[]"] ls(2) by simp
  then have r: "rhnlen (ce_qname c) = Some (length (ce_qname c))" using ls(2) by (simp add: rhnlen_def rhnlen_at_name)
  have l: "last (enc ls) = 0" by (induction ls) (auto simp: last_append)
  have e: "butlast (ce_qname c) @ [0] = ce_qname c" using l append_butlast_last_id [of "enc ls"] ls(2) by (cases ls) auto
  have "0 < length (enc ls)" by (cases ls) simp_all
  with ls have "length (ce_qname c) - 1 < 256" by (auto simp: wf_name_def DNSNAMEBUFSIZE_def)
  then have "unat (of_nat (length (ce_qname c) - 1) :: byte) = length (butlast (ce_qname c))" by (simp add: unat_of_nat)
  from that [OF ls r e this] show thesis .
qed

text \<open>The names of the cache pass the check.\<close>

lemma check_name_enc:
  "list_all lab63 ls \<Longrightarrow> check_name (pre @ butlast (enc ls)) (length (pre @ butlast (enc ls))) (length pre) = Some True"
proof (induction ls arbitrary: pre)
  case Nil
  then show ?case by (simp add: check_name.simps)
next
  case (Cons l ls)
  let ?nb = "pre @ of_nat (length l) # l @ butlast (enc ls)"
  have "enc ls \<noteq> []" by (cases ls) simp_all
  then have b: "pre @ butlast (enc (l # ls)) = ?nb" by (simp add: butlast_append)
  have l: "length l < 64" "l \<noteq> []" using Cons.prems by (auto simp: lab63_def)
  have u: "unat (of_nat (length l) :: byte) = length l" using l(1) by (simp add: unat_of_nat)
  have c: "(of_nat (length l) :: byte) \<noteq> 0" "\<not> (of_nat (length l) :: byte) > 63" using l u
    by (auto simp: word_less_nat_alt unat_eq_0 [symmetric])
  have "check_name ?nb (length ?nb) (length pre + (length l + 1)) = Some True"
    using Cons.IH [of "pre @ of_nat (length l) # l"] Cons.prems by (simp add: add.assoc)
  moreover have "rd ?nb (length pre) = Some (of_nat (length l))" by (simp add: rd_def nth_append)
  moreover have "length pre < length ?nb" "\<not> length pre + (length l + 1) > length ?nb" by simp_all
  ultimately show ?case using c unfolding b by (simp add: check_name.simps [of ?nb] u)
qed

lemma write_cent_room:
  assumes "cent_ok c" "length (cent_bytes c) \<le> fst w" "\<And>tp s. getrrset c tp = Some s \<Longrightarrow> short_rrs (rs_rrs s)"
  shows "write_cent c w = Some (True, wrote (cent_bytes c) w)"
proof -
  obtain ls where q: "rhnlen (ce_qname c) = Some (length (ce_qname c))" "butlast (ce_qname c) @ [0] = ce_qname c"
    "unat (of_nat (length (ce_qname c) - 1) :: byte) = length (butlast (ce_qname c))" by (rule qname_on_disk [OF assms(1)])
  let ?h = "put_file (cent_head c)" and ?n = "butlast (ce_qname c)" and ?s = "concat (map (type_bytes c) (RRITERLIST c))"
  let ?t = "if negative c then put_time (neg_ttl c) @ put_time (neg_ts c) else []"
  have room: "length ?h + length ?t + length ?n + length ?s \<le> fst w" using assms(2) by (simp add: cent_bytes_def add.assoc)
  have h: "fwrite ?h w = (True, wrote ?h w)" using room by (intro fwrite_room) linarith
  have t: "(if negative c then fwrite (put_time (neg_ttl c) @ put_time (neg_ts c)) (wrote ?h w) else (True, wrote ?h w)) = (True, wrote (?h @ ?t) w)"
    using room by (auto simp: fwrite_room simp del: put_lengths)
  have z: "(of_nat (length (ce_qname c) - 1) :: byte) = 0 \<longleftrightarrow> ?n = []" unfolding unat_eq_0 [symmetric] q(3) by (simp del: length_butlast)
  have tk: "take (length ?n) (ce_qname c) = ?n" by (simp add: butlast_conv_take)
  have n: "(if (of_nat (length (ce_qname c) - 1) :: byte) \<noteq> 0 then fwrite (take (unat (of_nat (length (ce_qname c) - 1) :: byte)) (ce_qname c)) (wrote (?h @ ?t) w)
      else (True, wrote (?h @ ?t) w)) = (True, wrote (?h @ ?t @ ?n) w)"
  proof (cases "?n = []")
    case False
    have "fwrite ?n (wrote (?h @ ?t) w) = (True, wrote ?n (wrote (?h @ ?t) w))" using room by (intro fwrite_room) (simp del: length_butlast)
    with False show ?thesis using z unfolding q(3) tk by simp
  qed (use z in simp)
  have "write_rrsets c (RRITERLIST c) (wrote (?h @ ?t @ ?n) w) = (True, wrote ?s (wrote (?h @ ?t @ ?n) w))"
  proof (rule write_rrsets_room)
    fix tp s assume tp: "tp \<in> set (RRITERLIST c)" "getrrset_eff c tp = Some s"
    then have ng: "\<not> negative c" by (auto simp: RRITERLIST_def)
    have "\<not> PDNSD_NOT_CACHED_TYPE tp" using tp(1) iter_sorted(2) [of c] by (simp add: list_all_iff)
    then have "getrrset c tp = Some s" using tp(2) ng by (auto simp: getrrset_def PDNSD_NOT_CACHED_TYPE_def rr_consts)
    then show "short_rrs (rs_rrs s)" by (rule assms(3))
  qed (use room in \<open>simp del: length_butlast\<close>)
  then show ?thesis
    unfolding write_cent_def q(1) Option.bind.simps Let_def cent_head_def [symmetric] h prod.case simp_thms if_True if_False t n take_iter
    by (simp add: cent_bytes_def)
qed

text \<open>Reading the parts before the sets.\<close>

lemma read_cent_back:
  assumes "cent_ok c" "time_ok (neg_ttl c)" "time_ok (neg_ts c)"
  shows "\<exists>ce. cent_ok ce \<and> ce_qname ce = ce_qname c \<and> ce_flags ce = ce_flags c \<and> c_ns ce = c_ns c \<and> c_soa ce = c_soa c \<and>
    (negative c \<longrightarrow> neg_ttl ce = neg_ttl c \<and> neg_ts ce = neg_ts c) \<and> (\<forall>j<NRRTOT. RRARR_INDEX_TESTEXT ce j = None) \<and>
    read_cent dtsz full (cent_bytes c @ f) = read_rrsets (num_to_write c) 0 dtsz ce full (concat (map (type_bytes c) (RRITERLIST c)) @ f)"
proof -
  obtain ls where q: "wf_name ls" "ce_qname c = enc ls" "butlast (ce_qname c) @ [0] = ce_qname c"
    "unat (of_nat (length (ce_qname c) - 1) :: byte) = length (butlast (ce_qname c))" by (rule qname_on_disk [OF assms(1)])
  let ?h = "cent_head c" and ?n = "butlast (ce_qname c)" and ?s = "concat (map (type_bytes c) (RRITERLIST c)) @ f"
  let ?t = "if negative c then put_time (neg_ttl c) @ put_time (neg_ts c) else []"
  define t where "t = (if negative c then put_time (neg_ttl c) @ put_time (neg_ts c) else replicate 16 0)"
  have fl: "has (fe_flags ?h) DF_NEGATIVE = negative c" by (simp add: cent_head_def negative_def)
  have r1: "fread 6 (cent_bytes c @ f) = Some (put_file ?h, ?t @ ?n @ ?s)"
    using fread_append [of "put_file ?h" "?t @ ?n @ ?s"] by (simp add: cent_bytes_def)
  have r2: "(if has (fe_flags ?h) DF_NEGATIVE then fread 16 (?t @ ?n @ ?s) else Some (replicate 16 0, ?t @ ?n @ ?s)) = Some (t, ?n @ ?s)"
    using fread_append [of "put_time (neg_ttl c) @ put_time (neg_ts c)" "?n @ ?s"] by (simp add: fl t_def)
  have ql: "unat (fe_qlen ?h) = length ?n" using q(4) by (simp add: cent_head_def)
  have z: "fe_qlen ?h = 0 \<longleftrightarrow> ?n = []" unfolding unat_eq_0 [symmetric] ql by (simp del: length_butlast)
  have r3: "(if fe_qlen ?h \<noteq> 0 then fread (unat (fe_qlen ?h)) (?n @ ?s) else Some ([], ?n @ ?s)) = Some (?n, ?s)"
    using z ql by (cases "?n = []") (simp_all del: length_butlast)
  have ck: "check_name ?n (unat (fe_qlen ?h)) 0 = Some True"
    using check_name_enc [of ls "[]"] q(1,2) ql by (simp add: wf_name_def)
  have at: "name_at (?n @ [0]) 0 ls" using name_at_enc [OF wf_name_lab_ok [OF q(1)], of "[]"] q(2,3) by simp
  from init_cent_ok [OF at q(1), of full "get_time (take 8 t)" "get_time (drop 8 t)" "ce_flags c"] obtain ce a where
    i: "init_cent full (?n @ [0]) (get_time (take 8 t)) (get_time (drop 8 t)) (ce_flags c) = Some (Some ce, a)" "cent_ok ce" "ce_qname ce = enc ls"
      "ce_flags ce = ce_flags c" "neg_ttl ce = get_time (take 8 t)" "neg_ts ce = get_time (drop 8 t)" "\<forall>j<NRRTOT. RRARR_INDEX_TESTEXT ce j = None"
    by auto
  have a: "a = full" using i(1) by (auto simp: init_cent_def bind_eq_Some_conv)
  let ?ce = "ce\<lparr>c_ns := c_ns c, c_soa := c_soa c\<rparr>"
  have "read_cent dtsz full (cent_bytes c @ f) = read_rrsets (num_to_write c) 0 dtsz ?ce full ?s"
    using i(1) a unfolding read_cent_def r1 option.case prod.case Let_def get_put_file r2 r3 ck
    by (simp add: cent_head_def num_to_write_byte [OF assms(1)])
  moreover have "neg_ttl ce = neg_ttl c \<and> neg_ts ce = neg_ts c" if "negative c"
    using i(5,6) that assms(2,3) by (simp add: t_def get_put_time)
  ultimately show ?thesis using i(2,3,4,7) q(2) by (intro exI [of _ ?ce]) simp
qed

lemma not_iterated:
  assumes "\<not> PDNSD_NOT_CACHED_TYPE tp" "tp \<notin> set (RRITERLIST c)" "\<not> negative c"
  shows "idx_of tp \<notin> idx_of ` set (RRITERLIST c)" "RRARR_INDEX_TESTEXT c (idx_of tp) = None"
proof -
  show n: "idx_of tp \<notin> idx_of ` set (RRITERLIST c)"
    using assms(2) idx_of_inj [OF assms(1)] iter_sorted(2) [of c] by (auto simp: list_all_iff)
  have "set (map idx_of (RRITERLIST c)) = {0..<RRARR_LEN c}" using iter_mset [of c] by (metis set_mset_mset set_upt)
  with n have "RRARR_LEN c \<le> idx_of tp" by (simp add: not_less [symmetric])
  then show "RRARR_INDEX_TESTEXT c (idx_of tp) = None" using assms(3) idx_of_less [OF assms(1)]
    by (auto simp: RRARR_LEN_def RRARR_INDEX_TESTEXT_def split: if_splits)
qed

lemma read_all_sets_back:
  assumes "cent_ok c" "\<not> negative c" "\<forall>tp s. getrrset c tp = Some s \<longrightarrow> storable s"
    and "cent_ok ce" "\<not> negative ce" "\<not> has (ce_flags ce) DF_LOCAL" "\<forall>j<NRRTOT. RRARR_INDEX_TESTEXT ce j = None"
  shows "\<exists>dtsz' c'. read_rrsets (num_to_write c) 0 dtsz ce full (concat (map (type_bytes c) (RRITERLIST c)) @ f) = Some (Done (dtsz', c', full, f)) \<and>
    cent_ok c' \<and> ce_qname c' = ce_qname ce \<and> frame c' = frame ce \<and>
    (\<forall>tp. \<not> PDNSD_NOT_CACHED_TYPE tp \<longrightarrow> getrrset c' tp = on_disk (getrrset c tp))"
proof -
  have so: "sorted_wrt (<) (unat (0 :: byte) # RRITERLIST c)" using iter_sorted(1) [of c] by simp
  have "pred_option storable (getrrset_eff c tp)" if "\<not> PDNSD_NOT_CACHED_TYPE tp" for tp
    using assms(3) that by (auto simp: getrrset_idx [symmetric] pred_option_def getrrset_eff_index [OF assms(2)])
  then have "list_all (\<lambda>tp. \<not> PDNSD_NOT_CACHED_TYPE tp \<and> RRARR_INDEX_TESTEXT ce (idx_of tp) = None \<and> pred_option storable (getrrset_eff c tp)) (RRITERLIST c)"
    using iter_sorted(2) [of c] assms(7) idx_of_less by (auto simp: list_all_iff)
  from read_rrsets_back [OF assms(4-6) so this, of dtsz f] obtain dtsz' c' where
    r: "read_rrsets (num_to_write c) 0 dtsz ce full (concat (map (type_bytes c) (RRITERLIST c)) @ f) = Some (Done (dtsz', c', full, f))"
      "cent_ok c'" "ce_qname c' = ce_qname ce" "frame c' = frame ce"
      "\<forall>tp\<in>set (RRITERLIST c). RRARR_INDEX_TESTEXT c' (idx_of tp) = on_disk (getrrset_eff c tp)"
      "\<forall>j<NRRTOT. j \<notin> idx_of ` set (RRITERLIST c) \<longrightarrow> RRARR_INDEX_TESTEXT c' j = RRARR_INDEX_TESTEXT ce j"
    unfolding num_to_write_filter [OF assms(1)] by blast
  have "getrrset c' tp = on_disk (getrrset c tp)" if tp: "\<not> PDNSD_NOT_CACHED_TYPE tp" for tp
  proof (cases "tp \<in> set (RRITERLIST c)")
    case True
    with r(5) show ?thesis by (simp add: getrrset_idx [OF tp] getrrset_eff_index [OF assms(2) tp])
  next
    case False
    from not_iterated [OF tp this assms(2)] r(6) assms(7) idx_of_less [OF tp] show ?thesis
      by (simp add: getrrset_idx [OF tp] on_disk_def)
  qed
  with r show ?thesis by blast
qed

text \<open>
  C12.  What is written for an entry is read back.  For a well-formed entry that is not marked local, whose
  records are distinct and shorter than 64 kB, and with enough room on the disk and memory: writing it
  succeeds, and reading what was written, whatever follows it in the file, gives a well-formed entry
  with the same name, flags and references to the name server and SOA owners, the same times if it is negative,
  and, for every type, the set that was there, without its place in the global list and with the first
  255 records, or none if the set was local.
\<close>

theorem disk_roundtrip:
  assumes "cent_ok c" "\<not> has (ce_flags c) DF_LOCAL" "time_ok (neg_ttl c)" "time_ok (neg_ts c)"
    and "\<forall>tp s. getrrset c tp = Some s \<longrightarrow> storable s"
  shows "\<exists>bs. (\<forall>w. length bs \<le> fst w \<longrightarrow> write_cent c w = Some (True, fst w - length bs, snd w @ bs)) \<and>
    (\<forall>dtsz f. \<exists>dtsz' c'. read_cent dtsz (\<lambda>_. True) (bs @ f) = Some (Done (dtsz', c', \<lambda>_. True, f)) \<and>
      cent_ok c' \<and> ce_qname c' = ce_qname c \<and> ce_flags c' = ce_flags c \<and> c_ns c' = c_ns c \<and> c_soa c' = c_soa c \<and>
      (negative c \<longrightarrow> neg_ttl c' = neg_ttl c \<and> neg_ts c' = neg_ts c) \<and>
      (\<forall>tp. \<not> PDNSD_NOT_CACHED_TYPE tp \<longrightarrow> getrrset c' tp = on_disk (getrrset c tp)))"
proof (intro exI [of _ "cent_bytes c"] conjI allI impI)
  fix w :: wfile
  assume "length (cent_bytes c) \<le> fst w"
  from write_cent_room [OF assms(1) this] assms(5) show "write_cent c w = Some (True, fst w - length (cent_bytes c), snd w @ cent_bytes c)"
    by (simp add: storable_def wrote_def)
next
  fix dtsz f
  from read_cent_back [OF assms(1,3,4)] obtain ce where
    ce: "cent_ok ce" "ce_qname ce = ce_qname c" "ce_flags ce = ce_flags c" "c_ns ce = c_ns c" "c_soa ce = c_soa c"
      "negative c \<longrightarrow> neg_ttl ce = neg_ttl c \<and> neg_ts ce = neg_ts c" "\<forall>j<NRRTOT. RRARR_INDEX_TESTEXT ce j = None"
      "read_cent dtsz full (cent_bytes c @ f) = read_rrsets (num_to_write c) 0 dtsz ce full (concat (map (type_bytes c) (RRITERLIST c)) @ f)" by blast
  show "\<exists>dtsz' c'. read_cent dtsz full (cent_bytes c @ f) = Some (Done (dtsz', c', full, f)) \<and>
      cent_ok c' \<and> ce_qname c' = ce_qname c \<and> ce_flags c' = ce_flags c \<and> c_ns c' = c_ns c \<and> c_soa c' = c_soa c \<and>
      (negative c \<longrightarrow> neg_ttl c' = neg_ttl c \<and> neg_ts c' = neg_ts c) \<and>
      (\<forall>tp. \<not> PDNSD_NOT_CACHED_TYPE tp \<longrightarrow> getrrset c' tp = on_disk (getrrset c tp))"
  proof (cases "negative c")
    case True
    then have "num_to_write c = 0" "RRITERLIST c = []" by (simp_all add: num_to_write_def RRARR_LEN_def RRITERLIST_def)
    with ce True show ?thesis by (intro exI [of _ dtsz] exI [of _ ce]) (auto simp: getrrset_def negative_def on_disk_def)
  next
    case False
    have ng: "\<not> negative ce" "\<not> has (ce_flags ce) DF_LOCAL" using False ce(3) assms(2) by (simp_all add: negative_def)
    from read_all_sets_back [OF assms(1) False assms(5) ce(1) ng ce(7), of dtsz f] ce False show ?thesis by (simp add: frame_def) metis
  qed
qed

theorem disk_roundtrip_witness:
  "\<exists>c bs. cent_ok c \<and> (\<exists>s. getrrset c T_A = Some s \<and> rs_rrs s = [[10, 0, 0, 1]]) \<and>
    (\<forall>w. length bs \<le> fst w \<longrightarrow> write_cent c w = Some (True, fst w - length bs, snd w @ bs)) \<and>
    (\<exists>dtsz' c'. read_cent 512 (\<lambda>_. True) bs = Some (Done (dtsz', c', \<lambda>_. True, [])) \<and>
      (\<exists>s. getrrset c' T_A = Some s \<and> rs_rrs s = [[10, 0, 0, 1]]))"
proof -
  let ?s = "\<lparr>rs_lent = None, rs_ttl = 300, rs_ts = 1000, rs_flags = 0, rs_rrs = [[10, 0, 0, 1]]\<rparr>"
  obtain c0 where c0: "cent_ok c0" "ce_flags c0 = 0" "neg_ttl c0 = 7" "neg_ts c0 = 8" "\<forall>j<NRRTOT. RRARR_INDEX_TESTEXT c0 j = None"
    using init_cent_ok [OF name_at_enc [of "[[97]]" "[]"], of full 7 8 0] by (auto simp: lab_ok_def wf_name_def lab63_def DNSNAMEBUFSIZE_def)
  have ta: "\<not> PDNSD_NOT_CACHED_TYPE T_A" by code_simp
  from add_cent_rr_ok [OF c0(1) ta refl, of full "[]" 300 1000 0 "[10, 0, 0, 1]"] c0(2,5) idx_of_less [OF ta] obtain c l a where
    c: "add_cent_rr full [] c0 T_A 300 1000 0 [10, 0, 0, 1] = Some (True, c, l, a)" "cent_ok c"
      "\<forall>j<NRRTOT. RRARR_INDEX_TESTEXT c j = (if j = idx_of T_A then Some ?s else None)"
    by (auto simp: idx_of_def has_def)
  have "\<not> negative c0" using c0(2) by (simp add: negative_def has_def)
  from add_cent_rr_full [OF c(1) this] c0 have f: "ce_flags c = 0" "neg_ttl c = 7" "neg_ts c = 8" by (simp_all add: frame_def)
  have g: "getrrset c T_A = Some ?s" using c(3) idx_of_less [OF ta] by (simp add: getrrset_idx [OF ta])
  have st: "storable s" if "getrrset c tp = Some s" for tp s
  proof (cases "PDNSD_NOT_CACHED_TYPE tp")
    case True
    with that show ?thesis by (auto simp: getrrset_def getrrset_eff_def PDNSD_NOT_CACHED_TYPE_def rr_consts Let_def rr_numbers split: if_splits)
  next
    case False
    with that c(3) idx_of_less [OF False] show ?thesis
      by (auto simp: getrrset_idx storable_def time_ok_def split: if_splits)
  qed
  have "\<not> has (ce_flags c) DF_LOCAL" "time_ok (neg_ttl c)" "time_ok (neg_ts c)" using f by (simp_all add: has_def time_ok_def)
  from disk_roundtrip [OF c(2) this] st obtain bs where
    b: "\<forall>w. length bs \<le> fst w \<longrightarrow> write_cent c w = Some (True, fst w - length bs, snd w @ bs)"
      "\<exists>dtsz' c'. read_cent 512 full (bs @ []) = Some (Done (dtsz', c', full, [])) \<and> getrrset c' T_A = on_disk (getrrset c T_A)"
    using ta by blast
  have "on_disk (getrrset c T_A) = Some ?s" using g by (simp add: on_disk_def has_def)
  with b g c(2) show ?thesis by (intro exI [of _ c] exI [of _ bs]) auto
qed

end
