(* ===== verification/Locks.thy ===== *)
theory Locks
  imports Prelude "HOL-Library.Multiset"
begin

text \<open>
  The lock of the cache (\<^verbatim>\<open>lock_cache_r\<close> and its relatives in \<^verbatim>\<open>cache.c\<close>): many readers or one writer,
  with a mutex, two condition variables and a suspension of readers when many writers wait.  What a
  thread does while it has the mutex is one step; between steps threads run in any order, and a thread
  that waits on a condition variable may wake up without a signal.
\<close>

subsection \<open>Critical sections\<close>

record cache_lock =
  cache_w_lock :: int
  cache_r_lock :: int
  r_pend :: int
  rw_pend :: int
  r_susp :: int

definition init_lock :: cache_lock where
  "init_lock = \<lparr>cache_w_lock = 0, cache_r_lock = 0, r_pend = 0, rw_pend = 0, r_susp = 0\<rparr>"

definition SUSP_THRESH :: "int \<Rightarrow> int" where
  "SUSP_THRESH r = r div 2 + 2"

definition SOFTLOCK_MAXTRIES :: nat where
  "SOFTLOCK_MAXTRIES = 1000"

text \<open>Which threads a critical section wakes when it ends.\<close>

datatype wake = NoWake | SignalW | BroadcastR

text \<open>
  \<^verbatim>\<open>lock_cache_r\<close> announces itself and then tests the condition of its loop, again after each wait.
\<close>

definition lock_cache_r_enter :: "cache_lock \<Rightarrow> cache_lock" where
  "lock_cache_r_enter l = l\<lparr>r_pend := r_pend l + 1\<rparr>"

definition lock_cache_r_test :: "cache_lock \<Rightarrow> bool \<times> cache_lock" where
  "lock_cache_r_test l =
     (let l = (if rw_pend l > SUSP_THRESH (r_pend l) then l\<lparr>r_susp := 1\<rparr> else l) in
      if r_susp l \<noteq> 0 \<or> cache_w_lock l \<noteq> 0 then (False, l)
      else (True, l\<lparr>cache_r_lock := cache_r_lock l + 1, r_pend := r_pend l - 1\<rparr>))"

definition unlock_cache_r :: "cache_lock \<Rightarrow> cache_lock \<times> wake" where
  "unlock_cache_r l =
     (let l = (if cache_r_lock l > 0 then l\<lparr>cache_r_lock := cache_r_lock l - 1\<rparr> else l) in
      (l, if cache_r_lock l = 0 then SignalW else NoWake))"

definition lock_cache_rw_enter :: "cache_lock \<Rightarrow> cache_lock" where
  "lock_cache_rw_enter l = l\<lparr>rw_pend := rw_pend l + 1\<rparr>"

definition lock_cache_rw_test :: "cache_lock \<Rightarrow> bool \<times> cache_lock" where
  "lock_cache_rw_test l =
     (if cache_w_lock l \<noteq> 0 \<or> cache_r_lock l \<noteq> 0 then (False, l)
      else (True, l\<lparr>cache_w_lock := 1, rw_pend := rw_pend l - 1\<rparr>))"

text \<open>\<^verbatim>\<open>timedlock_cache_rw\<close> is the same with an exit when the time is over.\<close>

definition timedlock_timeout :: "cache_lock \<Rightarrow> cache_lock" where
  "timedlock_timeout l = l\<lparr>rw_pend := rw_pend l - 1\<rparr>"

definition unlock_cache_rw :: "cache_lock \<Rightarrow> cache_lock \<times> wake" where
  "unlock_cache_rw l =
     (let l = l\<lparr>cache_w_lock := 0, r_susp := 0\<rparr> in
      (l, if r_pend l = 0 \<or> rw_pend l > SUSP_THRESH (r_pend l) then SignalW else BroadcastR))"

text \<open>\<^verbatim>\<open>yield_lock_cache_rw\<close> gives the lock up only if another thread waits.\<close>

definition yields :: "cache_lock \<Rightarrow> bool" where
  "yields l \<longleftrightarrow> \<not> (r_pend l = 0 \<and> rw_pend l = 0)"

definition softlock_cache_r_try :: "cache_lock \<Rightarrow> bool \<times> cache_lock" where
  "softlock_cache_r_try l = (if cache_w_lock l = 0 then (True, l\<lparr>cache_r_lock := cache_r_lock l + 1\<rparr>) else (False, l))"

definition softunlock_cache_r :: "cache_lock \<Rightarrow> cache_lock" where
  "softunlock_cache_r l = (if cache_r_lock l > 0 then l\<lparr>cache_r_lock := cache_r_lock l - 1\<rparr> else l)"

definition softlock_cache_rw_try :: "cache_lock \<Rightarrow> bool \<times> cache_lock" where
  "softlock_cache_rw_try l = (if \<not> (cache_w_lock l \<noteq> 0 \<or> cache_r_lock l \<noteq> 0) then (True, l\<lparr>cache_w_lock := 1\<rparr>) else (False, l))"

definition softunlock_cache_rw :: "cache_lock \<Rightarrow> cache_lock" where
  "softunlock_cache_rw l = l\<lparr>cache_w_lock := 0\<rparr>"

text \<open>\<^verbatim>\<open>softlock_mutex\<close>: the argument tells which attempts to take the mutex succeed.\<close>

function softlock_mutex :: "(nat \<Rightarrow> bool) \<Rightarrow> nat \<Rightarrow> bool" where
  "softlock_mutex trylock tr =
     (if trylock tr then True else if tr + 1 \<ge> SOFTLOCK_MAXTRIES then False else softlock_mutex trylock (tr + 1))"
  by pat_completeness auto
termination by (relation "measure (\<lambda>(t, tr). SOFTLOCK_MAXTRIES - tr)") auto

declare softlock_mutex.simps [simp del]

subsection \<open>Threads\<close>

text \<open>
  What a thread is doing: nothing, sleeping on \<^verbatim>\<open>r_cond\<close> or \<^verbatim>\<open>rw_cond\<close> (with a time limit or not), about
  to test again after it was woken, holding the lock, pausing in \<^verbatim>\<open>yield_lock_cache_rw\<close>, or trying
  to get the lock with one of the functions for the end of the program.
\<close>

datatype tstate = Idle | SleepR | WakeR | SleepW bool | WakeW bool | HoldR | HoldW | Yielded | SoftR nat | SoftW nat

inductive wakes :: "wake \<Rightarrow> tstate list \<Rightarrow> tstate list \<Rightarrow> bool" where
  none: "wakes NoWake ts ts"
| signal: "i < length ts \<Longrightarrow> ts ! i = SleepW b \<Longrightarrow> wakes SignalW ts (ts[i := WakeW b])"
| signal_none: "\<forall>b. SleepW b \<notin> set ts \<Longrightarrow> wakes SignalW ts ts"
| broadcast: "wakes BroadcastR ts (map (\<lambda>t. if t = SleepR then WakeR else t) ts)"

datatype action = ALockR | ATestR | AUnlockR | ALockW | ATestW | AUnlockW | AYield | ASpurious | ATimeout | ASoft

text \<open>
  One step of the thread \<open>i\<close>, that is, one critical section.  The first \<open>k\<close> threads are the ones that
  may use \<^verbatim>\<open>timedlock_cache_rw\<close>.
\<close>

inductive lock_step :: "nat \<Rightarrow> action \<Rightarrow> cache_lock \<times> tstate list \<Rightarrow> cache_lock \<times> tstate list \<Rightarrow> bool" for k where
  lock_r: "i < length ts \<Longrightarrow> ts ! i = Idle \<Longrightarrow> lock_cache_r_test (lock_cache_r_enter l) = (ok, l') \<Longrightarrow>
    lock_step k ALockR (l, ts) (l', ts[i := if ok then HoldR else SleepR])"
| test_r: "i < length ts \<Longrightarrow> ts ! i = WakeR \<Longrightarrow> lock_cache_r_test l = (ok, l') \<Longrightarrow>
    lock_step k ATestR (l, ts) (l', ts[i := if ok then HoldR else SleepR])"
| unlock_r: "i < length ts \<Longrightarrow> ts ! i = HoldR \<Longrightarrow> unlock_cache_r l = (l', w) \<Longrightarrow> wakes w (ts[i := Idle]) ts' \<Longrightarrow>
    lock_step k AUnlockR (l, ts) (l', ts')"
| lock_w: "i < length ts \<Longrightarrow> ts ! i = Idle \<Longrightarrow> lock_cache_rw_test (lock_cache_rw_enter l) = (ok, l') \<Longrightarrow> timed \<longrightarrow> i < k \<Longrightarrow>
    lock_step k ALockW (l, ts) (l', ts[i := if ok then HoldW else SleepW timed])"
| test_w: "i < length ts \<Longrightarrow> ts ! i = WakeW timed \<Longrightarrow> lock_cache_rw_test l = (ok, l') \<Longrightarrow>
    lock_step k ATestW (l, ts) (l', ts[i := if ok then HoldW else SleepW timed])"
| unlock_w: "i < length ts \<Longrightarrow> ts ! i = HoldW \<Longrightarrow> unlock_cache_rw l = (l', w) \<Longrightarrow> wakes w (ts[i := Idle]) ts' \<Longrightarrow>
    lock_step k AUnlockW (l, ts) (l', ts')"
| yield_out: "i < length ts \<Longrightarrow> ts ! i = HoldW \<Longrightarrow> yields l \<Longrightarrow> unlock_cache_rw l = (l', w) \<Longrightarrow> wakes w (ts[i := Yielded]) ts' \<Longrightarrow>
    lock_step k AYield (l, ts) (l', ts')"
| yield_in: "i < length ts \<Longrightarrow> ts ! i = Yielded \<Longrightarrow> lock_cache_rw_test (lock_cache_rw_enter l) = (ok, l') \<Longrightarrow>
    lock_step k AYield (l, ts) (l', ts[i := if ok then HoldW else SleepW False])"
| spurious_r: "i < length ts \<Longrightarrow> ts ! i = SleepR \<Longrightarrow> lock_step k ASpurious (l, ts) (l, ts[i := WakeR])"
| spurious_w: "i < length ts \<Longrightarrow> ts ! i = SleepW b \<Longrightarrow> lock_step k ASpurious (l, ts) (l, ts[i := WakeW b])"
| timeout: "i < length ts \<Longrightarrow> ts ! i = SleepW True \<Longrightarrow> lock_step k ATimeout (l, ts) (timedlock_timeout l, ts[i := Idle])"
| soft_start: "i < length ts \<Longrightarrow> ts ! i = Idle \<Longrightarrow> t \<in> {SoftR 0, SoftW 0} \<Longrightarrow> lock_step k ASoft (l, ts) (l, ts[i := t])"
| soft_r: "i < length ts \<Longrightarrow> ts ! i = SoftR tr \<Longrightarrow> softlock_cache_r_try l = (ok, l') \<Longrightarrow>
    lock_step k ASoft (l, ts) (l', ts[i := if ok then HoldR else if tr + 1 \<ge> SOFTLOCK_MAXTRIES then Idle else SoftR (tr + 1)])"
| soft_w: "i < length ts \<Longrightarrow> ts ! i = SoftW tr \<Longrightarrow> softlock_cache_rw_try l = (ok, l') \<Longrightarrow>
    lock_step k ASoft (l, ts) (l', ts[i := if ok then HoldW else if tr + 1 \<ge> SOFTLOCK_MAXTRIES then Idle else SoftW (tr + 1)])"
| soft_mutex: "i < length ts \<Longrightarrow> ts ! i \<in> {SoftR tr, SoftW tr} \<Longrightarrow> lock_step k ASoft (l, ts) (l, ts[i := Idle])"
| soft_unlock_r: "i < length ts \<Longrightarrow> ts ! i = HoldR \<Longrightarrow> lock_step k ASoft (l, ts) (softunlock_cache_r l, ts[i := Idle])"
| soft_unlock_w: "i < length ts \<Longrightarrow> ts ! i = HoldW \<Longrightarrow> lock_step k ASoft (l, ts) (softunlock_cache_rw l, ts[i := Idle])"

text \<open>The states that \<open>n\<close> threads reach with steps of the kinds in \<open>A\<close>.\<close>

inductive lock_reach :: "action set \<Rightarrow> nat \<Rightarrow> nat \<Rightarrow> cache_lock \<times> tstate list \<Rightarrow> bool" for A k n where
  start: "lock_reach A k n (init_lock, replicate n Idle)"
| step: "lock_reach A k n s \<Longrightarrow> a \<in> A \<Longrightarrow> lock_step k a s s' \<Longrightarrow> lock_reach A k n s'"

inductive_cases wakesE [elim!]: "wakes NoWake ts ts'" "wakes SignalW ts ts'" "wakes BroadcastR ts ts'"

lemmas lock_defs = lock_cache_r_enter_def lock_cache_r_test_def unlock_cache_r_def lock_cache_rw_enter_def lock_cache_rw_test_def
  timedlock_timeout_def unlock_cache_rw_def softlock_cache_r_try_def softunlock_cache_r_def softlock_cache_rw_try_def softunlock_cache_rw_def

subsection \<open>Mutual exclusion\<close>

definition num :: "(tstate \<Rightarrow> bool) \<Rightarrow> tstate list \<Rightarrow> int" where
  "num P ts = int (length (filter P ts))"

fun pendR :: "tstate \<Rightarrow> bool" where
  "pendR SleepR = True" | "pendR WakeR = True" | "pendR _ = False"

fun pendW :: "tstate \<Rightarrow> bool" where
  "pendW (SleepW b) = True" | "pendW (WakeW b) = True" | "pendW _ = False"

lemma num_Cons [simp]: "num P (t # ts) = (if P t then 1 else 0) + num P ts"
  by (simp add: num_def)

lemma num_update: "i < length ts \<Longrightarrow> num P (ts[i := x]) = num P ts - (if P (ts ! i) then 1 else 0) + (if P x then 1 else 0)"
proof (induction ts arbitrary: i)
  case (Cons t ts)
  then show ?case by (cases i) simp_all
qed simp

lemma num_nonneg [simp]: "0 \<le> num P ts"
  by (simp add: num_def)

lemma num_pos: "i < length ts \<Longrightarrow> P (ts ! i) \<Longrightarrow> 0 < num P ts"
  by (auto simp: num_def filter_empty_conv)

lemma num_zero: "num P ts = 0 \<longleftrightarrow> (\<forall>t\<in>set ts. \<not> P t)"
  by (simp add: num_def filter_empty_conv)

lemma wakes_num:
  assumes "wakes w ts ts'" "\<And>b. P (SleepW b) = P (WakeW b)" "P SleepR = P WakeR"
  shows "num P ts' = num P ts"
  using assms(1)
proof cases
  case (signal i b)
  with assms(2) show ?thesis by (simp add: num_update)
next
  case broadcast
  have "length (filter P (map (\<lambda>t. if t = SleepR then WakeR else t) ts)) = length (filter P ts)"
    using assms(3) by (induction ts) auto
  with broadcast show ?thesis by (simp add: num_def)
qed simp_all

definition lock_inv :: "cache_lock \<times> tstate list \<Rightarrow> bool" where
  "lock_inv s = (let (l, ts) = s in
     cache_r_lock l = num (\<lambda>t. t = HoldR) ts \<and> cache_w_lock l = num (\<lambda>t. t = HoldW) ts \<and>
     cache_w_lock l \<le> 1 \<and> (cache_w_lock l = 0 \<or> cache_r_lock l = 0) \<and>
     r_pend l = num pendR ts \<and> rw_pend l = num pendW ts \<and> r_susp l \<in> {0, 1})"

lemma lock_inv_init: "lock_inv (init_lock, replicate n Idle)"
  by (simp add: lock_inv_def init_lock_def num_def)

lemma lock_inv_step:
  assumes "lock_step k a s s'" "lock_inv s"
  shows "lock_inv s'"
  using assms
proof (induction rule: lock_step.induct)
  case (unlock_r i ts l l' w ts')
  note w = wakes_num [OF unlock_r(4)] and p = num_pos [OF unlock_r(1), of "\<lambda>t. t = HoldR"]
  from unlock_r p show ?case by (auto simp: lock_inv_def w num_update lock_defs)
next
  case (unlock_w i ts l l' w ts')
  note w = wakes_num [OF unlock_w(4)] and p = num_pos [OF unlock_w(1), of "\<lambda>t. t = HoldW"]
  from unlock_w p show ?case by (auto simp: lock_inv_def w num_update lock_defs)
next
  case (yield_out i ts l l' w ts')
  note w = wakes_num [OF yield_out(5)] and p = num_pos [OF yield_out(1), of "\<lambda>t. t = HoldW"]
  from yield_out p show ?case by (auto simp: lock_inv_def w num_update lock_defs)
next
  case (soft_unlock_r i ts l)
  with num_pos [of i ts "\<lambda>t. t = HoldR"] show ?case by (auto simp: lock_inv_def num_update lock_defs)
next
  case (soft_unlock_w i ts l)
  with num_pos [of i ts "\<lambda>t. t = HoldW"] show ?case by (auto simp: lock_inv_def num_update lock_defs)
qed (auto simp: lock_inv_def num_update lock_defs Let_def split: if_splits)

lemma lock_reach_inv: "lock_reach A k n s \<Longrightarrow> lock_inv s"
  by (induction rule: lock_reach.induct) (auto simp: lock_inv_init dest: lock_inv_step)

text \<open>
  C10.  The lock of the cache: whatever the threads do, in any order and with any wakeups and timeouts,
  a thread that holds the lock for writing holds it alone, and the counters tell how many threads hold
  it and how many wait.
\<close>

theorem lock_exclusion:
  assumes "lock_reach A k n (l, ts)" "i < length ts" "ts ! i = HoldW"
  shows "(\<forall>j<length ts. j \<noteq> i \<longrightarrow> ts ! j \<noteq> HoldW \<and> ts ! j \<noteq> HoldR) \<and> cache_w_lock l = 1 \<and> cache_r_lock l = 0"
proof -
  have inv: "lock_inv (l, ts)" by (rule lock_reach_inv [OF assms(1)])
  have pos: "0 < num (\<lambda>t. t = HoldW) ts" by (rule num_pos [OF assms(2)]) (simp add: assms(3))
  with inv have w: "cache_w_lock l = 1" "num (\<lambda>t. t = HoldW) ts = 1" "num (\<lambda>t. t = HoldR) ts = 0" "cache_r_lock l = 0"
    by (auto simp: lock_inv_def)
  have "ts ! j \<noteq> HoldW" if "j < length ts" "j \<noteq> i" for j
  proof
    assume "ts ! j = HoldW"
    then have "0 < num (\<lambda>t. t = HoldW) (ts[i := Idle])" using that by (intro num_pos [of j]) simp_all
    with w(2) num_update [OF assms(2), of "\<lambda>t. t = HoldW" Idle] assms(3) show False by simp
  qed
  with w num_zero [of "\<lambda>t. t = HoldR" ts] show ?thesis by auto
qed

theorem lock_exclusion_witness:
  "\<exists>l ts. lock_reach UNIV 1 2 (l, ts) \<and> ts = [HoldW, SleepR] \<and> cache_w_lock l = 1 \<and> (\<forall>j<2. j \<noteq> 0 \<longrightarrow> ts ! j \<noteq> HoldR)"
proof -
  let ?l1 = "init_lock\<lparr>cache_w_lock := 1\<rparr>" and ?l2 = "init_lock\<lparr>cache_w_lock := 1, r_pend := 1\<rparr>"
  have "lock_step 1 ALockW (init_lock, replicate 2 Idle) (?l1, (replicate 2 Idle)[0 := if True then HoldW else SleepW False])"
    by (rule lock_w) (simp_all add: lock_defs init_lock_def)
  then have s1: "lock_reach UNIV 1 2 (?l1, [HoldW, Idle])" using step [OF start] by (simp add: numeral_2_eq_2)
  have "lock_step 1 ALockR (?l1, [HoldW, Idle]) (?l2, [HoldW, Idle][1 := if False then HoldR else SleepR])"
    by (rule lock_r) (simp_all add: lock_defs init_lock_def SUSP_THRESH_def)
  then have s2: "lock_reach UNIV 1 2 (?l2, [HoldW, SleepR])" using step [OF s1] by simp
  from lock_exclusion [OF s2, of 0] s2 show ?thesis by (intro exI [of _ ?l2] exI [of _ "[HoldW, SleepR]"]) (simp add: less_Suc_eq)
qed

subsection \<open>No lost wakeups\<close>

fun timedW :: "tstate \<Rightarrow> bool" where
  "timedW (SleepW b) = b" | "timedW (WakeW b) = b" | "timedW _ = False"

fun plainW :: "tstate \<Rightarrow> bool" where
  "plainW (SleepW b) = (\<not> b)" | "plainW (WakeW b) = (\<not> b)" | "plainW _ = False"

lemma num_split: "num pendW ts = num timedW ts + num plainW ts"
proof (induction ts)
  case (Cons t ts)
  then show ?case by (cases t) auto
qed (simp add: num_def)

lemma num_bound:
  assumes "\<forall>i<length ts. P (ts ! i) \<longrightarrow> i < k"
  shows "num P ts \<le> int k"
proof -
  have "length (filter P ts) = card {i. i < length ts \<and> P (ts ! i)}" by (rule length_filter_conv_card)
  also have "\<dots> \<le> card {i. i < k}" using assms by (intro card_mono) auto
  finally show ?thesis by (simp add: num_def)
qed

definition timed_ok :: "nat \<Rightarrow> tstate list \<Rightarrow> bool" where
  "timed_ok k ts \<longleftrightarrow> (\<forall>i<length ts. timedW (ts ! i) \<longrightarrow> i < k)"

lemma timed_ok_update: "timed_ok k ts \<Longrightarrow> timedW x \<longrightarrow> i < k \<Longrightarrow> timed_ok k (ts[i := x])"
  by (cases "i < length ts") (auto simp: timed_ok_def nth_list_update split: if_splits)

lemma timed_ok_wakes: "wakes w ts ts' \<Longrightarrow> timed_ok k ts \<Longrightarrow> timed_ok k ts'"
proof (induction rule: wakes.induct)
  case (signal i ts b)
  then show ?case by (intro timed_ok_update) (auto simp: timed_ok_def)
next
  case (broadcast ts)
  then show ?case by (auto simp: timed_ok_def)
qed

lemma timed_ok_step: "lock_step k a s s' \<Longrightarrow> timed_ok k (snd s) \<Longrightarrow> timed_ok k (snd s')"
proof (induction rule: lock_step.induct)
  case (test_w i ts timed l ok l')
  have "timed \<longrightarrow> i < k" using test_w(1,2,4) by (auto simp: timed_ok_def)
  with test_w(4) show ?case by (auto intro: timed_ok_update)
next
  case (spurious_w i ts b l)
  have "b \<longrightarrow> i < k" using spurious_w by (auto simp: timed_ok_def)
  with spurious_w(3) show ?case by (auto intro: timed_ok_update)
qed (auto intro: timed_ok_update timed_ok_wakes [OF _ timed_ok_update])

text \<open>
  Somebody can go on: if the lock is free and threads wait, one of them is awake and its test will
  succeed.  Readers sleep or are suspended only while a writer is active or waits without a limit.
\<close>

definition live_inv :: "cache_lock \<times> tstate list \<Rightarrow> bool" where
  "live_inv s = (let (l, ts) = s in
     (SleepR \<in> set ts \<or> r_susp l \<noteq> 0 \<longrightarrow> cache_w_lock l \<noteq> 0 \<or> num plainW ts > 0) \<and>
     (cache_w_lock l = 0 \<and> cache_r_lock l = 0 \<and> (r_pend l > 0 \<or> rw_pend l > 0) \<longrightarrow>
        (\<exists>b. WakeW b \<in> set ts) \<or> WakeR \<in> set ts \<and> r_susp l = 0 \<and> rw_pend l \<le> SUSP_THRESH (r_pend l)))"

lemma awake_writer: "num pendW ts > 0 \<Longrightarrow> \<forall>b. SleepW b \<notin> set ts \<Longrightarrow> \<exists>b. WakeW b \<in> set ts"
proof -
  assume "num pendW ts > 0" and n: "\<forall>b. SleepW b \<notin> set ts"
  then obtain t where "t \<in> set ts" "pendW t" using num_zero [of pendW ts] by auto
  with n show ?thesis by (cases t) auto
qed

lemma awake_reader: "num pendR ts > 0 \<Longrightarrow> SleepR \<notin> set ts \<Longrightarrow> WakeR \<in> set ts"
proof -
  assume "num pendR ts > 0" and n: "SleepR \<notin> set ts"
  then obtain t where "t \<in> set ts" "pendR t" using num_zero [of pendR ts] by auto
  with n show ?thesis by (cases t) auto
qed

lemma signal_awake: "wakes SignalW ts ts' \<Longrightarrow> num pendW ts > 0 \<Longrightarrow> \<exists>b. WakeW b \<in> set ts'"
  by (auto elim!: wakesE simp: awake_writer intro: set_update_memI)

lemma signal_sleep: "wakes SignalW ts ts' \<Longrightarrow> SleepR \<in> set ts' \<Longrightarrow> SleepR \<in> set ts"
  by (auto elim!: wakesE dest!: set_update_subset_insert [THEN subsetD])

lemma broadcast_sleep: "wakes BroadcastR ts ts' \<Longrightarrow> SleepR \<notin> set ts'"
  by (auto elim!: wakesE)

lemma thresh_plain:
  assumes "0 \<le> r" "SUSP_THRESH r < num pendW ts" "timed_ok k ts" "k \<le> 2"
  shows "0 < num plainW ts"
proof -
  have "num timedW ts \<le> 2" using num_bound [of ts timedW k] assms(3,4) by (simp add: timed_ok_def)
  moreover have "0 \<le> r div 2" using assms(1) by simp
  ultimately show ?thesis using assms(2) num_split [of ts] unfolding SUSP_THRESH_def by linarith
qed

lemma live_release:
  assumes "lock_inv (l, ts)" "live_inv (l, ts)" "timed_ok k ts" "k \<le> 2" "i < length ts" "ts ! i = HoldW" "t \<in> {Idle, Yielded}"
    and "unlock_cache_rw l = (l', w)" "wakes w (ts[i := t]) ts'"
  shows "live_inv (l', ts')"
proof -
  let ?ts = "ts[i := t]"
  have n: "num pendR ?ts = num pendR ts" "num pendW ?ts = num pendW ts" "num plainW ?ts = num plainW ts" "num timedW ?ts = num timedW ts"
    using assms(5-7) by (auto simp: num_update)
  have l: "r_pend l = num pendR ts" "rw_pend l = num pendW ts" using assms(1) by (simp_all add: lock_inv_def)
  have pl: "num plainW ts' = num plainW ts" using wakes_num [OF assms(9), of plainW] n by simp
  show ?thesis
  proof (cases "r_pend l = 0 \<or> rw_pend l > SUSP_THRESH (r_pend l)")
    case True
    with assms(8) have l': "l' = l\<lparr>cache_w_lock := 0, r_susp := 0\<rparr>" "w = SignalW" by (auto simp: unlock_cache_rw_def Let_def)
    have "num plainW ts > 0" if "r_pend l \<noteq> 0"
      using True that l thresh_plain [OF _ _ assms(3,4), of "r_pend l"] by simp
    moreover have "SleepR \<notin> set ts'" if "r_pend l = 0"
    proof -
      have "\<forall>t\<in>set ?ts. \<not> pendR t" using that l(1) n(1) num_zero [of pendR ?ts] by simp
      then have "SleepR \<notin> set ?ts" by (metis pendR.simps(1))
      then show ?thesis using signal_sleep [of ?ts ts'] assms(9) l'(2) by blast
    qed
    moreover have "\<exists>b. WakeW b \<in> set ts'" if "r_pend l > 0 \<or> rw_pend l > 0"
      using True that l signal_awake [of ?ts ts'] assms(9) l'(2) n(2) num_nonneg [of pendR ts] by (auto simp: SUSP_THRESH_def)
    ultimately show ?thesis unfolding live_inv_def l' using pl by auto
  next
    case False
    with assms(8) have l': "l' = l\<lparr>cache_w_lock := 0, r_susp := 0\<rparr>" "w = BroadcastR" by (auto simp: unlock_cache_rw_def Let_def)
    have ns: "SleepR \<notin> set ts'" using broadcast_sleep assms(9) l'(2) by simp
    have "num pendR ts' = num pendR ts" "num pendR ts \<noteq> 0" using wakes_num [OF assms(9), of pendR] n(1) l False by simp_all
    then have "num pendR ts' > 0" using num_nonneg [of pendR ts] by linarith
    then have "WakeR \<in> set ts'" using ns by (rule awake_reader)
    with ns False show ?thesis by (simp add: live_inv_def l')
  qed
qed

lemma live_test_r:
  assumes "live_inv (l, ts)" "lock_inv (l, ts)" "timed_ok k ts" "k \<le> 2" "i < length ts" "ts ! i \<in> {Idle, WakeR}"
    and "l0 = (if ts ! i = Idle then lock_cache_r_enter l else l)" "lock_cache_r_test l0 = (ok, l')"
  shows "live_inv (l', ts[i := if ok then HoldR else SleepR])"
proof -
  let ?l1 = "if rw_pend l0 > SUSP_THRESH (r_pend l0) then l0\<lparr>r_susp := 1\<rparr> else l0"
  have l: "cache_r_lock l \<ge> 0" "r_pend l \<ge> 0" "rw_pend l = num pendW ts" using assms(2) by (simp_all add: lock_inv_def)
  have l0: "cache_r_lock l0 = cache_r_lock l" "cache_w_lock l0 = cache_w_lock l" "rw_pend l0 = rw_pend l" "r_susp l0 = r_susp l"
    "r_pend l \<le> r_pend l0" using assms(7) by (simp_all add: lock_cache_r_enter_def)
  have live: "SleepR \<in> set ts \<or> r_susp l \<noteq> 0 \<longrightarrow> cache_w_lock l \<noteq> 0 \<or> num plainW ts > 0"
    "cache_w_lock l = 0 \<and> cache_r_lock l = 0 \<and> (r_pend l > 0 \<or> rw_pend l > 0) \<longrightarrow>
        (\<exists>b. WakeW b \<in> set ts) \<or> WakeR \<in> set ts \<and> r_susp l = 0 \<and> rw_pend l \<le> SUSP_THRESH (r_pend l)"
    using assms(1) by (simp_all add: live_inv_def)
  have pl: "num plainW (ts[i := x]) = num plainW ts" if "x \<in> {HoldR, SleepR}" for x
    using assms(5,6) that by (auto simp: num_update)
  show ?thesis
  proof (cases "r_susp ?l1 \<noteq> 0 \<or> cache_w_lock l \<noteq> 0")
    case False
    with assms(8) l0 have ok: "ok" "l' = l0\<lparr>cache_r_lock := cache_r_lock l0 + 1, r_pend := r_pend l0 - 1\<rparr>"
      by (auto simp: lock_cache_r_test_def Let_def split: if_splits)
    have "SleepR \<in> set ts" if "SleepR \<in> set (ts[i := HoldR])" using that set_update_subset_insert [of ts i HoldR] by auto
    with False ok l0 l(1) live(1) pl [of HoldR] show ?thesis by (auto simp: live_inv_def split: if_splits)
  next
    case True
    with assms(8) l0 have ok: "\<not> ok" "l' = ?l1" by (auto simp: lock_cache_r_test_def Let_def split: if_splits)
    have plain: "cache_w_lock l \<noteq> 0 \<or> num plainW ts > 0"
      using True live(1) l0 l(2,3) thresh_plain [OF _ _ assms(3,4), of "r_pend l0"] by (auto split: if_splits)
    have "\<exists>b. WakeW b \<in> set (ts[i := SleepR])" if free: "cache_w_lock l = 0" "cache_r_lock l = 0"
    proof -
      have "rw_pend l > 0" using plain free(1) l(3) num_split [of ts] num_nonneg [of timedW ts] by linarith
      moreover have "SUSP_THRESH (r_pend l) \<le> SUSP_THRESH (r_pend l0)" using l0(5) by (simp add: SUSP_THRESH_def zdiv_mono1)
      then have "\<not> (r_susp l = 0 \<and> rw_pend l \<le> SUSP_THRESH (r_pend l))" using True free(1) l0 by auto
      ultimately obtain b where "WakeW b \<in> set ts" using live(2) free by auto
      then obtain j where j: "j < length ts" "ts ! j = WakeW b" by (auto simp: in_set_conv_nth)
      then have "j \<noteq> i" using assms(6) by auto
      with j have "ts[i := SleepR] ! j = WakeW b" "j < length (ts[i := SleepR])" by simp_all
      then show ?thesis by (metis nth_mem)
    qed
    with ok l0 plain pl [of SleepR] show ?thesis by (auto simp: live_inv_def)
  qed
qed

lemma set_update_other: "t \<in> set ts \<Longrightarrow> ts ! i \<noteq> t \<Longrightarrow> t \<in> set (ts[i := x])"
  by (metis in_set_conv_nth length_list_update nth_list_update_neq)

lemma set_update_back: "t \<in> set (ts[i := x]) \<Longrightarrow> t \<noteq> x \<Longrightarrow> t \<in> set ts"
  using set_update_subset_insert [of ts i x] by auto

lemma live_test_w:
  assumes "live_inv (l, ts)" "lock_inv (l, ts)" "i < length ts" "ts ! i \<in> {Idle, Yielded, WakeW timed}"
    and "l0 = (if pendW (ts ! i) then l else lock_cache_rw_enter l)" "lock_cache_rw_test l0 = (ok, l')"
  shows "live_inv (l', ts[i := if ok then HoldW else SleepW timed])"
proof (cases ok)
  case True
  with assms(6) have "cache_w_lock l' = 1" by (auto simp: lock_cache_rw_test_def split: if_splits)
  then show ?thesis by (simp add: live_inv_def)
next
  case False
  with assms(6) have l': "l' = l0" "cache_w_lock l0 \<noteq> 0 \<or> cache_r_lock l0 \<noteq> 0" by (auto simp: lock_cache_rw_test_def split: if_splits)
  have l0: "cache_w_lock l0 = cache_w_lock l" "cache_r_lock l0 = cache_r_lock l" "r_susp l0 = r_susp l"
    using assms(5) by (simp_all add: lock_cache_rw_enter_def)
  have "num plainW ts \<le> num plainW (ts[i := SleepW timed])" using assms(3,4) by (auto simp: num_update)
  with False assms(1) l' l0 set_update_back [of SleepR ts i "SleepW timed"] show ?thesis by (auto simp: live_inv_def)
qed

lemma live_unlock_r:
  assumes "live_inv (l, ts)" "lock_inv (l, ts)" "i < length ts" "ts ! i = HoldR" "unlock_cache_r l = (l', w)" "wakes w (ts[i := Idle]) ts'"
  shows "live_inv (l', ts')"
proof -
  have h: "cache_r_lock l > 0" using assms(2) num_pos [OF assms(3), of "\<lambda>t. t = HoldR"] assms(4) by (simp add: lock_inv_def)
  have l: "cache_w_lock l = 0" "r_pend l = num pendR ts" "rw_pend l = num pendW ts" using assms(2) h by (auto simp: lock_inv_def)
  have l': "l' = l\<lparr>cache_r_lock := cache_r_lock l - 1\<rparr>" "w = (if cache_r_lock l' = 0 then SignalW else NoWake)"
    using assms(5) h by (auto simp: unlock_cache_r_def)
  have n: "num pendR (ts[i := Idle]) = num pendR ts" "num pendW (ts[i := Idle]) = num pendW ts" "num plainW (ts[i := Idle]) = num plainW ts"
    using assms(3,4) by (simp_all add: num_update)
  have n': "num pendR ts' = num pendR ts" "num plainW ts' = num plainW ts" using wakes_num [OF assms(6)] n by simp_all
  have sl: "SleepR \<in> set ts" if "SleepR \<in> set ts'"
    using that assms(6) l'(2) signal_sleep [of "ts[i := Idle]" ts'] set_update_back [of SleepR ts i Idle] by (auto split: if_splits)
  have live: "SleepR \<in> set ts \<or> r_susp l \<noteq> 0 \<longrightarrow> num plainW ts > 0" using assms(1) l(1) by (simp add: live_inv_def)
  have "(\<exists>b. WakeW b \<in> set ts') \<or> WakeR \<in> set ts' \<and> r_susp l = 0 \<and> rw_pend l \<le> SUSP_THRESH (r_pend l)"
    if "cache_r_lock l' = 0" "r_pend l > 0 \<or> rw_pend l > 0"
  proof (cases "rw_pend l > 0")
    case True
    with signal_awake [of "ts[i := Idle]" ts'] assms(6) l'(2) that(1) n(2) l(3) show ?thesis by simp
  next
    case False
    then have z: "num plainW ts = 0" "rw_pend l = 0"
      using l(3) num_split [of ts] num_nonneg [of timedW ts] num_nonneg [of plainW ts] num_nonneg [of pendW ts] by linarith+
    with live sl have "SleepR \<notin> set ts'" "r_susp l = 0" by auto
    moreover have "WakeR \<in> set ts'" using awake_reader [of ts'] n'(1) l(2) that(2) False calculation(1) by simp
    ultimately show ?thesis using z(2) l(2) by (simp add: SUSP_THRESH_def)
  qed
  with live sl n' show ?thesis by (auto simp: live_inv_def l'(1))
qed

lemma live_inv_step:
  assumes "lock_step k a s s'" "a \<noteq> ASoft" "lock_inv s" "live_inv s" "timed_ok k (snd s)" "k \<le> 2"
  shows "live_inv s'"
  using assms
proof (induction rule: lock_step.induct)
  case (lock_r i ts l ok l')
  then show ?case by (intro live_test_r [of l ts k i "lock_cache_r_enter l"]) simp_all
next
  case (test_r i ts l ok l')
  then show ?case by (intro live_test_r [of l ts k i l]) simp_all
next
  case (unlock_r i ts l l' w ts')
  then show ?case by (intro live_unlock_r [of l ts i l' w ts']) simp_all
next
  case (lock_w i ts l ok l' timed)
  then show ?case by (intro live_test_w [of l ts i timed "lock_cache_rw_enter l"]) simp_all
next
  case (test_w i ts timed l ok l')
  then show ?case by (intro live_test_w [of l ts i timed l]) simp_all
next
  case (unlock_w i ts l l' w ts')
  then show ?case by (intro live_release [of l ts k i Idle l' w ts']) simp_all
next
  case (yield_out i ts l l' w ts')
  then show ?case by (intro live_release [of l ts k i Yielded l' w ts']) simp_all
next
  case (yield_in i ts l ok l')
  then show ?case by (intro live_test_w [of l ts i False "lock_cache_rw_enter l"]) simp_all
next
  case (spurious_r i ts l)
  have "num plainW (ts[i := WakeR]) = num plainW ts" using spurious_r(1,2) by (simp add: num_update)
  moreover have "WakeW b \<in> set ts \<Longrightarrow> WakeW b \<in> set (ts[i := WakeR])" for b using spurious_r(2) by (intro set_update_other) simp_all
  ultimately show ?case using spurious_r(1,5) set_update_memI [of i ts WakeR] set_update_back [of SleepR ts i WakeR]
    by (auto simp: live_inv_def)
next
  case (spurious_w i ts b l)
  have "num plainW (ts[i := WakeW b]) = num plainW ts" using spurious_w(1,2) by (simp add: num_update)
  with spurious_w(1,5) set_update_memI [of i ts "WakeW b"] set_update_back [of SleepR ts i "WakeW b"] show ?case
    by (auto simp: live_inv_def)
next
  case (timeout i ts l)
  have "num plainW (ts[i := Idle]) = num plainW ts" using timeout(1,2) by (simp add: num_update)
  moreover have "WakeW b \<in> set ts \<Longrightarrow> WakeW b \<in> set (ts[i := Idle])" "WakeR \<in> set ts \<Longrightarrow> WakeR \<in> set (ts[i := Idle])" for b
    using timeout(2) by (auto intro: set_update_other)
  ultimately show ?case using timeout(5) set_update_back [of SleepR ts i Idle] by (auto simp: live_inv_def timedlock_timeout_def)
qed simp_all

lemma lock_reach_live:
  assumes "lock_reach (- {ASoft}) k n s" "k \<le> 2"
  shows "live_inv s \<and> timed_ok k (snd s)"
  using assms(1)
proof (induction rule: lock_reach.induct)
  case start
  show ?case by (simp add: live_inv_def init_lock_def timed_ok_def)
next
  case (step s a s')
  with lock_reach_inv [OF step.hyps(1)] live_inv_step [OF step.hyps(3)] timed_ok_step [OF step.hyps(3)] assms(2) show ?case by auto
qed

text \<open>
  C11.  No wakeup is lost while at most two threads use \<^verbatim>\<open>timedlock_cache_rw\<close> (in the program only the
  thread of the control socket does): whenever nobody holds the lock and threads wait for it, one of
  them has been woken and gets the lock as soon as it runs.
\<close>

theorem no_lost_wakeup:
  assumes "lock_reach (- {ASoft}) k n (l, ts)" "k \<le> 2"
    and "HoldR \<notin> set ts" "HoldW \<notin> set ts" "\<exists>t\<in>set ts. pendR t \<or> pendW t"
  shows "\<exists>a l' ts'. a \<in> {ATestR, ATestW} \<and> lock_step k a (l, ts) (l', ts') \<and> (HoldR \<in> set ts' \<or> HoldW \<in> set ts')"
proof -
  have inv: "lock_inv (l, ts)" "live_inv (l, ts)" using lock_reach_inv [OF assms(1)] lock_reach_live [OF assms(1,2)] by simp_all
  have "num (\<lambda>t. t = HoldR) ts = 0" "num (\<lambda>t. t = HoldW) ts = 0" using assms(3,4) by (auto simp: num_zero)
  then have free: "cache_r_lock l = 0" "cache_w_lock l = 0" using inv(1) by (simp_all add: lock_inv_def)
  have "num pendR ts > 0 \<or> num pendW ts > 0"
    using assms(5) num_zero [of pendR ts] num_zero [of pendW ts] num_nonneg [of pendR ts] num_nonneg [of pendW ts] by (auto simp: order_less_le)
  then have "r_pend l > 0 \<or> rw_pend l > 0" using inv(1) by (simp add: lock_inv_def)
  with inv(2) free consider b where "WakeW b \<in> set ts"
    | "WakeR \<in> set ts" "r_susp l = 0" "rw_pend l \<le> SUSP_THRESH (r_pend l)" by (auto simp: live_inv_def)
  then show ?thesis
  proof cases
    case (1 b)
    then obtain i where i: "i < length ts" "ts ! i = WakeW b" by (auto simp: in_set_conv_nth)
    from free have t: "lock_cache_rw_test l = (True, l\<lparr>cache_w_lock := 1, rw_pend := rw_pend l - 1\<rparr>)" by (simp add: lock_cache_rw_test_def)
    from lock_step.test_w [OF i t, of k] set_update_memI [OF i(1), of HoldW] show ?thesis by fastforce
  next
    case 2
    then obtain i where i: "i < length ts" "ts ! i = WakeR" by (auto simp: in_set_conv_nth)
    from free 2 have t: "lock_cache_r_test l = (True, l\<lparr>cache_r_lock := cache_r_lock l + 1, r_pend := r_pend l - 1\<rparr>)"
      by (simp add: lock_cache_r_test_def Let_def)
    from lock_step.test_r [OF i t, of k] set_update_memI [OF i(1), of HoldR] show ?thesis by fastforce
  qed
qed

text \<open>
  C32.  With three threads that use \<^verbatim>\<open>timedlock_cache_rw\<close> wakeups could be lost: \<^verbatim>\<open>r_susp\<close> is reset only
  by \<^verbatim>\<open>unlock_cache_rw\<close>, so when all waiting writers give up, readers sleep although nobody holds
  the lock or waits to write, and every further reader goes to sleep too.
\<close>

theorem timeouts_suspend_readers:
  "\<exists>l ts. lock_reach (- {ASoft}) 3 5 (l, ts) \<and> SleepR \<in> set ts \<and> set ts \<subseteq> {Idle, SleepR} \<and>
     cache_w_lock l = 0 \<and> cache_r_lock l = 0 \<and> rw_pend l = 0 \<and> \<not> fst (lock_cache_r_test (lock_cache_r_enter l))"
proof -
  let ?L = "\<lambda>r p w s. \<lparr>cache_w_lock = 0, cache_r_lock = r, r_pend = p, rw_pend = w, r_susp = s\<rparr>"
  note defs = lock_defs init_lock_def SUSP_THRESH_def
  have go: "lock_reach (- {ASoft}) 3 5 s'" if "lock_reach (- {ASoft}) 3 5 s" "lock_step 3 a s s'" "a \<noteq> ASoft" for s a s'
    using lock_reach.step [OF that(1) _ that(2)] that(3) by simp
  have s0: "lock_reach (- {ASoft}) 3 5 (?L 0 0 0 0, [Idle, Idle, Idle, Idle, Idle])"
    using lock_reach.start [of "- {ASoft}" 3 5] by (simp add: init_lock_def numeral_eq_Suc)
  have s1: "lock_reach (- {ASoft}) 3 5 (?L 1 0 0 0, [Idle, Idle, Idle, HoldR, Idle])"
    using go [OF s0 lock_step.lock_r [where i = 3 and ok = True]] by (simp add: defs)
  have s2: "lock_reach (- {ASoft}) 3 5 (?L 1 0 1 0, [SleepW True, Idle, Idle, HoldR, Idle])"
    using go [OF s1 lock_step.lock_w [where i = 0 and ok = False and timed = True]] by (simp add: defs)
  have s3: "lock_reach (- {ASoft}) 3 5 (?L 1 0 2 0, [SleepW True, SleepW True, Idle, HoldR, Idle])"
    using go [OF s2 lock_step.lock_w [where i = 1 and ok = False and timed = True]] by (simp add: defs)
  have s4: "lock_reach (- {ASoft}) 3 5 (?L 1 0 3 0, [SleepW True, SleepW True, SleepW True, HoldR, Idle])"
    using go [OF s3 lock_step.lock_w [where i = 2 and ok = False and timed = True]] by (simp add: defs numeral_eq_Suc)
  have s5: "lock_reach (- {ASoft}) 3 5 (?L 1 1 3 1, [SleepW True, SleepW True, SleepW True, HoldR, SleepR])"
    using go [OF s4 lock_step.lock_r [where i = 4 and ok = False]] by (simp add: defs Let_def)
  have s6: "lock_reach (- {ASoft}) 3 5 (?L 1 1 2 1, [Idle, SleepW True, SleepW True, HoldR, SleepR])"
    using go [OF s5 lock_step.timeout [of 0]] by (simp add: defs)
  have s7: "lock_reach (- {ASoft}) 3 5 (?L 1 1 1 1, [Idle, Idle, SleepW True, HoldR, SleepR])"
    using go [OF s6 lock_step.timeout [of 1]] by (simp add: defs)
  have s8: "lock_reach (- {ASoft}) 3 5 (?L 1 1 0 1, [Idle, Idle, Idle, HoldR, SleepR])"
    using go [OF s7 lock_step.timeout [of 2]] by (simp add: defs numeral_eq_Suc)
  have w: "wakes SignalW [Idle, Idle, Idle, Idle, SleepR] [Idle, Idle, Idle, Idle, SleepR]" by (rule wakes.signal_none) simp
  have s9: "lock_reach (- {ASoft}) 3 5 (?L 0 1 0 1, [Idle, Idle, Idle, Idle, SleepR])"
    using go [OF s8 lock_step.unlock_r [of 3 _ _ _ SignalW]] w by (simp add: defs)
  then show ?thesis by (intro exI [of _ "?L 0 1 0 1"] exI [of _ "[Idle, Idle, Idle, Idle, SleepR]"]) (simp add: defs)
qed

theorem no_lost_wakeup_witness:
  "\<exists>l ts a l' ts'. lock_reach (- {ASoft}) 1 2 (l, ts) \<and> ts = [Idle, WakeR] \<and> lock_step 1 a (l, ts) (l', ts') \<and> (HoldR \<in> set ts' \<or> HoldW \<in> set ts')"
proof -
  let ?L = "\<lambda>h p. \<lparr>cache_w_lock = h, cache_r_lock = 0, r_pend = p, rw_pend = 0, r_susp = 0\<rparr>"
  note defs = lock_defs init_lock_def SUSP_THRESH_def
  have go: "lock_reach (- {ASoft}) 1 2 s'" if "lock_reach (- {ASoft}) 1 2 s" "lock_step 1 a s s'" "a \<noteq> ASoft" for s a s'
    using lock_reach.step [OF that(1) _ that(2)] that(3) by simp
  have s0: "lock_reach (- {ASoft}) 1 2 (?L 0 0, [Idle, Idle])"
    using lock_reach.start [of "- {ASoft}" 1 2] by (simp add: init_lock_def numeral_eq_Suc)
  have s1: "lock_reach (- {ASoft}) 1 2 (?L 1 0, [HoldW, Idle])" using go [OF s0 lock_step.lock_w [where i = 0 and ok = True and timed = False]] by (simp add: defs)
  have s2: "lock_reach (- {ASoft}) 1 2 (?L 1 1, [HoldW, SleepR])" using go [OF s1 lock_step.lock_r [where i = 1 and ok = False]] by (simp add: defs Let_def)
  have "wakes BroadcastR [Idle, SleepR] [Idle, WakeR]" using wakes.broadcast [of "[Idle, SleepR]"] by simp
  then have s3: "lock_reach (- {ASoft}) 1 2 (?L 0 1, [Idle, WakeR])" using go [OF s2 lock_step.unlock_w [of 0 _ _ _ BroadcastR]] by (simp add: defs Let_def)
  from no_lost_wakeup [OF s3] s3 show ?thesis by fastforce
qed

end
