(* ===== verification/Message.thy ===== *)
theory Message
  imports Wire RR_Types
begin

text \<open>
  DNS messages (\<^verbatim>\<open>dns.h\<close>): the header with its bit fields, the numbers of the return codes, and a
  description of the data of resource records.  The data of a record is a list of items, each a piece
  of raw bytes or a domain name; \<open>items_at\<close> says that the bytes of a message hold given items, names
  possibly compressed, and \<open>item_bytes\<close> is the form without compression that the cache keeps.
\<close>

subsection \<open>Constants\<close>

definition QT_IXFR :: nat where
  "QT_IXFR = 251"

definition QT_AXFR :: nat where
  "QT_AXFR = 252"

definition QT_MAILB :: nat where
  "QT_MAILB = 253"

definition QT_MAILA :: nat where
  "QT_MAILA = 254"

definition QT_ALL :: nat where
  "QT_ALL = 255"

definition QT_MIN :: nat where
  "QT_MIN = 251"

definition QT_MAX :: nat where
  "QT_MAX = 255"

definition C_IN :: nat where
  "C_IN = 1"

definition QC_ALL :: nat where
  "QC_ALL = 255"

lemmas qt_consts = QT_IXFR_def QT_AXFR_def QT_MAILB_def QT_MAILA_def QT_ALL_def QT_MIN_def QT_MAX_def C_IN_def QC_ALL_def

definition sizeof_rr_hdr_t :: nat where
  "sizeof_rr_hdr_t = 10"

definition sizeof_opt_pseudo_rr :: nat where
  "sizeof_opt_pseudo_rr = 1 + sizeof_rr_hdr_t"

definition sizeof_dns_hdr_t :: nat where
  "sizeof_dns_hdr_t = 12"

definition dnsmsghdroffset :: nat where
  "dnsmsghdroffset = 2"

lemmas msg_sizes = sizeof_rr_hdr_t_def sizeof_opt_pseudo_rr_def sizeof_dns_hdr_t_def dnsmsghdroffset_def

definition rc_num :: "rc \<Rightarrow> nat" where
  "rc_num r = (case r of RC_OK \<Rightarrow> 0 | RC_FORMAT \<Rightarrow> 1 | RC_SERVFAIL \<Rightarrow> 2 | RC_NAMEERR \<Rightarrow> 3 | RC_NOTSUPP \<Rightarrow> 4
     | RC_REFUSED \<Rightarrow> 5 | RC_BADVERS \<Rightarrow> 16 | RC_NOTCACHED \<Rightarrow> 0xfffa | RC_CACHED \<Rightarrow> 0xfffb | RC_STALE \<Rightarrow> 0xfffc
     | RC_TCPREFUSED \<Rightarrow> 0xfffd | RC_TRUNC \<Rightarrow> 0xfffe | RC_FATALERR \<Rightarrow> 0xffff)"

text \<open>The types whose data has a structure that the program knows, besides those of \<^verbatim>\<open>RR_Types\<close>.\<close>

definition T_MD :: nat where
  "T_MD = 3"

definition T_MF :: nat where
  "T_MF = 4"

definition T_MB :: nat where
  "T_MB = 7"

definition T_MG :: nat where
  "T_MG = 8"

definition T_MR :: nat where
  "T_MR = 9"

definition T_MINFO :: nat where
  "T_MINFO = 14"

definition T_RP :: nat where
  "T_RP = 17"

definition T_AFSDB :: nat where
  "T_AFSDB = 18"

definition T_RT :: nat where
  "T_RT = 21"

definition T_PX :: nat where
  "T_PX = 26"

definition T_NXT :: nat where
  "T_NXT = 30"

definition T_SRV :: nat where
  "T_SRV = 33"

definition T_NAPTR :: nat where
  "T_NAPTR = 35"

definition T_KX :: nat where
  "T_KX = 36"

definition T_OPT :: nat where
  "T_OPT = 41"

definition T_IPSECKEY :: nat where
  "T_IPSECKEY = 45"

definition T_RRSIG :: nat where
  "T_RRSIG = 46"

definition T_NSEC :: nat where
  "T_NSEC = 47"

lemmas t_consts = T_MD_def T_MF_def T_MB_def T_MG_def T_MR_def T_MINFO_def T_RP_def T_AFSDB_def T_RT_def T_PX_def
  T_NXT_def T_SRV_def T_NAPTR_def T_KX_def T_OPT_def T_IPSECKEY_def T_RRSIG_def T_NSEC_def

subsection \<open>The header\<close>

record dns_hdr_t =
  h_id :: "16 word"
  h_rd :: bool
  h_tc :: bool
  h_aa :: bool
  h_opcode :: "4 word"
  h_qr :: bool
  h_rcode :: "4 word"
  h_cd :: bool
  h_ad :: bool
  h_z :: bool
  h_ra :: bool
  h_qdcount :: "16 word"
  h_ancount :: "16 word"
  h_nscount :: "16 word"
  h_arcount :: "16 word"

definition be16 :: "16 word \<Rightarrow> byte list" where
  "be16 s = [ucast (drop_bit 8 s), ucast s]"

definition be32 :: "32 word \<Rightarrow> byte list" where
  "be32 l = [ucast (drop_bit 24 l), ucast (drop_bit 16 l), ucast (drop_bit 8 l), ucast l]"

text \<open>
  The program has no function for these two: it reads and writes the header of a message through a pointer to the
  struct of \<^verbatim>\<open>dns.h\<close>.  They spell out the layout that the struct has on a little-endian host, for which \<^verbatim>\<open>dns.h\<close>
  orders the bit fields: they are allocated from the least significant bit on, and the counters are in network order.
\<close>

definition hdr_bytes :: "dns_hdr_t \<Rightarrow> byte list" where
  "hdr_bytes h = be16 (h_id h) @
     [of_bool (h_rd h) OR push_bit 1 (of_bool (h_tc h)) OR push_bit 2 (of_bool (h_aa h)) OR
        push_bit 3 (ucast (h_opcode h)) OR push_bit 7 (of_bool (h_qr h)),
      ucast (h_rcode h) OR push_bit 4 (of_bool (h_cd h)) OR push_bit 5 (of_bool (h_ad h)) OR
        push_bit 6 (of_bool (h_z h)) OR push_bit 7 (of_bool (h_ra h))] @
     be16 (h_qdcount h) @ be16 (h_ancount h) @ be16 (h_nscount h) @ be16 (h_arcount h)"

definition get_hdr :: "byte list \<Rightarrow> dns_hdr_t option" where
  "get_hdr b = do {
     (hid, p) \<leftarrow> GETINT16 b 0;
     f \<leftarrow> rd b 2; g \<leftarrow> rd b 3;
     (qd, p) \<leftarrow> GETINT16 b 4;
     (an, p) \<leftarrow> GETINT16 b p;
     (ns, p) \<leftarrow> GETINT16 b p;
     (ar, p) \<leftarrow> GETINT16 b p;
     Some \<lparr>h_id = hid, h_rd = bit f 0, h_tc = bit f 1, h_aa = bit f 2, h_opcode = ucast (drop_bit 3 f), h_qr = bit f 7,
       h_rcode = ucast g, h_cd = bit g 4, h_ad = bit g 5, h_z = bit g 6, h_ra = bit g 7,
       h_qdcount = qd, h_ancount = an, h_nscount = ns, h_arcount = ar\<rparr> }"

lemma be_lengths [simp]: "length (be16 s) = 2" "length (be32 l) = 4" "length (hdr_bytes h) = 12"
  by (simp_all add: be16_def be32_def hdr_bytes_def)

lemma GETINT16_be16 [simp]: "length a = p \<Longrightarrow> GETINT16 (a @ be16 s @ r) p = Some (s, p + 2)"
  by (auto simp: GETINT16_def be16_def rd_def nth_append word16_split)

lemma GETINT32_be32 [simp]: "length a = p \<Longrightarrow> GETINT32 (a @ be32 s @ r) p = Some (s, p + 4)"
  by (auto simp: GETINT32_def be32_def rd_def nth_append word32_split)

lemma be16_bytes: "be16 (push_bit 8 (ucast c0) OR ucast c1) = [c0, c1]"
  by (auto simp: be16_def intro!: bit_word_eqI) (auto simp: bit_simps dest: bit_imp_le_length)

lemma be32_bytes: "be32 (push_bit 24 (ucast c0) OR push_bit 16 (ucast c1) OR push_bit 8 (ucast c2) OR ucast c3) = [c0, c1, c2, c3]"
  by (auto simp: be32_def intro!: bit_word_eqI) (auto simp: bit_simps dest: bit_imp_le_length)

lemma take_drop_2: "p + 2 \<le> length b \<Longrightarrow> take 2 (drop p b) = [b ! p, b ! (p + 1)]"
  by (simp add: Cons_nth_drop_Suc [symmetric] numeral_2_eq_2)

lemma take_drop_4: "p + 4 \<le> length b \<Longrightarrow> take 4 (drop p b) = [b ! p, b ! (p + 1), b ! (p + 2), b ! (p + 3)]"
  by (simp add: Cons_nth_drop_Suc [symmetric] numeral_eq_Suc)

text \<open>Reading an integer succeeds inside the buffer, and the value is the one whose bytes are there.\<close>

lemma GETINT16_some: "p + 2 \<le> length b \<Longrightarrow> \<exists>s. GETINT16 b p = Some (s, p + 2) \<and> take 2 (drop p b) = be16 s"
  by (simp add: GETINT16_def mem_simps be16_bytes take_drop_2)

lemma GETINT32_some: "p + 4 \<le> length b \<Longrightarrow> \<exists>s. GETINT32 b p = Some (s, p + 4) \<and> take 4 (drop p b) = be32 s"
  by (simp add: GETINT32_def mem_simps be32_bytes take_drop_4)

lemma GETINT16_SomeD: "GETINT16 b p = Some (s, q) \<Longrightarrow> q = p + 2 \<and> q \<le> length b \<and> take 2 (drop p b) = be16 s"
  by (auto simp: GETINT16_def bind_eq_Some_conv rd_Some be16_bytes take_drop_2)

lemma GETINT32_SomeD: "GETINT32 b p = Some (s, q) \<Longrightarrow> q = p + 4 \<and> q \<le> length b \<and> take 4 (drop p b) = be32 s"
  by (auto simp: GETINT32_def bind_eq_Some_conv rd_Some be32_bytes take_drop_4)

lemma split_at: "p + n \<le> length b \<Longrightarrow> \<exists>a m r. b = a @ m @ r \<and> length a = p \<and> length m = n"
proof -
  assume "p + n \<le> length b"
  moreover have "b = take p b @ take n (drop p b) @ drop (p + n) b" by (metis append_take_drop_id drop_drop add.commute)
  ultimately show ?thesis by (metis add_leD1 length_drop length_take min.absorb2 le_diff_conv2 add.commute)
qed

lemma wrs_mid: "length a = p \<Longrightarrow> length m = length v \<Longrightarrow> wrs (a @ m @ r) p v = Some (a @ v @ r)"
  by (simp add: wrs_def)

lemma PUTINT16_wrs: "PUTINT16 s b p = do { b \<leftarrow> wrs b p (be16 s); Some (b, p + 2) }"
proof (cases "p + 2 \<le> length b")
  case True
  then obtain a m r where b: "b = a @ m @ r" "length a = p" "length m = 2" by (blast dest: split_at)
  then obtain x y where "m = [x, y]" by (auto simp: length_Suc_conv numeral_2_eq_2)
  with b wrs_mid [of a p m "be16 s" r] show ?thesis by (simp add: PUTINT16_def wr_def list_update_append be16_def)
qed (auto simp: PUTINT16_def wr_def wrs_def)

lemma PUTINT32_wrs: "PUTINT32 s b p = do { b \<leftarrow> wrs b p (be32 s); Some (b, p + 4) }"
proof (cases "p + 4 \<le> length b")
  case True
  then obtain a m r where b: "b = a @ m @ r" "length a = p" "length m = 4" by (blast dest: split_at)
  then obtain x y z u where "m = [x, y, z, u]" by (auto simp: length_Suc_conv numeral_eq_Suc)
  have "(a @ x # y # z # u # r)[p := i, p + 1 := j, p + 2 := k, p + 3 := l] = a @ i # j # k # l # r" for i j k l
    using b(2) by (simp add: list_update_append eval_nat_numeral)
  with b \<open>m = [x, y, z, u]\<close> wrs_mid [of a p m "be32 s" r] show ?thesis by (simp add: PUTINT32_def wr_def be32_def)
qed (auto simp: PUTINT32_def wr_def wrs_def)

subsection \<open>The data of records\<close>

datatype field = Fix nat | Str | Nam | Rest
datatype item = Raw "byte list" | Name "byte list list"

primrec item_bytes :: "item \<Rightarrow> byte list" where
  "item_bytes (Raw b) = b"
| "item_bytes (Name ls) = enc ls"

definition items_bytes :: "item list \<Rightarrow> byte list" where
  "items_bytes vs = concat (map item_bytes vs)"

text \<open>Items of a given form.  A text string starts with its length.\<close>

primrec fits_item :: "item \<Rightarrow> field \<Rightarrow> bool" where
  "fits_item (Raw b) f = (case f of Fix n \<Rightarrow> length b = n | Str \<Rightarrow> b \<noteq> [] \<and> length b = Suc (unat (hd b)) | Rest \<Rightarrow> True | Nam \<Rightarrow> False)"
| "fits_item (Name ls) f = (f = Nam \<and> wf_name ls)"

text \<open>Equality up to the case of letters in names.\<close>

primrec lower_item :: "item \<Rightarrow> item" where
  "lower_item (Raw b) = Raw b"
| "lower_item (Name ls) = Name (lower_name ls)"

text \<open>The items occupy the bytes of \<open>m\<close> from \<open>p\<close> to \<open>q\<close>.\<close>

primrec items_at :: "byte list \<Rightarrow> nat \<Rightarrow> item list \<Rightarrow> nat \<Rightarrow> bool" where
  "items_at m p [] q \<longleftrightarrow> p = q \<and> p \<le> length m"
| "items_at m p (v # vs) q \<longleftrightarrow> (case v of
     Raw b \<Rightarrow> take (length b) (drop p m) = b \<and> items_at m (p + length b) vs q
   | Name ls \<Rightarrow> \<exists>n h. cname m p n h ls \<and> h \<le> 255 \<and> wf_name ls \<and> items_at m (p + n) vs q)"

text \<open>The forms the program knows when it writes a record, and those it requires when it reads one.\<close>

definition rdata_form :: "nat \<Rightarrow> field list" where
  "rdata_form tp =
     (if tp \<in> {T_CNAME, T_MB, T_MD, T_MF, T_MG, T_MR, T_NS, T_PTR} then [Nam]
      else if tp \<in> {T_MINFO, T_RP} then [Nam, Nam]
      else if tp \<in> {T_MX, T_AFSDB, T_RT, T_KX} then [Fix 2, Nam]
      else if tp = T_SOA then [Nam, Nam, Fix 20]
      else if tp = T_PX then [Fix 2, Nam, Nam]
      else if tp = T_SRV then [Fix 6, Nam]
      else if tp = T_NXT then [Nam, Rest]
      else if tp = T_NAPTR then [Fix 4, Str, Str, Str, Nam]
      else [Rest])"

definition rdata_ok :: "nat \<Rightarrow> byte list \<Rightarrow> bool" where
  "rdata_ok tp d \<longleftrightarrow> (\<exists>vs. list_all2 fits_item vs (rdata_form tp) \<and> d = items_bytes vs)"

lemma items_bytes_simps [simp]: "items_bytes [] = []" "items_bytes (v # vs) = item_bytes v @ items_bytes vs"
  by (simp_all add: items_bytes_def)

lemma items_at_le: "items_at m p vs q \<Longrightarrow> p \<le> q \<and> q \<le> length m"
proof (induction vs arbitrary: p)
  case (Cons v vs)
  then show ?case by (cases v) fastforce+
qed simp

lemma items_at_append: "items_at m p vs q \<Longrightarrow> items_at (m @ r) p vs q"
proof (induction vs arbitrary: p)
  case (Cons v vs)
  then show ?case
  proof (cases v)
    case (Raw b)
    with Cons.prems have b: "take (length b) (drop p m) = b" "items_at m (p + length b) vs q" by auto
    with items_at_le [OF b(2)] Raw Cons.IH show ?thesis by simp
  next
    case (Name ls)
    with Cons cname_append show ?thesis by fastforce
  qed
qed simp

lemma items_at_app: "items_at m p (vs @ us) q \<longleftrightarrow> (\<exists>k. items_at m p vs k \<and> items_at m k us q)"
proof (induction vs arbitrary: p)
  case Nil
  show ?case using items_at_le [of m p us q] by auto
next
  case (Cons v vs)
  then show ?case by (cases v) auto
qed

end
