(* ===== verification/Parse_Records.thy ===== *)
theory Parse_Records
  imports Message Cent Hash
begin

text \<open>
  Reading the resource records of a reply (\<^verbatim>\<open>rr_to_cache\<close> and \<^verbatim>\<open>rrs2cent\<close> of
  \<^verbatim>\<open>dns_query.c\<close>).  The message is the list of its bytes; \<^verbatim>\<open>*ptr\<close> is a position in it and
  \<^verbatim>\<open>*lcnt\<close> the number of bytes left.  Names inside the data of a record are decompressed into
  buffers on the stack, whose sizes are those of the declarations.
\<close>

subsection \<open>The array of entries\<close>

text \<open>
  A dynamic array as the list of its elements: \<^verbatim>\<open>da_grow1\<close> needs memory when there is no array or the
  number of elements is a multiple of 8, \<^verbatim>\<open>da_resize\<close> when the rounded sizes differ.  A failure
  frees the array.
\<close>

definition da_room :: "alloc \<Rightarrow> nat \<Rightarrow> bool \<times> alloc" where
  "da_room a n = (if n mod 8 = 0 then malloc a else (True, a))"

definition da_shrink :: "alloc \<Rightarrow> 'a list \<Rightarrow> 'a list \<times> alloc" where
  "da_shrink a xs = (if length xs mod 8 = 0 \<and> xs \<noteq> [] then let (ok, a) = malloc a in (if ok then xs else [], a) else (xs, a))"

primrec find_cent :: "dns_cent_t list \<Rightarrow> byte list \<Rightarrow> nat \<Rightarrow> nat option option" where
  "find_cent [] oname i = Some None"
| "find_cent (c # cs) oname i = do {
     eq \<leftarrow> rhnicmp (ce_qname c) oname;
     if eq then Some (Some i) else find_cent cs oname (i + 1) }"

definition rr_to_cache :: "alloc \<Rightarrow> dns_cent_t list \<Rightarrow> byte list \<Rightarrow> nat \<Rightarrow> int \<Rightarrow> byte list \<Rightarrow> 16 word \<Rightarrow> int \<Rightarrow>
    (rc \<times> dns_cent_t list \<times> alloc) option" where
  "rr_to_cache a centa oname tp ttl dat flags queryts = do {
     r \<leftarrow> find_cent centa oname 0;
     case r of
       Some i \<Rightarrow> do {
         (ok, cent, _, a) \<leftarrow> add_cent_rr a [] (centa ! i) tp ttl queryts flags dat;
         Some (if ok then RC_OK else RC_FATALERR, centa[i := cent], a) }
     | None \<Rightarrow>
         let (ok, a) = da_room a (length centa) in
         if \<not> ok then Some (RC_FATALERR, [], a)
         else do {
           (r, a) \<leftarrow> init_cent a oname 0 0 0;
           case r of
             None \<Rightarrow> let (centa, a) = da_shrink a centa in Some (RC_FATALERR, centa, a)
           | Some cent \<Rightarrow> do {
               (ok, cent, _, a) \<leftarrow> add_cent_rr a [] cent tp ttl queryts flags dat;
               Some (if ok then RC_OK else RC_FATALERR, centa @ [cent], a) } } }"

subsection \<open>The data of a record\<close>

text \<open>
  Decompressing the name at \<open>bptr\<close>, of which \<open>blcnt\<close> bytes are left, to offset \<open>off\<close> of the buffer
  \<open>db\<close>; the buffer must have room for any name there.
\<close>

definition dec_into :: "byte list \<Rightarrow> byte list \<Rightarrow> nat \<Rightarrow> nat \<Rightarrow> nat \<Rightarrow> (rc \<times> nat \<times> nat \<times> byte list \<times> nat option) option" where
  "dec_into msg db off bptr blcnt = do {
     sub \<leftarrow> rds db off DNSNAMEBUFSIZE;
     (rc, bptr, blcnt, tgt, len) \<leftarrow> decompress_name msg (length msg) bptr blcnt sub;
     db \<leftarrow> wrs db off tgt;
     Some (rc, bptr, blcnt, db, len) }"

text \<open>Each case of the switch yields the code to return or the data to be stored.\<close>

type_synonym rdata = "rc + byte list"

definition name_rc :: "rc \<Rightarrow> rc" where
  "name_rc r = (if r = RC_TRUNC then RC_FORMAT else r)"

definition data_name :: "byte list \<Rightarrow> nat \<Rightarrow> nat \<Rightarrow> rdata option" where
  "data_name msg bptr blcnt = do {
     (rc, bptr, blcnt, db, len) \<leftarrow> dec_into msg (replicate DNSNAMEBUFSIZE 0) 0 bptr blcnt;
     if rc \<noteq> RC_OK then Some (Inl (name_rc rc))
     else if blcnt \<noteq> 0 then Some (Inl RC_FORMAT)
     else do { len \<leftarrow> len; d \<leftarrow> rds db 0 len; Some (Inr d) } }"

definition data_two_names :: "byte list \<Rightarrow> nat \<Rightarrow> nat \<Rightarrow> rdata option" where
  "data_two_names msg bptr blcnt = do {
     (rc, bptr, blcnt, db, len) \<leftarrow> dec_into msg (replicate (DNSNAMEBUFSIZE + DNSNAMEBUFSIZE) 0) 0 bptr blcnt;
     if rc \<noteq> RC_OK then Some (Inl (name_rc rc))
     else do {
       slen \<leftarrow> len;
       (rc, bptr, blcnt, db, len) \<leftarrow> dec_into msg db slen bptr blcnt;
       if rc \<noteq> RC_OK then Some (Inl (name_rc rc))
       else if blcnt \<noteq> 0 then Some (Inl RC_FORMAT)
       else do { len \<leftarrow> len; d \<leftarrow> rds db 0 (slen + len); Some (Inr d) } } }"

text \<open>\<open>k\<close> bytes, then a name: \<^verbatim>\<open>T_MX\<close> and similar types with 2, \<^verbatim>\<open>T_SRV\<close> with 6.\<close>

definition data_fix_name :: "nat \<Rightarrow> byte list \<Rightarrow> nat \<Rightarrow> nat \<Rightarrow> rdata option" where
  "data_fix_name k msg bptr blcnt =
     (if blcnt < k then Some (Inl RC_FORMAT)
      else do {
        pre \<leftarrow> rds msg bptr k;
        db \<leftarrow> wrs (replicate (k + DNSNAMEBUFSIZE) 0) 0 pre;
        (rc, bptr, blcnt, db, len) \<leftarrow> dec_into msg db k (bptr + k) (blcnt - k);
        if rc \<noteq> RC_OK then Some (Inl (name_rc rc))
        else if blcnt \<noteq> 0 then Some (Inl RC_FORMAT)
        else do { len \<leftarrow> len; d \<leftarrow> rds db 0 (k + len); Some (Inr d) } })"

definition data_soa :: "byte list \<Rightarrow> nat \<Rightarrow> nat \<Rightarrow> rdata option" where
  "data_soa msg bptr blcnt = do {
     (rc, bptr, blcnt, db, len) \<leftarrow> dec_into msg (replicate (DNSNAMEBUFSIZE + DNSNAMEBUFSIZE + 20) 0) 0 bptr blcnt;
     if rc \<noteq> RC_OK then Some (Inl (name_rc rc))
     else do {
       slen \<leftarrow> len;
       (rc, bptr, blcnt, db, len) \<leftarrow> dec_into msg db slen bptr blcnt;
       if rc \<noteq> RC_OK then Some (Inl (name_rc rc))
       else do {
         len \<leftarrow> len;
         let slen = slen + len;
         if blcnt < 20 then Some (Inl RC_FORMAT)
         else do {
           s \<leftarrow> rds msg bptr 20;
           db \<leftarrow> wrs db slen s;
           if blcnt - 20 \<noteq> 0 then Some (Inl RC_FORMAT)
           else do { d \<leftarrow> rds db 0 (slen + 20); Some (Inr d) } } } } }"

definition data_px :: "byte list \<Rightarrow> nat \<Rightarrow> nat \<Rightarrow> rdata option" where
  "data_px msg bptr blcnt =
     (if blcnt < 2 then Some (Inl RC_FORMAT)
      else do {
        pre \<leftarrow> rds msg bptr 2;
        db \<leftarrow> wrs (replicate (2 + DNSNAMEBUFSIZE + DNSNAMEBUFSIZE) 0) 0 pre;
        (rc, bptr, blcnt, db, len) \<leftarrow> dec_into msg db 2 (bptr + 2) (blcnt - 2);
        if rc \<noteq> RC_OK then Some (Inl (name_rc rc))
        else do {
          len \<leftarrow> len;
          let slen = 2 + len;
          (rc, bptr, blcnt, db, len) \<leftarrow> dec_into msg db slen bptr blcnt;
          if rc \<noteq> RC_OK then Some (Inl (name_rc rc))
          else if blcnt \<noteq> 0 then Some (Inl RC_FORMAT)
          else do { len \<leftarrow> len; d \<leftarrow> rds db 0 (slen + len); Some (Inr d) } } })"

definition data_nxt :: "byte list \<Rightarrow> nat \<Rightarrow> nat \<Rightarrow> rdata option" where
  "data_nxt msg bptr blcnt = do {
     (rc, bptr, blcnt, db, len) \<leftarrow> dec_into msg (replicate 1040 0) 0 bptr blcnt;
     if rc \<noteq> RC_OK then Some (Inl (name_rc rc))
     else do {
       len \<leftarrow> len;
       let slen = len + blcnt;
       if slen > 1040 then Some (Inl RC_FORMAT)
       else do {
         s \<leftarrow> rds msg bptr blcnt;
         db \<leftarrow> wrs db len s;
         d \<leftarrow> rds db 0 slen; Some (Inr d) } } }"

text \<open>The length of the preference field and three text strings; \<open>None\<close> inside is the jump to \<^verbatim>\<open>record_too_short\<close>.\<close>

primrec naptr_len :: "nat \<Rightarrow> byte list \<Rightarrow> nat \<Rightarrow> nat \<Rightarrow> nat \<Rightarrow> nat option option" where
  "naptr_len 0 msg bptr blcnt len = Some (Some len)"
| "naptr_len (Suc j) msg bptr blcnt len = (if len \<ge> blcnt then Some None
     else do { c \<leftarrow> rd msg (bptr + len); naptr_len j msg bptr blcnt (len + unat c + 1) })"

definition data_naptr :: "byte list \<Rightarrow> nat \<Rightarrow> nat \<Rightarrow> rdata option" where
  "data_naptr msg bptr blcnt = do {
     r \<leftarrow> naptr_len 3 msg bptr blcnt 4;
     case r of None \<Rightarrow> Some (Inl RC_FORMAT)
     | Some slen \<Rightarrow>
         if slen > blcnt then Some (Inl RC_FORMAT)
         else do {
           pre \<leftarrow> rds msg bptr slen;
           db \<leftarrow> wrs (replicate (4 + 3 * 256 + DNSNAMEBUFSIZE) 0) 0 pre;
           (rc, bptr, blcnt, db, len) \<leftarrow> dec_into msg db slen (bptr + slen) (blcnt - slen);
           if rc \<noteq> RC_OK then Some (Inl (name_rc rc))
           else if blcnt \<noteq> 0 then Some (Inl RC_FORMAT)
           else do { len \<leftarrow> len; d \<leftarrow> rds db 0 (slen + len); Some (Inr d) } } }"

text \<open>
  The types whose names should not be compressed: \<open>pre\<close> bytes, a name and the rest.  The data is copied as
  it is when the name is a plain one, and else into allocated memory with the name decompressed.
\<close>

definition data_uncompress :: "alloc \<Rightarrow> byte list \<Rightarrow> nat \<Rightarrow> nat \<Rightarrow> nat \<Rightarrow> (rdata \<times> alloc) option" where
  "data_uncompress a msg ptr rdlength pre = do {
     let bptr = ptr + pre;
     let blcnt = rdlength - pre;
     plain \<leftarrow> isnormalencdomname (drop bptr msg) blcnt;
     if plain then do { d \<leftarrow> rds msg ptr rdlength; Some (Inr d, a) }
     else do {
       (rc, bptr, blcnt, nmbuf, len) \<leftarrow> dec_into msg (replicate DNSNAMEBUFSIZE 0) 0 bptr blcnt;
       if rc \<noteq> RC_OK then Some (Inl (name_rc rc), a)
       else
         let (ok, a) = malloc a in
         if \<not> ok then Some (Inl RC_FATALERR, a)
         else do {
           len \<leftarrow> len; s \<leftarrow> rds msg ptr pre; nm \<leftarrow> rds nmbuf 0 len; t \<leftarrow> rds msg bptr blcnt;
           Some (Inr (s @ nm @ t), a) } } }"

definition data_ipseckey :: "alloc \<Rightarrow> byte list \<Rightarrow> nat \<Rightarrow> nat \<Rightarrow> (rdata \<times> alloc) option" where
  "data_ipseckey a msg ptr rdlength =
     (if rdlength < 3 then Some (Inl RC_FORMAT, a)
      else do {
        gwtp \<leftarrow> rd msg (ptr + 1);
        if gwtp = 0 then do { d \<leftarrow> rds msg ptr rdlength; Some (Inr d, a) }
        else if gwtp = 1 then
          if rdlength - 3 < 4 then Some (Inl RC_FORMAT, a) else do { d \<leftarrow> rds msg ptr rdlength; Some (Inr d, a) }
        else if gwtp = 2 then
          if rdlength - 3 < 16 then Some (Inl RC_FORMAT, a) else do { d \<leftarrow> rds msg ptr rdlength; Some (Inr d, a) }
        else if gwtp = 3 then data_uncompress a msg ptr rdlength 3
        else Some (Inl RC_FORMAT, a) })"

text \<open>The switch over the types.\<close>

definition rr_data :: "alloc \<Rightarrow> byte list \<Rightarrow> nat \<Rightarrow> nat \<Rightarrow> nat \<Rightarrow> (rdata \<times> alloc) option" where
  "rr_data a msg tp ptr rdlength = (let
       keep = do { d \<leftarrow> rds msg ptr rdlength; Some (Inr d, a) };
       pure = (\<lambda>r. do { x \<leftarrow> r; Some (x, a) }) in
     if tp = T_A then (if rdlength \<noteq> 4 then Some (Inl RC_FORMAT, a) else keep)
     else if tp \<in> {T_CNAME, T_MB, T_MD, T_MF, T_MG, T_MR, T_NS, T_PTR} then pure (data_name msg ptr rdlength)
     else if tp \<in> {T_MINFO, T_RP} then pure (data_two_names msg ptr rdlength)
     else if tp \<in> {T_MX, T_AFSDB, T_RT, T_KX} then pure (data_fix_name 2 msg ptr rdlength)
     else if tp = T_SOA then pure (data_soa msg ptr rdlength)
     else if tp = T_AAAA then (if rdlength \<noteq> 16 then Some (Inl RC_FORMAT, a) else keep)
     else if tp = T_PX then pure (data_px msg ptr rdlength)
     else if tp = T_SRV then pure (data_fix_name 6 msg ptr rdlength)
     else if tp = T_NXT then pure (data_nxt msg ptr rdlength)
     else if tp = T_NAPTR then pure (data_naptr msg ptr rdlength)
     else if tp = T_IPSECKEY then data_ipseckey a msg ptr rdlength
     else if tp = T_RRSIG then (if rdlength < 18 then Some (Inl RC_FORMAT, a) else data_uncompress a msg ptr rdlength 18)
     else if tp = T_NSEC then data_uncompress a msg ptr rdlength 0
     else keep)"

subsection \<open>The records of a section\<close>

record edns_info_t =
  ed_udpsize :: "16 word"
  ed_rcode :: "16 word"
  ed_version :: "16 word"
  ed_do_flg :: bool

text \<open>The information in an OPT pseudo record with the given class and TTL field, and the response code of the header.\<close>

definition edns_info :: "byte list \<Rightarrow> nat \<Rightarrow> 16 word \<Rightarrow> edns_info_t option" where
  "edns_info msg ttlp cls = do {
     t0 \<leftarrow> rd msg ttlp; t1 \<leftarrow> rd msg (ttlp + 1); t2 \<leftarrow> rd msg (ttlp + 2);
     h \<leftarrow> get_hdr msg;
     Some \<lparr>ed_udpsize = cls, ed_rcode = push_bit 4 (ucast t0) OR ucast (h_rcode h), ed_version = ucast t1, ed_do_flg = bit t2 7\<rparr> }"

record sect =
  s_ptr :: nat
  s_lcnt :: nat
  s_centa :: "dns_cent_t list"
  s_numopt :: nat
  s_ep :: edns_info_t
  s_mem :: alloc

primrec rrs2cent_loop :: "nat \<Rightarrow> byte list \<Rightarrow> 16 word \<Rightarrow> int \<Rightarrow> sect \<Rightarrow> rc \<Rightarrow> (rc \<times> sect) option" where
  "rrs2cent_loop 0 msg flags queryts s retval = Some (retval, s)"
| "rrs2cent_loop (Suc n) msg flags queryts s retval = do {
     (rc, p, lcnt, oname, len) \<leftarrow> decompress_name msg (length msg) (s_ptr s) (s_lcnt s) (replicate DNSNAMEBUFSIZE 0);
     let s = s\<lparr>s_ptr := p, s_lcnt := lcnt\<rparr>;
     if rc \<noteq> RC_OK then Some (rc, s)
     else if lcnt < sizeof_rr_hdr_t then Some (RC_TRUNC, s)
     else do {
       let lcnt = lcnt - sizeof_rr_hdr_t;
       (type, p) \<leftarrow> GETINT16 msg p;
       (cls, p) \<leftarrow> GETINT16 msg p;
       let ttlp = p;
       (ttl, p) \<leftarrow> GETINT32 msg p;
       (rdlength, p) \<leftarrow> GETINT16 msg p;
       let s = s\<lparr>s_ptr := p, s_lcnt := lcnt\<rparr>;
       let rdlength = unat rdlength;
       let tp = unat type;
       let nxt = s\<lparr>s_ptr := p + rdlength, s_lcnt := lcnt - rdlength\<rparr>;
       if lcnt < rdlength then Some (RC_TRUNC, s)
       else if tp = T_OPT then do {
         ep \<leftarrow> (if s_numopt s = 0 then edns_info msg ttlp cls else Some (s_ep s));
         rrs2cent_loop n msg flags queryts (nxt\<lparr>s_numopt := s_numopt s + 1, s_ep := ep\<rparr>) retval }
       else if \<not> (PDNSD_NOT_CACHED_TYPE tp \<or> unat cls \<noteq> C_IN) then do {
         (r, m) \<leftarrow> rr_data (s_mem s) msg tp p rdlength;
         case r of Inl rc \<Rightarrow> Some (rc, s\<lparr>s_mem := m\<rparr>)
         | Inr dat \<Rightarrow> do {
             (rc, centa, m) \<leftarrow> rr_to_cache m (s_centa s) oname tp (uint ttl) dat flags queryts;
             if rc = RC_FATALERR then Some (rc, s\<lparr>s_centa := centa, s_mem := m\<rparr>)
             else rrs2cent_loop n msg flags queryts (nxt\<lparr>s_centa := centa, s_mem := m\<rparr>)
               (if rc \<noteq> RC_OK then rc else retval) } }
       else rrs2cent_loop n msg flags queryts nxt retval } }"

definition rrs2cent :: "byte list \<Rightarrow> nat \<Rightarrow> 16 word \<Rightarrow> int \<Rightarrow> sect \<Rightarrow> (rc \<times> sect) option" where
  "rrs2cent msg recnum flags queryts s = rrs2cent_loop recnum msg flags queryts s RC_OK"

subsection \<open>What the data denotes\<close>

text \<open>
  \<open>parsed m p q F d\<close>: the bytes of \<open>m\<close> from \<open>p\<close> to \<open>q\<close> are items of the form \<open>F\<close>, and \<open>d\<close> is
  their form without compression.
\<close>

definition parsed :: "byte list \<Rightarrow> nat \<Rightarrow> nat \<Rightarrow> field list \<Rightarrow> byte list \<Rightarrow> bool" where
  "parsed m p q F d \<longleftrightarrow> (\<exists>vs. items_at m p vs q \<and> list_all2 fits_item vs F \<and> d = items_bytes vs)"

definition nm_at :: "byte list \<Rightarrow> nat \<Rightarrow> nat \<Rightarrow> byte list list \<Rightarrow> bool" where
  "nm_at m p n ls \<longleftrightarrow> (\<exists>h. cname m p n h ls \<and> h \<le> 255 \<and> wf_name ls)"

lemma nm_at_det: "nm_at m p n ls \<Longrightarrow> nm_at m p n' ls' \<Longrightarrow> n = n' \<and> ls = ls'"
  unfolding nm_at_def using cname_det by blast

lemma fits_Nam: "fits_item v Nam \<longleftrightarrow> (\<exists>ls. v = Name ls \<and> wf_name ls)"
  by (cases v) auto

lemma fits_Fix: "fits_item v (Fix n) \<longleftrightarrow> (\<exists>b. v = Raw b \<and> length b = n)"
  by (cases v) auto

lemma fits_Str: "fits_item v Str \<longleftrightarrow> (\<exists>c b. v = Raw (c # b) \<and> length b = unat c)"
  by (cases v; cases "case v of Raw b \<Rightarrow> b | Name _ \<Rightarrow> []") auto

lemma fits_Rest: "fits_item v Rest \<longleftrightarrow> (\<exists>b. v = Raw b)"
  by (cases v) auto

lemma parsed_Nil: "parsed m p q [] d \<longleftrightarrow> p = q \<and> p \<le> length m \<and> d = []"
  by (auto simp: parsed_def)

lemma parsed_Nam: "parsed m p q (Nam # F) d \<longleftrightarrow> (\<exists>n ls d'. nm_at m p n ls \<and> parsed m (p + n) q F d' \<and> d = enc ls @ d')"
  (is "?l = ?r")
proof
  show "?l \<Longrightarrow> ?r" by (fastforce simp: parsed_def list_all2_Cons2 fits_Nam nm_at_def)
  assume ?r
  then obtain n h ls vs where "cname m p n h ls" "h \<le> 255" "wf_name ls" "items_at m (p + n) vs q" "list_all2 fits_item vs F"
    "d = enc ls @ items_bytes vs" by (auto simp: parsed_def nm_at_def)
  then show ?l unfolding parsed_def by (intro exI [of _ "Name ls # vs"]) auto
qed

lemma parsed_Fix: "parsed m p q (Fix k # F) d \<longleftrightarrow> (\<exists>d'. p + k \<le> length m \<and> parsed m (p + k) q F d' \<and> d = take k (drop p m) @ d')"
  (is "?l = ?r")
proof
  assume ?l
  then obtain b vs where b: "length b = k" "take (length b) (drop p m) = b" "items_at m (p + length b) vs q" "list_all2 fits_item vs F"
    "d = b @ items_bytes vs" by (auto simp: parsed_def list_all2_Cons2 fits_Fix)
  with items_at_le [OF b(3)] show ?r by (auto simp: parsed_def)
next
  assume ?r
  then obtain vs where "p + k \<le> length m" "items_at m (p + k) vs q" "list_all2 fits_item vs F" "d = take k (drop p m) @ items_bytes vs"
    by (auto simp: parsed_def)
  moreover have "length (take k (drop p m)) = k" using calculation(1) by simp
  ultimately show ?l unfolding parsed_def
    by (intro exI [of _ "Raw (take k (drop p m)) # vs"]) (simp del: length_take)
qed

lemma parsed_Str: "parsed m p q (Str # F) d \<longleftrightarrow>
    (\<exists>c d'. rd m p = Some c \<and> p + 1 + unat c \<le> length m \<and> parsed m (p + 1 + unat c) q F d' \<and> d = take (1 + unat c) (drop p m) @ d')"
  (is "?l = ?r")
proof
  assume ?l
  then obtain c b vs where b: "length b = unat c" "take (1 + unat c) (drop p m) = c # b" "items_at m (p + 1 + unat c) vs q" "list_all2 fits_item vs F"
    "d = c # b @ items_bytes vs" by (auto simp: parsed_def list_all2_Cons2 fits_Str)
  from arg_cong [OF b(2), of "\<lambda>xs. xs ! 0"] have "rd m p = Some c" using items_at_le [OF b(3)] by (simp add: rd_def)
  with b items_at_le [OF b(3)] show ?r by (auto simp: parsed_def)
next
  assume ?r
  then obtain c vs where c: "rd m p = Some c" "p + 1 + unat c \<le> length m" "items_at m (p + 1 + unat c) vs q" "list_all2 fits_item vs F"
    "d = take (1 + unat c) (drop p m) @ items_bytes vs" by (auto simp: parsed_def)
  then have t: "take (1 + unat c) (drop p m) = c # take (unat c) (drop (p + 1) m)"
    by (simp add: rd_Some Cons_nth_drop_Suc [symmetric])
  have l: "length (take (unat c) (drop (p + 1) m)) = unat c" using c(2) by simp
  with c t show ?l unfolding parsed_def
    by (intro exI [of _ "Raw (c # take (unat c) (drop (p + 1) m)) # vs"]) (simp del: length_take)
qed

lemma parsed_Rest: "parsed m p q [Rest] d \<longleftrightarrow> p \<le> q \<and> q \<le> length m \<and> d = take (q - p) (drop p m)" (is "?l = ?r")
proof
  assume ?l
  then obtain b where "take (length b) (drop p m) = b" "p + length b = q" "q \<le> length m" "d = b"
    by (auto simp: parsed_def list_all2_Cons2 fits_Rest)
  then show ?r by auto
next
  assume ?r
  then show ?l unfolding parsed_def by (intro exI [of _ "[Raw d]"]) (auto simp: min_def)
qed

lemmas parsed_simps = parsed_Nil parsed_Nam parsed_Fix parsed_Str parsed_Rest

lemma parsed_name: "nm_at m p n ls \<Longrightarrow> parsed m p q (Nam # F) d \<longleftrightarrow> (\<exists>d'. parsed m (p + n) q F d' \<and> d = enc ls @ d')"
  unfolding parsed_Nam using nm_at_det by blast

lemma parsed_le: "parsed m p q F d \<Longrightarrow> p \<le> q \<and> q \<le> length m"
  by (auto simp: parsed_def dest: items_at_le)

subsection \<open>Decompression into a buffer\<close>

text \<open>The codes that decompression returns.\<close>

lemma decompress_jumped_rc:
  assumes "P RC_OK" "P RC_FORMAT"
  shows "decompress_jumped msg msgsz hops lptr tgt tpos = Some (rc, r) \<Longrightarrow> P rc"
proof (induction msg msgsz hops lptr tgt tpos rule: decompress_jumped.induct)
  case (1 msg msgsz hops lptr tgt tpos)
  note ih = "1.IH" [simplified]
  from "1.prems" assms show ?case
    by (subst (asm) decompress_jumped.simps) (auto simp: bind_eq_Some_conv split: if_splits intro: ih)
qed

lemma decompress_direct_rc:
  assumes "P RC_OK" "P RC_FORMAT" "P RC_TRUNC"
  shows "decompress_direct msg msgsz newsz lptr tgt tpos = Some (rc, r) \<Longrightarrow> P rc"
proof (induction msg msgsz newsz lptr tgt tpos rule: decompress_direct.induct)
  case (1 msg msgsz newsz lptr tgt tpos)
  note ih = "1.IH" [simplified]
  from "1.prems" assms show ?case
    by (subst (asm) decompress_direct.simps)
      (auto simp: bind_eq_Some_conv split: if_splits intro: ih decompress_jumped_rc [where P = P])
qed

lemma decompress_name_rc: "decompress_name msg msgsz src sz tgt = Some (rc, r) \<Longrightarrow> rc \<in> {RC_OK, RC_FORMAT, RC_TRUNC}"
  by (auto simp: decompress_name_def bind_eq_Some_conv split: if_splits
      dest!: decompress_direct_rc [where P = "\<lambda>rc. rc \<in> {RC_OK, RC_FORMAT, RC_TRUNC}", rotated 3])

lemma name_cases:
  assumes "length tgt = DNSNAMEBUFSIZE"
  obtains (name) n ls tgt' where "nm_at m p n ls" "n \<le> b"
      "decompress_name m (length m) p b tgt = Some (RC_OK, p + n, b - n, tgt', Some (length (enc ls)))"
      "length tgt' = DNSNAMEBUFSIZE" "take (length (enc ls)) tgt' = enc ls"
    | (error) rc tgt' where "\<And>n ls. nm_at m p n ls \<Longrightarrow> \<not> n \<le> b" "rc = RC_FORMAT \<or> rc = RC_TRUNC"
      "decompress_name m (length m) p b tgt = Some (rc, p, b, tgt', None)" "length tgt' = DNSNAMEBUFSIZE"
proof (cases "\<exists>n h ls. cname m p n h ls \<and> n \<le> b \<and> h \<le> 255 \<and> length (enc ls) \<le> DNSNAMEBUFSIZE")
  case True
  then obtain n h ls where c: "cname m p n h ls" "n \<le> b" "h \<le> 255" "length (enc ls) \<le> DNSNAMEBUFSIZE" by blast
  then have "nm_at m p n ls" using cname_labs [OF c(1)] by (auto simp: nm_at_def wf_name_def)
  with decompress_name_cname [OF order_refl assms, of m p n h ls b] c name show thesis by auto
next
  case False
  then have e: "\<not> n \<le> b" if "nm_at m p n ls" for n ls using that by (auto simp: nm_at_def wf_name_def)
  obtain rc tgt' where d: "decompress_name m (length m) p b tgt = Some (rc, p, b, tgt', None)" "rc \<noteq> RC_OK" "length tgt' = DNSNAMEBUFSIZE"
    using decompress_name_error [OF order_refl assms, of m p b] False by auto
  from decompress_name_rc [OF d(1)] d(2) have "rc = RC_FORMAT \<or> rc = RC_TRUNC" by auto
  from error [OF e this d(1,3)] show thesis .
qed

lemma dec_into_cases:
  assumes "off + DNSNAMEBUFSIZE \<le> length db"
  obtains (name) n ls db' where "nm_at m p n ls" "n \<le> b"
      "dec_into m db off p b = Some (RC_OK, p + n, b - n, db', Some (length (enc ls)))"
      "length db' = length db" "take (off + length (enc ls)) db' = take off db @ enc ls" "length (enc ls) \<le> DNSNAMEBUFSIZE"
    | (error) rc db' where "\<And>n ls. nm_at m p n ls \<Longrightarrow> \<not> n \<le> b" "name_rc rc = RC_FORMAT" "rc \<noteq> RC_OK"
      "dec_into m db off p b = Some (rc, p, b, db', None)"
proof -
  let ?sub = "take DNSNAMEBUFSIZE (drop off db)"
  have sub: "rds db off DNSNAMEBUFSIZE = Some ?sub" "length ?sub = DNSNAMEBUFSIZE" using assms by (simp_all add: rds_def)
  have w: "wrs db off tgt = Some (take off db @ tgt @ drop (off + DNSNAMEBUFSIZE) db)" if "length tgt = DNSNAMEBUFSIZE" for tgt
    using assms that by (simp add: wrs_def)
  from sub(2) show thesis
  proof (cases rule: name_cases [where m = m and p = p and b = b])
    case (name n ls tgt')
    have le: "length (enc ls) \<le> DNSNAMEBUFSIZE" "length (take off db) = off" using name(1) assms by (auto simp: nm_at_def wf_name_def)
    from that(1) [OF name(1,2), of "take off db @ tgt' @ drop (off + DNSNAMEBUFSIZE) db"] name(3-5) assms le show thesis
      by (simp add: dec_into_def sub w del: length_take)
  next
    case (error rc tgt')
    with that(2) [of rc "take off db @ tgt' @ drop (off + DNSNAMEBUFSIZE) db"] show thesis
      by (auto simp: dec_into_def sub w name_rc_def)
  qed
qed

subsection \<open>Every case of the switch\<close>

definition rspec :: "byte list \<Rightarrow> nat \<Rightarrow> nat \<Rightarrow> field list \<Rightarrow> rdata \<Rightarrow> bool" where
  "rspec m p b F r \<longleftrightarrow> (case r of Inr d \<Rightarrow> parsed m p (p + b) F d
     | Inl rc \<Rightarrow> rc = RC_FORMAT \<and> (\<forall>d. \<not> parsed m p (p + b) F d))"

lemma rspec_simps [simp]: "rspec m p b F (Inr d) = parsed m p (p + b) F d"
  "rspec m p b F (Inl rc) = (rc = RC_FORMAT \<and> (\<forall>d. \<not> parsed m p (p + b) F d))"
  by (simp_all add: rspec_def)

lemma no_name: "(\<And>n ls. nm_at m p n ls \<Longrightarrow> \<not> n \<le> q - p) \<Longrightarrow> \<not> parsed m p q (Nam # F) d"
proof
  assume n: "\<And>n ls. nm_at m p n ls \<Longrightarrow> \<not> n \<le> q - p" and "parsed m p q (Nam # F) d"
  then obtain n ls d' where "nm_at m p n ls" "parsed m (p + n) q F d'" by (auto simp: parsed_Nam)
  with n parsed_le [OF this(2)] show False by fastforce
qed

lemma no_fix: "q < p + k \<Longrightarrow> \<not> parsed m p q (Fix k # F) d"
  by (auto simp: parsed_Fix dest!: parsed_le)

lemma parsed_fix: "p + k \<le> length m \<Longrightarrow> parsed m p q (Fix k # F) d \<longleftrightarrow> (\<exists>d'. parsed m (p + k) q F d' \<and> d = take k (drop p m) @ d')"
  by (simp add: parsed_Fix)

lemma rds_front: "take n db = d \<Longrightarrow> length d = n \<Longrightarrow> rds db 0 n = Some d"
  by (auto simp: rds_def)

lemma data_name_ok:
  assumes "p + b \<le> length m"
  shows "\<exists>r. data_name m p b = Some r \<and> rspec m p b [Nam] r"
proof -
  have "0 + DNSNAMEBUFSIZE \<le> length (replicate DNSNAMEBUFSIZE 0)" by simp
  then show ?thesis
  proof (cases rule: dec_into_cases [where m = m and p = p and b = b])
    case (name n ls db')
    with assms rds_front [of "length (enc ls)" db' "enc ls"] show ?thesis
      by (cases "n = b") (auto simp: data_name_def parsed_name [OF name(1)] parsed_Nil)
  next
    case (error rc db')
    with no_name [of m p "p + b" "[]"] show ?thesis by (simp add: data_name_def)
  qed
qed

text \<open>After the first name, a second one and the end.\<close>

lemma data_two_names_ok:
  assumes "p + b \<le> length m"
  shows "\<exists>r. data_two_names m p b = Some r \<and> rspec m p b [Nam, Nam] r"
proof -
  have "0 + DNSNAMEBUFSIZE \<le> length (replicate (DNSNAMEBUFSIZE + DNSNAMEBUFSIZE) 0)" by simp
  then show ?thesis
  proof (cases rule: dec_into_cases [where m = m and p = p and b = b])
    case (name n ls db1)
    then have "length (enc ls) + DNSNAMEBUFSIZE \<le> length db1" by simp
    then show ?thesis
    proof (cases rule: dec_into_cases [where m = m and p = "p + n" and b = "b - n"])
      case second: (name n2 ls2 db2)
      with assms name rds_front [of "length (enc ls) + length (enc ls2)" db2 "enc ls @ enc ls2"] show ?thesis
        by (cases "n2 = b - n") (auto simp: data_two_names_def parsed_name [OF name(1)] parsed_name [OF second(1)] parsed_Nil)
    next
      case (error rc db2)
      with name no_name [of m "p + n" "p + b" "[]"] show ?thesis
        by (simp add: data_two_names_def parsed_name [OF name(1)])
    qed
  next
    case (error rc db')
    with no_name [of m p "p + b" "[Nam]"] show ?thesis by (simp add: data_two_names_def)
  qed
qed

lemma data_fix_name_ok:
  assumes "p + b \<le> length m"
  shows "\<exists>r. data_fix_name k m p b = Some r \<and> rspec m p b [Fix k, Nam] r"
proof (cases "b < k")
  case True
  with no_fix [of "p + b" p k m "[Nam]"] show ?thesis by (simp add: data_fix_name_def)
next
  case False
  let ?pre = "take k (drop p m)" and ?db = "take k (drop p m) @ replicate DNSNAMEBUFSIZE 0"
  have pre: "rds m p k = Some ?pre" "length ?pre = k" "wrs (replicate (k + DNSNAMEBUFSIZE) 0) 0 ?pre = Some ?db"
    using assms False by (simp_all add: rds_def wrs_def)
  have pf: "parsed m p (p + b) [Fix k, Nam] d \<longleftrightarrow> (\<exists>d'. parsed m (p + k) (p + b) [Nam] d' \<and> d = ?pre @ d')" for d
    using assms False by (intro parsed_fix) simp
  have "k + DNSNAMEBUFSIZE \<le> length ?db" using pre(2) by simp
  then show ?thesis
  proof (cases rule: dec_into_cases [where m = m and p = "p + k" and b = "b - k"])
    case (name n ls db')
    with assms False pre rds_front [of "k + length (enc ls)" db' "?pre @ enc ls"] show ?thesis
      by (cases "n = b - k") (auto simp: data_fix_name_def pf parsed_name [OF name(1)] parsed_Nil)
  next
    case (error rc db')
    with pre False no_name [of m "p + k" "p + b" "[]"] show ?thesis by (simp add: data_fix_name_def pf)
  qed
qed

lemma data_soa_ok:
  assumes "p + b \<le> length m"
  shows "\<exists>r. data_soa m p b = Some r \<and> rspec m p b [Nam, Nam, Fix 20] r"
proof -
  let ?db = "replicate (DNSNAMEBUFSIZE + DNSNAMEBUFSIZE + 20) (0 :: byte)"
  have "0 + DNSNAMEBUFSIZE \<le> length ?db" by simp
  then show ?thesis
  proof (cases rule: dec_into_cases [where m = m and p = p and b = b])
    case (name n ls db1)
    then have "length (enc ls) + DNSNAMEBUFSIZE \<le> length db1" by simp
    then show ?thesis
    proof (cases rule: dec_into_cases [where m = m and p = "p + n" and b = "b - n"])
      case second: (name n2 ls2 db2)
      let ?n = "length (enc ls) + length (enc ls2)"
      have front: "take ?n db2 = enc ls @ enc ls2" and len: "?n + 20 \<le> length db2" using name second by simp_all
      show ?thesis
      proof (cases "b - n - n2 < 20")
        case True
        with name second no_fix [of "p + b" "p + n + n2" 20 m "[]"] show ?thesis
          by (simp add: data_soa_def Let_def parsed_name [OF name(1)] parsed_name [OF second(1)] add.assoc)
      next
        case False
        let ?s = "take 20 (drop (p + n + n2) m)"
        have s: "rds m (p + n + n2) 20 = Some ?s" "length ?s = 20" using assms False by (simp_all add: rds_def)
        let ?db3 = "take ?n db2 @ ?s @ drop (?n + 20) db2"
        have w: "wrs db2 ?n ?s = Some ?db3" using len s(2) by (simp add: wrs_def)
        have d: "rds ?db3 0 (?n + 20) = Some (enc ls @ enc ls2 @ ?s)" using front s(2) by (simp add: rds_def)
        have pf: "parsed m (p + n + n2) (p + b) [Fix 20] d \<longleftrightarrow> b - n - n2 = 20 \<and> d = ?s" for d
          using assms False name(2) second(2) by (auto simp: parsed_fix parsed_Nil)
        show ?thesis using name second s w d
          by (cases "b - n - n2 - 20 = 0") (auto simp: data_soa_def Let_def parsed_name [OF name(1)] parsed_name [OF second(1)] pf)
      qed
    next
      case (error rc db2)
      with name no_name [of m "p + n" "p + b" "[Fix 20]"] show ?thesis
        by (simp add: data_soa_def parsed_name [OF name(1)])
    qed
  next
    case (error rc db')
    with no_name [of m p "p + b" "[Nam, Fix 20]"] show ?thesis by (simp add: data_soa_def)
  qed
qed

lemma data_px_ok:
  assumes "p + b \<le> length m"
  shows "\<exists>r. data_px m p b = Some r \<and> rspec m p b [Fix 2, Nam, Nam] r"
proof (cases "b < 2")
  case True
  with no_fix [of "p + b" p 2 m "[Nam, Nam]"] show ?thesis by (simp add: data_px_def)
next
  case False
  let ?pre = "take 2 (drop p m)" and ?db = "take 2 (drop p m) @ replicate (DNSNAMEBUFSIZE + DNSNAMEBUFSIZE) 0"
  have pre: "rds m p 2 = Some ?pre" "length ?pre = 2" "wrs (replicate (2 + DNSNAMEBUFSIZE + DNSNAMEBUFSIZE) 0) 0 ?pre = Some ?db"
    using assms False by (simp_all add: rds_def wrs_def)
  have pf: "parsed m p (p + b) [Fix 2, Nam, Nam] d \<longleftrightarrow> (\<exists>d'. parsed m (p + 2) (p + b) [Nam, Nam] d' \<and> d = ?pre @ d')" for d
    using assms False by (intro parsed_fix) simp
  have "2 + DNSNAMEBUFSIZE \<le> length ?db" using pre(2) by simp
  then show ?thesis
  proof (cases rule: dec_into_cases [where m = m and p = "p + 2" and b = "b - 2"])
    case (name n ls db1)
    then have "2 + length (enc ls) + DNSNAMEBUFSIZE \<le> length db1" using pre(2) by simp
    then show ?thesis
    proof (cases rule: dec_into_cases [where m = m and p = "p + 2 + n" and b = "b - 2 - n"])
      case second: (name n2 ls2 db2)
      have pf2: "parsed m p (p + b) [Fix 2, Nam, Nam] d \<longleftrightarrow> n2 = b - 2 - n \<and> d = ?pre @ enc ls @ enc ls2" for d
        using assms False name(2) second(2)
        unfolding pf parsed_name [OF name(1)] parsed_name [OF second(1)] parsed_Nil by auto
      from assms False pre name second rds_front [of "2 + length (enc ls) + length (enc ls2)" db2 "?pre @ enc ls @ enc ls2"] show ?thesis
        by (cases "n2 = b - 2 - n") (auto simp: data_px_def Let_def pf2)
    next
      case (error rc db2)
      have nn: "\<not> parsed m (p + 2 + n) (p + b) [Nam] d" for d by (rule no_name) (use error(1) in simp)
      have pf2: "\<not> parsed m p (p + b) [Fix 2, Nam, Nam] d" for d
        unfolding pf parsed_name [OF name(1)] using nn by blast
      from pre False name error show ?thesis by (simp add: data_px_def pf2)
    qed
  next
    case (error rc db')
    with pre False no_name [of m "p + 2" "p + b" "[Nam]"] show ?thesis by (simp add: data_px_def pf)
  qed
qed

lemma data_nxt_ok:
  assumes "p + b \<le> length m"
  shows "\<exists>r. data_nxt m p b = Some r \<and>
    (case r of Inr d \<Rightarrow> parsed m p (p + b) [Nam, Rest] d \<and> length d \<le> 1040
     | Inl rc \<Rightarrow> rc = RC_FORMAT \<and> (\<forall>d. parsed m p (p + b) [Nam, Rest] d \<longrightarrow> 1040 < length d))"
proof -
  have "0 + DNSNAMEBUFSIZE \<le> length (replicate 1040 0)" by (simp add: DNSNAMEBUFSIZE_def)
  then show ?thesis
  proof (cases rule: dec_into_cases [where m = m and p = p and b = b])
    case (name n ls db1)
    let ?s = "take (b - n) (drop (p + n) m)"
    have s: "rds m (p + n) (b - n) = Some ?s" "length ?s = b - n" using assms name(2) by (simp_all add: rds_def)
    have pr: "parsed m p (p + b) [Nam, Rest] d \<longleftrightarrow> d = enc ls @ ?s" for d
      using assms name(2) by (simp add: parsed_name [OF name(1)] parsed_Rest)
    show ?thesis
    proof (cases "length (enc ls) + (b - n) > 1040")
      case True
      with name s(2) show ?thesis by (simp add: data_nxt_def pr)
    next
      case False
      let ?db = "take (length (enc ls)) db1 @ ?s @ drop (length (enc ls) + (b - n)) db1"
      have w: "wrs db1 (length (enc ls)) ?s = Some ?db" using False name(4) s(2) by (simp add: wrs_def)
      have "rds ?db 0 (length (enc ls) + (b - n)) = Some (enc ls @ ?s)" using name(5) s(2) by (simp add: rds_def)
      with w False name s show ?thesis by (simp add: data_nxt_def pr)
    qed
  next
    case (error rc db')
    with no_name [of m p "p + b" "[Rest]"] show ?thesis by (simp add: data_nxt_def)
  qed
qed

text \<open>The texts of \<^verbatim>\<open>T_NAPTR\<close>: \<open>j\<close> of them from the offset \<open>len\<close> on.\<close>

lemma naptr_len_ok:
  assumes "p + b \<le> length m"
  shows "\<exists>r. naptr_len j m p b len = Some r \<and> (case r of
     Some l \<Rightarrow> len \<le> l \<and> l \<le> max len (b + 255) \<and> l \<le> len + j * 256 \<and> (l \<le> b \<longrightarrow>
       (\<forall>d. parsed m (p + len) (p + b) (replicate j Str @ [Nam]) d \<longleftrightarrow>
         (\<exists>d'. parsed m (p + l) (p + b) [Nam] d' \<and> d = take (l - len) (drop (p + len) m) @ d'))) \<and>
       (b < l \<longrightarrow> (\<forall>d. \<not> parsed m (p + len) (p + b) (replicate j Str @ [Nam]) d))
   | None \<Rightarrow> (\<forall>d. \<not> parsed m (p + len) (p + b) (replicate j Str @ [Nam]) d))"
proof (induction j arbitrary: len)
  case 0
  then show ?case by (auto dest: parsed_le)
next
  case (Suc j)
  show ?case
  proof (cases "len \<ge> b")
    case True
    then show ?thesis by (auto simp: parsed_Str rd_Some dest!: parsed_le)
  next
    case False
    then obtain c where c: "rd m (p + len) = Some c" using assms by (auto simp: rd_def)
    let ?l = "len + unat c + 1"
    from Suc.IH [of ?l] obtain r where r: "naptr_len j m p b ?l = Some r" "case r of
       Some l \<Rightarrow> ?l \<le> l \<and> l \<le> max ?l (b + 255) \<and> l \<le> ?l + j * 256 \<and> (l \<le> b \<longrightarrow>
         (\<forall>d. parsed m (p + ?l) (p + b) (replicate j Str @ [Nam]) d \<longleftrightarrow>
           (\<exists>d'. parsed m (p + l) (p + b) [Nam] d' \<and> d = take (l - ?l) (drop (p + ?l) m) @ d'))) \<and>
         (b < l \<longrightarrow> (\<forall>d. \<not> parsed m (p + ?l) (p + b) (replicate j Str @ [Nam]) d))
     | None \<Rightarrow> (\<forall>d. \<not> parsed m (p + ?l) (p + b) (replicate j Str @ [Nam]) d)" by blast
    have run: "naptr_len (Suc j) m p b len = naptr_len j m p b ?l" using False c by simp
    have step: "parsed m (p + len) (p + b) (replicate (Suc j) Str @ [Nam]) d \<longleftrightarrow>
        (\<exists>d'. parsed m (p + ?l) (p + b) (replicate j Str @ [Nam]) d' \<and> d = take (1 + unat c) (drop (p + len) m) @ d')" for d
    proof -
      have "p + ?l \<le> length m" if "parsed m (p + ?l) (p + b) (replicate j Str @ [Nam]) d'" for d'
        using parsed_le [OF that] assms by simp
      then show ?thesis using c unfolding replicate_Suc append_Cons parsed_Str by (auto simp: add.assoc)
    qed
    have bound: "unat c \<le> 255" using unat_byte_less [of c] by linarith
    show ?thesis
    proof (cases r)
      case None
      with r step show ?thesis unfolding run by simp
    next
      case (Some l)
      with r(2) have l: "?l \<le> l" "l \<le> max ?l (b + 255)" "l \<le> ?l + j * 256" by auto
      have tk: "take (l - len) (drop (p + len) m) = take (1 + unat c) (drop (p + len) m) @ take (l - ?l) (drop (p + ?l) m)"
      proof -
        have "l - len = (1 + unat c) + (l - ?l)" using l(1) by simp
        then have "take (l - len) (drop (p + len) m) = take (1 + unat c) (drop (p + len) m) @ take (l - ?l) (drop (1 + unat c) (drop (p + len) m))"
          by (simp only: take_add)
        moreover have "drop (1 + unat c) (drop (p + len) m) = drop (p + ?l) m" by (simp add: ac_simps)
        ultimately show ?thesis by simp
      qed
      have "l \<le> max len (b + 255)" "l \<le> len + Suc j * 256" using l False bound by auto
      with r Some l(1) step tk show ?thesis unfolding run by (intro exI [of _ "Some l"]) auto
    qed
  qed
qed

lemma data_naptr_ok:
  assumes "p + b \<le> length m"
  shows "\<exists>r. data_naptr m p b = Some r \<and> rspec m p b [Fix 4, Str, Str, Str, Nam] r"
proof (cases "b < 4")
  case True
  with no_fix [of "p + b" p 4 m "[Str, Str, Str, Nam]"] show ?thesis by (simp add: data_naptr_def numeral_3_eq_3)
next
  case False
  have st: "[Str, Str, Str, Nam] = replicate 3 Str @ [Nam]" by (simp add: numeral_3_eq_3)
  have pf: "parsed m p (p + b) [Fix 4, Str, Str, Str, Nam] d \<longleftrightarrow>
      (\<exists>d'. parsed m (p + 4) (p + b) (replicate 3 Str @ [Nam]) d' \<and> d = take 4 (drop p m) @ d')" for d
    using assms False unfolding st [symmetric] by (intro parsed_fix) simp
  from naptr_len_ok [OF assms, of 3 4] obtain r where r: "naptr_len 3 m p b 4 = Some r" "case r of
     Some l \<Rightarrow> 4 \<le> l \<and> l \<le> max 4 (b + 255) \<and> l \<le> 4 + 3 * 256 \<and> (l \<le> b \<longrightarrow>
       (\<forall>d. parsed m (p + 4) (p + b) (replicate 3 Str @ [Nam]) d \<longleftrightarrow>
         (\<exists>d'. parsed m (p + l) (p + b) [Nam] d' \<and> d = take (l - 4) (drop (p + 4) m) @ d'))) \<and>
       (b < l \<longrightarrow> (\<forall>d. \<not> parsed m (p + 4) (p + b) (replicate 3 Str @ [Nam]) d))
   | None \<Rightarrow> (\<forall>d. \<not> parsed m (p + 4) (p + b) (replicate 3 Str @ [Nam]) d)" by blast
  show ?thesis
  proof (cases "\<exists>l. r = Some l \<and> l \<le> b")
    case False
    then have "\<not> parsed m (p + 4) (p + b) (replicate 3 Str @ [Nam]) d" for d using r(2) by (cases r) auto
    with False r(1) show ?thesis by (cases r) (auto simp: data_naptr_def pf)
  next
    case True
    then obtain l where l: "r = Some l" "l \<le> b" "4 \<le> l" "l \<le> 4 + 3 * 256" using r(2) by auto
    let ?pre = "take l (drop p m)" and ?db = "take l (drop p m) @ replicate (4 + 3 * 256 + DNSNAMEBUFSIZE - l) 0"
    have "take l (drop p m) = take 4 (drop p m) @ take (l - 4) (drop (p + 4) m)"
    proof -
      have "l = 4 + (l - 4)" using l(3) by simp
      then show ?thesis by (metis take_add drop_drop add.commute)
    qed
    then have pf2: "parsed m p (p + b) [Fix 4, Str, Str, Str, Nam] d \<longleftrightarrow> (\<exists>d'. parsed m (p + l) (p + b) [Nam] d' \<and> d = ?pre @ d')" for d
      unfolding pf using r(2) l(1,2) by auto
    have pre: "rds m p l = Some ?pre" "length ?pre = l" "wrs (replicate (4 + 3 * 256 + DNSNAMEBUFSIZE) 0) 0 ?pre = Some ?db"
      using assms l by (simp_all add: rds_def wrs_def)
    have "l + DNSNAMEBUFSIZE \<le> length ?db" using l(4) pre(2) by simp
    then show ?thesis
    proof (cases rule: dec_into_cases [where m = m and p = "p + l" and b = "b - l"])
      case (name n ls db')
      with assms l pre r(1) rds_front [of "l + length (enc ls)" db' "?pre @ enc ls"] show ?thesis
        by (cases "n = b - l") (auto simp: data_naptr_def pf2 parsed_name [OF name(1)] parsed_Nil)
    next
      case (error rc db')
      have nn: "\<not> parsed m (p + l) (p + b) [Nam] d" for d by (rule no_name) (use error(1) in simp)
      from pre l r(1) error show ?thesis by (simp add: data_naptr_def pf2 nn)
    qed
  qed
qed

text \<open>A plain name is its own decompression.\<close>

lemma plain_nm_at: "list_all lab63 ls \<Longrightarrow> name_at m p ls \<Longrightarrow> cname m p (length (enc ls)) 0 ls"
proof (induction ls arbitrary: p)
  case Nil
  then show ?case using cname_end [of m p] by simp
next
  case (Cons l ls)
  then have l: "lab63 l" "rd m p = Some (of_nat (length l))" "take (length l) (drop (p + 1) m) = l" "name_at m (p + 1 + length l) ls"
    by (auto simp: lab63_def)
  from cname_lab [OF l(2,1,3) Cons.IH [OF _ l(4)]] Cons.prems show ?case by simp
qed

lemma name_at_in_drop: "name_at (drop k m) p ls \<longleftrightarrow> name_at m (k + p) ls"
  by (induction ls arbitrary: p) (auto simp: rd_drop ac_simps)

lemma data_uncompress_ok:
  assumes "p + b \<le> length m" "k \<le> b"
  shows "\<exists>r a'. data_uncompress a m p b k = Some (r, a') \<and> (\<forall>n. \<not> a' n \<longrightarrow> (\<exists>n. \<not> a n)) \<and>
    (rspec m p b [Fix k, Nam, Rest] r \<or> r = Inl RC_FATALERR \<and> (\<exists>n. \<not> a n))"
proof -
  have pf: "parsed m p (p + b) [Fix k, Nam, Rest] d \<longleftrightarrow> (\<exists>d'. parsed m (p + k) (p + b) [Nam, Rest] d' \<and> d = take k (drop p m) @ d')" for d
    using assms by (intro parsed_fix) simp
  have s: "rds m p k = Some (take k (drop p m))" "rds m p b = Some (take b (drop p m))" using assms by (simp_all add: rds_def)
  let ?t = "\<lambda>n. take (b - k - n) (drop (p + k + n) m)"
  have nr: "parsed m p (p + b) [Fix k, Nam, Rest] d \<longleftrightarrow> d = take k (drop p m) @ enc ls @ ?t n"
    if "nm_at m (p + k) n ls" "n \<le> b - k" for d n ls
    using assms that(2) unfolding pf parsed_name [OF that(1)] by (auto simp: parsed_Rest)
  have "b - k \<le> length (drop (p + k) m)" using assms by simp
  from isnormalencdomname_spec [OF this]
  have plain: "isnormalencdomname (drop (p + k) m) (b - k) = Some (\<exists>ls. wf_name ls \<and> name_at m (p + k) ls \<and> length (enc ls) \<le> b - k)"
    by (simp add: name_at_in_drop)
  show ?thesis
  proof (cases "\<exists>ls. wf_name ls \<and> name_at m (p + k) ls \<and> length (enc ls) \<le> b - k")
    case True
    then obtain ls where ls: "wf_name ls" "name_at m (p + k) ls" "length (enc ls) \<le> b - k" by blast
    then have nm: "nm_at m (p + k) (length (enc ls)) ls"
      using plain_nm_at [OF _ ls(2)] by (auto simp: nm_at_def wf_name_def)
    have "take b (drop p m) = take k (drop p m) @ take (length (enc ls)) (drop (p + k) m) @ ?t (length (enc ls))"
    proof -
      have "take b (drop p m) = take (k + (length (enc ls) + (b - k - length (enc ls)))) (drop p m)" using assms(2) ls(3) by simp
      then show ?thesis unfolding take_add drop_drop by (simp only: ac_simps)
    qed
    moreover have "take (length (enc ls)) (drop (p + k) m) = enc ls"
      using name_at_take_enc [of "drop (p + k) m" ls] ls(2) by (simp add: name_at_in_drop)
    ultimately have "parsed m p (p + b) [Fix k, Nam, Rest] (take b (drop p m))" using nr [OF nm ls(3)] by simp
    with s plain True show ?thesis by (auto simp: data_uncompress_def)
  next
    case False
    have "0 + DNSNAMEBUFSIZE \<le> length (replicate DNSNAMEBUFSIZE 0)" by simp
    then show ?thesis
    proof (cases rule: dec_into_cases [where m = m and p = "p + k" and b = "b - k"])
      case (name n ls db')
      have t: "rds m (p + k + n) (b - k - n) = Some (?t n)" using assms name(2) by (simp add: rds_def)
      from name s t rds_front [of "length (enc ls)" db' "enc ls"] plain False nr [OF name(1,2)] show ?thesis
        by (cases "a 0") (auto simp: data_uncompress_def malloc_def)
    next
      case (error rc db')
      have "\<not> parsed m (p + k) (p + b) [Nam, Rest] d" for d by (rule no_name) (use error(1) in simp)
      then have "\<not> parsed m p (p + b) [Fix k, Nam, Rest] d" for d unfolding pf by blast
      with error s plain False show ?thesis by (auto simp: data_uncompress_def)
    qed
  qed
qed

subsection \<open>The switch as a whole\<close>

text \<open>
  \<open>wire_data tp m p b d\<close>: the \<open>b\<close> bytes at \<open>p\<close> are acceptable data of a record of type \<open>tp\<close>, and \<open>d\<close>
  is their form without compression.
\<close>

definition wire_data :: "nat \<Rightarrow> byte list \<Rightarrow> nat \<Rightarrow> nat \<Rightarrow> byte list \<Rightarrow> bool" where
  "wire_data tp m p b d \<longleftrightarrow>
     (if tp = T_A then parsed m p (p + b) [Fix 4] d
      else if tp = T_AAAA then parsed m p (p + b) [Fix 16] d
      else if tp = T_IPSECKEY then
        (if rd m (p + 1) = Some 0 then parsed m p (p + b) [Fix 3, Rest] d
         else if rd m (p + 1) = Some 1 then parsed m p (p + b) [Fix 3, Fix 4, Rest] d
         else if rd m (p + 1) = Some 2 then parsed m p (p + b) [Fix 3, Fix 16, Rest] d
         else if rd m (p + 1) = Some 3 then parsed m p (p + b) [Fix 3, Nam, Rest] d
         else False)
      else if tp = T_RRSIG then parsed m p (p + b) [Fix 18, Nam, Rest] d
      else if tp = T_NSEC then parsed m p (p + b) [Fix 0, Nam, Rest] d
      else if tp = T_NXT then parsed m p (p + b) [Nam, Rest] d \<and> length d \<le> 1040
      else parsed m p (p + b) (rdata_form tp) d)"

lemma parsed_raw: "p + k \<le> length m \<Longrightarrow> parsed m p q [Fix k] d \<longleftrightarrow> q = p + k \<and> d = take k (drop p m)"
  by (auto simp: parsed_Fix parsed_Nil)

lemma parsed_raw2: "parsed m p (p + b) [Fix k, Rest] d \<longleftrightarrow> k \<le> b \<and> p + b \<le> length m \<and> d = take b (drop p m)"
  "parsed m p (p + b) [Fix k, Fix l, Rest] d \<longleftrightarrow> k + l \<le> b \<and> p + b \<le> length m \<and> d = take b (drop p m)"
proof -
  have t: "take k (drop p m) @ take (b - k) (drop (p + k) m) = take b (drop p m)" if "k \<le> b" for k p b
    using that take_add [of k "b - k" "drop p m"] by (simp add: ac_simps)
  show "parsed m p (p + b) [Fix k, Rest] d \<longleftrightarrow> k \<le> b \<and> p + b \<le> length m \<and> d = take b (drop p m)"
    using t [of k b p] by (auto simp: parsed_Fix parsed_Rest)
  have "take k (drop p m) @ take l (drop (p + k) m) @ take (b - (k + l)) (drop (p + k + l) m) = take b (drop p m)" if "k + l \<le> b"
    using that t [of k b p] t [of l "b - k" "p + k"] by (simp add: diff_diff_left)
  then show "parsed m p (p + b) [Fix k, Fix l, Rest] d \<longleftrightarrow> k + l \<le> b \<and> p + b \<le> length m \<and> d = take b (drop p m)"
    by (auto simp: parsed_Fix parsed_Rest add.assoc)
qed

definition data_result :: "alloc \<Rightarrow> nat \<Rightarrow> byte list \<Rightarrow> nat \<Rightarrow> nat \<Rightarrow> rdata \<Rightarrow> alloc \<Rightarrow> bool" where
  "data_result a tp m p b r a' \<longleftrightarrow> (\<forall>n. \<not> a' n \<longrightarrow> (\<exists>n. \<not> a n)) \<and>
     (case r of Inr d \<Rightarrow> wire_data tp m p b d
      | Inl rc \<Rightarrow> rc = RC_FORMAT \<and> (\<forall>d. \<not> wire_data tp m p b d) \<or> rc = RC_FATALERR \<and> (\<exists>n. \<not> a n))"

lemma data_ipseckey_ok:
  assumes "p + b \<le> length m"
  shows "\<exists>r a'. data_ipseckey a m p b = Some (r, a') \<and> data_result a T_IPSECKEY m p b r a'"
proof (cases "b < 3")
  case True
  then have "\<not> wire_data T_IPSECKEY m p b d" for d
    by (auto simp: wire_data_def parsed_raw2 t_consts rr_consts parsed_Fix dest!: parsed_le)
  with True show ?thesis by (auto simp: data_ipseckey_def data_result_def)
next
  case False
  then obtain g where g: "rd m (p + 1) = Some g" using assms by (simp add: rd_def)
  have k: "rds m p b = Some (take b (drop p m))" using assms by (simp add: rds_def)
  have w: "wire_data T_IPSECKEY m p b d \<longleftrightarrow>
      (if g = 0 then parsed m p (p + b) [Fix 3, Rest] d else if g = 1 then parsed m p (p + b) [Fix 3, Fix 4, Rest] d
       else if g = 2 then parsed m p (p + b) [Fix 3, Fix 16, Rest] d else if g = 3 then parsed m p (p + b) [Fix 3, Nam, Rest] d else False)" for d
    using g by (simp add: wire_data_def t_consts rr_consts)
  show ?thesis
  proof (cases "g = 3")
    case True
    from data_uncompress_ok [OF assms, of 3 a] False obtain r a' where "data_uncompress a m p b 3 = Some (r, a')"
      "\<forall>n. \<not> a' n \<longrightarrow> (\<exists>n. \<not> a n)" "rspec m p b [Fix 3, Nam, Rest] r \<or> r = Inl RC_FATALERR \<and> (\<exists>n. \<not> a n)" by auto
    with True False g w show ?thesis by (cases r) (auto simp: data_ipseckey_def data_result_def)
  next
    case g3: False
    with False g k assms w show ?thesis by (auto simp: data_ipseckey_def data_result_def parsed_raw2)
  qed
qed

lemma rr_data_ok:
  assumes "p + b \<le> length m"
  shows "\<exists>r a'. rr_data a m tp p b = Some (r, a') \<and> data_result a tp m p b r a'"
proof -
  have keep: "rds m p b = Some (take b (drop p m))" using assms by (simp add: rds_def)
  have pure: ?thesis
    if "rr_data a m tp p b = (x \<bind> (\<lambda>x. Some (x, a)))" "rdata_form tp = F" "tp \<notin> {T_A, T_AAAA, T_IPSECKEY, T_RRSIG, T_NSEC, T_NXT}"
      "\<exists>r. x = Some r \<and> rspec m p b F r" for x F
  proof -
    from that(4) obtain r where r: "x = Some r" "rspec m p b F r" by blast
    with that(1-3) show ?thesis by (cases r) (auto simp: data_result_def wire_data_def)
  qed
  have unc: "\<exists>r a'. data_uncompress a m p b k = Some (r, a') \<and> data_result a tp m p b r a'"
    if "k \<le> b" "\<And>d. wire_data tp m p b d \<longleftrightarrow> parsed m p (p + b) [Fix k, Nam, Rest] d" for k
    using data_uncompress_ok [OF assms that(1), of a] that(2) by (fastforce simp: data_result_def rspec_def split: sum.splits)
  note c = t_consts rr_consts
  consider "tp = T_A" | "tp = T_AAAA" | "tp \<in> {T_CNAME, T_MB, T_MD, T_MF, T_MG, T_MR, T_NS, T_PTR}" | "tp \<in> {T_MINFO, T_RP}"
    | "tp \<in> {T_MX, T_AFSDB, T_RT, T_KX}" | "tp = T_SOA" | "tp = T_PX" | "tp = T_SRV" | "tp = T_NXT" | "tp = T_NAPTR"
    | "tp = T_IPSECKEY" | "tp = T_RRSIG" | "tp = T_NSEC"
    | "tp \<notin> {T_A, T_AAAA, T_CNAME, T_MB, T_MD, T_MF, T_MG, T_MR, T_NS, T_PTR, T_MINFO, T_RP, T_MX, T_AFSDB, T_RT, T_KX, T_SOA,
        T_PX, T_SRV, T_NXT, T_NAPTR, T_IPSECKEY, T_RRSIG, T_NSEC}" by blast
  then show ?thesis
  proof cases
    case 1
    with keep assms show ?thesis by (auto simp: rr_data_def data_result_def wire_data_def parsed_Fix parsed_Nil)
  next
    case 2
    with keep assms show ?thesis by (auto simp: rr_data_def data_result_def wire_data_def parsed_Fix parsed_Nil c)
  next
    case 3
    show ?thesis by (rule pure [OF _ _ _ data_name_ok [OF assms]]) (use 3 in \<open>auto simp: rr_data_def rdata_form_def c\<close>)
  next
    case 4
    show ?thesis by (rule pure [OF _ _ _ data_two_names_ok [OF assms]]) (use 4 in \<open>auto simp: rr_data_def rdata_form_def c\<close>)
  next
    case 5
    show ?thesis by (rule pure [OF _ _ _ data_fix_name_ok [OF assms]]) (use 5 in \<open>auto simp: rr_data_def rdata_form_def c\<close>)
  next
    case 6
    show ?thesis by (rule pure [OF _ _ _ data_soa_ok [OF assms]]) (use 6 in \<open>auto simp: rr_data_def rdata_form_def c\<close>)
  next
    case 7
    show ?thesis by (rule pure [OF _ _ _ data_px_ok [OF assms]]) (use 7 in \<open>auto simp: rr_data_def rdata_form_def c\<close>)
  next
    case 8
    show ?thesis by (rule pure [OF _ _ _ data_fix_name_ok [OF assms]]) (use 8 in \<open>auto simp: rr_data_def rdata_form_def c\<close>)
  next
    case 9
    then have "rr_data a m tp p b = (data_nxt m p b \<bind> (\<lambda>x. Some (x, a)))" "rdata_form tp = [Nam, Rest]"
      by (auto simp: rr_data_def rdata_form_def c)
    with data_nxt_ok [OF assms] 9 show ?thesis by (fastforce simp: data_result_def wire_data_def c split: sum.splits)
  next
    case 10
    show ?thesis by (rule pure [OF _ _ _ data_naptr_ok [OF assms]]) (use 10 in \<open>auto simp: rr_data_def rdata_form_def c\<close>)
  next
    case 11
    then have "rr_data a m tp p b = data_ipseckey a m p b" by (simp add: rr_data_def c)
    with 11 data_ipseckey_ok [OF assms] show ?thesis by simp
  next
    case 12
    then have r: "rr_data a m tp p b = (if b < 18 then Some (Inl RC_FORMAT, a) else data_uncompress a m p b 18)" by (simp add: rr_data_def c)
    have w: "wire_data tp m p b d \<longleftrightarrow> parsed m p (p + b) [Fix 18, Nam, Rest] d" for d using 12 by (simp add: wire_data_def c)
    show ?thesis unfolding r using unc [OF _ w] no_fix [of "p + b" p 18 m "[Nam, Rest]"] w
      by (cases "b < 18") (auto simp: data_result_def)
  next
    case 13
    then have "rr_data a m tp p b = data_uncompress a m p b 0" by (simp add: rr_data_def c)
    with unc [of 0] 13 show ?thesis by (simp add: wire_data_def c)
  next
    case 14
    then have "rr_data a m tp p b = Some (Inr (take b (drop p m)), a)" "rdata_form tp = [Rest]"
      using keep by (simp_all add: rr_data_def rdata_form_def)
    with 14 assms show ?thesis by (simp add: data_result_def wire_data_def parsed_Rest)
  qed
qed

subsection \<open>Collecting the records\<close>

text \<open>The sets in an array of entries, by name up to case and by type, and the effect of one more record.\<close>

definition centa_ok :: "dns_cent_t list \<Rightarrow> bool" where
  "centa_ok cs \<longleftrightarrow> list_all (\<lambda>c. cent_ok c \<and> \<not> negative c \<and> \<not> has (ce_flags c) DF_LOCAL) cs \<and> distinct (map (key_of ce_qname) cs)"

type_synonym sets = "byte list list \<Rightarrow> nat \<Rightarrow> rr_set_t option"

definition centa_map :: "dns_cent_t list \<Rightarrow> sets" where
  "centa_map cs nm = (case find (\<lambda>c. key_of ce_qname c = nm) cs of None \<Rightarrow> \<lambda>_. None | Some c \<Rightarrow> getrrset c)"

definition add_data :: "rr_set_t option \<Rightarrow> int \<Rightarrow> int \<Rightarrow> 16 word \<Rightarrow> byte list \<Rightarrow> rr_set_t" where
  "add_data x ttl ts fl d = (case x of
     None \<Rightarrow> \<lparr>rs_lent = None, rs_ttl = ttl, rs_ts = ts, rs_flags = fl, rs_rrs = [d]\<rparr>
   | Some s \<Rightarrow> s\<lparr>rs_ttl := min ttl (rs_ttl s), rs_rrs := (if d \<in> set (rs_rrs s) then rs_rrs s else rs_rrs s @ [d])\<rparr>)"

definition store :: "byte list list \<Rightarrow> nat \<Rightarrow> int \<Rightarrow> int \<Rightarrow> 16 word \<Rightarrow> byte list \<Rightarrow> sets \<Rightarrow> sets" where
  "store nm tp ttl ts fl d M = M(nm := (M nm)(tp := Some (add_data (M nm tp) ttl ts fl d)))"

definition mem_mono :: "alloc \<Rightarrow> alloc \<Rightarrow> bool" where
  "mem_mono a a' \<longleftrightarrow> ((\<forall>n. a n) \<longrightarrow> (\<forall>n. a' n))"

lemma mem_mono_refl [simp]: "mem_mono a a"
  by (simp add: mem_mono_def)

lemma mem_mono_trans: "mem_mono a b \<Longrightarrow> mem_mono b c \<Longrightarrow> mem_mono a c"
  by (simp add: mem_mono_def)

lemma mem_mono_malloc: "malloc a = (ok, a') \<Longrightarrow> mem_mono a a' \<and> (ok \<or> (\<exists>n. \<not> a n))"
  by (auto simp: malloc_def mem_mono_def)

lemma mem_mono_lack: "mem_mono a b \<Longrightarrow> \<exists>n. \<not> b n \<Longrightarrow> \<exists>n. \<not> a n"
  by (auto simp: mem_mono_def)

lemma malloc_mono [simp]: "mem_mono a (\<lambda>n. a (Suc n))"
  by (simp add: mem_mono_def)

lemma put_rrset_flags [simp]: "ce_flags (put_rrset c i v) = ce_flags c"
  by (simp add: put_rrset_def)

lemma add_rrset_mono: "add_cent_rrset_by_index a l c i ttl ts fl = Some (ok, c', l', a') \<Longrightarrow>
    mem_mono a a' \<and> (\<not> negative c \<longrightarrow> ce_flags c' = ce_flags c)"
  by (auto simp: add_cent_rrset_by_index_def unnegate_def ensure_slot_def malloc_def mem_mono_def split: if_splits)

lemma add_rr_int_mono: "add_cent_rr_int a l c i ttl ts fl d rt = Some (ok, c', rt', l', a') \<Longrightarrow>
    mem_mono a a' \<and> (\<not> negative c \<longrightarrow> ce_flags c' = ce_flags c)"
proof -
  assume add: "add_cent_rr_int a l c i ttl ts fl d rt = Some (ok, c', rt', l', a')"
  have lk: "ce_flags c2 = ce_flags c1" if "link_rr c1 i rt d = Some (c2, k)" for c1 c2 k
    using that by (auto simp: link_rr_def split: option.splits prod.splits)
  show ?thesis
  proof (cases "a 0")
    case False
    with add show ?thesis by (auto simp: add_cent_rr_int_def create_rr_def malloc_def)
  next
    case True
    let ?a = "\<lambda>n. a (Suc n)"
    from True add obtain ok1 c1 l1 a1 where r: "(if rt = None \<and> RRARR_INDEX_TESTEXT c i = None then add_cent_rrset_by_index ?a l c i ttl ts fl
        else Some (True, c, l, ?a)) = Some (ok1, c1, l1, a1)"
      by (auto simp: add_cent_rr_int_def create_rr_def malloc_def bind_eq_Some_conv)
    then have "mem_mono ?a a1 \<and> (\<not> negative c \<longrightarrow> ce_flags c1 = ce_flags c)" using add_rrset_mono by (fastforce split: if_splits)
    moreover from True add r lk have "a' = a1 \<and> ce_flags c' = ce_flags c1"
      by (auto simp: add_cent_rr_int_def create_rr_def malloc_def bind_eq_Some_conv split: if_splits)
    ultimately show ?thesis using mem_mono_trans [OF malloc_mono] by auto
  qed
qed

lemma add_cent_rr_mono: "add_cent_rr a l c tp ttl ts fl d = Some (ok, c', l', a') \<Longrightarrow>
    mem_mono a a' \<and> (\<not> negative c \<longrightarrow> ce_flags c' = ce_flags c)"
proof -
  assume "add_cent_rr a l c tp ttl ts fl d = Some (ok, c', l', a')"
  then consider "c' = c \<and> a' = a"
    | c1 i rt rt' where "add_cent_rr_int a l c1 i ttl ts fl d rt = Some (ok, c', rt', l', a')" "ce_flags c1 = ce_flags c"
    | c1 where "a' = a" "c' = c1" "ce_flags c1 = ce_flags c"
    by (auto simp: add_cent_rr_def bind_eq_Some_conv Let_def split: if_splits option.splits)
  then show ?thesis by cases (use add_rr_int_mono in \<open>fastforce simp: negative_def\<close>)+
qed

lemma init_cent_mono: "init_cent a q ttl ts fl = Some (r, a') \<Longrightarrow> mem_mono a a'"
  by (auto simp: init_cent_def malloc_def bind_eq_Some_conv split: if_splits)

lemma add_cent_rr_sets:
  assumes "cent_ok c" "\<not> negative c" "\<not> has (ce_flags c) DF_LOCAL" "\<not> PDNSD_NOT_CACHED_TYPE tp"
  shows "\<exists>ok c' l' a'. add_cent_rr a [] c tp ttl ts fl d = Some (ok, c', l', a') \<and>
    cent_ok c' \<and> \<not> negative c' \<and> \<not> has (ce_flags c') DF_LOCAL \<and> ce_qname c' = ce_qname c \<and> mem_mono a a' \<and>
    (if ok then getrrset c' = (getrrset c)(tp := Some (add_data (getrrset c tp) ttl ts fl d)) else \<exists>n. \<not> a n)"
proof -
  from add_cent_rr_ok [OF assms(1,4) refl, of a "[]" ttl ts fl d, folded idx_of_def]
  have "\<exists>ok c' l' a'. add_cent_rr a [] c tp ttl ts fl d = Some (ok, c', l', a') \<and> cent_ok c' \<and> ce_qname c' = ce_qname c \<and>
      (ok \<or> (\<exists>n. \<not> a n)) \<and>
      (\<forall>j<NRRTOT. j \<noteq> idx_of tp \<longrightarrow> RRARR_INDEX_TESTEXT c' j = RRARR_INDEX_TESTEXT c j) \<and>
      (case RRARR_INDEX_TESTEXT c (idx_of tp) of
          None \<Rightarrow> RRARR_INDEX_TESTEXT c' (idx_of tp) =
            (if ok then Some \<lparr>rs_lent = None, rs_ttl = ttl, rs_ts = ts, rs_flags = fl, rs_rrs = [d]\<rparr> else None)
        | Some s \<Rightarrow> RRARR_INDEX_TESTEXT c' (idx_of tp) = Some (s\<lparr>rs_ttl := min ttl (rs_ttl s),
            rs_rrs := (if d \<in> set (rs_rrs s) \<or> \<not> ok then rs_rrs s else rs_rrs s @ [d])\<rparr>))"
    unfolding assms(3) [THEN eq_False [THEN iffD2]] simp_thms if_False by (elim exE conjE) (intro exI conjI, assumption+)
  then obtain ok c' l' a' where
    a: "add_cent_rr a [] c tp ttl ts fl d = Some (ok, c', l', a')" "cent_ok c'" "ce_qname c' = ce_qname c" "ok \<or> (\<exists>n. \<not> a n)"
      "\<forall>j<NRRTOT. j \<noteq> idx_of tp \<longrightarrow> RRARR_INDEX_TESTEXT c' j = RRARR_INDEX_TESTEXT c j"
      "case RRARR_INDEX_TESTEXT c (idx_of tp) of
          None \<Rightarrow> RRARR_INDEX_TESTEXT c' (idx_of tp) =
            (if ok then Some \<lparr>rs_lent = None, rs_ttl = ttl, rs_ts = ts, rs_flags = fl, rs_rrs = [d]\<rparr> else None)
        | Some s \<Rightarrow> RRARR_INDEX_TESTEXT c' (idx_of tp) = Some (s\<lparr>rs_ttl := min ttl (rs_ttl s),
            rs_rrs := (if d \<in> set (rs_rrs s) \<or> \<not> ok then rs_rrs s else rs_rrs s @ [d])\<rparr>)"
    by (elim exE conjE) (rule that; assumption)
  from add_cent_rr_mono [OF a(1)] assms(2) have f: "mem_mono a a'" "ce_flags c' = ce_flags c" by auto
  have "getrrset c' t = (if t = tp then Some (add_data (getrrset c tp) ttl ts fl d) else getrrset c t)" if "ok" for t
  proof (cases "PDNSD_NOT_CACHED_TYPE t")
    case True
    with assms(4) show ?thesis by (auto simp: getrrset_uncached)
  next
    case False
    with a(5) idx_of_inj [OF False assms(4)] idx_of_less [OF False] a(6) that assms(4) show ?thesis
      by (auto simp: getrrset_idx add_data_def split: option.splits)
  qed
  then have s: "ok \<Longrightarrow> getrrset c' = (getrrset c)(tp := Some (add_data (getrrset c tp) ttl ts fl d))" by (simp add: fun_eq_iff)
  have "if ok then getrrset c' = (getrrset c)(tp := Some (add_data (getrrset c tp) ttl ts fl d)) else \<exists>n. \<not> a n"
    using s a(4) by (cases ok) simp_all
  moreover from f(2) assms(2,3) have "\<not> negative c'" "\<not> has (ce_flags c') DF_LOCAL" by (simp_all add: negative_def)
  ultimately show ?thesis using a(1-3) f(1) by (intro exI conjI)
qed

lemma find_cent_spec:
  assumes "name_at oname 0 ls" "list_all cent_ok cs"
  shows "\<exists>r. find_cent cs oname i = Some r \<and> (case r of
     None \<Rightarrow> lower_name ls \<notin> key_of ce_qname ` set cs
   | Some j \<Rightarrow> i \<le> j \<and> j - i < length cs \<and> key_of ce_qname (cs ! (j - i)) = lower_name ls)"
  using assms(2)
proof (induction cs arbitrary: i)
  case (Cons c cs)
  from Cons.prems obtain qs where qs: "wf_name qs" "ce_qname c = enc qs" by (auto simp: cent_ok_def cent_shape_def)
  then have at: "name_at (ce_qname c) 0 qs" using name_at_enc [OF wf_name_lab_ok [OF qs(1)], of "[]"] by simp
  have k: "key_of ce_qname c = lower_name qs" using key_of_name [where qn = ce_qname and d = c] at by simp
  from rhnicmp_name [OF at assms(1)] have cmp: "rhnicmp (ce_qname c) oname = Some (key_of ce_qname c = lower_name ls)" by (simp add: k)
  show ?case
  proof (cases "key_of ce_qname c = lower_name ls")
    case True
    with cmp show ?thesis by simp
  next
    case False
    from Cons.IH [of "i + 1"] Cons.prems obtain r where r: "find_cent cs oname (i + 1) = Some r" "case r of
       None \<Rightarrow> lower_name ls \<notin> key_of ce_qname ` set cs
     | Some j \<Rightarrow> i + 1 \<le> j \<and> j - (i + 1) < length cs \<and> key_of ce_qname (cs ! (j - (i + 1))) = lower_name ls" by auto
    with False cmp show ?thesis
      by (cases r) (auto simp: nth_Cons' diff_diff_left)
  qed
qed simp

lemma centa_map_Cons: "centa_map (x # xs) nm = (if key_of ce_qname x = nm then getrrset x else centa_map xs nm)"
  by (simp add: centa_map_def)

lemma centa_map_update:
  assumes "distinct (map (key_of ce_qname) cs)" "i < length cs" "key_of ce_qname c = key_of ce_qname (cs ! i)"
  shows "centa_map (cs[i := c]) nm = (if nm = key_of ce_qname c then getrrset c else centa_map cs nm)"
  using assms
proof (induction cs arbitrary: i)
  case (Cons x cs)
  then show ?case by (cases i) (auto simp: centa_map_Cons)
qed simp

lemma centa_map_append:
  "key_of ce_qname c \<notin> key_of ce_qname ` set cs \<Longrightarrow> centa_map (cs @ [c]) = (centa_map cs)(key_of ce_qname c := getrrset c)"
  by (induction cs) (auto simp: centa_map_def fun_eq_iff)

lemma centa_map_at:
  "distinct (map (key_of ce_qname) cs) \<Longrightarrow> i < length cs \<Longrightarrow> centa_map cs (key_of ce_qname (cs ! i)) = getrrset (cs ! i)"
proof (induction cs arbitrary: i)
  case (Cons x cs)
  then show ?case by (cases i) (auto simp: centa_map_def)
qed simp

lemma centa_map_absent: "k \<notin> key_of ce_qname ` set cs \<Longrightarrow> centa_map cs k = (\<lambda>_. None)"
  by (induction cs) (auto simp: centa_map_def)

lemma fresh_sets: "\<forall>j<NRRTOT. RRARR_INDEX_TESTEXT c j = None \<Longrightarrow> getrrset c = (\<lambda>_. None)"
proof
  fix t
  assume "\<forall>j<NRRTOT. RRARR_INDEX_TESTEXT c j = None"
  then show "getrrset c t = None" using idx_of_less [of t] by (cases "PDNSD_NOT_CACHED_TYPE t") (auto simp: getrrset_uncached getrrset_idx)
qed

lemma da_room_mono: "da_room a n = (ok, a') \<Longrightarrow> mem_mono a a' \<and> (ok \<or> (\<exists>n. \<not> a n))"
  by (auto simp: da_room_def mem_mono_malloc split: if_splits)

lemma da_shrink_ok: "da_shrink a cs = (cs', a') \<Longrightarrow> mem_mono a a' \<and> (cs' = cs \<or> cs' = [])"
  using mem_mono_malloc by (fastforce simp: da_shrink_def split: if_splits prod.splits)

definition cache_result :: "rc \<Rightarrow> dns_cent_t list \<Rightarrow> alloc \<Rightarrow> sets \<Rightarrow> alloc \<Rightarrow> bool" where
  "cache_result rc cs' a' M a \<longleftrightarrow> centa_ok cs' \<and> mem_mono a a' \<and>
     (rc = RC_OK \<and> centa_map cs' = M \<or> rc = RC_FATALERR \<and> (\<exists>n. \<not> a n))"

lemma rr_to_cache_ok:
  assumes "centa_ok cs" "name_at oname 0 ls" "wf_name ls" "\<not> PDNSD_NOT_CACHED_TYPE tp"
  shows "\<exists>rc cs' a'. rr_to_cache a cs oname tp ttl d fl ts = Some (rc, cs', a') \<and>
    cache_result rc cs' a' (store (lower_name ls) tp ttl ts fl d (centa_map cs)) a"
proof -
  let ?k = "key_of ce_qname"
  from assms(1) have cs: "list_all cent_ok cs" "distinct (map ?k cs)"
    "list_all (\<lambda>c. cent_ok c \<and> \<not> negative c \<and> \<not> has (ce_flags c) DF_LOCAL) cs"
    by (auto simp: centa_ok_def list_all_iff)
  from find_cent_spec [OF assms(2) cs(1), of 0] obtain r where r: "find_cent cs oname 0 = Some r"
    "case r of None \<Rightarrow> lower_name ls \<notin> ?k ` set cs | Some j \<Rightarrow> j < length cs \<and> ?k (cs ! j) = lower_name ls"
    unfolding diff_zero by (elim exE conjE) (rule that, assumption, auto split: option.splits)
  show ?thesis
  proof (cases r)
    case (Some i)
    with r(2) have i: "i < length cs" "?k (cs ! i) = lower_name ls" by auto
    with cs(3) have c: "cent_ok (cs ! i)" "\<not> negative (cs ! i)" "\<not> has (ce_flags (cs ! i)) DF_LOCAL" by (auto simp: list_all_length)
    from add_cent_rr_sets [OF c assms(4), of a ttl ts fl d] obtain ok c' l' a' where
      a: "add_cent_rr a [] (cs ! i) tp ttl ts fl d = Some (ok, c', l', a')" "cent_ok c'" "\<not> negative c'" "\<not> has (ce_flags c') DF_LOCAL"
        "ce_qname c' = ce_qname (cs ! i)" "mem_mono a a'"
        "if ok then getrrset c' = (getrrset (cs ! i))(tp := Some (add_data (getrrset (cs ! i) tp) ttl ts fl d)) else \<exists>n. \<not> a n" by blast
    from a(5) have k: "?k c' = ?k (cs ! i)" by (simp add: key_of_def)
    from k i cs(2) have "map ?k (cs[i := c']) = map ?k cs" by (metis map_update list_update_id nth_map)
    with cs a(2-4) i have ok': "centa_ok (cs[i := c'])"
      unfolding centa_ok_def by (auto simp: list_all_iff dest!: set_update_subset_insert [THEN subsetD])
    have "ok \<Longrightarrow> centa_map (cs[i := c']) = store (lower_name ls) tp ttl ts fl d (centa_map cs)"
      using a(7) i k centa_map_at [OF cs(2) i(1)] by (intro ext) (simp add: centa_map_update [OF cs(2) i(1) k] store_def)
    with r Some a(1,6,7) ok' show ?thesis by (cases ok) (simp_all add: rr_to_cache_def cache_result_def)
  next
    case None
    with r(2) have no: "lower_name ls \<notin> ?k ` set cs" by simp
    obtain ok0 a0 where da: "da_room a (length cs) = (ok0, a0)" by (cases "da_room a (length cs)") auto
    note m0 = da_room_mono [OF da]
    show ?thesis
    proof (cases ok0)
      case False
      with r None da m0 show ?thesis by (simp add: rr_to_cache_def cache_result_def centa_ok_def)
    next
      case True
      from init_cent_ok [OF assms(2,3), of a0 0 0 0] obtain c0 a1 where
        c0: "init_cent a0 oname 0 0 0 = Some (c0, a1)" "c0 = None \<longleftrightarrow> \<not> a0 0"
          "\<forall>cent. c0 = Some cent \<longrightarrow> cent_ok cent \<and> ce_qname cent = enc ls \<and> ce_flags cent = 0 \<and> (\<forall>j<NRRTOT. RRARR_INDEX_TESTEXT cent j = None)"
        by blast
      from init_cent_mono [OF c0(1)] m0 have m1: "mem_mono a a1" using mem_mono_trans by blast
      show ?thesis
      proof (cases c0)
        case c0n: None
        obtain cs' a2 where sh: "da_shrink a1 cs = (cs', a2)" by (cases "da_shrink a1 cs") auto
        have "\<exists>n. \<not> a n" using c0(2) c0n m0 mem_mono_lack by blast
        moreover have "centa_ok cs'" "mem_mono a a2" using da_shrink_ok [OF sh] assms(1) m1 mem_mono_trans by (auto simp: centa_ok_def)
        ultimately show ?thesis using r None da True c0(1) c0n sh by (simp add: rr_to_cache_def cache_result_def)
      next
        case (Some c)
        with c0(3) have c: "cent_ok c" "\<not> negative c" "\<not> has (ce_flags c) DF_LOCAL" "ce_qname c = enc ls" "getrrset c = (\<lambda>_. None)"
          by (auto simp: negative_def has_def intro!: fresh_sets)
        from add_cent_rr_sets [OF c(1-3) assms(4), of a1 ttl ts fl d] obtain ok c' l' a' where
          a: "add_cent_rr a1 [] c tp ttl ts fl d = Some (ok, c', l', a')" "cent_ok c'" "\<not> negative c'" "\<not> has (ce_flags c') DF_LOCAL"
            "ce_qname c' = ce_qname c" "mem_mono a1 a'"
            "if ok then getrrset c' = (getrrset c)(tp := Some (add_data (getrrset c tp) ttl ts fl d)) else \<exists>n. \<not> a1 n" by blast
        have k: "?k c' = lower_name ls"
          using key_of_name [where qn = ce_qname and d = c'] name_at_enc [OF wf_name_lab_ok [OF assms(3)], of "[]"] a(5) c(4) by simp
        with cs a no have ok': "centa_ok (cs @ [c'])" by (auto simp: centa_ok_def)
        have "ok \<Longrightarrow> centa_map (cs @ [c']) = store (lower_name ls) tp ttl ts fl d (centa_map cs)"
          using a(7) c(5) no k centa_map_absent [OF no] by (simp add: centa_map_append store_def)
        moreover have "\<not> ok \<Longrightarrow> \<exists>n. \<not> a n" using a(7) m1 mem_mono_lack by auto
        moreover have "mem_mono a a'" using m1 a(6) mem_mono_trans by blast
        ultimately show ?thesis using r None da True c0(1) Some a(1) ok' by (cases ok) (simp_all add: rr_to_cache_def cache_result_def)
      qed
    qed
  qed
qed

subsection \<open>A section of a message\<close>

record rrec =
  rr_name :: "byte list list"
  rr_type :: "16 word"
  rr_cls :: "16 word"
  rr_ttl :: "32 word"
  rr_rdata :: "byte list"

definition is_opt :: "rrec \<Rightarrow> bool" where
  "is_opt r \<longleftrightarrow> unat (rr_type r) = T_OPT"

definition is_kept :: "rrec \<Rightarrow> bool" where
  "is_kept r \<longleftrightarrow> \<not> is_opt r \<and> \<not> PDNSD_NOT_CACHED_TYPE (unat (rr_type r)) \<and> unat (rr_cls r) = C_IN"

text \<open>The bytes of \<open>m\<close> from \<open>p\<close> to \<open>q\<close> are the record \<open>r\<close>, in which the data of a kept type is uncompressed.\<close>

definition rr_at :: "byte list \<Rightarrow> nat \<Rightarrow> rrec \<Rightarrow> nat \<Rightarrow> bool" where
  "rr_at m p r q \<longleftrightarrow> (\<exists>n len. nm_at m p n (rr_name r) \<and>
     take 10 (drop (p + n) m) = be16 (rr_type r) @ be16 (rr_cls r) @ be32 (rr_ttl r) @ be16 len \<and>
     q = p + n + 10 + unat len \<and> q \<le> length m \<and>
     (if is_kept r then wire_data (unat (rr_type r)) m (p + n + 10) (unat len) (rr_rdata r)
      else rr_rdata r = take (unat len) (drop (p + n + 10) m)))"

primrec section_at :: "byte list \<Rightarrow> nat \<Rightarrow> rrec list \<Rightarrow> nat \<Rightarrow> bool" where
  "section_at m p [] q \<longleftrightarrow> p = q"
| "section_at m p (r # rs) q \<longleftrightarrow> (\<exists>p'. rr_at m p r p' \<and> section_at m p' rs q)"

definition keep_rec :: "16 word \<Rightarrow> int \<Rightarrow> rrec \<Rightarrow> sets \<Rightarrow> sets" where
  "keep_rec fl ts r M = (if is_kept r then store (lower_name (rr_name r)) (unat (rr_type r)) (uint (rr_ttl r)) ts fl (rr_rdata r) M else M)"

definition edns_of :: "dns_hdr_t \<Rightarrow> rrec \<Rightarrow> edns_info_t" where
  "edns_of h r = \<lparr>ed_udpsize = rr_cls r, ed_rcode = push_bit 4 (ucast (ucast (drop_bit 24 (rr_ttl r)) :: byte)) OR ucast (h_rcode h),
     ed_version = ucast (ucast (drop_bit 16 (rr_ttl r)) :: byte), ed_do_flg = bit (rr_ttl r) 15\<rparr>"

lemma be16_inj: "be16 s = be16 t \<Longrightarrow> s = t"
  using GETINT16_be16 [of "[]" 0 s "[]"] GETINT16_be16 [of "[]" 0 t "[]"] by simp

lemma be32_inj: "be32 s = be32 t \<Longrightarrow> s = t"
  using GETINT32_be32 [of "[]" 0 s "[]"] GETINT32_be32 [of "[]" 0 t "[]"] by simp

lemma be_eq [simp]: "be16 s = be16 t \<longleftrightarrow> s = t" "be32 a = be32 b \<longleftrightarrow> a = b"
  using be16_inj be32_inj by blast+

lemma rr_fields_inj: "be16 a @ be16 b @ be32 c @ be16 d = be16 a' @ be16 b' @ be32 c' @ be16 d' \<Longrightarrow> a = a' \<and> b = b' \<and> c = c' \<and> d = d'"
  by (auto dest: be16_inj be32_inj)

lemma rr_fields: "p + 10 \<le> length m \<Longrightarrow> \<exists>t c l n. GETINT16 m p = Some (t, p + 2) \<and> GETINT16 m (p + 2) = Some (c, p + 4) \<and>
    GETINT32 m (p + 4) = Some (l, p + 8) \<and> GETINT16 m (p + 8) = Some (n, p + 10) \<and>
    take 10 (drop p m) = be16 t @ be16 c @ be32 l @ be16 n"
proof -
  assume p: "p + 10 \<le> length m"
  from p GETINT16_some [of p m] obtain t where t: "GETINT16 m p = Some (t, p + 2)" "take 2 (drop p m) = be16 t" by auto
  from p GETINT16_some [of "p + 2" m] obtain c where c: "GETINT16 m (p + 2) = Some (c, p + 4)" "take 2 (drop (p + 2) m) = be16 c" by auto
  from p GETINT32_some [of "p + 4" m] obtain l where l: "GETINT32 m (p + 4) = Some (l, p + 8)" "take 4 (drop (p + 4) m) = be32 l" by auto
  from p GETINT16_some [of "p + 8" m] obtain n where n: "GETINT16 m (p + 8) = Some (n, p + 10)" "take 2 (drop (p + 8) m) = be16 n" by auto
  have "take 10 (drop p m) = take 2 (drop p m) @ take 2 (drop (p + 2) m) @ take 4 (drop (p + 4) m) @ take 2 (drop (p + 8) m)"
    using take_add [of 2 8 "drop p m"] take_add [of 2 6 "drop (p + 2) m"] take_add [of 4 2 "drop (p + 4) m"]
    by (simp add: ac_simps numeral_eq_Suc)
  with t c l n show ?thesis by auto
qed

lemma edns_info_ok:
  assumes "take 4 (drop p m) = be32 l" "get_hdr m = Some h"
  shows "edns_info m p c = Some (edns_of h \<lparr>rr_name = nm, rr_type = t, rr_cls = c, rr_ttl = l, rr_rdata = d\<rparr>)"
proof -
  from arg_cong [OF assms(1), of length] have len: "p + 4 \<le> length m" by simp
  have b: "m ! (p + i) = be32 l ! i" if "i < 4" for i using that assms(1) [symmetric] len by simp
  from b [of 0] b [of 1] b [of 2] have "m ! p = ucast (drop_bit 24 l)" "m ! (p + 1) = ucast (drop_bit 16 l)" "m ! (p + 2) = ucast (drop_bit 8 l)"
    by (simp_all add: be32_def)
  with len assms(2) show ?thesis by (simp add: edns_info_def edns_of_def rd_def bit_simps)
qed

lemma rr_at_end: "rr_at m p r q \<Longrightarrow> rr_at m p r' q' \<Longrightarrow> q = q' \<and> rr_name r = rr_name r' \<and> rr_type r = rr_type r' \<and> rr_cls r = rr_cls r'"
  unfolding rr_at_def by (elim exE conjE) (metis nm_at_det rr_fields_inj)

text \<open>What reading \<open>n\<close> records from \<open>s\<close> on has done when the code is \<open>rc\<close> and the state \<open>s'\<close>.\<close>

definition section_result :: "byte list \<Rightarrow> dns_hdr_t \<Rightarrow> nat \<Rightarrow> 16 word \<Rightarrow> int \<Rightarrow> sect \<Rightarrow> rc \<Rightarrow> sect \<Rightarrow> bool" where
  "section_result m h n fl ts s rc s' \<longleftrightarrow> centa_ok (s_centa s') \<and> mem_mono (s_mem s) (s_mem s') \<and>
     (case rc of
        RC_OK \<Rightarrow> (\<exists>rs. length rs = n \<and> section_at m (s_ptr s) rs (s_ptr s') \<and> s_ptr s' + s_lcnt s' = length m \<and>
          centa_map (s_centa s') = fold (keep_rec fl ts) rs (centa_map (s_centa s)) \<and>
          s_numopt s' = s_numopt s + length (filter is_opt rs) \<and>
          s_ep s' = (if s_numopt s = 0 \<and> filter is_opt rs \<noteq> [] then edns_of h (hd (filter is_opt rs)) else s_ep s))
      | RC_FATALERR \<Rightarrow> \<exists>n. \<not> s_mem s n
      | _ \<Rightarrow> rc \<in> {RC_FORMAT, RC_TRUNC} \<and> (\<nexists>rs q. length rs = n \<and> section_at m (s_ptr s) rs q))"

lemma section_step:
  assumes at: "rr_at m (s_ptr s) r (s_ptr t)" and rest: "section_result m h n fl ts t rc s'"
    and t: "mem_mono (s_mem s) (s_mem t)" "centa_map (s_centa t) = keep_rec fl ts r (centa_map (s_centa s))"
      "s_numopt t = s_numopt s + (if is_opt r then 1 else 0)" "s_ep t = (if is_opt r \<and> s_numopt s = 0 then edns_of h r else s_ep s)"
  shows "section_result m h (Suc n) fl ts s rc s'"
proof -
  have no: "\<nexists>rs q. length rs = Suc n \<and> section_at m (s_ptr s) rs q" if "\<nexists>rs q. length rs = n \<and> section_at m (s_ptr t) rs q"
  proof (intro notI, elim exE conjE)
    fix rs q assume "length rs = Suc n" "section_at m (s_ptr s) rs q"
    then show False using that rr_at_end [OF at] by (cases rs) auto
  qed
  have yes: "\<exists>rs'. length rs' = Suc n \<and> section_at m (s_ptr s) rs' (s_ptr s') \<and>
      centa_map (s_centa s') = fold (keep_rec fl ts) rs' (centa_map (s_centa s)) \<and>
      s_numopt s' = s_numopt s + length (filter is_opt rs') \<and>
      s_ep s' = (if s_numopt s = 0 \<and> filter is_opt rs' \<noteq> [] then edns_of h (hd (filter is_opt rs')) else s_ep s)"
    if "length rs = n" "section_at m (s_ptr t) rs (s_ptr s')" "centa_map (s_centa s') = fold (keep_rec fl ts) rs (centa_map (s_centa t))"
      "s_numopt s' = s_numopt t + length (filter is_opt rs)"
      "s_ep s' = (if s_numopt t = 0 \<and> filter is_opt rs \<noteq> [] then edns_of h (hd (filter is_opt rs)) else s_ep t)" for rs
    using that t(2-4) at by (intro exI [of _ "r # rs"]) auto
  from rest t(1) have "centa_ok (s_centa s')" "mem_mono (s_mem s) (s_mem s')" using mem_mono_trans by (auto simp: section_result_def)
  moreover have "case rc of RC_OK \<Rightarrow> (\<exists>rs. length rs = Suc n \<and> section_at m (s_ptr s) rs (s_ptr s') \<and> s_ptr s' + s_lcnt s' = length m \<and>
          centa_map (s_centa s') = fold (keep_rec fl ts) rs (centa_map (s_centa s)) \<and>
          s_numopt s' = s_numopt s + length (filter is_opt rs) \<and>
          s_ep s' = (if s_numopt s = 0 \<and> filter is_opt rs \<noteq> [] then edns_of h (hd (filter is_opt rs)) else s_ep s))
      | RC_FATALERR \<Rightarrow> \<exists>n. \<not> s_mem s n
      | _ \<Rightarrow> rc \<in> {RC_FORMAT, RC_TRUNC} \<and> (\<nexists>rs q. length rs = Suc n \<and> section_at m (s_ptr s) rs q)"
  proof (cases "rc = RC_OK")
    case True
    with rest obtain rs where "length rs = n" "section_at m (s_ptr t) rs (s_ptr s')" "s_ptr s' + s_lcnt s' = length m"
      "centa_map (s_centa s') = fold (keep_rec fl ts) rs (centa_map (s_centa t))"
      "s_numopt s' = s_numopt t + length (filter is_opt rs)"
      "s_ep s' = (if s_numopt t = 0 \<and> filter is_opt rs \<noteq> [] then edns_of h (hd (filter is_opt rs)) else s_ep t)"
      by (auto simp: section_result_def simp del: split_paired_Ex)
    with yes [OF this(1,2,4-6)] True show ?thesis by (simp only: rc.case) blast
  next
    case False
    with rest no mem_mono_lack [OF t(1)] show ?thesis by (cases rc) (auto simp: section_result_def)
  qed
  ultimately show ?thesis unfolding section_result_def by (intro conjI)
qed

lemma section_fail:
  assumes "centa_ok (s_centa s')" "mem_mono (s_mem s) (s_mem s')"
    "rc = RC_FATALERR \<and> (\<exists>n. \<not> s_mem s n) \<or> (rc = RC_FORMAT \<or> rc = RC_TRUNC) \<and> (\<forall>r q. \<not> rr_at m (s_ptr s) r q)"
  shows "section_result m h (Suc n) fl ts s rc s'"
  using assms by (auto simp: section_result_def length_Suc_conv)

lemma rrs2cent_loop_ok:
  assumes "s_ptr s + s_lcnt s = length m" "get_hdr m = Some h" "centa_ok (s_centa s)"
  shows "\<exists>rc s'. rrs2cent_loop n m fl ts s RC_OK = Some (rc, s') \<and> section_result m h n fl ts s rc s'"
  using assms(1,3)
proof (induction n arbitrary: s)
  case 0
  then show ?case by (auto simp: section_result_def)
next
  case (Suc n)
  let ?p = "s_ptr s"
  have b: "length (replicate DNSNAMEBUFSIZE (0 :: byte)) = DNSNAMEBUFSIZE" by simp
  from b show ?case
  proof (cases rule: name_cases [where m = m and p = ?p and b = "s_lcnt s"])
    case (error rc tgt')
    have "\<not> rr_at m ?p r q" for r q
    proof
      assume "rr_at m ?p r q"
      then obtain k where "nm_at m ?p k (rr_name r)" "?p + k \<le> length m" by (auto simp: rr_at_def)
      with error(1) Suc.prems(1) show False by fastforce
    qed
    with error(2,3) Suc.prems(2) show ?thesis by (auto intro!: section_fail)
  next
    case (name k ls oname)
    let ?p1 = "?p + k" let ?l1 = "s_lcnt s - k"
    note dec = name(3)
    have nmd: "n' = k \<and> ls' = ls" if "nm_at m ?p n' ls'" for n' ls' using nm_at_det [OF name(1) that] by simp
    have l1: "?p1 + ?l1 = length m" using Suc.prems(1) name(2) by simp
    show ?thesis
    proof (cases "?l1 < 10")
      case True
      then have "\<not> rr_at m ?p r q" for r q using l1 by (auto simp: rr_at_def dest!: nmd)
      with True dec Suc.prems(2) show ?thesis by (auto simp: msg_sizes intro!: section_fail)
    next
      case False
      with l1 have p10: "?p1 + 10 \<le> length m" by simp
      from rr_fields [OF this] obtain t c l len where g: "GETINT16 m ?p1 = Some (t, ?p1 + 2)" "GETINT16 m (?p1 + 2) = Some (c, ?p1 + 4)"
        "GETINT32 m (?p1 + 4) = Some (l, ?p1 + 8)" "GETINT16 m (?p1 + 8) = Some (len, ?p1 + 10)"
        "take 10 (drop ?p1 m) = be16 t @ be16 c @ be32 l @ be16 len" by auto
      let ?d = "?p1 + 10" let ?n = "unat len" let ?tp = "unat t"
      let ?s1 = "s\<lparr>s_ptr := ?d, s_lcnt := ?l1 - 10\<rparr>"
      let ?s2 = "s\<lparr>s_ptr := ?d + ?n, s_lcnt := ?l1 - 10 - ?n\<rparr>"
      define r where "r = (\<lambda>d. \<lparr>rr_name = ls, rr_type = t, rr_cls = c, rr_ttl = l, rr_rdata = d\<rparr>)"
      have only: "rr_type r' = t \<and> rr_cls r' = c \<and> ?d + ?n \<le> length m \<and>
          (is_kept r' \<longrightarrow> wire_data ?tp m ?d ?n (rr_rdata r'))" if "rr_at m ?p r' q" for r' q
        using that g(5) unfolding rr_at_def by (elim exE conjE) (drule nmd, auto split: if_splits)
      have short: "?l1 - 10 < ?n \<longleftrightarrow> \<not> ?d + ?n \<le> length m" using l1 p10 by auto
      have at: "rr_at m ?p (r d) (?d + ?n)"
        if "?d + ?n \<le> length m" "if is_kept (r d) then wire_data ?tp m ?d ?n d else d = take ?n (drop ?d m)" for d
        unfolding rr_at_def using that name(1) g(5) by (intro exI [of _ k] exI [of _ len]) (simp add: r_def)
      show ?thesis
      proof (cases "?l1 - 10 < ?n")
        case True
        then have "\<not> rr_at m ?p r' q" for r' q using short only by blast
        with True False g dec Suc.prems(2) show ?thesis by (auto simp: msg_sizes intro!: section_fail)
      next
        case fits: False
        then have s2: "?d + ?n \<le> length m" "s_ptr ?s2 + s_lcnt ?s2 = length m" using short l1 p10 by auto
        have ndr [simp]: "is_opt (r d) \<longleftrightarrow> ?tp = T_OPT" "is_kept (r d) \<longleftrightarrow> ?tp \<noteq> T_OPT \<and> \<not> PDNSD_NOT_CACHED_TYPE ?tp \<and> unat c = C_IN" for d
          by (simp_all add: is_opt_def is_kept_def r_def)
        have sel [simp]: "rr_name (r d) = ls" "rr_type (r d) = t" "rr_ttl (r d) = l" "rr_rdata (r d) = d" for d by (simp_all add: r_def)
        consider (opt) "?tp = T_OPT" | (kept) "?tp \<noteq> T_OPT" "\<not> (PDNSD_NOT_CACHED_TYPE ?tp \<or> unat c \<noteq> C_IN)"
          | (other) "?tp \<noteq> T_OPT" "PDNSD_NOT_CACHED_TYPE ?tp \<or> unat c \<noteq> C_IN" by blast
        then show ?thesis
        proof cases
          case opt
          let ?r = "r (take ?n (drop ?d m))"
          have "take 4 (drop (?p1 + 4) m) = be32 l"
            using GETINT32_SomeD [OF g(3)] by simp
          from edns_info_ok [OF this assms(2), where c = c and t = t] have e: "edns_info m (?p1 + 4) c = Some (edns_of h ?r)" unfolding r_def by blast
          let ?ep = "if s_numopt s = 0 then edns_of h ?r else s_ep s"
          let ?t = "?s2\<lparr>s_numopt := s_numopt s + 1, s_ep := ?ep\<rparr>"
          from Suc.IH [of ?t] s2 Suc.prems(2) obtain rc s' where t: "rrs2cent_loop n m fl ts ?t RC_OK = Some (rc, s')" "section_result m h n fl ts ?t rc s'"
            by auto
          have "section_result m h (Suc n) fl ts s rc s'"
            by (rule section_step [OF _ t(2), where r = ?r]) (use at s2 opt in \<open>auto simp: keep_rec_def\<close>)
          moreover have "rrs2cent_loop (Suc n) m fl ts s RC_OK = Some (rc, s')"
            using t(1) dec g False fits e opt by (cases "s_numopt s = 0") (simp_all add: msg_sizes)
          ultimately show ?thesis by blast
        next
          case other
          let ?r = "r (take ?n (drop ?d m))"
          from Suc.IH [of ?s2] s2 Suc.prems(2) obtain rc s' where t: "rrs2cent_loop n m fl ts ?s2 RC_OK = Some (rc, s')" "section_result m h n fl ts ?s2 rc s'"
            by auto
          have "section_result m h (Suc n) fl ts s rc s'"
            by (rule section_step [OF _ t(2), where r = ?r]) (use at s2 other in \<open>auto simp: keep_rec_def\<close>)
          moreover have "rrs2cent_loop (Suc n) m fl ts s RC_OK = Some (rc, s')"
            using t(1) dec g False fits other by (simp add: msg_sizes)
          ultimately show ?thesis by blast
        next
          case kept
          from rr_data_ok [OF s2(1), of "s_mem s" ?tp] obtain x a' where x: "rr_data (s_mem s) m ?tp ?d ?n = Some (x, a')"
            "data_result (s_mem s) ?tp m ?d ?n x a'" by blast
          then have mono: "mem_mono (s_mem s) a'" by (auto simp: data_result_def mem_mono_def)
          show ?thesis
          proof (cases x)
            case (Inl rc)
            have "is_kept r'" if "rr_type r' = t" "rr_cls r' = c" for r' using that kept by (simp add: is_kept_def is_opt_def)
            then have "\<And>r' q. \<forall>d. \<not> wire_data ?tp m ?d ?n d \<Longrightarrow> \<not> rr_at m ?p r' q" using only by blast
            moreover have "rc = RC_FORMAT \<and> (\<forall>d. \<not> wire_data ?tp m ?d ?n d) \<or> rc = RC_FATALERR \<and> (\<exists>n. \<not> s_mem s n)"
              using x(2) Inl by (simp add: data_result_def)
            ultimately have "section_result m h (Suc n) fl ts s rc (?s1\<lparr>s_mem := a'\<rparr>)"
              using mono Suc.prems(2) by (intro section_fail) auto
            moreover have "rrs2cent_loop (Suc n) m fl ts s RC_OK = Some (rc, ?s1\<lparr>s_mem := a'\<rparr>)"
              using x(1) Inl dec g False fits kept by (simp add: msg_sizes)
            ultimately show ?thesis by blast
          next
            case (Inr d)
            have wf: "wf_name ls" using name(1) by (auto simp: nm_at_def)
            have on: "name_at oname 0 ls"
              using name_at_enc [OF wf_name_lab_ok [OF wf], of "drop (length (enc ls)) oname"] name(5)
              by (metis append_take_drop_id)
            from rr_to_cache_ok [OF Suc.prems(2) on wf, of ?tp a' "uint l" d fl ts] kept obtain rc1 cs' a2 where
              y: "rr_to_cache a' (s_centa s) oname ?tp (uint l) d fl ts = Some (rc1, cs', a2)"
                "cache_result rc1 cs' a2 (store (lower_name ls) ?tp (uint l) ts fl d (centa_map (s_centa s))) a'" by blast
            then have cs': "centa_ok cs'" "mem_mono (s_mem s) a2" using mono mem_mono_trans by (auto simp: cache_result_def)
            show ?thesis
            proof (cases "rc1 = RC_FATALERR")
              case True
              with y(2) mono mem_mono_lack have "\<exists>n. \<not> s_mem s n" by (auto simp: cache_result_def)
              with True cs' have "section_result m h (Suc n) fl ts s rc1 (?s1\<lparr>s_centa := cs', s_mem := a2\<rparr>)"
                by (intro section_fail) auto
              moreover have "rrs2cent_loop (Suc n) m fl ts s RC_OK = Some (rc1, ?s1\<lparr>s_centa := cs', s_mem := a2\<rparr>)"
                using x(1) Inr y(1) True dec g False fits kept by (simp add: msg_sizes)
              ultimately show ?thesis by blast
            next
              case okay: False
              with y(2) have rc1: "rc1 = RC_OK" "centa_map cs' = store (lower_name ls) ?tp (uint l) ts fl d (centa_map (s_centa s))"
                by (auto simp: cache_result_def)
              let ?t = "?s2\<lparr>s_centa := cs', s_mem := a2\<rparr>"
              from Suc.IH [of ?t] s2 cs' obtain rc s' where t: "rrs2cent_loop n m fl ts ?t RC_OK = Some (rc, s')" "section_result m h n fl ts ?t rc s'"
                by auto
              have wd: "wire_data ?tp m ?d ?n d" using x(2) Inr by (simp add: data_result_def)
              have "section_result m h (Suc n) fl ts s rc s'"
                by (rule section_step [OF _ t(2), where r = "r d"]) (use at s2 kept cs' wd rc1 in \<open>auto simp: keep_rec_def\<close>)
              moreover have "rrs2cent_loop (Suc n) m fl ts s RC_OK = Some (rc, s')"
                using t(1) x(1) Inr y(1) rc1(1) dec g False fits kept by (simp add: msg_sizes)
              ultimately show ?thesis by blast
            qed
          qed
        qed
      qed
    qed
  qed
qed

text \<open>
  C39. Reading a section of a reply (\<^verbatim>\<open>rrs2cent\<close>), for any bytes: it returns, keeps the array of entries
  well formed, and yields \<^verbatim>\<open>RC_OK\<close> exactly when the bytes at the position are the asked number of records
  (names compressed in any allowed way, the data of every type in its format) and the memory suffices.  Then the
  position is behind them, the entries hold what was there before and each kept record, grouped by name up to
  case and by type with the smallest TTL and without duplicates, and the first OPT record determines the EDNS
  information.  Other codes are for sections that do not parse, except for \<^verbatim>\<open>RC_FATALERR\<close>, which needs a failed
  allocation.
\<close>

theorem rrs2cent_correct:
  assumes "s_ptr s + s_lcnt s = length m" "get_hdr m = Some h" "centa_ok (s_centa s)"
  shows "\<exists>rc s'. rrs2cent m n fl ts s = Some (rc, s') \<and> centa_ok (s_centa s') \<and>
    (case rc of
        RC_OK \<Rightarrow> (\<exists>rs. length rs = n \<and> section_at m (s_ptr s) rs (s_ptr s') \<and> s_ptr s' + s_lcnt s' = length m \<and>
          centa_map (s_centa s') = fold (keep_rec fl ts) rs (centa_map (s_centa s)) \<and>
          s_numopt s' = s_numopt s + length (filter is_opt rs) \<and>
          s_ep s' = (if s_numopt s = 0 \<and> filter is_opt rs \<noteq> [] then edns_of h (hd (filter is_opt rs)) else s_ep s))
      | RC_FATALERR \<Rightarrow> \<exists>n. \<not> s_mem s n
      | _ \<Rightarrow> rc \<in> {RC_FORMAT, RC_TRUNC} \<and> (\<nexists>rs q. length rs = n \<and> section_at m (s_ptr s) rs q))"
  using rrs2cent_loop_ok [OF assms, of n fl ts] unfolding rrs2cent_def section_result_def by blast

text \<open>One address record for the name \<open>a\<close> behind an empty header.\<close>

definition sample_reply :: "byte list" where
  "sample_reply = replicate 12 0 @ [1, 97, 0, 0, 1, 0, 1, 0, 0, 0, 5, 0, 4, 10, 0, 0, 1]"

definition sample_sect :: sect where
  "sample_sect = \<lparr>s_ptr = 12, s_lcnt = 17, s_centa = [], s_numopt = 0,
     s_ep = \<lparr>ed_udpsize = 0, ed_rcode = 0, ed_version = 0, ed_do_flg = False\<rparr>, s_mem = \<lambda>_. True\<rparr>"

lemma sample_section: "\<exists>r. section_at sample_reply 12 [r] 29 \<and> is_kept r"
proof -
  let ?r = "\<lparr>rr_name = [[97]], rr_type = 1, rr_cls = 1, rr_ttl = 5, rr_rdata = [10, 0, 0, 1]\<rparr>"
  have c: "cname sample_reply 12 (1 + length [97 :: byte] + 1) 0 [[97]]"
    by (rule cname_lab) (simp_all add: sample_reply_def rd_def lab63_def nth_append cname_0)
  have k: "is_kept ?r" by (simp add: is_kept_def is_opt_def t_consts C_IN_def PDNSD_NOT_CACHED_TYPE_def rr_consts rrlkuptab_def)
  have w: "wire_data T_A sample_reply 25 4 [10, 0, 0, 1]"
    by (simp add: wire_data_def parsed_Fix parsed_Nil sample_reply_def)
  have "take 10 (drop 15 sample_reply) = be16 1 @ be16 1 @ be32 5 @ be16 4" "length sample_reply = 29"
    by (simp_all add: sample_reply_def be16_def be32_def)
  moreover have "nm_at sample_reply 12 3 [[97]]"
    unfolding nm_at_def using c by (intro exI [of _ 0]) (simp add: wf_name_def lab63_def numeral_3_eq_3 DNSNAMEBUFSIZE_def)
  ultimately have "rr_at sample_reply 12 ?r 29"
    unfolding rr_at_def using k w by (intro exI [of _ 3] exI [of _ 4] conjI) (simp_all add: T_A_def)
  with k show ?thesis by auto
qed

theorem rrs2cent_correct_witness:
  "\<exists>s'. rrs2cent sample_reply 1 0 7 sample_sect = Some (RC_OK, s') \<and> centa_ok (s_centa s') \<and> s_ptr s' + s_lcnt s' = 29"
proof -
  have "\<exists>h. get_hdr sample_reply = Some h" by (simp add: sample_reply_def get_hdr_def GETINT16_def rd_def)
  then obtain h where h: "get_hdr sample_reply = Some h" by blast
  have l: "s_ptr sample_sect + s_lcnt sample_sect = length sample_reply" "s_ptr sample_sect = 12" "s_mem sample_sect = (\<lambda>_. True)"
    "length sample_reply = 29" "centa_ok (s_centa sample_sect)"
    by (simp_all add: sample_sect_def sample_reply_def centa_ok_def)
  have "\<exists>rs q. length rs = 1 \<and> section_at sample_reply 12 rs q"
    using sample_section by (auto simp del: section_at.simps) (metis One_nat_def length_Cons list.size(3))
  with rrs2cent_correct [OF l(1) h l(5), of 1 0 7] l show ?thesis
    by (elim exE conjE) (rename_tac rc s' rs q, case_tac rc; auto)
qed

end
