(* ===== verification/Reply.thy ===== *)
theory Reply
  imports Parse_Records
begin

text \<open>
  The message under construction (\<^verbatim>\<open>dns_answer.c\<close>): growing it, writing names, records and OPT
  pseudo records.  The state is the header, the bytes from the end of the header up to \<^verbatim>\<open>*sz\<close>, the
  size of the allocated memory and the compression buffer.  Every write is checked against the
  allocated size.  Memory beyond \<^verbatim>\<open>*sz\<close> is never read.
\<close>

subsection \<open>The message\<close>

record reply =
  r_hdr :: dns_hdr_t
  r_body :: "byte list"
  r_alloc :: nat
  r_cb :: "compel_t list"
  r_mem :: alloc

definition r_sz :: "reply \<Rightarrow> nat" where
  "r_sz r = sizeof_dns_hdr_t + length (r_body r)"

text \<open>Making room: the new size is rounded up to a multiple of the chunk size of 128 bytes.\<close>

definition chunks :: "nat \<Rightarrow> nat" where
  "chunks newsz = (newsz + 0x7f) div 0x80 * 0x80"

definition ensure_size :: "nat \<Rightarrow> reply \<Rightarrow> bool \<times> reply" where
  "ensure_size newsz r =
     (if newsz > r_alloc r then
        let (ok, m) = malloc (r_mem r) in
        (ok, if ok then r\<lparr>r_alloc := chunks newsz, r_mem := m\<rparr> else r\<lparr>r_mem := m\<rparr>)
      else (True, r))"

definition put :: "byte list \<Rightarrow> reply \<Rightarrow> reply option" where
  "put bs r = (if dnsmsghdroffset + r_sz r + length bs \<le> r_alloc r then Some (r\<lparr>r_body := r_body r @ bs\<rparr>) else None)"

text \<open>
  A call of \<^verbatim>\<open>compress_name\<close> for the place \<^verbatim>\<open>*sz\<close>.  The source of memory is asked once
  a call, whether the list has to be enlarged or not.
\<close>

definition call_compress :: "byte list \<Rightarrow> byte list \<Rightarrow> reply \<Rightarrow> (nat \<times> byte list \<times> reply) option" where
  "call_compress nm out r = do {
     let (ok, m) = malloc (r_mem r);
     (rl, out, cb) \<leftarrow> compress_name ok nm out (r_sz r) (r_cb r);
     Some (rl, out, r\<lparr>r_cb := cb, r_mem := m\<rparr>) }"

text \<open>A name written at the end of the message; \<open>None\<close> inside is the result 0.\<close>

definition put_name :: "byte list \<Rightarrow> reply \<Rightarrow> (nat option \<times> reply) option" where
  "put_name nm r = do {
     (rl, out, r) \<leftarrow> call_compress nm (replicate (r_alloc r - (dnsmsghdroffset + r_sz r)) 0) r;
     if rl = 0 then Some (None, r)
     else do { s \<leftarrow> rds out 0 rl; r \<leftarrow> put s r; Some (Some rl, r) } }"

subsection \<open>The data of a record\<close>

text \<open>Each branch yields the length of the data in the message, or \<open>None\<close> for the return with 0.\<close>

definition put_data_name :: "byte list \<Rightarrow> reply \<Rightarrow> (nat option \<times> reply) option" where
  "put_data_name dat r = do {
     (rdlen, r) \<leftarrow> put_name dat r;
     case rdlen of None \<Rightarrow> Some (None, r)
     | Some rdlen \<Rightarrow> if \<not> rdlen \<le> length dat then None else Some (Some rdlen, r) }"

definition put_data_two_names :: "byte list \<Rightarrow> reply \<Rightarrow> (nat option \<times> reply) option" where
  "put_data_two_names dat r = do {
     (rdlen, r) \<leftarrow> put_name dat r;
     case rdlen of None \<Rightarrow> Some (None, r)
     | Some rdlen \<Rightarrow> do {
         ilen \<leftarrow> rhnlen dat;
         if \<not> rdlen \<le> ilen then None
         else do {
           (blen, r) \<leftarrow> put_name (drop ilen dat) r;
           case blen of None \<Rightarrow> Some (None, r)
           | Some blen \<Rightarrow>
               let rdlen = rdlen + blen in
               if \<not> rdlen \<le> length dat then None else Some (Some rdlen, r) } } }"

definition put_data_fix_name :: "nat \<Rightarrow> byte list \<Rightarrow> reply \<Rightarrow> (nat option \<times> reply) option" where
  "put_data_fix_name k dat r =
     (if \<not> length dat > k then None
      else do {
        s \<leftarrow> rds dat 0 k;
        r \<leftarrow> put s r;
        (blen, r) \<leftarrow> put_name (drop k dat) r;
        case blen of None \<Rightarrow> Some (None, r)
        | Some blen \<Rightarrow>
            let rdlen = k + blen in
            if \<not> rdlen \<le> length dat then None else Some (Some rdlen, r) })"

definition put_data_soa :: "byte list \<Rightarrow> reply \<Rightarrow> (nat option \<times> reply) option" where
  "put_data_soa dat r = do {
     (rdlen, r) \<leftarrow> put_name dat r;
     case rdlen of None \<Rightarrow> Some (None, r)
     | Some rdlen \<Rightarrow> do {
         ilen \<leftarrow> rhnlen dat;
         if \<not> rdlen \<le> ilen then None
         else do {
           (blen, r) \<leftarrow> put_name (drop ilen dat) r;
           case blen of None \<Rightarrow> Some (None, r)
           | Some blen \<Rightarrow> do {
               let rdlen = rdlen + blen;
               n \<leftarrow> rhnlen (drop ilen dat);
               let ilen = ilen + n;
               if \<not> rdlen \<le> ilen then None
               else do {
                 s \<leftarrow> rds dat ilen 20;
                 r \<leftarrow> put s r;
                 let rdlen = rdlen + 20;
                 if \<not> rdlen \<le> length dat then None else Some (Some rdlen, r) } } } } }"

definition put_data_px :: "byte list \<Rightarrow> reply \<Rightarrow> (nat option \<times> reply) option" where
  "put_data_px dat r =
     (if \<not> length dat > 2 then None
      else do {
        s \<leftarrow> rds dat 0 2;
        r \<leftarrow> put s r;
        let ilen = 2;
        (blen, r) \<leftarrow> put_name (drop ilen dat) r;
        case blen of None \<Rightarrow> Some (None, r)
        | Some blen \<Rightarrow> do {
            let rdlen = 2 + blen;
            n \<leftarrow> rhnlen (drop ilen dat);
            let ilen = ilen + n;
            if \<not> rdlen \<le> ilen then None
            else do {
              (blen, r) \<leftarrow> put_name (drop ilen dat) r;
              case blen of None \<Rightarrow> Some (None, r)
              | Some blen \<Rightarrow>
                  let rdlen = rdlen + blen in
                  if \<not> rdlen \<le> length dat then None else Some (Some rdlen, r) } } })"

definition put_data_nxt :: "byte list \<Rightarrow> reply \<Rightarrow> (nat option \<times> reply) option" where
  "put_data_nxt dat r = do {
     (blen, r) \<leftarrow> put_name dat r;
     case blen of None \<Rightarrow> Some (None, r)
     | Some blen \<Rightarrow> do {
         let rdlen = blen;
         ilen \<leftarrow> rhnlen dat;
         if \<not> rdlen \<le> ilen \<or> \<not> length dat \<ge> ilen then None
         else if length dat > ilen then do {
           let wlen = length dat - ilen;
           s \<leftarrow> rds dat ilen wlen;
           r \<leftarrow> put s r;
           Some (Some (rdlen + wlen), r) }
         else Some (Some rdlen, r) } }"

primrec naptr_ilen :: "nat \<Rightarrow> byte list \<Rightarrow> nat \<Rightarrow> nat option" where
  "naptr_ilen 0 dat ilen = Some ilen"
| "naptr_ilen (Suc j) dat ilen = do {
     c \<leftarrow> rd dat ilen;
     let ilen = ilen + unat c + 1;
     if \<not> length dat > ilen then None else naptr_ilen j dat ilen }"

definition put_data_naptr :: "byte list \<Rightarrow> reply \<Rightarrow> (nat option \<times> reply) option" where
  "put_data_naptr dat r =
     (if \<not> length dat > 4 then None
      else do { ilen \<leftarrow> naptr_ilen 3 dat 4; put_data_fix_name ilen dat r })"

definition put_data :: "nat \<Rightarrow> byte list \<Rightarrow> reply \<Rightarrow> (nat option \<times> reply) option" where
  "put_data tp dat r =
     (if tp \<in> {T_CNAME, T_MB, T_MD, T_MF, T_MG, T_MR, T_NS, T_PTR} then put_data_name dat r
      else if tp \<in> {T_MINFO, T_RP} then put_data_two_names dat r
      else if tp \<in> {T_MX, T_AFSDB, T_RT, T_KX} then put_data_fix_name 2 dat r
      else if tp = T_SOA then put_data_soa dat r
      else if tp = T_PX then put_data_px dat r
      else if tp = T_SRV then put_data_fix_name 6 dat r
      else if tp = T_NXT then put_data_nxt dat r
      else if tp = T_NAPTR then put_data_naptr dat r
      else do { s \<leftarrow> rds dat 0 (length dat); r \<leftarrow> put s r; Some (Some (length dat), r) })"

subsection \<open>Records\<close>

datatype section_t = S_ANSWER | S_AUTHORITY | S_ADDITIONAL

definition count_section :: "section_t \<Rightarrow> dns_hdr_t \<Rightarrow> dns_hdr_t" where
  "count_section section h = (case section of
     S_ANSWER \<Rightarrow> h\<lparr>h_ancount := h_ancount h + 1\<rparr>
   | S_AUTHORITY \<Rightarrow> h\<lparr>h_nscount := h_nscount h + 1\<rparr>
   | S_ADDITIONAL \<Rightarrow> h\<lparr>h_arcount := h_arcount h + 1\<rparr>)"

text \<open>
  \<^verbatim>\<open>add_rr\<close>; \<open>udp\<close> is the limit of the size for UDP.  The space of the record header is reserved
  first and filled in last.  A record of the additional section that goes over the limit is dropped.
\<close>

definition fill_rr_hdr :: "nat \<Rightarrow> 32 word \<Rightarrow> nat \<Rightarrow> byte list \<Rightarrow> nat \<Rightarrow> byte list option" where
  "fill_rr_hdr tp ttl rdlen b p = do {
     (b, p) \<leftarrow> PUTINT16 (of_nat tp) b p;
     (b, p) \<leftarrow> PUTINT16 (of_nat C_IN) b p;
     (b, p) \<leftarrow> PUTINT32 ttl b p;
     (b, p) \<leftarrow> PUTINT16 (of_nat rdlen) b p;
     Some b }"

definition add_rr :: "byte list \<Rightarrow> nat \<Rightarrow> 32 word \<Rightarrow> byte list \<Rightarrow> section_t \<Rightarrow> nat option \<Rightarrow> reply \<Rightarrow> (bool \<times> reply) option" where
  "add_rr rrn tp ttl dat section udp r0 = do {
     (nlen, nbuf, r) \<leftarrow> call_compress rrn (replicate DNSNAMEBUFSIZE 0) r0;
     if nlen = 0 then Some (False, r)
     else do {
       let (ok, r) = ensure_size (dnsmsghdroffset + r_sz r + nlen + sizeof_rr_hdr_t + length dat) r;
       if \<not> ok then Some (False, r)
       else do {
         s \<leftarrow> rds nbuf 0 nlen;
         r \<leftarrow> put s r;
         let rrht = length (r_body r);
         r \<leftarrow> put (replicate sizeof_rr_hdr_t 0) r;
         (rdlen, r) \<leftarrow> put_data tp dat r;
         case rdlen of None \<Rightarrow> Some (False, r)
         | Some rdlen \<Rightarrow>
             if (case udp of None \<Rightarrow> False | Some u \<Rightarrow> r_sz r > u) \<and> section = S_ADDITIONAL
             then Some (True, r\<lparr>r_body := take (length (r_body r0)) (r_body r)\<rparr>)
             else do {
               b \<leftarrow> fill_rr_hdr tp ttl rdlen (r_body r) rrht;
               Some (True, r\<lparr>r_body := b, r_hdr := count_section section (r_hdr r)\<rparr>) } } } }"

text \<open>OPT pseudo records.\<close>

definition add_opt_pseudo_rr :: "16 word \<Rightarrow> 16 word \<Rightarrow> 16 word \<Rightarrow> 16 word \<Rightarrow> reply \<Rightarrow> (bool \<times> reply) option" where
  "add_opt_pseudo_rr udpsize rcode ednsver Zflags r = do {
     let (ok, r) = ensure_size (dnsmsghdroffset + r_sz r + sizeof_opt_pseudo_rr) r;
     if \<not> ok then Some (False, r)
     else do {
       let p = length (r_body r);
       r \<leftarrow> put (replicate sizeof_opt_pseudo_rr 0) r;
       b \<leftarrow> wr (r_body r) p 0;
       (b, p) \<leftarrow> PUTINT16 (of_nat T_OPT) b (p + 1);
       (b, p) \<leftarrow> PUTINT16 udpsize b p;
       b \<leftarrow> wr b p (ucast (drop_bit 4 rcode));
       b \<leftarrow> wr b (p + 1) (ucast ednsver);
       (b, p) \<leftarrow> PUTINT16 Zflags b (p + 2);
       (b, p) \<leftarrow> PUTINT16 0 b p;
       Some (True, r\<lparr>r_body := b, r_hdr := (r_hdr r)\<lparr>h_arcount := h_arcount (r_hdr r) + 1\<rparr>\<rparr>) } }"

text \<open>The result is the new size, 0 if an inconsistency is found, and the message.\<close>

definition remove_opt_pseudo_rr :: "reply \<Rightarrow> (nat \<times> reply) option" where
  "remove_opt_pseudo_rr r = (let acnt = h_arcount (r_hdr r); sz = r_sz r in
     if \<not> (acnt > 0 \<and> sz \<ge> sizeof_dns_hdr_t + sizeof_opt_pseudo_rr) then Some (0, r)
     else do {
       let p = sz - sizeof_opt_pseudo_rr - sizeof_dns_hdr_t;
       c \<leftarrow> rd (r_body r) p;
       if c \<noteq> 0 then Some (0, r)
       else do {
         (type, _) \<leftarrow> GETINT16 (r_body r) (p + 1);
         if unat type \<noteq> T_OPT then Some (0, r)
         else Some (sz - sizeof_opt_pseudo_rr,
           r\<lparr>r_body := take p (r_body r), r_hdr := (r_hdr r)\<lparr>h_arcount := acnt - 1\<rparr>\<rparr>) } })"

subsection \<open>Compression with entries of discarded records\<close>

text \<open>
  When a record is dropped, the compression buffer may keep entries for names that are no longer in the message.
  This is harmless: such an entry is useless, because it is beyond the reach of a pointer.
\<close>

definition useful :: "compel_t \<Rightarrow> bool" where
  "useful c \<longleftrightarrow> index c \<le> 0x3fff"

definition names_ok :: "compel_t list \<Rightarrow> bool" where
  "names_ok cb \<longleftrightarrow> (\<forall>c\<in>set cb. \<exists>ls. wf_name ls \<and> compel_s c = enc ls)"

text \<open>The whole name can be replaced by a pointer.\<close>

definition known :: "compel_t list \<Rightarrow> byte list list \<Rightarrow> bool" where
  "known cb xs \<longleftrightarrow> xs \<noteq> [] \<and> (\<exists>c\<in>set cb. \<exists>ls. wf_name ls \<and> compel_s c = enc ls \<and> common_labels xs ls = length xs \<and>
     index c + lab_pos ls (length ls - length xs) \<le> 0x3fff)"

lemma enc_inj_wf: "wf_name xs \<Longrightarrow> wf_name ys \<Longrightarrow> enc xs = enc ys \<Longrightarrow> xs = ys"
  using cname_plain [of xs 0 "enc xs" "[]" "[]"] cname_plain [of ys 0 "enc xs" "[]" "[]"] by (auto simp: wf_name_def dest: cname_det)

lemma known_filter: "known (filter useful cb) xs = known cb xs"
  by (auto simp: known_def useful_def)

lemma known_mono: "known cb xs \<Longrightarrow> set cb \<subseteq> set cb' \<Longrightarrow> known cb' xs"
  unfolding known_def by blast

lemma domain_match_wf:
  assumes "name_at inp 0 xs" "wf_name xs" "wf_name ls"
  shows "domain_match inp (enc ls) = Some (common_labels xs ls, lab_pos xs (length xs - common_labels xs ls),
    lab_pos ls (length ls - common_labels xs ls))"
  using domain_match_spec [OF assms(1), of "enc ls" ls] name_at_enc [OF wf_name_lab_ok [OF assms(3)], of "[]"]
    wf_name_labels [OF assms(2)] wf_name_labels [OF assms(3)] by (simp add: Let_def)

lemma search_filter:
  assumes "name_at inp 0 xs" "wf_name xs" "names_ok cb"
  shows "compress_search inp cb st = compress_search inp (filter useful cb) st"
  using assms(3)
proof (induction cb arbitrary: st)
  case (Cons c cb)
  from Cons.prems obtain ls where ls: "wf_name ls" "compel_s c = enc ls" "names_ok cb" by (auto simp: names_ok_def)
  with Cons.IH domain_match_wf [OF assms(1,2) ls(1)] show ?case by (auto simp: useful_def)
qed simp

lemma known_search:
  assumes "search_ok xs es (L, lrem, coffs)" "wf_name xs" "\<forall>e\<in>set es. wf_name (fst (snd e))"
  shows "L > 0 \<and> lrem = 0 \<longleftrightarrow> known (map compel es) xs"
proof
  assume l: "L > 0 \<and> lrem = 0"
  with assms(1) have a: "lab_pos xs (length xs - L) = 0" "L \<le> length xs" "coffs \<le> 0x3fff" by (auto simp: search_ok_def)
  have "L = length xs"
  proof (rule ccontr)
    assume "L \<noteq> length xs"
    with a l have "lab_pos xs 0 < lab_pos xs (length xs - L)" by (intro lab_pos_less) auto
    with a(1) show False by simp
  qed
  with l assms(1) obtain i ls v j where e: "(i, ls, v) \<in> set es" "coffs = i + lab_pos ls j" "lower_name (drop j ls) = lower_name xs"
    by (auto simp: search_ok_def)
  have len: "length (drop j ls) = length xs" using arg_cong [OF e(3), of length] by (simp add: lower_name_def)
  moreover have "xs \<noteq> []" using l a(2) by auto
  ultimately have "0 < length xs" "length ls - j = length xs" by auto
  then have j: "j = length ls - length xs" "length xs \<le> length ls" by linarith+
  with e(3) have "same_suffix xs ls (length xs)" by (simp add: same_suffix_def)
  then have "common_labels xs ls = length xs" using common_labels_le [of xs ls] by (simp add: same_suffix_iff)
  with e a(3) j assms(3) \<open>xs \<noteq> []\<close> show "known (map compel es) xs" by (fastforce simp: known_def compel_def)
next
  assume "known (map compel es) xs"
  then obtain i ls v ls' where e: "(i, ls, v) \<in> set es" "wf_name ls'" "enc ls = enc ls'" "common_labels xs ls' = length xs"
    "i + lab_pos ls' (length ls' - length xs) \<le> 0x3fff" "xs \<noteq> []" by (auto simp: known_def compel_def)
  with assms(3) have "ls = ls'" by (intro enc_inj_wf) force+
  with e assms(1) have "length xs \<le> L" by (auto simp: search_ok_def)
  with e(6) assms(1) show "L > 0 \<and> lrem = 0" by (auto simp: search_ok_def)
qed

lemma compress_name_tail:
  assumes "rhnlen inp = Some n" "rds inp 0 n = Some b" "compress_search inp cb (0, 0, 0) = Some (L, lrem, coffs)"
    "compress_search inp cb2 (0, 0, 0) = Some (L, lrem, coffs)" "compress_name True inp out offs cb2 = Some (rl, out', cb')"
  shows "cb' = cb2 @ (if L > 0 \<and> lrem = 0 then [] else [\<lparr>index = offs, compel_s = b\<rparr>]) \<and>
    compress_name ok inp out offs cb = (if ok \<or> L > 0 \<and> lrem = 0
      then Some (rl, out', cb @ (if L > 0 \<and> lrem = 0 then [] else [\<lparr>index = offs, compel_s = b\<rparr>])) else Some (0, out', []))"
proof -
  from assms(5) have n: "n \<le> DNSNAMEBUFSIZE" using assms(1) by (auto simp: compress_name_def split: if_splits)
  show ?thesis
  proof (cases "L > 0")
    case True
    then obtain o1 where o: "(do { s \<leftarrow> rds inp 0 lrem; out \<leftarrow> wrs out 0 s;
        out \<leftarrow> wr out lrem (of_nat (0xc0 OR drop_bit 8 (coffs AND 0x3f00))); wr out (lrem + 1) (of_nat (coffs AND 0xff)) }) = Some o1" "lrem + 2 \<le> n"
      using assms n by (auto simp: compress_name_def bind_eq_Some_conv split: if_splits)
    then obtain s2 o2 o3 where "rds inp 0 lrem = Some s2" "wrs out 0 s2 = Some o2"
        "wr o2 lrem (of_nat (0xc0 OR drop_bit 8 (coffs AND 0x3f00))) = Some o3" "wr o3 (lrem + 1) (of_nat (coffs AND 0xff)) = Some o1"
      by (auto simp: bind_eq_Some_conv)
    with True assms n o(2) show ?thesis by (cases "lrem = 0"; cases ok) (auto simp: compress_name_def)
  next
    case False
    with assms n show ?thesis by (cases ok) (auto simp: compress_name_def bind_eq_Some_conv)
  qed
qed

text \<open>
  The invariant of the message.  The bytes of the header do not matter for the names, because no pointer leads there;
  the \<open>shadow\<close> of a message has other bytes in their place that are not part of any name.  More generally, any
  prefix \<open>P\<close> may be put in place of the beginning of the message, because writing only depends on its length.
\<close>

definition shadow :: "byte list \<Rightarrow> reply \<Rightarrow> byte list" where
  "shadow P r = P @ drop (length P) (replicate 12 0x80 @ r_body r)"

definition cb_good :: "byte list \<Rightarrow> compel_t list \<Rightarrow> bool" where
  "cb_good m cb \<longleftrightarrow> names_ok cb \<and> (\<exists>es. filter useful cb = map compel es \<and> entries_ok m [] es)"

definition reply_ok :: "byte list \<Rightarrow> reply \<Rightarrow> bool" where
  "reply_ok P r \<longleftrightarrow> length P \<le> r_sz r \<and> cb_good (shadow P r) (r_cb r) \<and> dnsmsghdroffset + r_sz r \<le> r_alloc r"

lemma length_shadow [simp]: "length P \<le> r_sz r \<Longrightarrow> length (shadow P r) = r_sz r"
  by (simp add: shadow_def r_sz_def sizeof_dns_hdr_t_def)

lemma entries_wf: "entries_ok m q es \<Longrightarrow> \<forall>e\<in>set es. wf_name (fst (snd e))"
  by (induction es arbitrary: q) (auto simp: entry_ok_def)

lemma cb_good_empty: "cb_good m []"
  by (auto simp: cb_good_def names_ok_def intro: exI [of _ "[]"])

lemma cb_good_extend: "cb_good m cb \<Longrightarrow> cb_good (m @ r) cb"
  unfolding cb_good_def using entries_ok_extend by blast

lemma wf_name_lower: "lower_name ls = lower_name xs \<Longrightarrow> list_all lab63 ls \<Longrightarrow> wf_name xs \<Longrightarrow> wf_name ls"
  using lower_name_enc_length [of ls xs] by (simp add: wf_name_def)

lemma written_nm_at:
  assumes "written m es xs w es'" "wf_name xs"
  shows "\<exists>ls. nm_at (m @ w) (length m) (length w) ls \<and> lower_name ls = lower_name xs"
proof -
  from assms(1) obtain h ls where c: "cname (m @ w @ []) (length m) (length w) h ls" "lower_name ls = lower_name xs" "h \<le> length xs + 1"
    unfolding written_def by blast
  with wf_name_lower [OF c(2) cname_labs [OF c(1)] assms(2)] wf_name_labels [OF assms(2)] show ?thesis
    by (intro exI [of _ ls]) (auto simp: nm_at_def)
qed

text \<open>One call of \<^verbatim>\<open>compress_name\<close> with such a buffer.\<close>

lemma compress_ok:
  assumes "cb_good m cb" "name_at nm 0 xs" "wf_name xs" "length (enc xs) \<le> length out"
  shows "\<exists>w out' cb' ls. (\<forall>ok. compress_name ok nm out (length m) cb =
        (if ok \<or> cb' = cb then Some (length w, out', cb') else Some (0, out', []))) \<and>
    take (length w) out' = w \<and> length out' = length out \<and> 0 < length w \<and> length w \<le> length (enc xs) \<and>
    nm_at (m @ w) (length m) (length w) ls \<and> lower_name ls = lower_name xs \<and> cb_good (m @ w) cb' \<and> set cb \<subseteq> set cb' \<and>
    (xs \<noteq> [] \<longrightarrow> length m \<le> 0x3fff \<longrightarrow> known cb' xs) \<and>
    (xs = [] \<or> known cb xs \<or> length m > 0x3fff \<longrightarrow> cb_good m cb')"
proof -
  from assms(1) obtain es where es: "names_ok cb" "filter useful cb = map compel es" "entries_ok m [] es" by (auto simp: cb_good_def)
  from compress_name_written [OF assms(2,3) es(3) assms(4)] obtain w out' es' where w:
    "compress_name True nm out (length m) (map compel es) = Some (length w, out', map compel es')"
    "take (length w) out' = w" "length out' = length out" "written m es xs w es'" by blast
  from written_nm_at [OF w(4) assms(3)] obtain ls where ls: "nm_at (m @ w) (length m) (length w) ls" "lower_name ls = lower_name xs" by blast
  have sz: "0 < length w" "length w \<le> length (enc xs)" "entries_ok (m @ w) [] es'"
    using w(4) unfolding written_def by (auto dest: spec [of _ "[]"])
  have "search_ok xs [] (0, 0, 0)" by (simp add: search_ok_def)
  from compress_search_spec [OF assms(2,3) es(3) this] obtain L lrem coffs where s:
    "compress_search nm (map compel es) (0, 0, 0) = Some (L, lrem, coffs)" "search_ok xs es (L, lrem, coffs)"
    by (metis append_Nil prod_cases3)
  have s2: "compress_search nm cb (0, 0, 0) = Some (L, lrem, coffs)" using search_filter [OF assms(2,3) es(1)] s(1) es(2) by simp
  have k: "L > 0 \<and> lrem = 0 \<longleftrightarrow> known cb xs" using known_search [OF s(2) assms(3) entries_wf [OF es(3)]] known_filter es(2) by metis
  have n: "rhnlen nm = Some (length (enc xs))" "rds nm 0 (length (enc xs)) = Some (enc xs)"
    using rhnlen_at_name [OF assms(2)] name_at_length [OF assms(2)] name_at_take_enc [OF assms(2)] by (simp_all add: rhnlen_def rds_def)
  let ?e = "\<lparr>index = length m, compel_s = enc xs\<rparr>"
  let ?cb = "if known cb xs then cb else cb @ [?e]"
  note tail = compress_name_tail [OF n s2 s(1) w(1), unfolded k]
  have neq: "cb @ [?e] \<noteq> cb" by simp
  from tail have run: "compress_name ok nm out (length m) cb =
        (if ok \<or> ?cb = cb then Some (length w, out', ?cb) else Some (0, out', []))" for ok by auto
  have nok: "names_ok ?cb" using es(1) assms(3) by (auto simp: names_ok_def)
  have es': "map compel es' = (if known cb xs then map compel es else map compel es @ [?e])" using tail by auto
  have good: "cb_good (m @ w) ?cb"
  proof (cases "known cb xs \<or> length m \<le> 0x3fff")
    case True
    then have "filter useful ?cb = map compel es'" using es' es(2) by (auto simp: useful_def)
    with nok sz(3) show ?thesis by (auto simp: cb_good_def)
  next
    case False
    then have "filter useful ?cb = map compel es" using es(2) by (auto simp: useful_def)
    with nok entries_ok_extend [OF es(3)] show ?thesis by (auto simp: cb_good_def)
  qed
  have good2: "cb_good m ?cb" if "xs = [] \<or> known cb xs \<or> length m > 0x3fff"
  proof (cases "known cb xs \<or> length m > 0x3fff")
    case True
    then have "filter useful ?cb = map compel es" using es(2) by (auto simp: useful_def)
    with nok es(3) show ?thesis by (auto simp: cb_good_def)
  next
    case False
    with that have x: "xs = []" "length m \<le> 0x3fff" "\<not> known cb xs" by auto
    have "entry_ok m es (length m, [], 0)" using entries_ok_ord [OF es(3)] by (auto simp: entry_ok_def wf_name_def DNSNAMEBUFSIZE_def)
    with es(3) have "entries_ok m [] (es @ [(length m, [], 0)])" by (simp add: entries_ok_append)
    moreover have "filter useful ?cb = map compel (es @ [(length m, [], 0)])" using x es(2) by (simp add: useful_def compel_def)
    ultimately show ?thesis using nok unfolding cb_good_def by blast
  qed
  have "known ?cb xs" if "xs \<noteq> []" "length m \<le> 0x3fff"
  proof (cases "known cb xs")
    case False
    have "same_suffix xs xs (length xs)" by (simp add: same_suffix_def)
    then have "common_labels xs xs = length xs" using common_labels_le [of xs xs] by (simp add: same_suffix_iff)
    with that assms(3) False show ?thesis by (auto simp: known_def)
  qed simp
  with run w(2,3) sz ls good good2 show ?thesis
    by (intro exI [of _ w] exI [of _ out'] exI [of _ ?cb] exI [of _ ls] conjI allI impI) auto
qed

subsection \<open>What is written\<close>

text \<open>From \<open>r\<close> to \<open>r'\<close> the items \<open>us\<close> are written, their names up to case.\<close>

definition emits :: "byte list \<Rightarrow> reply \<Rightarrow> reply \<Rightarrow> item list \<Rightarrow> bool" where
  "emits P r r' us \<longleftrightarrow> reply_ok P r' \<and> r_hdr r' = r_hdr r \<and> r_alloc r' = r_alloc r \<and> mem_mono (r_mem r) (r_mem r') \<and>
     set (r_cb r) \<subseteq> set (r_cb r') \<and>
     (\<exists>w vs. r_body r' = r_body r @ w \<and> length w \<le> length (items_bytes us) \<and> map lower_item vs = map lower_item us \<and>
        items_at (shadow P r') (r_sz r) vs (r_sz r')) \<and>
     (\<forall>ls. Name ls \<in> set us \<and> ls \<noteq> [] \<and> r_sz r' \<le> 0x3fff \<longrightarrow> known (r_cb r') ls)"

lemma shadow_put: "length P \<le> r_sz r \<Longrightarrow> r_body r' = r_body r @ w \<Longrightarrow> shadow P r' = shadow P r @ w"
  by (simp add: shadow_def r_sz_def sizeof_dns_hdr_t_def)

lemma r_sz_put: "r_body r' = r_body r @ w \<Longrightarrow> r_sz r' = r_sz r + length w"
  by (simp add: r_sz_def)

lemma emits_trans:
  assumes "emits P r r1 us" "emits P r1 r2 vs"
  shows "emits P r r2 (us @ vs)"
proof -
  from assms(1) obtain w1 us' where 1: "r_body r1 = r_body r @ w1" "length w1 \<le> length (items_bytes us)"
    "map lower_item us' = map lower_item us" "items_at (shadow P r1) (r_sz r) us' (r_sz r1)" by (auto simp: emits_def)
  from assms(2) obtain w2 vs' where 2: "r_body r2 = r_body r1 @ w2" "length w2 \<le> length (items_bytes vs)"
    "map lower_item vs' = map lower_item vs" "items_at (shadow P r2) (r_sz r1) vs' (r_sz r2)" by (auto simp: emits_def)
  have "length P \<le> r_sz r1" using assms(1) by (simp add: emits_def reply_ok_def)
  from shadow_put [OF this 2(1)] 1(4) have "items_at (shadow P r2) (r_sz r) us' (r_sz r1)" by (simp add: items_at_append)
  with 2(4) have "items_at (shadow P r2) (r_sz r) (us' @ vs') (r_sz r2)" by (auto simp: items_at_app)
  moreover have "length (w1 @ w2) \<le> length (items_bytes (us @ vs))" using 1(2) 2(2) by (simp add: items_bytes_def)
  moreover have "\<forall>ls. Name ls \<in> set (us @ vs) \<and> ls \<noteq> [] \<and> r_sz r2 \<le> 0x3fff \<longrightarrow> known (r_cb r2) ls"
    using assms r_sz_put [OF 2(1)] known_mono by (fastforce simp: emits_def)
  ultimately show ?thesis using assms 1 2 mem_mono_trans unfolding emits_def
    by (intro conjI exI [of _ "w1 @ w2"] exI [of _ "us' @ vs'"]) auto
qed

lemma emits_sz: "emits P r r' us \<Longrightarrow> r_sz r \<le> r_sz r' \<and> r_sz r' \<le> r_sz r + length (items_bytes us) \<and> r_alloc r' = r_alloc r"
  by (auto simp: emits_def r_sz_def)

lemma put_ok:
  assumes "reply_ok P r" "dnsmsghdroffset + r_sz r + length b \<le> r_alloc r"
  shows "\<exists>r'. put b r = Some r' \<and> emits P r r' [Raw b] \<and> r_sz r' = r_sz r + length b"
proof -
  let ?r = "r\<lparr>r_body := r_body r @ b\<rparr>"
  have sh: "shadow P ?r = shadow P r @ b" by (rule shadow_put) (use assms(1) in \<open>simp_all add: reply_ok_def\<close>)
  then have "emits P r ?r [Raw b]"
    using assms cb_good_extend unfolding emits_def reply_ok_def
    by (intro conjI exI [of _ b] exI [of _ "[Raw b]"]) (auto simp: r_sz_def items_bytes_def)
  with assms(2) show ?thesis by (simp add: put_def r_sz_put [of ?r r])
qed

lemma call_compress_ok:
  assumes "reply_ok P r" "name_at nm 0 xs" "wf_name xs" "length (enc xs) \<le> length out"
  obtains (fail) out' r' where "call_compress nm out r = Some (0, out', r')" "mem_mono (r_mem r) (r_mem r')" "\<exists>n. \<not> r_mem r n"
  | (full) w out' cb' m ls where "call_compress nm out r = Some (length w, out', r\<lparr>r_cb := cb', r_mem := m\<rparr>)" "mem_mono (r_mem r) m"
      "take (length w) out' = w" "length out' = length out" "0 < length w" "length w \<le> length (enc xs)"
      "nm_at (shadow P r @ w) (r_sz r) (length w) ls" "lower_name ls = lower_name xs" "cb_good (shadow P r @ w) cb'"
      "set (r_cb r) \<subseteq> set cb'" "xs \<noteq> [] \<Longrightarrow> r_sz r \<le> 0x3fff \<Longrightarrow> known cb' xs"
      "xs = [] \<or> known (r_cb r) xs \<or> r_sz r > 0x3fff \<Longrightarrow> cb_good (shadow P r) cb'"
proof -
  from assms(1) have P: "length P \<le> r_sz r" and cb: "cb_good (shadow P r) (r_cb r)" by (simp_all add: reply_ok_def)
  from compress_ok [OF cb assms(2-4)] obtain w out' cb' ls where c:
    "\<forall>ok. compress_name ok nm out (r_sz r) (r_cb r) =
        (if ok \<or> cb' = r_cb r then Some (length w, out', cb') else Some (0, out', []))"
    "take (length w) out' = w" "length out' = length out" "0 < length w" "length w \<le> length (enc xs)"
    "nm_at (shadow P r @ w) (r_sz r) (length w) ls" "lower_name ls = lower_name xs" "cb_good (shadow P r @ w) cb'" "set (r_cb r) \<subseteq> set cb'"
    "xs \<noteq> [] \<longrightarrow> r_sz r \<le> 0x3fff \<longrightarrow> known cb' xs" "xs = [] \<or> known (r_cb r) xs \<or> r_sz r > 0x3fff \<longrightarrow> cb_good (shadow P r) cb'"
    unfolding length_shadow [OF P] by (elim exE conjE) (rule that; assumption)
  obtain ok m where m: "malloc (r_mem r) = (ok, m)" by force
  from mem_mono_malloc [OF m] have mm: "mem_mono (r_mem r) m" "ok \<or> (\<exists>n. \<not> r_mem r n)" by auto
  show thesis
  proof (cases "ok \<or> cb' = r_cb r")
    case True
    with c(1) m have "call_compress nm out r = Some (length w, out', r\<lparr>r_cb := cb', r_mem := m\<rparr>)"
      by (auto simp: call_compress_def)
    from full [OF this mm(1) c(2-9)] c(10,11) show thesis by blast
  next
    case False
    with c(1) m have "call_compress nm out r = Some (0, out', r\<lparr>r_cb := [], r_mem := m\<rparr>)"
      by (auto simp: call_compress_def)
    from fail [OF this] mm False show thesis by simp
  qed
qed

text \<open>The two outcomes of writing a part of a record.\<close>

definition wrote :: "byte list \<Rightarrow> reply \<Rightarrow> item list \<Rightarrow> nat option \<times> reply \<Rightarrow> bool" where
  "wrote P r us x \<longleftrightarrow> (case x of (None, r') \<Rightarrow> \<exists>n. \<not> r_mem r n | (Some n, r') \<Rightarrow> emits P r r' us \<and> r_sz r' = r_sz r + n)"

lemma put_name_ok:
  assumes "reply_ok P r" "name_at nm 0 xs" "wf_name xs" "dnsmsghdroffset + r_sz r + length (enc xs) \<le> r_alloc r"
  shows "\<exists>x. put_name nm r = Some x \<and> wrote P r [Name xs] x \<and> (\<forall>n r'. x = (Some n, r') \<longrightarrow> n \<le> length (enc xs))"
proof -
  let ?out = "replicate (r_alloc r - (dnsmsghdroffset + r_sz r)) (0 :: byte)"
  from assms(4) have "length (enc xs) \<le> length ?out" by simp
  from assms(1-3) this show ?thesis
  proof (cases rule: call_compress_ok)
    case fail
    then show ?thesis by (simp add: put_name_def wrote_def)
  next
    case (full w out' cb' m ls)
    let ?r = "r\<lparr>r_body := r_body r @ w, r_cb := cb', r_mem := m\<rparr>"
    have P: "length P \<le> r_sz r" using assms(1) by (simp add: reply_ok_def)
    have sh: "shadow P ?r = shadow P r @ w" by (rule shadow_put [OF P]) simp
    have sz: "r_sz ?r = r_sz r + length w" by (simp add: r_sz_def)
    have fits: "dnsmsghdroffset + r_sz r + length w \<le> r_alloc r" using assms(4) full(6) by simp
    from full(7,8) have "items_at (shadow P ?r) (r_sz r) [Name ls] (r_sz ?r)" using P by (auto simp: sh sz nm_at_def)
    with full have "emits P r ?r [Name xs]"
      unfolding emits_def reply_ok_def sh
      by (intro conjI exI [of _ w] exI [of _ "[Name ls]"]) (use fits P in \<open>auto simp: items_bytes_def sh sz\<close>)
    moreover have "put_name nm r = Some (Some (length w), ?r)"
      using full(1,3,5) fits by (simp add: put_name_def rds_def put_def r_sz_def) (metis full(3) length_take min.absorb_iff2 nat_le_linear take_all)
    ultimately show ?thesis using full(6) sz by (simp add: wrote_def)
  qed
qed

lemma wrote_res_simps [simp]: "wrote P r us (None, r') \<longleftrightarrow> (\<exists>n. \<not> r_mem r n)"
  "wrote P r us (Some n, r') \<longleftrightarrow> emits P r r' us \<and> r_sz r' = r_sz r + n"
  by (simp_all add: wrote_def)

lemma put_name_cases:
  assumes "reply_ok P r" "wf_name xs" "nm = enc xs @ t" "dnsmsghdroffset + r_sz r + length (enc xs) \<le> r_alloc r"
  obtains (fail) r' where "put_name nm r = Some (None, r')" "\<exists>n. \<not> r_mem r n"
  | (okay) n r' where "put_name nm r = Some (Some n, r')" "emits P r r' [Name xs]" "r_sz r' = r_sz r + n" "n \<le> length (enc xs)"
proof -
  from put_name_ok [OF assms(1) _ assms(2,4)] assms(3) name_at_enc [OF wf_name_lab_ok [OF assms(2)]] obtain x where
    x: "put_name nm r = Some x" "wrote P r [Name xs] x" "\<forall>n r'. x = (Some n, r') \<longrightarrow> n \<le> length (enc xs)" by blast
  show thesis
  proof (cases x)
    case (Pair n r')
    with x fail okay show ?thesis by (cases n) auto
  qed
qed

lemma emits_ok: "emits P r r' us \<Longrightarrow> reply_ok P r'"
  by (simp add: emits_def)

lemma emits_lack: "emits P r r' us \<Longrightarrow> \<exists>n. \<not> r_mem r' n \<Longrightarrow> \<exists>n. \<not> r_mem r n"
  using mem_mono_lack by (auto simp: emits_def)

lemma rhnlen_enc_wf: "wf_name xs \<Longrightarrow> rhnlen (enc xs @ t) = Some (length (enc xs))"
  using rhnlen_at_name [OF name_at_enc [OF wf_name_lab_ok]] by (simp add: rhnlen_def)

lemma put_data_name_ok:
  assumes "reply_ok P r" "wf_name a" "dnsmsghdroffset + r_sz r + length (enc a) \<le> r_alloc r"
  shows "\<exists>x. put_data_name (enc a) r = Some x \<and> wrote P r [Name a] x"
  using assms(1,2) append_Nil2 [symmetric] assms(3)
proof (cases rule: put_name_cases)
  case fail
  then show ?thesis by (simp add: put_data_name_def)
next
  case (okay n r')
  then show ?thesis by (simp add: put_data_name_def)
qed

lemma put_data_two_names_ok:
  assumes "reply_ok P r" "wf_name a" "wf_name b" "dnsmsghdroffset + r_sz r + length (enc a @ enc b) \<le> r_alloc r"
  shows "\<exists>x. put_data_two_names (enc a @ enc b) r = Some x \<and> wrote P r [Name a, Name b] x"
proof -
  from assms(4) have sp: "dnsmsghdroffset + r_sz r + length (enc a) \<le> r_alloc r" by simp
  from assms(1,2) refl sp show ?thesis
  proof (cases rule: put_name_cases [where t = "enc b"])
    case fail
    then show ?thesis by (simp add: put_data_two_names_def)
  next
    case (okay n r1)
    note 1 = okay rhnlen_enc_wf [OF assms(2), of "enc b"]
    from okay assms(4) emits_sz [OF okay(2)] have sp: "dnsmsghdroffset + r_sz r1 + length (enc b) \<le> r_alloc r1" by simp
    from emits_ok [OF okay(2)] assms(3) append_Nil2 [symmetric] sp show ?thesis
    proof (cases rule: put_name_cases)
      case fail
      with 1 emits_lack show ?thesis by (simp add: put_data_two_names_def)
    next
      case (okay k r2)
      with 1 emits_trans [OF 1(2) okay(2)] show ?thesis by (simp add: put_data_two_names_def)
    qed
  qed
qed

lemma rds_pre [simp]: "rds (a @ b) 0 (length a) = Some a"
  by (simp add: rds_def)

lemma put_data_fix_name_ok:
  assumes "reply_ok P r" "wf_name a" "dnsmsghdroffset + r_sz r + length (p @ enc a) \<le> r_alloc r"
  shows "\<exists>x. put_data_fix_name (length p) (p @ enc a) r = Some x \<and> wrote P r [Raw p, Name a] x"
proof -
  from put_ok [OF assms(1), of p] assms(3) obtain r1 where r1: "put p r = Some r1" "emits P r r1 [Raw p]" "r_sz r1 = r_sz r + length p" by auto
  from emits_sz [OF r1(2)] assms(3) have sp: "dnsmsghdroffset + r_sz r1 + length (enc a) \<le> r_alloc r1" by (simp add: items_bytes_def)
  from emits_ok [OF r1(2)] assms(2) append_Nil2 [symmetric] sp show ?thesis
  proof (cases rule: put_name_cases)
    case fail
    with r1 emits_lack show ?thesis by (simp add: put_data_fix_name_def)
  next
    case (okay n r2)
    with r1 okay emits_trans [OF r1(2) okay(2)] show ?thesis by (simp add: put_data_fix_name_def)
  qed
qed

lemma put_data_soa_ok:
  assumes "reply_ok P r" "wf_name a" "wf_name b" "length c = 20" "dnsmsghdroffset + r_sz r + length (enc a @ enc b @ c) \<le> r_alloc r"
  shows "\<exists>x. put_data_soa (enc a @ enc b @ c) r = Some x \<and> wrote P r [Name a, Name b, Raw c] x"
proof -
  from assms(5) have sp: "dnsmsghdroffset + r_sz r + length (enc a) \<le> r_alloc r" by simp
  from assms(1,2) refl sp show ?thesis
  proof (cases rule: put_name_cases [where t = "enc b @ c"])
    case fail
    then show ?thesis by (simp add: put_data_soa_def)
  next
    case (okay n r1)
    note 1 = okay rhnlen_enc_wf [OF assms(2), of "enc b @ c"] rhnlen_enc_wf [OF assms(3), of c]
    from okay assms(5) emits_sz [OF okay(2)] have sp: "dnsmsghdroffset + r_sz r1 + length (enc b) \<le> r_alloc r1" by simp
    from emits_ok [OF okay(2)] assms(3) refl sp show ?thesis
    proof (cases rule: put_name_cases [where t = c])
      case fail
      with 1 emits_lack show ?thesis by (simp add: put_data_soa_def)
    next
      case (okay k r2)
      note e2 = emits_trans [OF 1(2) okay(2)]
      from emits_sz [OF e2] 1 okay assms(5) have "dnsmsghdroffset + r_sz r2 + length c \<le> r_alloc r2" by simp
      from put_ok [OF emits_ok [OF e2] this] obtain r3 where r3: "put c r2 = Some r3" "emits P r2 r3 [Raw c]" "r_sz r3 = r_sz r2 + length c" by blast
      have "rds (enc a @ enc b @ c) (length (enc a) + length (enc b)) 20 = Some c" using assms(4) by (simp add: rds_def)
      with 1 okay r3 assms(4) emits_trans [OF e2 r3(2)] show ?thesis by (simp add: put_data_soa_def)
    qed
  qed
qed

lemma put_data_px_ok:
  assumes "reply_ok P r" "wf_name a" "wf_name b" "length p = 2" "dnsmsghdroffset + r_sz r + length (p @ enc a @ enc b) \<le> r_alloc r"
  shows "\<exists>x. put_data_px (p @ enc a @ enc b) r = Some x \<and> wrote P r [Raw p, Name a, Name b] x"
proof -
  from put_ok [OF assms(1), of p] assms(5) obtain r1 where r1: "put p r = Some r1" "emits P r r1 [Raw p]" "r_sz r1 = r_sz r + length p" by auto
  have rp: "rds (p @ enc a @ enc b) 0 2 = Some p" "drop 2 (p @ enc a @ enc b) = enc a @ enc b"
    "drop (2 + length (enc a)) (p @ enc a @ enc b) = enc b" using assms(4) by (simp_all add: rds_def)
  from emits_sz [OF r1(2)] assms(5) have sp: "dnsmsghdroffset + r_sz r1 + length (enc a) \<le> r_alloc r1" by (simp add: items_bytes_def)
  from emits_ok [OF r1(2)] assms(2) refl sp show ?thesis
  proof (cases rule: put_name_cases [where t = "enc b"])
    case fail
    with r1 rp assms(4) emits_lack show ?thesis by (simp add: put_data_px_def)
  next
    case (okay n r2)
    note e2 = emits_trans [OF r1(2) okay(2)] and 2 = okay rhnlen_enc_wf [OF assms(2), of "enc b"]
    from emits_sz [OF e2] r1 okay assms(5) have sp: "dnsmsghdroffset + r_sz r2 + length (enc b) \<le> r_alloc r2" by simp
    from emits_ok [OF e2] assms(3) append_Nil2 [symmetric] sp show ?thesis
    proof (cases rule: put_name_cases)
      case fail
      with r1 rp 2 assms(4) emits_lack [OF e2] show ?thesis by (simp add: put_data_px_def)
    next
      case (okay k r3)
      with r1 rp 2 assms(4) emits_trans [OF e2 okay(2)] show ?thesis by (simp add: put_data_px_def)
    qed
  qed
qed

lemma put_data_nxt_ok:
  assumes "reply_ok P r" "wf_name a" "dnsmsghdroffset + r_sz r + length (enc a @ c) \<le> r_alloc r"
  shows "\<exists>x. put_data_nxt (enc a @ c) r = Some x \<and> wrote P r [Name a, Raw c] x"
proof -
  from assms(3) have sp: "dnsmsghdroffset + r_sz r + length (enc a) \<le> r_alloc r" by simp
  from assms(1,2) refl sp show ?thesis
  proof (cases rule: put_name_cases [where t = c])
    case fail
    then show ?thesis by (simp add: put_data_nxt_def)
  next
    case (okay n r1)
    note 1 = okay rhnlen_enc_wf [OF assms(2), of c]
    from emits_sz [OF okay(2)] 1 assms(3) have "dnsmsghdroffset + r_sz r1 + length c \<le> r_alloc r1" by simp
    from put_ok [OF emits_ok [OF okay(2)] this] obtain r2 where r2: "put c r1 = Some r2" "emits P r1 r2 [Raw c]" "r_sz r2 = r_sz r1 + length c" by blast
    have rc: "rds (enc a @ c) (length (enc a)) (length c) = Some c" by (simp add: rds_def)
    show ?thesis
    proof (cases "c = []")
      case True
      then have "r2 = r1" using r2(1) by (auto simp: put_def split: if_splits)
      with True 1 emits_trans [OF okay(2) r2(2)] show ?thesis by (simp add: put_data_nxt_def)
    next
      case False
      with 1 r2 rc emits_trans [OF okay(2) r2(2)] show ?thesis by (simp add: put_data_nxt_def)
    qed
  qed
qed

text \<open>The text strings in front of the name of a NAPTR record.\<close>

lemma naptr_ilen_ok:
  assumes "list_all2 fits_item vs (replicate j Str)"
  shows "naptr_ilen j (p @ items_bytes vs @ q # t) (length p) = Some (length p + length (items_bytes vs))"
  using assms
proof (induction j arbitrary: p vs)
  case (Suc j)
  then obtain c b vs' where v: "vs = Raw (c # b) # vs'" "length b = unat c" "list_all2 fits_item vs' (replicate j Str)"
    by (auto simp: list_all2_Cons2 fits_Str)
  have r: "rd (p @ c # b @ items_bytes vs' @ q # t) (length p) = Some c" by (simp add: rd_def)
  from Suc.IH [OF v(3), of "p @ c # b"] v show ?case by (simp add: r)
qed simp

lemma put_data_naptr_ok:
  assumes "reply_ok P r" "wf_name a" "length p = 4" "list_all2 fits_item vs (replicate 3 Str)"
    "dnsmsghdroffset + r_sz r + length (p @ items_bytes vs @ enc a) \<le> r_alloc r"
  shows "\<exists>x. put_data_naptr (p @ items_bytes vs @ enc a) r = Some x \<and> wrote P r [Raw (p @ items_bytes vs), Name a] x"
proof -
  obtain q t where e: "enc a = q # t" by (cases "enc a") (auto dest: arg_cong [of _ _ length])
  with naptr_ilen_ok [OF assms(4), of p q t] assms(3) have "naptr_ilen 3 (p @ items_bytes vs @ enc a) 4 = Some (length (p @ items_bytes vs))"
    by simp
  with put_data_fix_name_ok [OF assms(1,2), of "p @ items_bytes vs"] assms(3,5) e show ?thesis by (simp add: put_data_naptr_def)
qed

lemma take_eq_append: "take (length a + length b) x = a @ b \<longleftrightarrow> take (length a) x = a \<and> take (length b) (drop (length a) x) = b"
proof
  assume e: "take (length a + length b) x = a @ b"
  from arg_cong [OF e, of "take (length a)"] arg_cong [OF e, of "drop (length a)"]
  show "take (length a) x = a \<and> take (length b) (drop (length a) x) = b" by (simp add: drop_take)
qed (simp add: take_add)

text \<open>Bytes can be grouped into items in different ways.\<close>

primrec is_raw :: "item \<Rightarrow> bool" where
  "is_raw (Raw b) = True"
| "is_raw (Name ls) = False"

lemma items_at_raws: "list_all is_raw vs \<Longrightarrow> items_at m p (vs @ us) q \<longleftrightarrow>
    take (length (items_bytes vs)) (drop p m) = items_bytes vs \<and> items_at m (p + length (items_bytes vs)) us q"
proof (induction vs arbitrary: p)
  case (Cons v vs)
  then show ?case by (cases v) (auto simp: take_eq_append ac_simps)
qed simp

lemma lower_raws: "list_all is_raw vs \<Longrightarrow> map lower_item vs = vs"
  by (induction vs) (auto, case_tac a, auto)

lemma lower_eq_raws: "list_all is_raw us \<Longrightarrow> map lower_item vs = us @ xs \<Longrightarrow> \<exists>vs'. vs = us @ vs' \<and> map lower_item vs' = xs"
proof (induction us arbitrary: vs)
  case (Cons u us)
  then obtain v vs2 where v: "vs = v # vs2" "lower_item v = u" "map lower_item vs2 = us @ xs" by auto
  with Cons.prems(1) have "v = u" by (cases v; cases u) auto
  with Cons.IH [OF _ v(3)] Cons.prems(1) v(1) show ?case by auto
qed simp

lemma emits_regroup:
  assumes "emits P r r' (ps @ us)" "list_all is_raw ps" "list_all is_raw qs" "items_bytes ps = items_bytes qs"
  shows "emits P r r' (qs @ us)"
proof -
  from assms(1) obtain w vs where w: "r_body r' = r_body r @ w" "length w \<le> length (items_bytes (ps @ us))"
    "map lower_item vs = ps @ map lower_item us" "items_at (shadow P r') (r_sz r) vs (r_sz r')"
    using lower_raws [OF assms(2)] unfolding emits_def by (elim exE conjE) (rule that, auto)
  from lower_eq_raws [OF assms(2) w(3)] obtain vs' where vs': "vs = ps @ vs'" "map lower_item vs' = map lower_item us" by auto
  have "items_at (shadow P r') (r_sz r) (qs @ vs') (r_sz r')"
    using w(4) unfolding vs'(1) items_at_raws [OF assms(2)] items_at_raws [OF assms(3)] assms(4) .
  moreover have "length w \<le> length (items_bytes (qs @ us))" using w(2) assms(4) by (simp add: items_bytes_def)
  moreover have "Name ls \<notin> set qs" for ls using assms(3) by (auto simp: list_all_iff)
  ultimately show ?thesis using assms(1) w(1) vs'(2) unfolding emits_def
    by (intro conjI exI [of _ w] exI [of _ "qs @ vs'"]) auto
qed

lemma strs_raw: "list_all2 fits_item vs (replicate j Str) \<Longrightarrow> list_all is_raw vs"
proof (induction j arbitrary: vs)
  case (Suc j)
  then show ?case by (auto simp: list_all2_Cons2 fits_Str)
qed simp

text \<open>The switch as a whole: valid data never violates an assertion, and is written up to the case of names.\<close>

lemma put_data_ok:
  assumes "reply_ok P r" "list_all2 fits_item us (rdata_form tp)" "dnsmsghdroffset + r_sz r + length (items_bytes us) \<le> r_alloc r"
  shows "\<exists>x. put_data tp (items_bytes us) r = Some x \<and> wrote P r us x"
proof -
  note c = t_consts rr_consts
  consider (1) "tp \<in> {T_CNAME, T_MB, T_MD, T_MF, T_MG, T_MR, T_NS, T_PTR}" | (2) "tp \<in> {T_MINFO, T_RP}"
    | (3) "tp \<in> {T_MX, T_AFSDB, T_RT, T_KX}" | (4) "tp = T_SOA" | (5) "tp = T_PX" | (6) "tp = T_SRV" | (7) "tp = T_NXT" | (8) "tp = T_NAPTR"
    | (9) "tp \<notin> {T_CNAME, T_MB, T_MD, T_MF, T_MG, T_MR, T_NS, T_PTR, T_MINFO, T_RP, T_MX, T_AFSDB, T_RT, T_KX, T_SOA, T_PX, T_SRV, T_NXT, T_NAPTR}"
    by blast
  then show ?thesis
  proof cases
    case 1
    with assms(2) obtain a where "us = [Name a]" "wf_name a" by (auto simp: rdata_form_def list_all2_Cons2 fits_Nam)
    with put_data_name_ok [OF assms(1)] assms(3) 1 show ?thesis by (simp add: put_data_def)
  next
    case 2
    with assms(2) obtain a b where "us = [Name a, Name b]" "wf_name a" "wf_name b"
      by (auto simp: rdata_form_def list_all2_Cons2 fits_Nam c)
    with put_data_two_names_ok [OF assms(1)] assms(3) 2 show ?thesis by (auto simp: put_data_def c)
  next
    case 3
    with assms(2) obtain p a where "us = [Raw p, Name a]" "length p = 2" "wf_name a"
      by (auto simp: rdata_form_def list_all2_Cons2 fits_Nam fits_Fix c)
    with put_data_fix_name_ok [OF assms(1), of a p] assms(3) 3 show ?thesis by (auto simp: put_data_def c)
  next
    case 4
    with assms(2) obtain a b p where "us = [Name a, Name b, Raw p]" "length p = 20" "wf_name a" "wf_name b"
      by (auto simp: rdata_form_def list_all2_Cons2 fits_Nam fits_Fix c)
    with put_data_soa_ok [OF assms(1)] assms(3) 4 show ?thesis by (simp add: put_data_def c)
  next
    case 5
    with assms(2) obtain p a b where "us = [Raw p, Name a, Name b]" "length p = 2" "wf_name a" "wf_name b"
      by (auto simp: rdata_form_def list_all2_Cons2 fits_Nam fits_Fix c)
    with put_data_px_ok [OF assms(1)] assms(3) 5 show ?thesis by (simp add: put_data_def c)
  next
    case 6
    with assms(2) obtain p a where "us = [Raw p, Name a]" "length p = 6" "wf_name a"
      by (auto simp: rdata_form_def list_all2_Cons2 fits_Nam fits_Fix c)
    with put_data_fix_name_ok [OF assms(1), of a p] assms(3) 6 show ?thesis by (simp add: put_data_def c)
  next
    case 7
    with assms(2) obtain a p where "us = [Name a, Raw p]" "wf_name a"
      by (auto simp: rdata_form_def list_all2_Cons2 fits_Nam fits_Rest c)
    with put_data_nxt_ok [OF assms(1)] assms(3) 7 show ?thesis by (simp add: put_data_def c)
  next
    case 8
    have "rdata_form tp = Fix 4 # replicate 3 Str @ [Nam]" using 8 by (simp add: rdata_form_def c numeral_3_eq_3)
    with assms(2) obtain p vs a where u: "us = Raw p # vs @ [Name a]" "length p = 4" "list_all2 fits_item vs (replicate 3 Str)" "wf_name a"
      by (auto simp: list_all2_Cons2 list_all2_append2 fits_Nam fits_Fix)
    note raws = strs_raw [OF u(3)]
    have ib: "items_bytes us = p @ items_bytes vs @ enc a" by (simp add: u(1) items_bytes_def)
    from put_data_naptr_ok [OF assms(1) u(4,2,3)] assms(3) obtain x where
      x: "put_data_naptr (items_bytes us) r = Some x" "wrote P r [Raw (p @ items_bytes vs), Name a] x" unfolding ib by auto
    have "emits P r r' us" if "emits P r r' [Raw (p @ items_bytes vs), Name a]" for r'
      using emits_regroup [of P r r' "[Raw (p @ items_bytes vs)]" "[Name a]" "Raw p # vs"] that raws by (simp add: u(1))
    then have "wrote P r us x" using x(2) by (auto simp: wrote_def split: option.splits)
    with x 8 show ?thesis by (simp add: put_data_def c)
  next
    case 9
    then have "rdata_form tp = [Rest]" by (auto simp: rdata_form_def)
    with assms(2) obtain p where u: "us = [Raw p]" by (auto simp: list_all2_Cons2 fits_Rest)
    from put_ok [OF assms(1), of p] assms(3) obtain r' where "put p r = Some r'" "emits P r r' [Raw p]" "r_sz r' = r_sz r + length p"
      by (auto simp: u)
    with 9 rds_pre [of p "[]"] show ?thesis by (auto simp: put_data_def u)
  qed
qed

subsection \<open>Records and sections\<close>

text \<open>The record \<open>r\<close> is written from \<open>p\<close> to \<open>q\<close>, its names up to case and compressed in some way.\<close>

definition rec_at :: "byte list \<Rightarrow> nat \<Rightarrow> rrec \<Rightarrow> nat \<Rightarrow> bool" where
  "rec_at m p r q \<longleftrightarrow> (\<exists>n ls len us vs. nm_at m p n ls \<and> lower_name ls = lower_name (rr_name r) \<and>
     take 10 (drop (p + n) m) = be16 (rr_type r) @ be16 (rr_cls r) @ be32 (rr_ttl r) @ be16 len \<and>
     q = p + n + 10 + unat len \<and> rr_rdata r = items_bytes us \<and> list_all2 fits_item us (rdata_form (unat (rr_type r))) \<and>
     map lower_item vs = map lower_item us \<and> items_at m (p + n + 10) vs q)"

primrec recs_at :: "byte list \<Rightarrow> nat \<Rightarrow> rrec list \<Rightarrow> nat \<Rightarrow> bool" where
  "recs_at m p [] q \<longleftrightarrow> p = q"
| "recs_at m p (r # rs) q \<longleftrightarrow> (\<exists>k. rec_at m p r k \<and> recs_at m k rs q)"

lemma nm_at_append: "nm_at m p n ls \<Longrightarrow> nm_at (m @ t) p n ls"
  unfolding nm_at_def using cname_append by blast

lemma rec_at_append: "rec_at m p r q \<Longrightarrow> rec_at (m @ t) p r q"
  unfolding rec_at_def
proof (elim exE conjE, intro exI conjI)
  fix n ls len us vs
  assume a: "nm_at m p n ls" "take 10 (drop (p + n) m) = be16 (rr_type r) @ be16 (rr_cls r) @ be32 (rr_ttl r) @ be16 len"
    "items_at m (p + n + 10) vs q"
  from items_at_le [OF a(3)] a(2) show "take 10 (drop (p + n) (m @ t)) = be16 (rr_type r) @ be16 (rr_cls r) @ be32 (rr_ttl r) @ be16 len"
    by simp
  from a show "nm_at (m @ t) p n ls" "items_at (m @ t) (p + n + 10) vs q" by (simp_all add: nm_at_append items_at_append)
qed

lemma recs_at_append: "recs_at m p rs q \<Longrightarrow> recs_at (m @ t) p rs q"
  by (induction rs arbitrary: p) (auto dest: rec_at_append)

lemma recs_at_app: "recs_at m p (rs @ ss) q \<longleftrightarrow> (\<exists>k. recs_at m p rs k \<and> recs_at m k ss q)"
  by (induction rs arbitrary: p) auto

lemma chunks_ge: "n \<le> chunks n"
proof -
  have "n + 0x7f < (n + 0x7f) div 0x80 * 0x80 + 0x80" by (metis add.commute div_mult_mod_eq mod_less_divisor nat_add_left_cancel_less zero_less_numeral)
  then show ?thesis by (simp add: chunks_def)
qed

lemma ensure_size_cases:
  obtains (fail) r' where "ensure_size n r = (False, r')" "\<exists>n. \<not> r_mem r n"
  | (room) a m where "ensure_size n r = (True, r\<lparr>r_alloc := a, r_mem := m\<rparr>)" "n \<le> a" "r_alloc r \<le> a" "mem_mono (r_mem r) m"
proof (cases "n > r_alloc r")
  case False
  then have "ensure_size n r = (True, r\<lparr>r_alloc := r_alloc r, r_mem := r_mem r\<rparr>)" by (simp add: ensure_size_def)
  from room [OF this] False show thesis by simp
next
  case True
  obtain ok m where m: "malloc (r_mem r) = (ok, m)" by force
  note mm = mem_mono_malloc [OF m]
  show thesis
  proof (cases ok)
    case False
    with fail True m mm show thesis by (simp add: ensure_size_def)
  next
    case ok: True
    with True m have "ensure_size n r = (True, r\<lparr>r_alloc := chunks n, r_mem := m\<rparr>)" by (simp add: ensure_size_def)
    from room [OF this chunks_ge] True chunks_ge [of n] mm show thesis by simp
  qed
qed

lemma put_data_cb:
  assumes "rdata_form tp = [Rest]" "put_data tp d r = Some (x, r')"
  shows "r_cb r' = r_cb r"
proof -
  have "tp \<notin> {T_CNAME, T_MB, T_MD, T_MF, T_MG, T_MR, T_NS, T_PTR, T_MINFO, T_RP, T_MX, T_AFSDB, T_RT, T_KX, T_SOA, T_PX, T_SRV, T_NXT, T_NAPTR}"
    using assms(1) by (auto simp: rdata_form_def split: if_splits)
  with assms(2) show ?thesis by (auto simp: put_data_def put_def bind_eq_Some_conv split: if_splits)
qed

lemma fill_rr_hdr_ok:
  assumes "length a = p" "length z = 10"
  shows "fill_rr_hdr tp ttl n (a @ z @ b) p = Some (a @ (be16 (of_nat tp) @ be16 (of_nat C_IN) @ be32 ttl @ be16 (of_nat n)) @ b)"
proof -
  have z: "z = take 2 z @ take 2 (drop 2 z) @ take 4 (drop 4 z) @ drop 8 z"
    using take_add [of 2 6 z] take_add [of 2 4 "drop 2 z"] append_take_drop_id [of 8 z] by simp
  obtain z1 z2 z3 z4 where z: "z = z1 @ z2 @ z3 @ z4" "length z1 = 2" "length z2 = 2" "length z3 = 4" "length z4 = 2"
    using z assms(2) by (intro that [OF z]) simp_all
  from wrs_mid [OF assms(1), of z1 "be16 (of_nat tp)" "z2 @ z3 @ z4 @ b"] z
  have 1: "PUTINT16 (of_nat tp) (a @ z @ b) p = Some (a @ be16 (of_nat tp) @ z2 @ z3 @ z4 @ b, p + 2)" by (simp add: PUTINT16_wrs)
  from wrs_mid [of "a @ be16 (of_nat tp)" "p + 2" z2 "be16 (of_nat C_IN)" "z3 @ z4 @ b"] z assms(1)
  have 2: "PUTINT16 (of_nat C_IN) (a @ be16 (of_nat tp) @ z2 @ z3 @ z4 @ b) (p + 2) =
      Some (a @ be16 (of_nat tp) @ be16 (of_nat C_IN) @ z3 @ z4 @ b, p + 2 + 2)" by (simp add: PUTINT16_wrs)
  from wrs_mid [of "a @ be16 (of_nat tp) @ be16 (of_nat C_IN)" "p + 2 + 2" z3 "be32 ttl" "z4 @ b"] z assms(1)
  have 3: "PUTINT32 ttl (a @ be16 (of_nat tp) @ be16 (of_nat C_IN) @ z3 @ z4 @ b) (p + 2 + 2) =
      Some (a @ be16 (of_nat tp) @ be16 (of_nat C_IN) @ be32 ttl @ z4 @ b, p + 2 + 2 + 4)" by (simp add: PUTINT32_wrs)
  from wrs_mid [of "a @ be16 (of_nat tp) @ be16 (of_nat C_IN) @ be32 ttl" "p + 2 + 2 + 4" z4 "be16 (of_nat n)" b] z assms(1)
  have 4: "PUTINT16 (of_nat n) (a @ be16 (of_nat tp) @ be16 (of_nat C_IN) @ be32 ttl @ z4 @ b) (p + 2 + 2 + 4) =
      Some (a @ be16 (of_nat tp) @ be16 (of_nat C_IN) @ be32 ttl @ be16 (of_nat n) @ b, p + 2 + 2 + 4 + 2)" by (simp add: PUTINT16_wrs)
  show ?thesis unfolding fill_rr_hdr_def 1 Option.bind.simps prod.case 2 3 4 by simp
qed

abbreviation noname :: "byte list" where
  "noname \<equiv> replicate 12 0x80"

lemma shadow_noname: "shadow noname r = noname @ r_body r"
  by (simp add: shadow_def)

definition rr_dropped :: "section_t \<Rightarrow> nat option \<Rightarrow> reply \<Rightarrow> reply \<Rightarrow> bool" where
  "rr_dropped section udp r r' \<longleftrightarrow> section = S_ADDITIONAL \<and> udp \<noteq> None \<and> r_body r' = r_body r \<and> r_hdr r' = r_hdr r"

definition rr_added :: "section_t \<Rightarrow> nat option \<Rightarrow> rrec \<Rightarrow> reply \<Rightarrow> reply \<Rightarrow> bool" where
  "rr_added section udp rc r r' \<longleftrightarrow> (\<exists>w. r_body r' = r_body r @ w) \<and> r_hdr r' = count_section section (r_hdr r) \<and>
     rec_at (shadow noname r') (r_sz r) rc (r_sz r') \<and> (section = S_ADDITIONAL \<longrightarrow> (\<forall>u. udp = Some u \<longrightarrow> r_sz r' \<le> u)) \<and>
     (\<forall>us ls. rr_rdata rc = items_bytes us \<longrightarrow> list_all2 fits_item us (rdata_form (unat (rr_type rc))) \<longrightarrow> Name ls \<in> set us \<longrightarrow>
        ls \<noteq> [] \<longrightarrow> r_sz r' \<le> 0x3fff \<longrightarrow> known (r_cb r') ls)"

lemma items_bytes_inj:
  assumes "list_all2 fits_item us F" "list_all2 fits_item vs F" "items_bytes us = items_bytes vs" "Rest \<notin> set (butlast F)"
  shows "us = vs"
  using assms
proof (induction F arbitrary: us vs rule: list.induct)
  case (Cons fd F)
  then obtain u us' v vs' where e: "us = u # us'" "vs = v # vs'" "fits_item u fd" "fits_item v fd" "list_all2 fits_item us' F" "list_all2 fits_item vs' F"
    by (auto simp: list_all2_Cons2)
  have ib: "item_bytes u @ items_bytes us' = item_bytes v @ items_bytes vs'" using Cons.prems(3) by (simp add: e(1,2))
  have *: "item_bytes u = item_bytes v \<and> items_bytes us' = items_bytes vs'"
  proof (cases fd)
    case (Fix n)
    with e(3,4) have "length (item_bytes u) = length (item_bytes v)" by (auto simp: fits_Fix)
    with ib show ?thesis by simp
  next
    case Str
    with e(3,4) obtain c b c' b' where s: "u = Raw (c # b)" "length b = unat c" "v = Raw (c' # b')" "length b' = unat c'" by (auto simp: fits_Str)
    with ib show ?thesis by auto
  next
    case Nam
    with e(3,4) obtain a b where n: "u = Name a" "v = Name b" "wf_name a" "wf_name b" by (auto simp: fits_Nam)
    with ib have "enc a @ items_bytes us' = enc b @ items_bytes vs'" by simp
    with rhnlen_enc_wf [OF n(3), of "items_bytes us'"] rhnlen_enc_wf [OF n(4), of "items_bytes vs'"] show ?thesis by (simp add: n)
  next
    case Rest
    with Cons.prems(4) have "F = []" by (cases F) auto
    with e(5,6) ib show ?thesis by simp
  qed
  moreover have "u = v" using * e(3,4) enc_inj_wf by (cases u; cases v) (auto split: field.splits)
  moreover have "us' = vs'" using Cons.IH [OF e(5,6)] * Cons.prems(4) e(5,6) by (cases F) (auto split: if_splits)
  ultimately show ?case by (simp add: e)
qed simp

lemma rdata_form_Rest: "Rest \<notin> set (butlast (rdata_form tp))"
  by (simp add: rdata_form_def)

text \<open>One record; it is only dropped if it goes beyond the limit for UDP and belongs to the additional section.\<close>

lemma add_rr_ok:
  assumes r: "reply_ok noname r" and nm: "name_at rrn 0 xs" "wf_name xs"
    and d: "list_all2 fits_item us (rdata_form tp)" "length (items_bytes us) < 65536" "tp < 65536"
    and add: "section = S_ADDITIONAL \<and> udp \<noteq> None \<longrightarrow> rdata_form tp = [Rest] \<and> (xs = [] \<or> known (r_cb r) xs \<or> r_sz r > 0x3fff)"
  shows "\<exists>ok r'. add_rr rrn tp ttl (items_bytes us) section udp r = Some (ok, r') \<and> (\<not> ok \<longrightarrow> (\<exists>n. \<not> r_mem r n)) \<and>
    (ok \<longrightarrow> reply_ok noname r' \<and> mem_mono (r_mem r) (r_mem r') \<and> set (r_cb r) \<subseteq> set (r_cb r') \<and>
      (rr_dropped section udp r r' \<or>
       rr_added section udp \<lparr>rr_name = xs, rr_type = of_nat tp, rr_cls = of_nat C_IN, rr_ttl = ttl, rr_rdata = items_bytes us\<rparr> r r'))"
proof -
  let ?d = "items_bytes us"
  let ?rc = "\<lparr>rr_name = xs, rr_type = of_nat tp, rr_cls = of_nat C_IN, rr_ttl = ttl, rr_rdata = ?d\<rparr> :: rrec"
  have len: "length (enc xs) \<le> length (replicate DNSNAMEBUFSIZE (0 :: byte))" using nm(2) by (simp add: wf_name_def)
  from r nm len show ?thesis
  proof (cases rule: call_compress_ok)
    case fail
    then show ?thesis by (auto simp: add_rr_def)
  next
    case (full w nbuf cb' m ls)
    let ?r1 = "r\<lparr>r_cb := cb', r_mem := m\<rparr>"
    let ?n = "dnsmsghdroffset + r_sz ?r1 + length w + sizeof_rr_hdr_t + length ?d"
    have wl: "length w \<le> length nbuf" using full(3,4) by (metis length_take min.absorb_iff2 nat_le_linear take_all)
    show ?thesis
    proof (cases rule: ensure_size_cases [of ?n ?r1])
      case (fail r')
      with full(1,2,5) mem_mono_lack [OF full(2)] show ?thesis by (auto simp: add_rr_def)
    next
      case (room a m2)
      let ?r4 = "\<lambda>z. r\<lparr>r_cb := cb', r_mem := m2, r_alloc := a, r_body := r_body r @ w @ z\<rparr>"
      let ?z = "replicate 10 0 :: byte list"
      have room': "dnsmsghdroffset + (r_sz r + length w + 10 + length ?d) \<le> a" using room(2) by (simp add: r_sz_def msg_sizes)
      have st: "put w (?r1\<lparr>r_alloc := a, r_mem := m2\<rparr>) = Some (?r4 [])" "put ?z (?r4 []) = Some (?r4 ?z)"
        using room' by (simp_all add: put_def r_sz_def)
      have ok4: "reply_ok (noname @ r_body r @ w @ h) (?r4 h)" if "length h = 10" for h
        using cb_good_extend [OF full(9), of h] that room' by (simp add: reply_ok_def shadow_def r_sz_def sizeof_dns_hdr_t_def)
      have ok4z: "reply_ok (noname @ r_body r @ w @ h) (?r4 ?z)" if "length h = 10" for h
        using cb_good_extend [OF full(9), of h] that room' by (simp add: reply_ok_def shadow_def r_sz_def sizeof_dns_hdr_t_def)
      have sp: "dnsmsghdroffset + r_sz (?r4 ?z) + length ?d \<le> r_alloc (?r4 ?z)" using room' by (simp add: r_sz_def)
      from put_data_ok [OF ok4z [of ?z] d(1) sp] obtain x where
        x: "put_data tp ?d (?r4 ?z) = Some x" by auto
      have wr: "wrote (noname @ r_body r @ w @ h) (?r4 ?z) us x" if "length h = 10" for h
        using put_data_ok [OF ok4z [OF that] d(1) sp] x by auto
      have run: "add_rr rrn tp ttl ?d section udp r = (case x of (None, r5) \<Rightarrow> Some (False, r5)
        | (Some rdlen, r5) \<Rightarrow> if (case udp of None \<Rightarrow> False | Some u \<Rightarrow> r_sz r5 > u) \<and> section = S_ADDITIONAL
             then Some (True, r5\<lparr>r_body := take (length (r_body r)) (r_body r5)\<rparr>)
             else do { b \<leftarrow> fill_rr_hdr tp ttl rdlen (r_body r5) (length (r_body (r\<lparr>r_cb := cb', r_mem := m2, r_alloc := a, r_body := r_body r @ w\<rparr>)));
               Some (True, r5\<lparr>r_body := b, r_hdr := count_section section (r_hdr r5)\<rparr>) })"
        using full(1,3,5) wl room(1) st x by (simp add: add_rr_def rds_def msg_sizes cong: if_cong)
      have lack: "\<exists>n. \<not> r_mem r n" if "\<exists>n. \<not> m2 n" using that mem_mono_lack [OF full(2)] mem_mono_lack [OF room(4)] by simp
      obtain res r5 where x5: "x = (res, r5)" by force
      show ?thesis
      proof (cases res)
        case None
        with wr [of ?z] x5 have "\<exists>n. \<not> m2 n" by simp
        with lack None x5 run show ?thesis by auto
      next
        case (Some n)
        let ?h = "be16 (of_nat tp) @ be16 (of_nat C_IN) @ be32 ttl @ be16 (of_nat n)"
        have e: "emits (noname @ r_body r @ w @ ?h) (?r4 ?z) r5 us" "r_sz r5 = r_sz (?r4 ?z) + n"
          using wr [of ?h] Some x5 by simp_all
        then obtain w2 vs where w2: "r_body r5 = r_body r @ w @ ?z @ w2" "length w2 \<le> length ?d" "map lower_item vs = map lower_item us"
          "items_at (shadow (noname @ r_body r @ w @ ?h) r5) (r_sz (?r4 ?z)) vs (r_sz r5)" by (auto simp: emits_def)
        have n: "n = length w2" using e(2) w2(1) by (simp add: r_sz_def)
        have n16: "unat (of_nat n :: 16 word) = n" using w2(2) d(2) n by (simp add: unat_of_nat take_bit_nat_eq_self)
        have t16: "unat (of_nat tp :: 16 word) = tp" using d(3) by (simp add: unat_of_nat take_bit_nat_eq_self)
        have m5: "mem_mono (r_mem r) (r_mem r5)" "r_hdr r5 = r_hdr r" "set (r_cb r) \<subseteq> set (r_cb r5)" "r_alloc r5 = a"
          using e(1) full(2,10) room(4) mem_mono_trans by (auto simp: emits_def)
        show ?thesis
        proof (cases "(case udp of None \<Rightarrow> False | Some u \<Rightarrow> r_sz r5 > u) \<and> section = S_ADDITIONAL")
          case True
          let ?r6 = "r5\<lparr>r_body := take (length (r_body r)) (r_body r5)\<rparr>"
          from True add have a': "rdata_form tp = [Rest]" "xs = [] \<or> known (r_cb r) xs \<or> r_sz r > 0x3fff" "udp \<noteq> None" by (auto split: option.splits)
          from put_data_cb [OF a'(1) x [unfolded x5]] have "r_cb r5 = cb'" by simp
          moreover have "shadow noname ?r6 = shadow noname r" using w2(1) by (simp add: shadow_def)
          ultimately have "reply_ok noname ?r6" using full(12) [OF a'(2)] room' m5(4) w2(1)
            by (simp add: reply_ok_def r_sz_def sizeof_dns_hdr_t_def)
          moreover have "rr_dropped section udp r ?r6" using True a'(3) w2(1) m5 by (simp add: rr_dropped_def)
          ultimately show ?thesis using run x5 Some True m5 by (intro exI [of _ True] exI [of _ ?r6]) simp
        next
          case False
          let ?b = "(r_body r @ w) @ ?h @ w2"
          let ?r6 = "r5\<lparr>r_body := ?b, r_hdr := count_section section (r_hdr r5)\<rparr>"
          have "fill_rr_hdr tp ttl n (r_body r5) (length (r_body r @ w)) = Some ?b"
            using fill_rr_hdr_ok [of "r_body r @ w" "length (r_body r @ w)" ?z tp ttl n w2] w2(1) by simp
          then have run6: "add_rr rrn tp ttl ?d section udp r = Some (True, ?r6)" using run x5 Some False by simp
          have sh: "shadow noname ?r6 = shadow (noname @ r_body r @ w @ ?h) r5" using w2(1) by (simp add: shadow_def)
          have sz6: "r_sz ?r6 = r_sz r5" "r_sz (?r4 ?z) = r_sz r + length w + 10" using w2(1) by (simp_all add: r_sz_def)
          have "reply_ok (noname @ r_body r @ w @ ?h) r5" using e(1) by (simp add: emits_def)
          then have ok6: "reply_ok noname ?r6" unfolding reply_ok_def sh using w2(1) by (simp add: r_sz_def sizeof_dns_hdr_t_def)
          have sh2: "shadow noname ?r6 = (shadow noname r @ w) @ ?h @ w2" by (simp add: shadow_def)
          have rec: "rec_at (shadow noname ?r6) (r_sz r) ?rc (r_sz ?r6)"
            unfolding rec_at_def
          proof (intro exI conjI)
            show "nm_at (shadow noname ?r6) (r_sz r) (length w) ls" unfolding sh2 using full(7) by (rule nm_at_append)
            show "lower_name ls = lower_name (rr_name ?rc)" using full(8) by simp
            have l12: "length (shadow noname r @ w) = r_sz r + length w" by (simp add: r_sz_def sizeof_dns_hdr_t_def)
            show "take 10 (drop (r_sz r + length w) (shadow noname ?r6)) = be16 (rr_type ?rc) @ be16 (rr_cls ?rc) @ be32 (rr_ttl ?rc) @ be16 (of_nat n)"
              unfolding sh2 using l12 by simp
            show "r_sz ?r6 = r_sz r + length w + 10 + unat (of_nat n :: 16 word)" using e(2) sz6 n16 by simp
            show "rr_rdata ?rc = ?d" by simp
            show "list_all2 fits_item us (rdata_form (unat (rr_type ?rc)))" using d(1) t16 by simp
            show "map lower_item vs = map lower_item us" by (rule w2(3))
            show "items_at (shadow noname ?r6) (r_sz r + length w + 10) vs (r_sz ?r6)" using w2(4) unfolding sh sz6 .
          qed
          have kn: "known (r_cb ?r6) ls'" if "?d = items_bytes us'" "list_all2 fits_item us' (rdata_form tp)" "Name ls' \<in> set us'" "ls' \<noteq> []" "r_sz ?r6 \<le> 0x3fff" for us' ls'
          proof -
            from items_bytes_inj [OF that(2) d(1) that(1) [symmetric] rdata_form_Rest] that e(1) sz6 show ?thesis by (auto simp: emits_def)
          qed
          have lim: "section = S_ADDITIONAL \<longrightarrow> (\<forall>u. udp = Some u \<longrightarrow> r_sz ?r6 \<le> u)" unfolding sz6(1) using False by auto
          have "\<exists>w. r_body ?r6 = r_body r @ w" by simp
          moreover have "r_hdr ?r6 = count_section section (r_hdr r)" using m5(2) by simp
          moreover have "\<forall>us ls. rr_rdata ?rc = items_bytes us \<longrightarrow> list_all2 fits_item us (rdata_form (unat (rr_type ?rc))) \<longrightarrow> Name ls \<in> set us \<longrightarrow>
              ls \<noteq> [] \<longrightarrow> r_sz ?r6 \<le> 0x3fff \<longrightarrow> known (r_cb ?r6) ls"
            using kn unfolding rrec.simps t16 by blast
          ultimately have "rr_added section udp ?rc r ?r6" unfolding rr_added_def using rec lim by blast
          with run6 ok6 m5 show ?thesis by (intro exI [of _ True] exI [of _ ?r6]) simp
        qed
      qed
    qed
  qed
qed

subsection \<open>OPT pseudo records\<close>

definition opt_rec :: "16 word \<Rightarrow> 16 word \<Rightarrow> 16 word \<Rightarrow> 16 word \<Rightarrow> rrec" where
  "opt_rec udpsize rcode ednsver Zflags = \<lparr>rr_name = [], rr_type = of_nat T_OPT, rr_cls = udpsize,
     rr_ttl = push_bit 24 (ucast (ucast (drop_bit 4 rcode) :: byte)) OR push_bit 16 (ucast (ucast ednsver :: byte)) OR ucast Zflags,
     rr_rdata = []\<rparr>"

definition opt_bytes :: "16 word \<Rightarrow> 16 word \<Rightarrow> 16 word \<Rightarrow> 16 word \<Rightarrow> byte list" where
  "opt_bytes udpsize rcode ednsver Zflags =
     0 # be16 (of_nat T_OPT) @ be16 udpsize @ [ucast (drop_bit 4 rcode), ucast ednsver] @ be16 Zflags @ be16 0"

lemma wr_mid: "length a = p \<Longrightarrow> wr (a @ x # r) p v = Some (a @ v # r)"
  by (simp add: wr_def list_update_append)

lemma be32_opt: "be32 (push_bit 24 (ucast (a :: byte)) OR push_bit 16 (ucast (b :: byte)) OR ucast z) = [a, b] @ be16 z"
proof -
  have "z = push_bit 8 (ucast (ucast (drop_bit 8 z) :: byte)) OR ucast (ucast z :: byte)" by (rule word16_split [symmetric])
  then have "ucast z = (push_bit 8 (ucast (ucast (drop_bit 8 z) :: byte)) OR ucast (ucast z :: byte) :: 32 word)"
    by (intro bit_word_eqI) (auto simp: bit_simps dest: bit_imp_le_length)
  then show ?thesis using be32_bytes [of a b "ucast (drop_bit 8 z)" "ucast z"] by (simp add: be16_def or.assoc)
qed

lemma opt_put:
  assumes "length a = p" "length z = 11"
  shows "do { b \<leftarrow> wr (a @ z) p 0; (b, p) \<leftarrow> PUTINT16 (of_nat T_OPT) b (p + 1); (b, p) \<leftarrow> PUTINT16 udpsize b p;
     b \<leftarrow> wr b p (ucast (drop_bit 4 rcode)); b \<leftarrow> wr b (p + 1) (ucast ednsver); (b, p) \<leftarrow> PUTINT16 Zflags b (p + 2);
     (b, p) \<leftarrow> PUTINT16 0 b p; f b } = f (a @ opt_bytes udpsize rcode ednsver Zflags)"
proof -
  from assms(2) obtain z0 z1 z2 z3 z4 z5 z6 z7 z8 z9 z10 where z: "z = [z0, z1, z2, z3, z4, z5, z6, z7, z8, z9, z10]"
    by (auto simp: length_Suc_conv eval_nat_numeral)
  have m: "wrs (c @ x # y # r) q (be16 v) = Some (c @ be16 v @ r)" if "length c = q" for c x y r q v
    using wrs_mid [OF that, of "[x, y]" "be16 v" r] by simp
  have 1: "wr (a @ z) p 0 = Some (a @ 0 # tl z)" unfolding z by (simp add: wr_mid assms(1))
  have 2: "PUTINT16 t (a @ 0 # tl z) (p + 1) = Some (a @ 0 # be16 t @ drop 3 z, p + 3)" for t
    using m [of "a @ [0]" "p + 1" z1 z2 "drop 3 z" t] assms(1) by (simp add: PUTINT16_wrs z)
  have 3: "PUTINT16 t' (a @ 0 # be16 t @ drop 3 z) (p + 3) = Some (a @ 0 # be16 t @ be16 t' @ drop 5 z, p + 5)" for t t'
    using m [of "a @ 0 # be16 t" "p + 3" z3 z4 "drop 5 z" t'] assms(1) by (simp add: PUTINT16_wrs z)
  have 4: "wr (a @ 0 # be16 t @ be16 t' @ drop 5 z) (p + 5) x = Some (a @ 0 # be16 t @ be16 t' @ x # drop 6 z)" for t t' x
    using wr_mid [of "a @ 0 # be16 t @ be16 t'" "p + 5" z5 "drop 6 z" x] assms(1) by (simp add: z)
  have 5: "wr (a @ 0 # be16 t @ be16 t' @ x # drop 6 z) (p + 5 + 1) y = Some (a @ 0 # be16 t @ be16 t' @ x # y # drop 7 z)" for t t' x y
    using wr_mid [of "a @ 0 # be16 t @ be16 t' @ [x]" "p + 5 + 1" z6 "drop 7 z" y] assms(1) by (simp add: z)
  have 6: "PUTINT16 u (a @ 0 # be16 t @ be16 t' @ x # y # drop 7 z) (p + 5 + 2) = Some (a @ 0 # be16 t @ be16 t' @ x # y # be16 u @ drop 9 z, p + 9)" for t t' x y u
    using m [of "a @ 0 # be16 t @ be16 t' @ [x, y]" "p + 5 + 2" z7 z8 "drop 9 z" u] assms(1) by (simp add: PUTINT16_wrs z)
  have 7: "PUTINT16 v (a @ 0 # be16 t @ be16 t' @ x # y # be16 u @ drop 9 z) (p + 9) = Some (a @ 0 # be16 t @ be16 t' @ x # y # be16 u @ be16 v, p + 11)" for t t' x y u v
    using m [of "a @ 0 # be16 t @ be16 t' @ x # y # be16 u" "p + 9" z9 z10 "[]" v] assms(1) by (simp add: PUTINT16_wrs z)
  show ?thesis unfolding 1 Option.bind.simps prod.case 2 3 4 5 6 7 by (simp add: opt_bytes_def)
qed

lemma length_opt_bytes [simp]: "length (opt_bytes u rc v z) = 11"
  by (simp add: opt_bytes_def)

lemma add_opt_pseudo_rr_ok:
  assumes "reply_ok noname r"
  shows "\<exists>ok r'. add_opt_pseudo_rr u rc v z r = Some (ok, r') \<and> (\<not> ok \<longrightarrow> (\<exists>n. \<not> r_mem r n)) \<and>
    (ok \<longrightarrow> reply_ok noname r' \<and> mem_mono (r_mem r) (r_mem r') \<and> r_cb r' = r_cb r \<and>
       r_body r' = r_body r @ opt_bytes u rc v z \<and> r_hdr r' = count_section S_ADDITIONAL (r_hdr r) \<and>
       rec_at (shadow noname r') (r_sz r) (opt_rec u rc v z) (r_sz r'))"
proof (cases rule: ensure_size_cases [of "dnsmsghdroffset + r_sz r + sizeof_opt_pseudo_rr" r])
  case (fail r')
  then show ?thesis by (auto simp: add_opt_pseudo_rr_def)
next
  case (room a m)
  let ?b = "r_body r @ opt_bytes u rc v z"
  let ?r = "r\<lparr>r_alloc := a, r_mem := m, r_body := ?b, r_hdr := (r_hdr r)\<lparr>h_arcount := h_arcount (r_hdr r) + 1\<rparr>\<rparr>"
  have fits: "dnsmsghdroffset + r_sz r + 11 \<le> a" using room(2) by (simp add: msg_sizes)
  then have p: "put (replicate sizeof_opt_pseudo_rr 0) (r\<lparr>r_alloc := a, r_mem := m\<rparr>) = Some (r\<lparr>r_alloc := a, r_mem := m, r_body := r_body r @ replicate 11 0\<rparr>)"
    by (simp add: put_def r_sz_def msg_sizes)
  have run: "add_opt_pseudo_rr u rc v z r = Some (True, ?r)"
    unfolding add_opt_pseudo_rr_def room(1) Let_def prod.case not_True_eq_False if_False p Option.bind.simps
    using opt_put [of "r_body r" "length (r_body r)" "replicate 11 0" u rc v z] by simp
  have sh: "shadow noname ?r = shadow noname r @ opt_bytes u rc v z" by (simp add: shadow_def)
  have sz: "r_sz ?r = r_sz r + 11" "12 \<le> r_sz r" by (simp_all add: r_sz_def sizeof_dns_hdr_t_def)
  have ok: "reply_ok noname ?r" using assms fits cb_good_extend [of "shadow noname r" "r_cb r" "opt_bytes u rc v z"]
    using sz(2) by (simp only: reply_ok_def sh sz(1)) simp
  have "rd (shadow noname ?r) (r_sz r) = Some 0" unfolding sh using sz(2) by (simp add: rd_def nth_append opt_bytes_def)
  then have n: "nm_at (shadow noname ?r) (r_sz r) 1 []"
    unfolding nm_at_def by (intro exI [of _ 0]) (simp add: cname_0 wf_name_def DNSNAMEBUFSIZE_def)
  have b: "take 10 (drop (r_sz r + 1) (shadow noname ?r)) = be16 (of_nat T_OPT) @ be16 u @ be32 (rr_ttl (opt_rec u rc v z)) @ be16 0"
    unfolding sh using sz by (simp add: opt_bytes_def opt_rec_def be32_opt)
  have "rdata_form (unat (of_nat T_OPT :: 16 word)) = [Rest]" by (simp add: rdata_form_def t_consts rr_consts)
  then have "rec_at (shadow noname ?r) (r_sz r) (opt_rec u rc v z) (r_sz ?r)"
    unfolding rec_at_def using n b sz
    by (intro exI [of _ 1] exI [of _ "[]"] exI [of _ 0] exI [of _ "[Raw []]"]) (auto simp: opt_rec_def items_bytes_def)
  with run ok room(4) show ?thesis by (intro exI [of _ True] exI [of _ ?r]) (simp add: count_section_def)
qed

text \<open>Removing the OPT pseudo record added last restores the message.\<close>

lemma remove_opt_after:
  assumes "r_body r' = b @ opt_bytes u rc v z" "r_hdr r' = count_section S_ADDITIONAL h" "h_arcount h + 1 \<noteq> 0"
  shows "remove_opt_pseudo_rr r' = Some (sizeof_dns_hdr_t + length b, r'\<lparr>r_body := b, r_hdr := h\<rparr>)"
proof -
  have o: "rd (r_body r') (length b) = Some 0" using assms(1) by (simp add: rd_def opt_bytes_def)
  have g: "GETINT16 (r_body r') (length b + 1) = Some (of_nat T_OPT, length b + 1 + 2)"
    using GETINT16_be16 [of "b @ [0]" "length b + 1" "of_nat T_OPT"] assms(1) by (simp add: opt_bytes_def)
  have "unat (of_nat T_OPT :: 16 word) = T_OPT" by (simp add: t_consts)
  moreover have "h_arcount (r_hdr r') > 0" using assms(2,3) by (simp add: count_section_def word_gt_0)
  ultimately show ?thesis using assms(1,2) o g
    by (simp add: remove_opt_pseudo_rr_def r_sz_def msg_sizes sizeof_dns_hdr_t_def count_section_def)
qed

end
