(* ===== verification/Answer.thy ===== *)
theory Answer
  imports Reply Cache_Ops
begin

text \<open>
  Composing the answer to a query (\<^verbatim>\<open>compose_answer\<close> of \<^verbatim>\<open>dns_answer.c\<close> and what it calls).  The state is
  the message under construction, the list of the records already added (\<^verbatim>\<open>sva\<close>), the list of records
  for the other sections (\<^verbatim>\<open>ar\<close>), the cache, and the outside world: what the name servers will answer,
  the random numbers and the readings of the clock.  Resolving a name is an argument.
\<close>

record sva_t =
  sv_tp :: nat
  sv_nm :: "byte list"
  sv_data :: "byte list"

record rr_ext_t =
  re_tp :: nat
  re_tnm :: "byte list"
  re_nm :: "byte list"
  re_ttl :: "32 word"

definition RRETP_ADD :: nat where
  "RRETP_ADD = 0"

record 'w work =
  w_ans :: reply
  w_sva :: "sva_t list"
  w_ar :: "rr_ext_t list"
  w_cache :: cache
  w_net :: 'w
  w_rand :: "nat \<Rightarrow> nat"
  w_time :: "nat \<Rightarrow> int"

text \<open>Every step returns 0 on failure, upon which its caller returns 0 or gives up the message.\<close>

definition and_then :: "(bool \<times> 'w work) option \<Rightarrow> ('w work \<Rightarrow> (bool \<times> 'w work) option) \<Rightarrow> (bool \<times> 'w work) option" where
  "and_then x f = do { (ok, w) \<leftarrow> x; if ok then f w else Some (False, w) }"

primrec for_all :: "('a \<Rightarrow> 'w work \<Rightarrow> (bool \<times> 'w work) option) \<Rightarrow> 'a list \<Rightarrow> 'w work \<Rightarrow> (bool \<times> 'w work) option" where
  "for_all f [] w = Some (True, w)"
| "for_all f (x # xs) w = and_then (f x w) (for_all f xs)"

definition on_ans :: "(reply \<Rightarrow> (bool \<times> reply) option) \<Rightarrow> 'w work \<Rightarrow> (bool \<times> 'w work) option" where
  "on_ans f w = do { (ok, r) \<leftarrow> f (w_ans w); Some (ok, w\<lparr>w_ans := r\<rparr>) }"

text \<open>Growing one of the lists; a failure has freed it.\<close>

definition grow :: "'w work \<Rightarrow> bool \<times> 'w work" where
  "grow w = (let (ok, m) = malloc (r_mem (w_ans w)) in (ok, w\<lparr>w_ans := (w_ans w)\<lparr>r_mem := m\<rparr>\<rparr>))"

definition sva_add :: "byte list \<Rightarrow> nat \<Rightarrow> byte list \<Rightarrow> 'w work \<Rightarrow> (bool \<times> 'w work) option" where
  "sva_add rhn tp dat w = do {
     rlen \<leftarrow> rhnlen rhn;
     nm \<leftarrow> rds rhn 0 rlen;
     let (ok, w) = grow w;
     Some (ok, w\<lparr>w_sva := if ok then w_sva w @ [\<lparr>sv_tp = tp, sv_nm = nm, sv_data = dat\<rparr>] else []\<rparr>) }"

definition add_ar :: "nat \<Rightarrow> byte list \<Rightarrow> byte list \<Rightarrow> 32 word \<Rightarrow> 'w work \<Rightarrow> (bool \<times> 'w work) option" where
  "add_ar tp tnm nm ttl w = do {
     nm \<leftarrow> (if tp = T_NS \<or> tp = T_SOA then do { nmsz \<leftarrow> rhnlen nm; rds nm 0 nmsz } else Some []);
     let (ok, w) = grow w;
     Some (ok, w\<lparr>w_ar := if ok then w_ar w @ [\<lparr>re_tp = tp, re_tnm = tnm, re_nm = nm, re_ttl = ttl\<rparr>] else []\<rparr>) }"

definition ans_ttl :: "rr_set_t \<Rightarrow> int \<Rightarrow> int" where
  "ans_ttl rrset queryts = (let ttl = rs_ttl rrset in
     if \<not> has (rs_flags rrset) CF_LOCAL then
       let tpassed = queryts - rs_ts rrset;
           tpassed = (if tpassed < 0 then 0 else tpassed);
           ttl = ttl - tpassed
       in if ttl < 0 then 0 else ttl
     else ttl)"

definition follow_cname_chain :: "dns_cent_t \<Rightarrow> byte list \<Rightarrow> (bool \<times> byte list) option" where
  "follow_cname_chain c name = (case getrrset c T_CNAME of
     Some rrset \<Rightarrow> (case rs_rrs rrset of
         rr # _ \<Rightarrow> if \<not> length rr \<le> DNSNAMEBUFSIZE then None else do { name \<leftarrow> wrs name 0 rr; Some (True, name) }
       | [] \<Rightarrow> Some (False, name))
   | None \<Rightarrow> Some (False, name))"

subsection \<open>Sets of records\<close>

record ans_conf =
  ac_rnd_recs :: bool
  ac_udpbufsize :: "16 word"

text \<open>The order in which the records of a set are added: from a random one on, or as they are.\<close>

definition rr_order :: "ans_conf \<Rightarrow> byte list list \<Rightarrow> 'w work \<Rightarrow> byte list list \<times> 'w work" where
  "rr_order conf rrs w =
     (if ac_rnd_recs conf \<and> rrs \<noteq> [] then (rotate (w_rand w 0 mod length rrs) rrs, w\<lparr>w_rand := \<lambda>n. w_rand w (Suc n)\<rparr>)
      else (rrs, w))"

definition ar_recs :: "nat list" where
  "ar_recs = [T_NS, T_MD, T_MF, T_MB, T_MX, T_SRV]"

definition ar_offs :: "nat list" where
  "ar_offs = [0, 0, 0, 0, 2, 6]"

definition add_rrset_rr :: "byte list \<Rightarrow> nat \<Rightarrow> 32 word \<Rightarrow> nat option \<Rightarrow> byte list \<Rightarrow> 'w work \<Rightarrow> (bool \<times> 'w work) option" where
  "add_rrset_rr rrn tp ttl udp b w =
     and_then (on_ans (add_rr rrn tp ttl b S_ANSWER udp) w)
       (\<lambda>w. and_then (if tp = T_NS \<or> tp = T_A \<or> tp = T_AAAA then sva_add rrn tp b w else Some (True, w))
         (\<lambda>w. case map_of (zip ar_recs ar_offs) tp of None \<Rightarrow> Some (True, w)
           | Some off \<Rightarrow> do { tnm \<leftarrow> rds b off (length b - off); add_ar RRETP_ADD tnm [] 0 w }))"

definition add_rrset :: "ans_conf \<Rightarrow> byte list \<Rightarrow> nat \<Rightarrow> int \<Rightarrow> dns_cent_t \<Rightarrow> nat option \<Rightarrow> 'w work \<Rightarrow> (bool \<times> 'w work) option" where
  "add_rrset conf rrn tp queryts cached udp w = (case getrrset cached tp of None \<Rightarrow> Some (True, w)
     | Some crrset \<Rightarrow>
         let (bs, w) = rr_order conf (rs_rrs crrset) w in
         for_all (add_rrset_rr rrn tp (of_int (ans_ttl crrset queryts)) udp) bs w)"

definition add_to_response :: "ans_conf \<Rightarrow> byte list \<Rightarrow> nat \<Rightarrow> int \<Rightarrow> dns_cent_t \<Rightarrow> nat option \<Rightarrow> 'w work \<Rightarrow> (bool \<times> 'w work) option" where
  "add_to_response conf rrn qtype queryts cached udp w = (let add = (\<lambda>tp. add_rrset conf rrn tp queryts cached udp) in
     and_then (if qtype \<noteq> T_CNAME \<and> qtype \<noteq> QT_ALL \<and> \<not> (qtype \<ge> T_MIN \<and> qtype \<le> T_MAX \<and> have_rr cached qtype)
               then add T_CNAME w else Some (True, w))
       (\<lambda>w. if qtype = QT_AXFR \<or> qtype = QT_IXFR then Some (False, w)
            else if qtype = QT_MAILB then for_all add [T_MB, T_MG, T_MR] w
            else if qtype = QT_MAILA then for_all add [T_MD, T_MF] w
            else if qtype = QT_ALL then for_all add (take (NRRITERLIST cached) (RRITERLIST cached)) w
            else if qtype \<ge> T_MIN \<and> qtype \<le> T_MAX then add qtype w
            else Some (False, w)))"

subsection \<open>Additional records\<close>

primrec already_added :: "sva_t list \<Rightarrow> byte list \<Rightarrow> nat \<Rightarrow> byte list \<Rightarrow> bool option" where
  "already_added [] rhn tp dat = Some False"
| "already_added (st # sva) rhn tp dat =
     (if sv_tp st = tp then do {
        eq \<leftarrow> rhnicmp (sv_nm st) rhn;
        if eq \<and> sv_data st = dat then Some True else already_added sva rhn tp dat }
      else already_added sva rhn tp dat)"

definition add_additional_rr :: "byte list \<Rightarrow> nat \<Rightarrow> 32 word \<Rightarrow> section_t \<Rightarrow> nat option \<Rightarrow> byte list \<Rightarrow> 'w work \<Rightarrow> (bool \<times> 'w work) option" where
  "add_additional_rr rhn tp ttl sect udp dat w = do {
     dup \<leftarrow> already_added (w_sva w) rhn tp dat;
     if dup then Some (True, w)
     else and_then (on_ans (add_rr rhn tp ttl dat sect udp) w) (sva_add rhn tp dat) }"

definition add_additional_rrs :: "ans_conf \<Rightarrow> byte list \<Rightarrow> nat \<Rightarrow> 32 word \<Rightarrow> byte list list \<Rightarrow> section_t \<Rightarrow> nat option \<Rightarrow> 'w work \<Rightarrow>
    (bool \<times> 'w work) option" where
  "add_additional_rrs conf rhn tp ttl rrb sect udp w =
     (let (rrs, w) = rr_order conf rrb w in for_all (add_additional_rr rhn tp ttl sect udp) rrs w)"

definition time_now :: "'w work \<Rightarrow> int \<times> 'w work" where
  "time_now w = (w_time w 0, w\<lparr>w_time := \<lambda>n. w_time w (Suc n)\<rparr>)"

definition lookup :: "byte list \<Rightarrow> 'w work \<Rightarrow> (dns_cent_t option \<times> 'w work) option" where
  "lookup name w = do {
     let (now, w) = time_now w;
     (c, _, st) \<leftarrow> lookup_cache now name False (w_cache w);
     Some (c, w\<lparr>w_cache := st\<rparr>) }"

definition add_additional_set :: "ans_conf \<Rightarrow> byte list \<Rightarrow> int \<Rightarrow> nat option \<Rightarrow> dns_cent_t \<Rightarrow> nat \<Rightarrow> 'w work \<Rightarrow> (bool \<times> 'w work) option" where
  "add_additional_set conf rhn queryts udp ae tp w = (case getrrset ae tp of None \<Rightarrow> Some (True, w)
     | Some rrset \<Rightarrow> if rs_rrs rrset = [] then Some (True, w)
         else add_additional_rrs conf rhn tp (of_int (ans_ttl rrset queryts)) (rs_rrs rrset) S_ADDITIONAL udp w)"

definition add_additional_a :: "ans_conf \<Rightarrow> byte list \<Rightarrow> int \<Rightarrow> nat option \<Rightarrow> 'w work \<Rightarrow> (bool \<times> 'w work) option" where
  "add_additional_a conf rhn queryts udp w = do {
     (ae, w) \<leftarrow> lookup rhn w;
     case ae of None \<Rightarrow> Some (True, w)
     | Some ae \<Rightarrow> and_then (add_additional_set conf rhn queryts udp ae T_A w) (add_additional_set conf rhn queryts udp ae T_AAAA) }"

subsection \<open>The authority section\<close>

definition positive :: "rr_set_t option \<Rightarrow> rr_set_t option" where
  "positive rrset = (case rrset of None \<Rightarrow> None | Some s \<Rightarrow> if has (rs_flags s) CF_NEGATIVE then None else Some s)"

definition nothing_asked :: "nat \<Rightarrow> dns_cent_t \<Rightarrow> bool" where
  "nothing_asked qtype cached \<longleftrightarrow> (qtype \<ge> T_MIN \<and> qtype \<le> T_MAX \<and> \<not> have_rr cached qtype) \<or>
     (qtype = QT_MAILB \<and> \<not> have_rr cached T_MB \<and> \<not> have_rr cached T_MG \<and> \<not> have_rr cached T_MR) \<or>
     (qtype = QT_MAILA \<and> \<not> have_rr cached T_MD \<and> \<not> have_rr cached T_MF)"

text \<open>
  The set to be announced in the authority section and its owner: that of the entry, of the name that the
  references of the entry lead to, or of the closest local ancestor.
\<close>

definition authority_above :: "nat \<Rightarrow> dns_cent_t \<Rightarrow> 'w work \<Rightarrow> ((rr_set_t \<times> byte list) option \<times> 'w work) option" where
  "authority_above rretp prev w = do {
     scnt \<leftarrow> rhnsegcnt (ce_qname prev);
     let tcnt = (if rretp = T_NS then c_ns prev else c_soa prev);
     k \<leftarrow> (if tcnt \<noteq> cundef \<and> unat tcnt < scnt then skipsegs (ce_qname prev) 0 (scnt - unat tcnt) else Some 0);
     (cached, w) \<leftarrow> lookup (drop k (ce_qname prev)) w;
     let rrset = (case cached of None \<Rightarrow> None | Some c \<Rightarrow> map_option (\<lambda>s. (s, ce_qname c)) (positive (getrrset c rretp)));
     if rrset = None \<and> has (ce_flags prev) DF_LOCAL then do {
       nm \<leftarrow> getlocalowner (ce_qname prev) rretp (w_cache w);
       case nm of None \<Rightarrow> Some (None, w)
       | Some k \<Rightarrow> do {
           (cached, w) \<leftarrow> lookup (drop k (ce_qname prev)) w;
           Some (case cached of None \<Rightarrow> None | Some c \<Rightarrow> map_option (\<lambda>s. (s, ce_qname c)) (getrrset c rretp), w) } }
     else Some (rrset, w) }"

definition add_authority :: "nat \<Rightarrow> int \<Rightarrow> dns_cent_t \<Rightarrow> 'w work \<Rightarrow> (bool \<times> 'w work) option" where
  "add_authority qtype queryts cached w = do {
     let rretp = (if nothing_asked qtype cached then T_SOA else T_NS);
     (rrset, w) \<leftarrow> (case positive (getrrset cached rretp) of
         Some s \<Rightarrow> Some (Some (s, ce_qname cached), w)
       | None \<Rightarrow> authority_above rretp cached w);
     case rrset of None \<Rightarrow> Some (True, w)
     | Some (s, nm) \<Rightarrow> for_all (\<lambda>d. add_ar rretp d nm (of_int (ans_ttl s queryts))) (rs_rrs s) w }"

subsection \<open>One question\<close>

record dns_queryel_t =
  qe_type :: "16 word"
  qe_class :: "16 word"
  qe_query :: "byte list"

text \<open>A question in the answer section of a message: \<open>Inr\<close> when the chain of aliases has been followed, \<open>Inl\<close> the code of an error.\<close>

type_synonym 'w resolver = "byte list \<Rightarrow> nat \<Rightarrow> int \<Rightarrow> 'w \<Rightarrow> cache \<Rightarrow> (rc \<times> dns_cent_t option \<times> byte \<times> 'w \<times> cache) option"

definition MAX_HOPS :: nat where
  "MAX_HOPS = 20"

definition follows :: "bool \<Rightarrow> nat \<Rightarrow> dns_cent_t \<Rightarrow> bool" where
  "follows recur qtype cached \<longleftrightarrow> recur \<and> qtype \<noteq> T_CNAME \<and> qtype \<noteq> QT_ALL \<and> \<not> (qtype \<ge> T_MIN \<and> qtype \<le> T_MAX \<and> have_rr cached qtype)"

primrec answer_chain :: "nat \<Rightarrow> 'w resolver \<Rightarrow> ans_conf \<Rightarrow> bool \<Rightarrow> nat \<Rightarrow> int \<Rightarrow> nat option \<Rightarrow> byte list \<Rightarrow> bool \<Rightarrow> 'w work \<Rightarrow>
    (bool \<times> (rc \<times> byte list \<times> byte) option \<times> bool \<times> 'w work) option" where
  "answer_chain 0 resolve conf recur qtype queryts udp qname aa w = Some (True, None, aa, w)"
| "answer_chain (Suc hops) resolve conf recur qtype queryts udp qname aa w = do {
     (rc, cached, soa, net, st) \<leftarrow> resolve qname qtype queryts (w_net w) (w_cache w);
     let w = w\<lparr>w_net := net, w_cache := st\<rparr>;
     if rc \<noteq> RC_OK then Some (True, Some (rc, qname, soa), aa, w)
     else do {
       cached \<leftarrow> cached;
       let aa = (aa \<and> has (ce_flags cached) DF_LOCAL);
       (ok, w) \<leftarrow> add_to_response conf qname qtype queryts cached udp w;
       if \<not> ok then Some (False, None, aa, w)
       else do {
         (follow, qname) \<leftarrow> (if follows recur qtype cached then follow_cname_chain cached qname else Some (False, qname));
         if follow then answer_chain hops resolve conf recur qtype queryts udp qname aa w
         else do {
           (ok, w) \<leftarrow> add_authority qtype queryts cached w;
           Some (ok, None, aa, w) } } } }"

primrec answer_questions :: "dns_queryel_t list \<Rightarrow> 'w resolver \<Rightarrow> ans_conf \<Rightarrow> bool \<Rightarrow> int \<Rightarrow> nat option \<Rightarrow> bool \<Rightarrow> 'w work \<Rightarrow>
    (bool \<times> (rc \<times> byte list \<times> byte) option \<times> bool \<times> 'w work) option" where
  "answer_questions [] resolve conf recur queryts udp aa w = Some (True, None, aa, w)"
| "answer_questions (qe # ql) resolve conf recur queryts udp aa w = do {
     (qname, _) \<leftarrow> rhncpy (replicate DNSNAMEBUFSIZE 0) (qe_query qe);
     (ok, err, aa, w) \<leftarrow> answer_chain (MAX_HOPS + 1) resolve conf recur (unat (qe_type qe)) queryts udp qname aa w;
     if \<not> ok \<or> err \<noteq> None then Some (ok, err, aa, w)
     else answer_questions ql resolve conf recur queryts udp aa w }"

subsection \<open>The message as a whole\<close>

definition add_question :: "dns_queryel_t \<Rightarrow> 'w work \<Rightarrow> (bool \<times> 'w work) option" where
  "add_question qe w = do {
     let r = w_ans w;
     n \<leftarrow> rhnlen (qe_query qe);
     let (ok, r) = ensure_size (dnsmsghdroffset + r_sz r + n + 4) r;
     if \<not> ok then Some (False, w\<lparr>w_ans := r\<rparr>)
     else do {
       (qclen, r) \<leftarrow> put_name (qe_query qe) r;
       if qclen = None then Some (False, w\<lparr>w_ans := r\<rparr>)
       else do {
         r \<leftarrow> put (be16 (qe_type qe)) r;
         r \<leftarrow> put (be16 (qe_class qe)) r;
         Some (True, w\<lparr>w_ans := r\<lparr>r_hdr := (r_hdr r)\<lparr>h_qdcount := h_qdcount (r_hdr r) + 1\<rparr>\<rparr>\<rparr>) } } }"

definition cannot_answer :: "dns_queryel_t \<Rightarrow> bool" where
  "cannot_answer qe \<longleftrightarrow> (let qtype = unat (qe_type qe); qclass = unat (qe_class qe) in
     (PDNSD_NOT_CACHED_TYPE qtype \<and> qtype \<noteq> QT_MAILB \<and> qtype \<noteq> QT_MAILA \<and> qtype \<noteq> QT_ALL) \<or>
     (qclass \<noteq> C_IN \<and> qclass \<noteq> QC_ALL))"

definition set_rcode :: "rc \<Rightarrow> 'w work \<Rightarrow> 'w work" where
  "set_rcode rc w = w\<lparr>w_ans := (w_ans w)\<lparr>r_hdr := (r_hdr (w_ans w))\<lparr>h_rcode := of_nat (rc_num rc)\<rparr>\<rparr>\<rparr>"

definition add_opt :: "ans_conf \<Rightarrow> bool \<Rightarrow> rc \<Rightarrow> 'w work \<Rightarrow> (bool \<times> 'w work) option" where
  "add_opt conf edns rc w =
     (if edns then on_ans (add_opt_pseudo_rr (ac_udpbufsize conf) (of_nat (rc_num rc)) 0 0) w else Some (True, w))"

text \<open>A name that does not exist: its SOA record goes to the authority section.\<close>

definition add_soa :: "byte list \<Rightarrow> byte \<Rightarrow> int \<Rightarrow> nat option \<Rightarrow> 'w work \<Rightarrow> (bool \<times> 'w work) option" where
  "add_soa qname soa queryts udp w =
     (if soa = cundef then Some (True, w)
      else do {
        scnt \<leftarrow> rhnsegcnt qname;
        if \<not> unat soa < scnt then Some (True, w)
        else do {
          k \<leftarrow> skipsegs qname 0 (scnt - unat soa);
          (cached, w) \<leftarrow> lookup (drop k qname) w;
          case cached of None \<Rightarrow> Some (True, w)
          | Some c \<Rightarrow> (case positive (getrrset c T_SOA) of None \<Rightarrow> Some (True, w)
              | Some s \<Rightarrow> for_all (\<lambda>d. on_ans (add_rr (ce_qname c) T_SOA (of_int (ans_ttl s queryts)) d S_AUTHORITY udp)) (rs_rrs s) w) } })"

definition add_auth_section :: "nat option \<Rightarrow> 'w work \<Rightarrow> (bool \<times> 'w work) option" where
  "add_auth_section udp w = for_all (\<lambda>rre. if re_tp rre = T_NS \<or> re_tp rre = T_SOA
     then add_additional_rr (re_nm rre) (re_tp rre) (re_ttl rre) S_AUTHORITY udp (re_tnm rre) else (\<lambda>w. Some (True, w))) (w_ar w) w"

definition add_addl_section :: "ans_conf \<Rightarrow> bool \<Rightarrow> int \<Rightarrow> nat option \<Rightarrow> rc \<Rightarrow> 'w work \<Rightarrow> (bool \<times> 'w work) option" where
  "add_addl_section conf edns queryts udp rc w =
     (if (case udp of None \<Rightarrow> False | Some u \<Rightarrow> r_sz (w_ans w) + sizeof_opt_pseudo_rr > u) then Some (True, w)
      else and_then (add_opt conf edns rc w) (\<lambda>w. for_all (\<lambda>rre. if re_tp rre = T_NS \<or> re_tp rre = RRETP_ADD
        then add_additional_a conf (re_tnm rre) queryts udp else (\<lambda>w. Some (True, w))) (w_ar w) w))"

definition start_hdr :: "dns_hdr_t \<Rightarrow> dns_hdr_t" where
  "start_hdr hdr = \<lparr>h_id = h_id hdr, h_rd = h_rd hdr, h_tc = False, h_aa = False, h_opcode = 0, h_qr = True, h_rcode = 0,
     h_cd = False, h_ad = False, h_z = False, h_ra = True, h_qdcount = 0, h_ancount = 0, h_nscount = 0, h_arcount = 0\<rparr>"

definition ALLOCINITIALSIZE :: nat where
  "ALLOCINITIALSIZE = 256"

text \<open>The result says whether there is a message; its code is that of the answer.\<close>

definition compose_answer :: "'w resolver \<Rightarrow> ans_conf \<Rightarrow> dns_queryel_t list \<Rightarrow> dns_hdr_t \<Rightarrow> bool \<Rightarrow> nat option \<Rightarrow> 'w work \<Rightarrow>
    (bool \<times> rc \<times> 'w work) option" where
  "compose_answer resolve conf ql hdr edns udp w = do {
     let (queryts, w) = time_now w;
     let (ok, m) = malloc (r_mem (w_ans w));
     let w = w\<lparr>w_ans := \<lparr>r_hdr = start_hdr hdr, r_body = [], r_alloc = ALLOCINITIALSIZE, r_cb = [], r_mem = m\<rparr>, w_sva := [], w_ar := []\<rparr>;
     if \<not> ok then Some (False, RC_OK, w)
     else do {
       (ok, w) \<leftarrow> for_all add_question ql w;
       if \<not> ok then Some (False, RC_OK, w)
       else if list_ex cannot_answer ql then Some (True, RC_NOTSUPP, set_rcode RC_NOTSUPP w)
       else do {
         (ok, err, aa, w) \<leftarrow> answer_questions ql resolve conf (h_rd hdr) queryts udp True w;
         if \<not> ok then Some (False, RC_OK, w)
         else case err of
           Some (rc, qname, soa) \<Rightarrow> do {
             (ok, w) \<leftarrow> (if rc = RC_NAMEERR
                then and_then (add_soa qname soa queryts udp (set_rcode rc w)) (add_opt conf edns rc)
                else Some (True, set_rcode rc w));
             Some (ok, rc, w) }
         | None \<Rightarrow> do {
             (ok, w) \<leftarrow> and_then (add_auth_section udp w) (add_addl_section conf edns queryts udp RC_OK);
             Some (ok, RC_OK, if aa then w\<lparr>w_ans := (w_ans w)\<lparr>r_hdr := (r_hdr (w_ans w))\<lparr>h_aa := True\<rparr>\<rparr>\<rparr> else w) } } } }"

end
