(* ===== verification/Queries.thy ===== *)
theory Queries
  imports Answer
begin

text \<open>
  Analysing a query and replying to it (\<^verbatim>\<open>decode_query\<close>, \<^verbatim>\<open>decode_query_additional\<close>, \<^verbatim>\<open>mk_error_reply\<close> and
  \<^verbatim>\<open>process_query\<close> of \<^verbatim>\<open>dns_answer.c\<close>).  The datagram is any sequence of bytes.
\<close>

definition UDP_BUFSIZE :: nat where
  "UDP_BUFSIZE = 512"

definition OP_QUERY :: "4 word" where
  "OP_QUERY = 0"

definition QR_QUERY :: bool where
  "QR_QUERY = False"

definition QR_RESP :: bool where
  "QR_RESP = True"

text \<open>The questions: the place behind them, the bytes that remain there, the list and the state of the memory.\<close>

primrec decode_query_loop :: "nat \<Rightarrow> byte list \<Rightarrow> nat \<Rightarrow> nat \<Rightarrow> dns_queryel_t list \<Rightarrow> alloc \<Rightarrow>
    (rc \<times> nat \<times> nat \<times> dns_queryel_t list \<times> alloc) option" where
  "decode_query_loop 0 dat p sz qp alc = Some (RC_OK, p, sz, qp, alc)"
| "decode_query_loop (Suc n) dat p sz qp alc = do {
     (res, p, sz, qbuf, qlen) \<leftarrow> decompress_name dat (length dat) p sz (replicate DNSNAMEBUFSIZE 0);
     if res = RC_TRUNC then Some (RC_TRUNC, p, sz, qp, alc)
     else if res \<noteq> RC_OK then Some (res, p, sz, [], alc)
     else if sz < 4 then Some (RC_TRUNC, p, sz, qp, alc)
     else do {
       let (ok, alc) = malloc alc;
       if \<not> ok then Some (RC_SERVFAIL, p, sz, [], alc)
       else do {
         (qtype, p) \<leftarrow> GETINT16 dat p;
         (qclass, p) \<leftarrow> GETINT16 dat p;
         qlen \<leftarrow> qlen;
         query \<leftarrow> rds qbuf 0 qlen;
         decode_query_loop n dat p (sz - 4) (qp @ [\<lparr>qe_type = qtype, qe_class = qclass, qe_query = query\<rparr>]) alc } } }"

definition decode_query :: "byte list \<Rightarrow> alloc \<Rightarrow> (rc \<times> nat \<times> nat \<times> dns_queryel_t list \<times> alloc) option" where
  "decode_query dat alc = do {
     h \<leftarrow> get_hdr dat;
     decode_query_loop (unat (h_qdcount h)) dat sizeof_dns_hdr_t (length dat - sizeof_dns_hdr_t) [] alc }"

primrec decode_query_additional :: "nat \<Rightarrow> byte list \<Rightarrow> nat \<Rightarrow> nat \<Rightarrow> nat \<Rightarrow> edns_info_t \<Rightarrow> (rc \<times> nat \<times> edns_info_t) option" where
  "decode_query_additional 0 dat p sz numopt ep = Some (RC_OK, numopt, ep)"
| "decode_query_additional (Suc n) dat p sz numopt ep = do {
     (res, p, sz, nmbuf, _) \<leftarrow> decompress_name dat (length dat) p sz (replicate DNSNAMEBUFSIZE 0);
     if res \<noteq> RC_OK then Some (res, numopt, ep)
     else if sz < sizeof_rr_hdr_t then Some (RC_TRUNC, numopt, ep)
     else do {
       let sz = sz - sizeof_rr_hdr_t;
       (tp, p) \<leftarrow> GETINT16 dat p;
       (cls, p) \<leftarrow> GETINT16 dat p;
       let ttlp = p;
       (rdlen, p) \<leftarrow> GETINT16 dat (p + 4);
       if sz < unat rdlen then Some (RC_TRUNC, numopt, ep)
       else do {
         ep' \<leftarrow> (if unat tp = T_OPT \<and> numopt = 0 then edns_info dat ttlp cls else Some ep);
         decode_query_additional n dat (p + unat rdlen) (sz - unat rdlen) (if unat tp = T_OPT then numopt + 1 else numopt) ep' } } }"

definition mk_error_reply :: "16 word \<Rightarrow> 4 word \<Rightarrow> rc \<Rightarrow> dns_hdr_t" where
  "mk_error_reply i op rescode = \<lparr>h_id = i, h_rd = False, h_tc = False, h_aa = False, h_opcode = op, h_qr = QR_RESP,
     h_rcode = of_nat (rc_num rescode), h_cd = False, h_ad = False, h_z = False, h_ra = True,
     h_qdcount = 0, h_ancount = 0, h_nscount = 0, h_arcount = 0\<rparr>"

text \<open>The reply, the limit for datagrams, the response code if one is reported, and the state.\<close>

type_synonym 'w processed = "reply option \<times> nat option \<times> rc option \<times> 'w work"

text \<open>
  The tail of \<^verbatim>\<open>process_query\<close> at the label \<^verbatim>\<open>error_reply\<close>: it reads the id of the query, and the opcode when the
  message reaches as far.
\<close>

definition error_reply :: "ans_conf \<Rightarrow> byte list \<Rightarrow> nat option \<Rightarrow> rc \<Rightarrow> 'w work \<Rightarrow> 'w processed option" where
  "error_reply conf dat udp res w = do {
     let ext = (rc_num res \<ge> 16);
     let allocsz = dnsmsghdroffset + sizeof_dns_hdr_t + (if ext then sizeof_opt_pseudo_rr else 0);
     let (ok, m) = malloc (r_mem (w_ans w));
     let w = w\<lparr>w_ans := (w_ans w)\<lparr>r_mem := m\<rparr>\<rparr>;
     if \<not> ok then Some (None, udp, Some res, w)
     else do {
       (i, _) \<leftarrow> GETINT16 dat 0;
       op \<leftarrow> (if length dat \<ge> 3 then map_option (\<lambda>b. ucast (drop_bit 3 b)) (rd dat 2) else Some OP_QUERY);
       let r = \<lparr>r_hdr = mk_error_reply i op res, r_body = [], r_alloc = allocsz, r_cb = [], r_mem = m\<rparr>;
       if ext then do {
         (_, r) \<leftarrow> add_opt_pseudo_rr (ac_udpbufsize conf) (of_nat (rc_num res)) 0 0 r;
         Some (Some r, udp, Some res, w\<lparr>w_ans := r\<rparr>) }
       else Some (Some r, udp, Some res, w\<lparr>w_ans := r\<rparr>) } }"

definition no_edns :: edns_info_t where
  "no_edns = \<lparr>ed_udpsize = 0, ed_rcode = 0, ed_version = 0, ed_do_flg = False\<rparr>"

text \<open>Once the query is understood: its questions, whether it has an OPT record, and the limit.\<close>

definition process_questions :: "'w resolver \<Rightarrow> ans_conf \<Rightarrow> byte list \<Rightarrow> dns_hdr_t \<Rightarrow> dns_queryel_t list \<Rightarrow> bool \<Rightarrow> nat option \<Rightarrow> 'w work \<Rightarrow>
    'w processed option" where
  "process_questions resolve conf dat hdr ql edns udp w =
     (if ql = [] then error_reply conf dat udp RC_FORMAT w
      else do {
        (ok, rc, w) \<leftarrow> compose_answer resolve conf ql hdr edns udp w;
        if \<not> ok then error_reply conf dat udp RC_SERVFAIL w
        else Some (Some (w_ans w), udp, Some rc, w) })"

definition process_additional :: "'w resolver \<Rightarrow> ans_conf \<Rightarrow> byte list \<Rightarrow> dns_hdr_t \<Rightarrow> dns_queryel_t list \<Rightarrow> nat \<Rightarrow> nat \<Rightarrow> nat option \<Rightarrow> 'w work \<Rightarrow>
    'w processed option" where
  "process_additional resolve conf dat hdr ql p sz udp w = do {
     (res, numoptrr, ednsinfo) \<leftarrow> decode_query_additional (unat (h_arcount hdr)) dat p sz 0 no_edns;
     if \<not> (res = RC_OK \<or> res = RC_TRUNC \<and> h_tc hdr) then error_reply conf dat udp RC_FORMAT w
     else if numoptrr \<noteq> 0 then
       if ed_version ednsinfo \<noteq> 0 then error_reply conf dat udp RC_BADVERS w
       else if ed_rcode ednsinfo \<noteq> 0 then error_reply conf dat udp RC_FORMAT w
       else process_questions resolve conf dat hdr ql True
         (case udp of None \<Rightarrow> None
          | Some u \<Rightarrow> if unat (ed_udpsize ednsinfo) > UDP_BUFSIZE
              then Some (if unat (ac_udpbufsize conf) > unat (ed_udpsize ednsinfo) then unat (ed_udpsize ednsinfo) else unat (ac_udpbufsize conf))
              else Some u) w
     else process_questions resolve conf dat hdr ql False udp w }"

definition process_query :: "'w resolver \<Rightarrow> ans_conf \<Rightarrow> byte list \<Rightarrow> nat option \<Rightarrow> 'w work \<Rightarrow> 'w processed option" where
  "process_query resolve conf dat udp w =
     (if length dat < 2 then Some (None, udp, None, w)
      else if length dat < sizeof_dns_hdr_t then error_reply conf dat udp RC_FORMAT w
      else do {
        hdr \<leftarrow> get_hdr dat;
        if h_qr hdr \<noteq> QR_QUERY then Some (None, udp, None, w)
        else if h_opcode hdr \<noteq> OP_QUERY then error_reply conf dat udp RC_NOTSUPP w
        else if h_z hdr then error_reply conf dat udp RC_FORMAT w
        else if h_rcode hdr \<noteq> of_nat (rc_num RC_OK) then Some (None, udp, None, w)
        else if h_ancount hdr \<noteq> 0 then error_reply conf dat udp RC_FORMAT w
        else if h_nscount hdr \<noteq> 0 then error_reply conf dat udp RC_FORMAT w
        else do {
          (res, p, sz, ql, m) \<leftarrow> decode_query dat (r_mem (w_ans w));
          let w = w\<lparr>w_ans := (w_ans w)\<lparr>r_mem := m\<rparr>\<rparr>;
          if res \<noteq> RC_OK \<and> res \<noteq> RC_TRUNC then error_reply conf dat udp res w
          else if res = RC_TRUNC \<and> (\<not> h_tc hdr \<or> ql = []) then error_reply conf dat udp RC_FORMAT w
          else if h_arcount hdr \<noteq> 0 then
            if res = RC_TRUNC then error_reply conf dat udp RC_FORMAT w
            else process_additional resolve conf dat hdr ql p sz udp w
          else process_questions resolve conf dat hdr ql False udp w } })"

end
