(* ===== verification/Answer_Ok.thy ===== *)
theory Answer_Ok
  imports Answer Cache_Lookup
begin

text \<open>
  Correctness of the answers.  The first part is a small calculus for steps that may fail for lack of memory;
  then come the invariant of the state, the contents of the message, and the steps of \<^verbatim>\<open>Answer\<close> one by one.
\<close>

subsection \<open>Steps\<close>

text \<open>
  What only grows while a message is composed, the compression buffer and the size, and what stays as it is, the
  header but for the counts.
\<close>

definition uncounted :: "dns_hdr_t \<Rightarrow> dns_hdr_t" where
  "uncounted h = h\<lparr>h_qdcount := 0, h_ancount := 0, h_nscount := 0, h_arcount := 0\<rparr>"

lemma uncounted_count [simp]: "uncounted (count_section sn h) = uncounted h" "uncounted (h\<lparr>h_qdcount := q\<rparr>) = uncounted h"
  by (cases sn) (simp_all add: uncounted_def count_section_def)

definition grows :: "reply \<Rightarrow> reply \<Rightarrow> bool" where
  "grows r r' \<longleftrightarrow> set (r_cb r) \<subseteq> set (r_cb r') \<and> r_sz r \<le> r_sz r' \<and> mem_mono (r_mem r) (r_mem r') \<and>
     uncounted (r_hdr r') = uncounted (r_hdr r)"

text \<open>Valid data: of the form that belongs to the type, and not longer than a record can be; an address has four bytes.\<close>

definition data_ok :: "nat \<Rightarrow> byte list \<Rightarrow> bool" where
  "data_ok tp d \<longleftrightarrow> rdata_ok tp d \<and> length d < 65536 \<and> (tp = T_A \<longrightarrow> length d = 4)"

definition cent_data_ok :: "dns_cent_t \<Rightarrow> bool" where
  "cent_data_ok c \<longleftrightarrow> (\<forall>tp s d. getrrset c tp = Some s \<longrightarrow> d \<in> set (rs_rrs s) \<longrightarrow> data_ok tp d)"

definition cache_good :: "cache \<Rightarrow> bool" where
  "cache_good st \<longleftrightarrow> cache_ok st \<and> insert_sort st \<and> (\<forall>p c. heap st p = Some c \<longrightarrow> cent_data_ok c)"

text \<open>The step is never stuck and keeps the cache good; it fails only for lack of memory and otherwise establishes \<open>Q\<close>.\<close>

definition step_ok :: "'w work \<Rightarrow> ('w work \<Rightarrow> bool) \<Rightarrow> (bool \<times> 'w work) option \<Rightarrow> bool" where
  "step_ok w Q x \<longleftrightarrow> (\<exists>ok w'. x = Some (ok, w') \<and> w_net w' = w_net w \<and> (cache_good (w_cache w) \<longrightarrow> cache_good (w_cache w')) \<and>
     (if ok then grows (w_ans w) (w_ans w') \<and> Q w' else \<exists>n. \<not> r_mem (w_ans w) n))"

lemma grows_refl [simp]: "grows r r"
  by (simp add: grows_def)

lemma grows_trans: "grows a b \<Longrightarrow> grows b c \<Longrightarrow> grows a c"
  using mem_mono_trans by (auto simp: grows_def)

lemma step_ok_same: "step_ok w1 Q x \<Longrightarrow> w_ans w1 = w_ans w \<Longrightarrow> w_net w1 = w_net w \<Longrightarrow> (cache_good (w_cache w) \<Longrightarrow> cache_good (w_cache w1)) \<Longrightarrow> step_ok w Q x"
  unfolding step_ok_def by (elim exE conjE, rename_tac ok w', case_tac ok) auto

lemma step_ok_fail: "\<exists>n. \<not> r_mem (w_ans w) n \<Longrightarrow> w_net w' = w_net w \<Longrightarrow> w_cache w' = w_cache w \<Longrightarrow> step_ok w Q (Some (False, w'))"
  unfolding step_ok_def by (intro exI [of _ False] exI [of _ w']) simp

lemma step_ok_Some: "Q w \<Longrightarrow> step_ok w Q (Some (True, w))"
  unfolding step_ok_def by (intro exI [of _ True] exI [of _ w]) simp

lemma step_ok_conseq: "step_ok w Q x \<Longrightarrow> (\<And>w'. grows (w_ans w) (w_ans w') \<Longrightarrow> Q w' \<Longrightarrow> R w') \<Longrightarrow> step_ok w R x"
  unfolding step_ok_def by (elim exE conjE, rename_tac ok w', case_tac ok) auto

lemma step_ok_and_then:
  assumes "step_ok w Q x" "\<And>w'. grows (w_ans w) (w_ans w') \<Longrightarrow> Q w' \<Longrightarrow> step_ok w' R (f w')"
  shows "step_ok w R (and_then x f)"
proof -
  from assms(1) obtain ok w' where x: "x = Some (ok, w')" "w_net w' = w_net w" "cache_good (w_cache w) \<longrightarrow> cache_good (w_cache w')" "if ok then grows (w_ans w) (w_ans w') \<and> Q w' else \<exists>n. \<not> r_mem (w_ans w) n"
    by (auto simp: step_ok_def)
  show ?thesis
  proof (cases ok)
    case True
    with x assms(2) have g: "grows (w_ans w) (w_ans w')" "step_ok w' R (f w')" by auto
    then obtain ok2 w2 where f: "f w' = Some (ok2, w2)" "w_net w2 = w_net w'" "cache_good (w_cache w') \<longrightarrow> cache_good (w_cache w2)"
      "if ok2 then grows (w_ans w') (w_ans w2) \<and> R w2 else \<exists>n. \<not> r_mem (w_ans w') n" by (auto simp: step_ok_def)
    with g grows_trans [of "w_ans w" "w_ans w'" "w_ans w2"] mem_mono_lack [of "r_mem (w_ans w)" "r_mem (w_ans w')"] x True
    show ?thesis by (cases ok2) (auto simp: step_ok_def and_then_def grows_def)
  next
    case False
    with x show ?thesis by (auto simp: step_ok_def and_then_def)
  qed
qed

text \<open>A loop, with an invariant that depends on the elements seen so far.\<close>

lemma step_ok_for_all:
  assumes "\<And>pre x post w. xs = pre @ x # post \<Longrightarrow> I pre w \<Longrightarrow> step_ok w (I (pre @ [x])) (f x w)" "I [] w"
  shows "step_ok w (I xs) (for_all f xs w)"
proof -
  have "step_ok w (I xs) (for_all f post w)" if "xs = pre @ post" "I pre w" for pre post w
    using that
  proof (induction post arbitrary: pre w)
    case Nil
    then show ?case by (simp add: step_ok_Some)
  next
    case (Cons x post)
    show ?case unfolding for_all.simps
      by (rule step_ok_and_then [OF assms(1) [OF Cons.prems]]) (rule Cons.IH, use Cons.prems(1) in simp_all)
  qed
  from this [of "[]"] assms(2) show ?thesis by simp
qed

subsection \<open>The invariant\<close>

text \<open>A name that will be compressed as a whole, or the message is beyond the reach of pointers already.\<close>

definition kn :: "reply \<Rightarrow> byte list list \<Rightarrow> bool" where
  "kn r ls \<longleftrightarrow> ls = [] \<or> known (r_cb r) ls \<or> r_sz r > 0x3fff"

definition sva_ok :: "reply \<Rightarrow> sva_t \<Rightarrow> bool" where
  "sva_ok r s \<longleftrightarrow> (\<exists>ls. wf_name ls \<and> sv_nm s = enc ls) \<and> (sv_tp s = T_NS \<longrightarrow> (\<forall>ls. wf_name ls \<and> sv_data s = enc ls \<longrightarrow> kn r ls))"

definition ar_ok :: "reply \<Rightarrow> rr_ext_t \<Rightarrow> bool" where
  "ar_ok r e \<longleftrightarrow> re_tp e \<in> {RRETP_ADD, T_NS, T_SOA} \<and>
     (re_tp e = RRETP_ADD \<longrightarrow> (\<exists>ls. wf_name ls \<and> re_tnm e = enc ls \<and> kn r ls)) \<and>
     (re_tp e = T_NS \<or> re_tp e = T_SOA \<longrightarrow> data_ok (re_tp e) (re_tnm e) \<and> (\<exists>ls. wf_name ls \<and> re_nm e = enc ls))"

definition work_ok :: "'w work \<Rightarrow> bool" where
  "work_ok w \<longleftrightarrow> reply_ok noname (w_ans w) \<and> cache_good (w_cache w) \<and>
     list_all (sva_ok (w_ans w)) (w_sva w) \<and> list_all (ar_ok (w_ans w)) (w_ar w)"

lemma kn_grows: "grows r r' \<Longrightarrow> kn r ls \<Longrightarrow> kn r' ls"
  using known_mono by (auto simp: kn_def grows_def)

lemma sva_ok_grows: "grows r r' \<Longrightarrow> sva_ok r s \<Longrightarrow> sva_ok r' s"
  unfolding sva_ok_def using kn_grows by blast

lemma ar_ok_grows: "grows r r' \<Longrightarrow> ar_ok r e \<Longrightarrow> ar_ok r' e"
  unfolding ar_ok_def using kn_grows by blast

lemma work_ok_ans: "work_ok w \<Longrightarrow> grows (w_ans w) r \<Longrightarrow> reply_ok noname r \<Longrightarrow> work_ok (w\<lparr>w_ans := r\<rparr>)"
  using sva_ok_grows ar_ok_grows by (auto simp: work_ok_def list_all_iff)

subsection \<open>The contents of the message\<close>

text \<open>A question, and the sections: answers, authority and additional records.\<close>

definition question_at :: "byte list \<Rightarrow> nat \<Rightarrow> byte list list \<times> 16 word \<times> 16 word \<Rightarrow> nat \<Rightarrow> bool" where
  "question_at m p q k \<longleftrightarrow> (case q of (xs, t, c) \<Rightarrow> \<exists>n ls. nm_at m p n ls \<and> lower_name ls = lower_name xs \<and>
     take 4 (drop (p + n) m) = be16 t @ be16 c \<and> k = p + n + 4)"

primrec questions_at :: "byte list \<Rightarrow> nat \<Rightarrow> (byte list list \<times> 16 word \<times> 16 word) list \<Rightarrow> nat \<Rightarrow> bool" where
  "questions_at m p [] q \<longleftrightarrow> p = q"
| "questions_at m p (x # xs) q \<longleftrightarrow> (\<exists>k. question_at m p x k \<and> questions_at m k xs q)"

type_synonym sections = "rrec list \<times> rrec list \<times> rrec list"

definition message_of :: "reply \<Rightarrow> (byte list list \<times> 16 word \<times> 16 word) list \<Rightarrow> sections \<Rightarrow> bool" where
  "message_of r qs S \<longleftrightarrow> (case S of (A, N, D) \<Rightarrow> \<exists>p0 p1 p2.
     questions_at (shadow noname r) 12 qs p0 \<and> recs_at (shadow noname r) p0 A p1 \<and> recs_at (shadow noname r) p1 N p2 \<and>
     recs_at (shadow noname r) p2 D (r_sz r) \<and>
     h_qdcount (r_hdr r) = of_nat (length qs) \<and> h_ancount (r_hdr r) = of_nat (length A) \<and>
     h_nscount (r_hdr r) = of_nat (length N) \<and> h_arcount (r_hdr r) = of_nat (length D))"

fun extend :: "section_t \<Rightarrow> rrec list \<Rightarrow> sections \<Rightarrow> sections" where
  "extend S_ANSWER rs (A, N, D) = (A @ rs, N, D)"
| "extend S_AUTHORITY rs (A, N, D) = (A, N @ rs, D)"
| "extend S_ADDITIONAL rs (A, N, D) = (A, N, D @ rs)"

text \<open>The sections are filled in their order.\<close>

fun fits_order :: "section_t \<Rightarrow> sections \<Rightarrow> bool" where
  "fits_order S_ANSWER (A, N, D) \<longleftrightarrow> N = [] \<and> D = []"
| "fits_order S_AUTHORITY (A, N, D) \<longleftrightarrow> D = []"
| "fits_order S_ADDITIONAL (A, N, D) \<longleftrightarrow> True"

lemma question_at_append: "question_at m p x k \<Longrightarrow> question_at (m @ t) p x k"
proof -
  assume q: "question_at m p x k"
  obtain xs ty c where x: "x = (xs, ty, c)" by (cases x)
  with q obtain n ls where n: "nm_at m p n ls" "lower_name ls = lower_name xs" "take 4 (drop (p + n) m) = be16 ty @ be16 c" "k = p + n + 4"
    by (auto simp: question_at_def)
  from arg_cong [OF n(3), of length] have "p + n + 4 \<le> length m" by simp
  then have "take 4 (drop (p + n) (m @ t)) = be16 ty @ be16 c" using n(3) by simp
  with n(2,4) nm_at_append [OF n(1), of t] show ?thesis unfolding question_at_def x prod.case by blast
qed

lemma questions_at_append: "questions_at m p qs q \<Longrightarrow> questions_at (m @ t) p qs q"
  by (induction qs arbitrary: p) (auto dest: question_at_append)

lemma questions_at_app: "questions_at m p (qs @ rs) q \<longleftrightarrow> (\<exists>k. questions_at m p qs k \<and> questions_at m k rs q)"
  by (induction qs arbitrary: p) auto

lemma message_of_add:
  assumes "message_of r qs S" "fits_order section S" "r_body r' = r_body r @ w" "r_hdr r' = count_section section (r_hdr r)"
    "rec_at (shadow noname r') (r_sz r) rc (r_sz r')"
  shows "message_of r' qs (extend section [rc] S)"
proof -
  obtain A N D where S: "S = (A, N, D)" by (cases S)
  have sh: "shadow noname r' = shadow noname r @ w" using assms(3) by (simp add: shadow_def)
  note ap = questions_at_append recs_at_append
  from assms(1) obtain p0 p1 p2 where q: "questions_at (shadow noname r) 12 qs p0" "recs_at (shadow noname r) p0 A p1"
    "recs_at (shadow noname r) p1 N p2" "recs_at (shadow noname r) p2 D (r_sz r)"
    "h_qdcount (r_hdr r) = of_nat (length qs)" "h_ancount (r_hdr r) = of_nat (length A)"
    "h_nscount (r_hdr r) = of_nat (length N)" "h_arcount (r_hdr r) = of_nat (length D)"
    unfolding S message_of_def prod.case by (elim exE conjE) (rule that; assumption)
  then have p: "questions_at (shadow noname r') 12 qs p0" "recs_at (shadow noname r') p0 A p1"
    "recs_at (shadow noname r') p1 N p2" "recs_at (shadow noname r') p2 D (r_sz r)"
    unfolding sh by (simp_all add: ap)
  show ?thesis
  proof (cases "section")
    case S_ANSWER
    with assms(2) p(3,4) have "p1 = r_sz r" "N = []" "D = []" by (auto simp: S)
    with p q(5,6,7,8) assms(4,5) S_ANSWER show ?thesis unfolding S S_ANSWER message_of_def prod.case extend.simps
      by (intro exI [of _ p0] exI [of _ "r_sz r'"] exI [of _ "r_sz r'"]) (auto simp: recs_at_app count_section_def)
  next
    case S_AUTHORITY
    with assms(2) p(4) have "p2 = r_sz r" "D = []" by (auto simp: S)
    with p q(5,6,7,8) assms(4,5) S_AUTHORITY show ?thesis unfolding S S_AUTHORITY message_of_def prod.case extend.simps
      by (intro exI [of _ p0] exI [of _ p1] exI [of _ "r_sz r'"]) (auto simp: recs_at_app count_section_def)
  next
    case S_ADDITIONAL
    with p q(5,6,7,8) assms(4,5) show ?thesis unfolding S S_ADDITIONAL message_of_def prod.case extend.simps
      by (intro exI [of _ p0] exI [of _ p1] exI [of _ p2]) (auto simp: recs_at_app count_section_def)
  qed
qed

definition mk_rec :: "byte list list \<Rightarrow> nat \<Rightarrow> 32 word \<Rightarrow> byte list \<Rightarrow> rrec" where
  "mk_rec xs tp ttl d = \<lparr>rr_name = xs, rr_type = of_nat tp, rr_cls = of_nat C_IN, rr_ttl = ttl, rr_rdata = d\<rparr>"

text \<open>All names in data of a type.\<close>

definition names_in :: "nat \<Rightarrow> byte list \<Rightarrow> byte list list set" where
  "names_in tp d = {ls. \<exists>us. d = items_bytes us \<and> list_all2 fits_item us (rdata_form tp) \<and> Name ls \<in> set us}"

definition keeps :: "'w work \<Rightarrow> 'w work \<Rightarrow> bool" where
  "keeps w w' \<longleftrightarrow> w_sva w' = w_sva w \<and> w_ar w' = w_ar w \<and> w_cache w' = w_cache w \<and> w_net w' = w_net w"

lemma message_of_body: "message_of r qs S \<Longrightarrow> r_body r' = r_body r \<Longrightarrow> r_hdr r' = r_hdr r \<Longrightarrow> message_of r' qs S"
  by (simp add: message_of_def shadow_def r_sz_def)

lemma add_rr_step:
  assumes "work_ok w" "message_of (w_ans w) qs S" "fits_order section S" "name_at rrn 0 xs" "wf_name xs" "data_ok tp d" "tp < 65536"
    "section = S_ADDITIONAL \<Longrightarrow> rdata_form tp = [Rest] \<and> kn (w_ans w) xs"
  shows "step_ok w (\<lambda>w'. work_ok w' \<and> keeps w w' \<and>
     (section = S_ADDITIONAL \<and> udp \<noteq> None \<and> r_sz (w_ans w') = r_sz (w_ans w) \<and> message_of (w_ans w') qs S \<or>
      message_of (w_ans w') qs (extend section [mk_rec xs tp ttl d] S) \<and>
      (section = S_ADDITIONAL \<longrightarrow> (\<forall>u. udp = Some u \<longrightarrow> r_sz (w_ans w') \<le> u)) \<and> (\<forall>ls\<in>names_in tp d. kn (w_ans w') ls)))
     (on_ans (add_rr rrn tp ttl d section udp) w)"
proof -
  from assms(6) obtain us where us: "list_all2 fits_item us (rdata_form tp)" "d = items_bytes us" "length (items_bytes us) < 65536"
    by (auto simp: data_ok_def rdata_ok_def)
  have r: "reply_ok noname (w_ans w)" using assms(1) by (simp add: work_ok_def)
  have "section = S_ADDITIONAL \<and> udp \<noteq> None \<longrightarrow> rdata_form tp = [Rest] \<and> (xs = [] \<or> known (r_cb (w_ans w)) xs \<or> r_sz (w_ans w) > 0x3fff)"
    using assms(8) by (auto simp: kn_def)
  from add_rr_ok [OF r assms(4,5) us(1,3) assms(7) this, of ttl, folded us(2) mk_rec_def] obtain ok r' where
    a: "add_rr rrn tp ttl d section udp (w_ans w) = Some (ok, r')" "\<not> ok \<longrightarrow> (\<exists>n. \<not> r_mem (w_ans w) n)"
      "ok \<longrightarrow> reply_ok noname r' \<and> mem_mono (r_mem (w_ans w)) (r_mem r') \<and> set (r_cb (w_ans w)) \<subseteq> set (r_cb r') \<and>
        (rr_dropped section udp (w_ans w) r' \<or> rr_added section udp (mk_rec xs tp ttl d) (w_ans w) r')"
    by (elim exE conjE) (rule that; assumption)
  show ?thesis
  proof (cases ok)
    case False
    with a show ?thesis by (auto simp: step_ok_def on_ans_def)
  next
    case True
    with a(3) have b: "reply_ok noname r'" "rr_dropped section udp (w_ans w) r' \<or> rr_added section udp (mk_rec xs tp ttl d) (w_ans w) r'" by simp_all
    have "r_sz (w_ans w) \<le> r_sz r'" using b(2) by (auto simp: rr_dropped_def rr_added_def r_sz_def)
    moreover have "uncounted (r_hdr r') = uncounted (r_hdr (w_ans w))" using b(2) by (auto simp: rr_dropped_def rr_added_def)
    ultimately have g: "grows (w_ans w) r'" using True a(3) by (simp add: grows_def)
    have wk: "work_ok (w\<lparr>w_ans := r'\<rparr>)" by (rule work_ok_ans [OF assms(1) g b(1)])
    have t16: "unat (of_nat tp :: 16 word) = tp" using assms(7) by (simp add: unat_of_nat take_bit_nat_eq_self)
    have "section = S_ADDITIONAL \<and> udp \<noteq> None \<and> r_sz r' = r_sz (w_ans w) \<and> message_of r' qs S \<or>
      message_of r' qs (extend section [mk_rec xs tp ttl d] S) \<and>
      (section = S_ADDITIONAL \<longrightarrow> (\<forall>u. udp = Some u \<longrightarrow> r_sz r' \<le> u)) \<and> (\<forall>ls\<in>names_in tp d. kn r' ls)"
      using b(2)
    proof
      assume "rr_dropped section udp (w_ans w) r'"
      with message_of_body [OF assms(2)] show ?thesis by (auto simp: rr_dropped_def r_sz_def)
    next
      assume ad: "rr_added section udp (mk_rec xs tp ttl d) (w_ans w) r'"
      then obtain x where "r_body r' = r_body (w_ans w) @ x" "r_hdr r' = count_section section (r_hdr (w_ans w))"
        "rec_at (shadow noname r') (r_sz (w_ans w)) (mk_rec xs tp ttl d) (r_sz r')" by (auto simp: rr_added_def)
      from message_of_add [OF assms(2,3) this] ad show ?thesis
        unfolding rr_added_def names_in_def kn_def by (auto simp: mk_rec_def t16)
    qed
    with a(1) True g wk show ?thesis unfolding step_ok_def on_ans_def
      by (intro exI [of _ True] exI [of _ "w\<lparr>w_ans := r'\<rparr>"]) (auto simp: keeps_def)
  qed
qed

lemma grow_cases:
  obtains (fail) m where "grow w = (False, w\<lparr>w_ans := (w_ans w)\<lparr>r_mem := m\<rparr>\<rparr>)" "\<exists>n. \<not> r_mem (w_ans w) n"
  | (more) m where "grow w = (True, w\<lparr>w_ans := (w_ans w)\<lparr>r_mem := m\<rparr>\<rparr>)" "mem_mono (r_mem (w_ans w)) m"
proof -
  obtain ok m where "malloc (r_mem (w_ans w)) = (ok, m)" by force
  with mem_mono_malloc [OF this] fail more show thesis by (cases ok) (auto simp: grow_def)
qed

lemma grows_mem: "mem_mono (r_mem r) m \<Longrightarrow> grows r (r\<lparr>r_mem := m\<rparr>)"
  by (simp add: grows_def r_sz_def)

lemma reply_ok_mem [simp]: "reply_ok P (r\<lparr>r_mem := m\<rparr>) = reply_ok P r"
  by (simp add: reply_ok_def shadow_def r_sz_def)

lemma message_of_mem [simp]: "message_of (r\<lparr>r_mem := m\<rparr>) qs S = message_of r qs S"
  by (simp add: message_of_def shadow_def r_sz_def)

definition keeps_msg :: "'w work \<Rightarrow> 'w work \<Rightarrow> bool" where
  "keeps_msg w w' \<longleftrightarrow> (\<forall>qs S. message_of (w_ans w) qs S \<longrightarrow> message_of (w_ans w') qs S) \<and> r_sz (w_ans w') = r_sz (w_ans w)"

lemma sva_add_step:
  assumes "work_ok w" "name_at rhn 0 xs" "wf_name xs" "tp = T_NS \<Longrightarrow> \<forall>ls. wf_name ls \<and> d = enc ls \<longrightarrow> kn (w_ans w) ls"
  shows "step_ok w (\<lambda>w'. work_ok w' \<and> keeps_msg w w' \<and> w_ar w' = w_ar w) (sva_add rhn tp d w)"
proof -
  have n: "rhnlen rhn = Some (length (enc xs))" "rds rhn 0 (length (enc xs)) = Some (enc xs)"
    using rhnlen_at_name [OF assms(2)] name_at_length [OF assms(2)] name_at_take_enc [OF assms(2)] by (simp_all add: rhnlen_def rds_def)
  show ?thesis
  proof (cases rule: grow_cases [of w])
    case (fail m)
    with n show ?thesis by (simp add: sva_add_def step_ok_fail)
  next
    case (more m)
    let ?r = "(w_ans w)\<lparr>r_mem := m\<rparr>"
    let ?w = "w\<lparr>w_ans := ?r, w_sva := w_sva w @ [\<lparr>sv_tp = tp, sv_nm = enc xs, sv_data = d\<rparr>]\<rparr>"
    note g = grows_mem [OF more(2)]
    from assms(1) have "reply_ok noname ?r" by (simp add: work_ok_def)
    from work_ok_ans [OF assms(1) g this] have "work_ok (w\<lparr>w_ans := ?r\<rparr>)" .
    moreover have "sva_ok ?r \<lparr>sv_tp = tp, sv_nm = enc xs, sv_data = d\<rparr>"
      using assms(3,4) kn_grows [OF g] by (auto simp: sva_ok_def)
    ultimately have "work_ok ?w" by (simp add: work_ok_def)
    moreover have "keeps_msg w ?w" by (simp add: keeps_msg_def r_sz_def)
    moreover have "sva_add rhn tp d w = Some (True, ?w)" using n more(1) by (simp add: sva_add_def)
    ultimately show ?thesis using g unfolding step_ok_def by (intro exI [of _ True] exI [of _ ?w]) simp
  qed
qed

lemma add_ar_step:
  assumes "work_ok w" "tp = RRETP_ADD \<or> (tp = T_NS \<or> tp = T_SOA) \<and> name_at nm 0 xs \<and> wf_name xs \<and> data_ok tp d"
    "tp = RRETP_ADD \<Longrightarrow> \<exists>ls. wf_name ls \<and> d = enc ls \<and> kn (w_ans w) ls"
  shows "step_ok w (\<lambda>w'. work_ok w' \<and> keeps_msg w w') (add_ar tp d nm ttl w)"
proof -
  obtain nm' where nm': "(if tp = T_NS \<or> tp = T_SOA then do { nmsz \<leftarrow> rhnlen nm; rds nm 0 nmsz } else Some []) = Some nm'"
    "tp = T_NS \<or> tp = T_SOA \<Longrightarrow> \<exists>xs. wf_name xs \<and> nm' = enc xs"
  proof (cases "tp = T_NS \<or> tp = T_SOA")
    case True
    with assms(2) have n: "name_at nm 0 xs" "wf_name xs" by (auto simp: RRETP_ADD_def t_consts rr_consts)
    have "rhnlen nm = Some (length (enc xs))" "rds nm 0 (length (enc xs)) = Some (enc xs)"
      using rhnlen_at_name [OF n(1)] name_at_length [OF n(1)] name_at_take_enc [OF n(1)] by (simp_all add: rhnlen_def rds_def)
    with True that [of "enc xs"] n(2) show thesis by auto
  qed (use that in auto)
  show ?thesis
  proof (cases rule: grow_cases [of w])
    case (fail m)
    with nm'(1) show ?thesis by (simp add: add_ar_def step_ok_fail)
  next
    case (more m)
    let ?r = "(w_ans w)\<lparr>r_mem := m\<rparr>" and ?e = "\<lparr>re_tp = tp, re_tnm = d, re_nm = nm', re_ttl = ttl\<rparr>"
    let ?w = "w\<lparr>w_ans := ?r, w_ar := w_ar w @ [?e]\<rparr>"
    note g = grows_mem [OF more(2)]
    from assms(1) have "reply_ok noname ?r" by (simp add: work_ok_def)
    from work_ok_ans [OF assms(1) g this] have "work_ok (w\<lparr>w_ans := ?r\<rparr>)" .
    moreover have "ar_ok ?r ?e"
      using assms(2,3) nm'(2) kn_grows [OF g] by (auto simp: ar_ok_def RRETP_ADD_def t_consts rr_consts)
    ultimately have "work_ok ?w" by (simp add: work_ok_def)
    moreover have "keeps_msg w ?w" by (simp add: keeps_msg_def r_sz_def)
    moreover have "add_ar tp d nm ttl w = Some (True, ?w)" using nm'(1) more(1) by (simp add: add_ar_def)
    ultimately show ?thesis using g unfolding step_ok_def by (intro exI [of _ True] exI [of _ ?w]) simp
  qed
qed

subsection \<open>The answer section\<close>

definition holds :: "(byte list list \<times> 16 word \<times> 16 word) list \<Rightarrow> sections \<Rightarrow> 'w work \<Rightarrow> bool" where
  "holds qs S w \<longleftrightarrow> work_ok w \<and> message_of (w_ans w) qs S"

lemma ar_form:
  assumes "map_of (zip ar_recs ar_offs) tp = Some off" "data_ok tp d"
  shows "\<exists>ls. wf_name ls \<and> rds d off (length d - off) = Some (enc ls) \<and> ls \<in> names_in tp d"
proof -
  note c = t_consts rr_consts
  from assms(1) have "tp \<in> {T_NS, T_MD, T_MF, T_MB} \<and> off = 0 \<or> tp = T_MX \<and> off = 2 \<or> tp = T_SRV \<and> off = 6"
    by (auto simp: ar_recs_def ar_offs_def split: if_splits)
  moreover from assms(2) obtain us where us: "list_all2 fits_item us (rdata_form tp)" "d = items_bytes us" by (auto simp: data_ok_def rdata_ok_def)
  ultimately consider "off = 0" "rdata_form tp = [Nam]" | "rdata_form tp = [Fix off, Nam]"
    by (auto simp: rdata_form_def c)
  then show ?thesis
  proof cases
    case 1
    with us obtain ls where "us = [Name ls]" "wf_name ls" by (auto simp: list_all2_Cons2 fits_Nam)
    with us 1 have "ls \<in> names_in tp d" unfolding names_in_def by (intro CollectI exI [of _ us]) simp
    with us 1 \<open>us = [Name ls]\<close> \<open>wf_name ls\<close> show ?thesis by (auto simp: rds_def items_bytes_def)
  next
    case 2
    with us(1) obtain p ls where u: "us = [Raw p, Name ls]" "length p = off" "wf_name ls"
      by (auto simp: list_all2_Cons2 fits_Nam fits_Fix)
    have "ls \<in> names_in tp d" unfolding names_in_def using us u(1) by (intro CollectI exI [of _ us]) simp
    moreover have "rds d off (length d - off) = Some (enc ls)" using us(2) u by (simp add: rds_def)
    ultimately show ?thesis using u(3) by blast
  qed
qed

lemma ns_names: "wf_name ls \<Longrightarrow> ls \<in> names_in T_NS (enc ls)"
  unfolding names_in_def by (intro CollectI exI [of _ "[Name ls]"]) (simp add: rdata_form_def items_bytes_def)

lemma add_rrset_rr_step:
  assumes "holds qs (A, [], []) w" "name_at rrn 0 xs" "wf_name xs" "data_ok tp d" "tp < 65536"
  shows "step_ok w (holds qs (A @ [mk_rec xs tp ttl d], [], [])) (add_rrset_rr rrn tp ttl udp d w)"
  unfolding add_rrset_rr_def
proof (rule step_ok_and_then [where Q = "\<lambda>w. holds qs (A @ [mk_rec xs tp ttl d], [], []) w \<and> (\<forall>ls\<in>names_in tp d. kn (w_ans w) ls)"])
  from assms(1) have w: "work_ok w" "message_of (w_ans w) qs (A, [], [])" by (simp_all add: holds_def)
  show "step_ok w (\<lambda>w. holds qs (A @ [mk_rec xs tp ttl d], [], []) w \<and> (\<forall>ls\<in>names_in tp d. kn (w_ans w) ls))
     (on_ans (add_rr rrn tp ttl d S_ANSWER udp) w)"
    by (rule step_ok_conseq, rule add_rr_step [OF w(1,2) _ assms(2-5)]) (auto simp: holds_def)
next
  fix w1
  let ?Q = "\<lambda>w. holds qs (A @ [mk_rec xs tp ttl d], [], []) w \<and> (\<forall>ls\<in>names_in tp d. kn (w_ans w) ls)"
  assume w1: "?Q w1"
  show "step_ok w1 (holds qs (A @ [mk_rec xs tp ttl d], [], []))
     (and_then (if tp = T_NS \<or> tp = T_A \<or> tp = T_AAAA then sva_add rrn tp d w1 else Some (True, w1))
       (\<lambda>w. case map_of (zip ar_recs ar_offs) tp of None \<Rightarrow> Some (True, w)
           | Some off \<Rightarrow> do { tnm \<leftarrow> rds d off (length d - off); add_ar RRETP_ADD tnm [] 0 w }))"
  proof (rule step_ok_and_then [where Q = ?Q])
    have "step_ok w1 ?Q (sva_add rrn tp d w1)"
    proof (rule step_ok_conseq)
      show "step_ok w1 (\<lambda>w'. work_ok w' \<and> keeps_msg w1 w' \<and> w_ar w' = w_ar w1) (sva_add rrn tp d w1)"
        using w1 assms(2,3) ns_names by (intro sva_add_step) (auto simp: holds_def)
      show "?Q w'" if "grows (w_ans w1) (w_ans w')" "work_ok w' \<and> keeps_msg w1 w' \<and> w_ar w' = w_ar w1" for w'
        using that w1 kn_grows by (auto simp: holds_def keeps_msg_def)
    qed
    with w1 show "step_ok w1 ?Q (if tp = T_NS \<or> tp = T_A \<or> tp = T_AAAA then sva_add rrn tp d w1 else Some (True, w1))"
      by (auto intro: step_ok_Some)
    fix w2
    assume w2: "?Q w2"
    show "step_ok w2 (holds qs (A @ [mk_rec xs tp ttl d], [], []))
       (case map_of (zip ar_recs ar_offs) tp of None \<Rightarrow> Some (True, w2)
           | Some off \<Rightarrow> do { tnm \<leftarrow> rds d off (length d - off); add_ar RRETP_ADD tnm [] 0 w2 })"
    proof (cases "map_of (zip ar_recs ar_offs) tp")
      case None
      with w2 show ?thesis by (simp add: step_ok_Some)
    next
      case (Some off)
      from ar_form [OF this assms(4)] obtain ls where ls: "wf_name ls" "rds d off (length d - off) = Some (enc ls)" "ls \<in> names_in tp d" by blast
      have "step_ok w2 (holds qs (A @ [mk_rec xs tp ttl d], [], [])) (add_ar RRETP_ADD (enc ls) [] 0 w2)"
        by (rule step_ok_conseq, rule add_ar_step) (use w2 ls in \<open>auto simp: holds_def keeps_msg_def\<close>)
      with Some ls(2) show ?thesis by simp
    qed
  qed
qed

lemma mset_rotate: "mset (rotate n xs) = mset xs"
proof -
  let ?k = "n mod length xs"
  have "mset (rotate n xs) = mset (take ?k xs @ drop ?k xs)" by (simp only: rotate_drop_take mset_append add.commute)
  then show ?thesis by simp
qed

lemma rr_order_mset: "rr_order conf rrs w = (bs, w') \<Longrightarrow> mset bs = mset rrs \<and> w_ans w' = w_ans w \<and> (work_ok w' \<longleftrightarrow> work_ok w) \<and> keeps w w'"
  by (auto simp: rr_order_def work_ok_def keeps_def mset_rotate split: if_splits)

lemma getrrset_type: "getrrset c tp = Some s \<Longrightarrow> tp < 65536"
  by (auto simp: getrrset_def rr_consts split: if_splits)

text \<open>The records of a set as they go to the client.\<close>

definition set_recs :: "byte list list \<Rightarrow> nat \<Rightarrow> int \<Rightarrow> dns_cent_t \<Rightarrow> rrec list" where
  "set_recs xs tp queryts c = (case getrrset c tp of None \<Rightarrow> []
     | Some s \<Rightarrow> map (mk_rec xs tp (of_int (ans_ttl s queryts))) (rs_rrs s))"

lemma add_rrset_step:
  assumes "holds qs (A, [], []) w" "name_at rrn 0 xs" "wf_name xs" "cent_data_ok c"
  shows "step_ok w (\<lambda>w'. \<exists>B. holds qs (A @ B, [], []) w' \<and> mset B = mset (set_recs xs tp queryts c)) (add_rrset conf rrn tp queryts c udp w)"
proof (cases "getrrset c tp")
  case None
  with assms(1) show ?thesis by (auto simp: add_rrset_def set_recs_def intro!: step_ok_Some)
next
  case (Some s)
  obtain bs w1 where o: "rr_order conf (rs_rrs s) w = (bs, w1)" by force
  note oo = rr_order_mset [OF o]
  let ?ttl = "of_int (ans_ttl s queryts)"
  have d: "data_ok tp b" if "b \<in> set bs" for b
  proof -
    from oo that have "b \<in> set (rs_rrs s)" by (metis mset_eq_setD)
    with assms(4) Some show ?thesis by (auto simp: cent_data_ok_def)
  qed
  have "step_ok w1 (holds qs (A @ map (mk_rec xs tp ?ttl) bs, [], [])) (for_all (add_rrset_rr rrn tp ?ttl udp) bs w1)"
  proof (rule step_ok_for_all [where I = "\<lambda>pre. holds qs (A @ map (mk_rec xs tp ?ttl) pre, [], [])"])
    show "holds qs (A @ map (mk_rec xs tp ?ttl) [], [], []) w1" using assms(1) oo by (simp add: holds_def)
    fix pre b post w2
    assume a: "bs = pre @ b # post" "holds qs (A @ map (mk_rec xs tp ?ttl) pre, [], []) w2"
    then have "data_ok tp b" using d by simp
    from add_rrset_rr_step [OF a(2) assms(2,3) this getrrset_type [OF Some], of ?ttl udp] show
      "step_ok w2 (holds qs (A @ map (mk_rec xs tp ?ttl) (pre @ [b]), [], [])) (add_rrset_rr rrn tp ?ttl udp b w2)" by simp
  qed
  moreover have "mset (map (mk_rec xs tp ?ttl) bs) = mset (set_recs xs tp queryts c)" using oo Some by (simp add: set_recs_def)
  ultimately have "step_ok w1 (\<lambda>w'. \<exists>B. holds qs (A @ B, [], []) w' \<and> mset B = mset (set_recs xs tp queryts c))
    (for_all (add_rrset_rr rrn tp ?ttl udp) bs w1)" by (rule_tac step_ok_conseq) blast+
  then have "step_ok w (\<lambda>w'. \<exists>B. holds qs (A @ B, [], []) w' \<and> mset B = mset (set_recs xs tp queryts c))
    (for_all (add_rrset_rr rrn tp ?ttl udp) bs w1)" by (rule step_ok_same) (use oo in \<open>simp_all add: keeps_def\<close>)
  with Some o show ?thesis by (simp add: add_rrset_def)
qed

text \<open>All answers from one entry.\<close>

definition asked_types :: "nat \<Rightarrow> dns_cent_t \<Rightarrow> nat list" where
  "asked_types qtype c =
     (if qtype \<noteq> T_CNAME \<and> qtype \<noteq> QT_ALL \<and> \<not> (T_MIN \<le> qtype \<and> qtype \<le> T_MAX \<and> have_rr c qtype) then [T_CNAME] else []) @
     (if qtype = QT_MAILB then [T_MB, T_MG, T_MR] else if qtype = QT_MAILA then [T_MD, T_MF]
      else if qtype = QT_ALL then take (NRRITERLIST c) (RRITERLIST c) else [qtype])"

definition answer_recs :: "byte list list \<Rightarrow> nat \<Rightarrow> int \<Rightarrow> dns_cent_t \<Rightarrow> rrec list" where
  "answer_recs xs qtype queryts c = concat (map (\<lambda>tp. set_recs xs tp queryts c) (asked_types qtype c))"

lemma add_sets_step:
  assumes "holds qs (A, [], []) w" "name_at rrn 0 xs" "wf_name xs" "cent_data_ok c"
  shows "step_ok w (\<lambda>w'. \<exists>B. holds qs (A @ B, [], []) w' \<and> mset B = mset (concat (map (\<lambda>tp. set_recs xs tp queryts c) tps)))
    (for_all (\<lambda>tp. add_rrset conf rrn tp queryts c udp) tps w)"
proof (rule step_ok_for_all)
  show "\<exists>B. holds qs (A @ B, [], []) w \<and> mset B = mset (concat (map (\<lambda>tp. set_recs xs tp queryts c) []))"
    using assms(1) by (intro exI [of _ "[]"]) simp
  fix pre tp post w1
  assume "\<exists>B. holds qs (A @ B, [], []) w1 \<and> mset B = mset (concat (map (\<lambda>tp. set_recs xs tp queryts c) pre))"
  then obtain B where B: "holds qs (A @ B, [], []) w1" "mset B = mset (concat (map (\<lambda>tp. set_recs xs tp queryts c) pre))" by blast
  show "step_ok w1 (\<lambda>w'. \<exists>B. holds qs (A @ B, [], []) w' \<and> mset B = mset (concat (map (\<lambda>tp. set_recs xs tp queryts c) (pre @ [tp]))))
    (add_rrset conf rrn tp queryts c udp w1)"
  proof (rule step_ok_conseq [OF add_rrset_step [OF B(1) assms(2-4)]], elim exE conjE)
    fix w' C
    assume "holds qs ((A @ B) @ C, [], []) w'" "mset C = mset (set_recs xs tp queryts c)"
    with B(2) show "\<exists>B. holds qs (A @ B, [], []) w' \<and> mset B = mset (concat (map (\<lambda>tp. set_recs xs tp queryts c) (pre @ [tp])))"
      by (intro exI [of _ "B @ C"]) simp
  qed
qed

definition askable :: "nat \<Rightarrow> bool" where
  "askable qtype \<longleftrightarrow> \<not> PDNSD_NOT_CACHED_TYPE qtype \<or> qtype = QT_MAILB \<or> qtype = QT_MAILA \<or> qtype = QT_ALL"

lemma for_all_append: "for_all f (xs @ ys) w = and_then (for_all f xs w) (for_all f ys)"
proof (induction xs arbitrary: w)
  case (Cons x xs)
  show ?case by (cases "f x w") (auto simp: and_then_def Cons.IH [unfolded and_then_def])
qed (simp add: and_then_def)

lemma and_then_True: "and_then x (\<lambda>w. Some (True, w)) = x"
  by (cases x) (auto simp: and_then_def)

lemma for_all_one: "for_all f [x] w = f x w"
  by (cases "f x w") (auto simp: and_then_def)

lemma add_to_response_eq:
  assumes "askable qtype"
  shows "add_to_response conf rrn qtype queryts c udp w = for_all (\<lambda>tp. add_rrset conf rrn tp queryts c udp) (asked_types qtype c) w"
proof -
  have a: "\<not> (qtype = QT_AXFR \<or> qtype = QT_IXFR)" "qtype = QT_MAILB \<or> qtype = QT_MAILA \<or> qtype = QT_ALL \<or> T_MIN \<le> qtype \<and> qtype \<le> T_MAX"
    using assms by (auto simp: askable_def PDNSD_NOT_CACHED_TYPE_def rr_consts qt_consts)
  let ?add = "\<lambda>tp. add_rrset conf rrn tp queryts c udp"
  have rest: "(if qtype = QT_AXFR \<or> qtype = QT_IXFR then Some (False, w)
            else if qtype = QT_MAILB then for_all ?add [T_MB, T_MG, T_MR] w
            else if qtype = QT_MAILA then for_all ?add [T_MD, T_MF] w
            else if qtype = QT_ALL then for_all ?add (take (NRRITERLIST c) (RRITERLIST c)) w
            else if qtype \<ge> T_MIN \<and> qtype \<le> T_MAX then ?add qtype w
            else Some (False, w)) =
      for_all ?add (if qtype = QT_MAILB then [T_MB, T_MG, T_MR] else if qtype = QT_MAILA then [T_MD, T_MF]
      else if qtype = QT_ALL then take (NRRITERLIST c) (RRITERLIST c) else [qtype]) w" for w
    using a by (auto simp: for_all_one simp del: for_all.simps)
  have first: "(if P then ?add T_CNAME w else Some (True, w)) = for_all ?add (if P then [T_CNAME] else []) w" for P w
    by (simp add: for_all_one del: for_all.simps(2))
  show ?thesis unfolding add_to_response_def asked_types_def for_all_append Let_def rest first ..
qed

lemma add_to_response_step:
  assumes "holds qs (A, [], []) w" "name_at rrn 0 xs" "wf_name xs" "cent_data_ok c" "askable qtype"
  shows "step_ok w (\<lambda>w'. \<exists>B. holds qs (A @ B, [], []) w' \<and> mset B = mset (answer_recs xs qtype queryts c))
    (add_to_response conf rrn qtype queryts c udp w)"
  unfolding add_to_response_eq [OF assms(5)] answer_recs_def by (rule add_sets_step [OF assms(1-4)])

subsection \<open>Looking up in the cache\<close>

lemma fresh_copy_data: "fresh_copy now c copy \<Longrightarrow> cent_ok c \<Longrightarrow> cent_data_ok c \<Longrightarrow> cent_data_ok copy"
  unfolding cent_data_ok_def
proof (intro allI impI)
  fix tp s d
  assume f: "fresh_copy now c copy" and c: "cent_ok c" "\<forall>tp s d. getrrset c tp = Some s \<longrightarrow> d \<in> set (rs_rrs s) \<longrightarrow> data_ok tp d"
    and s: "getrrset copy tp = Some s" "d \<in> set (rs_rrs s)"
  show "data_ok tp d"
  proof (cases "PDNSD_NOT_CACHED_TYPE tp")
    case True
    with s show ?thesis by (simp add: getrrset_uncached)
  next
    case False
    from f False s(1) idx_of_less [OF False] obtain s' where "getrrset c tp = Some s'" "rs_rrs s' = rs_rrs s"
      by (auto simp: fresh_copy_def getrrset_idx split: if_splits)
    with c(2) s(2) show ?thesis by auto
  qed
qed

lemma purged_data: "purged now test c c' \<Longrightarrow> cent_data_ok c \<Longrightarrow> cent_data_ok c'"
  unfolding cent_data_ok_def
proof (intro allI impI)
  fix tp s d
  assume p: "purged now test c c'" and c: "\<forall>tp s d. getrrset c tp = Some s \<longrightarrow> d \<in> set (rs_rrs s) \<longrightarrow> data_ok tp d"
    and s: "getrrset c' tp = Some s" "d \<in> set (rs_rrs s)"
  show "data_ok tp d"
  proof (cases "PDNSD_NOT_CACHED_TYPE tp")
    case True
    with s show ?thesis by (simp add: getrrset_uncached)
  next
    case False
    with p s(1) idx_of_less [OF False] have "getrrset c tp = Some s"
      by (auto simp: purged_def getrrset_idx split: if_splits)
    with c s(2) show ?thesis by auto
  qed
qed

lemma purge_cent_data:
  assumes "ok_but {} st" "heap st p = Some c" "purge_cent now p delete test st = Some (n, st')" "\<forall>p c. heap st p = Some c \<longrightarrow> cent_data_ok c"
  shows "\<forall>p c. heap st' p = Some c \<longrightarrow> cent_data_ok c"
proof -
  have np: "p \<notin> {}" by simp
  from purge_cent_spec [OF assms(1) np assms(2), of now delete test] assms(3) have
    "st' = st \<or> heap st' = (heap st)(p := None) \<or> (\<exists>c'. heap st' = (heap st)(p \<mapsto> c') \<and> purged now test c c')"
    by (auto split: if_splits)
  with assms(2,4) purged_data show ?thesis by (auto split: if_splits)
qed

lemma lookup_cache_data:
  assumes "ok_but {} st" "name_at name 0 ls" "wf_name ls" "lookup_cache now name wild st = Some (res, k, st')"
    "\<forall>p c. heap st p = Some c \<longrightarrow> cent_data_ok c"
  shows "\<forall>p c. heap st' p = Some c \<longrightarrow> cent_data_ok c"
proof -
  obtain r w where rw: "cent_ref st ls wild = (r, w)" by force
  note lk = lookup_cent_spec [OF assms(1-3), of wild, unfolded rw]
  show ?thesis
  proof (cases r)
    case None
    with assms(4,5) lk show ?thesis by (auto simp: lookup_cache_def lookup_cache_r_def)
  next
    case (Some p)
    from cent_ref_heap [OF assms(1), of ls wild p] rw Some obtain c where c: "heap st p = Some c" by auto
    have np: "p \<notin> {}" by simp
    from purge_cent_spec [OF assms(1) np c, of now True True] obtain n where
      t: "purge_cent now p True True st = Some (n, st)" by auto
    have "heap st' = heap st \<or> (\<exists>n st2. purge_cent now p True False st = Some (n, st2) \<and> heap st' = heap st2)"
      using assms(4) lk Some t c by (auto simp: lookup_cache_def lookup_cache_r_def lookup_cache_rw_def bind_eq_Some_conv split: if_splits)
    with purge_cent_data [OF assms(1) c _ assms(5)] assms(5) show ?thesis by auto
  qed
qed

definition cent_good :: "dns_cent_t \<Rightarrow> bool" where
  "cent_good c \<longleftrightarrow> cent_ok c \<and> cent_data_ok c"

lemma lookup_cache_good:
  assumes "cache_good st" "name_at name 0 ls" "wf_name ls"
  shows "\<exists>res k st'. lookup_cache now name wild st = Some (res, k, st') \<and> cache_good st' \<and> (\<forall>c. res = Some c \<longrightarrow> cent_good c)"
proof -
  from assms(1) have st: "cache_ok st" "ok_but {} st" "\<forall>p c. heap st p = Some c \<longrightarrow> cent_data_ok c"
    by (simp_all add: cache_good_def cache_ok_def)
  from lookup_cache_spec [OF st(2) assms(2,3), of now wild] obtain res st' where
    l: "lookup_cache now name wild st = Some (res, snd (cent_ref st ls wild), st')" "ok_but {} st'"
      "insert_sort st' = insert_sort st"
      "case fst (cent_ref st ls wild) of None \<Rightarrow> res = None
     | Some p \<Rightarrow> (\<exists>c. heap st p = Some c \<and> (\<forall>copy. res = Some copy \<longrightarrow> fresh_copy now c copy) \<and>
         (res = None \<longrightarrow> dies now c \<or> (\<exists>n. \<not> mem st n)))" by (elim exE conjE) (rule that; assumption)
  from l(2) have "cache_ok st'" by (simp add: cache_ok_def)
  moreover have "\<forall>p c. heap st' p = Some c \<longrightarrow> cent_data_ok c" by (rule lookup_cache_data [OF st(2) assms(2,3) l(1) st(3)])
  moreover have "cent_good c" if "res = Some c" for c
  proof -
    from l(4) that obtain p c0 where p: "heap st p = Some c0" "fresh_copy now c0 c" by (auto split: option.splits)
    moreover from p(1) st(2) have "cent_ok c0" by (rule ok_butD(1) [rotated])
    ultimately show ?thesis using fresh_copy_data [OF p(2)] st(3) by (auto simp: cent_good_def fresh_copy_def)
  qed
  ultimately show ?thesis using l(1,3) assms(1) by (auto simp: cache_good_def)
qed

lemma lookup_step:
  assumes "holds qs S w" "name_at name 0 ls" "wf_name ls"
  shows "\<exists>c w'. lookup name w = Some (c, w') \<and> holds qs S w' \<and> w_ans w' = w_ans w \<and> w_net w' = w_net w \<and> w_ar w' = w_ar w \<and> w_sva w' = w_sva w \<and> (\<forall>x. c = Some x \<longrightarrow> cent_good x)"
proof -
  from assms(1) have "cache_good (w_cache w)" by (simp add: holds_def work_ok_def)
  from lookup_cache_good [OF this assms(2,3)] obtain res k st' where
    "lookup_cache (w_time w 0) name False (w_cache w) = Some (res, k, st')" "cache_good st'" "\<forall>c. res = Some c \<longrightarrow> cent_good c" by blast
  with assms(1) show ?thesis by (auto simp: lookup_def time_now_def holds_def work_ok_def)
qed

subsection \<open>The authority section\<close>

lemma positive_Some: "positive x = Some s \<Longrightarrow> x = Some s"
  by (auto simp: positive_def split: option.splits if_splits)

lemma cent_qname: "cent_good c \<Longrightarrow> \<exists>ls. wf_name ls \<and> ce_qname c = enc ls \<and> name_at (ce_qname c) 0 ls"
proof -
  assume "cent_good c"
  then obtain ls where ls: "wf_name ls" "ce_qname c = enc ls" by (auto simp: cent_good_def cent_ok_def cent_shape_def)
  with name_at_enc [OF wf_name_lab_ok [OF ls(1)], of "[]"] show ?thesis by auto
qed

lemma wf_name_drop: "wf_name ls \<Longrightarrow> wf_name (drop k ls)"
proof -
  assume w: "wf_name ls"
  have "length (enc (drop k ls)) \<le> length (enc ls)"
  proof -
    have "enc ls = encl (take k ls) @ enc (drop k ls)" by (metis append_take_drop_id append_assoc enc_encl encl_append)
    then show ?thesis by simp
  qed
  with w show ?thesis by (auto simp: wf_name_def list_all_iff dest: in_set_dropD)
qed

lemma wf_name_suffix: "wf_name ls \<Longrightarrow> suffix xs ls \<Longrightarrow> wf_name xs"
  using wf_name_drop by (metis append_eq_conv_conj suffix_def)

text \<open>The set found, with the name of its owner.\<close>

definition owned :: "nat \<Rightarrow> (rr_set_t \<times> byte list) option \<Rightarrow> bool" where
  "owned tp r \<longleftrightarrow> (\<forall>s nm. r = Some (s, nm) \<longrightarrow> (\<exists>ls. wf_name ls \<and> nm = enc ls) \<and> (\<forall>d\<in>set (rs_rrs s). data_ok tp d))"

lemma owned_None [simp]: "owned tp None"
  by (simp add: owned_def)

lemma owned_set: "cent_good c \<Longrightarrow> getrrset c tp = Some s \<Longrightarrow> owned tp (Some (s, ce_qname c))"
  using cent_qname [of c] by (auto simp: owned_def cent_good_def cent_data_ok_def)

lemma authority_above_step:
  assumes "holds qs S w" "cent_good prev"
  shows "\<exists>r w'. authority_above tp prev w = Some (r, w') \<and> holds qs S w' \<and> w_ans w' = w_ans w \<and> w_net w' = w_net w \<and> owned tp r"
proof -
  from cent_qname [OF assms(2)] obtain ls where ls: "wf_name ls" "name_at (ce_qname prev) 0 ls" by blast
  let ?t = "if tp = T_NS then c_ns prev else c_soa prev"
  let ?k = "if ?t \<noteq> cundef \<and> unat ?t < length ls then length ls - unat ?t else 0"
  have "?k \<le> length ls" by simp
  from skipsegs_name [OF ls(2) this] obtain k where k: "skipsegs (ce_qname prev) 0 ?k = Some k" "name_at (ce_qname prev) k (drop ?k ls)" by blast
  then have k0: "(if ?t \<noteq> cundef \<and> unat ?t < length ls then skipsegs (ce_qname prev) 0 (length ls - unat ?t) else Some 0) = Some k"
    by (auto split: if_splits)
  from lookup_step [OF assms(1) name_at_drop [OF k(2)] wf_name_drop [OF ls(1)]] obtain c w1 where
    l: "lookup (drop k (ce_qname prev)) w = Some (c, w1)" "holds qs S w1" "w_ans w1 = w_ans w \<and> w_net w1 = w_net w" "\<forall>x. c = Some x \<longrightarrow> cent_good x" by blast
  let ?r = "case c of None \<Rightarrow> None | Some c \<Rightarrow> map_option (\<lambda>s. (s, ce_qname c)) (positive (getrrset c tp))"
  have r1: "owned tp ?r" using l(4) owned_set positive_Some by (fastforce simp: owned_def split: option.splits)
  have run: "authority_above tp prev w =
    (if ?r = None \<and> has (ce_flags prev) DF_LOCAL then do {
       nm \<leftarrow> getlocalowner (ce_qname prev) tp (w_cache w1);
       case nm of None \<Rightarrow> Some (None, w1)
       | Some k \<Rightarrow> do {
           (cached, w) \<leftarrow> lookup (drop k (ce_qname prev)) w1;
           Some (case cached of None \<Rightarrow> None | Some c \<Rightarrow> map_option (\<lambda>s. (s, ce_qname c)) (getrrset c tp), w) } }
     else Some (?r, w1))"
    unfolding authority_above_def rhnsegcnt_name [OF ls(2)] Option.bind.simps Let_def k0 l(1) prod.case ..
  show ?thesis
  proof (cases "?r = None \<and> has (ce_flags prev) DF_LOCAL")
    case False
    with run r1 l(2,3) show ?thesis by simp
  next
    case True
    from l(2) have "cache_ok (w_cache w1)" by (simp add: holds_def work_ok_def cache_good_def)
    from getlocalowner_spec [OF this ls(2,1), of tp] obtain r where
      r: "getlocalowner (ce_qname prev) tp (w_cache w1) = Some r" "\<And>k. r = Some k \<Longrightarrow> \<exists>ls'. name_at (ce_qname prev) k ls' \<and> suffix ls' (tl ls)"
      by (auto split: option.splits)
    show ?thesis
    proof (cases r)
      case None
      with run True r l(2,3) show ?thesis by simp
    next
      case (Some k2)
      with r(2) obtain ls' where ls': "name_at (ce_qname prev) k2 ls'" "suffix ls' (tl ls)" by blast
      have "suffix ls' ls" using ls'(2) suffix_order.trans suffix_tl by blast
      from lookup_step [OF l(2) name_at_drop [OF ls'(1)] wf_name_suffix [OF ls(1) this]] obtain c2 w2 where
        l2: "lookup (drop k2 (ce_qname prev)) w1 = Some (c2, w2)" "holds qs S w2" "w_ans w2 = w_ans w1 \<and> w_net w2 = w_net w1" "\<forall>x. c2 = Some x \<longrightarrow> cent_good x" by blast
      have "owned tp (case c2 of None \<Rightarrow> None | Some c \<Rightarrow> map_option (\<lambda>s. (s, ce_qname c)) (getrrset c tp))"
        using l2(4) owned_set by (fastforce simp: owned_def split: option.splits)
      with run True r Some l(3) l2 show ?thesis by simp
    qed
  qed
qed

lemma add_authority_step:
  assumes "holds qs S w" "cent_good c"
  shows "step_ok w (holds qs S) (add_authority qtype queryts c w)"
proof -
  let ?tp = "if nothing_asked qtype c then T_SOA else T_NS"
  obtain r w1 where r: "(case positive (getrrset c ?tp) of Some s \<Rightarrow> Some (Some (s, ce_qname c), w)
       | None \<Rightarrow> authority_above ?tp c w) = Some (r, w1)" "holds qs S w1" "w_ans w1 = w_ans w \<and> w_net w1 = w_net w" "owned ?tp r"
  proof (cases "positive (getrrset c ?tp)")
    case None
    with authority_above_step [OF assms, of ?tp] that show thesis by auto
  next
    case (Some s)
    with owned_set [OF assms(2) positive_Some [OF Some]] assms(1) that show thesis by auto
  qed
  have cg: "cache_good (w_cache w1)" using r(2) by (simp add: holds_def work_ok_def)
  show ?thesis
  proof (cases r)
    case None
    have "step_ok w (holds qs S) (Some (True, w1))" by (rule step_ok_same [OF step_ok_Some [where Q = "holds qs S"]])
      (use r cg in simp_all)
    with None r(1) show ?thesis by (simp add: add_authority_def)
  next
    case (Some x)
    obtain s nm where x: "x = (s, nm)" by (cases x)
    with r(4) Some obtain ls where ls: "wf_name ls" "nm = enc ls" "\<forall>d\<in>set (rs_rrs s). data_ok ?tp d" by (auto simp: owned_def)
    then have nm: "name_at nm 0 ls" using name_at_enc [OF wf_name_lab_ok [OF ls(1)], of "[]"] by simp
    let ?f = "\<lambda>d. add_ar ?tp d nm (of_int (ans_ttl s queryts))"
    have "step_ok w1 (holds qs S) (for_all ?f (rs_rrs s) w1)"
    proof (rule step_ok_for_all [where I = "\<lambda>_. holds qs S"])
      fix pre d post w2
      assume a: "rs_rrs s = pre @ d # post" "holds qs S w2"
      then have "data_ok ?tp d" using ls(3) by simp
      with nm ls(1) have "?tp = RRETP_ADD \<or> (?tp = T_NS \<or> ?tp = T_SOA) \<and> name_at nm 0 ls \<and> wf_name ls \<and> data_ok ?tp d" by simp
      moreover have "?tp \<noteq> RRETP_ADD" by (simp add: RRETP_ADD_def rr_consts)
      moreover have "work_ok w2" using a(2) by (simp add: holds_def)
      ultimately have "step_ok w2 (\<lambda>w'. work_ok w' \<and> keeps_msg w2 w') (?f d w2)" by (intro add_ar_step) blast+
      then show "step_ok w2 (holds qs S) (?f d w2)"
        by (rule step_ok_conseq) (use a(2) in \<open>unfold holds_def keeps_msg_def, blast\<close>)
    qed (rule r(2))
    then have "step_ok w (holds qs S) (for_all ?f (rs_rrs s) w1)" by (rule step_ok_same) (use r(3) cg in simp_all)
    with r(1) Some x show ?thesis by (simp add: add_authority_def)
  qed
qed

subsection \<open>Following aliases\<close>

definition cname_to :: "dns_cent_t \<Rightarrow> byte list list \<Rightarrow> bool" where
  "cname_to c ys \<longleftrightarrow> wf_name ys \<and> (\<exists>s ds. getrrset c T_CNAME = Some s \<and> rs_rrs s = enc ys # ds)"

lemma cname_to_det: "cname_to c ys \<Longrightarrow> cname_to c zs \<Longrightarrow> ys = zs"
  using enc_inj_wf by (auto simp: cname_to_def)

lemma follow_ok:
  assumes "cent_good c" "length name = DNSNAMEBUFSIZE" "name_at name 0 xs"
  shows "\<exists>f name'. follow_cname_chain c name = Some (f, name') \<and> length name' = DNSNAMEBUFSIZE \<and>
    (if f then \<exists>ys. cname_to c ys \<and> name_at name' 0 ys else \<nexists>ys. cname_to c ys)"
proof (cases "\<exists>s d ds. getrrset c T_CNAME = Some s \<and> rs_rrs s = d # ds")
  case True
  then obtain s d ds where d: "getrrset c T_CNAME = Some s" "rs_rrs s = d # ds" by blast
  with assms(1) have "rdata_ok T_CNAME d" by (auto simp: cent_good_def cent_data_ok_def data_ok_def)
  then obtain ys where ys: "wf_name ys" "d = enc ys" by (auto simp: rdata_ok_def rdata_form_def list_all2_Cons2 fits_Nam items_bytes_def)
  then have len: "length d \<le> DNSNAMEBUFSIZE" by (simp add: wf_name_def)
  let ?n = "d @ drop (length d) name"
  have "wrs name 0 d = Some ?n" using len assms(2) by (simp add: wrs_def)
  moreover have "name_at ?n 0 ys" using name_at_enc [OF wf_name_lab_ok [OF ys(1)]] ys(2) by simp
  ultimately show ?thesis using d len ys assms(2) by (auto simp: follow_cname_chain_def cname_to_def)
next
  case False
  then have "follow_cname_chain c name = Some (False, name)" by (auto simp: follow_cname_chain_def split: option.splits list.splits)
  moreover from False have "\<nexists>ys. cname_to c ys" by (auto simp: cname_to_def)
  ultimately show ?thesis using assms(2) by auto
qed

text \<open>
  What the resolver has given for a name, and the entries along a chain of aliases: the next name is the target of
  the alias in the entry before, as long as the type asked for is missing there and recursion is desired.
\<close>

definition served :: "'w resolver \<Rightarrow> nat \<Rightarrow> int \<Rightarrow> byte list list \<Rightarrow> dns_cent_t \<Rightarrow> bool" where
  "served resolve qtype queryts xs c \<longleftrightarrow> (\<exists>nm net st soa net' st'. name_at nm 0 xs \<and>
     resolve nm qtype queryts net st = Some (RC_OK, Some c, soa, net', st'))"

primrec alias_chain :: "nat \<Rightarrow> (byte list list \<Rightarrow> dns_cent_t \<Rightarrow> bool) \<Rightarrow> bool \<Rightarrow> nat \<Rightarrow> byte list list \<Rightarrow> (byte list list \<times> dns_cent_t) list \<Rightarrow> bool" where
  "alias_chain 0 R recur qtype xs cs \<longleftrightarrow> cs = []"
| "alias_chain (Suc h) R recur qtype xs cs \<longleftrightarrow> (\<exists>c cs'. cs = (xs, c) # cs' \<and> R xs c \<and>
     (if follows recur qtype c \<and> (\<exists>ys. cname_to c ys) then \<exists>ys. cname_to c ys \<and> alias_chain h R recur qtype ys cs' else cs' = []))"

definition chain_recs :: "nat \<Rightarrow> int \<Rightarrow> (byte list list \<times> dns_cent_t) list \<Rightarrow> rrec list" where
  "chain_recs qtype queryts cs = concat (map (\<lambda>(xs, c). answer_recs xs qtype queryts c) cs)"

text \<open>
  The interface of the resolver: it always returns, keeps the cache good and what surrounds it in order, and success
  comes with a good entry.
\<close>

locale name_service =
  fixes resolve :: "'w resolver" and net_ok :: "'w \<Rightarrow> bool"
  assumes resolves: "name_at nm 0 xs \<Longrightarrow> wf_name xs \<Longrightarrow> askable qtype \<Longrightarrow> cache_good st \<Longrightarrow> net_ok net \<Longrightarrow>
    \<exists>rc c soa net' st'. resolve nm qtype queryts net st = Some (rc, c, soa, net', st') \<and> cache_good st' \<and> net_ok net' \<and>
      (rc = RC_OK \<longrightarrow> (\<exists>x. c = Some x \<and> cent_good x))"
begin

lemma answer_chain_ok:
  assumes "holds qs (A, [], []) w" "name_at qname 0 xs" "wf_name xs" "length qname = DNSNAMEBUFSIZE" "askable qtype" "net_ok (w_net w)"
  shows "\<exists>ok err aa' w'. answer_chain h resolve conf recur qtype queryts udp qname aa w = Some (ok, err, aa', w') \<and> cache_good (w_cache w') \<and> net_ok (w_net w') \<and>
    (if ok then grows (w_ans w) (w_ans w') \<and> (\<exists>B. holds qs (A @ B, [], []) w' \<and>
       (case err of
          None \<Rightarrow> \<exists>cs. alias_chain h (served resolve qtype queryts) recur qtype xs cs \<and> mset B = mset (chain_recs qtype queryts cs) \<and>
            aa' = (aa \<and> (\<forall>(_, c)\<in>set cs. has (ce_flags c) DF_LOCAL))
        | Some (rc, nm, soa) \<Rightarrow> rc \<noteq> RC_OK \<and> (\<exists>ys. name_at nm 0 ys \<and> wf_name ys)))
     else \<exists>n. \<not> r_mem (w_ans w) n)"
  using assms(1-4,6)
proof (induction h arbitrary: A qname xs aa w)
  case 0
  then have "holds qs (A @ [], [], []) w" "cache_good (w_cache w)" "net_ok (w_net w)" by (simp_all add: holds_def work_ok_def)
  moreover have "alias_chain 0 (served resolve qtype queryts) recur qtype xs []" "mset [] = mset (chain_recs qtype queryts [])"
    "aa = (aa \<and> (\<forall>(_, c)\<in>set []. has (ce_flags c) DF_LOCAL))" by (simp_all add: chain_recs_def)
  ultimately show ?case unfolding answer_chain.simps
    by (intro exI [of _ True] exI [of _ None] exI [of _ aa] exI [of _ w])
      (simp only: if_True simp_thms option.case grows_refl, intro conjI exI [of _ "[]"], assumption+)
next
  case (Suc h)
  from Suc.prems(1) have cg: "cache_good (w_cache w)" by (simp add: holds_def work_ok_def)
  from resolves [OF Suc.prems(2,3) assms(5) cg Suc.prems(5), of queryts] obtain rc c soa net' st' where
    r: "resolve qname qtype queryts (w_net w) (w_cache w) = Some (rc, c, soa, net', st')" "cache_good st' \<and> net_ok net'"
      "rc = RC_OK \<longrightarrow> (\<exists>x. c = Some x \<and> cent_good x)" by blast
  let ?w = "w\<lparr>w_net := net', w_cache := st'\<rparr>"
  have w1: "holds qs (A, [], []) ?w" using Suc.prems(1) r(2) by (simp add: holds_def work_ok_def)
  show ?case
  proof (cases "rc = RC_OK")
    case False
    then have run: "answer_chain (Suc h) resolve conf recur qtype queryts udp qname aa w = Some (True, Some (rc, qname, soa), aa, ?w)"
      using r(1) by simp
    have B: "holds qs (A @ [], [], []) ?w" using w1 by simp
    have ys: "\<exists>ys. name_at qname 0 ys \<and> wf_name ys" using Suc.prems(2,3) by blast
    show ?thesis unfolding run
      by (rule exI [of _ True], rule exI [of _ "Some (rc, qname, soa)"], rule exI [of _ aa], rule exI [of _ ?w],
        unfold if_True option.case prod.case, intro conjI refl, use r(2) in simp, use r(2) in simp, simp, rule exI [of _ "[]"])
        (use B ys False in blast)
  next
    case True
    with r(3) obtain x where x: "c = Some x" "cent_good x" by blast
    let ?aa = "aa \<and> has (ce_flags x) DF_LOCAL"
    from x(2) have xd: "cent_data_ok x" by (simp add: cent_good_def)
    from add_to_response_step [OF w1 Suc.prems(2,3) xd assms(5), of queryts conf udp] obtain ok w2 where
      a: "add_to_response conf qname qtype queryts x udp ?w = Some (ok, w2)"
        "cache_good (w_cache w2) \<and> w_net w2 = net'" "if ok then grows (w_ans ?w) (w_ans w2) \<and> (\<exists>B. holds qs (A @ B, [], []) w2 \<and> mset B = mset (answer_recs xs qtype queryts x))
         else \<exists>n. \<not> r_mem (w_ans ?w) n" unfolding step_ok_def using r(2) by auto
    show ?thesis
    proof (cases ok)
      case False
      with a have run: "answer_chain (Suc h) resolve conf recur qtype queryts udp qname aa w = Some (False, None, ?aa, w2)"
        using r(1) x True by simp
      show ?thesis unfolding run using a(2,3) r(2) False
        by (intro exI [of _ False] exI [of _ None] exI [of _ ?aa] exI [of _ w2]) simp
    next
      case ok: True
      with a(3) obtain B where B: "grows (w_ans w) (w_ans w2)" "holds qs (A @ B, [], []) w2" "mset B = mset (answer_recs xs qtype queryts x)" by auto
      have sv: "served resolve qtype queryts xs x" unfolding served_def using Suc.prems(2) r(1) True x(1) by blast
      from follow_ok [OF x(2) Suc.prems(4,2)] obtain f nm where f: "follow_cname_chain x qname = Some (f, nm)" "length nm = DNSNAMEBUFSIZE"
        "if f then \<exists>ys. cname_to x ys \<and> name_at nm 0 ys else \<nexists>ys. cname_to x ys" by blast
      show ?thesis
      proof (cases "follows recur qtype x \<and> f")
        case True
        with f(3) obtain ys where ys: "cname_to x ys" "name_at nm 0 ys" by auto
        then have "wf_name ys" by (simp add: cname_to_def)
        have run: "answer_chain (Suc h) resolve conf recur qtype queryts udp qname aa w =
            answer_chain h resolve conf recur qtype queryts udp nm ?aa w2"
          using r(1) x \<open>rc = RC_OK\<close> a(1) ok f(1) True by simp
        have "net_ok (w_net w2)" using a(2) r(2) by simp
        from Suc.IH [OF B(2) ys(2) \<open>wf_name ys\<close> f(2) this, of ?aa] obtain ok3 err aa' w3 where
          i: "answer_chain h resolve conf recur qtype queryts udp nm ?aa w2 = Some (ok3, err, aa', w3)" "cache_good (w_cache w3) \<and> net_ok (w_net w3)"
            "if ok3 then grows (w_ans w2) (w_ans w3) \<and> (\<exists>C. holds qs ((A @ B) @ C, [], []) w3 \<and>
              (case err of
                 None \<Rightarrow> \<exists>cs. alias_chain h (served resolve qtype queryts) recur qtype ys cs \<and> mset C = mset (chain_recs qtype queryts cs) \<and>
                   aa' = (?aa \<and> (\<forall>(_, c)\<in>set cs. has (ce_flags c) DF_LOCAL))
               | Some (rc, nm, soa) \<Rightarrow> rc \<noteq> RC_OK \<and> (\<exists>ys. name_at nm 0 ys \<and> wf_name ys)))
             else \<exists>n. \<not> r_mem (w_ans w2) n" by blast
        show ?thesis
        proof (cases ok3)
          case False
          with i(3) B(1) mem_mono_lack have "\<exists>n. \<not> r_mem (w_ans w) n" by (auto simp: grows_def)
          then show ?thesis unfolding run i(1) using False i(2)
            by (intro exI [of _ ok3] exI [of _ err] exI [of _ aa'] exI [of _ w3]) simp
        next
          case ok3: True
          with i(3) obtain C where C: "grows (w_ans w2) (w_ans w3)" "holds qs (A @ B @ C, [], []) w3"
            "case err of
                 None \<Rightarrow> \<exists>cs. alias_chain h (served resolve qtype queryts) recur qtype ys cs \<and> mset C = mset (chain_recs qtype queryts cs) \<and>
                   aa' = (?aa \<and> (\<forall>(_, c)\<in>set cs. has (ce_flags c) DF_LOCAL))
               | Some (rc, nm, soa) \<Rightarrow> rc \<noteq> RC_OK \<and> (\<exists>ys. name_at nm 0 ys \<and> wf_name ys)" by auto
          have "case err of
                 None \<Rightarrow> \<exists>cs. alias_chain (Suc h) (served resolve qtype queryts) recur qtype xs cs \<and> mset (B @ C) = mset (chain_recs qtype queryts cs) \<and>
                   aa' = (aa \<and> (\<forall>(_, c)\<in>set cs. has (ce_flags c) DF_LOCAL))
               | Some (rc, nm, soa) \<Rightarrow> rc \<noteq> RC_OK \<and> (\<exists>ys. name_at nm 0 ys \<and> wf_name ys)"
          proof (cases err)
            case None
            with C(3) obtain cs where cs: "alias_chain h (served resolve qtype queryts) recur qtype ys cs" "mset C = mset (chain_recs qtype queryts cs)"
              "aa' = (?aa \<and> (\<forall>(_, c)\<in>set cs. has (ce_flags c) DF_LOCAL))" by auto
            have "alias_chain (Suc h) (served resolve qtype queryts) recur qtype xs ((xs, x) # cs)" using sv True ys(1) cs(1) by auto
            moreover have "mset (B @ C) = mset (chain_recs qtype queryts ((xs, x) # cs))" using B(3) cs(2) by (simp add: chain_recs_def)
            moreover have "aa' = (aa \<and> (\<forall>(_, c)\<in>set ((xs, x) # cs). has (ce_flags c) DF_LOCAL))" using cs(3) by auto
            ultimately show ?thesis unfolding None option.case by blast
          qed (use C(3) in simp)
          moreover have "holds qs (A @ (B @ C), [], []) w3" using C(2) by simp
          moreover have "grows (w_ans w) (w_ans w3)" using B(1) C(1) by (rule grows_trans)
          ultimately show ?thesis unfolding run i(1) using ok3 i(2)
            by (intro exI [of _ ok3] exI [of _ err] exI [of _ aa'] exI [of _ w3]) (simp only: if_True simp_thms, blast)
        qed
      next
        case False
        from add_authority_step [OF B(2) x(2), of qtype queryts] obtain ok4 w4 where
          u: "add_authority qtype queryts x w2 = Some (ok4, w4)" "cache_good (w_cache w4) \<and> w_net w4 = w_net w2"
            "if ok4 then grows (w_ans w2) (w_ans w4) \<and> holds qs (A @ B, [], []) w4 else \<exists>n. \<not> r_mem (w_ans w2) n"
          unfolding step_ok_def using B(2) by (auto simp: holds_def work_ok_def)
        have run: "answer_chain (Suc h) resolve conf recur qtype queryts udp qname aa w = Some (ok4, None, ?aa, w4)"
          using r(1) x \<open>rc = RC_OK\<close> a(1) ok f(1) False u(1) by simp
        show ?thesis
        proof (cases ok4)
          case False
          with u(3) B(1) mem_mono_lack have "\<exists>n. \<not> r_mem (w_ans w) n" by (auto simp: grows_def)
          then show ?thesis unfolding run using False u(2) a(2) r(2)
            by (intro exI [of _ ok4] exI [of _ None] exI [of _ ?aa] exI [of _ w4]) simp
        next
          case ok4: True
          have "alias_chain (Suc h) (served resolve qtype queryts) recur qtype xs [(xs, x)]" using sv False f(3) by (auto split: if_splits)
          moreover have "mset B = mset (chain_recs qtype queryts [(xs, x)])" using B(3) by (simp add: chain_recs_def)
          moreover have "grows (w_ans w) (w_ans w4)" "holds qs (A @ B, [], []) w4" using u(3) ok4 B(1) grows_trans by auto
          moreover have "?aa = (aa \<and> (\<forall>(_, c)\<in>set [(xs, x)]. has (ce_flags c) DF_LOCAL))" by simp
          moreover have "cache_good (w_cache w4) \<and> net_ok (w_net w4)" using u(2) a(2) r(2) by simp
          ultimately show ?thesis unfolding run using ok4
            by (intro exI [of _ ok4] exI [of _ None] exI [of _ ?aa] exI [of _ w4]) (simp only: if_True simp_thms option.case, blast)
        qed
      qed
    qed
  qed
qed

end

subsection \<open>The questions\<close>

text \<open>A question of the query, with the labels of its name.\<close>

definition asks :: "dns_queryel_t \<Rightarrow> byte list list \<times> 16 word \<times> 16 word \<Rightarrow> bool" where
  "asks qe q \<longleftrightarrow> (case q of (xs, t, c) \<Rightarrow> name_at (qe_query qe) 0 xs \<and> wf_name xs \<and> qe_type qe = t \<and> qe_class qe = c)"

lemma emits_name: "emits noname r r' [Name xs] \<Longrightarrow>
    \<exists>w ls. r_body r' = r_body r @ w \<and> nm_at (shadow noname r') (r_sz r) (length w) ls \<and> lower_name ls = lower_name xs"
proof -
  assume "emits noname r r' [Name xs]"
  then obtain w vs where w: "r_body r' = r_body r @ w" "map lower_item vs = map lower_item [Name xs]"
    "items_at (shadow noname r') (r_sz r) vs (r_sz r')" unfolding emits_def by blast
  then obtain v where v: "vs = [v]" "lower_item v = Name (lower_name xs)" by auto
  then obtain ls where "vs = [Name ls]" "lower_name ls = lower_name xs" by (cases v) auto
  with w r_sz_put [OF w(1)] show ?thesis by (auto simp: nm_at_def)
qed

lemma ensure_size_ok: "reply_ok P r \<Longrightarrow> r_alloc r \<le> a \<Longrightarrow> reply_ok P (r\<lparr>r_alloc := a, r_mem := m\<rparr>)"
  by (simp add: reply_ok_def shadow_def r_sz_def)

lemma emits_grows: "emits P r r' us \<Longrightarrow> grows r r'"
  using emits_sz [of P r r' us] by (simp add: emits_def grows_def)

lemma add_question_step:
  assumes "holds qs ([], [], []) w" "asks qe q"
  shows "step_ok w (holds (qs @ [q]) ([], [], [])) (add_question qe w)"
proof -
  obtain xs t c where q: "q = (xs, t, c)" by (cases q)
  with assms(2) have a: "name_at (qe_query qe) 0 xs" "wf_name xs" "qe_type qe = t" "qe_class qe = c" by (auto simp: asks_def)
  have n: "rhnlen (qe_query qe) = Some (length (enc xs))" using rhnlen_at_name [OF a(1)] by (simp add: rhnlen_def)
  let ?r = "w_ans w" and ?n = "dnsmsghdroffset + r_sz (w_ans w) + length (enc xs) + 4"
  show ?thesis
  proof (cases rule: ensure_size_cases [of ?n ?r])
    case (fail r')
    with n show ?thesis by (simp add: add_question_def step_ok_fail)
  next
    case (room al m)
    let ?r1 = "?r\<lparr>r_alloc := al, r_mem := m\<rparr>"
    from assms(1) room(3) have ok1: "reply_ok noname ?r1" by (intro ensure_size_ok) (simp_all add: holds_def work_ok_def)
    have g1: "grows ?r ?r1" using room(4) by (simp add: grows_def r_sz_def)
    have sz1: "r_sz ?r1 = r_sz ?r" by (simp add: r_sz_def)
    from put_name_ok [OF ok1 a(1,2)] room(2) obtain x where
      x: "put_name (qe_query qe) ?r1 = Some x" "wrote noname ?r1 [Name xs] x" by (auto simp: sz1)
    obtain res r2 where xr: "x = (res, r2)" by force
    show ?thesis
    proof (cases res)
      case None
      with x xr mem_mono_lack [OF room(4)] have "\<exists>n. \<not> r_mem ?r n" by simp
      then show ?thesis using n room(1) x(1) xr None by (simp add: add_question_def step_ok_fail)
    next
      case (Some k)
      with x xr have e2: "emits noname ?r1 r2 [Name xs]" by simp
      from emits_sz [OF e2] room(2) have sp: "dnsmsghdroffset + r_sz r2 + 4 \<le> r_alloc r2" by (simp add: sz1)
      from put_ok [OF emits_ok [OF e2], of "be16 t"] sp obtain r3 where r3: "put (be16 t) r2 = Some r3" "emits noname r2 r3 [Raw (be16 t)]" "r_sz r3 = r_sz r2 + 2" by auto
      from put_ok [OF emits_ok [OF r3(2)], of "be16 c"] sp emits_sz [OF r3(2)] r3(3) obtain r4 where
        r4: "put (be16 c) r3 = Some r4" "emits noname r3 r4 [Raw (be16 c)]" "r_sz r4 = r_sz r3 + 2" by auto
      let ?h = "(r_hdr r4)\<lparr>h_qdcount := h_qdcount (r_hdr r4) + 1\<rparr>"
      let ?r5 = "r4\<lparr>r_hdr := ?h\<rparr>"
      have run: "add_question qe w = Some (True, w\<lparr>w_ans := ?r5\<rparr>)"
        using n room(1) x(1) xr Some r3(1) r4(1) a(3,4) by (simp add: add_question_def)
      from emits_name [OF e2] obtain v ls where v: "r_body r2 = r_body ?r @ v" "nm_at (shadow noname r2) (r_sz ?r) (length v) ls"
        "lower_name ls = lower_name xs" by (auto simp: sz1)
      have b: "r_body r4 = r_body ?r @ v @ be16 t @ be16 c"
        using r3(1) r4(1) v(1) by (auto simp: put_def split: if_splits)
      have hd: "r_hdr r4 = r_hdr ?r" using e2 r3(2) r4(2) by (simp add: emits_def)
      have sh: "shadow noname ?r5 = shadow noname r2 @ be16 t @ be16 c" "shadow noname ?r5 = shadow noname ?r @ v @ be16 t @ be16 c"
        using b v(1) by (simp_all add: shadow_def)
      have "reply_ok noname r4" using r4(2) by (rule emits_ok)
      then have ok5: "reply_ok noname ?r5" by (simp add: reply_ok_def shadow_def r_sz_def)
      have "grows ?r r4" using g1 e2 r3(2) r4(2) by (blast intro: grows_trans emits_grows)
      then have g5: "grows ?r ?r5" by (simp add: grows_def r_sz_def)
      have wk: "work_ok (w\<lparr>w_ans := ?r5\<rparr>)" using assms(1) g5 ok5 by (intro work_ok_ans) (simp_all add: holds_def)
      from assms(1) have m: "questions_at (shadow noname ?r) 12 qs (r_sz ?r)" "h_qdcount (r_hdr ?r) = of_nat (length qs)"
        "h_ancount (r_hdr ?r) = 0" "h_nscount (r_hdr ?r) = 0" "h_arcount (r_hdr ?r) = 0" by (auto simp: holds_def message_of_def)
      have "length (shadow noname r2) = r_sz ?r + length v" using v(1) by (simp add: r_sz_def sizeof_dns_hdr_t_def)
      then have "question_at (shadow noname ?r5) (r_sz ?r) q (r_sz ?r5)"
        unfolding question_at_def q prod.case using v b nm_at_append [OF v(2)]
        by (intro exI [of _ "length v"] exI [of _ ls]) (auto simp: sh(1) r_sz_def)
      moreover have "questions_at (shadow noname ?r5) 12 qs (r_sz ?r)" unfolding sh(2) by (rule questions_at_append [OF m(1)])
      ultimately have "message_of ?r5 (qs @ [q]) ([], [], [])"
        using m(2-5) hd by (auto simp: message_of_def questions_at_app)
      with wk have "holds (qs @ [q]) ([], [], []) (w\<lparr>w_ans := ?r5\<rparr>)" by (simp add: holds_def)
      with g5 show ?thesis unfolding run step_ok_def
        by (intro exI [of _ True] exI [of _ "w\<lparr>w_ans := ?r5\<rparr>"]) simp
    qed
  qed
qed

lemma add_questions_step:
  assumes "holds [] ([], [], []) w" "list_all2 asks ql qs"
  shows "step_ok w (holds qs ([], [], [])) (for_all add_question ql w)"
proof -
  have len: "length ql = length qs" using assms(2) by (rule list_all2_lengthD)
  have "step_ok w (holds (take (length ql) qs) ([], [], [])) (for_all add_question ql w)"
  proof (rule step_ok_for_all [where I = "\<lambda>pre. holds (take (length pre) qs) ([], [], [])"])
    fix pre qe post w1
    assume a: "ql = pre @ qe # post" "holds (take (length pre) qs) ([], [], []) w1"
    then have "asks qe (qs ! length pre)" using list_all2_nthD2 [OF assms(2), of "length pre"] len by simp
    from add_question_step [OF a(2) this] a(1) len show "step_ok w1 (holds (take (length (pre @ [qe])) qs) ([], [], [])) (add_question qe w1)"
      by (simp add: take_Suc_conv_app_nth)
  qed (use assms(1) in simp)
  then show ?thesis by (simp add: len)
qed

end
