(* ===== verification/Compose_Ok.thy ===== *)
theory Compose_Ok
  imports Answer_Ok
begin

text \<open>
  Correctness of the answers, continued: the authority and the additional section, and the message as a whole.
\<close>

subsection \<open>Authority and additional sections\<close>

lemma already_added_ok:
  assumes "list_all (sva_ok r) sva" "name_at rhn 0 xs"
  shows "\<exists>b. already_added sva rhn tp d = Some b \<and> (b \<longrightarrow> (\<exists>s\<in>set sva. sv_tp s = tp \<and> sv_data s = d))"
  using assms(1)
proof (induction sva)
  case (Cons s sva)
  then obtain ls where ls: "wf_name ls" "sv_nm s = enc ls" by (auto simp: sva_ok_def)
  then have "name_at (sv_nm s) 0 ls" using name_at_enc [OF wf_name_lab_ok [OF ls(1)], of "[]"] by simp
  from rhnicmp_name [OF this assms(2)] Cons show ?case by auto
next
  case Nil
  show ?case by (intro exI [of _ False]) simp
qed

definition within :: "nat option \<Rightarrow> 'w work \<Rightarrow> bool" where
  "within udp w \<longleftrightarrow> (\<forall>u. udp = Some u \<longrightarrow> r_sz (w_ans w) \<le> u)"

definition ns_kn :: "reply \<Rightarrow> rr_ext_t \<Rightarrow> bool" where
  "ns_kn r e \<longleftrightarrow> (re_tp e = T_NS \<longrightarrow> (\<forall>ls. wf_name ls \<and> re_tnm e = enc ls \<longrightarrow> kn r ls))"

lemma ns_kn_grows: "grows r r' \<Longrightarrow> ns_kn r e \<Longrightarrow> ns_kn r' e"
  using kn_grows by (auto simp: ns_kn_def)

text \<open>At most one record is added, and it is of the given type.\<close>

lemma add_additional_rr_step:
  assumes "holds qs S w" "fits_order section S" "name_at rhn 0 xs" "wf_name xs" "data_ok tp d" "tp < 65536"
    "section = S_ADDITIONAL \<Longrightarrow> rdata_form tp = [Rest] \<and> kn (w_ans w) xs \<and> tp \<noteq> T_NS \<and> within udp w"
  shows "step_ok w (\<lambda>w'. (\<exists>rs. holds qs (extend section rs S) w' \<and> list_all (\<lambda>r. rr_type r = of_nat tp) rs) \<and> w_ar w' = w_ar w \<and>
     (section = S_ADDITIONAL \<longrightarrow> within udp w') \<and> (tp = T_NS \<longrightarrow> (\<forall>ls. wf_name ls \<and> d = enc ls \<longrightarrow> kn (w_ans w') ls)))
     (add_additional_rr rhn tp ttl section udp d w)"
proof -
  from assms(1) have wk: "work_ok w" "message_of (w_ans w) qs S" by (simp_all add: holds_def)
  have ext0: "extend section [] S = S" by (cases "section"; cases S) auto
  from already_added_ok [OF _ assms(3), of "w_ans w" "w_sva w" tp d] wk(1) obtain b where
    b: "already_added (w_sva w) rhn tp d = Some b" "b \<longrightarrow> (\<exists>s\<in>set (w_sva w). sv_tp s = tp \<and> sv_data s = d)" by (auto simp: work_ok_def)
  show ?thesis
  proof (cases b)
    case True
    with b(2) obtain s where s: "s \<in> set (w_sva w)" "sv_tp s = tp" "sv_data s = d" by blast
    with wk(1) have "sva_ok (w_ans w) s" by (auto simp: work_ok_def list_all_iff)
    with s have k: "tp = T_NS \<longrightarrow> (\<forall>ls. wf_name ls \<and> d = enc ls \<longrightarrow> kn (w_ans w) ls)" by (auto simp: sva_ok_def)
    have e: "\<exists>rs. holds qs (extend section rs S) w \<and> list_all (\<lambda>r. rr_type r = of_nat tp) rs"
      using assms(1) ext0 by (intro exI [of _ "[]"]) simp
    have "add_additional_rr rhn tp ttl section udp d w = Some (True, w)" using b(1) True by (simp add: add_additional_rr_def)
    then show ?thesis using e k assms(7) by (simp add: step_ok_Some)
  next
    case False
    let ?A = "\<lambda>w'. (\<exists>rs. holds qs (extend section rs S) w' \<and> list_all (\<lambda>r. rr_type r = of_nat tp) rs) \<and> w_ar w' = w_ar w \<and>
     (section = S_ADDITIONAL \<longrightarrow> within udp w') \<and> (tp = T_NS \<longrightarrow> (\<forall>ls. wf_name ls \<and> d = enc ls \<longrightarrow> kn (w_ans w') ls))"
    have 1: "step_ok w ?A (on_ans (add_rr rhn tp ttl d section udp) w)"
    proof (rule step_ok_conseq [OF add_rr_step [OF wk assms(2-6)]])
      show "section = S_ADDITIONAL \<Longrightarrow> rdata_form tp = [Rest] \<and> kn (w_ans w) xs" using assms(7) by blast
      fix w'
      assume a: "work_ok w' \<and> keeps w w' \<and>
         (section = S_ADDITIONAL \<and> udp \<noteq> None \<and> r_sz (w_ans w') = r_sz (w_ans w) \<and> message_of (w_ans w') qs S \<or>
          message_of (w_ans w') qs (extend section [mk_rec xs tp ttl d] S) \<and>
          (section = S_ADDITIONAL \<longrightarrow> (\<forall>u. udp = Some u \<longrightarrow> r_sz (w_ans w') \<le> u)) \<and> (\<forall>ls\<in>names_in tp d. kn (w_ans w') ls))"
      then have k: "work_ok w'" "w_ar w' = w_ar w" by (simp_all add: keeps_def)
      from a consider (drop) "section = S_ADDITIONAL" "r_sz (w_ans w') = r_sz (w_ans w)" "message_of (w_ans w') qs S"
        | (more) "message_of (w_ans w') qs (extend section [mk_rec xs tp ttl d] S)"
          "section = S_ADDITIONAL \<longrightarrow> (\<forall>u. udp = Some u \<longrightarrow> r_sz (w_ans w') \<le> u)" "\<forall>ls\<in>names_in tp d. kn (w_ans w') ls" by blast
      then show "?A w'"
      proof cases
        case drop
        have "\<exists>rs. holds qs (extend section rs S) w' \<and> list_all (\<lambda>r. rr_type r = of_nat tp) rs"
          using k(1) drop(3) ext0 by (intro exI [of _ "[]"]) (simp add: holds_def)
        with k(2) drop assms(7) show ?thesis by (simp add: within_def)
      next
        case more
        have "\<exists>rs. holds qs (extend section rs S) w' \<and> list_all (\<lambda>r. rr_type r = of_nat tp) rs"
          using k(1) more(1) by (intro exI [of _ "[mk_rec xs tp ttl d]"]) (simp add: holds_def mk_rec_def)
        with k(2) more(2,3) ns_names show ?thesis by (auto simp: within_def)
      qed
    qed
    have 2: "step_ok w1 ?A (sva_add rhn tp d w1)" if w1: "?A w1" for w1
    proof (rule step_ok_conseq [OF sva_add_step [OF _ assms(3,4)]])
      from w1 show "work_ok w1" "tp = T_NS \<Longrightarrow> \<forall>ls. wf_name ls \<and> d = enc ls \<longrightarrow> kn (w_ans w1) ls" by (auto simp: holds_def)
      fix w2
      assume a: "grows (w_ans w1) (w_ans w2)" "work_ok w2 \<and> keeps_msg w1 w2 \<and> w_ar w2 = w_ar w1"
      from w1 obtain rs where "holds qs (extend section rs S) w1" "list_all (\<lambda>r. rr_type r = of_nat tp) rs" by blast
      with a(2) have "\<exists>rs. holds qs (extend section rs S) w2 \<and> list_all (\<lambda>r. rr_type r = of_nat tp) rs"
        unfolding holds_def keeps_msg_def by blast
      with w1 a kn_grows [OF a(1)] show "?A w2" by (simp add: within_def keeps_msg_def)
    qed
    from False b(1) have "add_additional_rr rhn tp ttl section udp d w =
      and_then (on_ans (add_rr rhn tp ttl d section udp) w) (sva_add rhn tp d)" by (simp add: add_additional_rr_def)
    then show ?thesis using step_ok_and_then [OF 1 2] by simp
  qed
qed

definition ns_rec :: "rrec \<Rightarrow> bool" where
  "ns_rec r \<longleftrightarrow> rr_type r = of_nat T_NS \<or> rr_type r = of_nat T_SOA"

lemma add_auth_section_step:
  assumes "holds qs (A, [], []) w"
  shows "step_ok w (\<lambda>w'. (\<exists>N. holds qs (A, N, []) w' \<and> list_all ns_rec N) \<and>
     list_all (ns_kn (w_ans w')) (w_ar w')) (add_auth_section udp w)"
proof -
  let ?I = "\<lambda>pre w'. (\<exists>N. holds qs (A, N, []) w' \<and> list_all ns_rec N) \<and>
    w_ar w' = w_ar w \<and> list_all (ns_kn (w_ans w')) pre"
  let ?f = "\<lambda>rre. if re_tp rre = T_NS \<or> re_tp rre = T_SOA
     then add_additional_rr (re_nm rre) (re_tp rre) (re_ttl rre) S_AUTHORITY udp (re_tnm rre) else (\<lambda>w. Some (True, w))"
  have "step_ok w (?I (w_ar w)) (for_all ?f (w_ar w) w)"
  proof (rule step_ok_for_all [where I = ?I])
    show "?I [] w" using assms by (auto intro: exI [of _ "[]"])
    fix pre e post w1
    assume a: "w_ar w = pre @ e # post" "?I pre w1"
    then obtain N where N: "holds qs (A, N, []) w1" "list_all ns_rec N" by blast
    show "step_ok w1 (?I (pre @ [e])) (?f e w1)"
    proof (cases "re_tp e = T_NS \<or> re_tp e = T_SOA")
      case False
      with a(2) show ?thesis by (simp add: ns_kn_def step_ok_Some)
    next
      case True
      from assms a(1) have "ar_ok (w_ans w) e" by (simp add: holds_def work_ok_def)
      with True obtain ls where e: "data_ok (re_tp e) (re_tnm e)" "wf_name ls" "re_nm e = enc ls" by (auto simp: ar_ok_def)
      then have nm: "name_at (re_nm e) 0 ls" using name_at_enc [OF wf_name_lab_ok [OF e(2)], of "[]"] by simp
      have t: "re_tp e < 65536" using True by (auto simp: t_consts rr_consts)
      have "step_ok w1 (?I (pre @ [e])) (add_additional_rr (re_nm e) (re_tp e) (re_ttl e) S_AUTHORITY udp (re_tnm e) w1)"
      proof (rule step_ok_conseq)
        show "step_ok w1 (\<lambda>w'. (\<exists>rs. holds qs (extend S_AUTHORITY rs (A, N, [])) w' \<and> list_all (\<lambda>r. rr_type r = of_nat (re_tp e)) rs) \<and> w_ar w' = w_ar w1 \<and>
            (S_AUTHORITY = S_ADDITIONAL \<longrightarrow> within udp w') \<and> (re_tp e = T_NS \<longrightarrow> (\<forall>ls. wf_name ls \<and> re_tnm e = enc ls \<longrightarrow> kn (w_ans w') ls)))
           (add_additional_rr (re_nm e) (re_tp e) (re_ttl e) S_AUTHORITY udp (re_tnm e) w1)"
          by (rule add_additional_rr_step [OF N(1) _ nm e(2,1) t]) simp_all
        fix w2
        assume b: "grows (w_ans w1) (w_ans w2)"
          "(\<exists>rs. holds qs (extend S_AUTHORITY rs (A, N, [])) w2 \<and> list_all (\<lambda>r. rr_type r = of_nat (re_tp e)) rs) \<and> w_ar w2 = w_ar w1 \<and>
           (S_AUTHORITY = S_ADDITIONAL \<longrightarrow> within udp w2) \<and> (re_tp e = T_NS \<longrightarrow> (\<forall>ls. wf_name ls \<and> re_tnm e = enc ls \<longrightarrow> kn (w_ans w2) ls))"
        then obtain rs where rs: "holds qs (A, N @ rs, []) w2" "list_all (\<lambda>r. rr_type r = of_nat (re_tp e)) rs" by auto
        have "list_all ns_rec (N @ rs)" using N(2) rs(2) True by (auto simp: list_all_iff ns_rec_def)
        moreover have "ns_kn (w_ans w2) e" using b(2) unfolding ns_kn_def by blast
        then have "list_all (ns_kn (w_ans w2)) (pre @ [e])" using a(2) ns_kn_grows [OF b(1)] by (auto simp: list_all_iff)
        moreover have "w_ar w2 = w_ar w" using a(2) b(2) by simp
        ultimately show "?I (pre @ [e]) w2" using rs(1) by blast
      qed
      with True show ?thesis by simp
    qed
  qed
  then show ?thesis unfolding add_auth_section_def by (rule step_ok_conseq) simp
qed

text \<open>
  The additional section: at most the OPT record, followed by addresses, and nothing that exceeds the limit
  of the datagram, if there is one.
\<close>

definition addr_rec :: "rrec \<Rightarrow> bool" where
  "addr_rec r \<longleftrightarrow> rr_type r = of_nat T_A \<or> rr_type r = of_nat T_AAAA"

definition adding :: "(byte list list \<times> 16 word \<times> 16 word) list \<Rightarrow> rrec list \<Rightarrow> rrec list \<Rightarrow> rrec list \<Rightarrow> nat option \<Rightarrow>
    rr_ext_t list \<Rightarrow> 'w work \<Rightarrow> bool" where
  "adding qs A N O' udp ar w \<longleftrightarrow> (\<exists>D. holds qs (A, N, O' @ D) w \<and> list_all addr_rec D) \<and> within udp w \<and> w_ar w = ar \<and>
     list_all (ns_kn (w_ans w)) ar"

lemma adding_rr_step:
  assumes "adding qs A N O' udp ar w" "name_at rhn 0 xs" "wf_name xs" "data_ok tp d" "tp = T_A \<or> tp = T_AAAA" "kn (w_ans w) xs"
  shows "step_ok w (adding qs A N O' udp ar) (add_additional_rr rhn tp ttl S_ADDITIONAL udp d w)"
proof -
  from assms(1) obtain D where D: "holds qs (A, N, O' @ D) w" "list_all addr_rec D" "within udp w" "w_ar w = ar"
    "list_all (ns_kn (w_ans w)) ar" unfolding adding_def by blast
  have t: "tp < 65536" "rdata_form tp = [Rest]" "tp \<noteq> T_NS" using assms(5) by (auto simp: t_consts rr_consts rdata_form_def)
  show ?thesis
  proof (rule step_ok_conseq)
    show "step_ok w (\<lambda>w'. (\<exists>rs. holds qs (extend S_ADDITIONAL rs (A, N, O' @ D)) w' \<and> list_all (\<lambda>r. rr_type r = of_nat tp) rs) \<and> w_ar w' = w_ar w \<and>
      (S_ADDITIONAL = S_ADDITIONAL \<longrightarrow> within udp w') \<and> (tp = T_NS \<longrightarrow> (\<forall>ls. wf_name ls \<and> d = enc ls \<longrightarrow> kn (w_ans w') ls)))
      (add_additional_rr rhn tp ttl S_ADDITIONAL udp d w)"
      by (rule add_additional_rr_step [OF D(1) _ assms(2,3,4) t(1)]) (use t assms(6) D(3) in simp_all)
    fix w'
    assume g: "grows (w_ans w) (w_ans w')" and a: "(\<exists>rs. holds qs (extend S_ADDITIONAL rs (A, N, O' @ D)) w' \<and> list_all (\<lambda>r. rr_type r = of_nat tp) rs) \<and> w_ar w' = w_ar w \<and>
      (S_ADDITIONAL = S_ADDITIONAL \<longrightarrow> within udp w') \<and> (tp = T_NS \<longrightarrow> (\<forall>ls. wf_name ls \<and> d = enc ls \<longrightarrow> kn (w_ans w') ls))"
    from a obtain rs where rs: "holds qs (A, N, O' @ D @ rs) w'" "list_all (\<lambda>r. rr_type r = of_nat tp) rs" by auto
    have "list_all addr_rec (D @ rs)" using D(2) rs(2) assms(5) by (auto simp: list_all_iff addr_rec_def)
    moreover have "list_all (ns_kn (w_ans w')) ar" using D(5) ns_kn_grows [OF g] by (auto simp: list_all_iff)
    ultimately show "adding qs A N O' udp ar w'" using rs(1) a D(4) unfolding adding_def by blast
  qed
qed

lemma addressed:
  assumes "holds qs S w" "e \<in> set (w_ar w)" "re_tp e = T_NS \<or> re_tp e = RRETP_ADD" "ns_kn (w_ans w) e"
  shows "\<exists>ls. wf_name ls \<and> name_at (re_tnm e) 0 ls \<and> kn (w_ans w) ls"
proof -
  from assms(1,2) have e: "ar_ok (w_ans w) e" by (auto simp: holds_def work_ok_def list_all_iff)
  have "\<exists>ls. wf_name ls \<and> re_tnm e = enc ls \<and> kn (w_ans w) ls"
  proof (cases "re_tp e = T_NS")
    case True
    with e have "rdata_ok T_NS (re_tnm e)" by (auto simp: ar_ok_def data_ok_def)
    then obtain ys where "wf_name ys" "re_tnm e = enc ys" by (auto simp: rdata_ok_def rdata_form_def list_all2_Cons2 fits_Nam items_bytes_def)
    with assms(4) True show ?thesis by (auto simp: ns_kn_def)
  next
    case False
    with e assms(3) show ?thesis by (auto simp: ar_ok_def)
  qed
  then show ?thesis using name_at_enc [OF wf_name_lab_ok, of _ "[]"] by auto
qed

lemma adding_set_step:
  assumes "adding qs A N O' udp ar w" "name_at rhn 0 xs" "wf_name xs" "cent_good c" "tp = T_A \<or> tp = T_AAAA" "kn (w_ans w) xs"
  shows "step_ok w (adding qs A N O' udp ar) (add_additional_set conf rhn queryts udp c tp w)"
proof (cases "\<exists>s. getrrset c tp = Some s \<and> rs_rrs s \<noteq> []")
  case False
  with assms(1) show ?thesis by (auto simp: add_additional_set_def intro: step_ok_Some split: option.splits)
next
  case True
  then obtain s where s: "getrrset c tp = Some s" "rs_rrs s \<noteq> []" by blast
  obtain bs w1 where o: "rr_order conf (rs_rrs s) w = (bs, w1)" by force
  note oo = rr_order_mset [OF o]
  have ad1: "adding qs A N O' udp ar w1" using assms(1) oo by (auto simp: adding_def holds_def within_def keeps_def)
  let ?ttl = "of_int (ans_ttl s queryts)"
  have "step_ok w1 (\<lambda>w'. adding qs A N O' udp ar w' \<and> kn (w_ans w') xs) (for_all (add_additional_rr rhn tp ?ttl S_ADDITIONAL udp) bs w1)"
  proof (rule step_ok_for_all [where I = "\<lambda>_ w'. adding qs A N O' udp ar w' \<and> kn (w_ans w') xs"])
    show "adding qs A N O' udp ar w1 \<and> kn (w_ans w1) xs" using ad1 assms(6) oo by simp
    fix pre b post w2
    assume a: "bs = pre @ b # post" "adding qs A N O' udp ar w2 \<and> kn (w_ans w2) xs"
    from a(1) have "b \<in> set bs" by simp
    then have "b \<in> set (rs_rrs s)" using oo by (metis mset_eq_setD)
    then have "data_ok tp b" using assms(4) s(1) by (auto simp: cent_good_def cent_data_ok_def)
    with a(2) have "step_ok w2 (adding qs A N O' udp ar) (add_additional_rr rhn tp ?ttl S_ADDITIONAL udp b w2)"
      using assms(2,3,5) by (intro adding_rr_step) blast+
    then show "step_ok w2 (\<lambda>w'. adding qs A N O' udp ar w' \<and> kn (w_ans w') xs) (add_additional_rr rhn tp ?ttl S_ADDITIONAL udp b w2)"
      by (rule step_ok_conseq) (use a(2) kn_grows in blast)
  qed
  then have "step_ok w1 (adding qs A N O' udp ar) (for_all (add_additional_rr rhn tp ?ttl S_ADDITIONAL udp) bs w1)"
    by (rule step_ok_conseq) blast
  then have "step_ok w (adding qs A N O' udp ar) (for_all (add_additional_rr rhn tp ?ttl S_ADDITIONAL udp) bs w1)"
    by (rule step_ok_same) (use oo in \<open>simp_all add: keeps_def\<close>)
  with s o show ?thesis by (simp add: add_additional_set_def add_additional_rrs_def)
qed

lemma adding_a_step:
  assumes "adding qs A N O' udp ar w" "name_at rhn 0 xs" "wf_name xs" "kn (w_ans w) xs"
  shows "step_ok w (adding qs A N O' udp ar) (add_additional_a conf rhn queryts udp w)"
proof -
  from assms(1) obtain D where D: "holds qs (A, N, O' @ D) w" unfolding adding_def by blast
  from lookup_step [OF D assms(2,3)] obtain c w1 where l: "lookup rhn w = Some (c, w1)" "holds qs (A, N, O' @ D) w1" "w_ans w1 = w_ans w \<and> w_net w1 = w_net w"
    "w_ar w1 = w_ar w" "\<forall>x. c = Some x \<longrightarrow> cent_good x" by blast
  have cg: "cache_good (w_cache w1)" using l(2) by (simp add: holds_def work_ok_def)
  have ad1: "adding qs A N O' udp ar w1"
    using assms(1) l by (auto simp: adding_def within_def holds_def work_ok_def)
  show ?thesis
  proof (cases c)
    case None
    have "step_ok w1 (adding qs A N O' udp ar) (Some (True, w1))" by (rule step_ok_Some [where Q = "adding qs A N O' udp ar", OF ad1])
    from step_ok_same [OF this conjunct1 [OF l(3)] conjunct2 [OF l(3)] cg] None l(1) show ?thesis by (simp add: add_additional_a_def)
  next
    case (Some x)
    with l(5) have x: "cent_good x" by simp
    let ?Q = "\<lambda>w'. adding qs A N O' udp ar w' \<and> kn (w_ans w') xs"
    have k1: "kn (w_ans w1) xs" using assms(4) l(3) by simp
    have "step_ok w1 ?Q (add_additional_set conf rhn queryts udp x T_A w1)"
      by (rule step_ok_conseq [OF adding_set_step [OF ad1 assms(2,3) x _ k1]]) (use k1 kn_grows in blast)+
    then have "step_ok w1 (adding qs A N O' udp ar)
      (and_then (add_additional_set conf rhn queryts udp x T_A w1) (add_additional_set conf rhn queryts udp x T_AAAA))"
      by (rule step_ok_and_then) (rule adding_set_step, use assms(2,3) x in auto)
    from step_ok_same [OF this conjunct1 [OF l(3)] conjunct2 [OF l(3)] cg] Some l(1) show ?thesis by (simp add: add_additional_a_def)
  qed
qed

lemma adding_all_step:
  assumes "adding qs A N O' udp ar w"
  shows "step_ok w (adding qs A N O' udp ar) (for_all (\<lambda>rre. if re_tp rre = T_NS \<or> re_tp rre = RRETP_ADD
        then add_additional_a conf (re_tnm rre) queryts udp else (\<lambda>w. Some (True, w))) ar w)"
proof (rule step_ok_for_all [where I = "\<lambda>_. adding qs A N O' udp ar"])
  fix pre e post w1
  assume a: "ar = pre @ e # post" "adding qs A N O' udp ar w1"
  then obtain D where D: "holds qs (A, N, O' @ D) w1" "w_ar w1 = ar" "ns_kn (w_ans w1) e" unfolding adding_def by (auto simp: list_all_iff)
  show "step_ok w1 (adding qs A N O' udp ar) ((if re_tp e = T_NS \<or> re_tp e = RRETP_ADD
        then add_additional_a conf (re_tnm e) queryts udp else (\<lambda>w. Some (True, w))) w1)"
  proof (cases "re_tp e = T_NS \<or> re_tp e = RRETP_ADD")
    case False
    with a(2) show ?thesis by (simp add: step_ok_Some)
  next
    case True
    have "e \<in> set (w_ar w1)" using a(1) D(2) by simp
    from addressed [OF D(1) this True D(3)] adding_a_step [OF a(2)] True show ?thesis by auto
  qed
qed (rule assms)

lemma add_opt_step:
  assumes "holds qs (A, N, []) w"
  shows "step_ok w (\<lambda>w'. (\<exists>O'. holds qs (A, N, O') w' \<and> O' = (if edns then [opt_rec (ac_udpbufsize conf) (of_nat (rc_num rc)) 0 0] else [])) \<and>
     w_ar w' = w_ar w \<and> r_sz (w_ans w') = r_sz (w_ans w) + (if edns then sizeof_opt_pseudo_rr else 0)) (add_opt conf edns rc w)"
proof (cases edns)
  case False
  with assms show ?thesis by (simp add: add_opt_def step_ok_Some)
next
  case True
  let ?o = "opt_rec (ac_udpbufsize conf) (of_nat (rc_num rc)) 0 0"
  from assms have wk: "work_ok w" "message_of (w_ans w) qs (A, N, [])" by (simp_all add: holds_def)
  then have "reply_ok noname (w_ans w)" by (simp add: work_ok_def)
  from add_opt_pseudo_rr_ok [OF this, of "ac_udpbufsize conf" "of_nat (rc_num rc)" 0 0] obtain ok r where
    r: "add_opt_pseudo_rr (ac_udpbufsize conf) (of_nat (rc_num rc)) 0 0 (w_ans w) = Some (ok, r)" "\<not> ok \<longrightarrow> (\<exists>n. \<not> r_mem (w_ans w) n)"
      "ok \<longrightarrow> reply_ok noname r \<and> mem_mono (r_mem (w_ans w)) (r_mem r) \<and> r_cb r = r_cb (w_ans w) \<and>
       r_body r = r_body (w_ans w) @ opt_bytes (ac_udpbufsize conf) (of_nat (rc_num rc)) 0 0 \<and> r_hdr r = count_section S_ADDITIONAL (r_hdr (w_ans w)) \<and>
       rec_at (shadow noname r) (r_sz (w_ans w)) ?o (r_sz r)" by (elim exE conjE) (rule that; assumption)
  have run: "add_opt conf edns rc w = Some (ok, w\<lparr>w_ans := r\<rparr>)" using True r(1) by (simp add: add_opt_def on_ans_def)
  show ?thesis
  proof (cases ok)
    case False
    with r(2) show ?thesis unfolding run using True by (simp add: step_ok_fail)
  next
    case ok: True
    with r(3) have r3: "reply_ok noname r" "mem_mono (r_mem (w_ans w)) (r_mem r)" "r_cb r = r_cb (w_ans w)"
       "r_body r = r_body (w_ans w) @ opt_bytes (ac_udpbufsize conf) (of_nat (rc_num rc)) 0 0" "r_hdr r = count_section S_ADDITIONAL (r_hdr (w_ans w))"
       "rec_at (shadow noname r) (r_sz (w_ans w)) ?o (r_sz r)" by simp_all
    have sz: "r_sz r = r_sz (w_ans w) + 11" using r3(4) by (simp add: r_sz_def)
    have g: "grows (w_ans w) r" using r3(2,3,5) sz by (simp add: grows_def)
    have "message_of r qs (A, N, [?o])" using message_of_add [OF wk(2) _ r3(4,5,6)] by simp
    moreover have "work_ok (w\<lparr>w_ans := r\<rparr>)" by (rule work_ok_ans [OF wk(1) g r3(1)])
    ultimately have "holds qs (A, N, [?o]) (w\<lparr>w_ans := r\<rparr>)" by (simp add: holds_def)
    then show ?thesis unfolding run step_ok_def using ok True g sz
      by (intro exI [of _ True] exI [of _ "w\<lparr>w_ans := r\<rparr>"]) (simp add: msg_sizes)
  qed
qed

text \<open>The two sections that follow the answers.\<close>

definition addl_ok :: "ans_conf \<Rightarrow> bool \<Rightarrow> nat option \<Rightarrow> rc \<Rightarrow> rrec list \<Rightarrow> reply \<Rightarrow> bool" where
  "addl_ok conf edns udp rc D r \<longleftrightarrow> D = [] \<or>
     (\<exists>D'. D = (if edns then [opt_rec (ac_udpbufsize conf) (of_nat (rc_num rc)) 0 0] else []) @ D' \<and> list_all addr_rec D' \<and>
        (\<forall>u. udp = Some u \<longrightarrow> r_sz r \<le> u))"

lemma add_addl_section_step:
  assumes "holds qs (A, N, []) w" "list_all (ns_kn (w_ans w)) (w_ar w)"
  shows "step_ok w (\<lambda>w'. \<exists>D. holds qs (A, N, D) w' \<and> addl_ok conf edns udp rc D (w_ans w')) (add_addl_section conf edns queryts udp rc w)"
proof (cases "case udp of None \<Rightarrow> False | Some u \<Rightarrow> r_sz (w_ans w) + sizeof_opt_pseudo_rr > u")
  case True
  then have "add_addl_section conf edns queryts udp rc w = Some (True, w)" by (simp add: add_addl_section_def)
  moreover have "\<exists>D. holds qs (A, N, D) w \<and> addl_ok conf edns udp rc D (w_ans w)"
    using assms(1) by (intro exI [of _ "[]"]) (simp add: addl_ok_def)
  ultimately show ?thesis by (simp add: step_ok_Some)
next
  case False
  let ?O = "if edns then [opt_rec (ac_udpbufsize conf) (of_nat (rc_num rc)) 0 0] else []"
  let ?g = "\<lambda>rre. if re_tp rre = T_NS \<or> re_tp rre = RRETP_ADD then add_additional_a conf (re_tnm rre) queryts udp else (\<lambda>w. Some (True, w))"
  have 1: "step_ok w (adding qs A N ?O udp (w_ar w)) (add_opt conf edns rc w)"
  proof (rule step_ok_conseq [OF add_opt_step [OF assms(1)]])
    fix w'
    assume g: "grows (w_ans w) (w_ans w')" and a: "(\<exists>O'. holds qs (A, N, O') w' \<and> O' = ?O) \<and> w_ar w' = w_ar w \<and>
      r_sz (w_ans w') = r_sz (w_ans w) + (if edns then sizeof_opt_pseudo_rr else 0)"
    have h: "holds qs (A, N, ?O @ []) w'" using a by simp
    moreover have "within udp w'" using a False by (auto simp: within_def split: if_splits)
    moreover have "list_all (ns_kn (w_ans w')) (w_ar w)" using assms(2) ns_kn_grows [OF g] by (auto simp: list_all_iff)
    ultimately show "adding qs A N ?O udp (w_ar w) w'" unfolding adding_def using a by (intro conjI exI [of _ "[]"]) simp_all
  qed
  have 2: "step_ok w (adding qs A N ?O udp (w_ar w)) (and_then (add_opt conf edns rc w) (\<lambda>w. for_all ?g (w_ar w) w))"
  proof (rule step_ok_and_then [OF 1])
    fix w'
    assume a: "adding qs A N ?O udp (w_ar w) w'"
    then have ar: "w_ar w' = w_ar w" by (simp add: adding_def)
    show "step_ok w' (adding qs A N ?O udp (w_ar w)) (for_all ?g (w_ar w') w')" unfolding ar by (rule adding_all_step [OF a])
  qed
  have "step_ok w (\<lambda>w'. \<exists>D. holds qs (A, N, D) w' \<and> addl_ok conf edns udp rc D (w_ans w')) (and_then (add_opt conf edns rc w) (\<lambda>w. for_all ?g (w_ar w) w))"
  proof (rule step_ok_conseq [OF 2])
    fix w'
    assume "adding qs A N ?O udp (w_ar w) w'"
    then obtain D where D: "holds qs (A, N, ?O @ D) w'" "list_all addr_rec D" "within udp w'" unfolding adding_def by blast
    have "addl_ok conf edns udp rc (?O @ D) (w_ans w')" using D(2,3) unfolding addl_ok_def within_def by blast
    with D(1) show "\<exists>D. holds qs (A, N, D) w' \<and> addl_ok conf edns udp rc D (w_ans w')" by blast
  qed
  with False show ?thesis by (simp add: add_addl_section_def)
qed

lemma set_rcode_holds: "holds qs S w \<Longrightarrow> holds qs S (set_rcode rc w)"
proof -
  assume "holds qs S w"
  moreover have "sva_ok (w_ans (set_rcode rc w)) s = sva_ok (w_ans w) s" "ar_ok (w_ans (set_rcode rc w)) e = ar_ok (w_ans w) e" for s e
    by (simp_all add: set_rcode_def sva_ok_def ar_ok_def kn_def r_sz_def)
  ultimately show ?thesis
    by (simp add: holds_def work_ok_def message_of_def list_all_iff) (auto simp: set_rcode_def reply_ok_def shadow_def r_sz_def split: prod.splits)
qed

lemma add_soa_step:
  fixes w :: "'w work"
  assumes "holds qs (A, [], []) w" "name_at qname 0 xs" "wf_name xs"
  shows "step_ok w (\<lambda>w'. \<exists>N. holds qs (A, N, []) w' \<and> list_all ns_rec N) (add_soa qname soa queryts udp w)"
proof -
  let ?P = "\<lambda>w'. \<exists>N. holds qs (A, N, []) w' \<and> list_all ns_rec N"
  have none_added: "step_ok w1 ?P (Some (True, w1))" if "holds qs (A, [], []) w1" for w1 :: "'w work"
    by (rule step_ok_Some) (use that in \<open>auto intro: exI [of _ "[]"]\<close>)
  show ?thesis
  proof (cases "soa = cundef \<or> \<not> unat soa < length xs")
    case True
    have run: "add_soa qname soa queryts udp w = Some (True, w)" using True rhnsegcnt_name [OF assms(2)] by (auto simp: add_soa_def)
    have "step_ok w ?P (Some (True, w))" by (rule none_added [OF assms(1)])
    then show ?thesis unfolding run .
  next
    case False
    let ?k = "length xs - unat soa"
    from skipsegs_name [OF assms(2), of ?k] obtain k where k: "skipsegs qname 0 ?k = Some k" "name_at qname k (drop ?k xs)" by auto
    from lookup_step [OF assms(1) name_at_drop [OF k(2)] wf_name_drop [OF assms(3)]] obtain c w1 where
      l: "lookup (drop k qname) w = Some (c, w1)" "holds qs (A, [], []) w1" "w_ans w1 = w_ans w \<and> w_net w1 = w_net w" "\<forall>x. c = Some x \<longrightarrow> cent_good x" by blast
    have cg: "cache_good (w_cache w1)" using l(2) by (simp add: holds_def work_ok_def)
    let ?next = "case c of None \<Rightarrow> Some (True, w1)
          | Some c \<Rightarrow> (case positive (getrrset c T_SOA) of None \<Rightarrow> Some (True, w1)
              | Some s \<Rightarrow> for_all (\<lambda>d. on_ans (add_rr (ce_qname c) T_SOA (of_int (ans_ttl s queryts)) d S_AUTHORITY udp)) (rs_rrs s) w1)"
    have run: "add_soa qname soa queryts udp w = ?next"
      using False k(1) l(1) rhnsegcnt_name [OF assms(2)] by (simp add: add_soa_def)
    have "step_ok w1 ?P ?next"
    proof (cases "\<exists>x s. c = Some x \<and> positive (getrrset x T_SOA) = Some s")
      case False
      then have "?next = Some (True, w1)" by (auto split: option.splits)
      then show ?thesis by (simp only: none_added [OF l(2)])
    next
      case True
      then obtain x s where x: "c = Some x" "positive (getrrset x T_SOA) = Some s" by blast
      with l(4) have g: "cent_good x" by simp
      from cent_qname [OF g] obtain ls where ls: "wf_name ls" "name_at (ce_qname x) 0 ls" by blast
      let ?f = "\<lambda>d. on_ans (add_rr (ce_qname x) T_SOA (of_int (ans_ttl s queryts)) d S_AUTHORITY udp)"
      have "step_ok w1 ?P (for_all ?f (rs_rrs s) w1)"
      proof (rule step_ok_for_all [where I = "\<lambda>_. ?P"])
        show "?P w1" using l(2) by (intro exI [of _ "[]"]) simp
        fix pre d post w2
        assume a: "rs_rrs s = pre @ d # post" "?P w2"
        then obtain N where N: "holds qs (A, N, []) w2" "list_all ns_rec N" by blast
        then have wk: "work_ok w2" "message_of (w_ans w2) qs (A, N, [])" by (simp_all add: holds_def)
        have d: "data_ok T_SOA d" using g positive_Some [OF x(2)] a(1) by (auto simp: cent_good_def cent_data_ok_def)
        have t: "T_SOA < 65536" by (simp add: t_consts rr_consts)
        show "step_ok w2 ?P (?f d w2)"
        proof (rule step_ok_conseq [OF add_rr_step [OF wk _ ls(2,1) d t]])
          fix w3
          assume b: "work_ok w3 \<and> keeps w2 w3 \<and> (S_AUTHORITY = S_ADDITIONAL \<and> udp \<noteq> None \<and> r_sz (w_ans w3) = r_sz (w_ans w2) \<and> message_of (w_ans w3) qs (A, N, []) \<or>
              message_of (w_ans w3) qs (extend S_AUTHORITY [mk_rec ls T_SOA (of_int (ans_ttl s queryts)) d] (A, N, [])) \<and>
              (S_AUTHORITY = S_ADDITIONAL \<longrightarrow> (\<forall>u. udp = Some u \<longrightarrow> r_sz (w_ans w3) \<le> u)) \<and> (\<forall>ls\<in>names_in T_SOA d. kn (w_ans w3) ls))"
          let ?rc = "mk_rec ls T_SOA (of_int (ans_ttl s queryts)) d"
          from b have "holds qs (A, N @ [?rc], []) w3" by (simp add: holds_def)
          moreover have "list_all ns_rec (N @ [?rc])" using N(2) by (simp add: ns_rec_def mk_rec_def)
          ultimately show "?P w3" by blast
        qed simp_all
      qed
      with x show ?thesis by simp
    qed
    from step_ok_same [OF this conjunct1 [OF l(3)] conjunct2 [OF l(3)] cg] show ?thesis unfolding run .
  qed
qed

subsection \<open>The message as a whole\<close>

text \<open>
  The answers to all questions: for each one its chain of aliases and the entries found along it.  Their records
  make up the answer section, in some order.
\<close>

definition chains :: "'w resolver \<Rightarrow> bool \<Rightarrow> int \<Rightarrow> (byte list list \<times> 16 word \<times> 16 word) list \<Rightarrow> (byte list list \<times> dns_cent_t) list list \<Rightarrow> bool" where
  "chains resolve recur queryts qs css \<longleftrightarrow>
     list_all2 (\<lambda>(xs, t, _) cs. alias_chain (MAX_HOPS + 1) (served resolve (unat t) queryts) recur (unat t) xs cs) qs css"

fun chains_recs :: "int \<Rightarrow> (byte list list \<times> 16 word \<times> 16 word) list \<Rightarrow> (byte list list \<times> dns_cent_t) list list \<Rightarrow> rrec list" where
  "chains_recs queryts ((_, t, _) # qs) (cs # css) = chain_recs (unat t) queryts cs @ chains_recs queryts qs css"
| "chains_recs queryts _ _ = []"

definition all_local :: "(byte list list \<times> dns_cent_t) list list \<Rightarrow> bool" where
  "all_local css \<longleftrightarrow> (\<forall>cs\<in>set css. \<forall>(_, c)\<in>set cs. has (ce_flags c) DF_LOCAL)"

text \<open>
  What the client gets.  A question of an unknown type or class is refused; otherwise a message without error has the
  records of all chains of aliases, and one that denies the name at most a SOA record and an OPT record.
\<close>

definition unanswerable :: "byte list list \<times> 16 word \<times> 16 word \<Rightarrow> bool" where
  "unanswerable q \<longleftrightarrow> (case q of (xs, t, c) \<Rightarrow> \<not> askable (unat t) \<or> unat c \<noteq> C_IN \<and> unat c \<noteq> QC_ALL)"

definition hdr_for :: "dns_hdr_t \<Rightarrow> rc \<Rightarrow> bool \<Rightarrow> dns_hdr_t \<Rightarrow> bool" where
  "hdr_for hdr rc aa h \<longleftrightarrow> uncounted h = (start_hdr hdr)\<lparr>h_rcode := of_nat (rc_num rc), h_aa := aa\<rparr>"

definition answer_ok :: "'w resolver \<Rightarrow> ans_conf \<Rightarrow> dns_hdr_t \<Rightarrow> bool \<Rightarrow> nat option \<Rightarrow> int \<Rightarrow> (byte list list \<times> 16 word \<times> 16 word) list \<Rightarrow>
    rc \<Rightarrow> reply \<Rightarrow> bool" where
  "answer_ok resolve conf hdr edns udp queryts qs rc r \<longleftrightarrow> (\<exists>A N D aa. message_of r qs (A, N, D) \<and> hdr_for hdr rc aa (r_hdr r) \<and>
     reply_ok noname r \<and>
     (if list_ex unanswerable qs then rc = RC_NOTSUPP \<and> A = [] \<and> N = [] \<and> D = [] \<and> \<not> aa
      else if rc = RC_OK then
        (\<exists>css. chains resolve (h_rd hdr) queryts qs css \<and> mset A = mset (chains_recs queryts qs css) \<and> aa = all_local css) \<and>
        list_all ns_rec N \<and> addl_ok conf edns udp rc D r
      else \<not> aa \<and> list_all ns_rec N \<and>
        (if rc = RC_NAMEERR then D = (if edns then [opt_rec (ac_udpbufsize conf) (of_nat (rc_num rc)) 0 0] else []) else N = [] \<and> D = [])))"

lemma asks_unanswerable: "asks qe q \<Longrightarrow> cannot_answer qe = unanswerable q"
  by (auto simp: asks_def cannot_answer_def unanswerable_def askable_def Let_def)

lemma cannot_answer_any: "list_all2 asks ql qs \<Longrightarrow> list_ex cannot_answer ql = list_ex unanswerable qs"
  by (induction rule: list_all2_induct) (simp_all add: asks_unanswerable)

definition start_work :: "dns_hdr_t \<Rightarrow> (nat \<Rightarrow> bool) \<Rightarrow> 'w work \<Rightarrow> 'w work" where
  "start_work hdr m w = w\<lparr>w_ans := \<lparr>r_hdr = start_hdr hdr, r_body = [], r_alloc = ALLOCINITIALSIZE, r_cb = [], r_mem = m\<rparr>, w_sva := [], w_ar := []\<rparr>"

lemma uncounted_flags: "uncounted (h\<lparr>h_rcode := x\<rparr>) = (uncounted h)\<lparr>h_rcode := x\<rparr>" "uncounted (h\<lparr>h_aa := b\<rparr>) = (uncounted h)\<lparr>h_aa := b\<rparr>"
  by (simp_all add: uncounted_def)

lemma holds_aa: "holds qs S w \<Longrightarrow> message_of ((w_ans w)\<lparr>r_hdr := (r_hdr (w_ans w))\<lparr>h_aa := b\<rparr>\<rparr>) qs S \<and>
    reply_ok noname ((w_ans w)\<lparr>r_hdr := (r_hdr (w_ans w))\<lparr>h_aa := b\<rparr>\<rparr>)"
  by (simp add: holds_def work_ok_def message_of_def) (auto simp: reply_ok_def shadow_def r_sz_def split: prod.splits)

lemma start_holds: "cache_good (w_cache w) \<Longrightarrow> holds [] ([], [], []) (start_work hdr m w)"
  by (simp add: holds_def work_ok_def start_work_def message_of_def reply_ok_def cb_good_empty r_sz_def msg_sizes
      ALLOCINITIALSIZE_def sizeof_dns_hdr_t_def start_hdr_def)

lemma error_step:
  assumes "holds qs (A, [], []) w" "name_at nm 0 ys" "wf_name ys"
  shows "step_ok w (\<lambda>w'. \<exists>N D. holds qs (A, N, D) w' \<and> list_all ns_rec N \<and>
      (if rc = RC_NAMEERR then D = (if edns then [opt_rec (ac_udpbufsize conf) (of_nat (rc_num rc)) 0 0] else []) else N = [] \<and> D = []))
    (if rc = RC_NAMEERR then and_then (add_soa nm soa queryts udp w) (add_opt conf edns rc) else Some (True, w))"
proof (cases "rc = RC_NAMEERR")
  case False
  with assms(1) show ?thesis by (auto intro!: step_ok_Some exI [of _ "[]"])
next
  case True
  have "step_ok w (\<lambda>w'. \<exists>N D. holds qs (A, N, D) w' \<and> list_all ns_rec N \<and> D = (if edns then [opt_rec (ac_udpbufsize conf) (of_nat (rc_num rc)) 0 0] else []))
    (and_then (add_soa nm soa queryts udp w) (add_opt conf edns rc))"
  proof (rule step_ok_and_then [OF add_soa_step [OF assms]])
    fix w1
    assume "\<exists>N. holds qs (A, N, []) w1 \<and> list_all ns_rec N"
    then obtain N where N: "holds qs (A, N, []) w1" "list_all ns_rec N" by blast
    show "step_ok w1 (\<lambda>w'. \<exists>N D. holds qs (A, N, D) w' \<and> list_all ns_rec N \<and> D = (if edns then [opt_rec (ac_udpbufsize conf) (of_nat (rc_num rc)) 0 0] else []))
      (add_opt conf edns rc w1)"
      by (rule step_ok_conseq [OF add_opt_step [OF N(1)]]) (use N(2) in blast)
  qed
  with True show ?thesis by simp
qed

lemma sections_step:
  assumes "holds qs (A, [], []) w"
  shows "step_ok w (\<lambda>w'. \<exists>N D. holds qs (A, N, D) w' \<and> list_all ns_rec N \<and> addl_ok conf edns udp rc D (w_ans w'))
    (and_then (add_auth_section udp w) (add_addl_section conf edns queryts udp rc))"
proof (rule step_ok_and_then [OF add_auth_section_step [OF assms]])
  fix w1
  assume "(\<exists>N. holds qs (A, N, []) w1 \<and> list_all ns_rec N) \<and> list_all (ns_kn (w_ans w1)) (w_ar w1)"
  then obtain N where N: "holds qs (A, N, []) w1" "list_all ns_rec N" "list_all (ns_kn (w_ans w1)) (w_ar w1)" by blast
  show "step_ok w1 (\<lambda>w'. \<exists>N D. holds qs (A, N, D) w' \<and> list_all ns_rec N \<and> addl_ok conf edns udp rc D (w_ans w'))
    (add_addl_section conf edns queryts udp rc w1)"
    by (rule step_ok_conseq [OF add_addl_section_step [OF N(1,3)]]) (use N(2) in blast)
qed

lemma answer_error:
  assumes "holds qs (A, [], []) w" "uncounted (r_hdr (w_ans w)) = start_hdr hdr" "rc \<noteq> RC_OK" "name_at nm 0 ys" "wf_name ys"
    "\<not> list_ex unanswerable qs"
  shows "\<exists>ok w'. (if rc = RC_NAMEERR then and_then (add_soa nm soa queryts udp (set_rcode rc w)) (add_opt conf edns rc)
      else Some (True, set_rcode rc w)) = Some (ok, w') \<and> cache_good (w_cache w') \<and> w_net w' = w_net w \<and>
    (if ok then answer_ok resolve conf hdr edns udp queryts qs rc (w_ans w') else \<exists>n. \<not> r_mem (w_ans w) n)"
proof -
  let ?w = "set_rcode rc w"
  have h: "holds qs (A, [], []) ?w" by (rule set_rcode_holds [OF assms(1)])
  then have cg: "cache_good (w_cache ?w)" "w_net ?w = w_net w" by (simp_all add: holds_def work_ok_def set_rcode_def)
  have m: "r_mem (w_ans ?w) = r_mem (w_ans w)" by (simp add: set_rcode_def)
  from error_step [OF h assms(4,5), of rc edns conf soa queryts udp] cg obtain ok w' where
    x: "(if rc = RC_NAMEERR then and_then (add_soa nm soa queryts udp ?w) (add_opt conf edns rc) else Some (True, ?w)) = Some (ok, w')"
      "cache_good (w_cache w') \<and> w_net w' = w_net w" "if ok then grows (w_ans ?w) (w_ans w') \<and> (\<exists>N D. holds qs (A, N, D) w' \<and> list_all ns_rec N \<and>
      (if rc = RC_NAMEERR then D = (if edns then [opt_rec (ac_udpbufsize conf) (of_nat (rc_num rc)) 0 0] else []) else N = [] \<and> D = []))
      else \<exists>n. \<not> r_mem (w_ans ?w) n" unfolding step_ok_def by auto
  have "answer_ok resolve conf hdr edns udp queryts qs rc (w_ans w')" if "ok"
  proof -
    from that x(3) obtain N D where N: "grows (w_ans ?w) (w_ans w')" "holds qs (A, N, D) w'" "list_all ns_rec N"
      "if rc = RC_NAMEERR then D = (if edns then [opt_rec (ac_udpbufsize conf) (of_nat (rc_num rc)) 0 0] else []) else N = [] \<and> D = []" by auto
    have hd: "hdr_for hdr rc False (r_hdr (w_ans w'))"
      using N(1) assms(2) by (simp add: hdr_for_def grows_def set_rcode_def uncounted_flags) (simp add: start_hdr_def)
    have mo: "message_of (w_ans w') qs (A, N, D)" "reply_ok noname (w_ans w')" using N(2) by (simp_all add: holds_def work_ok_def)
    show ?thesis unfolding answer_ok_def
      by (rule exI [of _ A], rule exI [of _ N], rule exI [of _ D], rule exI [of _ False]) (use hd mo N(3,4) assms(3,6) in simp)
  qed
  then show ?thesis using x m cg(2) by (intro exI [of _ ok] exI [of _ w']) (simp split: if_splits)
qed

lemma answer_success:
  assumes "holds qs (A, [], []) w" "uncounted (r_hdr (w_ans w)) = start_hdr hdr" "\<not> list_ex unanswerable qs"
    "chains resolve (h_rd hdr) queryts qs css" "mset A = mset (chains_recs queryts qs css)"
  shows "\<exists>ok w'. and_then (add_auth_section udp w) (add_addl_section conf edns queryts udp RC_OK) = Some (ok, w') \<and> cache_good (w_cache w') \<and> w_net w' = w_net w \<and>
    (if ok then answer_ok resolve conf hdr edns udp queryts qs RC_OK
        (if all_local css then (w_ans w')\<lparr>r_hdr := (r_hdr (w_ans w'))\<lparr>h_aa := True\<rparr>\<rparr> else w_ans w') else \<exists>n. \<not> r_mem (w_ans w) n)"
proof -
  from assms(1) have cg: "cache_good (w_cache w)" by (simp add: holds_def work_ok_def)
  from sections_step [OF assms(1), of conf edns udp RC_OK queryts] cg obtain ok w' where
    x: "and_then (add_auth_section udp w) (add_addl_section conf edns queryts udp RC_OK) = Some (ok, w')" "cache_good (w_cache w') \<and> w_net w' = w_net w"
      "if ok then grows (w_ans w) (w_ans w') \<and> (\<exists>N D. holds qs (A, N, D) w' \<and> list_all ns_rec N \<and> addl_ok conf edns udp RC_OK D (w_ans w'))
       else \<exists>n. \<not> r_mem (w_ans w) n" unfolding step_ok_def by blast
  let ?r = "if all_local css then (w_ans w')\<lparr>r_hdr := (r_hdr (w_ans w'))\<lparr>h_aa := True\<rparr>\<rparr> else w_ans w'"
  have "answer_ok resolve conf hdr edns udp queryts qs RC_OK ?r" if "ok"
  proof -
    from that x(3) obtain N D where N: "grows (w_ans w) (w_ans w')" "holds qs (A, N, D) w'" "list_all ns_rec N" "addl_ok conf edns udp RC_OK D (w_ans w')" by auto
    have hd: "hdr_for hdr RC_OK (all_local css) (r_hdr ?r)"
      using N(1) assms(2) by (simp add: hdr_for_def grows_def uncounted_flags) (simp add: start_hdr_def rc_num_def)
    have mo: "message_of ?r qs (A, N, D)" "reply_ok noname ?r" using N(2) holds_aa [OF N(2)] by (simp_all add: holds_def work_ok_def)
    have "r_sz ?r = r_sz (w_ans w')" by (simp add: r_sz_def)
    with N(4) have ad: "addl_ok conf edns udp RC_OK D ?r" by (simp only: addl_ok_def)
    show ?thesis unfolding answer_ok_def
      by (rule exI [of _ A], rule exI [of _ N], rule exI [of _ D], rule exI [of _ "all_local css"])
        (use hd mo N(3) ad assms(3-5) in \<open>simp only: if_False if_True simp_thms, blast\<close>)
  qed
  then show ?thesis using x by (intro exI [of _ ok] exI [of _ w']) (simp split: if_splits)
qed

context name_service
begin

lemma answer_questions_ok:
  assumes "holds qq (A, [], []) w" "list_all2 asks ql qs" "list_all (\<lambda>(_, t, _). askable (unat t)) qs" "net_ok (w_net w)"
  shows "\<exists>ok err aa' w'. answer_questions ql resolve conf recur queryts udp aa w = Some (ok, err, aa', w') \<and> cache_good (w_cache w') \<and> net_ok (w_net w') \<and>
    (if ok then grows (w_ans w) (w_ans w') \<and> (\<exists>B. holds qq (A @ B, [], []) w' \<and>
       (case err of
          None \<Rightarrow> \<exists>css. chains resolve recur queryts qs css \<and> mset B = mset (chains_recs queryts qs css) \<and> aa' = (aa \<and> all_local css)
        | Some (rc, nm, soa) \<Rightarrow> rc \<noteq> RC_OK \<and> (\<exists>ys. name_at nm 0 ys \<and> wf_name ys)))
     else \<exists>n. \<not> r_mem (w_ans w) n)"
  using assms(2,1,3,4)
proof (induction arbitrary: A aa w rule: list_all2_induct)
  case Nil
  then have "holds qq (A @ [], [], []) w" "cache_good (w_cache w) \<and> net_ok (w_net w)" by (simp_all add: holds_def work_ok_def)
  moreover have "chains resolve recur queryts [] []" "mset [] = mset (chains_recs queryts [] [])" "aa = (aa \<and> all_local [])"
    by (simp_all add: chains_def all_local_def)
  ultimately show ?case unfolding answer_questions.simps
    by (intro exI [of _ True] exI [of _ None] exI [of _ aa] exI [of _ w])
      (simp only: if_True simp_thms option.case grows_refl, blast)
next
  case (Cons qe ql q qs)
  obtain xs t c where q: "q = (xs, t, c)" by (cases q)
  with Cons.hyps(1) have a: "name_at (qe_query qe) 0 xs" "wf_name xs" "qe_type qe = t" by (auto simp: asks_def)
  from Cons.prems(2) q have k: "askable (unat t)" "list_all (\<lambda>(_, t, _). askable (unat t)) qs" by simp_all
  have "length (enc xs) \<le> length (replicate DNSNAMEBUFSIZE (0::byte))" using a(2) by (simp add: wf_name_def)
  moreover have "length (enc xs) \<le> DNSNAMEBUFSIZE" using a(2) by (simp add: wf_name_def)
  ultimately obtain nm n where nm: "rhncpy (replicate DNSNAMEBUFSIZE 0) (qe_query qe) = Some (nm, n)"
    "nm = enc xs @ drop (length (enc xs)) (replicate DNSNAMEBUFSIZE 0)" using rhncpy_spec [OF a(1)] by blast
  then have nm2: "name_at nm 0 xs" "length nm = DNSNAMEBUFSIZE"
    using name_at_enc [OF wf_name_lab_ok [OF a(2)]] a(2) by (simp_all add: wf_name_def)
  from answer_chain_ok [OF Cons.prems(1) nm2(1) a(2) nm2(2) k(1) Cons.prems(3), of "MAX_HOPS + 1" conf recur queryts udp aa] obtain ok err aa1 w1 where
    c: "answer_chain (MAX_HOPS + 1) resolve conf recur (unat t) queryts udp nm aa w = Some (ok, err, aa1, w1)" "cache_good (w_cache w1) \<and> net_ok (w_net w1)"
      "if ok then grows (w_ans w) (w_ans w1) \<and> (\<exists>B. holds qq (A @ B, [], []) w1 \<and>
       (case err of
          None \<Rightarrow> \<exists>cs. alias_chain (MAX_HOPS + 1) (served resolve (unat t) queryts) recur (unat t) xs cs \<and> mset B = mset (chain_recs (unat t) queryts cs) \<and>
            aa1 = (aa \<and> (\<forall>(_, c)\<in>set cs. has (ce_flags c) DF_LOCAL))
        | Some (rc, nm, soa) \<Rightarrow> rc \<noteq> RC_OK \<and> (\<exists>ys. name_at nm 0 ys \<and> wf_name ys)))
     else \<exists>n. \<not> r_mem (w_ans w) n" by blast
  have run: "answer_questions (qe # ql) resolve conf recur queryts udp aa w =
     (if \<not> ok \<or> err \<noteq> None then Some (ok, err, aa1, w1) else answer_questions ql resolve conf recur queryts udp aa1 w1)"
    unfolding answer_questions.simps nm(1) Option.bind.simps prod.case a(3) c(1) ..
  show ?case
  proof (cases ok)
    case False
    with c(2,3) show ?thesis unfolding run
      by (intro exI [of _ False] exI [of _ err] exI [of _ aa1] exI [of _ w1]) simp
  next
    case ok: True
    with c(3) obtain B where B: "grows (w_ans w) (w_ans w1)" "holds qq (A @ B, [], []) w1"
      "case err of
          None \<Rightarrow> \<exists>cs. alias_chain (MAX_HOPS + 1) (served resolve (unat t) queryts) recur (unat t) xs cs \<and> mset B = mset (chain_recs (unat t) queryts cs) \<and>
            aa1 = (aa \<and> (\<forall>(_, c)\<in>set cs. has (ce_flags c) DF_LOCAL))
        | Some (rc, nm, soa) \<Rightarrow> rc \<noteq> RC_OK \<and> (\<exists>ys. name_at nm 0 ys \<and> wf_name ys)" by auto
    show ?thesis
    proof (cases err)
      case (Some e)
      with ok have run1: "answer_questions (qe # ql) resolve conf recur queryts udp aa w = Some (True, Some e, aa1, w1)" using run by simp
      show ?thesis unfolding run1 using B c(2) Some
        by (intro exI [of _ True] exI [of _ "Some e"] exI [of _ aa1] exI [of _ w1]) (simp only: if_True simp_thms option.case, blast)
    next
      case None
      with B(3) obtain cs where cs: "alias_chain (MAX_HOPS + 1) (served resolve (unat t) queryts) recur (unat t) xs cs"
        "mset B = mset (chain_recs (unat t) queryts cs)" "aa1 = (aa \<and> (\<forall>(_, c)\<in>set cs. has (ce_flags c) DF_LOCAL))" by auto
      from Cons.IH [OF B(2) k(2) conjunct2 [OF c(2)], of aa1] obtain ok2 err2 aa2 w2 where
        i: "answer_questions ql resolve conf recur queryts udp aa1 w1 = Some (ok2, err2, aa2, w2)" "cache_good (w_cache w2) \<and> net_ok (w_net w2)"
          "if ok2 then grows (w_ans w1) (w_ans w2) \<and> (\<exists>C. holds qq ((A @ B) @ C, [], []) w2 \<and>
       (case err2 of
          None \<Rightarrow> \<exists>css. chains resolve recur queryts qs css \<and> mset C = mset (chains_recs queryts qs css) \<and> aa2 = (aa1 \<and> all_local css)
        | Some (rc, nm, soa) \<Rightarrow> rc \<noteq> RC_OK \<and> (\<exists>ys. name_at nm 0 ys \<and> wf_name ys)))
     else \<exists>n. \<not> r_mem (w_ans w1) n" by blast
      have run1: "answer_questions (qe # ql) resolve conf recur queryts udp aa w = Some (ok2, err2, aa2, w2)" using run i(1) ok None by simp
      show ?thesis
      proof (cases ok2)
        case False
        with i(3) B(1) mem_mono_lack have "\<exists>n. \<not> r_mem (w_ans w) n" by (auto simp: grows_def)
        then show ?thesis unfolding run1 using False i(2)
          by (intro exI [of _ ok2] exI [of _ err2] exI [of _ aa2] exI [of _ w2]) simp
      next
        case ok2: True
        with i(3) obtain C where C: "grows (w_ans w1) (w_ans w2)" "holds qq (A @ (B @ C), [], []) w2"
          "case err2 of
          None \<Rightarrow> \<exists>css. chains resolve recur queryts qs css \<and> mset C = mset (chains_recs queryts qs css) \<and> aa2 = (aa1 \<and> all_local css)
        | Some (rc, nm, soa) \<Rightarrow> rc \<noteq> RC_OK \<and> (\<exists>ys. name_at nm 0 ys \<and> wf_name ys)" by auto
        have "case err2 of
          None \<Rightarrow> \<exists>css. chains resolve recur queryts (q # qs) css \<and> mset (B @ C) = mset (chains_recs queryts (q # qs) css) \<and> aa2 = (aa \<and> all_local css)
        | Some (rc, nm, soa) \<Rightarrow> rc \<noteq> RC_OK \<and> (\<exists>ys. name_at nm 0 ys \<and> wf_name ys)"
        proof (cases err2)
          case None
          with C(3) obtain css where css: "chains resolve recur queryts qs css" "mset C = mset (chains_recs queryts qs css)"
            "aa2 = (aa1 \<and> all_local css)" by auto
          have "chains resolve recur queryts (q # qs) (cs # css)" using cs(1) css(1) by (simp add: chains_def q)
          moreover have "mset (B @ C) = mset (chains_recs queryts (q # qs) (cs # css))" using cs(2) css(2) by (simp add: q)
          moreover have "aa2 = (aa \<and> all_local (cs # css))" using cs(3) css(3) by (auto simp: all_local_def)
          ultimately show ?thesis unfolding None option.case by blast
        qed (use C(3) in simp)
        moreover have "grows (w_ans w) (w_ans w2)" using B(1) C(1) by (rule grows_trans)
        ultimately show ?thesis unfolding run1 using ok2 i(2) C(2)
          by (intro exI [of _ ok2] exI [of _ err2] exI [of _ aa2] exI [of _ w2]) (simp only: if_True simp_thms, blast)
      qed
    qed
  qed
qed

lemma compose_answer_ok:
  assumes "list_all2 asks ql qs" "cache_good (w_cache w)" "net_ok (w_net w)"
  shows "\<exists>ok rc w'. compose_answer resolve conf ql hdr edns udp w = Some (ok, rc, w') \<and> cache_good (w_cache w') \<and> net_ok (w_net w') \<and>
    (if ok then answer_ok resolve conf hdr edns udp (w_time w 0) qs rc (w_ans w') else \<exists>n. \<not> r_mem (w_ans w) n)"
proof -
  let ?ts = "w_time w 0"
  obtain ok m where m: "malloc (r_mem (w_ans w)) = (ok, m)" by force
  let ?w0 = "start_work hdr m (w\<lparr>w_time := \<lambda>n. w_time w (Suc n)\<rparr>)"
  have h0: "holds [] ([], [], []) ?w0" by (rule start_holds) (use assms(2) in simp)
  have mm: "r_mem (w_ans ?w0) = m" "uncounted (r_hdr (w_ans ?w0)) = start_hdr hdr"
    by (simp_all add: start_work_def uncounted_def start_hdr_def)
  have lack: "\<exists>n. \<not> r_mem (w_ans w) n" if "grows (w_ans ?w0) r" "\<exists>n. \<not> r_mem r n" for r
    using that mem_mono_lack [of m] mem_mono_lack [of "r_mem (w_ans w)" m] mem_mono_malloc [OF m] by (auto simp: grows_def mm)
  have lack0: "\<exists>n. \<not> r_mem (w_ans w) n" if "\<not> ok" using mem_mono_malloc [OF m] that by blast
  have run0: "compose_answer resolve conf ql hdr edns udp w =
    (if \<not> ok then Some (False, RC_OK, ?w0) else do {
       (ok, w) \<leftarrow> for_all add_question ql ?w0;
       if \<not> ok then Some (False, RC_OK, w)
       else if list_ex cannot_answer ql then Some (True, RC_NOTSUPP, set_rcode RC_NOTSUPP w)
       else do {
         (ok, err, aa, w) \<leftarrow> answer_questions ql resolve conf (h_rd hdr) ?ts udp True w;
         if \<not> ok then Some (False, RC_OK, w)
         else case err of
           Some (rc, qname, soa) \<Rightarrow> do {
             (ok, w) \<leftarrow> (if rc = RC_NAMEERR
                then and_then (add_soa qname soa ?ts udp (set_rcode rc w)) (add_opt conf edns rc)
                else Some (True, set_rcode rc w));
             Some (ok, rc, w) }
         | None \<Rightarrow> do {
             (ok, w) \<leftarrow> and_then (add_auth_section udp w) (add_addl_section conf edns ?ts udp RC_OK);
             Some (ok, RC_OK, if aa then w\<lparr>w_ans := (w_ans w)\<lparr>r_hdr := (r_hdr (w_ans w))\<lparr>h_aa := True\<rparr>\<rparr>\<rparr> else w) } } })"
    unfolding compose_answer_def time_now_def Let_def prod.case start_work_def by (simp add: m)
  show ?thesis
  proof (cases ok)
    case False
    have "cache_good (w_cache ?w0)" "net_ok (w_net ?w0)" using assms(2,3) by (simp_all add: start_work_def)
    with False lack0 run0 show ?thesis
      by (intro exI [of _ False] exI [of _ RC_OK] exI [of _ ?w0]) simp
  next
    case True
    have cg0: "cache_good (w_cache ?w0)" "net_ok (w_net ?w0)" using h0 assms(3) by (simp_all add: holds_def work_ok_def start_work_def)
    from add_questions_step [OF h0 assms(1)] cg0 obtain ok1 w1 where
      q: "for_all add_question ql ?w0 = Some (ok1, w1)" "cache_good (w_cache w1) \<and> net_ok (w_net w1)"
        "if ok1 then grows (w_ans ?w0) (w_ans w1) \<and> holds qs ([], [], []) w1 else \<exists>n. \<not> r_mem (w_ans ?w0) n"
      unfolding step_ok_def by auto
    show ?thesis
    proof (cases ok1)
      case False
      with q lack [OF grows_refl] True run0 show ?thesis
        by (intro exI [of _ False] exI [of _ RC_OK] exI [of _ w1]) simp
    next
      case ok1: True
      with q(3) have q3: "grows (w_ans ?w0) (w_ans w1)" "holds qs ([], [], []) w1" by simp_all
      show ?thesis
      proof (cases "list_ex unanswerable qs")
        case un: True
        let ?w = "set_rcode RC_NOTSUPP w1"
        have run1: "compose_answer resolve conf ql hdr edns udp w = Some (True, RC_NOTSUPP, ?w)"
          using run0 True ok1 q(1) un cannot_answer_any [OF assms(1)] by simp
        have h: "holds qs ([], [], []) ?w" by (rule set_rcode_holds [OF q3(2)])
        have "hdr_for hdr RC_NOTSUPP False (r_hdr (w_ans ?w))"
          using q3(1) mm(2) by (simp add: hdr_for_def set_rcode_def uncounted_flags grows_def) (simp add: start_hdr_def)
        with h un have "answer_ok resolve conf hdr edns udp ?ts qs RC_NOTSUPP (w_ans ?w)"
          unfolding answer_ok_def holds_def work_ok_def
          by (intro exI [of _ "[]"] exI [of _ False]) simp
        moreover have "cache_good (w_cache ?w)" "net_ok (w_net ?w)" using q(2) by (simp_all add: set_rcode_def)
        ultimately show ?thesis using run1 by (intro exI [of _ True] exI [of _ RC_NOTSUPP] exI [of _ ?w]) simp
      next
        case can: False
        then have ask: "list_all (\<lambda>(_, t, _). askable (unat t)) qs" by (auto simp: list_all_iff list_ex_iff unanswerable_def)
        from answer_questions_ok [OF q3(2) assms(1) ask conjunct2 [OF q(2)], of conf "h_rd hdr" ?ts udp True] obtain ok2 err aa w2 where
          a: "answer_questions ql resolve conf (h_rd hdr) ?ts udp True w1 = Some (ok2, err, aa, w2)" "cache_good (w_cache w2) \<and> net_ok (w_net w2)"
            "if ok2 then grows (w_ans w1) (w_ans w2) \<and> (\<exists>B. holds qs ([] @ B, [], []) w2 \<and>
              (case err of
                None \<Rightarrow> \<exists>css. chains resolve (h_rd hdr) ?ts qs css \<and> mset B = mset (chains_recs ?ts qs css) \<and> aa = (True \<and> all_local css)
              | Some (rc, nm, soa) \<Rightarrow> rc \<noteq> RC_OK \<and> (\<exists>ys. name_at nm 0 ys \<and> wf_name ys)))
            else \<exists>n. \<not> r_mem (w_ans w1) n" by blast
        show ?thesis
        proof (cases ok2)
          case False
          have run2: "compose_answer resolve conf ql hdr edns udp w = Some (False, RC_OK, w2)"
            using run0 True ok1 q(1) can cannot_answer_any [OF assms(1)] a(1) False by simp
          have "\<exists>n. \<not> r_mem (w_ans w) n" using lack [OF q3(1)] a(3) False by simp
          then show ?thesis using run2 a(2) by (intro exI [of _ False] exI [of _ RC_OK] exI [of _ w2]) simp
        next
          case ok2: True
          with a(3) obtain B where B: "grows (w_ans w1) (w_ans w2)" "holds qs (B, [], []) w2"
            "case err of
                None \<Rightarrow> \<exists>css. chains resolve (h_rd hdr) ?ts qs css \<and> mset B = mset (chains_recs ?ts qs css) \<and> aa = (True \<and> all_local css)
              | Some (rc, nm, soa) \<Rightarrow> rc \<noteq> RC_OK \<and> (\<exists>ys. name_at nm 0 ys \<and> wf_name ys)" unfolding append_Nil by (simp only: if_True) blast
          have g2: "grows (w_ans ?w0) (w_ans w2)" by (rule grows_trans [OF q3(1) B(1)])
          have un2: "uncounted (r_hdr (w_ans w2)) = start_hdr hdr" using g2 mm(2) by (simp add: grows_def)
          have run2: "compose_answer resolve conf ql hdr edns udp w = (case err of
              Some (rc, qname, soa) \<Rightarrow> do {
                (ok, w) \<leftarrow> (if rc = RC_NAMEERR
                   then and_then (add_soa qname soa ?ts udp (set_rcode rc w2)) (add_opt conf edns rc)
                   else Some (True, set_rcode rc w2));
                Some (ok, rc, w) }
            | None \<Rightarrow> do {
                (ok, w) \<leftarrow> and_then (add_auth_section udp w2) (add_addl_section conf edns ?ts udp RC_OK);
                Some (ok, RC_OK, if aa then w\<lparr>w_ans := (w_ans w)\<lparr>r_hdr := (r_hdr (w_ans w))\<lparr>h_aa := True\<rparr>\<rparr>\<rparr> else w) })"
            using run0 True ok1 q(1) can cannot_answer_any [OF assms(1)] a(1) ok2 by simp
          have lack2: "\<exists>n. \<not> r_mem (w_ans w) n" if "\<exists>n. \<not> r_mem (w_ans w2) n" by (rule lack [OF g2 that])
          show ?thesis
          proof (cases err)
            case None
            with B(3) obtain css where css: "chains resolve (h_rd hdr) ?ts qs css" "mset B = mset (chains_recs ?ts qs css)" "aa = all_local css" by auto
            from answer_success [OF B(2) un2 can css(1,2), of udp conf edns] obtain ok3 w3 where
              x: "and_then (add_auth_section udp w2) (add_addl_section conf edns ?ts udp RC_OK) = Some (ok3, w3)" "cache_good (w_cache w3) \<and> w_net w3 = w_net w2"
              "if ok3 then answer_ok resolve conf hdr edns udp ?ts qs RC_OK
                 (if all_local css then (w_ans w3)\<lparr>r_hdr := (r_hdr (w_ans w3))\<lparr>h_aa := True\<rparr>\<rparr> else w_ans w3) else \<exists>n. \<not> r_mem (w_ans w2) n" by blast
            let ?w3 = "if aa then w3\<lparr>w_ans := (w_ans w3)\<lparr>r_hdr := (r_hdr (w_ans w3))\<lparr>h_aa := True\<rparr>\<rparr>\<rparr> else w3"
            have run3: "compose_answer resolve conf ql hdr edns udp w = Some (ok3, RC_OK, ?w3)" using run2 None x(1) by simp
            have w3: "cache_good (w_cache ?w3) \<and> net_ok (w_net ?w3)" "w_ans ?w3 = (if all_local css then (w_ans w3)\<lparr>r_hdr := (r_hdr (w_ans w3))\<lparr>h_aa := True\<rparr>\<rparr> else w_ans w3)"
              using x(2) a(2) css(3) by simp_all
            show ?thesis unfolding run3
              by (rule exI [of _ ok3], rule exI [of _ RC_OK], rule exI [of _ ?w3]) (use x(3) w3 lack2 in \<open>simp split: if_splits\<close>)
          next
            case (Some e)
            obtain rc nm soa where e: "e = (rc, nm, soa)" by (cases e)
            with B(3) Some obtain ys where ys: "rc \<noteq> RC_OK" "name_at nm 0 ys" "wf_name ys" by auto
            from answer_error [OF B(2) un2 ys can, of soa ?ts udp conf edns resolve] obtain ok3 w3 where
              x: "(if rc = RC_NAMEERR then and_then (add_soa nm soa ?ts udp (set_rcode rc w2)) (add_opt conf edns rc)
                 else Some (True, set_rcode rc w2)) = Some (ok3, w3)" "cache_good (w_cache w3) \<and> w_net w3 = w_net w2"
              "if ok3 then answer_ok resolve conf hdr edns udp ?ts qs rc (w_ans w3) else \<exists>n. \<not> r_mem (w_ans w2) n" by blast
            have run3: "compose_answer resolve conf ql hdr edns udp w = Some (ok3, rc, w3)"
              unfolding run2 Some e option.case prod.case x(1) by simp
            show ?thesis unfolding run3
              by (rule exI [of _ ok3], rule exI [of _ rc], rule exI [of _ w3]) (use x(2,3) a(2) lack2 in \<open>simp split: if_splits\<close>)
          qed
        qed
      qed
    qed
  qed
qed

end

end
