(* ===== verification/Queries_Ok.thy ===== *)
theory Queries_Ok
  imports Queries Compose_Ok
begin

text \<open>
  Correctness of the replies to arbitrary datagrams: the grammar of queries, the decoding, and the verdict on a query
  that the reply carries out.
\<close>

subsection \<open>The grammar\<close>

text \<open>A question, and a record of which only the frame is read.\<close>

definition q_at :: "byte list \<Rightarrow> nat \<Rightarrow> byte list list \<times> 16 word \<times> 16 word \<Rightarrow> nat \<Rightarrow> bool" where
  "q_at m p x q \<longleftrightarrow> (case x of (xs, t, c) \<Rightarrow> \<exists>n. nm_at m p n xs \<and> take 4 (drop (p + n) m) = be16 t @ be16 c \<and> q = p + n + 4)"

primrec qs_at :: "byte list \<Rightarrow> nat \<Rightarrow> (byte list list \<times> 16 word \<times> 16 word) list \<Rightarrow> nat \<Rightarrow> bool" where
  "qs_at m p [] q \<longleftrightarrow> p = q"
| "qs_at m p (x # xs) q \<longleftrightarrow> (\<exists>k. q_at m p x k \<and> qs_at m k xs q)"

definition raw_at :: "byte list \<Rightarrow> nat \<Rightarrow> rrec \<Rightarrow> nat \<Rightarrow> bool" where
  "raw_at m p r q \<longleftrightarrow> (\<exists>n len. nm_at m p n (rr_name r) \<and>
     take 10 (drop (p + n) m) = be16 (rr_type r) @ be16 (rr_cls r) @ be32 (rr_ttl r) @ be16 len \<and>
     q = p + n + 10 + unat len \<and> q \<le> length m \<and> rr_rdata r = take (unat len) (drop (p + n + 10) m))"

primrec raws_at :: "byte list \<Rightarrow> nat \<Rightarrow> rrec list \<Rightarrow> nat \<Rightarrow> bool" where
  "raws_at m p [] q \<longleftrightarrow> p = q"
| "raws_at m p (r # rs) q \<longleftrightarrow> (\<exists>k. raw_at m p r k \<and> raws_at m k rs q)"

lemma q_at_det: "q_at m p x k \<Longrightarrow> q_at m p y k' \<Longrightarrow> x = y \<and> k = k'"
proof -
  assume a: "q_at m p x k" "q_at m p y k'"
  obtain xs t c ys u d where xy: "x = (xs, t, c)" "y = (ys, u, d)" by (metis surj_pair)
  from a obtain n n' where n: "nm_at m p n xs" "nm_at m p n' ys" "take 4 (drop (p + n) m) = be16 t @ be16 c" "k = p + n + 4"
    "take 4 (drop (p + n') m) = be16 u @ be16 d" "k' = p + n' + 4" by (auto simp: q_at_def xy)
  with nm_at_det [OF n(1,2)] show ?thesis by (auto simp: xy)
qed

lemma qs_at_det: "qs_at m p xs q \<Longrightarrow> qs_at m p ys q' \<Longrightarrow> length xs = length ys \<Longrightarrow> xs = ys \<and> q = q'"
proof (induction xs arbitrary: ys p)
  case (Cons x xs)
  then obtain y zs k k' where y: "ys = y # zs" "q_at m p x k" "qs_at m k xs q" "q_at m p y k'" "qs_at m k' zs q'" by (cases ys) auto
  from q_at_det [OF y(2,4)] Cons.IH [OF y(3)] y(1,5) Cons.prems(3) show ?case by auto
qed auto

lemma get_hdr_some: "12 \<le> length m \<Longrightarrow> \<exists>h. get_hdr m = Some h"
  using GETINT16_some [of 0 m] GETINT16_some [of 4 m] GETINT16_some [of 6 m] GETINT16_some [of 8 m] GETINT16_some [of 10 m]
  by (auto simp: get_hdr_def rd_def)

subsection \<open>Decoding\<close>

text \<open>What the list of questions is to be, given the ones before.\<close>

definition query_result :: "byte list \<Rightarrow> nat \<Rightarrow> nat \<Rightarrow> dns_queryel_t list \<Rightarrow> alloc \<Rightarrow> rc \<Rightarrow> nat \<Rightarrow> nat \<Rightarrow> dns_queryel_t list \<Rightarrow> bool" where
  "query_result m n p qp alc rc p' sz' ql \<longleftrightarrow>
    (case rc of
       RC_OK \<Rightarrow> \<exists>qs ql'. length qs = n \<and> qs_at m p qs p' \<and> p' + sz' = length m \<and> ql = qp @ ql' \<and> list_all2 asks ql' qs
     | RC_TRUNC \<Rightarrow> (\<nexists>qs q. length qs = n \<and> qs_at m p qs q) \<and>
         (\<exists>qs ql' q. length qs < n \<and> qs_at m p qs q \<and> ql = qp @ ql' \<and> list_all2 asks ql' qs)
     | RC_FORMAT \<Rightarrow> \<nexists>qs q. length qs = n \<and> qs_at m p qs q
     | RC_SERVFAIL \<Rightarrow> \<exists>n. \<not> alc n
     | _ \<Rightarrow> False)"

lemma query_fail: "(\<And>x k. \<not> q_at m p x k) \<Longrightarrow> rc = RC_TRUNC \<and> ql = qp \<or> rc = RC_FORMAT \<Longrightarrow> query_result m (Suc n) p qp alc rc p' sz' ql"
proof -
  assume a: "\<And>x k. \<not> q_at m p x k" "rc = RC_TRUNC \<and> ql = qp \<or> rc = RC_FORMAT"
  have n: "\<not> (length qs = Suc n \<and> qs_at m p qs q)" for qs q using a(1) by (cases qs) auto
  have "\<exists>qs ql' q. length qs < Suc n \<and> qs_at m p qs q \<and> qp = qp @ ql' \<and> list_all2 asks ql' qs"
    by (intro exI [of _ "[]"] exI [of _ p]) simp
  with a(2) n show ?thesis unfolding query_result_def by (elim disjE conjE) (simp_all only: rc.case, blast+)
qed

lemma query_step:
  assumes "q_at m p x k" "asks qe x" "query_result m n k (qp @ [qe]) alc' rc p' sz' ql" "mem_mono alc alc'"
  shows "query_result m (Suc n) p qp alc rc p' sz' ql"
proof -
  have none: "\<nexists>qs q. length qs = Suc n \<and> qs_at m p qs q" if "\<nexists>qs q. length qs = n \<and> qs_at m k qs q"
  proof (intro notI, elim exE conjE)
    fix qs q assume "length qs = Suc n" "qs_at m p qs q"
    then show False using that q_at_det [OF assms(1)] by (cases qs) auto
  qed
  have some: "length (x # qs) = Suc (length qs) \<and> qs_at m p (x # qs) q \<and> ql = qp @ qe # ql' \<and> list_all2 asks (qe # ql') (x # qs)"
    if "qs_at m k qs q" "ql = (qp @ [qe]) @ ql'" "list_all2 asks ql' qs" for qs q ql'
    using that assms(1,2) by auto
  consider (ok) "rc = RC_OK" | (trunc) "rc = RC_TRUNC" | (format) "rc = RC_FORMAT" | (alc) "rc = RC_SERVFAIL"
    using assms(3) by (cases rc) (simp_all add: query_result_def)
  then show ?thesis
  proof cases
    case ok
    with assms(3) obtain qs ql' where a: "length qs = n" "qs_at m k qs p'" "p' + sz' = length m" "ql = (qp @ [qe]) @ ql'" "list_all2 asks ql' qs"
      unfolding query_result_def by (simp only: rc.case) blast
    from some [OF a(2,4,5)] a(1,3) show ?thesis unfolding query_result_def ok rc.case
      by (intro exI [of _ "x # qs"] exI [of _ "qe # ql'"]) simp
  next
    case trunc
    with assms(3) obtain qs ql' q where a: "\<nexists>qs q. length qs = n \<and> qs_at m k qs q" "length qs < n" "qs_at m k qs q" "ql = (qp @ [qe]) @ ql'" "list_all2 asks ql' qs"
      unfolding query_result_def by (simp only: rc.case) blast
    have "\<exists>qs ql' q. length qs < Suc n \<and> qs_at m p qs q \<and> ql = qp @ ql' \<and> list_all2 asks ql' qs"
      using some [OF a(3-5)] a(2) by (intro exI [of _ "x # qs"] exI [of _ "qe # ql'"] exI [of _ q]) simp
    with none [OF a(1)] show ?thesis unfolding query_result_def trunc rc.case by blast
  next
    case format
    with assms(3) none show ?thesis by (simp add: query_result_def)
  next
    case alc
    with assms(3) mem_mono_lack [OF assms(4)] show ?thesis by (simp add: query_result_def)
  qed
qed

lemma decode_query_loop_ok:
  assumes "p + sz = length m"
  shows "\<exists>rc p' sz' ql alc'. decode_query_loop n m p sz qp alc = Some (rc, p', sz', ql, alc') \<and> mem_mono alc alc' \<and>
    query_result m n p qp alc rc p' sz' ql"
  using assms
proof (induction n arbitrary: p sz qp alc)
  case 0
  then show ?case by (auto simp: query_result_def intro: exI [of _ "[]"])
next
  case (Suc n)
  have "length (replicate DNSNAMEBUFSIZE (0::byte)) = DNSNAMEBUFSIZE" by simp
  then show ?case
  proof (cases rule: name_cases [where m = m and p = p and b = sz])
    case (error rc tgt')
    have "\<not> q_at m p x k" for x k
    proof
      assume "q_at m p x k"
      then obtain n xs t c where n: "nm_at m p n xs" "take 4 (drop (p + n) m) = be16 t @ be16 c" by (auto simp: q_at_def split: prod.splits)
      from arg_cong [OF n(2), of length] have "p + n + 4 \<le> length m" by simp
      with error(1) [OF n(1)] Suc.prems show False by simp
    qed
    with query_fail [of m p rc qp qp n] query_fail [of m p rc "[]" qp n] error(2,3) show ?thesis by auto
  next
    case (name k ls qbuf)
    let ?p1 = "p + k" let ?s1 = "sz - k"
    have only: "\<exists>t c. x = (ls, t, c) \<and> take 4 (drop ?p1 m) = be16 t @ be16 c \<and> q = ?p1 + 4" if "q_at m p x q" for x q
      using that nm_at_det [OF name(1)] by (fastforce simp: q_at_def split: prod.splits)
    show ?thesis
    proof (cases "?s1 < 4")
      case True
      have "\<not> q_at m p x q" for x q
      proof
        assume "q_at m p x q"
        from only [OF this] obtain t c where "take 4 (drop ?p1 m) = be16 t @ be16 c" by blast
        from arg_cong [OF this, of length] True name(2) Suc.prems show False by simp
      qed
      with query_fail [of m p RC_TRUNC qp qp n] name(3) True show ?thesis by auto
    next
      case False
      then have len: "?p1 + 4 \<le> length m" "?p1 + 4 + (?s1 - 4) = length m" using name(2) Suc.prems by auto
      obtain ok alc' where a: "malloc alc = (ok, alc')" by force
      note mm = mem_mono_malloc [OF a]
      show ?thesis
      proof (cases ok)
        case False
        then have "decode_query_loop (Suc n) m p sz qp alc = Some (RC_SERVFAIL, ?p1, ?s1, [], alc')"
          using name(3) a \<open>\<not> ?s1 < 4\<close> by simp
        moreover have "query_result m (Suc n) p qp alc RC_SERVFAIL ?p1 ?s1 []" using mm False by (simp add: query_result_def)
        ultimately show ?thesis using mm by blast
      next
        case True
        from GETINT16_some [of ?p1 m] GETINT16_some [of "?p1 + 2" m] len obtain t c where
          g: "GETINT16 m ?p1 = Some (t, ?p1 + 2)" "take 2 (drop ?p1 m) = be16 t"
            "GETINT16 m (?p1 + 2) = Some (c, ?p1 + 4)" "take 2 (drop (?p1 + 2) m) = be16 c" by auto
        have "take 4 (drop ?p1 m) = take 2 (drop ?p1 m) @ take 2 (drop 2 (drop ?p1 m))"
          by (simp only: take_add [symmetric] numeral_plus_numeral) simp
        with g(2,4) have "take 4 (drop ?p1 m) = be16 t @ be16 c" by (simp add: add.commute)
        with name(1) have at: "q_at m p (ls, t, c) (?p1 + 4)" by (auto simp: q_at_def)
        let ?qe = "\<lparr>qe_type = t, qe_class = c, qe_query = enc ls\<rparr>"
        have wf: "wf_name ls" using name(1) by (auto simp: nm_at_def)
        with name_at_enc [OF wf_name_lab_ok [OF wf], of "[]"] have as: "asks ?qe (ls, t, c)" by (simp add: asks_def)
        have q: "rds qbuf 0 (length (enc ls)) = Some (enc ls)"
          using name(4,5) wf by (simp add: rds_def wf_name_def)
        have run: "decode_query_loop (Suc n) m p sz qp alc = decode_query_loop n m (?p1 + 4) (?s1 - 4) (qp @ [?qe]) alc'"
          using name(3) a True False g(1,3) q by simp
        from Suc.IH [OF len(2), of "qp @ [?qe]" alc'] obtain rc p' sz' ql alc2 where
          r: "decode_query_loop n m (?p1 + 4) (?s1 - 4) (qp @ [?qe]) alc' = Some (rc, p', sz', ql, alc2)" "mem_mono alc' alc2"
            "query_result m n (?p1 + 4) (qp @ [?qe]) alc' rc p' sz' ql" by blast
        from query_step [OF at as r(3)] mm mem_mono_trans [of alc alc' alc2] r(1,2) show ?thesis unfolding run by blast
      qed
    qed
  qed
qed

definition edns_seen :: "dns_hdr_t \<Rightarrow> nat \<Rightarrow> edns_info_t \<Rightarrow> rrec list \<Rightarrow> nat \<Rightarrow> edns_info_t \<Rightarrow> bool" where
  "edns_seen h numopt ep rs numopt' ep' \<longleftrightarrow> numopt' = numopt + length (filter is_opt rs) \<and>
     ep' = (if numopt = 0 \<and> filter is_opt rs \<noteq> [] then edns_of h (hd (filter is_opt rs)) else ep)"

lemma edns_seen_Cons: "edns_seen h (if is_opt r then numopt + 1 else numopt) (if is_opt r \<and> numopt = 0 then edns_of h r else ep) rs numopt' ep' \<Longrightarrow>
    edns_seen h numopt ep (r # rs) numopt' ep'"
  by (auto simp: edns_seen_def)

lemma raw_at_det: "raw_at m p r k \<Longrightarrow> raw_at m p r' k' \<Longrightarrow> r = r' \<and> k = k'"
proof -
  assume a: "raw_at m p r k" "raw_at m p r' k'"
  then obtain n len n' len' where n: "nm_at m p n (rr_name r)" "nm_at m p n' (rr_name r')"
    "take 10 (drop (p + n) m) = be16 (rr_type r) @ be16 (rr_cls r) @ be32 (rr_ttl r) @ be16 len" "k = p + n + 10 + unat len"
    "take 10 (drop (p + n') m) = be16 (rr_type r') @ be16 (rr_cls r') @ be32 (rr_ttl r') @ be16 len'" "k' = p + n' + 10 + unat len'"
    "rr_rdata r = take (unat len) (drop (p + n + 10) m)" "rr_rdata r' = take (unat len') (drop (p + n' + 10) m)"
    unfolding raw_at_def by blast
  with nm_at_det [OF n(1,2)] have "rr_name r = rr_name r'" "rr_type r = rr_type r'" "rr_cls r = rr_cls r'" "rr_ttl r = rr_ttl r'" "len = len'" "n = n'"
    by auto
  with n(4,6,7,8) show ?thesis by simp
qed

lemma decode_additional_ok:
  assumes "p + sz = length m" "get_hdr m = Some h"
  shows "\<exists>rc numopt' ep'. decode_query_additional n m p sz numopt ep = Some (rc, numopt', ep') \<and>
    (case rc of
       RC_OK \<Rightarrow> \<exists>rs q. length rs = n \<and> raws_at m p rs q \<and> edns_seen h numopt ep rs numopt' ep'
     | _ \<Rightarrow> rc \<in> {RC_TRUNC, RC_FORMAT} \<and> (\<nexists>rs q. length rs = n \<and> raws_at m p rs q) \<and>
         (\<exists>rs q. length rs < n \<and> raws_at m p rs q \<and> edns_seen h numopt ep rs numopt' ep'))"
  using assms(1)
proof (induction n arbitrary: p sz numopt ep)
  case 0
  then show ?case by (auto simp: edns_seen_def intro: exI [of _ "[]"])
next
  case (Suc n)
  have fail: "?case" if "decode_query_additional (Suc n) m p sz numopt ep = Some (rc, numopt, ep)" "rc = RC_TRUNC \<or> rc = RC_FORMAT"
    "\<And>r k. \<not> raw_at m p r k" for rc
  proof -
    have "\<not> (length rs = Suc n \<and> raws_at m p rs q)" for rs q using that(3) by (cases rs) auto
    moreover have "\<exists>rs q. length rs < Suc n \<and> raws_at m p rs q \<and> edns_seen h numopt ep rs numopt ep"
      by (intro exI [of _ "[]"] exI [of _ p]) (simp add: edns_seen_def)
    ultimately show ?thesis using that(1,2)
      by (intro exI [of _ rc] exI [of _ numopt] exI [of _ ep]) (elim disjE, simp_all only: rc.case simp_thms, blast+)
  qed
  have "length (replicate DNSNAMEBUFSIZE (0::byte)) = DNSNAMEBUFSIZE" by simp
  then show ?case
  proof (cases rule: name_cases [where m = m and p = p and b = sz])
    case (error rc tgt')
    have "\<not> raw_at m p r k" for r k
    proof
      assume "raw_at m p r k"
      then obtain n where n: "nm_at m p n (rr_name r)" "p + n \<le> length m" by (auto simp: raw_at_def)
      with error(1) [OF n(1)] Suc.prems show False by simp
    qed
    then show ?thesis by (rule_tac fail [of rc]) (use error(2,3) in auto)
  next
    case (name k ls nmbuf)
    let ?p1 = "p + k" let ?s1 = "sz - k"
    have l1: "?p1 + ?s1 = length m" using Suc.prems name(2) by simp
    show ?thesis
    proof (cases "?s1 < 10")
      case True
      have "\<not> raw_at m p r q" for r q using True l1 nm_at_det [OF name(1)] by (fastforce simp: raw_at_def)
      then show ?thesis by (rule_tac fail [of RC_TRUNC]) (use name(3) True in \<open>auto simp: msg_sizes\<close>)
    next
      case False
      with l1 have p10: "?p1 + 10 \<le> length m" by simp
      from rr_fields [OF this] obtain t c l len where g: "GETINT16 m ?p1 = Some (t, ?p1 + 2)" "GETINT16 m (?p1 + 2) = Some (c, ?p1 + 4)"
        "GETINT32 m (?p1 + 4) = Some (l, ?p1 + 8)" "GETINT16 m (?p1 + 8) = Some (len, ?p1 + 10)"
        "take 10 (drop ?p1 m) = be16 t @ be16 c @ be32 l @ be16 len" by auto
      have g8: "GETINT16 m (8 + (p + k)) = Some (len, ?p1 + 10)" using g(4) by (simp add: add.commute)
      let ?d = "?p1 + 10" let ?n = "unat len"
      have only: "q = ?d + ?n \<and> q \<le> length m" if "raw_at m p r q" for r q
        using that g(5) nm_at_det [OF name(1)] unfolding raw_at_def by fastforce
      show ?thesis
      proof (cases "?s1 - 10 < ?n")
        case True
        have "\<not> raw_at m p r q" for r q using only [of r q] True l1 p10 by auto
        then show ?thesis by (rule_tac fail [of RC_TRUNC]) (use name(3) g g8 False True in \<open>auto simp: msg_sizes Let_def\<close>)
      next
        case fits: False
        let ?r = "\<lparr>rr_name = ls, rr_type = t, rr_cls = c, rr_ttl = l, rr_rdata = take ?n (drop ?d m)\<rparr>"
        have dn: "?d + ?n + (?s1 - 10 - ?n) = length m" using fits l1 p10 by auto
        have at: "raw_at m p ?r (?d + ?n)" unfolding raw_at_def using name(1) g(5) dn
          by (intro exI [of _ k] exI [of _ len]) simp
        have "take 4 (drop (?p1 + 4) m) = be32 l" using GETINT32_SomeD [OF g(3)] by simp
        from edns_info_ok [OF this assms(2), of c ls t "take ?n (drop ?d m)"] have e: "edns_info m (?p1 + 4) c = Some (edns_of h ?r)" .
        let ?no = "if is_opt ?r then numopt + 1 else numopt" and ?ep = "if is_opt ?r \<and> numopt = 0 then edns_of h ?r else ep"
        have run: "decode_query_additional (Suc n) m p sz numopt ep = decode_query_additional n m (?d + ?n) (?s1 - 10 - ?n) ?no ?ep"
          using name(3) g g8 False fits e by (simp add: msg_sizes is_opt_def)
        from Suc.IH [OF dn, of ?no ?ep] obtain rc numopt' ep' where
          i: "decode_query_additional n m (?d + ?n) (?s1 - 10 - ?n) ?no ?ep = Some (rc, numopt', ep')"
            "case rc of
               RC_OK \<Rightarrow> \<exists>rs q. length rs = n \<and> raws_at m (?d + ?n) rs q \<and> edns_seen h ?no ?ep rs numopt' ep'
             | _ \<Rightarrow> rc \<in> {RC_TRUNC, RC_FORMAT} \<and> (\<nexists>rs q. length rs = n \<and> raws_at m (?d + ?n) rs q) \<and>
                 (\<exists>rs q. length rs < n \<and> raws_at m (?d + ?n) rs q \<and> edns_seen h ?no ?ep rs numopt' ep')" by blast
        have none: "\<nexists>rs q. length rs = Suc n \<and> raws_at m p rs q" if "\<nexists>rs q. length rs = n \<and> raws_at m (?d + ?n) rs q"
        proof (intro notI, elim exE conjE)
          fix rs q assume "length rs = Suc n" "raws_at m p rs q"
          then show False using that raw_at_det [OF at] by (cases rs) auto
        qed
        have some: "length (?r # rs) = Suc (length rs) \<and> raws_at m p (?r # rs) q \<and> edns_seen h numopt ep (?r # rs) numopt' ep'"
          if "raws_at m (?d + ?n) rs q" "edns_seen h ?no ?ep rs numopt' ep'" for rs q
          using that at edns_seen_Cons [OF that(2)] by auto
        have "case rc of
               RC_OK \<Rightarrow> \<exists>rs q. length rs = Suc n \<and> raws_at m p rs q \<and> edns_seen h numopt ep rs numopt' ep'
             | _ \<Rightarrow> rc \<in> {RC_TRUNC, RC_FORMAT} \<and> (\<nexists>rs q. length rs = Suc n \<and> raws_at m p rs q) \<and>
                 (\<exists>rs q. length rs < Suc n \<and> raws_at m p rs q \<and> edns_seen h numopt ep rs numopt' ep')"
        proof (cases "rc = RC_OK")
          case True
          with i(2) obtain rs q where rs: "length rs = n" "raws_at m (?d + ?n) rs q" "edns_seen h ?no ?ep rs numopt' ep'" by auto
          show ?thesis unfolding True rc.case using some [OF rs(2,3)] rs(1) by (intro exI [of _ "?r # rs"] exI [of _ q]) simp
        next
          case False
          with i(2) have "rc \<in> {RC_TRUNC, RC_FORMAT}" "\<nexists>rs q. length rs = n \<and> raws_at m (?d + ?n) rs q"
            "\<exists>rs q. length rs < n \<and> raws_at m (?d + ?n) rs q \<and> edns_seen h ?no ?ep rs numopt' ep'" by (cases rc; simp)+
          then obtain rs q where rs: "rc \<in> {RC_TRUNC, RC_FORMAT}" "\<nexists>rs q. length rs = n \<and> raws_at m (?d + ?n) rs q"
            "length rs < n" "raws_at m (?d + ?n) rs q" "edns_seen h ?no ?ep rs numopt' ep'" by blast
          have "\<exists>rs q. length rs < Suc n \<and> raws_at m p rs q \<and> edns_seen h numopt ep rs numopt' ep'"
            using some [OF rs(4,5)] rs(3) by (intro exI [of _ "?r # rs"] exI [of _ q]) simp
          with rs(1) none [OF rs(2)] show ?thesis by (elim insertE emptyE) (simp_all only: rc.case, blast+)
        qed
        with i(1) show ?thesis unfolding run by blast
      qed
    qed
  qed
qed

subsection \<open>The verdict on a query\<close>

text \<open>
  What is to happen to a datagram: nothing, an error code, or an answer to questions, possibly with the information of
  an OPT record.  A message cut off may be answered as far as it goes, if it is marked as truncated.
\<close>

type_synonym questions = "(byte list list \<times> 16 word \<times> 16 word) list"

datatype verdict = Discard | Refuse rc | Answer questions "edns_info_t option"

definition opt_verdict :: "questions \<Rightarrow> edns_info_t option \<Rightarrow> verdict" where
  "opt_verdict qs e = (case e of
     None \<Rightarrow> if qs = [] then Refuse RC_FORMAT else Answer qs None
   | Some i \<Rightarrow> if ed_version i \<noteq> 0 then Refuse RC_BADVERS else if ed_rcode i \<noteq> 0 then Refuse RC_FORMAT
       else if qs = [] then Refuse RC_FORMAT else Answer qs (Some i))"

definition opt_of :: "dns_hdr_t \<Rightarrow> rrec list \<Rightarrow> edns_info_t option" where
  "opt_of h rs = (case filter is_opt rs of [] \<Rightarrow> None | r # _ \<Rightarrow> Some (edns_of h r))"

definition whole_query :: "byte list \<Rightarrow> dns_hdr_t \<Rightarrow> questions \<Rightarrow> rrec list \<Rightarrow> bool" where
  "whole_query m h qs rs \<longleftrightarrow> length qs = unat (h_qdcount h) \<and> length rs = unat (h_arcount h) \<and> (\<exists>p q. qs_at m 12 qs p \<and> raws_at m p rs q)"

definition cut_query :: "byte list \<Rightarrow> dns_hdr_t \<Rightarrow> questions \<Rightarrow> rrec list \<Rightarrow> bool" where
  "cut_query m h qs rs \<longleftrightarrow> length qs \<le> unat (h_qdcount h) \<and> length rs \<le> unat (h_arcount h) \<and> (\<exists>p q. qs_at m 12 qs p \<and> raws_at m p rs q) \<and>
     (length qs < unat (h_qdcount h) \<longrightarrow> rs = [] \<and> h_arcount h = 0)"

definition verdict_on :: "byte list \<Rightarrow> dns_hdr_t \<Rightarrow> verdict \<Rightarrow> bool" where
  "verdict_on m h v \<longleftrightarrow>
     (if h_qr h then v = Discard
      else if h_opcode h \<noteq> 0 then v = Refuse RC_NOTSUPP
      else if h_z h then v = Refuse RC_FORMAT
      else if h_rcode h \<noteq> 0 then v = Discard
      else if h_ancount h \<noteq> 0 \<or> h_nscount h \<noteq> 0 then v = Refuse RC_FORMAT
      else if \<exists>qs rs. whole_query m h qs rs then \<exists>qs rs. whole_query m h qs rs \<and> v = opt_verdict qs (opt_of h rs)
      else v = Refuse RC_FORMAT \<or> h_tc h \<and> (\<exists>qs rs. cut_query m h qs rs \<and> v = opt_verdict qs (opt_of h rs)))"

definition query_verdict :: "byte list \<Rightarrow> verdict \<Rightarrow> bool" where
  "query_verdict m v \<longleftrightarrow> (if length m < 2 then v = Discard else if length m < 12 then v = Refuse RC_FORMAT
     else \<exists>h. get_hdr m = Some h \<and> verdict_on m h v)"

text \<open>The message for an error: the id and the opcode of the query, and for codes of more than four bits an OPT record.\<close>

definition error_msg :: "ans_conf \<Rightarrow> byte list \<Rightarrow> rc \<Rightarrow> reply \<Rightarrow> bool" where
  "error_msg conf m rc r \<longleftrightarrow> (\<exists>i. take 2 m = be16 i \<and>
     (let h = mk_error_reply i (if length m \<ge> 3 then ucast (drop_bit 3 (m ! 2)) else 0) rc in
      if rc_num rc \<ge> 16 then r_hdr r = h\<lparr>h_arcount := 1\<rparr> \<and> r_body r = opt_bytes (ac_udpbufsize conf) (of_nat (rc_num rc)) 0 0
      else r_hdr r = h \<and> r_body r = []))"

definition limit :: "ans_conf \<Rightarrow> nat option \<Rightarrow> edns_info_t option \<Rightarrow> nat option" where
  "limit conf udp e = (case udp of None \<Rightarrow> None | Some u \<Rightarrow> (case e of None \<Rightarrow> Some u
     | Some i \<Rightarrow> if unat (ed_udpsize i) > UDP_BUFSIZE then Some (min (unat (ac_udpbufsize conf)) (unat (ed_udpsize i))) else Some u))"

definition carried_out :: "'w resolver \<Rightarrow> ans_conf \<Rightarrow> byte list \<Rightarrow> nat option \<Rightarrow> int \<Rightarrow> verdict \<Rightarrow> reply option \<Rightarrow> nat option \<Rightarrow> rc option \<Rightarrow> bool" where
  "carried_out resolve conf m udp queryts v ans udp' rco \<longleftrightarrow>
     (case v of
        Discard \<Rightarrow> ans = None \<and> rco = None
      | Refuse rc \<Rightarrow> (\<exists>r. ans = Some r \<and> error_msg conf m rc r) \<and> rco = Some rc
      | Answer qs e \<Rightarrow> udp' = limit conf udp e \<and> (\<exists>h r rc. get_hdr m = Some h \<and> ans = Some r \<and> rco = Some rc \<and>
          answer_ok resolve conf h (e \<noteq> None) udp' queryts qs rc r))"

definition no_memory :: "ans_conf \<Rightarrow> byte list \<Rightarrow> alloc \<Rightarrow> reply option \<Rightarrow> bool" where
  "no_memory conf m alc ans \<longleftrightarrow> (\<exists>n. \<not> alc n) \<and> (\<forall>r. ans = Some r \<longrightarrow> error_msg conf m RC_SERVFAIL r)"

lemma add_opt_room: "add_opt_pseudo_rr u rc v z r = Some (ok, r') \<Longrightarrow> dnsmsghdroffset + r_sz r + 11 \<le> r_alloc r \<Longrightarrow> ok"
  by (auto simp: add_opt_pseudo_rr_def ensure_size_def bind_eq_Some_conv msg_sizes Let_def split: if_splits)

lemma error_reply_ok:
  assumes "2 \<le> length m"
  shows "\<exists>ans w'. error_reply conf m udp rc w = Some (ans, udp, Some rc, w') \<and> w_cache w' = w_cache w \<and> w_net w' = w_net w \<and>
    (if ans = None then \<exists>n. \<not> r_mem (w_ans w) n else \<exists>r. ans = Some r \<and> error_msg conf m rc r)"
proof -
  obtain ok a where a: "malloc (r_mem (w_ans w)) = (ok, a)" by force
  from GETINT16_some [of 0 m] assms obtain i where i: "GETINT16 m 0 = Some (i, 2)" "take 2 m = be16 i" by auto
  let ?op = "if length m \<ge> 3 then ucast (drop_bit 3 (m ! 2)) else 0"
  have op: "(if length m \<ge> 3 then map_option (\<lambda>b. ucast (drop_bit 3 b)) (rd m 2) else Some OP_QUERY) = Some ?op"
    by (simp add: rd_def OP_QUERY_def)
  let ?h = "mk_error_reply i ?op rc"
  let ?r = "\<lparr>r_hdr = ?h, r_body = [], r_alloc = dnsmsghdroffset + sizeof_dns_hdr_t + (if rc_num rc \<ge> 16 then sizeof_opt_pseudo_rr else 0), r_cb = [], r_mem = a\<rparr>"
  show ?thesis
  proof (cases ok)
    case False
    with a mem_mono_malloc [OF a] show ?thesis by (simp add: error_reply_def Let_def)
  next
    case True
    show ?thesis
    proof (cases "rc_num rc \<ge> 16")
      case False
      with True a i op show ?thesis by (simp add: error_reply_def Let_def error_msg_def)
    next
      case ext: True
      have "reply_ok noname ?r" by (simp add: reply_ok_def cb_good_empty r_sz_def msg_sizes)
      from add_opt_pseudo_rr_ok [OF this, of "ac_udpbufsize conf" "of_nat (rc_num rc)" 0 0] obtain ok2 r' where
        r': "add_opt_pseudo_rr (ac_udpbufsize conf) (of_nat (rc_num rc)) 0 0 ?r = Some (ok2, r')"
          "ok2 \<longrightarrow> r_body r' = r_body ?r @ opt_bytes (ac_udpbufsize conf) (of_nat (rc_num rc)) 0 0 \<and> r_hdr r' = count_section S_ADDITIONAL (r_hdr ?r)" by blast
      from add_opt_room [OF r'(1)] ext have "ok2" by (simp add: r_sz_def msg_sizes)
      with r'(2) ext i(2) have "error_msg conf m rc r'"
        by (auto simp: error_msg_def Let_def count_section_def mk_error_reply_def)
      then show ?thesis using True a i op r'(1) ext by (simp add: error_reply_def Let_def)
    qed
  qed
qed

text \<open>What a step of the processing is to achieve for a verdict.\<close>

definition processed_ok :: "('w \<Rightarrow> bool) \<Rightarrow> 'w resolver \<Rightarrow> ans_conf \<Rightarrow> byte list \<Rightarrow> nat option \<Rightarrow> 'w work \<Rightarrow> verdict \<Rightarrow> 'w processed option \<Rightarrow> bool" where
  "processed_ok N resolve conf m udp w v x \<longleftrightarrow> (\<exists>ans udp' rco w'. x = Some (ans, udp', rco, w') \<and> cache_good (w_cache w') \<and> N (w_net w') \<and>
     (carried_out resolve conf m udp (w_time w 0) v ans udp' rco \<or> no_memory conf m (r_mem (w_ans w)) ans))"

lemma error_processed:
  assumes "2 \<le> length m" "cache_good (w_cache w) \<and> N (w_net w)"
  shows "processed_ok N resolve conf m udp w (Refuse rc) (error_reply conf m udp' rc w)"
proof -
  from error_reply_ok [OF assms(1), of conf udp' rc w] obtain ans w' where
    "error_reply conf m udp' rc w = Some (ans, udp', Some rc, w')" "w_cache w' = w_cache w" "w_net w' = w_net w"
    "if ans = None then \<exists>n. \<not> r_mem (w_ans w) n else \<exists>r. ans = Some r \<and> error_msg conf m rc r" by blast
  with assms(2) show ?thesis unfolding processed_ok_def
    by (intro exI [of _ ans] exI [of _ udp'] exI [of _ "Some rc"] exI [of _ w']) (auto simp: carried_out_def no_memory_def split: if_splits)
qed

lemma lacking_processed:
  assumes "2 \<le> length m" "cache_good (w_cache w') \<and> N (w_net w')" "\<exists>n. \<not> r_mem (w_ans w) n" "rc = RC_SERVFAIL"
  shows "processed_ok N resolve conf m udp w v (error_reply conf m udp' rc w')"
proof -
  from error_reply_ok [OF assms(1), of conf udp' rc w'] obtain ans w2 where
    "error_reply conf m udp' rc w' = Some (ans, udp', Some rc, w2)" "w_cache w2 = w_cache w'" "w_net w2 = w_net w'"
    "if ans = None then \<exists>n. \<not> r_mem (w_ans w') n else \<exists>r. ans = Some r \<and> error_msg conf m rc r" by blast
  with assms(2-4) show ?thesis unfolding processed_ok_def
    by (intro exI [of _ ans] exI [of _ udp'] exI [of _ "Some rc"] exI [of _ w2]) (auto simp: no_memory_def split: if_splits)
qed

lemma processed_mono:
  "processed_ok N resolve conf m udp w' v x \<Longrightarrow> mem_mono (r_mem (w_ans w)) (r_mem (w_ans w')) \<Longrightarrow> w_time w' = w_time w \<Longrightarrow>
    processed_ok N resolve conf m udp w v x"
  unfolding processed_ok_def no_memory_def using mem_mono_lack by metis

context name_service
begin

lemma questions_processed:
  assumes "get_hdr m = Some h" "2 \<le> length m" "list_all2 asks ql qs" "cache_good (w_cache w) \<and> net_ok (w_net w)"
  shows "processed_ok net_ok resolve conf m udp w (if qs = [] then Refuse RC_FORMAT else Answer qs e)
    (process_questions resolve conf m h ql (e \<noteq> None) (limit conf udp e) w)"
proof (cases "qs = []")
  case True
  with assms(3) have "ql = []" by simp
  with True error_processed [where N = net_ok, OF assms(2,4)] show ?thesis by (simp add: process_questions_def)
next
  case False
  with assms(3) have ql: "ql \<noteq> []" by auto
  from compose_answer_ok [OF assms(3) conjunct1 [OF assms(4)] conjunct2 [OF assms(4)], of conf h "e \<noteq> None" "limit conf udp e"] obtain ok rc w' where
    c: "compose_answer resolve conf ql h (e \<noteq> None) (limit conf udp e) w = Some (ok, rc, w')" "cache_good (w_cache w') \<and> net_ok (w_net w')"
      "if ok then answer_ok resolve conf h (e \<noteq> None) (limit conf udp e) (w_time w 0) qs rc (w_ans w') else \<exists>n. \<not> r_mem (w_ans w) n" by blast
  show ?thesis
  proof (cases ok)
    case False
    with c ql lacking_processed [where N = net_ok, OF assms(2) c(2)] show ?thesis by (simp add: process_questions_def)
  next
    case True
    have run: "process_questions resolve conf m h ql (e \<noteq> None) (limit conf udp e) w = Some (Some (w_ans w'), limit conf udp e, Some rc, w')"
      using c(1) True ql by (simp add: process_questions_def)
    have "carried_out resolve conf m udp (w_time w 0) (Answer qs e) (Some (w_ans w')) (limit conf udp e) (Some rc)"
      using c(3) True assms(1) by (simp add: carried_out_def)
    then show ?thesis using c(2) False unfolding run processed_ok_def by auto
  qed
qed

lemma additional_processed:
  assumes "get_hdr m = Some h" "2 \<le> length m" "list_all2 asks ql qs" "cache_good (w_cache w) \<and> net_ok (w_net w)"
    "length qs = unat (h_qdcount h)" "qs_at m 12 qs p" "p + sz = length m"
  shows "\<exists>v. (if \<exists>qs rs. whole_query m h qs rs then \<exists>qs rs. whole_query m h qs rs \<and> v = opt_verdict qs (opt_of h rs)
      else v = Refuse RC_FORMAT \<or> h_tc h \<and> (\<exists>qs rs. cut_query m h qs rs \<and> v = opt_verdict qs (opt_of h rs))) \<and>
    processed_ok net_ok resolve conf m udp w v (process_additional resolve conf m h ql p sz udp w)"
proof -
  from decode_additional_ok [OF assms(7,1), of "unat (h_arcount h)" 0 no_edns] obtain rc numopt ep where
    d: "decode_query_additional (unat (h_arcount h)) m p sz 0 no_edns = Some (rc, numopt, ep)"
    "case rc of
       RC_OK \<Rightarrow> \<exists>rs q. length rs = unat (h_arcount h) \<and> raws_at m p rs q \<and> edns_seen h 0 no_edns rs numopt ep
     | _ \<Rightarrow> rc \<in> {RC_TRUNC, RC_FORMAT} \<and> (\<nexists>rs q. length rs = unat (h_arcount h) \<and> raws_at m p rs q) \<and>
         (\<exists>rs q. length rs < unat (h_arcount h) \<and> raws_at m p rs q \<and> edns_seen h 0 no_edns rs numopt ep)" by blast
  have seen: "processed_ok net_ok resolve conf m udp w (opt_verdict qs (opt_of h rs)) (process_additional resolve conf m h ql p sz udp w)"
    if "edns_seen h 0 no_edns rs numopt ep" "rc = RC_OK \<or> rc = RC_TRUNC \<and> h_tc h" for rs
  proof (cases "filter is_opt rs")
    case Nil
    then have o: "opt_of h rs = None" "numopt = 0" using that(1) by (simp_all add: opt_of_def edns_seen_def)
    have "process_additional resolve conf m h ql p sz udp w = process_questions resolve conf m h ql False udp w"
      using d(1) that(2) o(2) by (auto simp: process_additional_def)
    moreover have "limit conf udp None = udp" by (simp add: limit_def split: option.splits)
    ultimately show ?thesis using questions_processed [OF assms(1-4), of conf udp None]
      by (simp add: o(1) opt_verdict_def split del: if_split)
  next
    case (Cons r rs')
    then have o: "opt_of h rs = Some ep" "numopt \<noteq> 0" using that(1) by (simp_all add: opt_of_def edns_seen_def)
    have u: "(case udp of None \<Rightarrow> None
          | Some u \<Rightarrow> if unat (ed_udpsize ep) > UDP_BUFSIZE
              then Some (if unat (ac_udpbufsize conf) > unat (ed_udpsize ep) then unat (ed_udpsize ep) else unat (ac_udpbufsize conf))
              else Some u) = limit conf udp (Some ep)" by (auto simp: limit_def split: option.splits)
    have run: "process_additional resolve conf m h ql p sz udp w =
      (if ed_version ep \<noteq> 0 then error_reply conf m udp RC_BADVERS w
       else if ed_rcode ep \<noteq> 0 then error_reply conf m udp RC_FORMAT w
       else process_questions resolve conf m h ql True (limit conf udp (Some ep)) w)"
      unfolding process_additional_def d(1) u [symmetric] using that(2) o(2) by auto
    show ?thesis unfolding run o(1) opt_verdict_def option.case
      using error_processed [where N = net_ok, OF assms(2,4)] questions_processed [OF assms(1-4), of conf udp "Some ep"] by simp
  qed
  have w0: "whole_query m h qs rs" if "length rs = unat (h_arcount h)" "raws_at m p rs q" for rs q
    using that assms(5,6) unfolding whole_query_def by blast
  show ?thesis
  proof (cases "rc = RC_OK")
    case True
    with d(2) obtain rs q where rs: "length rs = unat (h_arcount h)" "raws_at m p rs q" "edns_seen h 0 no_edns rs numopt ep" by auto
    from w0 [OF rs(1,2)] have ex: "\<exists>qs rs. whole_query m h qs rs" by blast
    have "processed_ok net_ok resolve conf m udp w (opt_verdict qs (opt_of h rs)) (process_additional resolve conf m h ql p sz udp w)"
      using seen [OF rs(3)] True by blast
    with w0 [OF rs(1,2)] show ?thesis unfolding if_P [OF ex] by blast
  next
    case False
    with d(2) have "rc \<in> {RC_TRUNC, RC_FORMAT}" "\<nexists>rs q. length rs = unat (h_arcount h) \<and> raws_at m p rs q"
      "\<exists>rs q. length rs < unat (h_arcount h) \<and> raws_at m p rs q \<and> edns_seen h 0 no_edns rs numopt ep" by (cases rc; simp)+
    then obtain rs q where f: "rc \<in> {RC_TRUNC, RC_FORMAT}" "\<nexists>rs q. length rs = unat (h_arcount h) \<and> raws_at m p rs q"
      "length rs < unat (h_arcount h)" "raws_at m p rs q" "edns_seen h 0 no_edns rs numopt ep" by blast
    have nw: "\<not> whole_query m h qs' rs'" for qs' rs'
    proof
      assume "whole_query m h qs' rs'"
      then obtain p' q' where "length qs' = length qs" "qs_at m 12 qs' p'" "length rs' = unat (h_arcount h)" "raws_at m p' rs' q'"
        using assms(5) by (auto simp: whole_query_def)
      with qs_at_det [OF assms(6)] f(2) show False by auto
    qed
    show ?thesis
    proof (cases "rc = RC_TRUNC \<and> h_tc h")
      case True
      have "cut_query m h qs rs" using assms(5,6) f(3,4) unfolding cut_query_def by auto
      with nw True seen [OF f(5)] show ?thesis by (intro exI [of _ "opt_verdict qs (opt_of h rs)"]) auto
    next
      case F: False
      have "process_additional resolve conf m h ql p sz udp w = error_reply conf m udp RC_FORMAT w"
        using d(1) False F by (simp add: process_additional_def)
      with nw error_processed [where N = net_ok, OF assms(2,4)] show ?thesis by (intro exI [of _ "Refuse RC_FORMAT"]) simp
    qed
  qed
qed

lemma process_query_ok:
  assumes "cache_good (w_cache w) \<and> net_ok (w_net w)"
  shows "\<exists>v. query_verdict m v \<and> processed_ok net_ok resolve conf m udp w v (process_query resolve conf m udp w) \<or>
    (\<exists>ans udp' rco w'. process_query resolve conf m udp w = Some (ans, udp', rco, w') \<and> cache_good (w_cache w') \<and> net_ok (w_net w') \<and>
       no_memory conf m (r_mem (w_ans w)) ans)"
proof (cases "length m < 12")
  case True
  show ?thesis
  proof (cases "length m < 2")
    case True
    then have "process_query resolve conf m udp w = Some (None, udp, None, w)" by (simp add: process_query_def)
    with assms True show ?thesis
      by (intro exI [of _ Discard]) (simp add: query_verdict_def processed_ok_def carried_out_def)
  next
    case False
    with True have "process_query resolve conf m udp w = error_reply conf m udp RC_FORMAT w" by (simp add: process_query_def msg_sizes)
    with error_processed [where N = net_ok, OF _ assms] True False show ?thesis by (intro exI [of _ "Refuse RC_FORMAT"]) (simp add: query_verdict_def)
  qed
next
  case long: False
  then obtain h where h: "get_hdr m = Some h" using get_hdr_some [of m] by auto
  have vd: "query_verdict m v \<longleftrightarrow> verdict_on m h v" for v using long h by (simp add: query_verdict_def)
  have l2: "2 \<le> length m" using long by simp
  have e: "\<exists>v. query_verdict m v \<and> processed_ok net_ok resolve conf m udp w v (process_query resolve conf m udp w)"
    if "process_query resolve conf m udp w = error_reply conf m udp rc w" "verdict_on m h (Refuse rc)" for rc
    using that error_processed [where N = net_ok, OF l2 assms] vd by auto
  have n: "\<exists>v. query_verdict m v \<and> processed_ok net_ok resolve conf m udp w v (process_query resolve conf m udp w)"
    if "process_query resolve conf m udp w = Some (None, udp, None, w)" "verdict_on m h Discard"
    using that assms vd by (intro exI [of _ Discard]) (simp add: processed_ok_def carried_out_def)
  let ?bad = "h_qr h \<or> h_opcode h \<noteq> 0 \<or> h_z h \<or> h_rcode h \<noteq> 0 \<or> h_ancount h \<noteq> 0 \<or> h_nscount h \<noteq> 0"
  show ?thesis
  proof (cases ?bad)
    case True
    then consider (qr) "h_qr h" | (op) "\<not> h_qr h" "h_opcode h \<noteq> 0" | (z) "\<not> h_qr h" "h_opcode h = 0" "h_z h"
      | (rc) "\<not> h_qr h" "h_opcode h = 0" "\<not> h_z h" "h_rcode h \<noteq> 0"
      | (cnt) "\<not> h_qr h" "h_opcode h = 0" "\<not> h_z h" "h_rcode h = 0" "h_ancount h \<noteq> 0 \<or> h_nscount h \<noteq> 0" by blast
    then have "\<exists>v. query_verdict m v \<and> processed_ok net_ok resolve conf m udp w v (process_query resolve conf m udp w)"
    proof cases
      case qr
      then show ?thesis by (intro n) (use long h in \<open>simp_all add: process_query_def verdict_on_def msg_sizes QR_QUERY_def\<close>)
    next
      case op
      then show ?thesis by (intro e [of RC_NOTSUPP]) (use long h in \<open>simp_all add: process_query_def verdict_on_def msg_sizes QR_QUERY_def OP_QUERY_def\<close>)
    next
      case z
      then show ?thesis by (intro e [of RC_FORMAT]) (use long h in \<open>simp_all add: process_query_def verdict_on_def msg_sizes QR_QUERY_def OP_QUERY_def\<close>)
    next
      case rc
      then show ?thesis by (intro n) (use long h in \<open>simp_all add: process_query_def verdict_on_def msg_sizes QR_QUERY_def OP_QUERY_def rc_num_def\<close>)
    next
      case cnt
      then show ?thesis by (intro e [of RC_FORMAT]) (use long h in \<open>auto simp: process_query_def verdict_on_def msg_sizes QR_QUERY_def OP_QUERY_def rc_num_def\<close>)
    qed
    then show ?thesis by blast
  next
    case good: False
    let ?rest = "\<lambda>v. if \<exists>qs rs. whole_query m h qs rs then \<exists>qs rs. whole_query m h qs rs \<and> v = opt_verdict qs (opt_of h rs)
      else v = Refuse RC_FORMAT \<or> h_tc h \<and> (\<exists>qs rs. cut_query m h qs rs \<and> v = opt_verdict qs (opt_of h rs))"
    have vr: "query_verdict m v \<longleftrightarrow> ?rest v" for v using good vd by (simp add: verdict_on_def)
    have "12 + (length m - 12) = length m" using long by simp
    from decode_query_loop_ok [OF this, of "unat (h_qdcount h)" "[]" "r_mem (w_ans w)"] obtain rc p sz ql alc where
      d: "decode_query_loop (unat (h_qdcount h)) m 12 (length m - 12) [] (r_mem (w_ans w)) = Some (rc, p, sz, ql, alc)"
        "mem_mono (r_mem (w_ans w)) alc" "query_result m (unat (h_qdcount h)) 12 [] (r_mem (w_ans w)) rc p sz ql" by blast
    let ?w = "w\<lparr>w_ans := (w_ans w)\<lparr>r_mem := alc\<rparr>\<rparr>"
    have cg: "cache_good (w_cache ?w) \<and> net_ok (w_net ?w)" using assms by simp
    have run: "process_query resolve conf m udp w =
      (if rc \<noteq> RC_OK \<and> rc \<noteq> RC_TRUNC then error_reply conf m udp rc ?w
       else if rc = RC_TRUNC \<and> (\<not> h_tc h \<or> ql = []) then error_reply conf m udp RC_FORMAT ?w
       else if h_arcount h \<noteq> 0 then
         if rc = RC_TRUNC then error_reply conf m udp RC_FORMAT ?w
         else process_additional resolve conf m h ql p sz udp ?w
       else process_questions resolve conf m h ql False udp ?w)"
      using long h good d(1) by (simp add: process_query_def decode_query_def msg_sizes QR_QUERY_def OP_QUERY_def rc_num_def)
    have mono: "processed_ok net_ok resolve conf m udp w v x" if "processed_ok net_ok resolve conf m udp ?w v x" for v x
      by (rule processed_mono [OF that]) (use d(2) in simp_all)
    have ref: "\<exists>v. query_verdict m v \<and> processed_ok net_ok resolve conf m udp w v (error_reply conf m udp RC_FORMAT ?w)"
      if "\<not> (\<exists>qs rs. whole_query m h qs rs)"
      using that mono [OF error_processed [where N = net_ok, OF l2 cg]] vr by (intro exI [of _ "Refuse RC_FORMAT"]) simp
    have lim: "limit conf udp None = udp" by (simp add: limit_def split: option.splits)
    consider (ok) "rc = RC_OK" | (trunc) "rc = RC_TRUNC" | (format) "rc = RC_FORMAT" | (lack) "rc = RC_SERVFAIL"
      using d(3) by (cases rc) (simp_all add: query_result_def)
    then show ?thesis
    proof cases
      case lack
      with d(3) have lk: "\<exists>n. \<not> r_mem (w_ans w) n" by (simp add: query_result_def)
      from error_reply_ok [OF l2, of conf udp rc ?w] obtain ans w2 where
        er: "error_reply conf m udp rc ?w = Some (ans, udp, Some rc, w2)" "w_cache w2 = w_cache ?w \<and> w_net w2 = w_net ?w"
        "if ans = None then \<exists>n. \<not> r_mem (w_ans ?w) n else \<exists>r. ans = Some r \<and> error_msg conf m rc r" by blast
      have "no_memory conf m (r_mem (w_ans w)) ans" using lk er(3) lack by (auto simp: no_memory_def split: if_splits)
      moreover have "process_query resolve conf m udp w = Some (ans, udp, Some rc, w2)" unfolding run using lack er(1) by simp
      ultimately show ?thesis using assms er(2) by auto
    next
      case format
      with d(3) have "\<not> (\<exists>qs rs. whole_query m h qs rs)" by (auto simp: query_result_def whole_query_def)
      from ref [OF this] show ?thesis unfolding run using format by auto
    next
      case trunc
      with d(3) obtain qs q where q: "\<nexists>qs q. length qs = unat (h_qdcount h) \<and> qs_at m 12 qs q" "length qs < unat (h_qdcount h)" "qs_at m 12 qs q"
        "list_all2 asks ql qs" by (auto simp: query_result_def)
      then have nw: "\<not> (\<exists>qs rs. whole_query m h qs rs)" by (auto simp: whole_query_def)
      show ?thesis
      proof (cases "h_tc h \<and> ql \<noteq> [] \<and> h_arcount h = 0")
        case False
        with ref [OF nw] show ?thesis unfolding run using trunc by auto
      next
        case True
        with q(4) have ne: "qs \<noteq> []" by auto
        have "cut_query m h qs []" using q(2,3) True unfolding cut_query_def by auto
        moreover have "opt_verdict qs (opt_of h []) = Answer qs None" using ne by (simp add: opt_verdict_def opt_of_def)
        ultimately have "\<exists>qa ra. cut_query m h qa ra \<and> Answer qs None = opt_verdict qa (opt_of h ra)" by metis
        with True have "query_verdict m (Answer qs None)" unfolding vr if_not_P [OF nw] by (intro disjI2 conjI) (elim conjE, assumption)+
        moreover have "processed_ok net_ok resolve conf m udp w (Answer qs None) (process_query resolve conf m udp w)"
          using mono [OF questions_processed [OF h l2 q(4) cg, of conf udp None, unfolded lim]] ne True trunc unfolding run by simp
        ultimately show ?thesis by blast
      qed
    next
      case ok
      with d(3) obtain qs where q: "length qs = unat (h_qdcount h)" "qs_at m 12 qs p" "p + sz = length m" "list_all2 asks ql qs"
        by (auto simp: query_result_def)
      show ?thesis
      proof (cases "h_arcount h = 0")
        case False
        from additional_processed [OF h l2 q(4) cg q(1,2,3), of conf udp] obtain v where
          v: "?rest v" "processed_ok net_ok resolve conf m udp ?w v (process_additional resolve conf m h ql p sz udp ?w)" by blast
        have "query_verdict m v" using v(1) vr by blast
        moreover have "processed_ok net_ok resolve conf m udp w v (process_query resolve conf m udp w)"
          using mono [OF v(2)] False ok unfolding run by simp
        ultimately show ?thesis by blast
      next
        case True
        have wq: "whole_query m h qs []" using q(1,2) True unfolding whole_query_def by auto
        then have ex: "\<exists>qs rs. whole_query m h qs rs" by blast
        let ?v = "if qs = [] then Refuse RC_FORMAT else Answer qs None"
        have "?v = opt_verdict qs (opt_of h [])" by (simp add: opt_verdict_def opt_of_def)
        with wq have "\<exists>qa ra. whole_query m h qa ra \<and> ?v = opt_verdict qa (opt_of h ra)" by blast
        then have "query_verdict m ?v" unfolding vr if_P [OF ex] .
        moreover have "processed_ok net_ok resolve conf m udp w ?v (process_query resolve conf m udp w)"
          using mono [OF questions_processed [OF h l2 q(4) cg, of conf udp None, unfolded lim]] True ok unfolding run by (simp split del: if_split)
        ultimately show ?thesis by blast
      qed
    qed
  qed
qed

end

end
