(* ===== verification/Servers.thy ===== *)
theory Servers
  imports Queries_Ok
begin

text \<open>
  The choice of the servers for a question (\<^verbatim>\<open>dns_query.c\<close>): the access lists of the configured servers, the
  addresses that are up, the lists of addresses to be rejected, and the servers of a zone that are known from an earlier
  answer of a root server.  \<^verbatim>\<open>config.h\<close> is for IPv4 only.
\<close>

subsection \<open>The configured servers\<close>

record atup_t =
  is_up :: bool
  at_a :: "byte list"

datatype uptest = C_NONE | C_PING | C_IF | C_EXEC | C_DEV | C_DIALD | C_QUERY

datatype policy = C_INCLUDED | C_EXCLUDED | C_SIMPLE_ONLY | C_FQDN_ONLY

datatype reject_policy = C_FAIL | C_NEGATE

record servparm_t =
  sp_port :: "16 word"
  sp_uptest :: uptest
  sp_timeout :: int
  sp_interval :: int
  sp_scheme :: "byte list"
  sp_purge_cache :: bool
  sp_nocache :: bool
  sp_lean_query :: bool
  sp_edns_query :: bool
  sp_is_proxy :: bool
  sp_rootserver :: nat
  sp_rand_servers :: bool
  sp_rejectrecursively :: bool
  sp_rejectpolicy :: reject_policy
  sp_policy :: policy
  sp_alist :: "slist_t list"
  sp_atup_a :: "atup_t list"
  sp_reject_a4 :: "(byte list \<times> byte list) list option"
  sp_reject_a6 :: "(byte list \<times> byte list) list option"

text \<open>A node of the lists of rejected addresses; the array of a node is one block, the longer addresses first.\<close>

record rejectlist_t =
  rl_policy :: reject_policy
  rl_inherit :: bool
  rl_a6 :: "(byte list \<times> byte list) list"
  rl_a4 :: "(byte list \<times> byte list) list"

datatype query_method = UDP_ONLY | TCP_ONLY | TCP_UDP | UDP_TCP

datatype query_state = QS_INITIAL | QS_TCPINITIAL | QS_TCPWRITE | QS_TCPREAD | QS_UDPINITIAL | QS_UDPRECEIVE | QS_CANCELED | QS_DONE

record query_stat_t =
  qs_a :: "byte list"
  qs_port :: "16 word"
  qs_timeout :: int
  qs_flags :: "16 word"
  qs_state :: query_state
  qs_qm :: query_method
  qs_nocache :: bool
  qs_auth_serv :: nat
  qs_lean_query :: bool
  qs_edns_query :: bool
  qs_needs_testing :: bool
  qs_trusted :: bool
  qs_aa :: bool
  qs_tc :: bool
  qs_ra :: bool
  qs_failed :: bool
  qs_nsdomain :: "byte list option"
  qs_rejectlist :: "rejectlist_t option"
  qs_s_errno :: int

text \<open>What the resolver uses of the global configuration.\<close>

record res_conf =
  rc_cache :: cache_conf
  rc_lndown_kluge :: bool
  rc_onquery :: bool
  rc_paranoid :: bool
  rc_query_method :: query_method

text \<open>
  What surrounds the cache: the configured servers, the clock, the results of \<^verbatim>\<open>random\<close>, and whatever else the
  network consists of.
\<close>

record 'w world =
  wd_servers :: "servparm_t list"
  wd_time :: "nat \<Rightarrow> int"
  wd_rand :: "nat \<Rightarrow> nat"
  wd_net :: 'w

definition wd_now :: "'w world \<Rightarrow> int \<times> 'w world" where
  "wd_now w = (wd_time w 0, w\<lparr>wd_time := \<lambda>n. wd_time w (Suc n)\<rparr>)"

definition wd_random :: "'w world \<Rightarrow> nat \<times> 'w world" where
  "wd_random w = (wd_rand w 0, w\<lparr>wd_rand := \<lambda>n. wd_rand w (Suc n)\<rparr>)"

definition CFF_NOINHERIT :: "16 word" where
  "CFF_NOINHERIT = CF_LOCAL OR CF_AUTH OR CF_ADDITIONAL OR CF_ROOTSERV"

definition MAXNAMESERVIPS :: nat where
  "MAXNAMESERVIPS = 3"

subsection \<open>Which servers may be asked for a name\<close>

primrec use_server_loop :: "slist_t list \<Rightarrow> byte list \<Rightarrow> bool option option" where
  "use_server_loop [] name = Some None"
| "use_server_loop (sl # sla) name = do {
     (k, nrem, lrem) \<leftarrow> domain_match name (domain sl);
     if lrem = 0 \<and> (\<not> exact sl \<or> nrem = 0) then Some (Some (included sl)) else use_server_loop sla name }"

definition use_server :: "servparm_t \<Rightarrow> byte list \<Rightarrow> bool option" where
  "use_server s name = do {
     r \<leftarrow> use_server_loop (sp_alist s) name;
     case r of Some b \<Rightarrow> Some b
     | None \<Rightarrow>
         if sp_policy s = C_SIMPLE_ONLY \<or> sp_policy s = C_FQDN_ONLY then do {
           n \<leftarrow> rhnsegcnt name;
           Some (if n \<le> 1 then sp_policy s = C_SIMPLE_ONLY else sp_policy s = C_FQDN_ONLY) }
         else Some (sp_policy s = C_INCLUDED) }"

definition serv_has_rejectlist :: "servparm_t \<Rightarrow> bool" where
  "serv_has_rejectlist s \<longleftrightarrow> sp_reject_a4 s \<noteq> None \<or> sp_reject_a6 s \<noteq> None"

definition elems :: "'a list option \<Rightarrow> 'a list" where
  "elems a = (case a of None \<Rightarrow> [] | Some xs \<Rightarrow> xs)"

definition rejectlist_of :: "servparm_t \<Rightarrow> rejectlist_t" where
  "rejectlist_of sp = \<lparr>rl_policy = sp_rejectpolicy sp, rl_inherit = sp_rejectrecursively sp,
     rl_a6 = elems (sp_reject_a6 sp), rl_a4 = elems (sp_reject_a4 sp)\<rparr>"

text \<open>The list of lists serves only to free them; a new node is its head.\<close>

definition add_rejectlist :: "rejectlist_t list \<Rightarrow> servparm_t \<Rightarrow> cache \<Rightarrow> rejectlist_t list option \<times> cache" where
  "add_rejectlist rl sp st = (let (ok, m) = malloc (mem st) in (if ok then Some (rejectlist_of sp # rl) else None, st\<lparr>mem := m\<rparr>))"

definition needs_testing :: "servparm_t \<Rightarrow> bool" where
  "needs_testing sp \<longleftrightarrow> (sp_interval sp > 0 \<or> sp_interval sp = -2) \<and> (sp_uptest sp \<noteq> C_NONE \<or> sp_scheme sp \<noteq> [])"

definition new_qserv :: "res_conf \<Rightarrow> byte list \<Rightarrow> 16 word \<Rightarrow> int \<Rightarrow> 16 word \<Rightarrow> bool \<Rightarrow> bool \<Rightarrow> bool \<Rightarrow> nat \<Rightarrow> bool \<Rightarrow> bool \<Rightarrow>
    byte list option \<Rightarrow> rejectlist_t option \<Rightarrow> query_stat_t" where
  "new_qserv g a port timeout flags nocache lean edns auth testing trusted nsdomain rl =
     \<lparr>qs_a = a, qs_port = port, qs_timeout = timeout, qs_flags = flags, qs_state = QS_INITIAL, qs_qm = rc_query_method g,
      qs_nocache = nocache, qs_auth_serv = auth, qs_lean_query = lean, qs_edns_query = edns, qs_needs_testing = testing,
      qs_trusted = trusted, qs_aa = False, qs_tc = False, qs_ra = False, qs_failed = False, qs_nsdomain = nsdomain,
      qs_rejectlist = rl, qs_s_errno = 0\<rparr>"

text \<open>Appending to the array; when it cannot grow it is freed.\<close>

definition add_qserv :: "query_stat_t list \<Rightarrow> query_stat_t \<Rightarrow> cache \<Rightarrow> bool \<times> query_stat_t list \<times> cache" where
  "add_qserv q qs st = (let (ok, m) = malloc (mem st) in (ok, if ok then q @ [qs] else [], st\<lparr>mem := m\<rparr>))"

subsection \<open>The name servers of a zone in the cache\<close>

definition lookup_now :: "byte list \<Rightarrow> 'w world \<Rightarrow> cache \<Rightarrow> (dns_cent_t option \<times> 'w world \<times> cache) option" where
  "lookup_now name w st = do {
     let (now, w) = wd_now w;
     (c, _, st) \<leftarrow> lookup_cache now name False st;
     Some (c, w, st) }"

primrec rd_addrs :: "byte list list \<Rightarrow> byte list list option" where
  "rd_addrs [] = Some []"
| "rd_addrs (d # ds) = do { a \<leftarrow> rds d 0 4; as \<leftarrow> rd_addrs ds; Some (a # as) }"

definition serv_addrs :: "dns_cent_t option \<Rightarrow> 'w world \<Rightarrow> (byte list list \<times> 'w world) option" where
  "serv_addrs servent w = (case servent of None \<Rightarrow> Some ([], w)
     | Some c \<Rightarrow> (case getrrset c T_A of None \<Rightarrow> Some ([], w)
         | Some s \<Rightarrow>
             let (now, w) = wd_now w in
             if timedout now s then Some ([], w)
             else do { as \<leftarrow> rd_addrs (take MAXNAMESERVIPS (rs_rrs s)); Some (as, w) }))"

text \<open>
  Addresses that were in the array before are skipped (the bound of the search is not moved by the loop); the
  result is \<open>None\<close> when memory runs out.
\<close>

primrec add_addrs :: "nat \<Rightarrow> byte list list \<Rightarrow> byte list list \<Rightarrow> cache \<Rightarrow> byte list list option \<times> cache" where
  "add_addrs n [] res st = (Some res, st)"
| "add_addrs n (a # as) res st = (if a \<in> set (take n res) then add_addrs n as res st
     else let (ok, m) = malloc (mem st); st = st\<lparr>mem := m\<rparr> in if ok then add_addrs n as (res @ [a]) st else (None, st))"

primrec lookup_ns_loop :: "byte list list \<Rightarrow> byte list list \<Rightarrow> 'w world \<Rightarrow> cache \<Rightarrow> (byte list list \<times> 'w world \<times> cache) option" where
  "lookup_ns_loop [] res w st = Some (res, w, st)"
| "lookup_ns_loop (rr # rrs) res w st = do {
     (servent, w, st) \<leftarrow> lookup_now rr w st;
     (serva, w) \<leftarrow> serv_addrs servent w;
     if serva = [] then Some ([], w, st)
     else case add_addrs (length res) serva res st of
         (None, st) \<Rightarrow> Some ([], w, st)
       | (Some res, st) \<Rightarrow> lookup_ns_loop rrs res w st }"

definition lookup_ns :: "byte list \<Rightarrow> 'w world \<Rightarrow> cache \<Rightarrow> (byte list list \<times> 'w world \<times> cache) option" where
  "lookup_ns zone w st = do {
     (cent, w, st) \<leftarrow> lookup_now zone w st;
     case cent of None \<Rightarrow> Some ([], w, st)
     | Some c \<Rightarrow> (case getrrset c T_NS of None \<Rightarrow> Some ([], w, st)
         | Some s \<Rightarrow>
             if \<not> has (rs_flags s) CF_ROOTSERV then Some ([], w, st)
             else let (now, w) = wd_now w in
               if timedout now s then Some ([], w, st) else lookup_ns_loop (rs_rrs s) [] w st) }"

subsection \<open>The servers for a name\<close>

text \<open>
  The variables of the loops: \<^verbatim>\<open>serv\<close> and \<^verbatim>\<open>one_up\<close>, the lists of rejected addresses, \<^verbatim>\<open>seenrootserv\<close>, the
  list of the server being looked at, and what the loops change besides.
\<close>

record 'w selection =
  sel_serv :: "query_stat_t list"
  sel_one_up :: bool
  sel_reject :: "rejectlist_t list"
  sel_seen :: nat
  sel_rjl :: "rejectlist_t option"
  sel_world :: "'w world"
  sel_cache :: cache

text \<open>How a pass ends: with the next one, with a \<^verbatim>\<open>break\<close>, or at the label \<^verbatim>\<open>done\<close>.\<close>

datatype pass = PassNext | PassBreak | PassDone

definition sel_add :: "query_stat_t \<Rightarrow> 'w selection \<Rightarrow> bool \<times> 'w selection" where
  "sel_add qs s = (let (ok, q, st) = add_qserv (sel_serv s) qs (sel_cache s) in (ok, s\<lparr>sel_serv := q, sel_one_up := ok, sel_cache := st\<rparr>))"

text \<open>The list of rejected addresses of the server is made when it is first needed.\<close>

definition sel_rejects :: "bool \<Rightarrow> servparm_t \<Rightarrow> 'w selection \<Rightarrow> bool \<times> 'w selection" where
  "sel_rejects needed sp s = (if needed \<and> sel_rjl s = None then
       case add_rejectlist (sel_reject s) sp (sel_cache s) of
         (None, st) \<Rightarrow> (False, s\<lparr>sel_one_up := False, sel_cache := st\<rparr>)
       | (Some rl, st) \<Rightarrow> (True, s\<lparr>sel_reject := rl, sel_rjl := Some (hd rl), sel_cache := st\<rparr>)
     else (True, s))"

definition rhn_arpa :: "byte list" where
  "rhn_arpa = [4, 97, 114, 112, 97, 0]"

definition top_segments :: "byte list \<Rightarrow> (nat \<times> nat) option" where
  "top_segments name = do {
     nseg \<leftarrow> rhnsegcnt name;
     mseg \<leftarrow> (if nseg \<ge> 2 then do { (k, rem, _) \<leftarrow> domain_match rhn_arpa name; Some (if rem = 0 then 3 else 1) } else Some 1);
     Some (nseg, if nseg \<le> mseg then (if nseg > 0 then nseg - 1 else 0) else mseg) }"

primrec lookup_top :: "byte list \<Rightarrow> nat \<Rightarrow> nat \<Rightarrow> 'w world \<Rightarrow> cache \<Rightarrow> ((byte list \<times> byte list list) option \<times> 'w world \<times> cache) option" where
  "lookup_top name nseg 0 w st = Some (None, w, st)"
| "lookup_top name nseg (Suc mseg) w st = do {
     k \<leftarrow> skipsegs name 0 (nseg - Suc mseg);
     (adrs, w, st) \<leftarrow> lookup_ns (drop k name) w st;
     if adrs \<noteq> [] then Some (Some (drop k name, adrs), w, st) else lookup_top name nseg mseg w st }"

definition start_at :: "bool \<Rightarrow> nat \<Rightarrow> 'w world \<Rightarrow> nat \<times> 'w world" where
  "start_at rand m w = (if rand then let (r, w) = wd_random w in (r mod m, w) else (0, w))"

definition zone_qserv :: "res_conf \<Rightarrow> servparm_t \<Rightarrow> byte list \<Rightarrow> rejectlist_t option \<Rightarrow> byte list \<Rightarrow> query_stat_t" where
  "zone_qserv g sp zone rjl a = new_qserv g a 53 (sp_timeout sp)
     (mk_flag_val (sp_purge_cache sp) (sp_nocache sp) (sp_rootserver sp \<noteq> 0) AND NOT CFF_NOINHERIT) (sp_nocache sp)
     (sp_lean_query sp) (sp_edns_query sp) 2 False (\<not> rc_paranoid g) (Some zone) rjl"

definition conf_qserv :: "res_conf \<Rightarrow> servparm_t \<Rightarrow> rejectlist_t option \<Rightarrow> atup_t \<Rightarrow> query_stat_t" where
  "conf_qserv g sp rjl at = new_qserv g (at_a at) (sp_port sp) (sp_timeout sp)
     (mk_flag_val (sp_purge_cache sp) (sp_nocache sp) (sp_rootserver sp \<noteq> 0)) (sp_nocache sp)
     (sp_lean_query sp) (sp_edns_query sp) (if sp_rootserver sp \<noteq> 0 then 3 else if sp_is_proxy sp then 0 else 1)
     (needs_testing sp) True None rjl"

primrec sel_add_all :: "query_stat_t list \<Rightarrow> 'w selection \<Rightarrow> bool \<times> 'w selection" where
  "sel_add_all [] s = (True, s)"
| "sel_add_all (qs # q) s = (let (ok, s) = sel_add qs s in if ok then sel_add_all q s else (False, s))"

definition zone_servers :: "res_conf \<Rightarrow> servparm_t \<Rightarrow> byte list \<Rightarrow> byte list list \<Rightarrow> 'w selection \<Rightarrow> pass \<times> 'w selection" where
  "zone_servers g sp zone adrs s =
     (let (k, w) = start_at (sp_rand_servers sp) (length adrs) (sel_world s);
          (ok, s) = sel_rejects (serv_has_rejectlist sp \<and> sp_rejectrecursively sp) sp (s\<lparr>sel_world := w\<rparr>)
      in if \<not> ok then (PassDone, s)
         else let (ok, s) = sel_add_all (map (zone_qserv g sp zone (sel_rjl s)) (rotate k adrs)) s
           in if \<not> ok then (PassDone, s) else (PassBreak, s\<lparr>sel_seen := 2\<rparr>))"

definition root_step :: "res_conf \<Rightarrow> byte list \<Rightarrow> servparm_t \<Rightarrow> 'w selection \<Rightarrow> (pass \<times> 'w selection) option" where
  "root_step g name sp s =
     (if sp_rootserver sp = 0 then Some (PassNext, s)
      else if sel_seen s = 0 then do {
        (nseg, mseg) \<leftarrow> top_segments name;
        (r, w, st) \<leftarrow> lookup_top name nseg mseg (sel_world s) (sel_cache s);
        let s = s\<lparr>sel_seen := 1, sel_world := w, sel_cache := st\<rparr>;
        Some (case r of None \<Rightarrow> (PassNext, s) | Some (zone, adrs) \<Rightarrow> zone_servers g sp zone adrs s) }
      else Some (if sel_seen s = 2 then PassBreak else PassNext, s))"

definition addr_step :: "res_conf \<Rightarrow> byte list \<Rightarrow> servparm_t \<Rightarrow> atup_t \<Rightarrow> 'w selection \<Rightarrow> (pass \<times> 'w selection) option" where
  "addr_step g name sp at s =
     (if \<not> is_up at then Some (PassNext, s)
      else do {
        (p, s) \<leftarrow> root_step g name sp s;
        if p \<noteq> PassNext then Some (p, s)
        else
          let (ok, s) = sel_rejects (serv_has_rejectlist sp) sp s in
          if \<not> ok then Some (PassDone, s)
          else let (ok, s) = sel_add (conf_qserv g sp (sel_rjl s) at) s
            in Some (if ok then PassNext else PassDone, s) })"

text \<open>The loops over the addresses of a server and over the servers; the boolean says that \<^verbatim>\<open>done\<close> was jumped to.\<close>

primrec addr_loop :: "res_conf \<Rightarrow> byte list \<Rightarrow> servparm_t \<Rightarrow> atup_t list \<Rightarrow> 'w selection \<Rightarrow> (bool \<times> 'w selection) option" where
  "addr_loop g name sp [] s = Some (False, s)"
| "addr_loop g name sp (at # ats) s = do {
     (p, s) \<leftarrow> addr_step g name sp at s;
     case p of PassNext \<Rightarrow> addr_loop g name sp ats s | PassBreak \<Rightarrow> Some (False, s) | PassDone \<Rightarrow> Some (True, s) }"

primrec server_loop :: "res_conf \<Rightarrow> byte list \<Rightarrow> servparm_t list \<Rightarrow> 'w selection \<Rightarrow> 'w selection option" where
  "server_loop g name [] s = Some s"
| "server_loop g name (sp # sps) s = do {
     use \<leftarrow> (if sp_rootserver sp \<le> 1 then use_server sp name else Some False);
     if use \<and> sp_atup_a sp \<noteq> [] then do {
       let (j, w) = start_at (sp_rand_servers sp) (length (sp_atup_a sp)) (sel_world s);
       (stop, s) \<leftarrow> addr_loop g name sp (rotate j (sp_atup_a sp)) (s\<lparr>sel_world := w, sel_rjl := None\<rparr>);
       if stop then Some s else server_loop g name sps s }
     else server_loop g name sps s }"

definition select_servers :: "res_conf \<Rightarrow> byte list \<Rightarrow> 'w world \<Rightarrow> cache \<Rightarrow> (bool \<times> query_stat_t list \<times> 'w world \<times> cache) option" where
  "select_servers g name w st = do {
     s \<leftarrow> server_loop g name (wd_servers w)
       \<lparr>sel_serv = [], sel_one_up = False, sel_reject = [], sel_seen = 0, sel_rjl = None, sel_world = w, sel_cache = st\<rparr>;
     Some (sel_one_up s, sel_serv s, sel_world s, sel_cache s) }"

end
