(* ===== verification/Cache_Data.thy ===== *)
theory Cache_Data
  imports Cache_Enter
begin

text \<open>
  What the records of the cache are made of: any property of records (with the index of their set) that holds of all
  records in the cache and of the entry added holds of all records after the operations on the cache.
\<close>

definition cent_data :: "(nat \<Rightarrow> byte list \<Rightarrow> bool) \<Rightarrow> dns_cent_t \<Rightarrow> bool" where
  "cent_data P c \<longleftrightarrow> (\<forall>i s. i < NRRTOT \<longrightarrow> RRARR_INDEX_TESTEXT c i = Some s \<longrightarrow> (\<forall>d\<in>set (rs_rrs s). P i d))"

definition heap_data :: "(nat \<Rightarrow> byte list \<Rightarrow> bool) \<Rightarrow> cache \<Rightarrow> bool" where
  "heap_data P st \<longleftrightarrow> (\<forall>p c. heap st p = Some c \<longrightarrow> cent_data P c)"

lemma heap_data_heap: "heap_data P st \<Longrightarrow> heap st p = Some c \<Longrightarrow> cent_data P c"
  by (simp add: heap_data_def)

lemma heap_data_fields [simp]:
  "heap_data P (st\<lparr>rrset_l := l\<rparr>) = heap_data P st" "heap_data P (st\<lparr>buckets := b\<rparr>) = heap_data P st"
  "heap_data P (st\<lparr>cache_size := n\<rparr>) = heap_data P st" "heap_data P (st\<lparr>ent_num := e\<rparr>) = heap_data P st"
  "heap_data P (st\<lparr>insert_sort := f\<rparr>) = heap_data P st" "heap_data P (st\<lparr>mem := m\<rparr>) = heap_data P st"
  "heap_data P (st\<lparr>next_addr := a\<rparr>) = heap_data P st"
  by (simp_all add: heap_data_def)

lemma heap_data_upd: "heap_data P st \<Longrightarrow> cent_data P c \<Longrightarrow> heap_data P (upd_cent p c st)"
  by (auto simp: heap_data_def)

lemma heap_data_put: "heap_data P st \<Longrightarrow> heap st' = (heap st)(p \<mapsto> c) \<Longrightarrow> cent_data P c \<Longrightarrow> heap_data P st'"
  by (auto simp: heap_data_def)

lemma heap_data_none: "heap_data P st \<Longrightarrow> heap_data P (st\<lparr>heap := (heap st)(p := None)\<rparr>)"
  by (auto simp: heap_data_def)

lemma cent_data_sub:
  "cent_data P c \<Longrightarrow> (\<And>i s. i < NRRTOT \<Longrightarrow> RRARR_INDEX_TESTEXT c' i = Some s \<Longrightarrow> \<exists>s'. RRARR_INDEX_TESTEXT c i = Some s' \<and> set (rs_rrs s) \<subseteq> set (rs_rrs s')) \<Longrightarrow>
    cent_data P c'"
  unfolding cent_data_def by (meson subsetD)

lemma put_index: "RRARR_INDEX_TESTEXT (put_rrset c i v) j = Some s \<Longrightarrow> j = i \<and> v = Some s \<or> RRARR_INDEX_TESTEXT c j = Some s"
proof -
  have n: "xs[a := v] ! b = Some s \<Longrightarrow> b = a \<and> v = Some s \<or> xs ! b = Some s" for xs :: "rr_set_t option list" and a b
    by (metis nth_list_update_eq nth_list_update_neq linorder_not_less list_update_beyond)
  assume "RRARR_INDEX_TESTEXT (put_rrset c i v) j = Some s"
  then show ?thesis unfolding RRARR_INDEX_TESTEXT_def put_rrset_def negative_def
    by (auto split: if_splits option.splits dest!: n)
qed

lemma put_negative: "negative (put_rrset c i v) = negative c"
  by simp

lemma cent_data_put: "cent_data P c \<Longrightarrow> (\<And>s d. v = Some s \<Longrightarrow> i < NRRTOT \<Longrightarrow> d \<in> set (rs_rrs s) \<Longrightarrow> P i d) \<Longrightarrow> cent_data P (put_rrset c i v)"
  unfolding cent_data_def by (blast dest: put_index)

lemma cent_data_neg: "negative c \<Longrightarrow> cent_data P c"
  by (simp add: cent_data_def RRARR_INDEX_TESTEXT_def)

lemma cent_data_put_same:
  assumes "cent_data P c" "RRARR_INDEX c i = Some s" "rs_rrs s' = rs_rrs s"
  shows "cent_data P (put_rrset c i (Some s'))"
proof (cases "negative c \<or> RRARR_INDEX_TESTEXT c i = Some s")
  case True
  with assms show ?thesis
    by (auto intro: cent_data_neg cent_data_put simp: cent_data_def [of P c])
next
  case False
  then have "put_rrset c i (Some s') = c" using assms(2)
    by (cases c) (auto simp: RRARR_INDEX_def RRARR_INDEX_TESTEXT_def put_rrset_def split: if_splits option.splits)
  with assms(1) show ?thesis by simp
qed

lemma cent_data_acc [simp]:
  "cent_data P (c\<lparr>ce_cs := x\<rparr>) = cent_data P c" "cent_data P (c\<lparr>ce_num_rrs := y\<rparr>) = cent_data P c"
  "cent_data P (c\<lparr>c_ns := n\<rparr>) = cent_data P c" "cent_data P (c\<lparr>c_soa := n\<rparr>) = cent_data P c"
  by (simp_all add: cent_data_def)

lemma cent_data_flags: "negative (c\<lparr>ce_flags := f\<rparr>) = negative c \<Longrightarrow> cent_data P (c\<lparr>ce_flags := f\<rparr>) = cent_data P c"
  by (simp add: cent_data_def index_flags)

lemma bind_SomeE: "Option.bind x f = Some y \<Longrightarrow> (\<And>z. x = Some z \<Longrightarrow> f z = Some y \<Longrightarrow> Q) \<Longrightarrow> Q"
  by (cases x) simp_all

subsection \<open>Deletion and purging\<close>

lemma del_by_index_data: "del_cent_rrset_by_index c i l = (rv, c', l') \<Longrightarrow> cent_data P c \<Longrightarrow> cent_data P c'"
proof -
  assume d: "del_cent_rrset_by_index c i l = (rv, c', l')" and c: "cent_data P c"
  show ?thesis
  proof (cases "RRARR_INDEX_TESTEXT c i")
    case None
    with d c show ?thesis by (simp add: del_cent_rrset_by_index_def)
  next
    case (Some s)
    let ?c = "(put_rrset c i None)\<lparr>ce_num_rrs := ce_num_rrs c - 1, ce_cs := ce_cs c - fst (del_rrset s l)\<rparr>"
    have "c' = ?c\<lparr>ce_flags := ce_flags ?c AND NOT DF_AUTH\<rparr>" using d Some by (auto simp: del_cent_rrset_by_index_def split: prod.splits)
    moreover have "cent_data P ?c" using cent_data_put [OF c, of None] by simp
    ultimately show ?thesis using cent_data_flags [OF negative_keep_auth [of ?c]] by simp
  qed
qed

lemma del_cent_rrset_data: "del_cent_rrset p i st = Some (rv, st') \<Longrightarrow> heap_data P st \<Longrightarrow> heap_data P st'"
  unfolding del_cent_rrset_def bind_eq_Some_conv
  by (elim exE conjE, case_tac "del_cent_rrset_by_index y i (rrset_l st)")
    (auto intro!: heap_data_upd [of _ "st\<lparr>rrset_l := l\<rparr>" for l, simplified] dest: del_by_index_data heap_data_heap)

lemma del_cent_data: "del_cent p st = Some st' \<Longrightarrow> heap_data P st \<Longrightarrow> heap_data P st'"
  using heap_data_none by (auto simp: del_cent_def bind_eq_Some_conv heap_data_def)

lemma del_cache_ent_data: "del_cache_ent p loc st = Some st' \<Longrightarrow> heap_data P st \<Longrightarrow> heap_data P st'"
  unfolding del_cache_ent_def bind_eq_Some_conv
  by (elim exE conjE, case_tac ya) (auto dest!: del_cent_data)

lemma purge_step_data: "purge_rrsets_step now p test i r = Some r' \<Longrightarrow> heap_data P (snd (snd (snd r))) \<Longrightarrow> heap_data P (snd (snd (snd r')))"
  unfolding purge_rrsets_step_def
  by (cases r, simp add: bind_eq_Some_conv, elim exE conjE, case_tac "RRARR_INDEX y i")
    (auto simp: bind_eq_Some_conv dest!: del_cent_rrset_data split: if_split_asm)

lemma purge_rrsets_data: "purge_rrsets_loop now p test is r = Some r' \<Longrightarrow> heap_data P (snd (snd (snd r))) \<Longrightarrow> heap_data P (snd (snd (snd r')))"
  by (induction "is" arbitrary: r) (auto simp: bind_eq_Some_conv dest: purge_step_data)

lemma cent_data_rrext: "cent_data P c \<Longrightarrow> cent_data P (c\<lparr>rrext := None\<rparr>)"
  by (auto simp: cent_data_def RRARR_INDEX_TESTEXT_def negative_def split: if_splits)

lemma purge_all_data: "purge_all_rrsets now p test st = Some (rv, n, st') \<Longrightarrow> heap_data P st \<Longrightarrow> heap_data P st'"
proof -
  assume a: "purge_all_rrsets now p test st = Some (rv, n, st')" and h: "heap_data P st"
  from a obtain c where c: "heap st p = Some c" by (auto simp: purge_all_rrsets_def bind_eq_Some_conv)
  show ?thesis
  proof (cases "negative c")
    case True
    with a c h show ?thesis by (simp add: purge_all_rrsets_def)
  next
    case False
    with a c obtain rv1 n1 e st1 c1 where l: "purge_rrsets_loop now p test [0..<RRARR_LEN c] (0, 0, 0, st) = Some (rv1, n1, e, st1)" "heap st1 p = Some c1"
      "st' = (if rrext c1 \<noteq> None \<and> e = 0 \<and> \<not> test then (upd_cent p (c1\<lparr>rrext := None, ce_cs := ce_cs c1 - sizeof_rrext\<rparr>) st1)
             \<lparr>cache_size := cache_size st1 - sizeof_rrext\<rparr> else st1)"
      by (auto simp: purge_all_rrsets_def bind_eq_Some_conv split: if_splits)
    from purge_rrsets_data [OF l(1)] h have "heap_data P st1" by simp
    with heap_data_heap [OF this l(2)] l(3) cent_data_rrext [of P c1] show ?thesis
      by (auto simp del: fun_upd_apply intro!: heap_data_upd)
  qed
qed

lemma purge_refs_data: "purge_refs now p test (n, st) = Some (n', st') \<Longrightarrow> heap_data P st \<Longrightarrow> heap_data P st'"
proof -
  assume r: "purge_refs now p test (n, st) = Some (n', st')" and h: "heap_data P st"
  have clear: "heap_data P (if stale then if test then s else upd_cent p c s else s)" if "heap_data P s" "cent_data P c" for stale s c
    using that heap_data_upd by auto
  from r obtain c n1 st1 c1 where c: "heap st p = Some c" "heap st1 p = Some c1"
      "(if c_ns c = cundef then Some (n, st) else do { stale \<leftarrow> stale_ref now T_NS c (c_ns c) st;
          Some (if stale then (n + 1, if test then st else upd_cent p (c\<lparr>c_ns := cundef\<rparr>) st) else (n, st)) }) = Some (n1, st1)"
      "(if c_soa c1 = cundef then Some (n1, st1) else do { stale \<leftarrow> stale_ref now T_SOA c1 (c_soa c1) st1;
          Some (if stale then (n1 + 1, if test then st1 else upd_cent p (c1\<lparr>c_soa := cundef\<rparr>) st1) else (n1, st1)) }) = Some (n', st')"
    unfolding purge_refs_def Let_def prod.case by (elim bind_SomeE) (auto elim: bind_SomeE)
  from c(3) have "st1 = st \<or> st1 = upd_cent p (c\<lparr>c_ns := cundef\<rparr>) st" by (auto simp: bind_eq_Some_conv split: if_split_asm)
  then have h1: "heap_data P st1" using h heap_data_upd [OF h, of "c\<lparr>c_ns := cundef\<rparr>" p] heap_data_heap [OF h c(1)] by auto
  from c(4) have "st' = st1 \<or> st' = upd_cent p (c1\<lparr>c_soa := cundef\<rparr>) st1" by (auto simp: bind_eq_Some_conv split: if_split_asm)
  then show ?thesis using h1 heap_data_upd [OF h1, of "c1\<lparr>c_soa := cundef\<rparr>" p] heap_data_heap [OF h1 c(2)] by auto
qed

lemma purge_cent_keeps: "purge_cent now p delete test st = Some (n, st') \<Longrightarrow> heap_data P st \<Longrightarrow> heap_data P st'"
  unfolding purge_cent_def bind_eq_Some_conv
  by (elim exE conjE, case_tac y) (auto simp: bind_eq_Some_conv dest!: purge_all_data del_cache_ent_data purge_refs_data split: if_split_asm)

lemma purge_rrset_data: "purge_rrset now p i test st = Some (b, st') \<Longrightarrow> heap_data P st \<Longrightarrow> heap_data P st'"
  unfolding purge_rrset_def bind_eq_Some_conv
  by (elim exE conjE, case_tac "RRARR_INDEX_TESTEXT y i") (auto simp: bind_eq_Some_conv dest!: del_cent_rrset_data split: if_split_asm)

lemma purge_step1_data: "purge_step1 now le st = Some st' \<Longrightarrow> heap_data P st \<Longrightarrow> heap_data P st'"
  unfolding purge_step1_def bind_eq_Some_conv
  by (elim exE conjE, case_tac "le_idx y") (auto simp: bind_eq_Some_conv dest!: purge_rrset_data del_cache_ent_data split: if_split_asm)

lemma purge_step2_data: "purge_step2 le st = Some st' \<Longrightarrow> heap_data P st \<Longrightarrow> heap_data P st'"
  unfolding purge_step2_def bind_eq_Some_conv
  by (elim exE conjE, case_tac "le_idx y") (auto simp: bind_eq_Some_conv dest!: del_cent_rrset_data del_cache_ent_data split: if_split_asm)

lemma purge_loop_data:
  assumes "\<And>le st st'. step le st = Some st' \<Longrightarrow> heap_data P st \<Longrightarrow> heap_data P st'"
    and l: "purge_loop cond step le st = Some st'" and h: "heap_data P st"
  shows "heap_data P st'"
proof -
  have "step = step \<longrightarrow> heap_data P st \<longrightarrow> heap_data P st'"
  proof (rule purge_loop.raw_induct [where P = "\<lambda>c s l st st'. s = step \<longrightarrow> heap_data P st \<longrightarrow> heap_data P st'", OF _ l])
    fix loop c s l t t'
    assume IH: "\<And>c s l t t'. loop c s l t = Some t' \<Longrightarrow> s = step \<longrightarrow> heap_data P t \<longrightarrow> heap_data P t'"
      and r: "(if l \<noteq> None \<and> c t then Option.bind (s (the l) t) (\<lambda>st'. loop c s (lent_next (the l) t) st') else Some t) = Some t'"
    show "s = step \<longrightarrow> heap_data P t \<longrightarrow> heap_data P t'"
    proof (cases "l \<noteq> None \<and> c t")
      case True
      with r obtain u where "s (the l) t = Some u" "loop c s (lent_next (the l) t) u = Some t'" by (auto elim: bind_SomeE)
      with IH assms(1) show ?thesis by blast
    qed (use r in auto)
  qed
  with h show ?thesis by simp
qed

lemma sort_data: "sort_cache_rrl st = Some st' \<Longrightarrow> heap_data P st \<Longrightarrow> heap_data P st'"
  by (auto simp: sort_cache_rrl_def bind_eq_Some_conv)

lemma purge_cache_data:
  assumes "purge_cache now sz lazy st = Some st'" "heap_data P st"
  shows "heap_data P st'"
proof -
  from assms(1) obtain st1 where 1: "purge_loop (\<lambda>st. \<not> lazy \<or> cache_size st > sz) (purge_step1 now) (first_lent st) st = Some st1"
    "(if cache_size st1 \<le> sz then Some st1
     else do {
       st \<leftarrow> (if \<not> insert_sort st1 then do { st \<leftarrow> sort_cache_rrl st1; Some (st\<lparr>insert_sort := True\<rparr>) } else Some st1);
       purge_loop (\<lambda>st. cache_size st > sz) purge_step2 (first_lent st) st }) = Some st'"
    unfolding purge_cache_def by (elim bind_SomeE)
  have h1: "heap_data P st1" by (rule purge_loop_data [OF purge_step1_data 1(1) assms(2)])
  show ?thesis
  proof (cases "cache_size st1 \<le> sz")
    case False
    with 1(2) obtain st2 where 2: "(if \<not> insert_sort st1 then do { st \<leftarrow> sort_cache_rrl st1; Some (st\<lparr>insert_sort := True\<rparr>) } else Some st1) = Some st2"
      "purge_loop (\<lambda>st. cache_size st > sz) purge_step2 (first_lent st2) st2 = Some st'" by (simp only: if_False) (elim bind_SomeE)
    from 2(1) h1 sort_data have "heap_data P st2" by (fastforce elim: bind_SomeE split: if_split_asm)
    from purge_loop_data [OF purge_step2_data 2(2) this] show ?thesis .
  qed (use 1(2) h1 in simp)
qed

subsection \<open>Addition\<close>

lemma cent_data_acc2 [simp]: "cent_data P (c\<lparr>neg_lent := x\<rparr>) = cent_data P c" "cent_data P (c\<lparr>neg_ttl := t\<rparr>) = cent_data P c"
  by (simp_all add: cent_data_def RRARR_INDEX_TESTEXT_def)

lemma cent_data_at: "cent_data P c \<Longrightarrow> RRARR_INDEX_TESTEXT c i = Some s \<Longrightarrow> i < NRRTOT \<Longrightarrow> d \<in> set (rs_rrs s) \<Longrightarrow> P i d"
  by (auto simp: cent_data_def)

lemma insert_rrl_data: "insert_rrl p i st = Some (ok, st') \<Longrightarrow> heap_data P st \<Longrightarrow> heap_data P st'"
proof -
  assume r: "insert_rrl p i st = Some (ok, st')" and h: "heap_data P st"
  from r obtain c where c: "heap st p = Some c" by (auto simp: insert_rrl_def elim: bind_SomeE)
  note d = heap_data_heap [OF h c]
  have put: "cent_data P (put_rrset c k (Some (s\<lparr>rs_lent := x\<rparr>)))" if "RRARR_INDEX_TESTEXT c k = Some s" for k s x
    using that d by (auto intro!: cent_data_put [OF d] dest: cent_data_at)
  show ?thesis
    using r c h d unfolding insert_rrl_def
    apply (auto simp: Let_def malloc_def split: if_split_asm option.split_asm simp del: fun_upd_apply)
    by (auto simp del: fun_upd_apply intro!: heap_data_put [OF h] put)
qed

lemma del_conflicts_data: "del_conflicts idx p is st = Some st' \<Longrightarrow> heap_data P st \<Longrightarrow> heap_data P st'"
proof (induction "is" arbitrary: st)
  case (Cons i "is")
  from Cons.prems(1) obtain c st1 where c: "heap st p = Some c"
    "(if conflicts idx i (RRARR_INDEX c i) then do { (rv, st) \<leftarrow> del_cent_rrset p i st; Some st } else Some st) = Some st1"
    "del_conflicts idx p is st1 = Some st'" unfolding del_conflicts.simps by (elim bind_SomeE)
  from c(2) Cons.prems(2) have "heap_data P st1" by (auto elim!: bind_SomeE dest: del_cent_rrset_data split: if_split_asm)
  from Cons.IH [OF c(3) this] show ?case .
qed simp

lemma cr_check_add_data: "cr_check_add now p idx ttl fl st = Some (ok, st') \<Longrightarrow> heap_data P st \<Longrightarrow> heap_data P st'"
  unfolding cr_check_add_def
  by (elim bind_SomeE) (auto elim!: bind_SomeE dest: del_conflicts_data split: if_split_asm option.split_asm)

lemma add_rrl_data: "add_rrl_loop g p is st = Some (ok, st') \<Longrightarrow> heap_data P st \<Longrightarrow> heap_data P st'"
proof (induction "is" arbitrary: st)
  case (Cons i "is")
  from Cons.prems(1) obtain c where c: "heap st p = Some c" by (auto elim: bind_SomeE)
  show ?case
  proof (cases "RRARR_INDEX c i")
    case None
    with Cons.prems(1) c have "add_rrl_loop g p is st = Some (ok, st')" by simp
    from Cons.IH [OF this Cons.prems(2)] show ?thesis .
  next
    case (Some s)
    let ?c = "put_rrset c i (Some (adjust_ttl g s))"
    from Cons.prems(1) c Some obtain b st1 where i: "insert_rrl p (Some i) (upd_cent p ?c st) = Some (b, st1)"
      "(if b then add_rrl_loop g p is st1 else Some (False, st1)) = Some (ok, st')" by (auto elim!: bind_SomeE)
    have "cent_data P ?c" by (rule cent_data_put_same [OF heap_data_heap [OF Cons.prems(2) c] Some]) simp
    from insert_rrl_data [OF i(1) heap_data_upd [OF Cons.prems(2) this]] have "heap_data P st1" .
    with i(2) Cons.IH [of st1] show ?thesis by (cases b) auto
  qed
qed simp

lemma cent_data_strip: "cent_ok cent \<Longrightarrow> cent_data P cent \<Longrightarrow> cent_data P (strip_cent cent)"
  by (rule cent_data_sub [of P cent]) (auto simp: strip_index)

lemma alloc_cent_data:
  assumes "alloc_cent cent st = Some (r, st')" "cent_ok cent" "cent_data P cent" "heap_data P st"
  shows "heap_data P st'"
proof -
  from copy_cent_spec [OF assms(2), of "mem st"] obtain r1 a where
    r: "copy_cent (mem st) cent = Some (r1, a)" "r1 = Some (strip_cent cent) \<or> r1 = None" by blast
  show ?thesis
  proof (cases r1)
    case None
    with r assms(1,4) show ?thesis by (auto simp: alloc_cent_def)
  next
    case (Some ce)
    with r assms(1) have "st' = upd_cent (next_addr st) (strip_cent cent) (st\<lparr>mem := a, next_addr := next_addr st + 1\<rparr>)"
      by (simp add: alloc_cent_def Let_def)
    then have "heap st' = (heap st)(next_addr st \<mapsto> strip_cent cent)" by simp
    from heap_data_put [OF assms(4) this cent_data_strip [OF assms(2,3)]] show ?thesis .
  qed
qed

lemma adjust_dom_data: "negative c \<Longrightarrow> cent_data P c \<Longrightarrow> cent_data P (set_dom_ttl g c)"
proof -
  assume n: "negative c"
  have "has (x AND NOT DF_NOCACHE) DF_NEGATIVE = has x DF_NEGATIVE" for x by (simp add: has_simps) (simp add: has_def flag_defs)
  with n have "negative (set_dom_ttl g c)" by (simp add: set_dom_ttl_def negative_def Let_def)
  then show ?thesis by (rule cent_data_neg)
qed

lemma add_new_rrl_data: "add_new_rrl g p st = Some (ok, st') \<Longrightarrow> heap_data P st \<Longrightarrow> heap_data P st'"
  unfolding add_new_rrl_def adjust_dom_ttl_def
  by (elim bind_SomeE) (auto dest: add_rrl_data insert_rrl_data heap_data_heap intro: heap_data_upd adjust_dom_data simp del: fun_upd_apply split: if_split_asm)

lemma free_new_data: "free_new_cent p st = Some st' \<Longrightarrow> heap_data P st \<Longrightarrow> heap_data P st'"
  using heap_data_none by (auto simp: free_new_cent_def bind_eq_Some_conv heap_data_def)


lemma add_new_cent_data:
  assumes "add_new_cent g now cent loc st = Some st'" "cent_ok cent" "cent_data P cent" "heap_data P st"
  shows "heap_data P st'"
proof (cases "ce_num_rrs cent = 0 \<and> \<not> negative cent")
  case True
  with assms(1,4) show ?thesis by (simp add: add_new_cent_def purge_cache_data)
next
  case False
  with assms(1) obtain r st1 where 1: "alloc_cent cent st = Some (r, st1)"
    "(case r of None \<Rightarrow> Some st1
        | Some p \<Rightarrow> do {
            (ok, st) \<leftarrow> add_new_rrl g p st1;
            if \<not> ok then free_new_cent p st
            else do {
              let (mok, m) = malloc (mem st);
              (ok, tab) \<leftarrow> add_dns_hash mok (buckets st) p loc;
              let st = st\<lparr>mem := m, buckets := tab\<rparr>;
              if \<not> ok then free_new_cent p st
              else do {
                ce \<leftarrow> heap st p;
                purge_cache now (cache_limit g) True
                  (st\<lparr>ent_num := ent_num st + 1, cache_size := cache_size st + ce_cs ce\<rparr>) } } }) = Some st'"
    by (auto simp: add_new_cent_def simp del: malloc_def elim!: bind_SomeE)
  from alloc_cent_data [OF 1(1) assms(2-4)] have h1: "heap_data P st1" .
  show ?thesis
  proof (cases r)
    case None
    with 1(2) h1 show ?thesis by simp
  next
    case (Some p)
    with 1(2) obtain ok st2 where 2: "add_new_rrl g p st1 = Some (ok, st2)"
      "(if \<not> ok then free_new_cent p st2
            else do {
              let (mok, m) = malloc (mem st2);
              (ok, tab) \<leftarrow> add_dns_hash mok (buckets st2) p loc;
              let st = st2\<lparr>mem := m, buckets := tab\<rparr>;
              if \<not> ok then free_new_cent p st
              else do {
                ce \<leftarrow> heap st p;
                purge_cache now (cache_limit g) True
                  (st\<lparr>ent_num := ent_num st + 1, cache_size := cache_size st + ce_cs ce\<rparr>) } }) = Some st'"
      by (simp only: option.case) (elim bind_SomeE, auto)
    from add_new_rrl_data [OF 2(1) h1] have h2: "heap_data P st2" .
    have f: "free_new_cent p (st2\<lparr>mem := m, buckets := b\<rparr>) = Some s \<Longrightarrow> heap_data P s" for m b s
      by (erule free_new_data) (simp add: h2)
    have q: "purge_cache now z True (st2\<lparr>mem := m, buckets := b, ent_num := e, cache_size := k\<rparr>) = Some s \<Longrightarrow> heap_data P s" for m b e k z s
      by (erule purge_cache_data) (simp add: h2)
    show ?thesis using 2(2) free_new_data [OF _ h2]
      by (cases ok) (auto simp: malloc_def Let_def elim!: bind_SomeE split: if_split_asm dest: f q)
  qed
qed

lemma add_set_data:
  assumes "add_cent_rrset_by_index a l c i ttl ts fl = Some (ok, c', l', a')" "cent_data P c"
  shows "cent_data P c'"
proof -
  let ?u = "fst (unnegate c l)"
  have u: "cent_data P ?u"
  proof (cases "negative c")
    case True
    then show ?thesis by (auto simp: cent_data_def unnegate_def RRARR_INDEX_TESTEXT_def)
  qed (simp add: unnegate_def assms(2))
  have e: "cent_data P c1" if "ensure_slot a ?u i = (Some c1, a1)" for c1 a1
  proof -
    have "RRARR_INDEX_TESTEXT (?u\<lparr>rrext := Some (replicate NRREXT None), ce_cs := n\<rparr>) j = Some s \<Longrightarrow> j < NRRTOT \<Longrightarrow> RRARR_INDEX_TESTEXT ?u j = Some s" for n j s
    proof -
      assume a: "RRARR_INDEX_TESTEXT (?u\<lparr>rrext := Some (replicate NRREXT None), ce_cs := n\<rparr>) j = Some s" "j < NRRTOT"
      have "\<not> j < NRRMU \<Longrightarrow> replicate NRREXT (None :: rr_set_t option) ! (j - NRRMU) = None" using a(2) by (subst nth_replicate) (auto simp: rr_numbers)
      with a(1) show ?thesis by (auto simp: RRARR_INDEX_TESTEXT_def negative_def split: if_splits option.splits)
    qed
    then have "cent_data P (?u\<lparr>rrext := Some (replicate NRREXT None), ce_cs := n\<rparr>)" for n
      by (intro cent_data_sub [OF u]) blast
    with that u show ?thesis by (auto simp: ensure_slot_def malloc_def Let_def split: if_split_asm)
  qed
  have p: "cent_data P (put_rrset c1 i None)" "cent_data P (put_rrset c1 i (Some \<lparr>rs_lent = x, rs_ttl = t, rs_ts = z, rs_flags = f, rs_rrs = []\<rparr>))"
    if "cent_data P c1" for c1 x t z f using that by (auto intro: cent_data_put)
  show ?thesis using assms(1) u e p
    by (auto simp: add_cent_rrset_by_index_def malloc_def Let_def split: prod.splits option.splits if_split_asm)
qed


lemma add_rr_int_data:
  assumes "add_cent_rr_int a l c i ttl ts fl rr rtail = Some (ok, c', rtail', l', a')" "cent_data P c" "P i rr"
  shows "cent_data P c'"
proof -
  have lk: "cent_data P c2" if "link_rr c1 i rtail rr = Some (c2, k)" "cent_data P c1" for c1 c2 k
  proof -
    from that(1) obtain s where s: "RRARR_INDEX_TESTEXT c1 i = Some s" by (auto simp: link_rr_def split: option.splits)
    let ?c = "put_rrset c1 i (Some (s\<lparr>rs_rrs := fst (insert_rr (rs_rrs s) rtail rr)\<rparr>))"
    have "P i d" if "d \<in> set (fst (insert_rr (rs_rrs s) rtail rr))" "i < NRRTOT" for d
      using that assms(3) cent_data_at [OF \<open>cent_data P c1\<close> s]
      by (auto simp: insert_rr_def split: option.splits dest: in_set_takeD in_set_dropD)
    then have "cent_data P ?c" by (intro cent_data_put [OF that(2)]) auto
    with that(1) s show ?thesis by (auto simp: link_rr_def Let_def split: prod.splits)
  qed
  show ?thesis
  proof (cases "a 0")
    case True
    with assms(1) obtain b c1 l1 a1 where 1: "(if rtail = None \<and> RRARR_INDEX_TESTEXT c i = None
        then add_cent_rrset_by_index (\<lambda>n. a (Suc n)) l c i ttl ts fl else Some (True, c, l, \<lambda>n. a (Suc n))) = Some (b, c1, l1, a1)"
      "(if \<not> b then Some (False, c1, rtail, l1, a1)
        else do { (cent, k) \<leftarrow> link_rr c1 i rtail rr; Some (True, cent, Some k, l1, a1) }) = Some (ok, c', rtail', l', a')"
      unfolding add_cent_rr_int_def create_rr_def malloc_def Let_def by (auto elim!: bind_SomeE simp del: not_True_eq_False)
    from 1(1) assms(2) have "cent_data P c1" by (auto dest: add_set_data split: if_split_asm)
    with 1(2) show ?thesis by (cases b) (auto elim!: bind_SomeE intro: lk)
  qed (use assms in \<open>auto simp: add_cent_rr_int_def create_rr_def malloc_def\<close>)
qed

lemma add_rrs_data: "add_rrs_loop p i new rrs rtail st = Some (ok, st') \<Longrightarrow> \<forall>d\<in>set rrs. P i d \<Longrightarrow> heap_data P st \<Longrightarrow> heap_data P st'"
proof (induction rrs arbitrary: rtail st)
  case (Cons rr rrs)
  from Cons.prems(1) obtain c b c1 rt rrl m where 1: "heap st p = Some c"
    "add_cent_rr_int (mem st) (rrset_l st) c i (rs_ttl new) (rs_ts new) (rs_flags new) rr rtail = Some (b, c1, rt, rrl, m)"
    "(if b then add_rrs_loop p i new rrs rt ((upd_cent p c1 st)\<lparr>rrset_l := rrl, mem := m\<rparr>)
      else Some (False, (upd_cent p c1 st)\<lparr>rrset_l := rrl, mem := m\<rparr>)) = Some (ok, st')"
    unfolding add_rrs_loop.simps Let_def by (elim bind_SomeE, clarsimp)
  have "cent_data P c1" using add_rr_int_data [OF 1(2) heap_data_heap [OF Cons.prems(3) 1(1)]] Cons.prems(2) by simp
  then have "heap_data P ((upd_cent p c1 st)\<lparr>rrset_l := rrl, mem := m\<rparr>)" by (simp add: heap_data_upd Cons.prems(3) del: fun_upd_apply)
  with 1(3) Cons.IH Cons.prems(2) show ?case by (cases b) auto
qed simp

lemma replace_rrset_data:
  assumes "replace_rrset g now p i new st = Some (status, st')" "\<forall>d\<in>set (rs_rrs new). P i d" "heap_data P st"
  shows "heap_data P st'"
proof -
  from assms(1) obtain c where c: "heap st p = Some c" by (auto simp: replace_rrset_def elim: bind_SomeE)
  show ?thesis
  proof (cases "keeps_old now new (RRARR_INDEX_TESTEXT c i)")
    case True
    with assms c show ?thesis by (simp add: replace_rrset_def)
  next
    case False
    with assms(1) c obtain rv st1 ok2 st2 where 1: "del_cent_rrset p i st = Some (rv, st1)"
      "cr_check_add now p i (rs_ttl new) (rs_flags new) st1 = Some (ok2, st2)"
      "(if \<not> ok2 then Some (AddNext, st2)
       else do {
         c \<leftarrow> heap st2 p;
         (ok, c, rrl, m) \<leftarrow> add_cent_rrset_by_index (mem st2) (rrset_l st2) c i (rs_ttl new) (rs_ts new) (rs_flags new);
         let st = (upd_cent p c st2)\<lparr>rrset_l := rrl, mem := m\<rparr>;
         if \<not> ok then Some (AddSize, st)
         else do {
           (ok, st) \<leftarrow> add_rrs_loop p i new (rs_rrs new) None st;
           if \<not> ok then Some (AddCleanup, st)
           else do {
             c \<leftarrow> heap st p;
             s \<leftarrow> RRARR_INDEX c i;
             (ok, st) \<leftarrow> insert_rrl p (Some i) (upd_cent p (put_rrset c i (Some (adjust_ttl g s))) st);
             Some (if ok then AddNext else AddCleanup, st) } } }) = Some (status, st')"
      unfolding replace_rrset_def by (elim bind_SomeE) (simp, elim bind_SomeE, clarsimp, elim bind_SomeE, clarsimp)
    have h2: "heap_data P st2" by (rule cr_check_add_data [OF 1(2) del_cent_rrset_data [OF 1(1) assms(3)]])
    show ?thesis
    proof (cases ok2)
      case True
      with 1(3) obtain c2 ok3 c3 rrl m where 2: "heap st2 p = Some c2"
        "add_cent_rrset_by_index (mem st2) (rrset_l st2) c2 i (rs_ttl new) (rs_ts new) (rs_flags new) = Some (ok3, c3, rrl, m)"
        "(let st = (upd_cent p c3 st2)\<lparr>rrset_l := rrl, mem := m\<rparr> in
         if \<not> ok3 then Some (AddSize, st)
         else do {
           (ok, st) \<leftarrow> add_rrs_loop p i new (rs_rrs new) None st;
           if \<not> ok then Some (AddCleanup, st)
           else do {
             c \<leftarrow> heap st p;
             s \<leftarrow> RRARR_INDEX c i;
             (ok, st) \<leftarrow> insert_rrl p (Some i) (upd_cent p (put_rrset c i (Some (adjust_ttl g s))) st);
             Some (if ok then AddNext else AddCleanup, st) } }) = Some (status, st')"
        by (simp only: not_True_eq_False if_False) (elim bind_SomeE, rule that, assumption, simp_all add: split_beta)
      let ?st = "(upd_cent p c3 st2)\<lparr>rrset_l := rrl, mem := m\<rparr>"
      have h3: "heap_data P ?st"
        by (rule heap_data_put [OF h2 _ add_set_data [OF 2(2) heap_data_heap [OF h2 2(1)]], of _ p]) simp
      show ?thesis
      proof (cases ok3)
        case t3: True
        with 2(3) obtain ok4 st4 where 4: "add_rrs_loop p i new (rs_rrs new) None ?st = Some (ok4, st4)"
          "(if \<not> ok4 then Some (AddCleanup, st4)
           else do {
             c \<leftarrow> heap st4 p;
             s \<leftarrow> RRARR_INDEX c i;
             (ok, st) \<leftarrow> insert_rrl p (Some i) (upd_cent p (put_rrset c i (Some (adjust_ttl g s))) st4);
             Some (if ok then AddNext else AddCleanup, st) }) = Some (status, st')"
          unfolding Let_def by (simp only: not_True_eq_False if_False) (elim bind_SomeE, clarsimp simp del: fun_upd_apply)
        have h4: "heap_data P st4" by (rule add_rrs_data [OF 4(1) assms(2) h3])
        show ?thesis
        proof (cases ok4)
          case t4: True
          with 4(2) obtain c4 s4 ok5 where 5: "heap st4 p = Some c4" "RRARR_INDEX c4 i = Some s4"
            "insert_rrl p (Some i) (upd_cent p (put_rrset c4 i (Some (adjust_ttl g s4))) st4) = Some (ok5, st')"
            by (simp only: not_True_eq_False if_False) (elim bind_SomeE, clarsimp simp del: fun_upd_apply)
          have "cent_data P (put_rrset c4 i (Some (adjust_ttl g s4)))"
            by (rule cent_data_put_same [OF heap_data_heap [OF h4 5(1)] 5(2)]) simp
          from insert_rrl_data [OF 5(3) heap_data_upd [OF h4 this]] show ?thesis .
        qed (use 4(2) h4 in simp)
      qed (use 2(3) h3 in \<open>simp add: Let_def\<close>)
    qed (use 1(3) h2 in simp)
  qed
qed


lemma replace_loop_data:
  "replace_loop g now p cent is st = Some (status, k, st') \<Longrightarrow> \<forall>i\<in>set is. i < RRARR_LEN cent \<Longrightarrow> cent_data P cent \<Longrightarrow>
    heap_data P st \<Longrightarrow> heap_data P st'"
proof (induction "is" arbitrary: st)
  case (Cons i "is")
  show ?case
  proof (cases "RRARR_INDEX cent i")
    case None
    with Cons show ?thesis by simp
  next
    case (Some new)
    with Cons.prems(1) obtain s st1 where 1: "replace_rrset g now p i new st = Some (s, st1)"
      "(if s = AddNext then replace_loop g now p cent is st1 else Some (s, i, st1)) = Some (status, k, st')"
      by (auto elim!: bind_SomeE)
    have i: "i < RRARR_LEN cent" using Cons.prems(2) by simp
    then have "\<not> negative cent" "i < NRRTOT" using RRARR_LEN_negative by auto
    with Some Cons.prems(3) RRARR_INDEX_eq [OF _ i] have "\<forall>d\<in>set (rs_rrs new). P i d" by (auto dest: cent_data_at)
    from replace_rrset_data [OF 1(1) this Cons.prems(4)] have "heap_data P st1" .
    with 1(2) Cons.IH [of st1] Cons.prems(2,3) show ?thesis by (cases "s = AddNext") auto
  qed
qed simp

lemma negative_merge: "negative (c\<lparr>ce_flags := ce_flags c OR (x AND (DF_AUTH OR DF_WILD))\<rparr>) = negative c"
proof -
  have "has (f OR (x AND (DF_AUTH OR DF_WILD))) DF_NEGATIVE = has f DF_NEGATIVE" for f
    by (simp add: has_simps) (simp add: has_def flag_defs and.assoc)
  then show ?thesis by (simp add: negative_def)
qed

lemma update_cent_data:
  assumes "update_cent g now cent p st = Some st'" "cent_data P cent" "heap_data P st"
  shows "heap_data P st'"
proof -
  from assms(1) obtain n st1 c where 1: "purge_cent now p False False st = Some (n, st1)" "heap st1 p = Some c"
    unfolding update_cent_def by (elim bind_SomeE, clarsimp simp del: fun_upd_apply, elim bind_SomeE) blast
  with assms(1) obtain status i st2 where
    2: "replace_loop g now p cent [0..<RRARR_LEN cent] (st1\<lparr>cache_size := cache_size st1 - ce_cs c\<rparr>) = Some (status, i, st2)"
    "(case status of
       AddNext \<Rightarrow> do {
         c \<leftarrow> heap st2 p;
         let c = c\<lparr>ce_flags := ce_flags c OR (ce_flags cent AND (DF_AUTH OR DF_WILD)),
                  c_ns := merge_ref (c_ns cent) (c_ns c), c_soa := merge_ref (c_soa cent) (c_soa c)\<rparr>;
         purge_cache now (cache_limit g) True ((upd_cent p c st2)\<lparr>cache_size := cache_size st2 + ce_cs c\<rparr>) }
     | AddSize \<Rightarrow> do { c \<leftarrow> heap st2 p; Some (st2\<lparr>cache_size := cache_size st2 + ce_cs c\<rparr>) }
     | AddCleanup \<Rightarrow> do {
         (rv, st) \<leftarrow> del_cent_rrset p i st2;
         c \<leftarrow> heap st p;
         Some (st\<lparr>cache_size := cache_size st + ce_cs c\<rparr>) }) = Some st'"
    unfolding update_cent_def by (simp del: fun_upd_apply, elim bind_SomeE) (clarsimp simp del: fun_upd_apply)
  have h1: "heap_data P (st1\<lparr>cache_size := cache_size st1 - ce_cs c\<rparr>)" using purge_cent_keeps [OF 1(1) assms(3)] by simp
  have h2: "heap_data P st2" by (rule replace_loop_data [OF 2(1) _ assms(2) h1]) simp
  show ?thesis
  proof (cases status)
    case AddNext
    with 2(2) obtain c2 where c2: "heap st2 p = Some c2"
      "purge_cache now (cache_limit g) True ((upd_cent p (c2\<lparr>ce_flags := ce_flags c2 OR (ce_flags cent AND (DF_AUTH OR DF_WILD)),
           c_ns := merge_ref (c_ns cent) (c_ns c2), c_soa := merge_ref (c_soa cent) (c_soa c2)\<rparr>) st2)\<lparr>cache_size := cache_size st2 + ce_cs c2\<rparr>) = Some st'"
      by (auto simp: Let_def elim!: bind_SomeE simp del: fun_upd_apply)
    have "cent_data P (c2\<lparr>ce_flags := ce_flags c2 OR (ce_flags cent AND (DF_AUTH OR DF_WILD))\<rparr>)"
      using heap_data_heap [OF h2 c2(1)] cent_data_flags [OF negative_merge] by simp
    then have "cent_data P (c2\<lparr>ce_flags := ce_flags c2 OR (ce_flags cent AND (DF_AUTH OR DF_WILD)),
           c_ns := merge_ref (c_ns cent) (c_ns c2), c_soa := merge_ref (c_soa cent) (c_soa c2)\<rparr>)"
      by (simp only: cent_data_acc)
    from purge_cache_data [OF c2(2)] heap_data_upd [OF h2 this] show ?thesis by (simp only: heap_data_fields)
  qed (use 2(2) h2 in \<open>auto elim!: bind_SomeE dest: del_cent_rrset_data\<close>)
qed

lemma add_pass_data:
  assumes "add_cache_pass g now cent st = Some (b, st')" "cent_ok cent" "cent_data P cent" "heap_data P st"
  shows "heap_data P st'"
  using assms unfolding add_cache_pass_def
  apply (elim bind_SomeE)
  apply (auto elim!: bind_SomeE split: option.split_asm if_split_asm)
  apply (blast intro: add_new_cent_data)
  apply (blast intro: del_cache_ent_data)
  by (blast intro: update_cent_data)

lemma add_cache_data:
  assumes "add_cache g now cent st = Some st'" "cent_ok cent" "cent_data P cent" "heap_data P st"
  shows "heap_data P st'"
proof -
  have "cent_ok cent \<and> cent_data P cent \<and> heap_data P st \<longrightarrow> heap_data P st'"
  proof (rule add_cache.raw_induct [where P = "\<lambda>g now cent st st'. cent_ok cent \<and> cent_data P cent \<and> heap_data P st \<longrightarrow> heap_data P st'", OF _ assms(1)])
    fix loop g now cent st st'
    assume IH: "\<And>g now cent st st'. loop g now cent st = Some st' \<Longrightarrow> cent_ok cent \<and> cent_data P cent \<and> heap_data P st \<longrightarrow> heap_data P st'"
      and r: "Option.bind (add_cache_pass g now cent st) (\<lambda>r. if fst r then loop g now cent (snd r) else Some (snd r)) = Some st'"
    from r obtain q where q: "add_cache_pass g now cent st = Some (fst q, snd q)" "(if fst q then loop g now cent (snd q) else Some (snd q)) = Some st'"
      by (elim bind_SomeE) simp
    show "cent_ok cent \<and> cent_data P cent \<and> heap_data P st \<longrightarrow> heap_data P st'"
      using add_pass_data [OF q(1), of P] q(2) IH [of g now cent "snd q" st'] by (cases "fst q") auto
  qed
  with assms show ?thesis by blast
qed

end
