(* ===== verification/Resolve.thy ===== *)
theory Resolve
  imports Servers Cache_Data
begin

text \<open>
  Resolving a name (\<^verbatim>\<open>dns_query.c\<close>): the look at the cache with the decision whether it can be used, the question
  to the servers, and what becomes of the answer.  The exchange with the servers, \<^verbatim>\<open>p_recursive_query\<close>, and
  \<^verbatim>\<open>test_onquery\<close>, which tests the servers before a question, are parameters.
\<close>

subsection \<open>What the cache knows\<close>

definition set_flags_ttl :: "nat \<Rightarrow> dns_cent_t \<Rightarrow> 16 word \<times> int \<Rightarrow> bool \<times> 16 word \<times> int" where
  "set_flags_ttl tp cached r = (case getrrset cached tp of None \<Rightarrow> (False, r)
     | Some s \<Rightarrow> let t = rs_ts s + CLAT_ADJ (rs_ttl s) in
         (True, fst r OR rs_flags s, if snd r = 0 \<or> snd r > t then t else snd r))"

primrec set_all_flags_ttl :: "nat list \<Rightarrow> dns_cent_t \<Rightarrow> 16 word \<times> int \<Rightarrow> 16 word \<times> int" where
  "set_all_flags_ttl [] cached r = r"
| "set_all_flags_ttl (i # is) cached r = set_all_flags_ttl is cached (case RRARR_INDEX cached i of None \<Rightarrow> r
     | Some s \<Rightarrow> let t = rs_ts s + CLAT_ADJ (rs_ttl s) in
         (fst r OR rs_flags s, if snd r = 0 \<or> snd r > t then t else snd r))"

definition set_types :: "nat list \<Rightarrow> dns_cent_t \<Rightarrow> 16 word \<times> int" where
  "set_types tps cached = foldl (\<lambda>r tp. snd (set_flags_ttl tp cached r)) (0, 0) tps"

text \<open>The flags, the time until which the sets are valid, and \<^verbatim>\<open>neg\<close>, for an entry that is not negative.\<close>

definition entry_status :: "nat \<Rightarrow> int \<Rightarrow> dns_cent_t \<Rightarrow> 16 word \<times> int \<times> bool" where
  "entry_status thint queryts cached =
     (if thint = QT_ALL then let (fl, ttl) = set_all_flags_ttl [0..<RRARR_LEN cached] cached (0, 0) in (fl, ttl, False)
      else let (found, fl, ttl) = set_flags_ttl T_CNAME cached (0, 0) in
        if \<not> found \<or> has (rs_flags (the (getrrset cached T_CNAME))) CF_NEGATIVE then
          if thint \<ge> T_MIN \<and> thint \<le> T_MAX then
            let (found, fl, ttl) = set_flags_ttl thint cached (0, 0) in
            (fl, ttl, found \<and> has (rs_flags (the (getrrset cached thint))) CF_NEGATIVE \<and> ttl \<ge> queryts)
          else let (fl, ttl) = set_types (if thint = QT_MAILB then [T_MB, T_MG, T_MR]
                 else if thint = QT_MAILA then [T_MD, T_MF] else []) cached in (fl, ttl, False)
        else (fl, ttl, False))"

definition needs_requery :: "nat \<Rightarrow> int \<Rightarrow> dns_cent_t \<Rightarrow> bool \<times> 16 word" where
  "needs_requery thint queryts cached =
     (if negative cached then (\<not> neg_ts cached + CLAT_ADJ (neg_ttl cached) \<ge> queryts, 0)
      else
        let (fl, ttl, neg) = entry_status thint queryts cached;
            need_req = (\<not> has fl CF_LOCAL \<and>
              (if thint = QT_ALL then \<not> has (ce_flags cached) DF_AUTH
               else thint \<ge> QT_MIN \<and> thint \<le> QT_MAX \<and> \<not> (has fl CF_AUTH \<and> \<not> has fl CF_ADDITIONAL)));
            timed = (\<not> has fl CF_LOCAL \<and> ttl < queryts)
        in (\<not> neg \<and> (need_req \<or> timed), fl))"

text \<open>The part of the name that has the SOA record, for a name that is locally known not to exist.\<close>

definition local_soa :: "dns_cent_t \<Rightarrow> byte \<Rightarrow> cache \<Rightarrow> byte option" where
  "local_soa cached soa st =
     (if c_soa cached \<noteq> cundef then Some (c_soa cached)
      else if have_rr cached T_SOA then do { n \<leftarrow> rhnsegcnt (ce_qname cached); Some (of_nat n) }
      else do {
        owner \<leftarrow> getlocalowner (ce_qname cached) T_SOA st;
        case owner of None \<Rightarrow> Some soa | Some k \<Rightarrow> do { n \<leftarrow> rhnsegcnt (drop k (ce_qname cached)); Some (of_nat n) } })"

definition lookup_cache_status :: "byte list \<Rightarrow> nat \<Rightarrow> int \<Rightarrow> byte \<Rightarrow> 'w world \<Rightarrow> cache \<Rightarrow>
    (rc \<times> dns_cent_t option \<times> 16 word \<times> byte \<times> 'w world \<times> cache) option" where
  "lookup_cache_status name thint queryts soa w st = do {
     let (now, w) = wd_now w;
     (r, wild, st) \<leftarrow> lookup_cache now name True st;
     case r of None \<Rightarrow> Some (RC_NOTCACHED, None, 0, soa, w, st)
     | Some cached \<Rightarrow>
         if has (ce_flags cached) DF_LOCAL then
           if negative cached \<or> wild = w_locnerr then do {
             soa \<leftarrow> local_soa cached soa st;
             Some (RC_NAMEERR, None, 0, soa, w, st) }
           else Some (RC_OK, Some cached, 0, soa, w, st)
         else let (stale, fl) = needs_requery thint queryts cached in
           Some (if stale then RC_STALE else RC_CACHED, Some cached, fl, soa, w, st) }"

subsection \<open>Asking\<close>

text \<open>
  \<^verbatim>\<open>p_recursive_query\<close>: from the array of servers, the name, the type and the \<^verbatim>\<open>c_soa\<close> of the caller, the code, the
  entry, whether it is not to be cached, and the new \<^verbatim>\<open>c_soa\<close>.
\<close>

type_synonym 'w asking = "query_stat_t list \<Rightarrow> byte list \<Rightarrow> nat \<Rightarrow> byte \<Rightarrow> 'w world \<Rightarrow> cache \<Rightarrow>
  (rc \<times> dns_cent_t option \<times> bool \<times> byte \<times> 'w world \<times> cache) option"

definition keep_answer :: "res_conf \<Rightarrow> byte list \<Rightarrow> dns_cent_t \<Rightarrow> 'w world \<Rightarrow> cache \<Rightarrow> (dns_cent_t \<times> 'w world \<times> cache) option" where
  "keep_answer g name cached w st = do {
     let (now, w) = wd_now w;
     st \<leftarrow> add_cache (rc_cache g) now cached st;
     (tc, w, st) \<leftarrow> lookup_now name w st;
     Some (case tc of None \<Rightarrow> cached | Some c \<Rightarrow> c, w, st) }"

definition p_dns_resolve :: "'w asking \<Rightarrow> res_conf \<Rightarrow> byte list \<Rightarrow> nat \<Rightarrow> byte \<Rightarrow> 'w world \<Rightarrow> cache \<Rightarrow>
    (rc \<times> dns_cent_t option \<times> byte \<times> 'w world \<times> cache) option" where
  "p_dns_resolve ask g name thint soa w st = do {
     (one_up, serv, w, st) \<leftarrow> select_servers g name w st;
     if one_up then do {
       (rc, cached, nocache, soa, w, st) \<leftarrow> ask serv name thint soa w st;
       if rc = RC_OK then do {
         c \<leftarrow> cached;
         if \<not> nocache then do {
           (c, w, st) \<leftarrow> keep_answer g name c w st;
           Some (rc, Some c, soa, w, st) }
         else Some (rc, Some c, soa, w, st) }
       else if rc = RC_CACHED \<or> rc = RC_STALE then Some (rc, cached, soa, w, st)
       else Some (rc, None, soa, w, st) }
     else Some (RC_SERVFAIL, None, soa, w, st) }"

definition link_down :: "'w world \<Rightarrow> bool" where
  "link_down w \<longleftrightarrow> \<not> list_ex (\<lambda>sp. sp_rootserver sp \<le> 1 \<and> list_ex is_up (sp_atup_a sp)) (wd_servers w)"

text \<open>With a null pointer for \<^verbatim>\<open>q\<close>: the servers are the configured ones.\<close>

definition p_dns_cached_resolve :: "'w asking \<Rightarrow> ('w world \<Rightarrow> 'w world) \<Rightarrow> res_conf \<Rightarrow> byte list \<Rightarrow> nat \<Rightarrow> int \<Rightarrow> byte \<Rightarrow> 'w world \<Rightarrow> cache \<Rightarrow>
    (rc \<times> dns_cent_t option \<times> byte \<times> 'w world \<times> cache) option" where
  "p_dns_cached_resolve ask test_onquery g name thint queryts soa w st = do {
     (rc, cached, fl, soa, w, st) \<leftarrow> lookup_cache_status name thint queryts soa w st;
     if rc = RC_OK then Some (RC_CACHED, cached, soa, w, st)
     else if rc = RC_NAMEERR then Some (RC_NAMEERR, None, soa, w, st)
     else
       let w = (if rc_onquery g then test_onquery w else w) in
       if rc_lndown_kluge g \<and> \<not> has fl CF_LOCAL \<and> link_down w then Some (RC_SERVFAIL, None, soa, w, st)
       else if rc = RC_CACHED then Some (rc, cached, soa, w, st)
       else do {
         (rc, ent, soa, w, st) \<leftarrow> p_dns_resolve ask g name thint soa w st;
         Some (if rc = RC_OK \<or> rc = RC_CACHED \<or> rc = RC_STALE then (rc, ent, soa, w, st)
           else if rc = RC_SERVFAIL \<and> cached \<noteq> None \<and> has fl CF_NOPURGE then (RC_STALE, cached, soa, w, st)
           else (rc, None, soa, w, st)) } }"

definition r_dns_cached_resolve :: "'w asking \<Rightarrow> ('w world \<Rightarrow> 'w world) \<Rightarrow> res_conf \<Rightarrow> byte \<Rightarrow> 'w world resolver" where
  "r_dns_cached_resolve ask test_onquery g soa name thint queryts w st = do {
     (rc, cached, soa, w, st) \<leftarrow> p_dns_cached_resolve ask test_onquery g name thint queryts soa w st;
     if rc = RC_OK \<or> rc = RC_CACHED \<or> rc = RC_STALE then do {
       c \<leftarrow> cached;
       if negative c then Some (RC_NAMEERR, None, c_soa c, w, st) else Some (RC_OK, Some c, soa, w, st) }
     else Some (rc, None, soa, w, st) }"

text \<open>The daemon's resolver starts without knowledge of an SOA record.\<close>

definition dns_cached_resolve :: "'w asking \<Rightarrow> ('w world \<Rightarrow> 'w world) \<Rightarrow> res_conf \<Rightarrow> 'w world resolver" where
  "dns_cached_resolve ask test_onquery g = r_dns_cached_resolve ask test_onquery g cundef"

end
