(* ===== verification/Servers_Ok.thy ===== *)
theory Servers_Ok
  imports Servers
begin

text \<open>
  Which servers are asked: every entry of the array belongs to a configured server that may be asked for the name and
  has an address that is up, and without root servers the array is that of all those addresses in the order of the
  configuration.
\<close>

subsection \<open>Looking at the cache\<close>

lemma cache_good_mem [simp]: "cache_good (st\<lparr>mem := m\<rparr>) = cache_good st"
  by (simp add: cache_good_def cache_ok_def ok_but_def base_ok_def)

lemma lookup_now_ok:
  assumes "cache_good st" "name_at name 0 ls" "wf_name ls"
  shows "\<exists>c w' st'. lookup_now name w st = Some (c, w', st') \<and> cache_good st' \<and> wd_servers w' = wd_servers w \<and> (\<forall>x. c = Some x \<longrightarrow> cent_good x)"
  using lookup_cache_good [OF assms, of "wd_time w 0" False] by (auto simp: lookup_now_def wd_now_def)

lemma cent_good_data: "cent_good c \<Longrightarrow> getrrset c tp = Some s \<Longrightarrow> d \<in> set (rs_rrs s) \<Longrightarrow> data_ok tp d"
  by (auto simp: cent_good_def cent_data_ok_def)

lemma data_ok_name: "data_ok T_NS d \<Longrightarrow> \<exists>ls. wf_name ls \<and> name_at d 0 ls"
proof -
  assume "data_ok T_NS d"
  then obtain ls where "wf_name ls" "d = enc ls"
    by (auto simp: data_ok_def rdata_ok_def rdata_form_def list_all2_Cons2 fits_Nam items_bytes_def)
  with name_at_enc [OF wf_name_lab_ok, of ls "[]"] show ?thesis by auto
qed

lemma rd_addrs_ok: "\<forall>d\<in>set ds. length d = 4 \<Longrightarrow> rd_addrs ds = Some ds"
  by (induction ds) (simp_all add: rds_def)

lemma serv_addrs_ok:
  assumes "\<forall>x. c = Some x \<longrightarrow> cent_good x"
  shows "\<exists>as w'. serv_addrs c w = Some (as, w') \<and> wd_servers w' = wd_servers w \<and> length as \<le> MAXNAMESERVIPS \<and> (\<forall>a\<in>set as. length a = 4)"
proof (cases "\<exists>x s. c = Some x \<and> getrrset x T_A = Some s")
  case True
  then obtain x s where x: "c = Some x" "getrrset x T_A = Some s" by blast
  with assms have "\<forall>d\<in>set (rs_rrs s). length d = 4" using cent_good_data by (auto simp: data_ok_def)
  then have d: "\<forall>d\<in>set (take MAXNAMESERVIPS (rs_rrs s)). length d = 4" by (auto dest: in_set_takeD)
  let ?as = "if timedout (wd_time w 0) s then [] else take MAXNAMESERVIPS (rs_rrs s)"
  have "serv_addrs c w = Some (?as, snd (wd_now w))" using rd_addrs_ok [OF d] x by (simp add: serv_addrs_def wd_now_def Let_def)
  moreover have "length ?as \<le> MAXNAMESERVIPS" "\<forall>a\<in>set ?as. length a = 4" using d by simp_all
  ultimately show ?thesis by (intro exI [of _ ?as] exI [of _ "snd (wd_now w)"]) (simp add: wd_now_def)
next
  case False
  then have "serv_addrs c w = Some ([], w)" by (simp add: serv_addrs_def split: option.split)
  then show ?thesis by (intro exI [of _ "[]"] exI [of _ w]) simp
qed

lemma add_addrs_ok: "add_addrs n as res st = (r, st') \<Longrightarrow> \<forall>a\<in>set as \<union> set res. length a = 4 \<Longrightarrow> cache_good st' = cache_good st \<and>
   (\<forall>a\<in>set (elems r). length a = 4)"
proof (induction "as" arbitrary: res st)
  case (Cons a "as")
  show ?case
  proof (cases "a \<in> set (take n res)")
    case True
    with Cons.prems(1) have "add_addrs n as res st = (r, st')" by simp
    from Cons.IH [OF this] Cons.prems(2) show ?thesis by simp
  next
    case out: False
    let ?st = "st\<lparr>mem := \<lambda>n. mem st (Suc n)\<rparr>"
    show ?thesis
    proof (cases "mem st 0")
      case True
      with out Cons.prems(1) have "add_addrs n as (res @ [a]) ?st = (r, st')" by (simp add: malloc_def)
      from Cons.IH [OF this] Cons.prems(2) show ?thesis by simp
    next
      case False
      with out Cons.prems(1) have "r = None" "st' = ?st" by (simp_all add: malloc_def)
      then show ?thesis by (simp add: elems_def)
    qed
  qed
qed (simp add: elems_def, blast)

lemma lookup_ns_loop_ok:
  assumes "cache_good st" "\<forall>d\<in>set rrs. data_ok T_NS d" "\<forall>a\<in>set res. length a = 4"
  shows "\<exists>adrs w' st'. lookup_ns_loop rrs res w st = Some (adrs, w', st') \<and> cache_good st' \<and> wd_servers w' = wd_servers w \<and> (\<forall>a\<in>set adrs. length a = 4)"
  using assms
proof (induction rrs arbitrary: res w st)
  case (Cons rr rrs)
  from Cons.prems(2) data_ok_name obtain ls where ls: "wf_name ls" "name_at rr 0 ls" by auto
  from lookup_now_ok [OF Cons.prems(1) ls(2,1), of w] obtain c w1 st1 where
    l: "lookup_now rr w st = Some (c, w1, st1)" "cache_good st1" "wd_servers w1 = wd_servers w" "\<forall>x. c = Some x \<longrightarrow> cent_good x" by blast
  from serv_addrs_ok [OF l(4), of w1] obtain as w2 where
    a: "serv_addrs c w1 = Some (as, w2)" "wd_servers w2 = wd_servers w1" "\<forall>a\<in>set as. length a = 4" by blast
  obtain r st2 where r: "add_addrs (length res) as res st1 = (r, st2)" by fastforce
  have all4: "\<forall>a\<in>set as \<union> set res. length a = 4" using a(3) Cons.prems(3) by blast
  from add_addrs_ok [OF r all4] l(2) have st2: "cache_good st2" "\<forall>a\<in>set (elems r). length a = 4" by simp_all
  show ?case
  proof (cases "as = [] \<or> r = None")
    case True
    let ?st = "if as = [] then st1 else st2"
    have "lookup_ns_loop (rr # rrs) res w st = Some ([], w2, ?st)" using True l(1) a(1) r by (cases "as = []") simp_all
    with l(2,3) a(2) st2(1) show ?thesis by (intro exI [of _ "[]"] exI [of _ w2] exI [of _ ?st]) simp
  next
    case False
    then obtain res' where res': "r = Some res'" by auto
    with l(1) a(1) r False have "lookup_ns_loop (rr # rrs) res w st = lookup_ns_loop rrs res' w2 st2" by simp
    moreover have "\<forall>d\<in>set rrs. data_ok T_NS d" "\<forall>a\<in>set res'. length a = 4" using Cons.prems(2) st2(2) res' by (simp_all add: elems_def)
    note Cons.IH [OF st2(1) this, of w2]
    ultimately show ?thesis using l(3) a(2) by simp
  qed
qed simp

lemma lookup_ns_ok:
  assumes "cache_good st" "name_at zone 0 ls" "wf_name ls"
  shows "\<exists>adrs w' st'. lookup_ns zone w st = Some (adrs, w', st') \<and> cache_good st' \<and> wd_servers w' = wd_servers w \<and> (\<forall>a\<in>set adrs. length a = 4)"
proof -
  from lookup_now_ok [OF assms, of w] obtain c w1 st1 where
    l: "lookup_now zone w st = Some (c, w1, st1)" "cache_good st1" "wd_servers w1 = wd_servers w" "\<forall>x. c = Some x \<longrightarrow> cent_good x" by blast
  show ?thesis
  proof (cases "\<exists>x s. c = Some x \<and> getrrset x T_NS = Some s \<and> has (rs_flags s) CF_ROOTSERV")
    case True
    then obtain x s where x: "c = Some x" "getrrset x T_NS = Some s" "has (rs_flags s) CF_ROOTSERV" by blast
    with l(4) cent_good_data have d: "\<forall>d\<in>set (rs_rrs s). data_ok T_NS d" by blast
    with lookup_ns_loop_ok [OF l(2) d, of "[]" "snd (wd_now w1)"] l x show ?thesis
      by (auto simp: lookup_ns_def wd_now_def Let_def)
  next
    case False
    with l show ?thesis by (auto simp: lookup_ns_def split: option.splits)
  qed
qed

text \<open>The zones that are looked up: proper ends of the name, of one to three segments.\<close>

definition zone_above :: "byte list \<Rightarrow> byte list list \<Rightarrow> bool" where
  "zone_above zone ls \<longleftrightarrow> (\<exists>xs. name_at zone 0 xs \<and> strict_suffix xs ls \<and> xs \<noteq> [])"

lemma rhn_arpa_name: "name_at rhn_arpa 0 [[97, 114, 112, 97]]"
  by code_simp

lemma top_segments_ok:
  assumes "name_at name 0 ls" "wf_name ls"
  shows "\<exists>m. top_segments name = Some (length ls, m) \<and> m \<le> 3 \<and> (m = 0 \<or> m < length ls)"
proof -
  have "wf_name [[97, 114, 112, 97]]" by code_simp
  then obtain k a b where d: "domain_match rhn_arpa name = Some (k, a, b)"
    using domain_match_spec [OF rhn_arpa_name assms(1)] wf_name_labels [of "[[97, 114, 112, 97]]"] wf_name_labels [OF assms(2)]
    by (simp add: Let_def)
  then show ?thesis using rhnsegcnt_name [OF assms(1)] by (auto simp: top_segments_def)
qed

lemma lookup_top_ok:
  assumes "cache_good st" "name_at name 0 ls" "wf_name ls" "m = 0 \<or> m < length ls"
  shows "\<exists>r w' st'. lookup_top name (length ls) m w st = Some (r, w', st') \<and> cache_good st' \<and> wd_servers w' = wd_servers w \<and>
    (\<forall>zone adrs. r = Some (zone, adrs) \<longrightarrow> zone_above zone ls \<and> adrs \<noteq> [] \<and> (\<forall>a\<in>set adrs. length a = 4))"
  using assms(1,4)
proof (induction m arbitrary: w st)
  case (Suc m)
  let ?n = "length ls - Suc m"
  from skipsegs_name [OF assms(2), of ?n] obtain k where k: "skipsegs name 0 ?n = Some k" "name_at name k (drop ?n ls)" by auto
  note zone = name_at_drop [OF k(2)]
  from lookup_ns_ok [OF Suc.prems(1) zone wf_name_drop [OF assms(3)], of w] obtain adrs w1 st1 where
    l: "lookup_ns (drop k name) w st = Some (adrs, w1, st1)" "cache_good st1" "wd_servers w1 = wd_servers w" "\<forall>a\<in>set adrs. length a = 4" by blast
  have "zone_above (drop k name) ls" unfolding zone_above_def strict_suffix_def
    using zone Suc.prems(2) by (intro exI [of _ "drop ?n ls"]) (auto simp: suffix_drop dest: arg_cong [of _ _ length])
  with Suc.IH [OF l(2), of w1] Suc.prems(2) k l show ?case by (cases "adrs = []") auto
qed simp

subsection \<open>The access lists\<close>

definition allowed :: "servparm_t \<Rightarrow> byte list list \<Rightarrow> bool" where
  "allowed s ls = (case find (sl_matches ls) (sp_alist s) of Some sl \<Rightarrow> included sl
     | None \<Rightarrow> (case sp_policy s of C_INCLUDED \<Rightarrow> True | C_EXCLUDED \<Rightarrow> False
         | C_SIMPLE_ONLY \<Rightarrow> length ls \<le> 1 | C_FQDN_ONLY \<Rightarrow> length ls > 1))"

lemma use_server_loop_spec:
  assumes "name_at name 0 ls" "wf_name ls" "slist_ok sla"
  shows "use_server_loop sla name = Some (map_option included (find (sl_matches ls) sla))"
  using assms(3)
proof (induction sla)
  case (Cons sl sla)
  then obtain ds where d: "name_at (domain sl) 0 ds" "wf_name ds" by (auto simp: slist_ok_def)
  obtain k nrem lrem where m: "domain_match name (domain sl) = Some (k, nrem, lrem)"
    using domain_match_spec [OF assms(1) d(1)] wf_name_labels [OF assms(2)] wf_name_labels [OF d(2)] by (simp add: Let_def)
  have ok: "slist_ok [sl\<lparr>included := True\<rparr>]" using d by (auto simp: slist_ok_def)
  have "sl_matches ls (sl\<lparr>included := True\<rparr>) = sl_matches ls sl" by (simp add: sl_matches_def dom_labels_def)
  with slist_selects_spec [OF assms(1,2) ok] m have "(lrem = 0 \<and> (\<not> exact sl \<or> nrem = 0)) = sl_matches ls sl"
    by (auto simp: selected_def split: if_splits)
  with Cons m show ?case by (simp add: slist_ok_def)
qed simp

lemma use_server_ok:
  assumes "name_at name 0 ls" "wf_name ls" "slist_ok (sp_alist s)"
  shows "use_server s name = Some (allowed s ls)"
  using use_server_loop_spec [OF assms] rhnsegcnt_name [OF assms(1)]
  by (cases "find (sl_matches ls) (sp_alist s)"; cases "sp_policy s") (auto simp: use_server_def allowed_def)

subsection \<open>The choice\<close>

definition rejects_for :: "servparm_t \<Rightarrow> rejectlist_t option" where
  "rejects_for sp = (if serv_has_rejectlist sp then Some (rejectlist_of sp) else None)"

text \<open>An entry of the array: for a configured address, or for a server of a zone above the name, in place of a root server.\<close>

definition may_ask :: "res_conf \<Rightarrow> servparm_t list \<Rightarrow> byte list list \<Rightarrow> query_stat_t \<Rightarrow> bool" where
  "may_ask g sps ls qs \<longleftrightarrow> (\<exists>sp\<in>set sps. sp_rootserver sp \<le> 1 \<and> allowed sp ls \<and> (\<exists>at\<in>set (sp_atup_a sp). is_up at \<and>
     (qs = conf_qserv g sp (rejects_for sp) at \<or>
      sp_rootserver sp = 1 \<and> (\<exists>zone rjl a. zone_above zone ls \<and> length a = 4 \<and> qs = zone_qserv g sp zone rjl a \<and>
        (rjl = None \<or> rjl = rejects_for sp) \<and> (sp_rejectrecursively sp \<longrightarrow> rjl = rejects_for sp)))))"

lemma may_ask_zone:
  assumes "sp \<in> set sps" "sp_rootserver sp = 1" "allowed sp ls" "at \<in> set (sp_atup_a sp)" "is_up at" "zone_above zone ls" "length a = 4"
    and "rjl = None \<or> rjl = rejects_for sp" "sp_rejectrecursively sp \<longrightarrow> rjl = rejects_for sp"
  shows "may_ask g sps ls (zone_qserv g sp zone rjl a)"
proof -
  have "\<exists>zone' rjl' a'. zone_above zone' ls \<and> length a' = 4 \<and> zone_qserv g sp zone rjl a = zone_qserv g sp zone' rjl' a' \<and>
      (rjl' = None \<or> rjl' = rejects_for sp) \<and> (sp_rejectrecursively sp \<longrightarrow> rjl' = rejects_for sp)"
    by (rule exI [of _ zone], rule exI [of _ rjl], rule exI [of _ a]) (use assms in simp)
  with assms(1-5) show ?thesis unfolding may_ask_def by (intro bexI [of _ sp] conjI bexI [of _ at] disjI2) simp_all
qed

lemma may_ask_conf:
  assumes "sp \<in> set sps" "sp_rootserver sp \<le> 1" "allowed sp ls" "at \<in> set (sp_atup_a sp)" "is_up at"
  shows "may_ask g sps ls (conf_qserv g sp (rejects_for sp) at)"
  unfolding may_ask_def using assms by blast

definition sel_ok :: "res_conf \<Rightarrow> servparm_t list \<Rightarrow> byte list list \<Rightarrow> 'w selection \<Rightarrow> bool" where
  "sel_ok g sps ls s \<longleftrightarrow> cache_good (sel_cache s) \<and> wd_servers (sel_world s) = sps \<and> (\<forall>qs\<in>set (sel_serv s). may_ask g sps ls qs) \<and>
     (sel_one_up s \<longrightarrow> sel_serv s \<noteq> [])"

definition rjl_ok :: "servparm_t \<Rightarrow> 'w selection \<Rightarrow> bool" where
  "rjl_ok sp s \<longleftrightarrow> sel_rjl s = None \<or> sel_rjl s = rejects_for sp"

lemma sel_add_ok:
  "sel_add qs s = (ok, s') \<Longrightarrow> sel_ok g sps ls s \<Longrightarrow> may_ask g sps ls qs \<Longrightarrow> sel_ok g sps ls s' \<and> sel_rjl s' = sel_rjl s"
  by (auto simp: sel_add_def add_qserv_def malloc_def sel_ok_def)

lemma sel_add_all_ok:
  "sel_add_all q s = (ok, s') \<Longrightarrow> sel_ok g sps ls s \<Longrightarrow> \<forall>qs\<in>set q. may_ask g sps ls qs \<Longrightarrow> sel_ok g sps ls s' \<and> sel_rjl s' = sel_rjl s"
proof (induction q arbitrary: s)
  case (Cons qs q)
  obtain ok1 s1 where 1: "sel_add qs s = (ok1, s1)" by fastforce
  with sel_add_ok [OF 1 Cons.prems(2)] Cons show ?case by (cases ok1) auto
qed simp

lemma sel_rejects_ok:
  assumes "sel_rejects needed sp s = (ok, s')" "sel_ok g sps ls s" "rjl_ok sp s" "needed \<longrightarrow> serv_has_rejectlist sp"
  shows "sel_ok g sps ls s' \<and> rjl_ok sp s' \<and> (ok \<and> needed \<longrightarrow> sel_rjl s' = rejects_for sp)"
proof (cases "needed \<and> sel_rjl s = None")
  case True
  with assms show ?thesis
    by (cases "mem (sel_cache s) 0")
      (auto simp: sel_rejects_def add_rejectlist_def malloc_def sel_ok_def rjl_ok_def rejects_for_def)
next
  case False
  with assms show ?thesis by (auto simp: sel_rejects_def rjl_ok_def)
qed

lemma start_at_servers: "start_at r m w = (k, w') \<Longrightarrow> wd_servers w' = wd_servers w"
  by (auto simp: start_at_def wd_random_def split: if_splits)

lemma zone_servers_ok:
  assumes "zone_servers g sp zone adrs s = (p, s')" "sel_ok g sps ls s" "rjl_ok sp s" "sp \<in> set sps" "sp_rootserver sp = 1" "allowed sp ls"
    and "at \<in> set (sp_atup_a sp)" "is_up at" "zone_above zone ls" "\<forall>a\<in>set adrs. length a = 4"
  shows "sel_ok g sps ls s' \<and> rjl_ok sp s' \<and> p \<noteq> PassNext"
proof -
  obtain k w where k: "start_at (sp_rand_servers sp) (length adrs) (sel_world s) = (k, w)" by fastforce
  let ?need = "serv_has_rejectlist sp \<and> sp_rejectrecursively sp"
  obtain ok1 s1 where 1: "sel_rejects ?need sp (s\<lparr>sel_world := w\<rparr>) = (ok1, s1)" by fastforce
  have "sel_ok g sps ls (s\<lparr>sel_world := w\<rparr>)" "rjl_ok sp (s\<lparr>sel_world := w\<rparr>)"
    using assms(2,3) start_at_servers [OF k] by (simp_all add: sel_ok_def rjl_ok_def)
  from sel_rejects_ok [OF 1 this] have s1: "sel_ok g sps ls s1" "rjl_ok sp s1" "ok1 \<and> ?need \<longrightarrow> sel_rjl s1 = rejects_for sp" by auto
  obtain ok2 s2 where 2: "sel_add_all (map (zone_qserv g sp zone (sel_rjl s1)) (rotate k adrs)) s1 = (ok2, s2)" by fastforce
  show ?thesis
  proof (cases ok1)
    case True
    have rjl: "sel_rjl s1 = None \<or> sel_rjl s1 = rejects_for sp" "sp_rejectrecursively sp \<longrightarrow> sel_rjl s1 = rejects_for sp"
      using s1(2,3) True by (auto simp: rjl_ok_def rejects_for_def)
    have "may_ask g sps ls (zone_qserv g sp zone (sel_rjl s1) a)" if "a \<in> set adrs" for a
      using assms(10) that by (intro may_ask_zone [OF assms(4-9)] rjl) auto
    with sel_add_all_ok [OF 2 s1(1)] have "sel_ok g sps ls s2" "sel_rjl s2 = sel_rjl s1" by auto
    with s1(2) assms(1) k 1 2 True show ?thesis by (auto simp: zone_servers_def sel_ok_def rjl_ok_def split: if_splits)
  next
    case False
    with assms(1) k 1 s1 show ?thesis by (auto simp: zone_servers_def)
  qed
qed

lemma root_step_ok:
  assumes "sel_ok g sps ls s" "rjl_ok sp s" "sp \<in> set sps" "sp_rootserver sp \<le> 1" "allowed sp ls"
    and "at \<in> set (sp_atup_a sp)" "is_up at" "name_at name 0 ls" "wf_name ls"
  shows "\<exists>p s'. root_step g name sp s = Some (p, s') \<and> sel_ok g sps ls s' \<and> rjl_ok sp s'"
proof (cases "sp_rootserver sp = 0 \<or> sel_seen s \<noteq> 0")
  case True
  with assms(1,2) show ?thesis by (auto simp: root_step_def)
next
  case False
  from top_segments_ok [OF assms(8,9)] obtain m where m: "top_segments name = Some (length ls, m)" "m = 0 \<or> m < length ls" by blast
  from assms(1) have good: "cache_good (sel_cache s)" by (simp add: sel_ok_def)
  from lookup_top_ok [OF good assms(8,9) m(2), of "sel_world s"] obtain r w' st' where
    l: "lookup_top name (length ls) m (sel_world s) (sel_cache s) = Some (r, w', st')" "cache_good st'" "wd_servers w' = wd_servers (sel_world s)"
      "\<forall>zone adrs. r = Some (zone, adrs) \<longrightarrow> zone_above zone ls \<and> adrs \<noteq> [] \<and> (\<forall>a\<in>set adrs. length a = 4)" by blast
  let ?s = "s\<lparr>sel_seen := 1, sel_world := w', sel_cache := st'\<rparr>"
  have s: "sel_ok g sps ls ?s" "rjl_ok sp ?s" using assms(1,2) l(2,3) by (simp_all add: sel_ok_def rjl_ok_def)
  show ?thesis
  proof (cases r)
    case None
    with s False m(1) l(1) show ?thesis by (auto simp: root_step_def)
  next
    case (Some za)
    obtain p s' where z: "zone_servers g sp (fst za) (snd za) ?s = (p, s')" by fastforce
    have "sp_rootserver sp = 1" using False assms(4) by auto
    from zone_servers_ok [OF z s assms(3) this assms(5-7)] l(4) Some have "sel_ok g sps ls s' \<and> rjl_ok sp s'" by (cases za) auto
    with False m(1) l(1) Some z show ?thesis by (cases za) (auto simp: root_step_def)
  qed
qed

lemma addr_step_ok:
  assumes "sel_ok g sps ls s" "rjl_ok sp s" "sp \<in> set sps" "sp_rootserver sp \<le> 1" "allowed sp ls"
    and "at \<in> set (sp_atup_a sp)" "name_at name 0 ls" "wf_name ls"
  shows "\<exists>p s'. addr_step g name sp at s = Some (p, s') \<and> sel_ok g sps ls s' \<and> rjl_ok sp s'"
proof (cases "is_up at")
  case False
  with assms(1,2) show ?thesis by (simp add: addr_step_def)
next
  case True
  from root_step_ok [OF assms(1-6) True assms(7,8)] obtain p s1 where
    1: "root_step g name sp s = Some (p, s1)" "sel_ok g sps ls s1" "rjl_ok sp s1" by blast
  obtain ok2 s2 where 2: "sel_rejects (serv_has_rejectlist sp) sp s1 = (ok2, s2)" by fastforce
  from sel_rejects_ok [OF 2 1(2,3)] have s2: "sel_ok g sps ls s2" "rjl_ok sp s2" "ok2 \<and> serv_has_rejectlist sp \<longrightarrow> sel_rjl s2 = rejects_for sp" by auto
  obtain ok3 s3 where 3: "sel_add (conf_qserv g sp (sel_rjl s2) at) s2 = (ok3, s3)" by fastforce
  show ?thesis
  proof (cases "p = PassNext \<and> ok2")
    case both: True
    have "sel_rjl s2 = rejects_for sp" using s2(2,3) both by (auto simp: rjl_ok_def rejects_for_def)
    then have "may_ask g sps ls (conf_qserv g sp (sel_rjl s2) at)" using may_ask_conf [OF assms(3-6) True] by simp
    from sel_add_ok [OF 3 s2(1) this] s2(2) have "sel_ok g sps ls s3" "rjl_ok sp s3" by (simp_all add: rjl_ok_def)
    with True 1(1) 2 3 both show ?thesis by (simp add: addr_step_def)
  next
    case False
    with True 1 2 s2 show ?thesis by (auto simp: addr_step_def)
  qed
qed

lemma addr_loop_ok:
  assumes "sel_ok g sps ls s" "rjl_ok sp s" "sp \<in> set sps" "sp_rootserver sp \<le> 1" "allowed sp ls"
    and "set ats \<subseteq> set (sp_atup_a sp)" "name_at name 0 ls" "wf_name ls"
  shows "\<exists>stop s'. addr_loop g name sp ats s = Some (stop, s') \<and> sel_ok g sps ls s'"
  using assms(1,2,6)
proof (induction ats arbitrary: s)
  case (Cons at ats)
  from addr_step_ok [OF Cons.prems(1,2) assms(3-5) _ assms(7,8), of at] Cons.prems(3) obtain p s1 where
    1: "addr_step g name sp at s = Some (p, s1)" "sel_ok g sps ls s1" "rjl_ok sp s1" by auto
  with Cons.IH [OF 1(2,3)] Cons.prems(3) show ?case by (cases p) auto
qed auto

lemma server_loop_ok:
  assumes "sel_ok g sps ls s" "set sps' \<subseteq> set sps" "\<forall>sp\<in>set sps. slist_ok (sp_alist sp)" "name_at name 0 ls" "wf_name ls"
  shows "\<exists>s'. server_loop g name sps' s = Some s' \<and> sel_ok g sps ls s'"
  using assms(1,2)
proof (induction sps' arbitrary: s)
  case (Cons sp sps')
  from Cons.prems(2) have sp: "sp \<in> set sps" "set sps' \<subseteq> set sps" by auto
  from use_server_ok [OF assms(4,5)] assms(3) sp(1) have u: "use_server sp name = Some (allowed sp ls)" by blast
  show ?case
  proof (cases "sp_rootserver sp \<le> 1 \<and> allowed sp ls \<and> sp_atup_a sp \<noteq> []")
    case True
    obtain j w where j: "start_at (sp_rand_servers sp) (length (sp_atup_a sp)) (sel_world s) = (j, w)" by fastforce
    let ?s = "s\<lparr>sel_world := w, sel_rjl := None\<rparr>"
    have s: "sel_ok g sps ls ?s" "rjl_ok sp ?s" using Cons.prems(1) start_at_servers [OF j] by (simp_all add: sel_ok_def rjl_ok_def)
    have sub: "set (rotate j (sp_atup_a sp)) \<subseteq> set (sp_atup_a sp)" by simp
    from addr_loop_ok [OF s sp(1) _ _ sub assms(4,5)] True obtain stop s1 where
      1: "addr_loop g name sp (rotate j (sp_atup_a sp)) ?s = Some (stop, s1)" "sel_ok g sps ls s1" by blast
    with Cons.IH [OF 1(2) sp(2)] True u j show ?thesis by (cases stop) auto
  next
    case False
    then have "server_loop g name (sp # sps') s = server_loop g name sps' s" using u by (cases "sp_rootserver sp \<le> 1") auto
    with Cons.IH [OF Cons.prems(1) sp(2)] show ?thesis by simp
  qed
qed simp

lemma select_servers_safe:
  assumes "cache_good st" "\<forall>sp\<in>set (wd_servers w). slist_ok (sp_alist sp)" "name_at name 0 ls" "wf_name ls"
  shows "\<exists>up q w' st'. select_servers g name w st = Some (up, q, w', st') \<and> cache_good st' \<and> wd_servers w' = wd_servers w \<and>
    (up \<longrightarrow> q \<noteq> []) \<and> (\<forall>qs\<in>set q. may_ask g (wd_servers w) ls qs)"
proof -
  let ?s = "\<lparr>sel_serv = [], sel_one_up = False, sel_reject = [], sel_seen = 0, sel_rjl = None, sel_world = w, sel_cache = st\<rparr>"
  have "sel_ok g (wd_servers w) ls ?s" using assms(1) by (simp add: sel_ok_def)
  from server_loop_ok [OF this order_refl assms(2-4)] show ?thesis by (auto simp: select_servers_def sel_ok_def)
qed

subsection \<open>Without root servers\<close>

text \<open>The entries for the addresses of a server that are up, and for those of all servers that may be asked.\<close>

definition up_servers :: "res_conf \<Rightarrow> servparm_t \<Rightarrow> atup_t list \<Rightarrow> query_stat_t list" where
  "up_servers g sp ats = map (conf_qserv g sp (rejects_for sp)) (filter is_up ats)"

definition all_servers :: "res_conf \<Rightarrow> byte list list \<Rightarrow> servparm_t list \<Rightarrow> query_stat_t list" where
  "all_servers g ls sps = concat (map (\<lambda>sp. up_servers g sp (sp_atup_a sp)) (filter (\<lambda>sp. allowed sp ls) sps))"

definition sel_more :: "query_stat_t list \<Rightarrow> 'w selection \<Rightarrow> 'w selection \<Rightarrow> bool" where
  "sel_more q s s' \<longleftrightarrow> sel_serv s' = sel_serv s @ q \<and> sel_one_up s' = (sel_one_up s \<or> q \<noteq> []) \<and> sel_world s' = sel_world s \<and>
     (\<exists>m. sel_cache s' = (sel_cache s)\<lparr>mem := m\<rparr> \<and> (\<forall>k. m k))"

lemma sel_more_trans: "sel_more p r s \<Longrightarrow> sel_more q s t \<Longrightarrow> sel_more (p @ q) r t"
  by (auto simp: sel_more_def)

lemma sel_more_refl: "\<forall>k. mem (sel_cache s) k \<Longrightarrow> sel_more [] s s"
  by (auto simp: sel_more_def intro!: exI [of _ "mem (sel_cache s)"])

lemma addr_step_plain:
  assumes "\<forall>k. mem (sel_cache s) k" "sp_rootserver sp = 0" "rjl_ok sp s"
  shows "\<exists>s'. addr_step g name sp at s = Some (PassNext, s') \<and> rjl_ok sp s' \<and> sel_more (up_servers g sp [at]) s s'"
proof (cases "is_up at")
  case True
  show ?thesis
  proof (cases "serv_has_rejectlist sp \<and> sel_rjl s = None")
    case need: True
    with True assms show ?thesis
      by (auto simp: addr_step_def root_step_def sel_rejects_def add_rejectlist_def malloc_def sel_add_def add_qserv_def rjl_ok_def
          sel_more_def up_servers_def rejects_for_def)
  next
    case False
    with assms(3) have "sel_rjl s = rejects_for sp" by (auto simp: rjl_ok_def rejects_for_def)
    moreover have "sel_rejects (serv_has_rejectlist sp) sp s = (True, s)" using False by (auto simp: sel_rejects_def)
    ultimately show ?thesis using True assms
      by (auto simp: addr_step_def root_step_def malloc_def sel_add_def add_qserv_def rjl_ok_def sel_more_def up_servers_def)
  qed
next
  case False
  with assms sel_more_refl show ?thesis by (auto simp: addr_step_def up_servers_def)
qed

lemma sel_more_full: "sel_more q s s' \<Longrightarrow> \<forall>k. mem (sel_cache s') k"
  by (auto simp: sel_more_def)

lemma addr_loop_plain:
  assumes "\<forall>k. mem (sel_cache s) k" "sp_rootserver sp = 0" "rjl_ok sp s"
  shows "\<exists>s'. addr_loop g name sp ats s = Some (False, s') \<and> sel_more (up_servers g sp ats) s s'"
  using assms(1,3)
proof (induction ats arbitrary: s)
  case Nil
  with sel_more_refl show ?case by (simp add: up_servers_def)
next
  case (Cons at ats)
  from addr_step_plain [OF Cons.prems(1) assms(2) Cons.prems(2)] obtain s1 where
    1: "addr_step g name sp at s = Some (PassNext, s1)" "rjl_ok sp s1" "sel_more (up_servers g sp [at]) s s1" by blast
  from Cons.IH [OF sel_more_full [OF 1(3)] 1(2)] obtain s2 where
    2: "addr_loop g name sp ats s1 = Some (False, s2)" "sel_more (up_servers g sp ats) s1 s2" by blast
  from sel_more_trans [OF 1(3) 2(2)] 1(1) 2(1) show ?case by (auto simp: up_servers_def)
qed

lemma server_loop_plain:
  assumes "\<forall>k. mem (sel_cache s) k" "\<forall>sp\<in>set sps. slist_ok (sp_alist sp) \<and> sp_rootserver sp = 0 \<and> \<not> sp_rand_servers sp" "name_at name 0 ls" "wf_name ls"
  shows "\<exists>s'. server_loop g name sps s = Some s' \<and> sel_more (all_servers g ls sps) s s'"
  using assms(1,2)
proof (induction sps arbitrary: s)
  case Nil
  with sel_more_refl show ?case by (simp add: all_servers_def)
next
  case (Cons sp sps)
  from use_server_ok [OF assms(3,4)] Cons.prems(2) have u: "use_server sp name = Some (allowed sp ls)" by auto
  show ?case
  proof (cases "allowed sp ls \<and> sp_atup_a sp \<noteq> []")
    case True
    let ?s = "s\<lparr>sel_rjl := None\<rparr>"
    have "\<forall>k. mem (sel_cache ?s) k" "sp_rootserver sp = 0" "rjl_ok sp ?s" using Cons.prems by (simp_all add: rjl_ok_def)
    from addr_loop_plain [OF this, of g name "sp_atup_a sp"] obtain s1 where
      1: "addr_loop g name sp (sp_atup_a sp) ?s = Some (False, s1)" "sel_more (up_servers g sp (sp_atup_a sp)) ?s s1" by blast
    from Cons.IH [OF sel_more_full [OF 1(2)]] Cons.prems(2) obtain s2 where
      2: "server_loop g name sps s1 = Some s2" "sel_more (all_servers g ls sps) s1 s2" by auto
    have run: "server_loop g name (sp # sps) s = Some s2" using True u Cons.prems(2) 1(1) 2(1) by (simp add: start_at_def)
    from sel_more_trans [OF 1(2) 2(2)] True have "sel_more (all_servers g ls (sp # sps)) s s2" by (simp add: all_servers_def sel_more_def)
    with run show ?thesis by blast
  next
    case False
    with u Cons.prems(2) have "server_loop g name (sp # sps) s = server_loop g name sps s" by auto
    moreover have "all_servers g ls (sp # sps) = all_servers g ls sps" using False by (auto simp: all_servers_def up_servers_def)
    ultimately show ?thesis using Cons.IH [OF Cons.prems(1)] Cons.prems(2) by simp
  qed
qed

lemma select_servers_all:
  assumes "\<forall>k. mem st k" "\<forall>sp\<in>set (wd_servers w). slist_ok (sp_alist sp) \<and> sp_rootserver sp = 0 \<and> \<not> sp_rand_servers sp"
    and "name_at name 0 ls" "wf_name ls"
  shows "\<exists>m. select_servers g name w st = Some (all_servers g ls (wd_servers w) \<noteq> [], all_servers g ls (wd_servers w), w, st\<lparr>mem := m\<rparr>) \<and> (\<forall>k. m k)"
  using server_loop_plain [where s = "\<lparr>sel_serv = [], sel_one_up = False, sel_reject = [], sel_seen = 0, sel_rjl = None, sel_world = w, sel_cache = st\<rparr>",
      OF _ assms(2-4), of g] assms(1)
  by (auto simp: select_servers_def sel_more_def)

end
