(* ===== verification/Resolve_Ok.thy ===== *)
theory Resolve_Ok
  imports Resolve Servers_Ok
begin

text \<open>
  The resolver keeps what the messages need: whatever the servers answer, it returns, the cache stays good, and success
  comes with a good entry.  So the resolver is an instance of the interface of \<^verbatim>\<open>dns_answer.c\<close>, once the exchange
  with the servers keeps its own contract.
\<close>

subsection \<open>Adding to a good cache\<close>

lemma cent_data_type: "cent_data_ok c \<longleftrightarrow> cent_data (\<lambda>i d. \<forall>tp. \<not> PDNSD_NOT_CACHED_TYPE tp \<longrightarrow> idx_of tp = i \<longrightarrow> data_ok tp d) c"
proof
  assume c: "cent_data_ok c"
  show "cent_data (\<lambda>i d. \<forall>tp. \<not> PDNSD_NOT_CACHED_TYPE tp \<longrightarrow> idx_of tp = i \<longrightarrow> data_ok tp d) c"
    unfolding cent_data_def using c by (auto simp: cent_data_ok_def getrrset_idx)
next
  assume c: "cent_data (\<lambda>i d. \<forall>tp. \<not> PDNSD_NOT_CACHED_TYPE tp \<longrightarrow> idx_of tp = i \<longrightarrow> data_ok tp d) c"
  show "cent_data_ok c" unfolding cent_data_ok_def
  proof (intro allI impI)
    fix tp s d assume s: "getrrset c tp = Some s" "d \<in> set (rs_rrs s)"
    then have "\<not> PDNSD_NOT_CACHED_TYPE tp" using getrrset_uncached by fastforce
    with s c idx_of_less [OF this] show "data_ok tp d" by (auto simp: cent_data_def getrrset_idx)
  qed
qed

lemma add_cache_good:
  assumes "cache_good st" "cent_good c"
  shows "\<exists>st'. add_cache g now c st = Some st' \<and> cache_good st'"
proof -
  from assms have ok: "ok_but {} st" "insert_sort st" "cent_ok c" by (simp_all add: cache_good_def cache_ok_def cent_good_def)
  then have "roomy st" by (simp add: roomy_def)
  from add_cache_spec [OF ok(1,3) this, of g now] ok(2) obtain st' where
    a: "add_cache g now c st = Some st'" "ok_but {} st'" "insert_sort st'" by blast
  have "\<forall>p c. heap st' p = Some c \<longrightarrow> cent_data_ok c"
    using add_cache_data [OF a(1) ok(3)] assms unfolding heap_data_def cache_good_def cent_good_def cent_data_type by blast
  with a show ?thesis by (auto simp: cache_good_def cache_ok_def)
qed

lemma lookup_cache_good_wild:
  assumes "cache_good st" "name_at name 0 ls" "wf_name ls"
  obtains res k st' where "lookup_cache now name wild st = Some (res, k, st')" "cache_good st'" "\<And>c. res = Some c \<Longrightarrow> cent_good c"
  using lookup_cache_good [OF assms, of now wild] that by blast

lemma local_soa_ok:
  assumes "cache_good st" "cent_good c"
  shows "\<exists>soa'. local_soa c soa st = Some soa'"
proof -
  from cent_qname [OF assms(2)] obtain ls where ls: "wf_name ls" "name_at (ce_qname c) 0 ls" by blast
  from assms(1) have "cache_ok st" by (simp add: cache_good_def)
  from getlocalowner_spec [OF this ls(2,1), of T_SOA] obtain r where
    r: "getlocalowner (ce_qname c) T_SOA st = Some r" "\<And>k. r = Some k \<Longrightarrow> \<exists>ls'. name_at (ce_qname c) k ls'"
    by (auto split: option.splits)
  show ?thesis
  proof (cases r)
    case None
    with r rhnsegcnt_name [OF ls(2)] show ?thesis by (simp add: local_soa_def)
  next
    case (Some k)
    with r(2) obtain ls' where "name_at (ce_qname c) k ls'" by blast
    from rhnsegcnt_name [OF name_at_drop [OF this]] r(1) Some rhnsegcnt_name [OF ls(2)] show ?thesis by (simp add: local_soa_def)
  qed
qed

text \<open>The outcome of the look at the cache.\<close>

definition status_ok :: "nat \<Rightarrow> int \<Rightarrow> rc \<Rightarrow> dns_cent_t option \<Rightarrow> 16 word \<Rightarrow> bool" where
  "status_ok thint queryts rc cached fl \<longleftrightarrow> (case rc of
     RC_NOTCACHED \<Rightarrow> cached = None \<and> fl = 0
   | RC_NAMEERR \<Rightarrow> cached = None \<and> fl = 0
   | RC_OK \<Rightarrow> \<exists>c. cached = Some c \<and> cent_good c \<and> has (ce_flags c) DF_LOCAL \<and> \<not> negative c
   | RC_CACHED \<Rightarrow> \<exists>c. cached = Some c \<and> cent_good c \<and> needs_requery thint queryts c = (False, fl)
   | RC_STALE \<Rightarrow> \<exists>c. cached = Some c \<and> cent_good c \<and> needs_requery thint queryts c = (True, fl)
   | _ \<Rightarrow> False)"

lemma lookup_cache_status_ok:
  assumes "cache_good st" "name_at name 0 ls" "wf_name ls"
  shows "\<exists>rc cached fl soa' st'. lookup_cache_status name thint queryts soa w st = Some (rc, cached, fl, soa', snd (wd_now w), st') \<and>
    cache_good st' \<and> status_ok thint queryts rc cached fl"
proof -
  obtain res k st' where l: "lookup_cache (wd_time w 0) name True st = Some (res, k, st')" "cache_good st'" "\<And>c. res = Some c \<Longrightarrow> cent_good c"
    using lookup_cache_good_wild [OF assms] by blast
  show ?thesis
  proof (cases res)
    case None
    with l(1,2) show ?thesis by (simp add: lookup_cache_status_def wd_now_def status_ok_def)
  next
    case (Some c)
    note good = l(3) [OF Some]
    from local_soa_ok [OF l(2) good] obtain soa' where soa': "local_soa c soa st' = Some soa'" by blast
    obtain stale fl where n: "needs_requery thint queryts c = (stale, fl)" by fastforce
    consider "has (ce_flags c) DF_LOCAL" "negative c \<or> k = w_locnerr" | "has (ce_flags c) DF_LOCAL" "\<not> (negative c \<or> k = w_locnerr)"
      | "\<not> has (ce_flags c) DF_LOCAL" by blast
    then show ?thesis
    proof cases
      case 1
      with Some l(1) soa' have "lookup_cache_status name thint queryts soa w st = Some (RC_NAMEERR, None, 0, soa', snd (wd_now w), st')"
        by (simp add: lookup_cache_status_def wd_now_def)
      with l(2) show ?thesis by (auto simp: status_ok_def)
    next
      case 2
      with Some l(1) have "lookup_cache_status name thint queryts soa w st = Some (RC_OK, Some c, 0, soa, snd (wd_now w), st')"
        by (simp add: lookup_cache_status_def wd_now_def)
      with l(2) good 2 show ?thesis by (auto simp: status_ok_def)
    next
      case 3
      with Some l(1) n have "lookup_cache_status name thint queryts soa w st =
          Some (if stale then RC_STALE else RC_CACHED, Some c, fl, soa, snd (wd_now w), st')"
        by (simp add: lookup_cache_status_def wd_now_def)
      moreover have "status_ok thint queryts (if stale then RC_STALE else RC_CACHED) (Some c) fl"
        using good n by (simp add: status_ok_def)
      ultimately show ?thesis using l(2) by blast
    qed
  qed
qed

subsection \<open>The contract of the exchange with the servers\<close>

definition world_ok :: "'w world \<Rightarrow> bool" where
  "world_ok w \<longleftrightarrow> (\<forall>sp\<in>set (wd_servers w). slist_ok (sp_alist sp))"

lemma world_ok_now [simp]: "world_ok (snd (wd_now w)) = world_ok w"
  by (simp add: world_ok_def wd_now_def)

lemma world_ok_same: "wd_servers w' = wd_servers w \<Longrightarrow> world_ok w' = world_ok w"
  by (simp add: world_ok_def)

text \<open>The codes with which an entry comes.\<close>

definition finds :: "rc \<Rightarrow> bool" where
  "finds rc \<longleftrightarrow> rc = RC_OK \<or> rc = RC_CACHED \<or> rc = RC_STALE"

locale name_servers =
  fixes ask :: "'w asking" and test_onquery :: "'w world \<Rightarrow> 'w world"
  assumes asks: "serv \<noteq> [] \<Longrightarrow> name_at name 0 ls \<Longrightarrow> wf_name ls \<Longrightarrow> askable thint \<Longrightarrow> cache_good st \<Longrightarrow> world_ok w \<Longrightarrow>
      \<exists>rc c nocache soa' w' st'. ask serv name thint soa w st = Some (rc, c, nocache, soa', w', st') \<and> cache_good st' \<and> world_ok w' \<and>
        (finds rc \<longrightarrow> (\<exists>x. c = Some x \<and> cent_good x))"
    and tests: "world_ok w \<Longrightarrow> world_ok (test_onquery w)"
begin

lemma p_dns_resolve_ok:
  assumes "cache_good st" "world_ok w" "name_at name 0 ls" "wf_name ls" "askable thint"
  shows "\<exists>rc c soa' w' st'. p_dns_resolve ask g name thint soa w st = Some (rc, c, soa', w', st') \<and> cache_good st' \<and> world_ok w' \<and>
    (finds rc \<longrightarrow> (\<exists>x. c = Some x \<and> cent_good x))"
proof -
  from select_servers_safe [OF assms(1) _ assms(3,4), of w g] assms(2) obtain up q w1 st1 where
    1: "select_servers g name w st = Some (up, q, w1, st1)" "cache_good st1" "wd_servers w1 = wd_servers w" "up \<longrightarrow> q \<noteq> []"
    unfolding world_ok_def by blast
  from assms(2) world_ok_same [OF 1(3)] have w1: "world_ok w1" by simp
  show ?thesis
  proof (cases up)
    case False
    with 1 w1 show ?thesis by (simp add: p_dns_resolve_def finds_def)
  next
    case True
    with 1(4) have "q \<noteq> []" by simp
    from asks [OF this assms(3-5) 1(2) w1, of soa] obtain rc c nocache soa' w2 st2 where
      2: "ask q name thint soa w1 st1 = Some (rc, c, nocache, soa', w2, st2)" "cache_good st2" "world_ok w2"
        "finds rc \<longrightarrow> (\<exists>x. c = Some x \<and> cent_good x)" by blast
    show ?thesis
    proof (cases "rc = RC_OK \<and> \<not> nocache")
      case ok: True
      then obtain x where x: "c = Some x" "cent_good x" using 2(4) by (auto simp: finds_def)
      from add_cache_good [OF 2(2) x(2), of "rc_cache g" "wd_time w2 0"] obtain st3 where
        3: "add_cache (rc_cache g) (wd_time w2 0) x st2 = Some st3" "cache_good st3" by blast
      from lookup_now_ok [OF 3(2) assms(3,4), of "snd (wd_now w2)"] obtain tc w4 st4 where
        4: "lookup_now name (snd (wd_now w2)) st3 = Some (tc, w4, st4)" "cache_good st4" "wd_servers w4 = wd_servers (snd (wd_now w2))"
          "\<forall>y. tc = Some y \<longrightarrow> cent_good y" by blast
      let ?c = "case tc of None \<Rightarrow> x | Some y \<Rightarrow> y"
      have "p_dns_resolve ask g name thint soa w st = Some (RC_OK, Some ?c, soa', w4, st4)"
        using 1(1) True 2(1) ok x(1) 3(1) 4(1) by (simp add: p_dns_resolve_def keep_answer_def wd_now_def)
      moreover have "cent_good ?c" using x(2) 4(4) by (simp split: option.split)
      moreover have "world_ok w4" using world_ok_same [OF 4(3)] 2(3) by simp
      ultimately show ?thesis using 4(2) by blast
    next
      case False
      let ?c = "if finds rc then c else None"
      have "p_dns_resolve ask g name thint soa w st = Some (rc, ?c, soa', w2, st2)"
        using 1(1) True 2(1,4) False by (auto simp: p_dns_resolve_def finds_def)
      with 2(2-4) show ?thesis by auto
    qed
  qed
qed

lemma p_dns_cached_resolve_ok:
  assumes "cache_good st" "world_ok w" "name_at name 0 ls" "wf_name ls" "askable thint"
  shows "\<exists>rc c soa' w' st'. p_dns_cached_resolve ask test_onquery g name thint queryts soa w st = Some (rc, c, soa', w', st') \<and>
    cache_good st' \<and> world_ok w' \<and> (finds rc \<longrightarrow> (\<exists>x. c = Some x \<and> cent_good x))"
proof -
  from lookup_cache_status_ok [OF assms(1,3,4), of thint queryts soa w] obtain rc c fl soa1 st1 where
    1: "lookup_cache_status name thint queryts soa w st = Some (rc, c, fl, soa1, snd (wd_now w), st1)" "cache_good st1"
      "status_ok thint queryts rc c fl" by blast
  let ?w = "if rc_onquery g then test_onquery (snd (wd_now w)) else snd (wd_now w)"
  let ?run = "p_dns_cached_resolve ask test_onquery g name thint queryts soa w st"
  have w: "world_ok ?w" "world_ok (snd (wd_now w))" using assms(2) tests by simp_all
  consider (local) "rc = RC_OK \<or> rc = RC_NAMEERR"
    | (down) "rc \<noteq> RC_OK" "rc \<noteq> RC_NAMEERR" "rc_lndown_kluge g \<and> \<not> has fl CF_LOCAL \<and> link_down ?w"
    | (cached) "rc = RC_CACHED" "\<not> (rc_lndown_kluge g \<and> \<not> has fl CF_LOCAL \<and> link_down ?w)"
    | (ask) "rc \<noteq> RC_OK" "rc \<noteq> RC_NAMEERR" "rc \<noteq> RC_CACHED" "\<not> (rc_lndown_kluge g \<and> \<not> has fl CF_LOCAL \<and> link_down ?w)" by blast
  then show ?thesis
  proof cases
    case local
    then have "?run = Some (if rc = RC_OK then RC_CACHED else RC_NAMEERR, if rc = RC_OK then c else None, soa1, snd (wd_now w), st1)"
      using 1(1) by (auto simp: p_dns_cached_resolve_def)
    with 1 w local show ?thesis by (auto simp: finds_def status_ok_def)
  next
    case down
    then have "?run = Some (RC_SERVFAIL, None, soa1, ?w, st1)" using 1(1) by (simp add: p_dns_cached_resolve_def Let_def)
    moreover have "\<not> finds RC_SERVFAIL" by (simp add: finds_def)
    ultimately show ?thesis using 1(2) w(1) by blast
  next
    case cached
    then have "?run = Some (RC_CACHED, c, soa1, ?w, st1)" using 1(1) by (simp add: p_dns_cached_resolve_def Let_def)
    moreover have "\<exists>x. c = Some x \<and> cent_good x" using cached(1) 1(3) by (auto simp: status_ok_def)
    ultimately show ?thesis using 1(2) w(1) by blast
  next
    case ask
    from p_dns_resolve_ok [OF 1(2) w(1) assms(3-5), of g soa1] obtain rc2 c2 soa2 w2 st2 where
      2: "p_dns_resolve ask g name thint soa1 ?w st1 = Some (rc2, c2, soa2, w2, st2)" "cache_good st2" "world_ok w2"
        "finds rc2 \<longrightarrow> (\<exists>x. c2 = Some x \<and> cent_good x)" by blast
    let ?old = "rc2 = RC_SERVFAIL \<and> c \<noteq> None \<and> has fl CF_NOPURGE"
    let ?rc = "if \<not> finds rc2 \<and> ?old then RC_STALE else rc2" and ?c = "if finds rc2 then c2 else if ?old then c else None"
    have "?run = Some (?rc, ?c, soa2, w2, st2)"
      unfolding p_dns_cached_resolve_def 1(1) Option.bind.simps prod.case Let_def if_not_P [OF ask(1)] if_not_P [OF ask(2)]
        if_not_P [OF ask(3)] if_not_P [OF ask(4)] 2(1) by (auto simp: finds_def)
    moreover have "finds ?rc \<longrightarrow> (\<exists>x. ?c = Some x \<and> cent_good x)"
      using 2(4) 1(3) by (cases rc) (auto simp: status_ok_def)
    ultimately show ?thesis using 2(2,3) by blast
  qed
qed

lemma r_dns_cached_resolve_ok:
  assumes "cache_good st" "world_ok w" "name_at name 0 ls" "wf_name ls" "askable thint"
  shows "\<exists>rc c soa' w' st'. r_dns_cached_resolve ask test_onquery g soa name thint queryts w st = Some (rc, c, soa', w', st') \<and>
    cache_good st' \<and> world_ok w' \<and> rc \<noteq> RC_CACHED \<and> rc \<noteq> RC_STALE \<and> (rc = RC_OK \<longrightarrow> (\<exists>x. c = Some x \<and> cent_good x \<and> \<not> negative x))"
proof -
  from p_dns_cached_resolve_ok [OF assms, of g queryts soa] obtain rc c soa1 w1 st1 where
    1: "p_dns_cached_resolve ask test_onquery g name thint queryts soa w st = Some (rc, c, soa1, w1, st1)" "cache_good st1" "world_ok w1"
      "finds rc \<longrightarrow> (\<exists>x. c = Some x \<and> cent_good x)" by blast
  show ?thesis
  proof (cases "finds rc")
    case True
    with 1(4) obtain x where x: "c = Some x" "cent_good x" by blast
    have "r_dns_cached_resolve ask test_onquery g soa name thint queryts w st =
        Some (if negative x then (RC_NAMEERR, None, c_soa x, w1, st1) else (RC_OK, Some x, soa1, w1, st1))"
      using 1(1) x(1) True by (auto simp: r_dns_cached_resolve_def finds_def)
    with 1(2,3) x(2) show ?thesis by (cases "negative x") auto
  next
    case False
    with 1 show ?thesis by (auto simp: r_dns_cached_resolve_def finds_def)
  qed
qed

end

sublocale name_servers \<subseteq> daemon: name_service "dns_cached_resolve ask test_onquery g" world_ok for g
proof
  fix nm :: "byte list" and xs qtype queryts st and net :: "'w world"
  assume a: "name_at nm 0 xs" "wf_name xs" "askable qtype" "cache_good st" "world_ok net"
  show "\<exists>rc c soa net' st'. dns_cached_resolve ask test_onquery g nm qtype queryts net st = Some (rc, c, soa, net', st') \<and> cache_good st' \<and>
      world_ok net' \<and> (rc = RC_OK \<longrightarrow> (\<exists>x. c = Some x \<and> cent_good x))"
    using r_dns_cached_resolve_ok [OF a(4,5,1-3), of g cundef queryts] unfolding dns_cached_resolve_def by blast
qed

end
