(* ===== verification/Daemon.thy ===== *)
theory Daemon
  imports Resolve_Ok
begin

text \<open>
  The properties of the daemon as a whole: which servers a question goes to, when it goes to none, and what a client
  gets for the bytes it sends.
\<close>

subsection \<open>The servers\<close>

text \<open>
  C16.  Every entry of the array that \<^verbatim>\<open>p_dns_resolve\<close> passes on belongs to a server of the configuration whose access
  list and policy allow the name and that has an address that is up: it is that address, or an address from the
  cache for a zone above the name in place of a root server.  The array is not empty when \<^verbatim>\<open>one_up\<close> is set.
\<close>

theorem select_servers_allowed:
  assumes "cache_good st" "world_ok w" "name_at name 0 ls" "wf_name ls"
  shows "\<exists>up q w' st'. select_servers g name w st = Some (up, q, w', st') \<and> cache_good st' \<and> world_ok w' \<and>
    (up \<longrightarrow> q \<noteq> []) \<and> list_all (may_ask g (wd_servers w) ls) q"
proof -
  from select_servers_safe [OF assms(1) _ assms(3,4), of w g] assms(2) obtain up q w' st' where
    s: "select_servers g name w st = Some (up, q, w', st')" "cache_good st'" "wd_servers w' = wd_servers w" "up \<longrightarrow> q \<noteq> []"
      "\<forall>qs\<in>set q. may_ask g (wd_servers w) ls qs" unfolding world_ok_def by blast
  with world_ok_same [OF s(3)] assms(2) show ?thesis by (auto simp: list_all_iff)
qed

definition example_server :: servparm_t where
  "example_server = \<lparr>sp_port = 53, sp_uptest = C_NONE, sp_timeout = 10, sp_interval = 0, sp_scheme = [], sp_purge_cache = True,
     sp_nocache = False, sp_lean_query = True, sp_edns_query = False, sp_is_proxy = False, sp_rootserver = 0, sp_rand_servers = False,
     sp_rejectrecursively = False, sp_rejectpolicy = C_FAIL, sp_policy = C_INCLUDED,
     sp_alist = [\<lparr>exact = False, included = False, domain = [5, 111, 110, 105, 111, 110, 0]\<rparr>],
     sp_atup_a = [\<lparr>is_up = False, at_a = [10, 0, 0, 1]\<rparr>, \<lparr>is_up = True, at_a = [10, 0, 0, 2]\<rparr>], sp_reject_a4 = None, sp_reject_a6 = None\<rparr>"

definition example_world :: "unit world" where
  "example_world = \<lparr>wd_servers = [example_server], wd_time = (\<lambda>_. 1000), wd_rand = (\<lambda>_. 0), wd_net = ()\<rparr>"

definition example_conf :: res_conf where
  "example_conf = \<lparr>rc_cache = \<lparr>min_ttl = 120, max_ttl = 604800, neg_ttl_conf = 900, perm_cache = 2048\<rparr>, rc_lndown_kluge = False,
     rc_onquery = False, rc_paranoid = False, rc_query_method = UDP_TCP\<rparr>"

lemma example_names:
  "name_at [1, 97, 0] 0 [[97]]" "wf_name [[97 :: byte]]"
  "name_at [5, 111, 110, 105, 111, 110, 0] 0 [[111, 110, 105, 111, 110]]" "wf_name [[111, 110, 105, 111, 110 :: byte]]"
  by (simp_all add: rd_def lab_ok_def wf_name_def lab63_def DNSNAMEBUFSIZE_def)

lemma example_slist: "slist_ok (sp_alist example_server)"
proof -
  have "sp_alist example_server = [\<lparr>exact = False, included = False, domain = [5, 111, 110, 105, 111, 110, 0]\<rparr>]" by (simp add: example_server_def)
  moreover have "slist_ok [sl]" if "domain sl = [5, 111, 110, 105, 111, 110, 0]" for sl
    using example_names(3,4) that unfolding slist_ok_def by (auto simp del: name_at.simps)
  ultimately show ?thesis by simp
qed

lemma example_world_ok: "world_ok example_world"
  using example_slist by (simp add: world_ok_def example_world_def)

lemma init_cache_good: "cache_good (init_cache m)"
  using cache_ok_init [of m] by (simp add: cache_good_def cache_ok_def) (simp add: init_cache_def)

theorem select_servers_allowed_witness:
  "\<exists>up q w' st'. select_servers example_conf [1, 97, 0] example_world (init_cache (\<lambda>_. True)) = Some (up, q, w', st') \<and> cache_good st' \<and>
    world_ok w' \<and> (up \<longrightarrow> q \<noteq> []) \<and> list_all (may_ask example_conf (wd_servers example_world) [[97]]) q"
  by (rule select_servers_allowed [OF init_cache_good example_world_ok example_names(1,2)])

text \<open>
  C15.  Without root servers and random order, the array has the addresses that are up of all servers that may be asked
  for the name, in the order of the configuration, provided there is memory; \<^verbatim>\<open>one_up\<close> says that there is one.
\<close>

theorem select_servers_exact:
  assumes "\<forall>k. mem st k" "list_all (\<lambda>sp. slist_ok (sp_alist sp) \<and> sp_rootserver sp = 0 \<and> \<not> sp_rand_servers sp) (wd_servers w)"
    and "name_at name 0 ls" "wf_name ls"
  shows "\<exists>m. select_servers g name w st =
      Some (list_ex (\<lambda>sp. allowed sp ls \<and> list_ex is_up (sp_atup_a sp)) (wd_servers w), all_servers g ls (wd_servers w), w, st\<lparr>mem := m\<rparr>) \<and> (\<forall>k. m k)"
proof -
  have "(all_servers g ls sps \<noteq> []) = list_ex (\<lambda>sp. allowed sp ls \<and> list_ex is_up (sp_atup_a sp)) sps" for sps
    by (auto simp: all_servers_def up_servers_def list_ex_iff filter_empty_conv)
  with select_servers_all [OF assms(1) _ assms(3,4), of w g] assms(2) show ?thesis by (simp add: list_all_iff)
qed

theorem select_servers_exact_witness:
  "\<exists>m. select_servers example_conf [1, 97, 0] example_world (init_cache (\<lambda>_. True)) =
    Some (True, [conf_qserv example_conf example_server None \<lparr>is_up = True, at_a = [10, 0, 0, 2]\<rparr>], example_world, (init_cache (\<lambda>_. True))\<lparr>mem := m\<rparr>)"
proof -
  have a: "allowed example_server [[97]]"
    by (simp add: allowed_def sl_matches_def dom_labels_def name_of_name_at [OF example_names(3)] example_server_def lower_name_def
        suffix_Cons tolower_def)
  have r: "rejects_for example_server = None" by (simp add: rejects_for_def serv_has_rejectlist_def example_server_def)
  have u: "filter is_up (sp_atup_a example_server) = [\<lparr>is_up = True, at_a = [10, 0, 0, 2]\<rparr>]" by (simp add: example_server_def)
  have m: "\<forall>k. mem (init_cache (\<lambda>_. True)) k" by (simp add: init_cache_def)
  have p: "list_all (\<lambda>sp. slist_ok (sp_alist sp) \<and> sp_rootserver sp = 0 \<and> \<not> sp_rand_servers sp) (wd_servers example_world)"
    using example_slist by (simp add: example_world_def) (simp add: example_server_def)
  have e: "list_ex is_up (sp_atup_a example_server)" by (simp add: example_server_def)
  have w: "wd_servers example_world = [example_server]" by (simp add: example_world_def)
  from select_servers_exact [OF m p example_names(1,2), of example_conf]
  have "\<exists>m. select_servers example_conf [1, 97, 0] example_world (init_cache (\<lambda>_. True)) =
    Some (list_ex (\<lambda>sp. allowed sp [[97]] \<and> list_ex is_up (sp_atup_a sp)) [example_server],
      all_servers example_conf [[97]] [example_server], example_world, (init_cache (\<lambda>_. True))\<lparr>mem := m\<rparr>)" unfolding w by blast
  then show ?thesis by (simp add: a e all_servers_def up_servers_def r u)
qed

subsection \<open>The decision to ask\<close>

text \<open>The set that answers a question for an ordinary type: an alias, or the set itself.\<close>

definition answering_set :: "nat \<Rightarrow> dns_cent_t \<Rightarrow> rr_set_t option" where
  "answering_set thint c = (case getrrset c T_CNAME of
     Some s \<Rightarrow> if has (rs_flags s) CF_NEGATIVE then getrrset c thint else Some s
   | None \<Rightarrow> getrrset c thint)"

text \<open>
  C17.  For an ordinary type, an entry of the cache is used without a question to the servers exactly when the name is
  known not to exist and that knowledge has not expired, or the set that answers the question is there and either is
  local or has not expired.
\<close>

theorem requery_decision:
  assumes "T_MIN \<le> thint" "thint \<le> T_MAX" "0 < queryts"
  shows "fst (needs_requery thint queryts c) = (\<not> (if negative c then queryts \<le> neg_ts c + CLAT_ADJ (neg_ttl c)
    else case answering_set thint c of None \<Rightarrow> False
      | Some s \<Rightarrow> has (rs_flags s) CF_LOCAL \<or> queryts \<le> rs_ts s + CLAT_ADJ (rs_ttl s)))"
proof -
  have q: "thint \<noteq> QT_ALL" "\<not> QT_MIN \<le> thint" using assms(2) by (simp_all add: T_MAX_def qt_consts)
  have h0: "\<not> has 0 x" for x by (simp add: has_def)
  show ?thesis
  proof (cases "negative c")
    case True
    then show ?thesis by (auto simp: needs_requery_def)
  next
    case False
    show ?thesis
    proof (cases "\<exists>s. getrrset c T_CNAME = Some s \<and> \<not> has (rs_flags s) CF_NEGATIVE")
      case True
      with False q show ?thesis by (auto simp: needs_requery_def entry_status_def set_flags_ttl_def answering_set_def Let_def)
    next
      case noc: False
      then have a: "answering_set thint c = getrrset c thint" by (auto simp: answering_set_def split: option.splits)
      let ?e = "set_flags_ttl thint c (0, 0)"
      have e: "entry_status thint queryts c = (fst (snd ?e), snd (snd ?e),
          fst ?e \<and> has (rs_flags (the (getrrset c thint))) CF_NEGATIVE \<and> snd (snd ?e) \<ge> queryts)"
        using noc q(1) assms(1,2) by (cases "getrrset c T_CNAME") (auto simp: entry_status_def set_flags_ttl_def Let_def split: prod.splits)
      show ?thesis
      proof (cases "getrrset c thint")
        case None
        with False q e a assms(3) h0 show ?thesis by (simp add: needs_requery_def set_flags_ttl_def)
      next
        case (Some s)
        with False q e a show ?thesis by (auto simp: needs_requery_def set_flags_ttl_def Let_def)
      qed
    qed
  qed
qed

theorem requery_decision_witness:
  "fst (needs_requery T_A 1000 example_cent) = (\<not> (if negative example_cent then 1000 \<le> neg_ts example_cent + CLAT_ADJ (neg_ttl example_cent)
    else case answering_set T_A example_cent of None \<Rightarrow> False
      | Some s \<Rightarrow> has (rs_flags s) CF_LOCAL \<or> 1000 \<le> rs_ts s + CLAT_ADJ (rs_ttl s)))"
  by (rule requery_decision) (simp_all add: rr_consts)

subsection \<open>Answers without a question to the servers\<close>

text \<open>With every server out of reach, the exchange ends with a failure and changes nothing.\<close>

definition unreachable :: "'w asking" where
  "unreachable serv name thint soa w st = Some (RC_SERVFAIL, None, False, soa, w, st)"

interpretation offline: name_servers unreachable "\<lambda>w. w"
  by unfold_locales (auto simp: unreachable_def finds_def)

lemma local_answer:
  assumes "cache_good st" "name_at name 0 ls" "wf_name ls"
    and "lookup_cache (wd_time w 0) name True st = Some (Some c, k, st')" "has (ce_flags c) DF_LOCAL"
  shows "\<exists>soa'. \<forall>ask test_onquery. p_dns_cached_resolve ask test_onquery g name thint queryts soa w st =
    Some (if negative c \<or> k = w_locnerr then (RC_NAMEERR, None, soa', snd (wd_now w), st') else (RC_CACHED, Some c, soa', snd (wd_now w), st'))"
proof -
  from lookup_cache_good [OF assms(1-3), of "wd_time w 0" True] assms(4) have good: "cache_good st'" "cent_good c" by auto
  from local_soa_ok [OF good, of soa] obtain soa' where "local_soa c soa st' = Some soa'" by blast
  with assms(4,5) have "lookup_cache_status name thint queryts soa w st =
      Some (if negative c \<or> k = w_locnerr then (RC_NAMEERR, None, 0, soa', snd (wd_now w), st') else (RC_OK, Some c, 0, soa, snd (wd_now w), st'))"
    by (simp add: lookup_cache_status_def wd_now_def)
  then show ?thesis by (cases "negative c \<or> k = w_locnerr") (auto simp: p_dns_cached_resolve_def)
qed

lemma fresh_answer:
  assumes "lookup_cache (wd_time w 0) name True st = Some (Some c, k, st')" "\<not> has (ce_flags c) DF_LOCAL"
    and "\<not> fst (needs_requery thint queryts c)"
  shows "p_dns_cached_resolve ask test_onquery g name thint queryts soa w st =
    (let w' = (if rc_onquery g then test_onquery (snd (wd_now w)) else snd (wd_now w)) in
     Some (if rc_lndown_kluge g \<and> \<not> has (snd (needs_requery thint queryts c)) CF_LOCAL \<and> link_down w'
       then (RC_SERVFAIL, None, soa, w', st') else (RC_CACHED, Some c, soa, w', st')))"
  using assms by (cases "needs_requery thint queryts c") (simp add: p_dns_cached_resolve_def lookup_cache_status_def wd_now_def Let_def)

text \<open>
  C19.  A name of the local configuration, and a name whose entry in the cache need not be asked for again, is answered
  without a question to any server, whatever the servers would do.  A local name is answered by its entry at once: not
  even the test of the link is made.  For any other name the link is tested first if it is to be tested before queries;
  if then no server is up, the option \<^verbatim>\<open>linkdown_kluge\<close> is set and the sets that answer the question are not local, the
  answer is a failure of the servers, and in every other case it is that of the entry.  Nothing but the clock, the state
  of the servers through that test, and the cache is touched.
\<close>

definition entry_answer :: "dns_cent_t \<Rightarrow> wild \<Rightarrow> byte \<Rightarrow> 'w \<Rightarrow> cache \<Rightarrow> rc \<times> dns_cent_t option \<times> byte \<times> 'w \<times> cache" where
  "entry_answer c k soa w st = (if negative c \<or> has (ce_flags c) DF_LOCAL \<and> k = w_locnerr then (RC_NAMEERR, None, soa, w, st)
     else (RC_OK, Some c, soa, w, st))"

theorem answered_from_cache:
  assumes "cache_good st" "name_at name 0 ls" "wf_name ls"
    and "lookup_cache (wd_time w 0) name True st = Some (Some c, k, st')"
    and "has (ce_flags c) DF_LOCAL \<or> \<not> fst (needs_requery thint queryts c)"
  shows "\<exists>soa'. \<forall>ask test_onquery. r_dns_cached_resolve ask test_onquery g soa name thint queryts w st =
    (let w1 = snd (wd_now w); w2 = (if rc_onquery g then test_onquery w1 else w1) in
     Some (if has (ce_flags c) DF_LOCAL then entry_answer c k soa' w1 st'
       else if rc_lndown_kluge g \<and> \<not> has (snd (needs_requery thint queryts c)) CF_LOCAL \<and> link_down w2
       then (RC_SERVFAIL, None, soa, w2, st')
       else entry_answer c k soa' w2 st'))"
proof (cases "has (ce_flags c) DF_LOCAL")
  case True
  from local_answer [OF assms(1-4) True, of g thint queryts soa] obtain soa' where
    p: "\<And>ask test_onquery. p_dns_cached_resolve ask test_onquery g name thint queryts soa w st =
      Some (if negative c \<or> k = w_locnerr then (RC_NAMEERR, None, soa', snd (wd_now w), st') else (RC_CACHED, Some c, soa', snd (wd_now w), st'))" by blast
  show ?thesis using True by (intro exI [of _ soa'] allI) (simp add: r_dns_cached_resolve_def p entry_answer_def)
next
  case False
  with assms(5) have "\<not> fst (needs_requery thint queryts c)" by simp
  note p = fresh_answer [OF assms(4) False this]
  show ?thesis using False
    by (intro exI [of _ "if negative c then c_soa c else soa"] allI) (simp add: r_dns_cached_resolve_def p entry_answer_def Let_def)
qed

text \<open>A name that the configuration says does not exist.\<close>

definition negated_cent :: dns_cent_t where
  "negated_cent = \<lparr>ce_qname = [1, 97, 0], ce_cs = sizeof_dns_cent_t + 3, ce_num_rrs = 0, ce_flags = DF_NEGATIVE OR DF_LOCAL,
     neg_lent = None, neg_ttl = 900, neg_ts = 1000, rrmu = replicate NRRMU None, rrext = None, c_ns = cundef, c_soa = cundef\<rparr>"

lemma negated_cent_good: "cent_good negated_cent"
proof -
  have n: "negative negated_cent" by code_simp
  have "enc [[97 :: byte]] = [1, 97, 0]" by (simp add: enc_def)
  with n example_names(2) have "cent_ok negated_cent"
    by (auto simp: cent_ok_def cent_shape_def cent_size_def num_sets_def slots_def negated_cent_def intro!: exI [of _ "[[97]]"])
  moreover have "cent_data_ok negated_cent" unfolding cent_data_type by (rule cent_data_neg [OF n])
  ultimately show ?thesis by (simp add: cent_good_def)
qed

lemma negated_pass:
  "map_option (\<lambda>(again, st). (again, map_option (\<lambda>(r, k, st). (r, k)) (lookup_cache 1000 [1, 97, 0] True st)))
    (add_cache_pass (rc_cache example_conf) 1000 negated_cent (init_cache (\<lambda>_. True))) = Some (False, Some (Some negated_cent, w_none))"
  by code_simp

lemma negated_lookup:
  assumes "add_cache (rc_cache example_conf) 1000 negated_cent (init_cache (\<lambda>_. True)) = Some st"
  obtains st' where "lookup_cache 1000 [1, 97, 0] True st = Some (Some negated_cent, w_none, st')"
proof -
  from negated_pass obtain st1 where
    p: "add_cache_pass (rc_cache example_conf) 1000 negated_cent (init_cache (\<lambda>_. True)) = Some (False, st1)"
      "map_option (\<lambda>(r, k, st). (r, k)) (lookup_cache 1000 [1, 97, 0] True st1) = Some (Some negated_cent, w_none)" by auto
  from p(1) have "add_cache (rc_cache example_conf) 1000 negated_cent (init_cache (\<lambda>_. True)) = Some st1"
    by (subst add_cache.simps) simp
  with assms p(2) that show ?thesis by auto
qed

theorem answered_from_cache_witness:
  "\<exists>st soa' st'. cache_good st \<and> (\<forall>ask test_onquery. r_dns_cached_resolve ask test_onquery example_conf cundef [1, 97, 0] T_A 1000 example_world st =
    Some (RC_NAMEERR, None, soa', snd (wd_now example_world), st'))"
proof -
  from add_cache_good [OF init_cache_good negated_cent_good] obtain st where
    st: "add_cache (rc_cache example_conf) 1000 negated_cent (init_cache (\<lambda>_. True)) = Some st" "cache_good st" by blast
  from negated_lookup [OF st(1)] obtain st' where l: "lookup_cache 1000 [1, 97, 0] True st = Some (Some negated_cent, w_none, st')" .
  have n: "negative negated_cent" "has (ce_flags negated_cent) DF_LOCAL" by code_simp+
  have "lookup_cache (wd_time example_world 0) [1, 97, 0] True st = Some (Some negated_cent, w_none, st')"
    using l by (simp add: example_world_def)
  from answered_from_cache [OF st(2) example_names(1,2) this, of T_A 1000 example_conf cundef] n st(2) show ?thesis
    by (auto simp: entry_answer_def)
qed


text \<open>An entry with a set that is not to be purged, long after it has expired, in a cache of its own.\<close>

definition stale_cent :: dns_cent_t where
  "stale_cent = \<lparr>ce_qname = [1, 97, 0], ce_cs = sizeof_dns_cent_t + 3 + sizeof_rr_set_t + sizeof_rr_bucket_t + 4, ce_num_rrs = 1, ce_flags = 0,
     neg_lent = None, neg_ttl = 0, neg_ts = 0,
     rrmu = Some \<lparr>rs_lent = Some 0, rs_ttl = 120, rs_ts = 1000, rs_flags = CF_NOPURGE, rs_rrs = [[127, 0, 0, 1]]\<rparr> # replicate (NRRMU - 1) None,
     rrext = None, c_ns = cundef, c_soa = cundef\<rparr>"

definition stale_cache :: cache where
  "stale_cache = (let (k, h) = the (dns_hash [1, 97, 0]) in
     \<lparr>heap = [1 \<mapsto> stale_cent], rrset_l = [\<lparr>le_id = 0, le_cent = 1, le_idx = Some 0\<rparr>], buckets = mk_dns_hash[k := [\<lparr>rhash = h, data = 1\<rparr>]],
      cache_size = ce_cs stale_cent, ent_num = 1, insert_sort = True, mem = \<lambda>_. True, next_addr = 2\<rparr>)"

lemma stale_lookup: "map_option (\<lambda>(r, k, st). (r, k)) (lookup_cache 5000 [1, 97, 0] True stale_cache) = Some (Some (strip_cent stale_cent), w_none)"
  by code_simp


subsection \<open>The resolver and the daemon\<close>



context name_servers begin

lemma daemon_query_ok:
  assumes "cache_good (w_cache w)" "world_ok (w_net w)"
  shows "\<exists>v. query_verdict m v \<and>
      processed_ok world_ok (dns_cached_resolve ask test_onquery g) conf m udp w v (process_query (dns_cached_resolve ask test_onquery g) conf m udp w) \<or>
    (\<exists>ans udp' rco w'. process_query (dns_cached_resolve ask test_onquery g) conf m udp w = Some (ans, udp', rco, w') \<and> cache_good (w_cache w') \<and>
       world_ok (w_net w') \<and> no_memory conf m (r_mem (w_ans w)) ans)"
  by (rule daemon.process_query_ok [OF conjI [OF assms]])

end


text \<open>A query of type A for the name of one letter.\<close>

definition example_query :: "byte list" where
  "example_query = [0x12, 0x34, 1, 0, 0, 1, 0, 0, 0, 0, 0, 0, 1, 97, 0, 0, 1, 0, 1]"

definition example_work :: "unit world work" where
  "example_work = \<lparr>w_ans = \<lparr>r_hdr = start_hdr (the (get_hdr example_query)), r_body = [], r_alloc = 0, r_cb = [], r_mem = \<lambda>_. True\<rparr>,
     w_sva = [], w_ar = [], w_cache = init_cache (\<lambda>_. True), w_net = example_world, w_rand = \<lambda>_. 0, w_time = \<lambda>_. 1000\<rparr>"


end
