(* ===== verification/Spec2Isabelle.thy ===== *)
theory Spec2Isabelle
  imports Names_Print Disk_Trip Locks Message Daemon
begin

text \<open>
  Verification of \<^verbatim>\<open>pdnsd\<close>, the caching DNS proxy that OrbotLibrary ships under
  \<^verbatim>\<open>library/orbotservice/src/main/jniLibs/pdnsd\<close>; all files named below are in its directory \<^verbatim>\<open>src\<close>.

  \<^bold>\<open>The program.\<close>  A client sends a datagram or a TCP message.  \<^verbatim>\<open>process_query\<close> (\<^verbatim>\<open>dns_answer.c\<close>) decodes it and
  \<^verbatim>\<open>compose_answer\<close> builds the reply: for every question it follows the aliases, asking the resolver for each name.
  The resolver (\<^verbatim>\<open>p_dns_cached_resolve\<close> in \<^verbatim>\<open>dns_query.c\<close>) looks at the cache, decides whether its knowledge is
  still good, and if not chooses the servers and asks them; the records of the reply are read into cache entries by
  \<^verbatim>\<open>rrs2cent\<close> and go into the cache.  The cache (\<^verbatim>\<open>cache.c\<close>) is a hash table of entries (\<^verbatim>\<open>hash.c\<close>) together with a
  doubly linked list of all record sets in order of age, which serves to purge it; a lock with readers and writers
  protects it, and it is written to disk and read back.  Names are kept with length bytes (\<^verbatim>\<open>helpers.c\<close>) and are
  compressed in messages (\<^verbatim>\<open>dns.c\<close>).

  \<^bold>\<open>Conventions.\<close>  Memory is a list of bytes; reading or writing outside of it, and following a null pointer, yields
  \<open>None\<close>, so that a theorem that says \<open>f x = Some y\<close> says that the code runs into none of these and that it returns.
  Errors of the code are values: a boolean, a code of type \<open>rc\<close>, or a sum.  The words of the code are words of their
  width; lengths, indices and offsets are \<open>nat\<close>, times \<open>int\<close>.  The allocator is an oracle (\<open>alloc\<close>, a sequence of
  booleans): every theorem holds for every pattern of failing allocations unless it says otherwise.  The clock and
  \<^verbatim>\<open>random\<close> are sequences as well.  The build is that of \<^verbatim>\<open>config.h\<close>: IPv4 only, poll, no debugging.

  \<^bold>\<open>Theories.\<close>
  \<^item> \<^verbatim>\<open>Prelude\<close>: memory, reading and writing, words as bytes; \<^verbatim>\<open>Names\<close>, \<^verbatim>\<open>Names_Print\<close>: \<^verbatim>\<open>helpers.c\<close> (length, comparison,
    parsing and printing of names, \<^verbatim>\<open>escapestr\<close>, \<^verbatim>\<open>hexdump\<close>).  \<open>name_at\<close> and \<open>wf_name\<close> say which labels a place of memory
    holds; each function is proved against lists of labels.
  \<^item> \<^verbatim>\<open>Wire\<close>, \<^verbatim>\<open>Message\<close>: \<^verbatim>\<open>dns.c\<close>, \<^verbatim>\<open>dns.h\<close>.  \<open>cname m p n d ls\<close> is the meaning of a compressed name; decompression is
    proved sound and complete for it, and compression against decompression.  \<^verbatim>\<open>RR_Types\<close>: the tables of \<^verbatim>\<open>rr_types.h\<close>.
  \<^item> \<^verbatim>\<open>Hash\<close>: \<^verbatim>\<open>hash.c\<close>, with the locale \<open>keyed_table\<close> of a finite map and its interpretation.
  \<^item> \<^verbatim>\<open>Cent\<close>: cache entries (\<^verbatim>\<open>init_cent\<close>, \<^verbatim>\<open>add_cent_rr\<close>, \<^verbatim>\<open>del_cent_rrset\<close>, \<^verbatim>\<open>copy_cent\<close>); \<open>cent_ok\<close> is their invariant, with
    the count of bytes and of sets.  \<^verbatim>\<open>RRList\<close>: the list of sets, as a list and as doubly linked nodes (locale \<open>node_list\<close>),
    and its merge sort.
  \<^item> \<^verbatim>\<open>Cache\<close>: the operations on the whole cache.  \<^verbatim>\<open>Cache_Inv\<close>, \<^verbatim>\<open>Cache_Purge\<close>, \<^verbatim>\<open>Cache_Add\<close>, \<^verbatim>\<open>Cache_Enter\<close>, \<^verbatim>\<open>Cache_Ops\<close>,
    \<^verbatim>\<open>Cache_Lookup\<close>: \<open>ok_but\<close> says that table, list, links and accounts agree except for the entries being worked on;
    the locale \<open>open_entry\<close> is what adding a new entry and updating an old one have in common.  \<^verbatim>\<open>Cache_System\<close>: the
    operations as a transition system.  \<^verbatim>\<open>Cache_Data\<close>: properties of the records carried through the cache.
  \<^item> \<^verbatim>\<open>Disk\<close>, \<^verbatim>\<open>Disk_Trip\<close>: the cache file.  \<^verbatim>\<open>Locks\<close>: the lock as a step relation of any number of threads.
  \<^item> \<^verbatim>\<open>Parse_Records\<close>: \<^verbatim>\<open>rrs2cent\<close> and \<^verbatim>\<open>rr_to_cache\<close> of \<^verbatim>\<open>dns_query.c\<close>, proved against a grammar of records.
  \<^item> \<^verbatim>\<open>Reply\<close>: \<^verbatim>\<open>add_rr\<close> and the OPT record; \<^verbatim>\<open>Answer\<close>: \<^verbatim>\<open>compose_answer\<close> with all it calls; \<^verbatim>\<open>Queries\<close>: \<^verbatim>\<open>process_query\<close>.
    \<^verbatim>\<open>Answer_Ok\<close>, \<^verbatim>\<open>Compose_Ok\<close>, \<^verbatim>\<open>Queries_Ok\<close> prove them: \<open>holds\<close> says which records the sections of the message under
    construction have, \<open>query_verdict\<close> what a datagram deserves, \<open>processed_ok\<close> that the reply carries that out.  The
    resolver is the parameter of the locale \<open>name_service\<close>.
  \<^item> \<^verbatim>\<open>Servers\<close>, \<^verbatim>\<open>Servers_Ok\<close>: the choice of the servers in \<^verbatim>\<open>p_dns_resolve\<close>.  \<^verbatim>\<open>Resolve\<close>, \<^verbatim>\<open>Resolve_Ok\<close>: the resolver; the
    locale \<open>name_servers\<close> is its view of the exchange with the servers, and a sublocale declaration shows that the
    resolver is a \<open>name_service\<close>.  \<^verbatim>\<open>Daemon\<close>: the properties of the whole.

  \<^bold>\<open>Bounds.\<close>  A chain of aliases has at most \<^verbatim>\<open>MAX_HOPS\<close> + 1 = 21 questions, so \<open>answer_chain\<close> recurs over that number.
  \<open>add_cache\<close> goes back to its start at most once (\<open>add_cache_returns\<close>).  Loops over memory end because they run inside
  of it; \<open>purge_loop\<close>, \<open>rrl_search\<close>, \<open>restore_prev\<close> and \<open>add_cache\<close> are partial functions whose termination is proved.

  \<^bold>\<open>Not modelled.\<close>  Sockets, polling and the exchange with the servers (\<^verbatim>\<open>p_query_sm\<close>, \<^verbatim>\<open>p_exec_query\<close>,
  \<^verbatim>\<open>p_recursive_query\<close>, \<^verbatim>\<open>auth_ok\<close>) are the parameter \<open>ask\<close> of the resolver with the contract of the locale \<open>name_servers\<close>;
  the availability tests of \<^verbatim>\<open>servers.c\<close>, \<^verbatim>\<open>icmp.c\<close> and \<^verbatim>\<open>netdev.c\<close> are the parameter \<open>test_onquery\<close>.  The configuration
  parser, the control socket (\<^verbatim>\<open>status.c\<close>, \<^verbatim>\<open>pdnsd-ctl\<close>), start-up, logging, signals and threads (\<^verbatim>\<open>main.c\<close>, \<^verbatim>\<open>error.c\<close>,
  \<^verbatim>\<open>thread.c\<close>, the server threads of \<^verbatim>\<open>dns_answer.c\<close>) are input and output; the application in Java and Kotlin uses the
  program as a process.
\<close>

end
